(* ===== verification/Prelude.thy ===== *)
theory Prelude
  imports Main "HOL-Library.Multiset" "HOL-Library.AList" "HOL-Library.Monad_Syntax"
begin

text \<open>
  Shared vocabulary of the development: Rust strings as lists of Unicode scalar values,
  the parts of the Rust standard library the modelled code calls (trimming, prefixes,
  splitting, stable sorting by a comparator, \<open>partition_point\<close>, association lists for
  \<open>HashMap\<close> and \<open>BTreeMap\<close>), and two interfaces: \<open>total_cmp\<close> (what \<open>sort_by\<close>
  demands of its comparator) and \<open>transition_system\<close> (invariants of event-driven state).
\<close>

section \<open>Lemma collections\<close>

named_theorems inv_pres \<open>operations that keep a component's invariant\<close>
named_theorems alist_simps \<open>lookup after an update of an association list\<close>

section \<open>Characters and strings\<close>

text \<open>
  A Rust \<open>char\<close> is a Unicode scalar value; a \<open>String\<close> is a sequence of them, stored as
  UTF-8. \<open>byte_len\<close> is \<open>str::len\<close>, \<open>length\<close> is \<open>chars().count()\<close>.
  \<open>rs\<close> turns an ASCII literal into a Rust string.
\<close>

type_synonym rchar = nat
type_synonym rstring = "rchar list"

definition rs :: "string \<Rightarrow> rstring" where
  "rs s = map of_char s"

definition len_utf8 :: "rchar \<Rightarrow> nat" where
  "len_utf8 c = (if c < 0x80 then 1 else if c < 0x800 then 2 else if c < 0x10000 then 3 else 4)"

definition byte_len :: "rstring \<Rightarrow> nat" where
  "byte_len s = sum_list (map len_utf8 s)"

definition is_ascii :: "rstring \<Rightarrow> bool" where
  "is_ascii s = (\<forall>c \<in> set s. c < 128)"

text \<open>\<open>char::is_whitespace\<close>: the Unicode property White_Space.\<close>

definition is_whitespace :: "rchar \<Rightarrow> bool" where
  "is_whitespace c \<longleftrightarrow> (9 \<le> c \<and> c \<le> 13) \<or> c = 32 \<or> c = 0x85 \<or> c = 0xA0 \<or> c = 0x1680 \<or>
     (0x2000 \<le> c \<and> c \<le> 0x200A) \<or> c = 0x2028 \<or> c = 0x2029 \<or> c = 0x202F \<or> c = 0x205F \<or> c = 0x3000"

text \<open>\<open>u8::is_ascii_whitespace\<close> leaves out the vertical tab, U+000B.\<close>

definition is_ascii_whitespace :: "rchar \<Rightarrow> bool" where
  "is_ascii_whitespace c \<longleftrightarrow> c = 9 \<or> c = 10 \<or> c = 12 \<or> c = 13 \<or> c = 32"

definition is_ascii_digit :: "rchar \<Rightarrow> bool" where
  "is_ascii_digit c \<longleftrightarrow> 48 \<le> c \<and> c \<le> 57"

text \<open>
  \<open>str::to_lowercase\<close> and \<open>to_ascii_lowercase\<close> agree on ASCII, which is all the modelled
  keywords use; letters outside ASCII are left as they are.
\<close>

definition lower_char :: "rchar \<Rightarrow> rchar" where
  "lower_char c = (if 65 \<le> c \<and> c \<le> 90 then c + 32 else c)"

definition to_lowercase :: "rstring \<Rightarrow> rstring" where
  "to_lowercase s = map lower_char s"

definition trim_start :: "rstring \<Rightarrow> rstring" where
  "trim_start s = dropWhile is_whitespace s"

definition trim_end :: "rstring \<Rightarrow> rstring" where
  "trim_end s = rev (dropWhile is_whitespace (rev s))"

definition trim :: "rstring \<Rightarrow> rstring" where
  "trim s = trim_end (trim_start s)"

definition trim_end_matches :: "rchar \<Rightarrow> rstring \<Rightarrow> rstring" where
  "trim_end_matches c s = rev (dropWhile (\<lambda>x. x = c) (rev s))"

fun strip_prefix :: "'a list \<Rightarrow> 'a list \<Rightarrow> 'a list option" where
  "strip_prefix [] s = Some s"
| "strip_prefix (p # ps) [] = None"
| "strip_prefix (p # ps) (c # s) = (if p = c then strip_prefix ps s else None)"

definition starts_with :: "'a list \<Rightarrow> 'a list \<Rightarrow> bool" where
  "starts_with p s \<longleftrightarrow> strip_prefix p s \<noteq> None"

text \<open>\<open>s.split(c)\<close>: the pieces between the separators, empty ones included.\<close>

fun split_char :: "rchar \<Rightarrow> rstring \<Rightarrow> rstring list" where
  "split_char c [] = [[]]"
| "split_char c (x # xs) =
     (if x = c then [] # split_char c xs
      else (case split_char c xs of [] \<Rightarrow> [[x]] | p # ps \<Rightarrow> (x # p) # ps))"

text \<open>\<open>s.split_ascii_whitespace()\<close>: the maximal runs of other characters.\<close>

fun split_ws :: "rstring \<Rightarrow> rstring \<Rightarrow> rstring list" where
  "split_ws acc [] = (if acc = [] then [] else [rev acc])"
| "split_ws acc (x # xs) =
     (if is_ascii_whitespace x
      then (if acc = [] then split_ws [] xs else rev acc # split_ws [] xs)
      else split_ws (x # acc) xs)"

definition split_ascii_whitespace :: "rstring \<Rightarrow> rstring list" where
  "split_ascii_whitespace s = split_ws [] s"

text \<open>
  Byte offsets into a \<open>String\<close>. \<open>split_at_byte\<close> is \<open>None\<close> where Rust panics: past the end,
  or inside the encoding of a character. \<open>checked_sub\<close> is \<open>None\<close> where \<open>usize\<close> underflows.
\<close>

fun split_at_byte :: "rstring \<Rightarrow> nat \<Rightarrow> (rstring \<times> rstring) option" where
  "split_at_byte [] n = (if n = 0 then Some ([], []) else None)"
| "split_at_byte (c # s) n =
     (if n = 0 then Some ([], c # s)
      else if len_utf8 c \<le> n
      then map_option (\<lambda>(a, b). (c # a, b)) (split_at_byte s (n - len_utf8 c))
      else None)"

definition insert_str :: "rstring \<Rightarrow> nat \<Rightarrow> rstring \<Rightarrow> rstring option" where
  "insert_str s i t = do { (a, b) \<leftarrow> split_at_byte s i; Some (a @ t @ b) }"

definition replace_range :: "rstring \<Rightarrow> nat \<Rightarrow> nat \<Rightarrow> rstring \<Rightarrow> rstring option" where
  "replace_range s i j t =
     do { (a, _) \<leftarrow> split_at_byte s i; (_, b) \<leftarrow> split_at_byte s j; if i \<le> j then Some (a @ t @ b) else None }"

definition checked_sub :: "nat \<Rightarrow> nat \<Rightarrow> nat option" where
  "checked_sub a b = (if b \<le> a then Some (a - b) else None)"

text \<open>A Rust loop whose body may panic or return an error: \<open>None\<close> ends it.\<close>

fun fold_opt :: "('t \<Rightarrow> 'v \<Rightarrow> 'v option) \<Rightarrow> 't list \<Rightarrow> 'v \<Rightarrow> 'v option" where
  "fold_opt f [] v = Some v"
| "fold_opt f (t # ts) v = Option.bind (f t v) (fold_opt f ts)"

lemma fold_opt_append: "fold_opt f (xs @ ys) v = Option.bind (fold_opt f xs v) (fold_opt f ys)"
  by (induction xs arbitrary: v) (auto split: Option.bind_split)

lemma fold_opt_inv:
  assumes "P v" "\<And>t w. t \<in> set ts \<Longrightarrow> P w \<Longrightarrow> \<exists>w'. f t w = Some w' \<and> P w'"
  shows "\<exists>w. fold_opt f ts v = Some w \<and> P w"
  using assms
proof (induction ts arbitrary: v)
  case (Cons t ts)
  then obtain w where "f t v = Some w" "P w" by force
  with Cons show ?case by auto
qed simp

text \<open>
  Total correctness of a computation that may panic: it returns, and what it returns satisfies
  the postcondition. The simplifier pushes the postcondition through a sequence of steps.
\<close>

definition ends_in :: "'v option \<Rightarrow> ('v \<Rightarrow> bool) \<Rightarrow> bool" where
  "ends_in m Q \<longleftrightarrow> (\<exists>v. m = Some v \<and> Q v)"

lemma ends_in_simps [simp]:
  "ends_in (Some v) Q = Q v"
  "ends_in None Q = False"
  "ends_in (Option.bind m f) Q = ends_in m (\<lambda>v. ends_in (f v) Q)"
  "ends_in (map_option h m) R = ends_in m (\<lambda>v. R (h v))"
  by (cases m; simp add: ends_in_def)+

lemma ends_in_if [simp]: "ends_in (if b then m else n) Q = (if b then ends_in m Q else ends_in n Q)"
  by simp

lemma ends_in_checked_sub [simp]: "ends_in (checked_sub a b) Q \<longleftrightarrow> b \<le> a \<and> Q (a - b)"
  by (simp add: checked_sub_def)

lemma ends_in_mono: "ends_in m P \<Longrightarrow> (\<And>v. P v \<Longrightarrow> Q v) \<Longrightarrow> ends_in m Q"
  by (auto simp: ends_in_def)

lemma ends_in_I: "m = Some v \<Longrightarrow> Q v \<Longrightarrow> ends_in m Q"
  by simp

lemma ends_in_conj: "ends_in m P \<Longrightarrow> ends_in m Q \<Longrightarrow> ends_in m (\<lambda>v. P v \<and> Q v)"
  by (auto simp: ends_in_def)

lemma ends_in_fold:
  assumes "P v" "\<And>t w. t \<in> set ts \<Longrightarrow> P w \<Longrightarrow> ends_in (f t w) P"
  shows "ends_in (fold_opt f ts v) P"
  using assms fold_opt_inv [of P v ts f] by (simp add: ends_in_def)

lemma rs_eq: "rs a = rs b \<longleftrightarrow> a = b"
  unfolding rs_def using inj_mapI [of "of_char :: char \<Rightarrow> nat"] by (auto simp: inj_def)

lemma checked_sub_Some [simp]: "b \<le> a \<Longrightarrow> checked_sub a b = Some (a - b)"
  by (simp add: checked_sub_def)

lemma len_utf8_pos [simp]: "0 < len_utf8 c"
  by (simp add: len_utf8_def)

lemma byte_len_simps [simp]:
  "byte_len [] = 0"
  "byte_len (c # s) = len_utf8 c + byte_len s"
  "byte_len (s @ t) = byte_len s + byte_len t"
  by (simp_all add: byte_len_def)

lemma strip_prefix_Some [simp]: "strip_prefix p s = Some r \<longleftrightarrow> s = p @ r"
  by (induction p s rule: strip_prefix.induct) auto

lemma strip_prefix_None: "strip_prefix p s = None \<longleftrightarrow> (\<nexists>r. s = p @ r)"
  by (metis option.distinct(1) option.exhaust strip_prefix_Some)

lemma starts_with_iff: "starts_with p s \<longleftrightarrow> (\<exists>r. s = p @ r)"
  by (auto simp: starts_with_def strip_prefix_None)

lemma split_char_not_Nil [simp]: "split_char c s \<noteq> []"
  by (induction s) (auto split: list.splits)

lemma split_char_no_sep: "p \<in> set (split_char c s) \<Longrightarrow> c \<notin> set p"
  by (induction s arbitrary: p) (force split: if_splits list.splits)+

lemma trim_trim_start: "trim_start (trim_start s) = trim_start s"
  by (simp add: trim_start_def)

lemma trim_start_hd: "trim_start s = c # r \<Longrightarrow> \<not> is_whitespace c"
  by (auto simp: trim_start_def dropWhile_eq_Cons_conv)

lemma is_ascii_simps [simp]:
  "is_ascii []"
  "is_ascii (c # s) \<longleftrightarrow> c < 128 \<and> is_ascii s"
  "is_ascii (s @ t) \<longleftrightarrow> is_ascii s \<and> is_ascii t"
  by (auto simp: is_ascii_def)

lemma byte_len_ascii: "is_ascii s \<Longrightarrow> byte_len s = length s"
  by (induction s) (auto simp: len_utf8_def)

lemma byte_len_eq_0 [simp]: "byte_len s = 0 \<longleftrightarrow> s = []"
  by (cases s) (auto simp: less_imp_neq)

lemma split_at_byte_append [simp]: "split_at_byte (a @ b) (byte_len a) = Some (a, b)"
proof (induction a)
  case Nil
  show ?case by (cases b) auto
qed auto

lemma split_at_byte_take: "split_at_byte s (byte_len (take k s)) = Some (take k s, drop k s)"
  using split_at_byte_append [of "take k s" "drop k s"] by simp

lemma byte_len_take_mono: "i \<le> j \<Longrightarrow> byte_len (take i s) \<le> byte_len (take j s)"
  by (induction s arbitrary: i j) (auto simp: take_Cons split: nat.splits)

lemma byte_len_take_less:
  assumes "i < j" "j \<le> length s"
  shows "byte_len (take i s) < byte_len (take j s)"
proof -
  have "take j s = take i s @ take (j - i) (drop i s)"
    using assms by (simp add: take_add [symmetric])
  moreover have "0 < byte_len (take (j - i) (drop i s))"
    using assms by (simp add: neq0_conv [symmetric] del: neq0_conv)
  ultimately show ?thesis by simp
qed

lemma byte_len_take_le: "byte_len (take k s) \<le> byte_len s"
  using byte_len_take_mono [of k "max k (length s)" s] by simp

section \<open>Orderings and stable sorting\<close>

text \<open>\<open>std::cmp::Ordering\<close> with its derived order \<open>Less < Equal < Greater\<close>.\<close>

datatype ordering = Less | Equal | Greater

instantiation ordering :: linorder
begin

definition ord_rank :: "ordering \<Rightarrow> nat" where
  "ord_rank o' = (case o' of Less \<Rightarrow> 0 | Equal \<Rightarrow> 1 | Greater \<Rightarrow> 2)"

definition less_eq_ordering :: "ordering \<Rightarrow> ordering \<Rightarrow> bool" where
  "less_eq_ordering a b \<longleftrightarrow> ord_rank a \<le> ord_rank b"

definition less_ordering :: "ordering \<Rightarrow> ordering \<Rightarrow> bool" where
  "less_ordering a b \<longleftrightarrow> ord_rank a < ord_rank b"

instance
  by standard
    (auto simp: less_eq_ordering_def less_ordering_def ord_rank_def split: ordering.splits)

end

fun ord_reverse :: "ordering \<Rightarrow> ordering" where
  "ord_reverse Less = Greater"
| "ord_reverse Equal = Equal"
| "ord_reverse Greater = Less"

fun then_with :: "ordering \<Rightarrow> ordering \<Rightarrow> ordering" where
  "then_with Equal b = b"
| "then_with a b = a"

definition lin_cmp :: "'a::linorder \<Rightarrow> 'a \<Rightarrow> ordering" where
  "lin_cmp a b = (if a < b then Less else if a = b then Equal else Greater)"

text \<open>\<open>str::cmp\<close> compares UTF-8 bytes, which is the lexicographic order of the scalar values.\<close>

fun str_cmp :: "rstring \<Rightarrow> rstring \<Rightarrow> ordering" where
  "str_cmp [] [] = Equal"
| "str_cmp [] (_ # _) = Less"
| "str_cmp (_ # _) [] = Greater"
| "str_cmp (a # s) (b # t) = then_with (lin_cmp a b) (str_cmp s t)"

text \<open>
  \<open>slice::sort_by\<close>: a stable sort. Its result is determined by stability and the
  comparator, so insertion sort computes it.
\<close>

fun insert_by :: "('a \<Rightarrow> 'a \<Rightarrow> ordering) \<Rightarrow> 'a \<Rightarrow> 'a list \<Rightarrow> 'a list" where
  "insert_by cmp x [] = [x]"
| "insert_by cmp x (y # ys) = (if cmp x y = Greater then y # insert_by cmp x ys else x # y # ys)"

definition sort_by :: "('a \<Rightarrow> 'a \<Rightarrow> ordering) \<Rightarrow> 'a list \<Rightarrow> 'a list" where
  "sort_by cmp xs = foldr (insert_by cmp) xs []"

lemma ord_reverse_simps [simp]:
  "ord_reverse (ord_reverse a) = a"
  "ord_reverse a = Equal \<longleftrightarrow> a = Equal"
  "ord_reverse a = Less \<longleftrightarrow> a = Greater"
  "ord_reverse a = Greater \<longleftrightarrow> a = Less"
  by (cases a; simp)+

lemma then_with_eqs:
  "then_with a b = Equal \<longleftrightarrow> a = Equal \<and> b = Equal"
  "then_with a b = Greater \<longleftrightarrow> a = Greater \<or> a = Equal \<and> b = Greater"
  "then_with a b = Less \<longleftrightarrow> a = Less \<or> a = Equal \<and> b = Less"
  "ord_reverse (then_with a b) = then_with (ord_reverse a) (ord_reverse b)"
  by (cases a; simp)+

lemma insert_by_mset [simp]: "mset (insert_by cmp x ys) = add_mset x (mset ys)"
  by (induction ys) auto

lemma insert_by_set [simp]: "set (insert_by cmp x ys) = insert x (set ys)"
  by (induction ys) auto

lemma sort_by_simps [simp]:
  "sort_by cmp [] = []"
  "sort_by cmp (x # xs) = insert_by cmp x (sort_by cmp xs)"
  by (simp_all add: sort_by_def)

lemma sort_by_mset [simp]: "mset (sort_by cmp xs) = mset xs"
  by (induction xs) auto

lemma sort_by_set [simp]: "set (sort_by cmp xs) = set xs"
  by (induction xs) auto

lemma sort_by_length [simp]: "length (sort_by cmp xs) = length xs"
  by (metis size_mset sort_by_mset)

lemma map_insert_by:
  assumes "\<And>y. y \<in> set ys \<Longrightarrow> cmp x y = cmp' (f x) (f y)"
  shows "map f (insert_by cmp x ys) = insert_by cmp' (f x) (map f ys)"
  using assms by (induction ys) auto

lemma map_sort_by:
  assumes "\<And>x y. x \<in> set xs \<Longrightarrow> y \<in> set xs \<Longrightarrow> cmp x y = cmp' (f x) (f y)"
  shows "map f (sort_by cmp xs) = sort_by cmp' (map f xs)"
  using assms
proof (induction xs)
  case (Cons x xs)
  then have "map f (insert_by cmp x (sort_by cmp xs)) = insert_by cmp' (f x) (map f (sort_by cmp xs))"
    by (intro map_insert_by) auto
  with Cons show ?case by simp
qed simp

text \<open>The contract of a comparator: what \<open>sort_by\<close> requires for a well-defined result.\<close>

locale total_cmp =
  fixes cmp :: "'a \<Rightarrow> 'a \<Rightarrow> ordering"
  assumes cmp_swap: "cmp y x = ord_reverse (cmp x y)"
    and cmp_trans: "cmp x y \<noteq> Greater \<Longrightarrow> cmp y z \<noteq> Greater \<Longrightarrow> cmp x z \<noteq> Greater"
begin

definition le :: "'a \<Rightarrow> 'a \<Rightarrow> bool" where
  "le x y \<longleftrightarrow> cmp x y \<noteq> Greater"

lemma cmp_refl [simp]: "cmp x x = Equal"
  using cmp_swap [of x x] by (cases "cmp x x") auto

lemma cmp_Less_iff: "cmp x y = Less \<longleftrightarrow> cmp y x = Greater"
  using cmp_swap [of x y] by simp

lemma cmp_Equal_sym: "cmp x y = Equal \<longleftrightarrow> cmp y x = Equal"
  using cmp_swap [of x y] by simp

lemma cmp_Less_trans:
  assumes "cmp x y \<noteq> Greater" "cmp y z \<noteq> Greater" "cmp x y = Less \<or> cmp y z = Less"
  shows "cmp x z = Less"
proof (rule ccontr)
  assume "cmp x z \<noteq> Less"
  then have "cmp z x \<noteq> Greater" by (simp add: cmp_Less_iff)
  then have "cmp y x \<noteq> Greater" "cmp z y \<noteq> Greater"
    using assms(1,2) cmp_trans [of y z x] cmp_trans [of z x y] by simp_all
  then show False using assms(3) by (simp add: cmp_Less_iff)
qed

lemma le_total: "le x y \<or> le y x"
  unfolding le_def using cmp_swap [of x y] by (cases "cmp x y") auto

lemma le_trans: "le x y \<Longrightarrow> le y z \<Longrightarrow> le x z"
  unfolding le_def by (rule cmp_trans)

lemma insert_by_sorted:
  "sorted_wrt le ys \<Longrightarrow> sorted_wrt le (insert_by cmp x ys)"
proof (induction ys)
  case (Cons y ys)
  show ?case
  proof (cases "cmp x y = Greater")
    case True
    then have "le y x" using le_total le_def by blast
    with Cons True show ?thesis by auto
  next
    case False
    then have "le x y" by (simp add: le_def)
    with Cons.prems False show ?thesis by (auto intro: le_trans)
  qed
qed simp

theorem sort_by_sorted: "sorted_wrt le (sort_by cmp xs)"
  by (induction xs) (auto intro: insert_by_sorted)

lemma Equal_class:
  assumes "cmp z x = Equal" and "cmp x y = Greater"
  shows "cmp z y \<noteq> Equal"
proof
  assume "cmp z y = Equal"
  then have "cmp y z = Equal" using cmp_swap [of z y] by simp
  moreover have "cmp x z = Equal" using assms(1) cmp_swap [of z x] by simp
  ultimately show False using assms(2) cmp_trans [of x z y] \<open>cmp z y = Equal\<close> by simp
qed

lemma insert_by_filter_Equal:
  "filter (\<lambda>y. cmp z y = Equal) (insert_by cmp x ys) =
     filter (\<lambda>y. cmp z y = Equal) (x # ys)"
  by (induction ys) (auto dest: Equal_class)

theorem sort_by_stable:
  "filter (\<lambda>y. cmp z y = Equal) (sort_by cmp xs) = filter (\<lambda>y. cmp z y = Equal) xs"
  by (induction xs) (auto simp: insert_by_filter_Equal)

end

interpretation lin_cmp: total_cmp "lin_cmp :: 'a::linorder \<Rightarrow> 'a \<Rightarrow> ordering"
  by unfold_locales (auto simp: lin_cmp_def split: if_splits)

lemma str_cmp_swap: "str_cmp t s = ord_reverse (str_cmp s t)"
proof (induction s t rule: str_cmp.induct)
  case (4 a s b t)
  then show ?case
    by (simp add: then_with_eqs lin_cmp.cmp_swap [of b a])
qed simp_all

lemma str_cmp_trans: "str_cmp s t \<noteq> Greater \<Longrightarrow> str_cmp t u \<noteq> Greater \<Longrightarrow> str_cmp s u \<noteq> Greater"
proof (induction s u arbitrary: t rule: str_cmp.induct)
  case (4 a s b u)
  from "4.prems" obtain c t' where t: "t = c # t'" by (cases t) auto
  from "4.prems" "4.IH" show ?case
    by (auto simp: t then_with_eqs lin_cmp_def split: if_splits)
qed (auto, (case_tac t; simp)+)

lemma str_cmp_Equal [simp]: "str_cmp s t = Equal \<longleftrightarrow> s = t"
  by (induction s t rule: str_cmp.induct) (auto simp: then_with_eqs lin_cmp_def)

interpretation str_cmp: total_cmp str_cmp
  by unfold_locales (rule str_cmp_swap, rule str_cmp_trans)

text \<open>Two comparators chained by \<open>then_with\<close>, a reversed one, and one on a key, are comparators.\<close>

lemma total_cmp_then:
  assumes "total_cmp f" and "total_cmp g"
  shows "total_cmp (\<lambda>a b. then_with (f a b) (g a b))"
proof
  fix x y z
  show "then_with (f y x) (g y x) = ord_reverse (then_with (f x y) (g x y))"
    using total_cmp.cmp_swap [OF assms(1), of x y] total_cmp.cmp_swap [OF assms(2), of x y]
    by (simp add: then_with_eqs)
next
  fix x y z
  assume a: "then_with (f x y) (g x y) \<noteq> Greater" and b: "then_with (f y z) (g y z) \<noteq> Greater"
  have fxy: "f x y \<noteq> Greater" and fyz: "f y z \<noteq> Greater"
    using a b by (auto simp: then_with_eqs)
  show "then_with (f x z) (g x z) \<noteq> Greater"
  proof (cases "f x y = Less \<or> f y z = Less")
    case True
    then have "f x z = Less" by (rule total_cmp.cmp_Less_trans [OF assms(1) fxy fyz])
    then show ?thesis by simp
  next
    case False
    then have "g x y \<noteq> Greater" "g y z \<noteq> Greater"
      using a b by (cases "f x y"; cases "f y z"; simp)+
    then have "g x z \<noteq> Greater" by (rule total_cmp.cmp_trans [OF assms(2)])
    moreover have "f x z \<noteq> Greater" by (rule total_cmp.cmp_trans [OF assms(1) fxy fyz])
    ultimately show ?thesis by (simp add: then_with_eqs)
  qed
qed

lemma total_cmp_rev: "total_cmp f \<Longrightarrow> total_cmp (\<lambda>a b. ord_reverse (f a b))"
proof
  fix x y z
  assume f: "total_cmp f"
  show "ord_reverse (f y x) = ord_reverse (ord_reverse (f x y))"
    using total_cmp.cmp_swap [OF f, of x y] by simp
next
  fix x y z
  assume f: "total_cmp f" and "ord_reverse (f x y) \<noteq> Greater" "ord_reverse (f y z) \<noteq> Greater"
  then have "f y x \<noteq> Greater" "f z y \<noteq> Greater"
    using total_cmp.cmp_swap [OF f, of x y] total_cmp.cmp_swap [OF f, of y z] by auto
  then have "f z x \<noteq> Greater" using total_cmp.cmp_trans [OF f, of z y x] by simp
  then show "ord_reverse (f x z) \<noteq> Greater"
    using total_cmp.cmp_swap [OF f, of x z] by auto
qed

lemma total_cmp_key: "total_cmp f \<Longrightarrow> total_cmp (\<lambda>a b. f (k a) (k b))"
  unfolding total_cmp_def by blast

lemma lin_cmp_key: "total_cmp (\<lambda>a b. lin_cmp (k a) (k b))"
  by (rule total_cmp_key [OF lin_cmp.total_cmp_axioms])

lemma str_cmp_key: "total_cmp (\<lambda>a b. str_cmp (k a) (k b))"
  by (rule total_cmp_key [OF str_cmp.total_cmp_axioms])

section \<open>Binary search\<close>

text \<open>
  \<open>slice::partition_point\<close> on a slice whose elements satisfying the predicate come first:
  the number of those elements. (On other slices its result is unspecified.)
\<close>

definition partition_point :: "('a \<Rightarrow> bool) \<Rightarrow> 'a list \<Rightarrow> nat" where
  "partition_point P xs = length (takeWhile P xs)"

lemma partition_point_le [simp]: "partition_point P xs \<le> length xs"
  by (simp add: partition_point_def length_takeWhile_le)

lemma take_partition_point:
  assumes "sorted_wrt (\<lambda>a b. P b \<longrightarrow> P a) xs"
  shows "take (partition_point P xs) xs = filter P xs"
    and "drop (partition_point P xs) xs = filter (\<lambda>x. \<not> P x) xs"
proof -
  have "takeWhile P xs = filter P xs \<and> dropWhile P xs = filter (\<lambda>x. \<not> P x) xs"
    using assms
  proof (induction xs)
    case (Cons x xs)
    then show ?case
      by (auto simp: filter_empty_conv intro!: filter_True [symmetric])
  qed simp
  then show "take (partition_point P xs) xs = filter P xs"
    and "drop (partition_point P xs) xs = filter (\<lambda>x. \<not> P x) xs"
    by (metis partition_point_def takeWhile_eq_take dropWhile_eq_drop)+
qed

section \<open>Maps\<close>

text \<open>
  \<open>HashMap\<close> and \<open>BTreeMap\<close> as association lists with distinct keys:
  \<open>map_of\<close> is \<open>get\<close>, \<open>AList.update\<close> is \<open>insert\<close>, \<open>AList.delete\<close> is \<open>remove\<close>.
\<close>

definition has_key :: "('k \<times> 'v) list \<Rightarrow> 'k \<Rightarrow> bool" where
  "has_key al k \<longleftrightarrow> map_of al k \<noteq> None"

definition or_insert :: "'k \<Rightarrow> 'v \<Rightarrow> ('k \<times> 'v) list \<Rightarrow> ('k \<times> 'v) list" where
  "or_insert k v al = (case map_of al k of None \<Rightarrow> AList.update k v al | Some _ \<Rightarrow> al)"

lemma map_of_update [simp, alist_simps]:
  "map_of (AList.update k v al) k' = (if k' = k then Some v else map_of al k')"
  by (simp add: update_conv')

lemma map_of_delete [simp, alist_simps]:
  "map_of (AList.delete k al) k' = (if k' = k then None else map_of al k')"
  by (simp add: delete_conv')

lemma map_of_or_insert [simp, alist_simps]:
  "map_of (or_insert k v al) k' = (if k' = k \<and> map_of al k = None then Some v else map_of al k')"
  by (auto simp: or_insert_def split: option.splits)

lemma distinct_or_insert: "distinct (map fst al) \<Longrightarrow> distinct (map fst (or_insert k v al))"
  by (auto simp: or_insert_def distinct_update split: option.splits)

lemma map_of_Some_key: "map_of al k = Some v \<Longrightarrow> k \<in> fst ` set al"
  by (force dest: map_of_SomeD)

section \<open>Event-driven state\<close>

text \<open>
  The contract of a stateful component: an invariant that holds in the initial states and
  that every event keeps, so that it holds after any sequence of events.
\<close>

locale transition_system =
  fixes init :: "'s \<Rightarrow> bool"
    and step :: "'s \<Rightarrow> 'e \<Rightarrow> 's"
    and inv :: "'s \<Rightarrow> bool"
  assumes init_inv: "init s \<Longrightarrow> inv s"
    and step_inv: "inv s \<Longrightarrow> inv (step s e)"
begin

lemma foldl_inv: "inv s \<Longrightarrow> inv (foldl step s es)"
  by (induction es arbitrary: s) (auto intro: step_inv)

theorem run_inv: "init s \<Longrightarrow> inv (foldl step s es)"
  by (rule foldl_inv) (rule init_inv)

end

end
