(* ===== verification/Snippet.thy ===== *)
theory Snippet
  imports Prelude
begin

text \<open>
  Snippet templates and snippet sessions: \<open>crates/gpui_term/src/snippet.rs\<close>.
  \<open>parse_snippet_suffix\<close> turns \<open>${n}\<close> and \<open>${n:default}\<close> placeholders into character ranges
  of the rendered text; a \<open>SnippetSession\<close> keeps those ranges in step with the text while
  the active placeholder is edited. Operations that can panic return an option.
\<close>

section \<open>Parsing a template\<close>

record tabstop =
  index :: nat
  range_start :: nat
  range_end :: nat

record snippet_suffix =
  sfx_rendered :: rstring
  sfx_tabstops :: "tabstop list"

record parsed_stop =
  ps_index :: nat
  ps_start :: nat
  ps_end :: nat
  appearance :: nat

text \<open>\<open>str::parse::<u32>\<close> on a string of digits: an error when the value needs more than 32 bits.\<close>

definition parse_u32 :: "rstring \<Rightarrow> nat option" where
  "parse_u32 ds =
     (let v = foldl (\<lambda>a d. a * 10 + (d - 48)) 0 ds in if v < 2 ^ 32 then Some v else None)"

text \<open>
  The text after \<open>${\<close>: the placeholder's index, its default text and what follows the
  closing brace, or \<open>None\<close> where the code falls back to a literal dollar sign.
\<close>

definition parse_placeholder :: "rstring \<Rightarrow> (nat \<times> rstring \<times> rstring) option" where
  "parse_placeholder s =
     (let ds = takeWhile is_ascii_digit s; r = dropWhile is_ascii_digit s in
      if ds = [] then None
      else (case parse_u32 ds of
        None \<Rightarrow> None
      | Some idx \<Rightarrow>
          (case r of
             [] \<Rightarrow> None
           | c # r' \<Rightarrow>
               if c = 125 then Some (idx, [], r')
               else if c = 58 then
                 (case dropWhile (\<lambda>x. x \<noteq> 125) r' of
                    [] \<Rightarrow> None
                  | _ # r'' \<Rightarrow> Some (idx, takeWhile (\<lambda>x. x \<noteq> 125) r', r''))
               else None)))"

record scan_state =
  out_text :: rstring
  out_len :: nat
  stops :: "parsed_stop list"
  next_appearance :: nat

definition push_char :: "rchar \<Rightarrow> scan_state \<Rightarrow> scan_state" where
  "push_char c st = st\<lparr>out_text := out_text st @ [c], out_len := out_len st + 1\<rparr>"

definition push_stop :: "nat \<Rightarrow> rstring \<Rightarrow> scan_state \<Rightarrow> scan_state" where
  "push_stop idx dflt st =
     (let start = out_len st;
          st' = (if idx \<noteq> 0
                 then st\<lparr>out_text := out_text st @ dflt, out_len := out_len st + length dflt\<rparr> else st)
      in st'\<lparr>stops := stops st' @ [\<lparr>ps_index = idx, ps_start = start, ps_end = out_len st',
                                    appearance = next_appearance st'\<rparr>],
             next_appearance := next_appearance st' + 1\<rparr>)"

lemma dropWhile_Cons_length: "dropWhile P s = c # r \<Longrightarrow> length r < length s"
  using length_dropWhile_le [of P s] by simp

lemma parse_placeholder_shrinks:
  assumes "parse_placeholder s = Some (idx, d, r)"
  shows "length r < length s"
proof -
  from assms obtain c r' where r': "dropWhile is_ascii_digit s = c # r'"
    by (auto simp: parse_placeholder_def Let_def split: option.splits list.splits if_splits)
  then have "length r' < length s" by (rule dropWhile_Cons_length)
  moreover have "length r \<le> length r'"
    using assms r' by (auto simp: parse_placeholder_def Let_def dest: dropWhile_Cons_length
        split: option.splits list.splits if_splits)
  ultimately show ?thesis by simp
qed

text \<open>The scan of the template, one character or one placeholder at a time.\<close>

definition at_placeholder :: "rchar \<Rightarrow> rstring \<Rightarrow> bool" where
  "at_placeholder c s \<longleftrightarrow> c = 36 \<and> (case s of [] \<Rightarrow> False | b # _ \<Rightarrow> b = 123)"

function scan_template :: "rstring \<Rightarrow> scan_state \<Rightarrow> scan_state" where
  "scan_template [] st = st"
| "scan_template (c # s) st =
     (if at_placeholder c s
      then (case parse_placeholder (tl s) of
              None \<Rightarrow> scan_template s (push_char c st)
            | Some (idx, dflt, rest) \<Rightarrow> scan_template rest (push_stop idx dflt st))
      else scan_template s (push_char c st))"
  by pat_completeness auto
termination
  by (relation "measure (\<lambda>(s, st). length s)")
    (auto dest!: parse_placeholder_shrinks)

text \<open>Tab order: \<open>${0}\<close> last, then by index, then by appearance.\<close>

definition stop_cmp :: "parsed_stop \<Rightarrow> parsed_stop \<Rightarrow> ordering" where
  "stop_cmp a b =
     then_with (then_with (lin_cmp (ps_index a = 0) (ps_index b = 0))
                          (lin_cmp (ps_index a) (ps_index b)))
               (lin_cmp (appearance a) (appearance b))"

definition to_tabstop :: "parsed_stop \<Rightarrow> tabstop" where
  "to_tabstop p = \<lparr>index = ps_index p, range_start = ps_start p, range_end = ps_end p\<rparr>"

definition scan_init :: scan_state where
  "scan_init = \<lparr>out_text = [], out_len = 0, stops = [], next_appearance = 0\<rparr>"

definition parse_snippet_suffix :: "rstring \<Rightarrow> snippet_suffix option" where
  "parse_snippet_suffix input =
     (let st = scan_template input scan_init in
      if stops st = [] then None
      else Some \<lparr>sfx_rendered = out_text st,
                 sfx_tabstops = map to_tabstop (sort_by stop_cmp (stops st))\<rparr>)"

lemma total_stop_cmp: "total_cmp stop_cmp"
proof -
  have "stop_cmp = (\<lambda>a b. then_with (then_with (lin_cmp (ps_index a = 0) (ps_index b = 0))
      (lin_cmp (ps_index a) (ps_index b))) (lin_cmp (appearance a) (appearance b)))"
    by (simp add: fun_eq_iff stop_cmp_def)
  with total_cmp_then [OF total_cmp_then [OF lin_cmp_key [of "\<lambda>p::parsed_stop. ps_index p = 0"]
        lin_cmp_key [of ps_index]] lin_cmp_key [of appearance]]
  show ?thesis by simp
qed

interpretation stop_order: total_cmp stop_cmp
  by (rule total_stop_cmp)

section \<open>Ranges of the parsed placeholders\<close>

definition stop_ok :: "rstring \<Rightarrow> tabstop \<Rightarrow> bool" where
  "stop_ok txt t \<longleftrightarrow> range_start t \<le> range_end t \<and> range_end t \<le> length txt"

definition stops_apart :: "tabstop \<Rightarrow> tabstop \<Rightarrow> bool" where
  "stops_apart t u \<longleftrightarrow> range_end t \<le> range_start u \<or> range_end u \<le> range_start t"

definition scan_ok :: "scan_state \<Rightarrow> bool" where
  "scan_ok st \<longleftrightarrow> out_len st = length (out_text st) \<and> next_appearance st = length (stops st) \<and>
     (\<forall>p \<in> set (stops st). ps_start p \<le> ps_end p \<and> ps_end p \<le> out_len st) \<and>
     sorted_wrt (\<lambda>p q. ps_end p \<le> ps_start q \<and> appearance p < appearance q) (stops st) \<and>
     (\<forall>p \<in> set (stops st). appearance p < next_appearance st)"

lemma scan_ok_push_char: "scan_ok st \<Longrightarrow> scan_ok (push_char c st)"
  by (auto simp: scan_ok_def push_char_def)

lemma scan_ok_push_stop: "scan_ok st \<Longrightarrow> scan_ok (push_stop idx d st)"
  unfolding scan_ok_def push_stop_def Let_def
  by (cases "idx = 0") (fastforce simp: sorted_wrt_append)+

declare scan_template.simps(2) [simp del]

lemma scan_template_ok: "scan_ok st \<Longrightarrow> scan_ok (scan_template s st)"
proof (induction s st rule: scan_template.induct)
  case (2 c s st)
  then show ?case
    by (auto simp: scan_template.simps(2) [of c s] scan_ok_push_char scan_ok_push_stop
        split: option.splits)
qed simp

lemma sorted_wrt_insert_by:
  assumes "sorted_wrt R ys" and "\<And>y. y \<in> set ys \<Longrightarrow> R x y \<and> R y x"
  shows "sorted_wrt R (insert_by cmp x ys)"
  using assms by (induction ys) auto

lemma sorted_wrt_sort_by:
  assumes "sorted_wrt R xs" and "\<And>x y. R x y \<Longrightarrow> R y x"
  shows "sorted_wrt R (sort_by cmp xs)"
  using assms by (induction xs) (auto intro!: sorted_wrt_insert_by)

lemma parsed_ranges:
  assumes "parse_snippet_suffix input = Some sfx"
  shows "\<forall>t \<in> set (sfx_tabstops sfx). stop_ok (sfx_rendered sfx) t"
    and "sorted_wrt stops_apart (sfx_tabstops sfx)"
proof -
  define st where "st = scan_template input scan_init"
  have ok: "scan_ok st"
    unfolding st_def by (rule scan_template_ok) (simp add: scan_ok_def scan_init_def)
  have sfx: "sfx = \<lparr>sfx_rendered = out_text st, sfx_tabstops = map to_tabstop (sort_by stop_cmp (stops st))\<rparr>"
    using assms by (auto simp: parse_snippet_suffix_def st_def Let_def split: if_splits)
  show "\<forall>t \<in> set (sfx_tabstops sfx). stop_ok (sfx_rendered sfx) t"
    using ok by (auto simp: sfx stop_ok_def to_tabstop_def scan_ok_def)
  have "sorted_wrt (\<lambda>p q. stops_apart (to_tabstop p) (to_tabstop q)) (sort_by stop_cmp (stops st))"
  proof (rule sorted_wrt_sort_by)
    show "sorted_wrt (\<lambda>p q. stops_apart (to_tabstop p) (to_tabstop q)) (stops st)"
      using ok unfolding scan_ok_def
      by (auto intro: sorted_wrt_mono_rel [rotated] simp: stops_apart_def to_tabstop_def)
  qed (auto simp: stops_apart_def)
  then show "sorted_wrt stops_apart (sfx_tabstops sfx)"
    by (simp add: sfx sorted_wrt_map)
qed

text \<open>The tab order of two placeholders: \<open>${0}\<close> last, otherwise by index.\<close>

definition tab_order :: "tabstop \<Rightarrow> tabstop \<Rightarrow> bool" where
  "tab_order t u \<longleftrightarrow> (index t = 0 \<longrightarrow> index u = 0) \<and> (index u \<noteq> 0 \<longrightarrow> index t \<le> index u)"

lemma parsed_tab_order:
  assumes "parse_snippet_suffix input = Some sfx"
  shows "sorted_wrt tab_order (sfx_tabstops sfx)"
proof -
  obtain ps where "sfx_tabstops sfx = map to_tabstop (sort_by stop_cmp ps)"
    using assms by (auto simp: parse_snippet_suffix_def Let_def split: if_splits)
  moreover have "tab_order (to_tabstop p) (to_tabstop q)" if "stop_order.le p q" for p q
    using that by (auto simp: stop_order.le_def stop_cmp_def tab_order_def to_tabstop_def
        lin_cmp_def then_with_eqs split: if_splits)
  then have "sorted_wrt (\<lambda>p q. tab_order (to_tabstop p) (to_tabstop q)) (sort_by stop_cmp ps)"
    by (intro sorted_wrt_mono_rel [OF _ stop_order.sort_by_sorted])
  ultimately show ?thesis by (simp add: sorted_wrt_map)
qed

text \<open>C5: the placeholders of a parsed template are ranges of the rendered text that do not
  overlap, listed in tab order.\<close>

theorem parse_snippet_ranges:
  assumes "parse_snippet_suffix input = Some sfx"
  shows "(\<forall>t \<in> set (sfx_tabstops sfx). stop_ok (sfx_rendered sfx) t) \<and>
         sorted_wrt stops_apart (sfx_tabstops sfx) \<and> sorted_wrt tab_order (sfx_tabstops sfx)"
  using parsed_ranges [OF assms] parsed_tab_order [OF assms] by blast

lemmas snippet_eval = parse_snippet_suffix_def scan_template.simps at_placeholder_def
  parse_placeholder_def is_ascii_digit_def parse_u32_def push_char_def push_stop_def scan_init_def
  to_tabstop_def stop_cmp_def lin_cmp_def

text \<open>The template \<open>a ${2:xy} ${1:z}\<close>.\<close>

definition demo_template :: rstring where
  "demo_template = [97, 32, 36, 123, 50, 58, 120, 121, 125, 32, 36, 123, 49, 58, 122, 125]"

definition demo_suffix :: snippet_suffix where
  "demo_suffix = \<lparr>sfx_rendered = [97, 32, 120, 121, 32, 122],
     sfx_tabstops = [\<lparr>index = 1, range_start = 5, range_end = 6\<rparr>,
                     \<lparr>index = 2, range_start = 2, range_end = 4\<rparr>]\<rparr>"

lemma demo_template_text: "demo_template = rs ''a ${2:xy} ${1:z}''"
  by (simp add: demo_template_def rs_def)

lemma demo_parse: "parse_snippet_suffix demo_template = Some demo_suffix"
  by (simp add: demo_template_def demo_suffix_def snippet_eval)

theorem parse_snippet_ranges_witness:
  "parse_snippet_suffix demo_template = Some demo_suffix \<and>
   sorted_wrt stops_apart (sfx_tabstops demo_suffix)"
  using demo_parse parse_snippet_ranges [OF demo_parse] by blast

end
