(* ===== verification/SnippetSession.thy ===== *)
theory SnippetSession
  imports Snippet
begin

text \<open>
  The editing session of a snippet (\<open>SnippetSession\<close> in \<open>crates/gpui_term/src/snippet.rs\<close>):
  deleting, replacing, extending and shortening the active placeholder, and moving between
  placeholders. A result \<open>None\<close> is a panic of the Rust code (a byte offset off a character
  boundary, or a \<open>usize\<close> underflow).
\<close>

record session =
  inserted_len_chars :: nat
  start_point :: "int \<times> nat"
  rendered :: rstring
  tabstops :: "tabstop list"
  active :: nat
  cursor_offset_chars :: nat
  selected :: bool
  cursor_line_id :: "int option"

datatype snippet_jump = Noop | Move int | Exit int

datatype jump_dir = Next | Prev

definition new_session :: "rstring \<Rightarrow> tabstop list \<Rightarrow> session" where
  "new_session tx ts =
     \<lparr>inserted_len_chars = length tx, start_point = (0, 0), rendered = tx, tabstops = ts, active = 0,
      cursor_offset_chars = length tx, selected = False, cursor_line_id = None\<rparr>"

fun byte_index_for_char :: "rstring \<Rightarrow> nat \<Rightarrow> nat" where
  "byte_index_for_char [] k = 0"
| "byte_index_for_char (c # s) 0 = 0"
| "byte_index_for_char (c # s) (Suc k) = len_utf8 c + byte_index_for_char s k"

text \<open>\<open>for (i, t) in tabstops.iter_mut().enumerate()\<close>.\<close>

fun map_stops :: "(nat \<Rightarrow> tabstop \<Rightarrow> tabstop option) \<Rightarrow> nat \<Rightarrow> tabstop list \<Rightarrow> tabstop list option" where
  "map_stops f i [] = Some []"
| "map_stops f i (t # ts) = do { u \<leftarrow> f i t; us \<leftarrow> map_stops f (Suc i) ts; Some (u # us) }"

definition shift_left :: "nat \<Rightarrow> nat \<Rightarrow> tabstop \<Rightarrow> tabstop option" where
  "shift_left pos n t =
     (if pos \<le> range_start t
      then do { a \<leftarrow> checked_sub (range_start t) n; b \<leftarrow> checked_sub (range_end t) n;
                Some (t\<lparr>range_start := a, range_end := b\<rparr>) }
      else Some t)"

definition shift_right :: "nat \<Rightarrow> nat \<Rightarrow> tabstop \<Rightarrow> tabstop option" where
  "shift_right pos n t =
     (if pos \<le> range_start t
      then Some (t\<lparr>range_start := range_start t + n, range_end := range_end t + n\<rparr>)
      else Some t)"

definition cut_range :: "rstring \<Rightarrow> nat \<Rightarrow> nat \<Rightarrow> rstring option" where
  "cut_range tx st en =
     (let b1 = byte_index_for_char tx st; b2 = byte_index_for_char tx en in
      if b1 < b2 \<and> b2 \<le> byte_len tx then replace_range tx b1 b2 [] else Some tx)"

definition paste_at :: "rstring \<Rightarrow> nat \<Rightarrow> rstring \<Rightarrow> rstring option" where
  "paste_at tx pos t =
     (let b = byte_index_for_char tx pos in
      if b \<le> byte_len tx then insert_str tx b t else Some tx)"

definition delete_active_placeholder :: "session \<Rightarrow> (session \<times> nat) option" where
  "delete_active_placeholder s =
     (if \<not> active s < length (tabstops s) then Some (s, 0)
      else
        let stop = tabstops s ! active s; st = range_start stop; en = range_end stop; len = en - st in
        if len = 0 then Some (s, 0)
        else do {
          tx \<leftarrow> cut_range (rendered s) st en;
          ts \<leftarrow> map_stops (\<lambda>i t. if i = active s then Some (t\<lparr>range_start := st, range_end := st\<rparr>)
                                else shift_left en len t) 0 (tabstops s);
          Some (s\<lparr>rendered := tx, tabstops := ts, inserted_len_chars := inserted_len_chars s - len,
                  cursor_offset_chars := st\<rparr>, len)
        })"

definition replace_active_placeholder :: "rstring \<Rightarrow> session \<Rightarrow> (session \<times> nat) option" where
  "replace_active_placeholder ins s = do {
     (s1, deleted) \<leftarrow> delete_active_placeholder s;
     if length ins = 0 then Some (s1, deleted)
     else if \<not> active s1 < length (tabstops s1) then Some (s1, deleted)
     else do {
       let st = range_start (tabstops s1 ! active s1);
       ts \<leftarrow> map_stops (\<lambda>i t. if i = active s1 then Some (t\<lparr>range_end := st + length ins\<rparr>)
                             else shift_right st (length ins) t) 0 (tabstops s1);
       tx \<leftarrow> paste_at (rendered s1) st ins;
       Some (s1\<lparr>tabstops := ts, rendered := tx,
                inserted_len_chars := inserted_len_chars s1 + length ins,
                cursor_offset_chars := st + length ins\<rparr>, deleted)
     }
   }"

definition insert_into_active_placeholder :: "rstring \<Rightarrow> session \<Rightarrow> session option" where
  "insert_into_active_placeholder ins s =
     (if length ins = 0 \<or> \<not> active s < length (tabstops s) then Some s
      else
        let old_end = range_end (tabstops s ! active s) in
        if cursor_offset_chars s \<noteq> old_end then Some s
        else do {
          ts \<leftarrow> map_stops (\<lambda>i t. if i = active s then Some (t\<lparr>range_end := old_end + length ins\<rparr>)
                                else shift_right old_end (length ins) t) 0 (tabstops s);
          tx \<leftarrow> paste_at (rendered s) old_end ins;
          Some (s\<lparr>tabstops := ts, rendered := tx,
                  inserted_len_chars := inserted_len_chars s + length ins,
                  cursor_offset_chars := cursor_offset_chars s + length ins\<rparr>)
        })"

definition backspace_one_in_active_placeholder :: "session \<Rightarrow> (session \<times> bool) option" where
  "backspace_one_in_active_placeholder s =
     (if \<not> active s < length (tabstops s) then Some (s, False)
      else
        let stop = tabstops s ! active s; old_end = range_end stop in
        if cursor_offset_chars s \<noteq> old_end then Some (s, False)
        else if old_end \<le> range_start stop then Some (s, False)
        else do {
          tx \<leftarrow> cut_range (rendered s) (old_end - 1) old_end;
          ts \<leftarrow> map_stops (\<lambda>i t. if i = active s then Some (t\<lparr>range_end := old_end - 1\<rparr>)
                                else shift_left old_end 1 t) 0 (tabstops s);
          Some (s\<lparr>rendered := tx, tabstops := ts,
                  inserted_len_chars := inserted_len_chars s - 1,
                  cursor_offset_chars := cursor_offset_chars s - 1\<rparr>, True)
        })"

definition jump_to :: "nat \<Rightarrow> session \<Rightarrow> session \<times> snippet_jump" where
  "jump_to k s =
     (let target_end = range_end (tabstops s ! k) in
      (s\<lparr>active := k, cursor_offset_chars := target_end, selected := True\<rparr>,
       Move (int target_end - int (cursor_offset_chars s))))"

definition jump :: "jump_dir \<Rightarrow> session \<Rightarrow> session \<times> snippet_jump" where
  "jump dir s =
     (if tabstops s = [] \<or> length (tabstops s) \<le> active s then (s, Exit 0)
      else (case dir of
        Prev \<Rightarrow> if active s = 0 then (s, Noop) else jump_to (active s - 1) s
      | Next \<Rightarrow>
          if length (tabstops s) \<le> active s + 1
          then (s\<lparr>cursor_offset_chars := inserted_len_chars s\<rparr>,
                Exit (int (inserted_len_chars s) - int (cursor_offset_chars s)))
          else jump_to (active s + 1) s))"

section \<open>Well-formed sessions\<close>

text \<open>
  The ranges lie in the text and do not overlap, the cached length is the text's, and the
  cursor stands at the end of the active placeholder.
\<close>

definition session_wf :: "session \<Rightarrow> bool" where
  "session_wf s \<longleftrightarrow> inserted_len_chars s = length (rendered s) \<and>
     active s < length (tabstops s) \<and>
     (\<forall>t \<in> set (tabstops s). stop_ok (rendered s) t) \<and>
     sorted_wrt stops_apart (tabstops s) \<and>
     cursor_offset_chars s = range_end (tabstops s ! active s)"

definition stop_text :: "rstring \<Rightarrow> tabstop \<Rightarrow> rstring" where
  "stop_text tx t = take (range_end t - range_start t) (drop (range_start t) tx)"

lemma byte_index_eq: "byte_index_for_char s k = byte_len (take k s)"
  by (induction s k rule: byte_index_for_char.induct) auto

lemma cut_range_eq:
  assumes "a \<le> b" "b \<le> length tx"
  shows "cut_range tx a b = Some (take a tx @ drop b tx)"
proof (cases "a = b")
  case False
  then show ?thesis
    using assms byte_len_take_less [of a b tx] byte_len_take_le [of b tx]
    by (simp add: cut_range_def byte_index_eq replace_range_def split_at_byte_take)
qed (simp add: cut_range_def)

lemma paste_at_eq: "paste_at tx p t = Some (take p tx @ t @ drop p tx)"
  by (simp add: paste_at_def byte_index_eq insert_str_def split_at_byte_take
      byte_len_take_le Let_def)

lemma map_stops_eq:
  assumes "\<And>k. k < length ts \<Longrightarrow> f (i + k) (ts ! k) = Some (g k)"
  shows "map_stops f i ts = Some (map g [0..<length ts])"
  using assms
proof (induction ts arbitrary: i g)
  case (Cons t ts)
  have "f i t = Some (g 0)" using Cons.prems [of 0] by simp
  moreover have "map_stops f (Suc i) ts = Some (map (g \<circ> Suc) [0..<length ts])"
    using Cons.prems [of "Suc _"] by (intro Cons.IH) auto
  ultimately show ?case
    by (simp add: upt_conv_Cons map_Suc_upt [symmetric] del: upt_Suc)
qed simp

lemma apart_nth:
  assumes "sorted_wrt stops_apart ts" "i < length ts" "j < length ts" "i \<noteq> j"
  shows "stops_apart (ts ! i) (ts ! j)"
  using assms sorted_wrt_nth_less [OF assms(1)] by (cases i j rule: linorder_cases) (auto simp: stops_apart_def)

text \<open>
  Every edit replaces the text between \<open>p\<close> and the end of the active placeholder by \<open>ins\<close>
  and moves what lies to the right of it.
\<close>

definition edit_text :: "nat \<Rightarrow> nat \<Rightarrow> rstring \<Rightarrow> rstring \<Rightarrow> rstring" where
  "edit_text p q ins tx = take p tx @ ins @ drop q tx"

definition edit_stop :: "nat \<Rightarrow> nat \<Rightarrow> nat \<Rightarrow> tabstop \<Rightarrow> tabstop" where
  "edit_stop p q n t =
     (if q \<le> range_start t
      then t\<lparr>range_start := range_start t - (q - p) + n, range_end := range_end t - (q - p) + n\<rparr> else t)"

definition edit_stops :: "nat \<Rightarrow> nat \<Rightarrow> nat \<Rightarrow> nat \<Rightarrow> tabstop list \<Rightarrow> tabstop list" where
  "edit_stops a p q n ts =
     map (\<lambda>k. if k = a then (ts ! a)\<lparr>range_end := p + n\<rparr> else edit_stop p q n (ts ! k)) [0..<length ts]"

lemma edit_stops_nth [simp]:
  "k < length ts \<Longrightarrow> edit_stops a p q n ts ! k =
     (if k = a then (ts ! a)\<lparr>range_end := p + n\<rparr> else edit_stop p q n (ts ! k))"
  "length (edit_stops a p q n ts) = length ts"
  by (simp_all add: edit_stops_def)

lemma edit_preserves:
  assumes ok: "\<forall>t \<in> set ts. stop_ok tx t" and apart: "sorted_wrt stops_apart ts"
    and a: "a < length ts" and p: "range_start (ts ! a) \<le> p" "p \<le> q" and q: "q = range_end (ts ! a)"
  shows "\<forall>t \<in> set (edit_stops a p q (length ins) ts). stop_ok (edit_text p q ins tx) t"
    and "sorted_wrt stops_apart (edit_stops a p q (length ins) ts)"
    and "k < length ts \<Longrightarrow> k \<noteq> a \<Longrightarrow>
      stop_text (edit_text p q ins tx) (edit_stops a p q (length ins) ts ! k) = stop_text tx (ts ! k)"
proof -
  have okn: "range_start (ts ! k) \<le> range_end (ts ! k) \<and> range_end (ts ! k) \<le> length tx"
    if "k < length ts" for k
    using ok that by (auto simp: stop_ok_def)
  have left: "range_end (ts ! k) \<le> range_start (ts ! a) \<or> q \<le> range_start (ts ! k)"
    if "k < length ts" "k \<noteq> a" for k
    using apart_nth [OF apart that(1) a that(2)] q by (auto simp: stops_apart_def)
  show "\<forall>t \<in> set (edit_stops a p q (length ins) ts). stop_ok (edit_text p q ins tx) t"
  proof
    fix t
    assume "t \<in> set (edit_stops a p q (length ins) ts)"
    then obtain k where k: "k < length ts" "t = edit_stops a p q (length ins) ts ! k"
      by (auto simp: in_set_conv_nth)
    then show "stop_ok (edit_text p q ins tx) t"
      using okn [OF a] okn [OF k(1)] left [OF k(1)] p q
      by (auto simp: stop_ok_def edit_stop_def edit_text_def)
  qed
  show "sorted_wrt stops_apart (edit_stops a p q (length ins) ts)"
    unfolding sorted_wrt_iff_nth_less
  proof (intro allI impI)
    fix i j
    assume ij: "i < j" "j < length (edit_stops a p q (length ins) ts)"
    then have l: "i < length ts" "j < length ts" "i \<noteq> j" by auto
    show "stops_apart (edit_stops a p q (length ins) ts ! i) (edit_stops a p q (length ins) ts ! j)"
      using apart_nth [OF apart l] okn [OF l(1)] okn [OF l(2)] okn [OF a] left [OF l(1)] left [OF l(2)]
        l p q
      by (auto simp: stops_apart_def edit_stop_def)
  qed
  show "stop_text (edit_text p q ins tx) (edit_stops a p q (length ins) ts ! k) = stop_text tx (ts ! k)"
    if k: "k < length ts" "k \<noteq> a"
  proof (cases "q \<le> range_start (ts ! k)")
    case True
    moreover have "drop (range_start (ts ! k) - (q - p) + length ins) (edit_text p q ins tx) =
        drop (range_start (ts ! k)) tx"
      using True p okn [OF a] q by (simp add: edit_text_def min_absorb2)
    moreover have "range_end (ts ! k) - (q - p) + length ins - (range_start (ts ! k) - (q - p) + length ins)
        = range_end (ts ! k) - range_start (ts ! k)"
      using True p okn [OF k(1)] by auto
    ultimately show ?thesis using k by (simp add: stop_text_def edit_stop_def)
  next
    case False
    then have "range_end (ts ! k) \<le> p" using left [OF k] p by auto
    then have "take (range_end (ts ! k) - range_start (ts ! k)) (drop (range_start (ts ! k)) (take p tx @ x))
        = take (range_end (ts ! k) - range_start (ts ! k)) (drop (range_start (ts ! k)) (take p tx))" for x
      using okn [OF a] okn [OF k(1)] q p by auto
    moreover have "take (range_end (ts ! k) - range_start (ts ! k)) (drop (range_start (ts ! k)) (take p tx))
        = take (range_end (ts ! k) - range_start (ts ! k)) (drop (range_start (ts ! k)) tx)"
      using \<open>range_end (ts ! k) \<le> p\<close> by (simp add: drop_take min_absorb1)
    ultimately have "stop_text (edit_text p q ins tx) (ts ! k) = stop_text tx (ts ! k)"
      by (simp only: stop_text_def edit_text_def)
    then show ?thesis using k False by (simp add: edit_stop_def)
  qed
qed

section \<open>What the operations do to a well-formed session\<close>

definition active_stop :: "session \<Rightarrow> tabstop" where
  "active_stop s = tabstops s ! active s"

definition edit_session :: "nat \<Rightarrow> rstring \<Rightarrow> session \<Rightarrow> session" where
  "edit_session p ins s =
     (let q = range_end (active_stop s) in
      s\<lparr>rendered := edit_text p q ins (rendered s),
        tabstops := edit_stops (active s) p q (length ins) (tabstops s),
        inserted_len_chars := inserted_len_chars s - (q - p) + length ins,
        cursor_offset_chars := p + length ins\<rparr>)"

lemma edit_session_simps [simp]:
  "active (edit_session p ins s) = active s"
  "selected (edit_session p ins s) = selected s"
  "length (tabstops (edit_session p ins s)) = length (tabstops s)"
  "cursor_offset_chars (edit_session p ins s) = p + length ins"
  by (simp_all add: edit_session_def Let_def)

lemma session_wfD:
  assumes "session_wf s"
  shows "inserted_len_chars s = length (rendered s)" "active s < length (tabstops s)"
    "range_start (active_stop s) \<le> range_end (active_stop s)"
    "range_end (active_stop s) \<le> length (rendered s)"
    "cursor_offset_chars s = range_end (active_stop s)"
  using assms by (auto simp: session_wf_def active_stop_def stop_ok_def)

lemma edit_session_wf [inv_pres]:
  assumes wf: "session_wf s" and p: "range_start (active_stop s) \<le> p" "p \<le> range_end (active_stop s)"
  shows "session_wf (edit_session p ins s)"
    and "k < length (tabstops s) \<Longrightarrow> k \<noteq> active s \<Longrightarrow>
      stop_text (rendered (edit_session p ins s)) (tabstops (edit_session p ins s) ! k) =
      stop_text (rendered s) (tabstops s ! k)"
proof -
  note edit = edit_preserves [where ts = "tabstops s" and tx = "rendered s" and a = "active s"
      and p = p and q = "range_end (active_stop s)" and ins = ins]
  show "session_wf (edit_session p ins s)"
    using wf p session_wfD [OF wf] edit(1,2)
    by (auto simp: session_wf_def edit_session_def Let_def active_stop_def edit_text_def)
  show "stop_text (rendered (edit_session p ins s)) (tabstops (edit_session p ins s) ! k) =
      stop_text (rendered s) (tabstops s ! k)" if "k < length (tabstops s)" "k \<noteq> active s"
    using wf p edit(3) that by (auto simp: session_wf_def edit_session_def Let_def active_stop_def)
qed

lemma tabstop_same [simp]:
  "(t::tabstop)\<lparr>range_start := range_start t\<rparr> = t" "(t::tabstop)\<lparr>range_end := range_end t\<rparr> = t"
  by simp_all

lemma shift_left_eq:
  "range_start t \<le> range_end t \<Longrightarrow> p \<le> q \<Longrightarrow> shift_left q (q - p) t = Some (edit_stop p q 0 t)"
  by (auto simp: shift_left_def edit_stop_def)

lemma shift_right_eq: "shift_right q n t = Some (edit_stop q q n t)"
  by (auto simp: shift_right_def edit_stop_def)

lemma stop_ok_nth: "session_wf s \<Longrightarrow> k < length (tabstops s) \<Longrightarrow>
    range_start (tabstops s ! k) \<le> range_end (tabstops s ! k)"
  by (auto simp: session_wf_def stop_ok_def)

lemma map_stops_edit:
  assumes "\<And>k. k < length ts \<Longrightarrow> f k (ts ! k) =
      Some (if k = a then (ts ! a)\<lparr>range_end := p + n\<rparr> else edit_stop p q n (ts ! k))"
  shows "map_stops f 0 ts = Some (edit_stops a p q n ts)"
  unfolding edit_stops_def by (rule map_stops_eq) (simp add: assms)

lemma edit_nothing:
  assumes "session_wf s" "range_start (active_stop s) = range_end (active_stop s)"
  shows "edit_session (range_start (active_stop s)) [] s = s"
proof -
  have "edit_stops (active s) p p 0 (tabstops s) = tabstops s" if "p = range_end (active_stop s)" for p
    using that by (intro nth_equalityI) (auto simp: edit_stop_def active_stop_def)
  then show ?thesis
    using assms session_wfD [OF assms(1)] by (simp add: edit_session_def edit_text_def Let_def)
qed

lemma delete_active_eq:
  assumes wf: "session_wf s"
  shows "delete_active_placeholder s =
    Some (edit_session (range_start (active_stop s)) [] s,
          range_end (active_stop s) - range_start (active_stop s))"
proof (cases "range_start (active_stop s) = range_end (active_stop s)")
  case True
  then show ?thesis
    using edit_nothing [OF wf] session_wfD [OF wf]
    by (simp add: delete_active_placeholder_def active_stop_def)
next
  case False
  let ?st = "range_start (active_stop s)" and ?en = "range_end (active_stop s)"
  have "map_stops (\<lambda>i t. if i = active s then Some (t\<lparr>range_start := ?st, range_end := ?st\<rparr>)
      else shift_left ?en (?en - ?st) t) 0 (tabstops s) = Some (edit_stops (active s) ?st ?en 0 (tabstops s))"
    using stop_ok_nth [OF wf] session_wfD [OF wf]
    by (intro map_stops_edit) (auto simp: shift_left_eq active_stop_def)
  then show ?thesis
    using False session_wfD [OF wf]
    by (simp add: delete_active_placeholder_def Let_def active_stop_def [symmetric] cut_range_eq
        edit_session_def edit_text_def)
qed

lemma insert_active_eq:
  assumes wf: "session_wf s" and ins: "ins \<noteq> []"
  shows "insert_into_active_placeholder ins s = Some (edit_session (range_end (active_stop s)) ins s)"
proof -
  let ?en = "range_end (active_stop s)"
  have "map_stops (\<lambda>i t. if i = active s then Some (t\<lparr>range_end := ?en + length ins\<rparr>)
      else shift_right ?en (length ins) t) 0 (tabstops s) =
      Some (edit_stops (active s) ?en ?en (length ins) (tabstops s))"
    by (intro map_stops_edit) (auto simp: shift_right_eq)
  then show ?thesis
    using ins session_wfD [OF wf]
    by (simp add: insert_into_active_placeholder_def Let_def active_stop_def [symmetric] paste_at_eq
        edit_session_def edit_text_def)
qed

lemma replace_active_eq:
  assumes wf: "session_wf s" and ins: "ins \<noteq> []"
  defines "s1 \<equiv> edit_session (range_start (active_stop s)) [] s"
  shows "replace_active_placeholder ins s =
    Some (edit_session (range_start (active_stop s)) ins s1,
          range_end (active_stop s) - range_start (active_stop s))"
    and "session_wf s1" and "range_start (active_stop s1) = range_start (active_stop s)"
    and "range_end (active_stop s1) = range_start (active_stop s)"
proof -
  let ?st = "range_start (active_stop s)"
  note D = session_wfD [OF wf]
  show wf1: "session_wf s1" unfolding s1_def using D by (intro edit_session_wf(1) [OF wf]) auto
  show st: "range_start (active_stop s1) = ?st" and en: "range_end (active_stop s1) = ?st"
    using D by (simp_all add: s1_def edit_session_def Let_def active_stop_def)
  note D1 = session_wfD [OF wf1]
  have "map_stops (\<lambda>i t. if i = active s1 then Some (t\<lparr>range_end := ?st + length ins\<rparr>)
      else shift_right ?st (length ins) t) 0 (tabstops s1) =
      Some (edit_stops (active s1) ?st ?st (length ins) (tabstops s1))"
    by (intro map_stops_edit) (auto simp: shift_right_eq)
  then show "replace_active_placeholder ins s =
      Some (edit_session ?st ins s1, range_end (active_stop s) - ?st)"
    using ins D1 st en
    by (simp add: replace_active_placeholder_def delete_active_eq [OF wf] s1_def [symmetric]
        Let_def active_stop_def [symmetric] paste_at_eq edit_session_def [of ?st ins] edit_text_def)
qed

lemma backspace_one_eq:
  assumes wf: "session_wf s"
  shows "backspace_one_in_active_placeholder s =
    (if range_start (active_stop s) < range_end (active_stop s)
     then Some (edit_session (range_end (active_stop s) - 1) [] s, True) else Some (s, False))"
proof (cases "range_start (active_stop s) < range_end (active_stop s)")
  case True
  let ?en = "range_end (active_stop s)"
  have "map_stops (\<lambda>i t. if i = active s then Some (t\<lparr>range_end := ?en - 1\<rparr>)
      else shift_left ?en 1 t) 0 (tabstops s) = Some (edit_stops (active s) (?en - 1) ?en 0 (tabstops s))"
  proof (intro map_stops_edit)
    fix k
    assume "k < length (tabstops s)"
    then show "(if k = active s then Some ((tabstops s ! k)\<lparr>range_end := ?en - 1\<rparr>)
        else shift_left ?en 1 (tabstops s ! k)) =
      Some (if k = active s then (tabstops s ! active s)\<lparr>range_end := ?en - 1 + 0\<rparr>
        else edit_stop (?en - 1) ?en 0 (tabstops s ! k))"
      using shift_left_eq [OF stop_ok_nth [OF wf], of k "?en - 1" ?en] True by simp
  qed
  then show ?thesis
    using True session_wfD [OF wf]
    by (simp add: backspace_one_in_active_placeholder_def Let_def active_stop_def [symmetric]
        cut_range_eq edit_session_def edit_text_def)
qed (use session_wfD [OF wf] in
      \<open>simp add: backspace_one_in_active_placeholder_def Let_def active_stop_def [symmetric]\<close>)

section \<open>Properties of a session\<close>

datatype edit = Delete | Replace rstring | Insert rstring | Backspace | Jump jump_dir

text \<open>One operation of a session; the flag says that the session is over (\<open>SnippetJump::Exit\<close>).\<close>

fun apply_edit :: "session \<Rightarrow> edit \<Rightarrow> (session \<times> bool) option" where
  "apply_edit s Delete = map_option (\<lambda>(s', n). (s', False)) (delete_active_placeholder s)"
| "apply_edit s (Replace ins) = map_option (\<lambda>(s', n). (s', False)) (replace_active_placeholder ins s)"
| "apply_edit s (Insert ins) = map_option (\<lambda>s'. (s', False)) (insert_into_active_placeholder ins s)"
| "apply_edit s Backspace = map_option (\<lambda>(s', b). (s', False)) (backspace_one_in_active_placeholder s)"
| "apply_edit s (Jump dir) = (case jump dir s of (s', Exit d) \<Rightarrow> Some (s', True) | (s', _) \<Rightarrow> Some (s', False))"

lemma replace_empty: "replace_active_placeholder [] s = delete_active_placeholder s"
  by (cases "delete_active_placeholder s") (auto simp: replace_active_placeholder_def)

lemma insert_empty: "insert_into_active_placeholder [] s = Some s"
  by (simp add: insert_into_active_placeholder_def)

lemma jump_wf:
  assumes wf: "session_wf s" and j: "jump dir s = (s', r)" and r: "\<nexists>d. r = Exit d"
  shows "session_wf s'" and "tabstops s' = tabstops s" and "rendered s' = rendered s"
    and "r = Move (int (cursor_offset_chars s') - int (cursor_offset_chars s)) \<or> r = Noop \<and> s' = s"
  using assms
  by (auto simp: jump_def jump_to_def session_wf_def Let_def split: jump_dir.splits if_splits)

lemma apply_edit_edits:
  assumes wf: "session_wf s" and e: "e \<notin> range Jump"
  obtains (edited) s' where "apply_edit s e = Some (s', False)" "session_wf s'"
    "length (tabstops s') = length (tabstops s)" "active s' = active s"
    "\<And>k. k < length (tabstops s) \<Longrightarrow> k \<noteq> active s \<Longrightarrow>
       stop_text (rendered s') (tabstops s' ! k) = stop_text (rendered s) (tabstops s ! k)"
proof -
  note D = session_wfD [OF wf]
  have edit: thesis if "apply_edit s e = Some (edit_session p ins s, False)"
    "range_start (active_stop s) \<le> p" "p \<le> range_end (active_stop s)" for p ins
    using that edit_session_wf [OF wf] by (intro edited [of "edit_session p ins s"]) auto
  have same: thesis if "apply_edit s e = Some (s, False)"
    using that wf by (intro edited [of s]) auto
  show thesis
  proof (cases e)
    case Delete
    with D show ?thesis by (intro edit) (auto simp: delete_active_eq [OF wf])
  next
    case (Replace ins)
    show ?thesis
    proof (cases "ins = []")
      case True
      with D Replace show ?thesis by (intro edit) (auto simp: delete_active_eq [OF wf] replace_empty)
    next
      case False
      note R = replace_active_eq [OF wf False]
      note W = edit_session_wf [OF R(2)]
      show ?thesis
        using Replace R W D edit_session_wf(2) [OF wf order.refl D(3)]
        by (intro edited [of "edit_session (range_start (active_stop s)) ins
              (edit_session (range_start (active_stop s)) [] s)"]) auto
    qed
  next
    case (Insert ins)
    with D show ?thesis
      by (cases "ins = []") (auto simp: insert_active_eq [OF wf] insert_empty intro: edit same)
  next
    case Backspace
    with D show ?thesis
      by (cases "range_start (active_stop s) < range_end (active_stop s)")
        (auto simp: backspace_one_eq [OF wf] intro: edit same)
  qed (use e in auto)
qed

text \<open>C2: no operation of a well-formed session panics, and unless the operation ends the
  session, the result is well-formed again: ranges in the text, no overlap, cached length and
  cursor in step.\<close>

theorem session_ops_keep_wf:
  assumes "session_wf s"
  shows "\<exists>s' over. apply_edit s e = Some (s', over) \<and> (\<not> over \<longrightarrow> session_wf s')"
proof (cases "e \<in> range Jump")
  case True
  then obtain dir where e: "e = Jump dir" by auto
  obtain s' r where "jump dir s = (s', r)" by fastforce
  with jump_wf(1) [OF assms this] show ?thesis
    by (cases r) (auto simp: e)
next
  case False
  then show ?thesis using apply_edit_edits [OF assms False] by metis
qed

text \<open>C3: editing the active placeholder changes the text of no other placeholder, however the
  ranges move.\<close>

theorem edits_keep_other_placeholders:
  assumes "session_wf s" and "e \<notin> range Jump" and "apply_edit s e = Some (s', over)"
    and "k < length (tabstops s)" and "k \<noteq> active s"
  shows "stop_text (rendered s') (tabstops s' ! k) = stop_text (rendered s) (tabstops s ! k)"
  using apply_edit_edits [OF assms(1,2)] assms(3-) by (metis option.inject prod.inject)

text \<open>A session on the demonstration template, with its first placeholder active.\<close>

definition demo_session :: session where
  "demo_session = (new_session (sfx_rendered demo_suffix) (sfx_tabstops demo_suffix))
     \<lparr>cursor_offset_chars := 6, selected := True\<rparr>"

lemma demo_session_wf: "session_wf demo_session"
  by (simp add: demo_session_def new_session_def demo_suffix_def session_wf_def stop_ok_def stops_apart_def)

theorem session_ops_keep_wf_witness:
  "session_wf demo_session \<and> apply_edit demo_session Delete \<noteq> None"
  using demo_session_wf session_ops_keep_wf [OF demo_session_wf, of Delete] by auto

theorem edits_keep_other_placeholders_witness:
  "\<exists>s' over. apply_edit demo_session (Replace [113, 113]) = Some (s', over) \<and>
     stop_text (rendered s') (tabstops s' ! 1) = [120, 121]"
proof -
  obtain s' where e: "apply_edit demo_session (Replace [113, 113]) = Some (s', False)"
    using replace_active_eq(1) [OF demo_session_wf, of "[113, 113]"] by simp
  then have "stop_text (rendered s') (tabstops s' ! 1) =
      stop_text (rendered demo_session) (tabstops demo_session ! 1)"
    by (intro edits_keep_other_placeholders [OF demo_session_wf _ e])
      (auto simp: demo_session_def new_session_def demo_suffix_def)
  with e show ?thesis
    by (auto simp: demo_session_def new_session_def demo_suffix_def stop_text_def)
qed

end
