(* ===== verification/SnippetView.thy ===== *)
theory SnippetView
  imports SnippetSession
begin

text \<open>
  The terminal view's use of a snippet session (\<open>crates/gpui_term/src/view/mod.rs\<close>,
  \<open>commit_text\<close>, \<open>paste\<close>, \<open>send_keystroke\<close>; \<open>crates/gpui_term/src/view/suggestions.rs\<close>,
  \<open>accept_suggestion_at_index\<close>, \<open>handle_snippet_key_down\<close>), and its specification: a line
  editor that receives the keystrokes the view sends. The session has to describe the line
  the editor holds. \<open>eligible\<close> is the outcome of \<open>snippet_prompt_is_eligible\<close>.
\<close>

section \<open>What the view sends to the terminal\<close>

datatype key_out = KBackspace | KLeft | KRight | KText rstring

record key_event =
  key :: string
  key_char :: "rstring option"
  ime_in_progress :: bool
  m_control :: bool
  m_alt :: bool
  m_platform :: bool
  m_function :: bool

definition commit_text :: "bool \<Rightarrow> rstring \<Rightarrow> session option \<Rightarrow> (session option \<times> key_out list) option" where
  "commit_text eligible t sn =
     (if t = [] then Some (sn, [])
      else (case sn of
        None \<Rightarrow> Some (None, [KText t])
      | Some s \<Rightarrow>
          if \<not> eligible then Some (None, [KText t])
          else if selected s
          then do { (s1, deleted) \<leftarrow> replace_active_placeholder t s;
                    Some (Some (s1\<lparr>selected := False\<rparr>), replicate deleted KBackspace @ [KText t]) }
          else do { s1 \<leftarrow> insert_into_active_placeholder t s;
                    Some (if inserted_len_chars s1 = inserted_len_chars s then None else Some s1,
                          [KText t]) }))"

definition paste_text :: "bool \<Rightarrow> rstring \<Rightarrow> session option \<Rightarrow> (session option \<times> key_out list) option" where
  "paste_text eligible t sn =
     (if t = [] then Some (sn, [])
      else (case sn of
        None \<Rightarrow> Some (None, [KText t])
      | Some s \<Rightarrow>
          if \<not> eligible then Some (None, [KText t])
          else if selected s
          then do { (s1, deleted) \<leftarrow> replace_active_placeholder t s;
                    Some (Some (s1\<lparr>selected := False\<rparr>), replicate deleted KBackspace @ [KText t]) }
          else do { s1 \<leftarrow> insert_into_active_placeholder t s; Some (Some s1, [KText t]) }))"

definition cursor_keys :: "int \<Rightarrow> key_out list" where
  "cursor_keys delta =
     (if delta < 0 then replicate (nat (- delta)) KLeft else replicate (nat delta) KRight)"

text \<open>The tab key with a live session; an ineligible one is dropped (and the key falls through).\<close>

definition tab_key :: "bool \<Rightarrow> bool \<Rightarrow> session option \<Rightarrow> session option \<times> key_out list" where
  "tab_key eligible shift sn =
     (case sn of
        None \<Rightarrow> (None, [])
      | Some s \<Rightarrow>
          if \<not> eligible then (None, [])
          else (case jump (if shift then Prev else Next) s of
              (s1, Noop) \<Rightarrow> (Some s1, cursor_keys 0)
            | (s1, Move delta) \<Rightarrow> (Some s1, cursor_keys delta)
            | (s1, Exit delta) \<Rightarrow> (None, cursor_keys delta)))"

definition is_plain_text :: "key_event \<Rightarrow> bool" where
  "is_plain_text ev =
     (case key_char ev of
        None \<Rightarrow> False
      | Some ch \<Rightarrow> ch \<noteq> [] \<and> \<not> ime_in_progress ev \<and> \<not> m_control ev \<and> \<not> m_platform ev \<and>
                   \<not> m_function ev \<and> \<not> m_alt ev)"

definition cancel_key :: "key_event \<Rightarrow> bool" where
  "cancel_key ev \<longleftrightarrow> m_control ev \<or> m_platform ev \<or> m_function ev \<or> m_alt ev \<or>
     key ev \<in> {''left'', ''right'', ''up'', ''down'', ''home'', ''end'', ''pageup'', ''pagedown'', ''delete''}"

text \<open>The result's last component is the handler's: was the key consumed?\<close>

definition handle_snippet_key_down ::
  "bool \<Rightarrow> key_event \<Rightarrow> session option \<Rightarrow> (session option \<times> key_out list \<times> bool) option" where
  "handle_snippet_key_down eligible ev sn =
     (case sn of
        None \<Rightarrow> Some (None, [], False)
      | Some s \<Rightarrow>
          if \<not> eligible then Some (None, [], False)
          else if key ev = ''enter'' then Some (None, [], False)
          else if is_plain_text ev \<and> key ev \<notin> {''tab'', ''escape''}
          then do { (sn1, outs) \<leftarrow> commit_text eligible (the (key_char ev)) sn; Some (sn1, outs, True) }
          else if key ev = ''backspace''
          then (if selected s
            then do { (s1, deleted) \<leftarrow> delete_active_placeholder s;
                      let s2 = s1\<lparr>selected := False\<rparr>;
                      if 0 < deleted then Some (Some s2, replicate deleted KBackspace, True)
                      else Some (Some s2, [], False) }
            else do { (s1, deleted) \<leftarrow> backspace_one_in_active_placeholder s;
                      if deleted then Some (Some s1, [KBackspace], True)
                      else Some (Some s1, [], False) })
          else Some (if cancel_key ev then None else sn, [], False))"

text \<open>Accepting a suggestion whose remaining text is the template \<open>tmpl\<close>.\<close>

definition accept_template ::
  "rstring \<Rightarrow> int \<times> nat \<Rightarrow> int option \<Rightarrow> session option \<times> key_out list" where
  "accept_template tmpl point line_id =
     (case parse_snippet_suffix tmpl of
        None \<Rightarrow> (None, [KText tmpl])
      | Some sn \<Rightarrow>
          if \<exists>t \<in> set (sfx_tabstops sn). index t \<noteq> 0
          then
            let s = (new_session (sfx_rendered sn) (sfx_tabstops sn))
                      \<lparr>cursor_line_id := line_id, start_point := point, active := 0\<rparr>;
                target_end = (case tabstops s of [] \<Rightarrow> inserted_len_chars s | t # _ \<Rightarrow> range_end t);
                move_left = inserted_len_chars s - target_end
            in (Some (s\<lparr>cursor_offset_chars := target_end, selected := True\<rparr>),
                KText (sfx_rendered sn) # replicate move_left KLeft)
          else (None, [KText (sfx_rendered sn)]))"

section \<open>The line editor\<close>

text \<open>The text before and after the cursor of the line being edited.\<close>

type_synonym editor = "rstring \<times> rstring"

fun press :: "editor \<Rightarrow> key_out \<Rightarrow> editor" where
  "press (b, a) KBackspace = (butlast b, a)"
| "press (b, a) KLeft = (if b = [] then (b, a) else (butlast b, last b # a))"
| "press (b, a) KRight = (case a of [] \<Rightarrow> (b, a) | c # a' \<Rightarrow> (b @ [c], a'))"
| "press (b, a) (KText t) = (b @ t, a)"

definition press_all :: "editor \<Rightarrow> key_out list \<Rightarrow> editor" where
  "press_all ed ks = foldl press ed ks"

text \<open>The session describes the line: \<open>p\<close> and \<open>q\<close> is what stood around the cursor before.\<close>

definition mirrors :: "rstring \<Rightarrow> rstring \<Rightarrow> session \<Rightarrow> editor \<Rightarrow> bool" where
  "mirrors p q s ed \<longleftrightarrow>
     ed = (p @ take (cursor_offset_chars s) (rendered s), drop (cursor_offset_chars s) (rendered s) @ q)"

lemma press_all_simps [simp]:
  "press_all ed [] = ed"
  "press_all ed (k # ks) = press_all (press ed k) ks"
  "press_all ed (ks @ ks') = press_all (press_all ed ks) ks'"
  by (simp_all add: press_all_def)

lemma press_backspaces: "press_all (b @ x, a) (replicate (length x) KBackspace) = (b, a)"
  by (induction x rule: rev_induct) (auto simp: butlast_append)

lemma press_left: "press_all (b @ x, a) (replicate (length x) KLeft) = (b, x @ a)"
proof (induction x arbitrary: a rule: rev_induct)
  case (snoc c x)
  then show ?case by (simp add: butlast_append)
qed simp

lemma press_right: "press_all (b, x @ a) (replicate (length x) KRight) = (b @ x, a)"
  by (induction x arbitrary: b) simp_all

lemma press_cursor_keys:
  assumes "i \<le> length x" "j \<le> length x"
  shows "press_all (p @ take i x, drop i x @ q) (cursor_keys (int j - int i)) =
    (p @ take j x, drop j x @ q)"
proof -
  have split: "\<exists>u v w. x = u @ v @ w \<and> length u = m \<and> length (u @ v) = n" if "m \<le> n" "n \<le> length x" for m n
  proof (intro exI conjI)
    have "take n x = take m x @ take (n - m) (drop m x)"
      using take_add [of m "n - m" x] that by simp
    then show "x = take m x @ take (n - m) (drop m x) @ drop n x"
      by (metis append.assoc append_take_drop_id)
  qed (use that in auto)
  show ?thesis
  proof (cases "j < i")
    case True
    then obtain u v w where x: "x = u @ v @ w" "length u = j" "length (u @ v) = i"
      using split [of j i] assms by auto
    then have "cursor_keys (int j - int i) = replicate (length v) KLeft"
      using True by (auto simp: cursor_keys_def)
    then show ?thesis using press_left [of "p @ u" v "w @ q"] x by auto
  next
    case False
    then obtain u v w where x: "x = u @ v @ w" "length u = i" "length (u @ v) = j"
      using split [of i j] assms by auto
    then have "cursor_keys (int j - int i) = replicate (length v) KRight"
      using False by (auto simp: cursor_keys_def)
    then show ?thesis using press_right [of "p @ u" v "w @ q"] x by auto
  qed
qed

section \<open>The view keeps session and line in step\<close>

lemma mirrors_edit:
  assumes wf: "session_wf s" and m: "mirrors l r s ed"
    and p: "range_start (active_stop s) \<le> p" "p \<le> range_end (active_stop s)"
    and n: "n = range_end (active_stop s) - p"
  shows "mirrors l r (edit_session p ins s) (press_all ed (replicate n KBackspace @ [KText ins]))"
    and "mirrors l r (edit_session p [] s) (press_all ed (replicate n KBackspace))"
proof -
  let ?q = "range_end (active_stop s)" and ?x = "rendered s"
  note D = session_wfD [OF wf]
  have "take ?q ?x = take p ?x @ drop p (take ?q ?x)"
    using p by (metis append_take_drop_id min.absorb1 take_take)
  then have ed: "ed = ((l @ take p ?x) @ drop p (take ?q ?x), drop ?q ?x @ r)"
    using m D by (simp add: mirrors_def)
  have "length (drop p (take ?q ?x)) = n" using n D by simp
  then have "press_all ed (replicate n KBackspace) = (l @ take p ?x, drop ?q ?x @ r)"
    using press_backspaces [of "l @ take p ?x" "drop p (take ?q ?x)"] ed by simp
  moreover have "p \<le> length ?x" using p D by simp
  ultimately show "mirrors l r (edit_session p ins s) (press_all ed (replicate n KBackspace @ [KText ins]))"
    and "mirrors l r (edit_session p [] s) (press_all ed (replicate n KBackspace))"
    by (simp_all add: mirrors_def edit_session_def Let_def edit_text_def min_absorb2)
qed

lemma mirrors_selected [simp]: "mirrors l r (s\<lparr>selected := b\<rparr>) ed = mirrors l r s ed"
  by (simp add: mirrors_def)

lemma session_wf_selected [simp]: "session_wf (s\<lparr>selected := b\<rparr>) = session_wf s"
  by (simp add: session_wf_def)

text \<open>One step of a live session under an eligible prompt that the session survives.\<close>

inductive view_step :: "session \<times> editor \<Rightarrow> session \<times> editor \<Rightarrow> bool" where
  commit: "commit_text True t (Some s) = Some (Some s', outs) \<Longrightarrow> view_step (s, ed) (s', press_all ed outs)"
| paste: "paste_text True t (Some s) = Some (Some s', outs) \<Longrightarrow> view_step (s, ed) (s', press_all ed outs)"
| tab: "tab_key True shift (Some s) = (Some s', outs) \<Longrightarrow> view_step (s, ed) (s', press_all ed outs)"
| key_down: "handle_snippet_key_down True ev (Some s) = Some (Some s', outs, True) \<Longrightarrow>
    view_step (s, ed) (s', press_all ed outs)"

definition in_step :: "rstring \<Rightarrow> rstring \<Rightarrow> session \<times> editor \<Rightarrow> bool" where
  "in_step l r se \<longleftrightarrow> session_wf (fst se) \<and> mirrors l r (fst se) (snd se)"

lemma replace_in_step:
  assumes "session_wf s" "mirrors l r s ed" "t \<noteq> []"
  shows "\<exists>s1 n. replace_active_placeholder t s = Some (s1, n) \<and>
    in_step l r (s1\<lparr>selected := False\<rparr>, press_all ed (replicate n KBackspace @ [KText t]))"
proof -
  let ?st = "range_start (active_stop s)"
  let ?s1 = "edit_session ?st [] s"
  note R = replace_active_eq [OF assms(1,3)]
  have le: "?st \<le> range_end (active_stop s)" using session_wfD [OF assms(1)] by simp
  have "mirrors l r ?s1 (press_all ed (replicate (range_end (active_stop s) - ?st) KBackspace))"
    by (rule mirrors_edit(2) [OF assms(1,2) order.refl le refl])
  then have "mirrors l r (edit_session ?st t ?s1)
      (press_all ed (replicate (range_end (active_stop s) - ?st) KBackspace @ [KText t]))"
    using mirrors_edit(1) [OF R(2), of l r _ ?st 0 t] R(3,4) by simp
  moreover have "session_wf (edit_session ?st t ?s1)"
    using edit_session_wf(1) [OF R(2)] R(3,4) by simp
  ultimately show ?thesis using R(1) by (simp add: in_step_def)
qed

lemma insert_in_step:
  assumes "session_wf s" "mirrors l r s ed" "t \<noteq> []"
  shows "\<exists>s1. insert_into_active_placeholder t s = Some s1 \<and>
    inserted_len_chars s1 \<noteq> inserted_len_chars s \<and> in_step l r (s1, press_all ed [KText t])"
proof -
  let ?en = "range_end (active_stop s)"
  have le: "range_start (active_stop s) \<le> ?en" using session_wfD [OF assms(1)] by simp
  have "mirrors l r (edit_session ?en t s) (press_all ed [KText t])"
    using mirrors_edit(1) [OF assms(1,2) le order.refl, of 0 t] by simp
  moreover have "inserted_len_chars (edit_session ?en t s) = inserted_len_chars s + length t"
    by (simp add: edit_session_def Let_def)
  ultimately show ?thesis
    using insert_active_eq [OF assms(1,3)] edit_session_wf(1) [OF assms(1) le order.refl] assms(3)
    by (simp add: in_step_def)
qed

lemma commit_in_step:
  assumes "session_wf s" "mirrors l r s ed"
  shows "\<exists>s1 outs. commit_text True t (Some s) = Some (Some s1, outs) \<and> in_step l r (s1, press_all ed outs)"
proof (cases "t = []")
  case True
  then show ?thesis using assms by (simp add: commit_text_def in_step_def)
next
  case False
  show ?thesis
    using replace_in_step [OF assms False] insert_in_step [OF assms False] False
    by (cases "selected s") (auto simp: commit_text_def)
qed

lemma paste_in_step:
  assumes "session_wf s" "mirrors l r s ed"
  shows "\<exists>s1 outs. paste_text True t (Some s) = Some (Some s1, outs) \<and> in_step l r (s1, press_all ed outs)"
proof (cases "t = []")
  case True
  then show ?thesis using assms by (simp add: paste_text_def in_step_def)
next
  case False
  show ?thesis
    using replace_in_step [OF assms False] insert_in_step [OF assms False] False
    by (cases "selected s") (auto simp: paste_text_def)
qed

lemma tab_in_step:
  assumes "session_wf s" "mirrors l r s ed" "tab_key True shift (Some s) = (Some s', outs)"
  shows "in_step l r (s', press_all ed outs)"
proof -
  let ?dir = "if shift then Prev else Next"
  obtain s1 j where j: "jump ?dir s = (s1, j)" by fastforce
  with assms(3) have ne: "\<nexists>d. j = Exit d" and s1: "s1 = s'"
    by (auto simp: tab_key_def split: snippet_jump.splits)
  note J = jump_wf [OF assms(1) j ne]
  consider "j = Noop" "s' = s" | "j = Move (int (cursor_offset_chars s') - int (cursor_offset_chars s))"
    using J(4) s1 by auto
  then show ?thesis
  proof cases
    case 1
    then show ?thesis using assms j by (auto simp: tab_key_def in_step_def cursor_keys_def)
  next
    case 2
    then have "outs = cursor_keys (int (cursor_offset_chars s') - int (cursor_offset_chars s))"
      using assms(3) j by (auto simp: tab_key_def)
    then show ?thesis
      using assms(2) J s1 session_wfD [OF assms(1)] session_wfD [of s']
        press_cursor_keys [of "cursor_offset_chars s" "rendered s" "cursor_offset_chars s'" l r]
      by (auto simp: in_step_def mirrors_def)
  qed
qed

lemma backspace_in_step:
  assumes "session_wf s" "mirrors l r s ed"
  shows "\<exists>s1 n. delete_active_placeholder s = Some (s1, n) \<and>
      in_step l r (s1, press_all ed (replicate n KBackspace))"
    and "\<exists>s1 b. backspace_one_in_active_placeholder s = Some (s1, b) \<and>
      (b \<longrightarrow> in_step l r (s1, press_all ed [KBackspace]))"
proof -
  note D = session_wfD [OF assms(1)]
  show "\<exists>s1 n. delete_active_placeholder s = Some (s1, n) \<and>
      in_step l r (s1, press_all ed (replicate n KBackspace))"
    using delete_active_eq [OF assms(1)] edit_session_wf(1) [OF assms(1) order.refl D(3)]
      mirrors_edit(2) [OF assms order.refl D(3) refl] by (simp add: in_step_def)
  show "\<exists>s1 b. backspace_one_in_active_placeholder s = Some (s1, b) \<and>
      (b \<longrightarrow> in_step l r (s1, press_all ed [KBackspace]))"
  proof (cases "range_start (active_stop s) < range_end (active_stop s)")
    case True
    then have le: "range_start (active_stop s) \<le> range_end (active_stop s) - 1" by simp
    show ?thesis
      using True backspace_one_eq [OF assms(1)] edit_session_wf(1) [OF assms(1) le]
        mirrors_edit(2) [OF assms le, of 1] by (auto simp: in_step_def)
  qed (auto simp: backspace_one_eq [OF assms(1)])
qed

lemma key_down_in_step:
  assumes "session_wf s" "mirrors l r s ed"
  shows "\<exists>sn outs handled. handle_snippet_key_down True ev (Some s) = Some (sn, outs, handled) \<and>
    (handled \<longrightarrow> (\<exists>s'. sn = Some s' \<and> in_step l r (s', press_all ed outs)))"
proof -
  consider "key ev = ''enter''" | "key ev \<noteq> ''enter''" "is_plain_text ev \<and> key ev \<notin> {''tab'', ''escape''}"
    | "\<not> (is_plain_text ev \<and> key ev \<notin> {''tab'', ''escape''})" "key ev = ''backspace''"
    | "key ev \<noteq> ''enter''" "\<not> (is_plain_text ev \<and> key ev \<notin> {''tab'', ''escape''})" "key ev \<noteq> ''backspace''"
    by blast
  then show ?thesis
  proof cases
    case 2
    then show ?thesis
      using commit_in_step [OF assms, of "the (key_char ev)"]
      by (auto simp: handle_snippet_key_down_def)
  next
    case 3
    obtain s1 n where d: "delete_active_placeholder s = Some (s1, n)"
      "in_step l r (s1, press_all ed (replicate n KBackspace))"
      using backspace_in_step(1) [OF assms] by blast
    obtain s2 b where bk: "backspace_one_in_active_placeholder s = Some (s2, b)"
      "b \<longrightarrow> in_step l r (s2, press_all ed [KBackspace])"
      using backspace_in_step(2) [OF assms] by blast
    from 3 d bk show ?thesis
      by (cases "selected s"; cases "0 < n"; cases b) (auto simp: handle_snippet_key_down_def in_step_def)
  qed (auto simp: handle_snippet_key_down_def)
qed

lemma view_step_in_step:
  assumes "view_step se se'" "in_step l r se"
  shows "in_step l r se'"
  using assms
proof (induction rule: view_step.induct)
  case (commit t s s' outs ed)
  then show ?case using commit_in_step [of s l r ed t] by (auto simp: in_step_def)
next
  case (paste t s s' outs ed)
  then show ?case using paste_in_step [of s l r ed t] by (auto simp: in_step_def)
next
  case (tab shift s s' outs ed)
  then show ?case using tab_in_step [of s l r ed] by (auto simp: in_step_def)
next
  case (key_down ev s s' outs ed)
  then show ?case using key_down_in_step [of s l r ed ev] by (auto simp: in_step_def)
qed

lemma accept_in_step:
  assumes "accept_template tmpl point line_id = (Some s, outs)"
  shows "in_step b a (s, press_all (b, a) outs)"
proof -
  obtain sn where sn: "parse_snippet_suffix tmpl = Some sn" "\<exists>t \<in> set (sfx_tabstops sn). index t \<noteq> 0"
    using assms by (auto simp: accept_template_def split: option.splits if_splits)
  then obtain t ts where ts: "sfx_tabstops sn = t # ts" by (cases "sfx_tabstops sn") auto
  note ranges = parsed_ranges [OF sn(1)]
  let ?x = "sfx_rendered sn" and ?k = "range_end t"
  have k: "?k \<le> length ?x" using ranges(1) ts by (auto simp: stop_ok_def)
  have "press_all (b @ ?x, a) (replicate (length ?x - ?k) KLeft) = (b @ take ?k ?x, drop ?k ?x @ a)"
    using press_left [of "b @ take ?k ?x" "drop ?k ?x" a] by simp
  then show ?thesis
    using assms sn ts ranges k
    by (auto simp: accept_template_def new_session_def Let_def in_step_def session_wf_def mirrors_def)
qed

section \<open>Properties of the view\<close>


text \<open>no handler panics on a well-formed session.\<close>

theorem snippet_view_no_panic:
  assumes "session_wf s"
  shows "commit_text eligible t (Some s) \<noteq> None \<and> paste_text eligible t (Some s) \<noteq> None \<and>
    handle_snippet_key_down eligible ev (Some s) \<noteq> None"
proof -
  have m: "mirrors [] [] s (take (cursor_offset_chars s) (rendered s), drop (cursor_offset_chars s) (rendered s))"
    by (simp add: mirrors_def)
  show ?thesis
  proof (cases eligible)
    case True
    then show ?thesis
      using commit_in_step [OF assms m, of t] paste_in_step [OF assms m, of t]
        key_down_in_step [OF assms m, of ev] by auto
  qed (simp add: commit_text_def paste_text_def handle_snippet_key_down_def)
qed

text \<open>C6: a backspace in an empty placeholder that is not selected is not consumed and leaves the session alive and
  unchanged; the view then forwards it to the line editor, and when there is a character before the cursor the
  session no longer describes the line.\<close>

theorem backspace_in_empty_placeholder_desyncs:
  assumes "session_wf s" and "mirrors l r s ed" and "\<not> selected s"
    and "range_start (active_stop s) = range_end (active_stop s)"
    and "key ev = ''backspace''" and "\<not> is_plain_text ev" and "fst ed \<noteq> []"
  shows "handle_snippet_key_down True ev (Some s) = Some (Some s, [], False) \<and>
    \<not> mirrors l r s (press ed KBackspace)"
proof -
  have "butlast (fst ed) \<noteq> fst ed"
    using assms(7) by (metis append_butlast_last_id not_Cons_self2 self_append_conv)
  then have "\<not> mirrors l r s (press ed KBackspace)"
    using assms(2) by (cases ed) (auto simp: mirrors_def)
  then show ?thesis
    using assms by (simp add: handle_snippet_key_down_def backspace_one_eq [OF assms(1)])
qed

text \<open>The session after accepting the demonstration template on the line \<open>$\<close>.\<close>

lemma demo_accept:
  "accept_template demo_template (0, 0) None = (Some demo_session, [KText (sfx_rendered demo_suffix)])"
  by (simp add: accept_template_def demo_parse demo_session_def new_session_def demo_suffix_def)


theorem snippet_view_no_panic_witness:
  "session_wf demo_session \<and> commit_text True [113] (Some demo_session) \<noteq> None"
  using demo_session_wf snippet_view_no_panic [OF demo_session_wf, of True "[113]"] by blast

text \<open>The line \<open>git\<close> and a space, with an empty placeholder behind it.\<close>

definition empty_session :: session where
  "empty_session = (new_session [103, 105, 116, 32] [\<lparr>index = 1, range_start = 4, range_end = 4\<rparr>])
     \<lparr>cursor_offset_chars := 4\<rparr>"

definition backspace_event :: key_event where
  "backspace_event = \<lparr>key = ''backspace'', key_char = None, ime_in_progress = False, m_control = False,
     m_alt = False, m_platform = False, m_function = False\<rparr>"

theorem backspace_in_empty_placeholder_desyncs_witness:
  "handle_snippet_key_down True backspace_event (Some empty_session) = Some (Some empty_session, [], False) \<and>
   \<not> mirrors [] [] empty_session (press ([103, 105, 116, 32], []) KBackspace)"
  by (rule backspace_in_empty_placeholder_desyncs)
    (simp_all add: empty_session_def new_session_def session_wf_def stop_ok_def mirrors_def
      active_stop_def backspace_event_def is_plain_text_def)

end
