(* ===== verification/Suggest.thy ===== *)
theory Suggest
  imports Prelude
begin

text \<open>
  Command suggestions (\<open>gpui_term/src/suggestions.rs\<close>): matching what was typed against the start
  of a command up to runs of whitespace, the text that completes it, and the ranked list of candidates.
\<close>

section \<open>Matching\<close>

text \<open>
  \<open>loose_prefix_match_end\<close>: the byte offset in the full text at which the match of the prefix
  ends. The last argument counts the bytes consumed so far.
\<close>

function loose_end :: "rstring \<Rightarrow> rstring \<Rightarrow> nat \<Rightarrow> nat option" where
  "loose_end full [] n = Some n"
| "loose_end full (p # ps) n =
     (if is_whitespace p
      then let run = takeWhile is_whitespace full
           in if run = [] then None
              else loose_end (dropWhile is_whitespace full) (dropWhile is_whitespace ps) (n + byte_len run)
      else case full of
             [] \<Rightarrow> None
           | f # fs \<Rightarrow> if f \<noteq> p then None else loose_end fs ps (n + len_utf8 f))"
  by pat_completeness auto
termination
  by (relation "measure (\<lambda>(full, prefix, n). length prefix)") (auto simp: less_Suc_eq_le length_dropWhile_le)

definition skip_ws :: "rstring \<Rightarrow> nat \<Rightarrow> nat" where
  "skip_ws s i = i + length (takeWhile is_ascii_whitespace (drop i s))"

text \<open>The fast path on bytes, with the positions in both texts.\<close>

function ascii_end :: "rstring \<Rightarrow> rstring \<Rightarrow> nat \<Rightarrow> nat \<Rightarrow> nat \<Rightarrow> nat option" where
  "ascii_end full prefix i j m =
     (if j < length prefix
      then if is_ascii_whitespace (prefix ! j)
           then let i' = skip_ws full i
                in if i' = i then None else ascii_end full prefix i' (skip_ws prefix j) i'
           else if i \<ge> length full then None
           else if full ! i \<noteq> prefix ! j then None
           else ascii_end full prefix (i + 1) (j + 1) (i + 1)
      else Some m)"
  by pat_completeness auto
termination
proof (relation "measure (\<lambda>(full, prefix, i, j, m). length prefix - j)")
  fix full prefix :: rstring and i j m x
  assume a: "j < length prefix" "is_ascii_whitespace (prefix ! j)"
  then have "drop j prefix = prefix ! j # drop (Suc j) prefix" by (simp add: Cons_nth_drop_Suc)
  then have "j < skip_ws prefix j" using a(2) by (simp add: skip_ws_def)
  then show "((full, prefix, x, skip_ws prefix j, x), (full, prefix, i, j, m))
      \<in> measure (\<lambda>(full, prefix, i, j, m). length prefix - j)"
    using a(1) by simp
qed auto

declare ascii_end.simps [simp del]

definition loose_prefix_match_end :: "rstring \<Rightarrow> rstring \<Rightarrow> nat option" where
  "loose_prefix_match_end full prefix =
     (if is_ascii full \<and> is_ascii prefix then ascii_end full prefix 0 0 0 else loose_end full prefix 0)"

section \<open>Completing\<close>

text \<open>The outer option is a panic (a slice off a character boundary).\<close>

definition compute_insert_suffix :: "rstring \<Rightarrow> rstring \<Rightarrow> rstring option option" where
  "compute_insert_suffix current full =
     (let current = trim_start current
      in if current = [] then Some None
         else case loose_prefix_match_end full current of
                None \<Rightarrow> Some None
              | Some n \<Rightarrow>
                  if n \<ge> byte_len full then Some None
                  else map_option (\<lambda>(_, suffix). if suffix = [] then None else Some suffix) (split_at_byte full n))"

fun first_suffix :: "rstring \<Rightarrow> rstring list \<Rightarrow> (rstring \<times> rstring) option option" where
  "first_suffix full [] = Some None"
| "first_suffix full (c # cs) =
     do { s \<leftarrow> compute_insert_suffix c full;
          case s of Some suffix \<Rightarrow> Some (Some (trim_start c, suffix)) | None \<Rightarrow> first_suffix full cs }"

definition compute_insert_suffix_for_line ::
  "rstring \<Rightarrow> rstring option \<Rightarrow> rstring \<Rightarrow> (rstring \<times> rstring) option option" where
  "compute_insert_suffix_for_line line prompt full =
     do { early \<leftarrow>
            (case prompt of
               None \<Rightarrow> Some None
             | Some p \<Rightarrow>
                 let input = (case strip_prefix p line of None \<Rightarrow> [] | Some i \<Rightarrow> i)
                 in map_option (map_option (\<lambda>suffix. (input, suffix))) (compute_insert_suffix input full));
          case early of
            Some r \<Rightarrow> Some (Some r)
          | None \<Rightarrow> first_suffix full (map (\<lambda>k. drop k line) [0..<length line + 1]) }"

definition line_is_suggestion_prefix :: "rstring \<Rightarrow> rstring \<Rightarrow> bool" where
  "line_is_suggestion_prefix line full \<longleftrightarrow> loose_prefix_match_end full (trim_start line) \<noteq> None"

section \<open>Ranking\<close>

record suggestion_meta =
  m_score :: int
  m_desc :: "rstring option"

record suggestion_item =
  full_text :: rstring
  score :: int
  description :: "rstring option"

definition push_candidate ::
  "rstring \<Rightarrow> int \<Rightarrow> rstring \<times> rstring option \<Rightarrow> (rstring \<times> suggestion_meta) list \<Rightarrow>
   (rstring \<times> suggestion_meta) list" where
  "push_candidate input sc cd al =
     (let (candidate, desc) = cd
      in case loose_prefix_match_end candidate input of
           None \<Rightarrow> al
         | Some n \<Rightarrow>
             if n \<ge> byte_len candidate then al
             else let desc = (case desc of None \<Rightarrow> None | Some d \<Rightarrow> if trim d = [] then None else Some (trim d))
                  in case map_of al candidate of
                       None \<Rightarrow> AList.update candidate \<lparr>m_score = sc, m_desc = desc\<rparr> al
                     | Some e \<Rightarrow>
                         if m_score e \<ge> sc
                         then (case (m_desc e, desc) of
                                 (None, Some d) \<Rightarrow> AList.update candidate (e\<lparr>m_desc := Some d\<rparr>) al
                               | _ \<Rightarrow> al)
                         else AList.update candidate
                                (e\<lparr>m_score := sc,
                                   m_desc := (case (desc, m_desc e) of
                                                (None, v) \<Rightarrow> v
                                              | (Some d, None) \<Rightarrow> Some d
                                              | (Some d, Some v) \<Rightarrow> if byte_len d > byte_len v then Some d else Some v)\<rparr>) al)"

definition item_cmp :: "suggestion_item \<Rightarrow> suggestion_item \<Rightarrow> ordering" where
  "item_cmp a b = then_with (lin_cmp (score b) (score a)) (str_cmp (full_text a) (full_text b))"

definition to_item :: "rstring \<times> suggestion_meta \<Rightarrow> suggestion_item" where
  "to_item km = \<lparr>full_text = fst km, score = m_score (snd km), description = m_desc (snd km)\<rparr>"

definition first_word :: "rstring \<Rightarrow> rstring" where
  "first_word s = takeWhile (\<lambda>c. \<not> is_whitespace c) (trim_start s)"

text \<open>\<open>provider\<close>: the candidates for a first word, in the order they are offered.\<close>

definition suggest ::
  "nat \<Rightarrow> (rstring \<Rightarrow> (rstring \<times> rstring option) list) option \<Rightarrow> rstring \<Rightarrow> suggestion_item list" where
  "suggest max_items provider input =
     (let input = trim_start input
      in if input = [] then []
         else let al = (case provider of
                          None \<Rightarrow> []
                        | Some f \<Rightarrow> if first_word input = [] then []
                                    else fold (push_candidate input 110) (f (first_word input)) [])
              in take (max max_items 1) (sort_by item_cmp (map to_item al)))"

datatype selection_move = Up | Down

definition move_selection :: "nat \<Rightarrow> nat \<Rightarrow> selection_move \<Rightarrow> nat" where
  "move_selection selected n dir =
     (if n = 0 then 0
      else case dir of Up \<Rightarrow> min (selected - 1) (n - 1) | Down \<Rightarrow> min (selected + 1) (n - 1))"

definition move_selection_opt :: "nat option \<Rightarrow> nat \<Rightarrow> selection_move \<Rightarrow> nat option" where
  "move_selection_opt selected n dir =
     (if n = 0 then None
      else case (selected, dir) of
             (None, Down) \<Rightarrow> Some 0
           | (None, Up) \<Rightarrow> Some (n - 1)
           | (Some s, d) \<Rightarrow> Some (move_selection s n d))"

section \<open>The suggestions of the user's files\<close>

text \<open>
  \<open>StaticSuggestionsDb\<close> of \<open>termua/src/static_suggestions.rs\<close>: examples by command. A \<open>BTreeMap\<close>
  is an association list, read in the order of its keys. Reading the files is left out.
\<close>

definition by_key :: "(rstring \<times> 'v) list \<Rightarrow> (rstring \<times> 'v) list" where
  "by_key al = sort_by (\<lambda>a b. str_cmp (fst a) (fst b)) al"

definition merge_hint ::
  "rstring \<Rightarrow> rstring \<times> rstring \<Rightarrow> (rstring \<times> rstring) list \<Rightarrow> (rstring \<times> rstring) list" where
  "merge_hint command hint slot =
     (let cmd = trim (fst hint); desc = trim (snd hint)
      in if cmd = [] \<or> \<not> starts_with command cmd then slot
         else case map_of slot cmd of
                None \<Rightarrow> AList.update cmd desc slot
              | Some ex \<Rightarrow>
                  if ex = [] \<and> desc \<noteq> [] then AList.update cmd desc slot
                  else if byte_len desc > byte_len ex \<and> desc \<noteq> [] then AList.update cmd desc slot
                  else slot)"

definition merge_command ::
  "rstring \<times> (rstring \<times> rstring) list \<Rightarrow> (rstring \<times> (rstring \<times> rstring) list) list \<Rightarrow>
   (rstring \<times> (rstring \<times> rstring) list) list" where
  "merge_command entry dst =
     (let command = trim (fst entry)
      in if command = [] then dst
         else AList.update command
                (fold (merge_hint command) (snd entry) (case map_of dst command of None \<Rightarrow> [] | Some slot \<Rightarrow> slot)) dst)"

definition merge_suggestions ::
  "(rstring \<times> (rstring \<times> rstring) list) list \<Rightarrow> (rstring \<times> (rstring \<times> rstring) list) list \<Rightarrow>
   (rstring \<times> (rstring \<times> rstring) list) list" where
  "merge_suggestions src dst = fold merge_command (by_key src) dst"

text \<open>The database of a directory's files, in the order of their names.\<close>

definition load_suggestions ::
  "(rstring \<times> (rstring \<times> rstring) list) list list \<Rightarrow> (rstring \<times> (rstring \<times> rstring) list) list" where
  "load_suggestions files = map (map_prod id by_key) (by_key (fold merge_suggestions files []))"

definition offer :: "rstring \<times> rstring \<Rightarrow> rstring \<times> rstring option" where
  "offer hint = (fst hint, if trim (snd hint) = [] then None else Some (trim (snd hint)))"

definition for_each_candidate ::
  "(rstring \<times> (rstring \<times> rstring) list) list \<Rightarrow> rstring \<Rightarrow> (rstring \<times> rstring option) list" where
  "for_each_candidate db w =
     (let w = trim w
      in if w = [] then []
         else if length w \<le> 1
         then (case map_of db w of None \<Rightarrow> [] | Some hints \<Rightarrow> map offer hints)
         else take 500 (concat (map (\<lambda>kv. map offer (snd kv))
                (filter (\<lambda>kv. str_cmp w (fst kv) \<noteq> Greater \<and> str_cmp (fst kv) (w @ [0x10FFFF]) \<noteq> Greater) db))))"

section \<open>What matching means\<close>

text \<open>A text with each run of whitespace replaced by one blank.\<close>

fun canon :: "rstring \<Rightarrow> rstring" where
  "canon [] = []"
| "canon (c # s) = (if is_whitespace c
                    then (case s of [] \<Rightarrow> [32] | d # _ \<Rightarrow> if is_whitespace d then canon s else 32 # canon s)
                    else c # canon s)"

definition ends_ws :: "rstring \<Rightarrow> bool" where
  "ends_ws s \<longleftrightarrow> s \<noteq> [] \<and> is_whitespace (last s)"

definition starts_ws :: "rstring \<Rightarrow> bool" where
  "starts_ws s \<longleftrightarrow> s \<noteq> [] \<and> is_whitespace (hd s)"

lemma ws32 [simp]: "is_whitespace 32"
  by (simp add: is_whitespace_def)

lemma canon_ws: "is_whitespace c \<Longrightarrow> canon (c # s) = 32 # canon (dropWhile is_whitespace s)"
  by (induction s arbitrary: c) (auto split: list.splits)

lemma canon_not_ws: "\<not> is_whitespace c \<Longrightarrow> canon (c # s) = c # canon s"
  by simp

declare canon.simps(2) [simp del]
lemmas canon_simps [simp] = canon_ws canon_not_ws

lemma canon_Nil_iff [simp]: "canon s = [] \<longleftrightarrow> s = []"
  by (cases s; cases "is_whitespace (hd s)") auto

lemma canon_run: "run \<noteq> [] \<Longrightarrow> \<forall>c \<in> set run. is_whitespace c \<Longrightarrow> \<not> starts_ws s \<Longrightarrow> canon (run @ s) = 32 # canon s"
proof (cases run)
  case (Cons c r)
  assume "\<forall>c \<in> set run. is_whitespace c" "\<not> starts_ws s"
  then have "dropWhile is_whitespace (r @ s) = s"
    using Cons by (cases s) (auto simp: starts_ws_def dropWhile_append2 dropWhile_append)
  then show ?thesis using Cons \<open>\<forall>c \<in> set run. is_whitespace c\<close> by simp
qed simp

lemma drop_not_starts [simp]: "\<not> starts_ws (dropWhile is_whitespace s)"
  unfolding starts_ws_def using hd_dropWhile by blast

lemma canon_split:
  assumes "starts_ws s"
  shows "canon s = 32 # canon (dropWhile is_whitespace s)" "takeWhile is_whitespace s \<noteq> []"
  using assms by (cases s; simp add: starts_ws_def)+

lemma canon_head: "canon s = 32 # t \<Longrightarrow> starts_ws s"
proof (cases s)
  case (Cons c r)
  assume "canon s = 32 # t"
  then show ?thesis using Cons by (cases "is_whitespace c") (auto simp: starts_ws_def)
qed simp

text \<open>The specification of the match: it ends after the shortest start of the text that equals the prefix.\<close>

definition loose_spec :: "rstring \<Rightarrow> rstring \<Rightarrow> nat \<Rightarrow> bool" where
  "loose_spec full prefix n \<longleftrightarrow>
     (\<exists>a b. full = a @ b \<and> n = byte_len a \<and> canon a = canon prefix \<and> (ends_ws prefix \<longrightarrow> \<not> starts_ws b))"

lemma ends_ws_run: "p # ps = run @ rest \<Longrightarrow> \<forall>c \<in> set run. is_whitespace c \<Longrightarrow> run \<noteq> [] \<Longrightarrow>
    ends_ws (p # ps) = (rest = [] \<or> ends_ws rest)"
  by (auto simp: ends_ws_def)

lemma loose_spec_ws:
  assumes "is_whitespace p"
  shows "loose_spec full (p # ps) n \<longleftrightarrow> takeWhile is_whitespace full \<noteq> [] \<and>
    (\<exists>k. n = byte_len (takeWhile is_whitespace full) + k \<and>
      loose_spec (dropWhile is_whitespace full) (dropWhile is_whitespace ps) k)"
    (is "?L \<longleftrightarrow> ?R")
proof
  let ?rest = "dropWhile is_whitespace ps"
  have ends: "ends_ws (p # ps) = (?rest = [] \<or> ends_ws ?rest)"
    using assms by (intro ends_ws_run [of _ _ "p # takeWhile is_whitespace ps"]) (auto dest: set_takeWhileD)
  have canon_p: "canon (p # ps) = 32 # canon ?rest" using assms by simp
  {
    assume ?L
    then obtain a b where ab: "full = a @ b" "n = byte_len a" "canon a = 32 # canon ?rest"
      "ends_ws (p # ps) \<Longrightarrow> \<not> starts_ws b" unfolding loose_spec_def canon_p by blast
    have a: "starts_ws a" by (rule canon_head [OF ab(3)])
    let ?a = "dropWhile is_whitespace a"
    have can: "canon ?a = canon ?rest" using canon_split(1) [OF a] ab(3) by simp
    have run: "takeWhile is_whitespace full = takeWhile is_whitespace a \<and> dropWhile is_whitespace full = ?a @ b"
    proof (cases "?a = []")
      case True
      then have "canon ?rest = []" using can by (metis canon.simps(1))
      then have "?rest = []" by (simp only: canon_Nil_iff)
      then have "\<not> starts_ws b" using ab(4) ends by simp
      moreover have tw: "takeWhile is_whitespace a = a" and "\<forall>c \<in> set a. is_whitespace c"
        using True by (simp_all add: dropWhile_eq_Nil_conv)
      ultimately have "takeWhile is_whitespace full = a \<and> dropWhile is_whitespace full = b"
        using ab(1) by (cases b) (auto simp: starts_ws_def takeWhile_append2 dropWhile_append2)
      then show ?thesis unfolding True tw by simp
    next
      case False
      then obtain x where "x \<in> set a" "\<not> is_whitespace x" by (auto simp: dropWhile_eq_Nil_conv)
      then show ?thesis using ab(1) by (simp add: takeWhile_append1 dropWhile_append1)
    qed
    have "takeWhile is_whitespace full \<noteq> []" using run canon_split(2) [OF a] by simp
    moreover have "byte_len a = byte_len (takeWhile is_whitespace a) + byte_len ?a"
      by (metis byte_len_simps(3) takeWhile_dropWhile_id)
    moreover have "loose_spec (dropWhile is_whitespace full) ?rest (byte_len ?a)"
      unfolding loose_spec_def using run can ab(4) ends by blast
    ultimately show ?R using run ab(2) by auto
  next
    assume ?R
    then obtain a b where ab: "takeWhile is_whitespace full \<noteq> []" "dropWhile is_whitespace full = a @ b"
      "n = byte_len (takeWhile is_whitespace full) + byte_len a" "canon a = canon ?rest" "ends_ws ?rest \<Longrightarrow> \<not> starts_ws b"
      unfolding loose_spec_def by blast
    let ?run = "takeWhile is_whitespace full"
    have full: "full = (?run @ a) @ b" using ab(2) by (metis append.assoc takeWhile_dropWhile_id)
    have nb: "\<not> starts_ws (a @ b)" using drop_not_starts [of full] ab(2) by simp
    then have "\<not> starts_ws a" by (auto simp: starts_ws_def)
    then have "canon (?run @ a) = 32 # canon a" by (intro canon_run) (use ab(1) in \<open>auto dest: set_takeWhileD\<close>)
    moreover have "\<not> starts_ws b" if "ends_ws (p # ps)"
    proof (cases "?rest = []")
      case True
      then have "canon a = []" using ab(4) by simp
      then show ?thesis using nb by simp
    qed (use that ends ab(5) in blast)
    ultimately show ?L
      unfolding loose_spec_def canon_p using full ab(3,4) by (intro exI [of _ "?run @ a"] exI [of _ b]) simp
  }
qed

lemma canon_head_char:
  assumes "\<not> is_whitespace p"
  shows "canon a = p # t \<longleftrightarrow> (\<exists>r. a = p # r \<and> canon r = t)"
proof (cases a)
  case (Cons c r)
  then show ?thesis using assms by (cases "is_whitespace c") auto
qed simp

lemma loose_spec_char:
  assumes "\<not> is_whitespace p"
  shows "loose_spec full (p # ps) n \<longleftrightarrow> (\<exists>fs k. full = p # fs \<and> n = len_utf8 p + k \<and> loose_spec fs ps k)"
    (is "?L \<longleftrightarrow> ?R")
proof
  have e: "ends_ws (p # ps) = ends_ws ps" using assms by (simp add: ends_ws_def)
  {
    assume ?L
    then obtain a b where ab: "full = a @ b" "n = byte_len a" "canon a = p # canon ps" "ends_ws ps \<longrightarrow> \<not> starts_ws b"
      using assms e by (auto simp: loose_spec_def)
    then obtain r where "a = p # r" "canon r = canon ps" using canon_head_char [OF assms] by blast
    then show ?R unfolding loose_spec_def using ab by auto
  next
    assume ?R
    then obtain a b where "full = (p # a) @ b" "n = byte_len (p # a)" "canon a = canon ps" "ends_ws ps \<longrightarrow> \<not> starts_ws b"
      by (auto simp: loose_spec_def)
    then show ?L unfolding loose_spec_def e using assms by (intro exI [of _ "p # a"] exI [of _ b]) simp
  }
qed

lemma loose_spec_Nil: "loose_spec full [] n \<longleftrightarrow> n = 0"
  by (auto simp: loose_spec_def ends_ws_def)

lemma loose_end_iff: "loose_end full prefix m = Some k \<longleftrightarrow> (\<exists>n. k = m + n \<and> loose_spec full prefix n)"
proof (induction full prefix m arbitrary: k rule: loose_end.induct)
  case (1 full n)
  then show ?case by (auto simp: loose_spec_Nil)
next
  case (2 full p ps m)
  show ?case
  proof (cases "is_whitespace p")
    case True
    let ?run = "takeWhile is_whitespace full"
    show ?thesis
    proof (cases "?run = []")
      case False
      have "loose_end (dropWhile is_whitespace full) (dropWhile is_whitespace ps) (m + byte_len ?run) = Some k \<longleftrightarrow>
          (\<exists>n. k = m + byte_len ?run + n \<and> loose_spec (dropWhile is_whitespace full) (dropWhile is_whitespace ps) n)"
        using "2.IH"(1) [OF True refl] False by simp
      then show ?thesis using True False by (auto simp: loose_spec_ws add.assoc)
    qed (use True in \<open>simp add: loose_spec_ws\<close>)
  next
    case False
    then show ?thesis
      using "2.IH"(2) [OF False] by (cases full) (auto simp: loose_spec_char)
  qed
qed

section \<open>The fast path\<close>

lemma ascii_ws_eq: "c < 128 \<Longrightarrow> c \<noteq> 11 \<Longrightarrow> is_whitespace c = is_ascii_whitespace c"
  by (auto simp: is_whitespace_def is_ascii_whitespace_def)

lemma run_ascii:
  assumes "is_ascii s" "11 \<notin> set s"
  shows "takeWhile is_whitespace (drop i s) = takeWhile is_ascii_whitespace (drop i s)"
    and "dropWhile is_whitespace (drop i s) = drop (skip_ws s i) s"
    and "byte_len (takeWhile is_whitespace (drop i s)) = skip_ws s i - i"
proof -
  have eq: "is_whitespace c = is_ascii_whitespace c" if "c \<in> set (drop i s)" for c
    using that assms by (intro ascii_ws_eq) (auto simp: is_ascii_def dest: in_set_dropD)
  then show t: "takeWhile is_whitespace (drop i s) = takeWhile is_ascii_whitespace (drop i s)"
    by (intro takeWhile_cong) auto
  show "dropWhile is_whitespace (drop i s) = drop (skip_ws s i) s"
    unfolding dropWhile_eq_drop t by (simp add: skip_ws_def add.commute)
  have "is_ascii (takeWhile is_whitespace (drop i s))"
    using assms(1) by (auto simp: is_ascii_def dest!: set_takeWhileD in_set_dropD)
  then show "byte_len (takeWhile is_whitespace (drop i s)) = skip_ws s i - i"
    by (simp add: byte_len_ascii t skip_ws_def)
qed

lemma skip_ws_le: "i \<le> length s \<Longrightarrow> skip_ws s i \<le> length s" "i \<le> skip_ws s i"
  using length_takeWhile_le [of is_ascii_whitespace "drop i s"] by (simp_all add: skip_ws_def)

lemma ascii_end_eq:
  assumes "is_ascii full" "is_ascii prefix" "11 \<notin> set full" "11 \<notin> set prefix" "i \<le> length full"
  shows "ascii_end full prefix i j i = loose_end (drop i full) (drop j prefix) i"
  using assms(5)
proof (induction "length prefix - j" arbitrary: i j rule: less_induct)
  case less
  show ?case
  proof (cases "j < length prefix")
    case False
    then show ?thesis by (simp add: ascii_end.simps)
  next
    case j: True
    then have d: "drop j prefix = prefix ! j # drop (Suc j) prefix" by (simp add: Cons_nth_drop_Suc)
    have c: "prefix ! j < 128" "prefix ! j \<noteq> 11"
      using assms(2,4) j by (auto simp: is_ascii_def dest: nth_mem)
    show ?thesis
    proof (cases "is_ascii_whitespace (prefix ! j)")
      case True
      then have w: "is_whitespace (prefix ! j)" using ascii_ws_eq [OF c] by simp
      have sk: "dropWhile is_whitespace (drop (Suc j) prefix) = drop (skip_ws prefix j) prefix"
        using run_ascii(2) [OF assms(2,4), of j] w d by simp
      have "j < skip_ws prefix j" using True d by (simp add: skip_ws_def)
      then have "length prefix - skip_ws prefix j < length prefix - j" using j by linarith
      then have IH: "ascii_end full prefix (skip_ws full i) (skip_ws prefix j) (skip_ws full i) =
          loose_end (drop (skip_ws full i) full) (drop (skip_ws prefix j) prefix) (skip_ws full i)"
        using less.prems by (intro less.hyps) (simp_all add: skip_ws_le)
      have emp: "takeWhile is_whitespace (drop i full) = [] \<longleftrightarrow> skip_ws full i = i"
        using run_ascii(1) [OF assms(1,3), of i] by (simp add: skip_ws_def)
      have "i + byte_len (takeWhile is_whitespace (drop i full)) = skip_ws full i"
        using run_ascii(3) [OF assms(1,3), of i] skip_ws_le(2) [of i full] by simp
      then show ?thesis
        using j True w IH emp sk run_ascii(2) [OF assms(1,3), of i]
        by (subst ascii_end.simps) (simp add: d Let_def)
    next
      case False
      then have w: "\<not> is_whitespace (prefix ! j)" using ascii_ws_eq [OF c] by simp
      show ?thesis
      proof (cases "i < length full \<and> full ! i = prefix ! j")
        case True
        then have f: "drop i full = prefix ! j # drop (Suc i) full" using Cons_nth_drop_Suc [of i full] by simp
        have "len_utf8 (prefix ! j) = 1" using c(1) by (simp add: len_utf8_def)
        moreover have "ascii_end full prefix (i + 1) (j + 1) (i + 1) = loose_end (drop (i + 1) full) (drop (j + 1) prefix) (i + 1)"
          using j True by (intro less.hyps) auto
        ultimately show ?thesis using j False w True
          by (subst ascii_end.simps) (simp add: d f)
      next
        case False
        then show ?thesis
          using j \<open>\<not> is_ascii_whitespace (prefix ! j)\<close> w
          by (subst ascii_end.simps) (cases "i < length full"; simp add: d Cons_nth_drop_Suc [symmetric])
      qed
    qed
  qed
qed

lemma ascii_end_le: "ascii_end full prefix i j m = Some n \<Longrightarrow> i \<le> length full \<Longrightarrow> m \<le> length full \<Longrightarrow> n \<le> length full"
proof (induction full prefix i j m rule: ascii_end.induct)
  case (1 full prefix i j m)
  note step = "1.prems"(1) [unfolded ascii_end.simps [of full prefix i j m] Let_def]
  show ?case
  proof (cases "j < length prefix")
    case j: True
    show ?thesis
    proof (cases "is_ascii_whitespace (prefix ! j)")
      case True
      then show ?thesis
        using step j "1.prems"(2) "1.IH"(1) [OF j True refl] skip_ws_le(1) [of i full] by (auto split: if_splits)
    next
      case False
      then show ?thesis
        using step j "1.prems"(2) "1.IH"(2) [OF j False] by (auto split: if_splits)
    qed
  qed (use step "1.prems" in simp)
qed

section \<open>Completion\<close>

lemma ends_ws_Cons: "s \<noteq> [] \<Longrightarrow> ends_ws (c # s) = ends_ws s"
  by (simp add: ends_ws_def)

lemma ends_ws_canon: "ends_ws (canon s) = ends_ws s"
proof (induction "length s" arbitrary: s rule: less_induct)
  case less
  show ?case
  proof (cases s)
    case (Cons c r)
    let ?d = "dropWhile is_whitespace r"
    show ?thesis
    proof (cases "is_whitespace c")
      case True
      have "ends_ws (canon ?d) = ends_ws ?d"
        by (rule less.hyps) (simp add: Cons less_Suc_eq_le length_dropWhile_le)
      moreover have "ends_ws (c # r) = (?d = [] \<or> ends_ws ?d)"
        using True by (intro ends_ws_run [of _ _ "c # takeWhile is_whitespace r"]) (auto dest: set_takeWhileD)
      ultimately show ?thesis
        using True Cons by (cases "?d = []") (auto simp: ends_ws_def)
    next
      case False
      have "ends_ws (canon r) = ends_ws r" by (rule less.hyps) (simp add: Cons)
      then show ?thesis using False Cons by (cases "r = []") (auto simp: ends_ws_def)
    qed
  qed (simp add: ends_ws_def)
qed

lemma canon_append: "\<not> (ends_ws a \<and> starts_ws b) \<Longrightarrow> canon (a @ b) = canon a @ canon b"
proof (induction "length a" arbitrary: a rule: less_induct)
  case less
  show ?case
  proof (cases a)
    case (Cons c r)
    let ?d = "dropWhile is_whitespace r"
    show ?thesis
    proof (cases "is_whitespace c")
      case True
      have ends: "ends_ws (c # r) = (?d = [] \<or> ends_ws ?d)"
        using True by (intro ends_ws_run [of _ _ "c # takeWhile is_whitespace r"]) (auto dest: set_takeWhileD)
      have "dropWhile is_whitespace (r @ b) = ?d @ b"
      proof (cases "?d = []")
        case d: True
        then have "\<not> starts_ws b" using less.prems ends Cons by simp
        then show ?thesis using d by (cases b) (auto simp: starts_ws_def dropWhile_append2 dropWhile_eq_Nil_conv)
      next
        case False
        then obtain x where "x \<in> set r" "\<not> is_whitespace x" by (auto simp: dropWhile_eq_Nil_conv)
        then show ?thesis by (simp add: dropWhile_append1)
      qed
      moreover have "canon (?d @ b) = canon ?d @ canon b"
        by (rule less.hyps) (use less.prems ends in \<open>auto simp: Cons less_Suc_eq_le length_dropWhile_le\<close>)
      ultimately show ?thesis using True Cons by simp
    next
      case False
      have "canon (r @ b) = canon r @ canon b"
        by (rule less.hyps) (use less.prems in \<open>auto simp: Cons ends_ws_def split: if_splits\<close>)
      then show ?thesis using False Cons by simp
    qed
  qed simp
qed

lemma spec_completes:
  assumes "loose_spec full cur n"
  shows "\<exists>a b. full = a @ b \<and> n = byte_len a \<and> canon (cur @ b) = canon full"
proof -
  obtain a b where ab: "full = a @ b" "n = byte_len a" "canon a = canon cur" "ends_ws cur \<longrightarrow> \<not> starts_ws b"
    using assms by (auto simp: loose_spec_def)
  have "ends_ws a = ends_ws cur" using ends_ws_canon [of a] ends_ws_canon [of cur] ab(3) by simp
  then have "canon (a @ b) = canon a @ canon b" "canon (cur @ b) = canon cur @ canon b"
    using ab(4) by (simp_all add: canon_append)
  then show ?thesis using ab by auto
qed

lemma split_at_byte_len: "is_ascii s \<Longrightarrow> n \<le> length s \<Longrightarrow> split_at_byte s n = Some (take n s, drop n s)"
proof -
  assume s: "is_ascii s" "n \<le> length s"
  then have "is_ascii (take n s)" unfolding is_ascii_def by (meson in_set_takeD)
  then have "byte_len (take n s) = n" using s(2) by (simp add: byte_len_ascii)
  then show ?thesis using split_at_byte_take [of s n] by simp
qed

lemma match_end_cut: "loose_prefix_match_end full cur = Some n \<Longrightarrow> \<exists>a b. full = a @ b \<and> split_at_byte full n = Some (a, b)"
proof (cases "is_ascii full \<and> is_ascii cur")
  case True
  assume "loose_prefix_match_end full cur = Some n"
  then have "n \<le> length full" using True ascii_end_le [of full cur 0 0 0 n] by (simp add: loose_prefix_match_end_def)
  then show ?thesis using True split_at_byte_len [of full n] by (intro exI [of _ "take n full"] exI [of _ "drop n full"]) simp
next
  case False
  assume "loose_prefix_match_end full cur = Some n"
  then have "loose_spec full cur n" using False by (simp add: loose_prefix_match_end_def loose_end_iff split: if_splits)
  then show ?thesis by (auto simp: loose_spec_def)
qed

lemma match_end_spec_plain:
  assumes "11 \<notin> set full" "11 \<notin> set cur"
  shows "loose_prefix_match_end full cur = Some n \<longleftrightarrow> loose_spec full cur n"
proof -
  have "loose_prefix_match_end full cur = loose_end full cur 0"
    using ascii_end_eq [of full cur 0 0] assms by (simp add: loose_prefix_match_end_def)
  then show ?thesis by (simp add: loose_end_iff)
qed

lemma insert_suffix_cases:
  "\<exists>r. compute_insert_suffix cur full = Some r \<and> (\<forall>suffix. r = Some suffix \<longrightarrow> suffix \<noteq> [] \<and> trim_start cur \<noteq> [] \<and>
     (\<exists>a n. full = a @ suffix \<and> loose_prefix_match_end full (trim_start cur) = Some n \<and> split_at_byte full n = Some (a, suffix)))"
proof (cases "trim_start cur = [] \<or> loose_prefix_match_end full (trim_start cur) = None")
  case True
  then show ?thesis by (auto simp: compute_insert_suffix_def Let_def)
next
  case False
  then obtain n where n: "loose_prefix_match_end full (trim_start cur) = Some n" by auto
  obtain a b where ab: "full = a @ b" "split_at_byte full n = Some (a, b)" using match_end_cut [OF n] by blast
  show ?thesis
    using False n ab by (cases "n \<ge> byte_len full \<or> b = []") (auto simp: compute_insert_suffix_def Let_def)
qed

lemma insert_suffix_completes:
  assumes "compute_insert_suffix cur full = Some (Some suffix)" "11 \<notin> set full" "11 \<notin> set cur"
  shows "canon (trim_start cur @ suffix) = canon full \<and> suffix \<noteq> [] \<and> trim_start cur \<noteq> []"
proof -
  obtain a n where a: "suffix \<noteq> []" "trim_start cur \<noteq> []" "full = a @ suffix"
    "loose_prefix_match_end full (trim_start cur) = Some n" "split_at_byte full n = Some (a, suffix)"
    using insert_suffix_cases [of cur full] assms(1) by auto
  have "11 \<notin> set (trim_start cur)" using assms(3) by (auto simp: trim_start_def dest: set_dropWhileD)
  then obtain a' b where "full = a' @ b" "n = byte_len a'" "canon (trim_start cur @ b) = canon full"
    using spec_completes a(4) match_end_spec_plain [OF assms(2)] by blast
  then show ?thesis using a by auto
qed

lemma first_suffix_cases:
  "\<exists>r. first_suffix full cs = Some r \<and> (\<forall>input suffix. r = Some (input, suffix) \<longrightarrow>
     (\<exists>c \<in> set cs. input = trim_start c \<and> compute_insert_suffix c full = Some (Some suffix)))"
proof (induction cs)
  case (Cons c cs)
  obtain s where "compute_insert_suffix c full = Some s" using insert_suffix_cases by blast
  then show ?case using Cons by (cases s) auto
qed simp

text \<open>
  Completing never panics, and what is on the line ends, with the inserted text, in the suggestion, up to the
  amount of whitespace between words.
\<close>

lemma suffix_for_line_completes:
  assumes "11 \<notin> set line" "11 \<notin> set full"
  shows "\<exists>r. compute_insert_suffix_for_line line prompt full = Some r \<and>
    (\<forall>input suffix. r = Some (input, suffix) \<longrightarrow>
       suffix \<noteq> [] \<and> (\<exists>before. line = before @ input) \<and> canon (trim_start input @ suffix) = canon full)"
proof -
  have tail: "\<exists>before. line = before @ trim_start (drop k line)" for k
    unfolding trim_start_def by (metis append.assoc append_take_drop_id takeWhile_dropWhile_id)
  have free: "11 \<notin> set (drop k line)" for k using assms(1) in_set_dropD by metis
  obtain r where r: "first_suffix full (map (\<lambda>k. drop k line) [0..<length line + 1]) = Some r"
    "\<And>input suffix. r = Some (input, suffix) \<Longrightarrow> suffix \<noteq> [] \<and> (\<exists>before. line = before @ input) \<and>
       canon (trim_start input @ suffix) = canon full"
  proof -
    obtain r where r: "first_suffix full (map (\<lambda>k. drop k line) [0..<length line + 1]) = Some r"
      "\<forall>input suffix. r = Some (input, suffix) \<longrightarrow> (\<exists>c \<in> set (map (\<lambda>k. drop k line) [0..<length line + 1]).
         input = trim_start c \<and> compute_insert_suffix c full = Some (Some suffix))"
      using first_suffix_cases [of full "map (\<lambda>k. drop k line) [0..<length line + 1]"] by blast
    have "suffix \<noteq> [] \<and> (\<exists>before. line = before @ input) \<and> canon (trim_start input @ suffix) = canon full"
      if rr: "r = Some (input, suffix)" for input suffix
    proof -
      obtain k where k: "input = trim_start (drop k line)" "compute_insert_suffix (drop k line) full = Some (Some suffix)"
        using r(2) rr by (auto simp del: upt_Suc)
      from insert_suffix_completes [OF k(2) assms(2) free] show ?thesis
        using tail [of k] k(1) by (simp add: trim_trim_start)
    qed
    with r(1) that show ?thesis by blast
  qed
  show ?thesis
  proof (cases prompt)
    case None
    then show ?thesis using r by (simp add: compute_insert_suffix_for_line_def)
  next
    case (Some p)
    define input where "input = (case strip_prefix p line of None \<Rightarrow> [] | Some i \<Rightarrow> i)"
    have before: "\<exists>before. line = before @ input"
    proof (cases "strip_prefix p line")
      case None
      then have "input = []" by (simp only: input_def option.case)
      then show ?thesis by simp
    next
      case (Some i)
      then have "input = i" by (simp only: input_def option.case)
      moreover from Some have "line = p @ i" by simp
      ultimately show ?thesis by simp
    qed
    then have free': "11 \<notin> set input" using assms(1) by auto
    obtain s where s: "compute_insert_suffix input full = Some s" using insert_suffix_cases by blast
    show ?thesis
    proof (cases s)
      case None
      then show ?thesis using r s Some
        by (simp add: compute_insert_suffix_for_line_def Let_def input_def [symmetric])
    next
      case suffix: (Some suffix)
      from insert_suffix_completes [OF s [unfolded suffix] assms(2) free']
      show ?thesis using s suffix Some before
        by (simp add: compute_insert_suffix_for_line_def Let_def input_def [symmetric])
    qed
  qed
qed

section \<open>The fast path and the general one\<close>



section \<open>The ranked list\<close>

lemma score_order: "total_cmp item_cmp"
proof -
  have "(\<lambda>(a :: suggestion_item) (b :: suggestion_item). lin_cmp (score b) (score a)) = (\<lambda>a b. ord_reverse (lin_cmp (score a) (score b)))"
    by (intro ext) (rule lin_cmp.cmp_swap)
  then have "total_cmp (\<lambda>(a :: suggestion_item) (b :: suggestion_item). lin_cmp (score b) (score a))"
    using total_cmp_rev [OF lin_cmp_key [of "score :: suggestion_item \<Rightarrow> int"]] by simp
  then show ?thesis unfolding item_cmp_def by (rule total_cmp_then [OF _ str_cmp_key])
qed

interpretation ranking: total_cmp item_cmp
  by (rule score_order)

definition offered :: "rstring \<Rightarrow> rstring \<Rightarrow> bool" where
  "offered input candidate \<longleftrightarrow>
     (case loose_prefix_match_end candidate input of None \<Rightarrow> False | Some n \<Rightarrow> n < byte_len candidate)"

lemma push_candidate_keys:
  "distinct (map fst al) \<Longrightarrow> distinct (map fst (push_candidate input sc cd al)) \<and>
    fst ` set (push_candidate input sc cd al) = fst ` set al \<union> (if offered input (fst cd) then {fst cd} else {})"
proof -
  assume d: "distinct (map fst al)"
  have upd: "fst ` set (AList.update k v al) = insert k (fst ` set al)" "distinct (map fst (AList.update k v al))" for k v
    using d by (simp_all add: dom_update distinct_update)
  have mem: "map_of al k = Some v \<Longrightarrow> insert k (fst ` set al) = fst ` set al" for k v
    using map_of_Some_key by (metis insert_absorb)
  show ?thesis
    using d upd mem
    by (cases "loose_prefix_match_end (fst cd) input"; cases "map_of al (fst cd)")
      (auto simp: push_candidate_def offered_def split_def Let_def split: option.splits)
qed

lemma fold_candidates_keys:
  "distinct (map fst al) \<Longrightarrow> distinct (map fst (fold (push_candidate input sc) cds al)) \<and>
    fst ` set (fold (push_candidate input sc) cds al) = fst ` set al \<union> {c \<in> fst ` set cds. offered input c}"
proof (induction cds arbitrary: al)
  case (Cons cd cds)
  then show ?case using push_candidate_keys [OF Cons.prems, of input sc cd] by auto
qed simp

lemma split_at_byte_Some: "split_at_byte s n = Some (a, b) \<Longrightarrow> s = a @ b \<and> n = byte_len a"
  by (induction s n arbitrary: a rule: split_at_byte.induct) (auto split: if_splits)

lemma offered_iff:
  assumes "trim_start s = s" "s \<noteq> []"
  shows "offered s c \<longleftrightarrow> (\<exists>suffix. compute_insert_suffix s c = Some (Some suffix))"
proof (cases "loose_prefix_match_end c s")
  case None
  then show ?thesis using assms by (simp add: offered_def compute_insert_suffix_def)
next
  case (Some n)
  obtain a b where ab: "c = a @ b" "split_at_byte c n = Some (a, b)" using match_end_cut [OF Some] by blast
  then have "n < byte_len c \<longleftrightarrow> b \<noteq> []"
    using split_at_byte_Some [of c n a b] byte_len_eq_0 [of b] by (simp del: byte_len_eq_0) linarith
  then show ?thesis using assms Some ab by (auto simp: offered_def compute_insert_suffix_def)
qed

lemma sorted_distinct: "sorted_wrt R xs \<Longrightarrow> distinct (map f xs) \<Longrightarrow> sorted_wrt (\<lambda>a b. R a b \<and> f a \<noteq> f b) xs"
  by (induction xs) (auto simp: image_iff)

lemma rank_strict: "ranking.le a b \<Longrightarrow> full_text a \<noteq> full_text b \<Longrightarrow>
    score b < score a \<or> score a = score b \<and> str_cmp (full_text a) (full_text b) = Less"
  by (cases "str_cmp (full_text a) (full_text b)")
    (auto simp: ranking.le_def item_cmp_def then_with_eqs lin_cmp_def split: if_splits)

lemma alist_update_mem: "x \<in> set (AList.update k v al) \<Longrightarrow> x = (k, v) \<or> x \<in> set al"
  by (induction al) (auto split: if_splits)

lemma push_candidate_update:
  assumes "\<forall>e \<in> snd ` set al. m_score e = sc"
  shows "push_candidate input sc cd al = al \<or>
    (\<exists>e. m_score e = sc \<and> push_candidate input sc cd al = AList.update (fst cd) e al)"
proof (cases "loose_prefix_match_end (fst cd) input")
  case (Some n)
  show ?thesis
  proof (cases "map_of al (fst cd)")
    case None
    define d where "d = (case snd cd of None \<Rightarrow> None | Some d \<Rightarrow> if trim d = [] then None else Some (trim d))"
    have "push_candidate input sc cd al =
        (if byte_len (fst cd) \<le> n then al else AList.update (fst cd) \<lparr>m_score = sc, m_desc = d\<rparr> al)"
      using Some None by (cases cd) (simp add: push_candidate_def d_def)
    moreover have "m_score \<lparr>m_score = sc, m_desc = d\<rparr> = sc" by simp
    ultimately show ?thesis by metis
  next
    case e: (Some e)
    then have "m_score e = sc" using assms map_of_SomeD [OF e] by force
    define d where "d = (case snd cd of None \<Rightarrow> None | Some d \<Rightarrow> if trim d = [] then None else Some (trim d))"
    have "push_candidate input sc cd al =
        (if byte_len (fst cd) \<le> n then al
         else case (m_desc e, d) of (None, Some d) \<Rightarrow> AList.update (fst cd) (e\<lparr>m_desc := Some d\<rparr>) al | _ \<Rightarrow> al)"
      using Some e \<open>m_score e = sc\<close> by (cases cd) (simp add: push_candidate_def d_def split: option.split)
    then consider "push_candidate input sc cd al = al"
      | x where "push_candidate input sc cd al = AList.update (fst cd) (e\<lparr>m_desc := Some x\<rparr>) al"
      by (auto split: if_splits option.splits)
    then show ?thesis
    proof cases
      case (2 x)
      moreover have "m_score (e\<lparr>m_desc := Some x\<rparr>) = sc" using \<open>m_score e = sc\<close> by simp
      ultimately show ?thesis by blast
    qed simp
  qed
next
  case None
  then show ?thesis by (cases cd) (simp add: push_candidate_def)
qed

lemma push_candidate_score:
  assumes "\<forall>e \<in> snd ` set al. m_score e = sc"
  shows "\<forall>e \<in> snd ` set (push_candidate input sc cd al). m_score e = sc"
  using push_candidate_update [OF assms, of input cd]
proof
  assume "\<exists>e. m_score e = sc \<and> push_candidate input sc cd al = AList.update (fst cd) e al"
  then show ?thesis using assms by (auto dest!: alist_update_mem)
qed (use assms in simp)

lemma fold_candidates_score:
  "\<forall>e \<in> snd ` set al. m_score e = sc \<Longrightarrow>
    \<forall>e \<in> snd ` set (fold (push_candidate input sc) cds al). m_score e = sc"
proof (induction cds arbitrary: al)
  case (Cons cd cds)
  show ?case using Cons.IH [OF push_candidate_score [OF Cons.prems]] by simp
qed simp

lemma sorted_names:
  assumes "sorted_wrt (\<lambda>a b. score b < score a \<or> score a = score b \<and> str_cmp (full_text a) (full_text b) = Less) xs"
    and "\<forall>x \<in> set xs. score x = sc"
  shows "sorted_wrt (\<lambda>a b. str_cmp a b = Less) (map full_text xs)"
  using assms by (induction xs) auto

text \<open>C27: The suggestions are the best-ranked candidates that complete the input. There is one list of all of
  them, each once, in alphabetical order, and whatever number of suggestions is asked for, the list shown is that
  many from its front (at least one). All candidates have the same score.\<close>

theorem suggest_ranked:
  fixes f :: "rstring \<Rightarrow> (rstring \<times> rstring option) list" and input :: rstring
  defines "typed \<equiv> trim_start input"
  defines "fitting \<equiv> {c \<in> fst ` set (f (first_word typed)). \<exists>suffix. compute_insert_suffix typed c = Some (Some suffix)}"
  assumes "typed \<noteq> []"
  shows "\<exists>names. set names = fitting \<and> sorted_wrt (\<lambda>a b. str_cmp a b = Less) names \<and>
    (\<forall>max_items. map full_text (suggest max_items (Some f) input) = take (max max_items 1) names \<and>
      map score (suggest max_items (Some f) input) = replicate (min (card fitting) (max max_items 1)) 110)"
proof -
  define al where "al = fold (push_candidate typed 110) (f (first_word typed)) []"
  have trim: "trim_start typed = typed" by (simp add: typed_def trim_trim_start)
  then obtain c r where typed: "typed = c # r" "\<not> is_whitespace c" using assms(3) trim_start_hd by (cases typed) auto
  then have "first_word typed \<noteq> []" by (simp add: first_word_def trim_start_def)
  then have out: "suggest max_items (Some f) input = take (max max_items 1) (sort_by item_cmp (map to_item al))" for max_items
    using assms(3) by (simp add: suggest_def Let_def typed_def [symmetric] al_def)
  have al: "distinct (map fst al)" "fst ` set al = fitting"
    using fold_candidates_keys [of "[]" typed 110 "f (first_word typed)"] offered_iff [OF trim assms(3)]
    by (simp_all add: al_def fitting_def)
  have "\<forall>e \<in> snd ` set al. m_score e = 110" unfolding al_def by (rule fold_candidates_score) simp
  then have score: "\<forall>x \<in> set (map to_item al). score x = 110" by (auto simp: to_item_def)
  let ?s = "sort_by item_cmp (map to_item al)"
  have keys: "map full_text (map to_item al) = map fst al" by (simp add: to_item_def)
  have "mset (map full_text ?s) = mset (map full_text (map to_item al))" by (simp only: mset_map sort_by_mset)
  then have perm: "mset (map full_text ?s) = mset (map fst al)" by (simp only: keys)
  then have dist: "distinct (map full_text ?s)" using al(1) mset_eq_imp_distinct_iff by metis
  have "card fitting = length al" unfolding al(2) [symmetric] by (metis al(1) distinct_card length_map set_map)
  then have len: "length ?s = card fitting" by simp
  have "full_text ` set ?s = set (map full_text (map to_item al))" by (simp only: set_map sort_by_set)
  then have sub: "full_text ` set ?s = fitting" unfolding keys using al(2) by simp
  have "sorted_wrt ranking.le ?s" by (rule ranking.sort_by_sorted)
  then have "sorted_wrt (\<lambda>a b. ranking.le a b \<and> full_text a \<noteq> full_text b) ?s"
    using dist by (rule sorted_distinct)
  then have "sorted_wrt (\<lambda>a b. score b < score a \<or> score a = score b \<and> str_cmp (full_text a) (full_text b) = Less) ?s"
    by (rule sorted_wrt_mono_rel [rotated]) (use rank_strict in blast)
  moreover have "\<forall>x \<in> set ?s. score x = 110" using score by (simp only: sort_by_set)
  ultimately have names: "sorted_wrt (\<lambda>a b. str_cmp a b = Less) (map full_text ?s)" "\<forall>x \<in> set ?s. score x = 110"
    using sorted_names by blast+
  have scores: "map score ?s = replicate (card fitting) 110"
    by (rule replicate_eqI) (use len names(2) in auto)
  have "map score (take n ?s) = replicate (min (card fitting) n) 110" for n
    using arg_cong [OF scores, of "take n"] by (simp add: take_map min.commute)
  moreover have "set (map full_text ?s) = fitting" by (simp only: set_map sub)
  ultimately show ?thesis
    unfolding out using names(1) by (intro exI [of _ "map full_text ?s"] conjI allI) (simp_all only: take_map)
qed

lemma suggest_ranked_witness:
  "\<exists>names. set names \<subseteq> {rs ''git t'', rs ''git s'', rs ''ls''} \<and> sorted_wrt (\<lambda>a b. str_cmp a b = Less) names \<and>
     map full_text (suggest 1 (Some (\<lambda>w. [(rs ''git t'', None), (rs ''git s'', None), (rs ''ls'', None)])) (rs '' git'')) =
       take 1 names"
proof -
  have "trim_start (rs '' git'') \<noteq> []" by (simp add: rs_def trim_start_def is_whitespace_def)
  from suggest_ranked [OF this, of "\<lambda>w. [(rs ''git t'', None), (rs ''git s'', None), (rs ''ls'', None)]"]
  obtain names where names: "sorted_wrt (\<lambda>a b. str_cmp a b = Less) names"
    "set names \<subseteq> {rs ''git t'', rs ''git s'', rs ''ls''}"
    "\<And>n. map full_text (suggest n (Some (\<lambda>w. [(rs ''git t'', None), (rs ''git s'', None), (rs ''ls'', None)])) (rs '' git'')) =
       take (max n 1) names"
    by auto
  show ?thesis by (intro exI [of _ names]) (simp only: names max.idem simp_thms)
qed

section \<open>The database of suggestions\<close>

definition db_ok :: "(rstring \<times> (rstring \<times> rstring) list) list \<Rightarrow> bool" where
  "db_ok db \<longleftrightarrow> (\<forall>entry \<in> set db. \<forall>hint \<in> set (snd entry). starts_with (fst entry) (fst hint))"

lemma merge_hint_ok:
  "\<forall>h \<in> set slot. starts_with command (fst h) \<Longrightarrow>
    \<forall>h \<in> set (merge_hint command hint slot). starts_with command (fst h)"
  by (auto simp: merge_hint_def Let_def dest!: alist_update_mem split: option.splits if_splits)

lemma merge_hints_ok:
  "\<forall>h \<in> set slot. starts_with command (fst h) \<Longrightarrow>
    \<forall>h \<in> set (fold (merge_hint command) hints slot). starts_with command (fst h)"
proof (induction hints arbitrary: slot)
  case (Cons h hints)
  show ?case using Cons.IH [OF merge_hint_ok [OF Cons.prems]] by simp
qed simp

lemma merge_command_ok:
  assumes "db_ok dst"
  shows "db_ok (merge_command entry dst)"
proof -
  let ?c = "trim (fst entry)"
  let ?slot = "case map_of dst ?c of None \<Rightarrow> [] | Some slot \<Rightarrow> slot"
  have "\<forall>h \<in> set ?slot. starts_with ?c (fst h)"
  proof (cases "map_of dst ?c")
    case (Some slot)
    then have "(?c, slot) \<in> set dst" by (rule map_of_SomeD)
    then have "\<forall>h \<in> set slot. starts_with ?c (fst h)" using assms unfolding db_ok_def by fastforce
    then show ?thesis by (simp only: Some option.case)
  qed simp
  note slot = merge_hints_ok [OF this, of "snd entry"]
  have "\<forall>h \<in> set (snd x). starts_with (fst x) (fst h)"
    if "x \<in> set (AList.update ?c (fold (merge_hint ?c) (snd entry) ?slot) dst)" for x
    using alist_update_mem [OF that]
  proof
    assume "x = (?c, fold (merge_hint ?c) (snd entry) ?slot)"
    then show ?thesis using slot by (simp only: fst_conv snd_conv)
  next
    assume "x \<in> set dst"
    then show ?thesis using assms unfolding db_ok_def by blast
  qed
  then show ?thesis using assms unfolding merge_command_def Let_def db_ok_def by simp
qed

lemma fold_keeps: "(\<And>x s. P s \<Longrightarrow> P (f x s)) \<Longrightarrow> P s \<Longrightarrow> P (fold f xs s)"
  by (induction xs arbitrary: s) auto

lemma load_ok: "db_ok (load_suggestions files)"
proof -
  have "db_ok (merge_suggestions src dst)" if "db_ok dst" for src dst
    unfolding merge_suggestions_def
    by (rule fold_keeps [where P = db_ok]) (rule merge_command_ok, assumption, rule that)
  then have "db_ok (fold merge_suggestions files [])"
    by (rule fold_keeps [where P = db_ok]) (simp_all add: db_ok_def)
  then show ?thesis unfolding load_suggestions_def by_key_def by (auto simp: db_ok_def)
qed

lemma between_prefix:
  "str_cmp w k \<noteq> Greater \<Longrightarrow> str_cmp k (w @ [m]) \<noteq> Greater \<Longrightarrow> starts_with w k"
proof (induction w k rule: str_cmp.induct)
  case (4 a s b t)
  have "a = b"
    using "4.prems" by (auto simp: then_with_eqs lin_cmp_def split: if_splits)
  then show ?case using 4 by (simp add: lin_cmp_def starts_with_def)
qed (simp_all add: starts_with_def)

lemma starts_with_trans: "starts_with a b \<Longrightarrow> starts_with b c \<Longrightarrow> starts_with a c"
  by (auto simp: starts_with_iff)

text \<open>Whatever the files hold, every candidate offered for a word starts with that word, and at most 500
  are offered for words of two characters or more.\<close>

theorem static_candidates_fit:
  assumes "cd \<in> set (for_each_candidate (load_suggestions files) w)"
  shows "starts_with (trim w) (fst cd) \<and> trim w \<noteq> [] \<and>
    (1 < length (trim w) \<longrightarrow> length (for_each_candidate (load_suggestions files) w) \<le> 500)"
proof -
  let ?db = "load_suggestions files" and ?w = "trim w"
  have ne: "?w \<noteq> []" using assms by (auto simp: for_each_candidate_def Let_def)
  have ok: "starts_with k cmd" if "(k, hints) \<in> set ?db" "(cmd, desc) \<in> set hints" for k hints cmd desc
    using load_ok [of files] that unfolding db_ok_def by fastforce
  show ?thesis
  proof (cases "length ?w \<le> 1")
    case True
    obtain hints where h: "map_of ?db ?w = Some hints" "cd \<in> offer ` set hints"
      using assms True ne by (cases "map_of ?db ?w") (auto simp: for_each_candidate_def Let_def)
    then obtain cmd desc where "(cmd, desc) \<in> set hints" "cd = offer (cmd, desc)" by auto
    then show ?thesis using ok [OF map_of_SomeD [OF h(1)]] ne True by (auto simp: offer_def)
  next
    case False
    define ks where "ks = filter (\<lambda>kv. str_cmp ?w (fst kv) \<noteq> Greater \<and> str_cmp (fst kv) (?w @ [0x10FFFF]) \<noteq> Greater) ?db"
    have out: "for_each_candidate ?db w = take 500 (concat (map (\<lambda>kv. map offer (snd kv)) ks))"
      using False ne by (simp add: for_each_candidate_def Let_def ks_def)
    then obtain k hints cmd desc where k: "(k, hints) \<in> set ks" "(cmd, desc) \<in> set hints" "cd = offer (cmd, desc)"
      using assms by (auto dest!: in_set_takeD)
    then have "starts_with ?w k" using between_prefix by (auto simp: ks_def)
    moreover have "starts_with k cmd" using k ok by (auto simp: ks_def)
    ultimately show ?thesis using starts_with_trans k(3) ne out by (auto simp: offer_def)
  qed
qed

lemma static_candidates_fit_witness:
  "starts_with (rs ''gi'') (rs ''git s'') \<and>
   length (for_each_candidate (load_suggestions [[(rs ''git'', [(rs ''git s'', rs ''show'')])]]) (rs ''gi'')) \<le> 500"
proof -
  have "load_suggestions [[(rs ''git'', [(rs ''git s'', rs ''show'')])]] = [(rs ''git'', [(rs ''git s'', rs ''show'')])]"
    by (simp add: load_suggestions_def merge_suggestions_def merge_command_def merge_hint_def
      by_key_def starts_with_iff Let_def rs_def trim_def trim_start_def trim_end_def is_whitespace_def)
  then have "(rs ''git s'', Some (rs ''show'')) \<in> set (for_each_candidate (load_suggestions [[(rs ''git'', [(rs ''git s'', rs ''show'')])]]) (rs ''gi''))"
    by (simp add: for_each_candidate_def rs_def lin_cmp_def trim_def trim_start_def trim_end_def is_whitespace_def offer_def)
  from static_candidates_fit [OF this] show ?thesis
    by (simp add: rs_def trim_def trim_start_def trim_end_def is_whitespace_def)
qed

end
