(* ===== verification/SuggestLine.thy ===== *)
theory SuggestLine
  imports Suggest
begin

text \<open>
  Reading the typed text off the screen (\<open>gpui_term/src/suggestions.rs\<close>): one scan over the cells of
  the cursor's line, and the slower way through a table of columns that the code falls back to.
\<close>

section \<open>Reading the cursor's line\<close>

record indexed_cell =
  ic_line :: int
  ic_col :: nat
  ic_char :: rchar
  ic_zerowidth :: "rchar list"

text \<open>The content of the screen: its cells and the cursor's line and column.\<close>

record content =
  ct_cells :: "indexed_cell list"
  ct_line :: int
  ct_col :: nat

definition cell_text :: "indexed_cell \<Rightarrow> rstring" where
  "cell_text ic = ic_char ic # ic_zerowidth ic"

definition cells_for_line :: "indexed_cell list \<Rightarrow> int \<Rightarrow> indexed_cell list option" where
  "cells_for_line cs line =
     (let a = partition_point (\<lambda>c. ic_line c < line) cs
      in if cs = [] \<or> a \<ge> length cs \<or> ic_line (cs ! a) \<noteq> line then None
         else Some (drop a (take (partition_point (\<lambda>c. ic_line c \<le> line) cs) cs)))"

text \<open>The cells by column, later ones first to win, blanks where there is none.\<close>

definition by_col :: "indexed_cell list \<Rightarrow> nat \<Rightarrow> nat \<Rightarrow> rstring" where
  "by_col cs a b =
     concat (map (\<lambda>k. case find (\<lambda>c. ic_col c = k) (rev cs) of None \<Rightarrow> [32] | Some c \<Rightarrow> cell_text c) [a..<b])"

definition prefix_slow :: "content \<Rightarrow> rstring" where
  "prefix_slow ct = by_col (filter (\<lambda>c. ic_line c = ct_line ct) (ct_cells ct)) 0 (ct_col ct)"

fun prefix_loop :: "nat \<Rightarrow> nat \<Rightarrow> indexed_cell list \<Rightarrow> rstring" where
  "prefix_loop cursor expected [] = replicate (cursor - expected) 32"
| "prefix_loop cursor expected (c # cs) =
     (if ic_col c \<ge> cursor then replicate (cursor - expected) 32
      else let pad = ic_col c - expected; expected = expected + pad
           in replicate pad 32 @
              (if expected \<ge> cursor then replicate (cursor - expected) 32
               else cell_text c @ prefix_loop cursor (expected + 1) cs))"

definition extract_cursor_line_prefix :: "content \<Rightarrow> rstring" where
  "extract_cursor_line_prefix ct =
     (if ct_col ct = 0 then []
      else case cells_for_line (ct_cells ct) (ct_line ct) of
             None \<Rightarrow> prefix_slow ct
           | Some cs \<Rightarrow> prefix_loop (ct_col ct) 0 cs)"

fun suffix_loop :: "nat \<Rightarrow> nat \<Rightarrow> indexed_cell list \<Rightarrow> rstring" where
  "suffix_loop cursor expected [] = []"
| "suffix_loop cursor expected (c # cs) =
     (if ic_col c < cursor then suffix_loop cursor expected cs
      else replicate (ic_col c - expected) 32 @ cell_text c @ suffix_loop cursor (ic_col c + 1) cs)"

definition suffix_slow :: "content \<Rightarrow> rstring" where
  "suffix_slow ct =
     (let cs = filter (\<lambda>c. ic_line c = ct_line ct) (ct_cells ct);
          stop = (if cs = [] then ct_col ct else Max (set (map ic_col cs)) + 1)
      in by_col cs (ct_col ct) stop)"

definition extract_cursor_line_suffix :: "content \<Rightarrow> rstring" where
  "extract_cursor_line_suffix ct =
     (case cells_for_line (ct_cells ct) (ct_line ct) of
        None \<Rightarrow> suffix_slow ct
      | Some cs \<Rightarrow> suffix_loop (ct_col ct) (ct_col ct) cs)"

section \<open>Reading the line\<close>

definition display_order :: "indexed_cell list \<Rightarrow> bool" where
  "display_order cs \<longleftrightarrow>
     sorted_wrt (\<lambda>a b. ic_line a < ic_line b \<or> ic_line a = ic_line b \<and> ic_col a < ic_col b) cs"

lemma partition_point_filter:
  assumes "sorted_wrt (\<lambda>a b. P b \<longrightarrow> P a) xs"
  shows "partition_point P xs = length (filter P xs)"
  using arg_cong [OF take_partition_point(1) [OF assms], of length] by simp

lemma lines_between:
  assumes "sorted_wrt (\<lambda>a b. ic_line a \<le> ic_line b) cs"
  shows "drop (partition_point (\<lambda>c. ic_line c < l) cs) (take (partition_point (\<lambda>c. ic_line c \<le> l) cs) cs) =
    filter (\<lambda>c. ic_line c = l) cs"
    and "drop (partition_point (\<lambda>c. ic_line c < l) cs) cs = filter (\<lambda>c. l \<le> ic_line c) cs"
proof -
  let ?ys = "filter (\<lambda>c. ic_line c \<le> l) cs"
  have lt: "sorted_wrt (\<lambda>a b. ic_line b < l \<longrightarrow> ic_line a < l) ys" if "sorted_wrt (\<lambda>a b. ic_line a \<le> ic_line b) ys" for ys
    using that by (rule sorted_wrt_mono_rel [rotated]) auto
  have le: "sorted_wrt (\<lambda>a b. ic_line b \<le> l \<longrightarrow> ic_line a \<le> l) cs"
    using assms by (rule sorted_wrt_mono_rel [rotated]) auto
  have ys: "sorted_wrt (\<lambda>a b. ic_line a \<le> ic_line b) ?ys" by (rule sorted_wrt_filter [OF assms])
  have "filter (\<lambda>c. ic_line c < l) ?ys = filter (\<lambda>c. ic_line c < l) cs"
    unfolding filter_filter by (rule filter_cong) auto
  then have "partition_point (\<lambda>c. ic_line c < l) cs = partition_point (\<lambda>c. ic_line c < l) ?ys"
    using partition_point_filter [OF lt [OF assms]] partition_point_filter [OF lt [OF ys]] by simp
  then have "drop (partition_point (\<lambda>c. ic_line c < l) cs) ?ys = filter (\<lambda>c. \<not> ic_line c < l) ?ys"
    using take_partition_point(2) [OF lt [OF ys]] by simp
  also have "\<dots> = filter (\<lambda>c. ic_line c = l) cs" unfolding filter_filter by (rule filter_cong) auto
  finally show "drop (partition_point (\<lambda>c. ic_line c < l) cs) (take (partition_point (\<lambda>c. ic_line c \<le> l) cs) cs) =
    filter (\<lambda>c. ic_line c = l) cs"
    using take_partition_point(1) [OF le] by simp
  show "drop (partition_point (\<lambda>c. ic_line c < l) cs) cs = filter (\<lambda>c. l \<le> ic_line c) cs"
    using take_partition_point(2) [OF lt [OF assms]] by (simp add: not_less)
qed

lemma cells_for_line_eq:
  assumes "display_order cs"
  shows "cells_for_line cs l = (let r = filter (\<lambda>c. ic_line c = l) cs in if r = [] then None else Some r)"
proof -
  let ?a = "partition_point (\<lambda>c. ic_line c < l) cs"
  have lines: "sorted_wrt (\<lambda>a b. ic_line a \<le> ic_line b) cs"
    using assms unfolding display_order_def by (rule sorted_wrt_mono_rel [rotated]) auto
  note mid = lines_between [OF lines, of l]
  have "(cs = [] \<or> ?a \<ge> length cs \<or> ic_line (cs ! ?a) \<noteq> l) = (filter (\<lambda>c. ic_line c = l) cs = [])"
  proof (cases "?a < length cs")
    case True
    then have split: "cs ! ?a # drop (Suc ?a) cs = filter (\<lambda>c. l \<le> ic_line c) cs"
      using mid(2) Cons_nth_drop_Suc by metis
    have sorted: "sorted_wrt (\<lambda>a b. ic_line a \<le> ic_line b) (cs ! ?a # drop (Suc ?a) cs)"
      unfolding split by (rule sorted_wrt_filter [OF lines])
    have "ic_line (cs ! ?a) = l" if "c \<in> set cs" "ic_line c = l" for c
    proof -
      have "c \<in> set (cs ! ?a # drop (Suc ?a) cs)" unfolding split using that by simp
      then have "ic_line (cs ! ?a) \<le> l" using sorted that(2) by auto
      moreover have "cs ! ?a \<in> set (filter (\<lambda>c. l \<le> ic_line c) cs)" unfolding split [symmetric] by simp
      ultimately show ?thesis by simp
    qed
    then show ?thesis using True nth_mem [OF True] by (auto simp: filter_empty_conv)
  next
    case False
    then have "filter (\<lambda>c. l \<le> ic_line c) cs = []" using mid(2) by simp
    then show ?thesis using False by (auto simp: filter_empty_conv)
  qed
  then show ?thesis using mid(1) by (simp only: cells_for_line_def Let_def)
qed

lemma find_append: "find P (xs @ ys) = (case find P xs of None \<Rightarrow> find P ys | Some x \<Rightarrow> Some x)"
  by (induction xs) auto

lemma by_col_Nil: "by_col [] a b = replicate (b - a) 32"
proof -
  have "concat (map (\<lambda>k. [32]) [a..<b]) = replicate (b - a) (32::rchar)"
    by (induction b) (auto simp: Suc_diff_le replicate_append_same)
  then show ?thesis by (simp add: by_col_def)
qed

lemma by_col_above:
  assumes "\<forall>c \<in> set cs. b \<le> ic_col c"
  shows "by_col cs a b = replicate (b - a) 32"
proof -
  have "find (\<lambda>c. ic_col c = k) (rev cs) = None" if "k \<in> set [a..<b]" for k
    using that assms by (auto simp: find_None_iff)
  then have "by_col cs a b = by_col [] a b" unfolding by_col_def by (intro arg_cong [of _ _ concat] map_cong) auto
  then show ?thesis by (simp add: by_col_Nil)
qed

lemma by_col_Cons:
  assumes "\<forall>d \<in> set cs. ic_col c < ic_col d" "a \<le> ic_col c" "ic_col c < b"
  shows "by_col (c # cs) a b = replicate (ic_col c - a) 32 @ cell_text c @ by_col cs (ic_col c + 1) b"
proof -
  have split: "[a..<b] = [a..<ic_col c] @ ic_col c # [ic_col c + 1..<b]"
    using assms(2,3) upt_add_eq_append [of a "ic_col c" "b - ic_col c"] by (simp add: upt_conv_Cons)
  have none: "find (\<lambda>x. ic_col x = ic_col c) (rev cs) = None" using assms(1) by (auto simp: find_None_iff)
  have find: "find (\<lambda>x. ic_col x = k) (rev (c # cs)) =
      (if k = ic_col c then Some c else find (\<lambda>x. ic_col x = k) (rev cs))" for k
    using none by (cases "k = ic_col c") (auto simp: find_append split: option.splits)
  have 1: "by_col (c # cs) a (ic_col c) = replicate (ic_col c - a) 32"
    by (rule by_col_above) (use assms(1) in \<open>auto intro: less_imp_le\<close>)
  have 2: "by_col (c # cs) (ic_col c + 1) b = by_col cs (ic_col c + 1) b"
    unfolding by_col_def by (intro arg_cong [of _ _ concat] map_cong refl) (simp add: find del: rev.simps)
  have "by_col (c # cs) a b = by_col (c # cs) a (ic_col c) @ cell_text c @ by_col (c # cs) (ic_col c + 1) b"
    unfolding by_col_def split by (simp add: find del: rev.simps)
  then show ?thesis by (simp only: 1 2)
qed

lemma prefix_loop_eq:
  assumes "sorted_wrt (\<lambda>a b. ic_col a < ic_col b) cs" "\<forall>c \<in> set cs. e \<le> ic_col c"
  shows "prefix_loop cursor e cs = by_col cs e cursor"
  using assms
proof (induction cs arbitrary: e)
  case (Cons c cs)
  show ?case
  proof (cases "ic_col c < cursor")
    case True
    have "prefix_loop cursor (ic_col c + 1) cs = by_col cs (ic_col c + 1) cursor"
      by (rule Cons.IH) (use Cons.prems in auto)
    then show ?thesis using True Cons.prems by (simp add: by_col_Cons Let_def)
  next
    case False
    then show ?thesis using by_col_above [of "c # cs" cursor e] Cons.prems(1) by fastforce
  qed
qed (simp add: by_col_Nil)

lemma suffix_loop_skip: "suffix_loop cursor e cs = suffix_loop cursor e (filter (\<lambda>c. cursor \<le> ic_col c) cs)"
proof (induction cs arbitrary: e)
  case (Cons c cs)
  show ?case
  proof (cases "ic_col c < cursor")
    case True
    then show ?thesis using Cons [of e] by simp
  next
    case False
    then show ?thesis using Cons [of "ic_col c + 1"] by simp
  qed
qed simp

lemma by_col_skip: "by_col cs a b = by_col (filter (\<lambda>c. a \<le> ic_col c) cs) a b"
proof -
  have "find (\<lambda>c. ic_col c = k) (rev cs) = find (\<lambda>c. ic_col c = k) (rev (filter (\<lambda>c. a \<le> ic_col c) cs))"
    if "k \<in> set [a..<b]" for k
    using that by (induction cs) (auto simp: find_append split: option.splits)
  then show ?thesis unfolding by_col_def by (intro arg_cong [of _ _ concat] map_cong) auto
qed

lemma Max_last:
  "sorted_wrt (\<lambda>a b. ic_col a < ic_col b) cs \<Longrightarrow> cs \<noteq> [] \<Longrightarrow> Max (set (map ic_col cs)) = ic_col (last cs)"
proof (induction cs)
  case (Cons c cs)
  show ?case
  proof (cases "cs = []")
    case False
    have "ic_col c < ic_col (last cs)" using Cons.prems(1) False by simp
    then show ?thesis using Cons False by simp
  qed simp
qed simp

lemma suffix_loop_eq:
  assumes "sorted_wrt (\<lambda>a b. ic_col a < ic_col b) cs" "\<forall>c \<in> set cs. e \<le> ic_col c \<and> cursor \<le> ic_col c"
  shows "suffix_loop cursor e cs = by_col cs e (if cs = [] then e else ic_col (last cs) + 1)"
  using assms
proof (induction cs arbitrary: e)
  case (Cons c cs)
  have IH: "suffix_loop cursor (ic_col c + 1) cs =
      by_col cs (ic_col c + 1) (if cs = [] then ic_col c + 1 else ic_col (last cs) + 1)"
    by (rule Cons.IH) (use Cons.prems in auto)
  have "ic_col c < (if cs = [] then ic_col c + 1 else ic_col (last cs) + 1)"
    using Cons.prems(1) by (auto simp: less_Suc_eq)
  then have "by_col (c # cs) e (if cs = [] then ic_col c + 1 else ic_col (last cs) + 1) =
      replicate (ic_col c - e) 32 @ cell_text c @ by_col cs (ic_col c + 1) (if cs = [] then ic_col c + 1 else ic_col (last cs) + 1)"
    by (intro by_col_Cons) (use Cons.prems in auto)
  then show ?case using IH Cons.prems(2) by (auto simp: not_less)
qed (simp add: by_col_Nil)

text \<open>Reading the text before and after the cursor by scanning the cells of its line once gives what
  placing every cell at its column gives, when the cells come in display order.\<close>

theorem line_text_scans:
  assumes "display_order (ct_cells ct)"
  shows "extract_cursor_line_prefix ct = prefix_slow ct \<and> extract_cursor_line_suffix ct = suffix_slow ct"
proof -
  let ?cs = "filter (\<lambda>c. ic_line c = ct_line ct) (ct_cells ct)"
  have sorted: "sorted_wrt (\<lambda>a b. ic_col a < ic_col b) ?cs"
  proof -
    have "sorted_wrt (\<lambda>a b. ic_line a < ic_line b \<or> ic_line a = ic_line b \<and> ic_col a < ic_col b) ?cs"
      using assms unfolding display_order_def by (rule sorted_wrt_filter)
    then show ?thesis by (rule sorted_wrt_mono_rel [rotated]) auto
  qed
  have cells: "cells_for_line (ct_cells ct) (ct_line ct) = (if ?cs = [] then None else Some ?cs)"
    using cells_for_line_eq [OF assms] by (simp add: Let_def)
  have "prefix_loop (ct_col ct) 0 ?cs = prefix_slow ct"
    unfolding prefix_slow_def by (rule prefix_loop_eq [OF sorted]) simp
  moreover have "prefix_slow ct = []" if "ct_col ct = 0" using that by (simp add: prefix_slow_def by_col_def)
  ultimately have 1: "extract_cursor_line_prefix ct = prefix_slow ct"
    unfolding extract_cursor_line_prefix_def cells by simp
  let ?rs = "filter (\<lambda>c. ct_col ct \<le> ic_col c) ?cs"
  have rs: "sorted_wrt (\<lambda>a b. ic_col a < ic_col b) ?rs" by (rule sorted_wrt_filter [OF sorted])
  have "suffix_loop (ct_col ct) (ct_col ct) ?cs = suffix_slow ct" if ne: "?cs \<noteq> []"
  proof -
    have stop: "by_col ?rs (ct_col ct) (if ?rs = [] then ct_col ct else ic_col (last ?rs) + 1) =
        by_col ?rs (ct_col ct) (ic_col (last ?cs) + 1)"
    proof (cases "?rs = []")
      case True
      then have "ic_col (last ?cs) < ct_col ct" using ne last_in_set [OF ne] by (fastforce simp: filter_empty_conv)
      then show ?thesis using True by (simp add: by_col_Nil)
    next
      case False
      then obtain c where c: "c \<in> set ?cs" "ct_col ct \<le> ic_col c" by (auto simp: filter_empty_conv)
      have cs: "?cs = butlast ?cs @ [last ?cs]" using ne by simp
      have "ic_col c \<le> ic_col (last ?cs)"
      proof (cases "c \<in> set (butlast ?cs)")
        case True
        then show ?thesis using sorted by (subst (asm) cs) (auto simp: sorted_wrt_append intro: less_imp_le)
      next
        case False
        then have "c = last ?cs" using c(1) by (subst (asm) cs) auto
        then show ?thesis by simp
      qed
      then have "ct_col ct \<le> ic_col (last ?cs)" using c(2) by simp
      then have "?rs = filter (\<lambda>c. ct_col ct \<le> ic_col c) (butlast ?cs) @ [last ?cs]" by (subst cs) simp
      then have "last ?cs = last ?rs" by (metis last_snoc)
      then show ?thesis using False by simp
    qed
    have "suffix_loop (ct_col ct) (ct_col ct) ?cs = suffix_loop (ct_col ct) (ct_col ct) ?rs" by (rule suffix_loop_skip)
    also have "\<dots> = by_col ?rs (ct_col ct) (if ?rs = [] then ct_col ct else ic_col (last ?rs) + 1)"
      by (rule suffix_loop_eq [OF rs]) simp
    also have "\<dots> = by_col ?cs (ct_col ct) (ic_col (last ?cs) + 1)" unfolding stop by (rule by_col_skip [symmetric])
    finally show ?thesis using ne Max_last [OF sorted ne] by (simp add: suffix_slow_def Let_def)
  qed
  then have "extract_cursor_line_suffix ct = suffix_slow ct"
    unfolding extract_cursor_line_suffix_def cells by simp
  with 1 show ?thesis by blast
qed

text \<open>A prompt with a command half typed.\<close>

definition shown :: content where
  "shown = \<lparr>ct_cells = map (\<lambda>(i, c). \<lparr>ic_line = 0, ic_col = i, ic_char = c, ic_zerowidth = []\<rparr>) (enumerate 0 (rs ''$ git st'')),
     ct_line = 0, ct_col = 8\<rparr>"

lemma line_text_scans_witness: "extract_cursor_line_prefix shown = prefix_slow shown"
  using line_text_scans [of shown] by (simp add: shown_def rs_def display_order_def)

end
