(* ===== verification/SuggestPopup.thy ===== *)
theory SuggestPopup
  imports SuggestLine SnippetView "HOL-Library.Word"
begin

text \<open>
  The popup of suggestions in the terminal's view (\<open>SuggestionsState\<close> of \<open>gpui_term/src/view/mod.rs\<close>
  and \<open>view/suggestions.rs\<close>): keys, the delayed update, hovering and accepting. Whether the content
  of the terminal admits suggestions (\<open>suggestions_eligible_for_content\<close>) is an input.
\<close>

section \<open>Definitions\<close>

record popup =
  pp_open :: bool
  pp_items :: "suggestion_item list"
  pp_selected :: "nat option"
  pp_hovered :: "nat option"
  pp_epoch :: "64 word"
  pp_prompt :: "rstring option"

definition popup_new :: popup where
  "popup_new =
     \<lparr>pp_open = False, pp_items = [], pp_selected = None, pp_hovered = None, pp_epoch = 0, pp_prompt = None\<rparr>"

definition open_with_items :: "suggestion_item list \<Rightarrow> popup \<Rightarrow> popup" where
  "open_with_items is p = p\<lparr>pp_items := is, pp_open := (is \<noteq> []), pp_selected := None, pp_hovered := None\<rparr>"

definition popup_close :: "popup \<Rightarrow> popup" where
  "popup_close p = p\<lparr>pp_open := False, pp_items := [], pp_selected := None, pp_hovered := None\<rparr>"

text \<open>The items shown and the one highlighted.\<close>

definition suggestions_snapshot :: "popup \<Rightarrow> (suggestion_item list \<times> nat option) option" where
  "suggestions_snapshot p =
     (if pp_open p
      then Some (pp_items p,
        case (case pp_hovered p of Some h \<Rightarrow> Some h | None \<Rightarrow> pp_selected p) of
          None \<Rightarrow> None
        | Some h \<Rightarrow> if pp_items p = [] then None else Some (min h (length (pp_items p) - 1)))
      else None)"

definition close_suggestions :: "popup \<Rightarrow> popup" where
  "close_suggestions p = (if pp_open p then popup_close p else p)"

definition set_hovered :: "nat option \<Rightarrow> popup \<Rightarrow> popup" where
  "set_hovered h p =
     (if \<not> pp_open p then p\<lparr>pp_hovered := None\<rparr>
      else p\<lparr>pp_hovered :=
               (case h of None \<Rightarrow> None
                | Some i \<Rightarrow> if pp_items p = [] then None else Some (min i (length (pp_items p) - 1)))\<rparr>)"

text \<open>
  Accepting an item: whether it was accepted, the popup after it, and then the snippet session and
  the keys sent to the terminal. The outer option is a panic.
\<close>

type_synonym accepted = "(session option \<times> key_out list) option"

definition accept_suggestion_at_index ::
  "nat \<Rightarrow> content \<Rightarrow> int option \<Rightarrow> popup \<Rightarrow> (bool \<times> popup \<times> accepted) option" where
  "accept_suggestion_at_index i ct line_id p =
     (if \<not> pp_open p \<or> i \<ge> length (pp_items p) then Some (False, p, None)
      else let full = full_text (pp_items p ! i)
           in do {
             r \<leftarrow> compute_insert_suffix_for_line (extract_cursor_line_prefix ct) (pp_prompt p) full;
             case r of
               None \<Rightarrow> Some (False, p, None)
             | Some (input, suffix) \<Rightarrow>
                 let rest = extract_cursor_line_suffix ct
                 in if trim rest \<noteq> [] \<and> line_is_suggestion_prefix (input @ rest) full
                    then Some (False, p, None)
                    else Some (True, popup_close p, Some (accept_template suffix (ct_line ct, ct_col ct) line_id)) })"

definition accept_selected_suggestion ::
  "content \<Rightarrow> int option \<Rightarrow> popup \<Rightarrow> (bool \<times> popup \<times> accepted) option" where
  "accept_selected_suggestion ct line_id p =
     (if \<not> pp_open p then Some (False, p, None)
      else case pp_selected p of
             None \<Rightarrow> Some (False, p, None)
           | Some i \<Rightarrow> accept_suggestion_at_index i ct line_id p)"

text \<open>A timer carries the epoch in which it was started.\<close>

definition schedule_update :: "popup \<Rightarrow> popup" where
  "schedule_update p = p\<lparr>pp_epoch := pp_epoch p + 1\<rparr>"

definition note_prompt :: "content \<Rightarrow> popup \<Rightarrow> popup" where
  "note_prompt ct p =
     (if pp_prompt p = None then p\<lparr>pp_prompt := Some (extract_cursor_line_prefix ct)\<rparr> else p)"

definition suggestions_timer ::
  "64 word \<Rightarrow> bool \<Rightarrow> content \<Rightarrow> nat \<Rightarrow> (rstring \<Rightarrow> (rstring \<times> rstring option) list) option \<Rightarrow> popup \<Rightarrow> popup" where
  "suggestions_timer epoch eligible ct max_items provider p =
     (if pp_epoch p \<noteq> epoch then p
      else if \<not> eligible then popup_close (p\<lparr>pp_prompt := None\<rparr>)
      else case pp_prompt p of
             None \<Rightarrow> popup_close p
           | Some prompt \<Rightarrow>
               let input = (case strip_prefix prompt (extract_cursor_line_prefix ct) of None \<Rightarrow> [] | Some i \<Rightarrow> i)
               in open_with_items (suggest max_items provider input) p)"

text \<open>
  \<open>enabled\<close>: suggestions are on and no snippet session is; \<open>eligible\<close>: the content admits suggestions.
  The content and the cursor's line are those of \<open>prompt_context\<close>, which is always there.
\<close>

definition suggestions_key ::
  "bool \<Rightarrow> bool \<Rightarrow> content \<Rightarrow> int option \<Rightarrow> key_event \<Rightarrow> popup \<Rightarrow> (bool \<times> popup \<times> accepted) option" where
  "suggestions_key enabled eligible ct line_id ev p =
     (if \<not> enabled then Some (False, p, None)
      else if \<not> eligible then Some (False, popup_close (p\<lparr>pp_prompt := None\<rparr>), None)
      else if key ev = ''escape'' \<and> pp_open p then Some (True, popup_close p, None)
      else if key ev = ''up'' \<and> pp_open p
      then Some (True, p\<lparr>pp_selected := move_selection_opt (pp_selected p) (length (pp_items p)) Up\<rparr>, None)
      else if key ev = ''down'' \<and> pp_open p
      then Some (True, p\<lparr>pp_selected := move_selection_opt (pp_selected p) (length (pp_items p)) Down\<rparr>, None)
      else if key ev = ''enter''
      then do { (ok, q, a) \<leftarrow> accept_selected_suggestion ct line_id p;
                Some (if ok then (True, q, a) else (False, popup_close (q\<lparr>pp_prompt := None\<rparr>), None)) }
      else if key ev = ''right''
      then do { (ok, q, a) \<leftarrow> accept_selected_suggestion ct line_id p;
                Some (if ok then (True, q, a) else (False, q, None)) }
      else if key ev = ''backspace'' then Some (False, schedule_update (note_prompt ct p), None)
      else if is_plain_text ev then Some (False, schedule_update (note_prompt ct p), None)
      else if pp_open p then Some (False, popup_close p, None)
      else Some (False, p, None))"

text \<open>
  Tab does not come as a key press but as an action (\<open>send_keystroke\<close>). When no snippet session takes it
  (\<open>tab_key\<close>), it accepts the selected item of an open popup.
\<close>

definition suggestions_tab ::
  "bool \<Rightarrow> bool \<Rightarrow> content \<Rightarrow> int option \<Rightarrow> popup \<Rightarrow> (bool \<times> popup \<times> accepted) option" where
  "suggestions_tab enabled eligible ct line_id p =
     (if enabled \<and> pp_open p \<and> eligible then accept_selected_suggestion ct line_id p
      else Some (False, p, None))"

datatype popup_event =
    Popup_Key bool bool content "int option" key_event
  | Popup_Tab bool bool content "int option"
  | Popup_Timer "64 word" bool content nat "(rstring \<Rightarrow> (rstring \<times> rstring option) list) option"
  | Popup_Hover "nat option"
  | Popup_Click nat content "int option"
  | Popup_Close

fun popup_do :: "popup_event \<Rightarrow> popup \<Rightarrow> (popup \<times> accepted) option" where
  "popup_do (Popup_Key enabled eligible ct line_id ev) p =
     map_option (\<lambda>(_, q, a). (q, a)) (suggestions_key enabled eligible ct line_id ev p)"
| "popup_do (Popup_Tab enabled eligible ct line_id) p =
     map_option (\<lambda>(_, q, a). (q, a)) (suggestions_tab enabled eligible ct line_id p)"
| "popup_do (Popup_Timer e eligible ct n provider) p = Some (suggestions_timer e eligible ct n provider p, None)"
| "popup_do (Popup_Hover h) p = Some (set_hovered h p, None)"
| "popup_do (Popup_Click i ct line_id) p =
     map_option (\<lambda>(_, q, a). (q, a)) (accept_suggestion_at_index i ct line_id p)"
| "popup_do Popup_Close p = Some (close_suggestions p, None)"

definition popup_step :: "popup \<Rightarrow> popup_event \<Rightarrow> popup" where
  "popup_step p ev = (case popup_do ev p of Some (q, _) \<Rightarrow> q | None \<Rightarrow> p)"

section \<open>The invariant\<close>

definition popup_wf :: "popup \<Rightarrow> bool" where
  "popup_wf p \<longleftrightarrow> (pp_open p \<longleftrightarrow> pp_items p \<noteq> []) \<and>
     pred_option (\<lambda>i. i < length (pp_items p)) (pp_selected p) \<and>
     pred_option (\<lambda>i. i < length (pp_items p)) (pp_hovered p)"

lemma popup_wf_simps [simp]:
  "popup_wf (popup_close p)" "popup_wf (open_with_items is p)" "popup_wf popup_new"
  "popup_wf (schedule_update p) = popup_wf p" "popup_wf (note_prompt ct p) = popup_wf p"
  "popup_wf (p\<lparr>pp_prompt := x\<rparr>) = popup_wf p"
  by (simp_all add: popup_wf_def popup_close_def open_with_items_def popup_new_def schedule_update_def note_prompt_def)

lemma suffix_for_line_total: "\<exists>r. compute_insert_suffix_for_line line prompt full = Some r"
proof -
  obtain r where r: "first_suffix full (map (\<lambda>k. drop k line) [0..<length line + 1]) = Some r"
    using first_suffix_cases by blast
  show ?thesis
  proof (cases prompt)
    case None
    then show ?thesis using r by (simp add: compute_insert_suffix_for_line_def del: upt_Suc)
  next
    case (Some p)
    define input where "input = (case strip_prefix p line of None \<Rightarrow> [] | Some i \<Rightarrow> i)"
    obtain s where "compute_insert_suffix input full = Some s" using insert_suffix_cases by blast
    then show ?thesis using r Some
      by (cases s) (simp_all add: compute_insert_suffix_for_line_def Let_def input_def [symmetric] del: upt_Suc)
  qed
qed

lemma accept_cases:
  "(\<exists>input suffix. pp_open p \<and> i < length (pp_items p) \<and>
      compute_insert_suffix_for_line (extract_cursor_line_prefix ct) (pp_prompt p) (full_text (pp_items p ! i)) =
        Some (Some (input, suffix)) \<and>
      accept_suggestion_at_index i ct line_id p =
        Some (True, popup_close p, Some (accept_template suffix (ct_line ct, ct_col ct) line_id))) \<or>
   accept_suggestion_at_index i ct line_id p = Some (False, p, None)"
proof -
  obtain r where "compute_insert_suffix_for_line (extract_cursor_line_prefix ct) (pp_prompt p)
      (full_text (pp_items p ! i)) = Some r"
    using suffix_for_line_total by blast
  then show ?thesis by (cases r) (auto simp: accept_suggestion_at_index_def Let_def)
qed

text \<open>No panic, and the popup afterwards is well formed.\<close>

definition lands_wf :: "(bool \<times> popup \<times> accepted) option \<Rightarrow> bool" where
  "lands_wf r = (case r of None \<Rightarrow> False | Some (_, q, _) \<Rightarrow> popup_wf q)"

lemma lands_wf_Some [simp]: "lands_wf (Some (ok, q, a)) = popup_wf q"
  by (simp add: lands_wf_def)

lemma lands_wf_obtain: "lands_wf r \<Longrightarrow> \<exists>ok q a. r = Some (ok, q, a) \<and> popup_wf q"
  by (auto simp: lands_wf_def split: option.splits)

lemma accepted_ok: "accept_selected_suggestion ct line_id p = Some (ok, q, Some out) \<Longrightarrow> ok"
  using accept_cases [of p "the (pp_selected p)" ct line_id]
  by (auto simp: accept_selected_suggestion_def split: if_splits option.splits)

lemma accept_wf: "popup_wf p \<Longrightarrow> lands_wf (accept_suggestion_at_index i ct line_id p)"
  using accept_cases [of p i ct line_id] by auto

lemma accept_selected_wf: "popup_wf p \<Longrightarrow> lands_wf (accept_selected_suggestion ct line_id p)"
  by (simp add: accept_selected_suggestion_def accept_wf split: option.split)

lemma move_selection_lt: "pred_option (\<lambda>i. i < n) s \<Longrightarrow> pred_option (\<lambda>i. i < n) (move_selection_opt s n d)"
  by (auto simp: move_selection_opt_def move_selection_def split: option.splits selection_move.splits)

lemma popup_wf_move: "popup_wf p \<Longrightarrow> popup_wf (p\<lparr>pp_selected := move_selection_opt (pp_selected p) (length (pp_items p)) d\<rparr>)"
  using move_selection_lt by (auto simp: popup_wf_def)

lemma popup_wf_hover: "popup_wf p \<Longrightarrow> popup_wf (set_hovered h p)"
  by (cases "pp_items p") (auto simp: popup_wf_def set_hovered_def split: option.splits)

lemma key_wf: "popup_wf p \<Longrightarrow> lands_wf (suggestions_key enabled eligible ct line_id ev p)"
  using lands_wf_obtain [OF accept_selected_wf [of p ct line_id]] popup_wf_move [of p]
  by (auto simp: suggestions_key_def)

lemma tab_wf: "popup_wf p \<Longrightarrow> lands_wf (suggestions_tab enabled eligible ct line_id p)"
  by (simp add: suggestions_tab_def accept_selected_wf)

lemma popup_do_wf:
  assumes "popup_wf p"
  shows "\<exists>q a. popup_do ev p = Some (q, a) \<and> popup_wf q"
proof (cases ev)
  case (Popup_Key enabled eligible ct line_id kev)
  then show ?thesis using lands_wf_obtain [OF key_wf [OF assms, of enabled eligible ct line_id kev]] by auto
next
  case (Popup_Tab enabled eligible ct line_id)
  then show ?thesis using lands_wf_obtain [OF tab_wf [OF assms, of enabled eligible ct line_id]] by auto
next
  case (Popup_Click i ct line_id)
  then show ?thesis using lands_wf_obtain [OF accept_wf [OF assms, of i ct line_id]] by auto
qed (auto simp: assms suggestions_timer_def close_suggestions_def popup_wf_hover Let_def split: option.splits)

lemma popup_step_wf: "popup_wf p \<Longrightarrow> popup_wf (popup_step p ev)"
  using popup_do_wf [of p ev] by (auto simp: popup_step_def)

interpretation popups: transition_system "\<lambda>p. p = popup_new" popup_step popup_wf
  by unfold_locales (simp_all add: popup_step_wf)

text \<open>C25: Whatever keys, tabs, timers, hovering and clicks came before, the popup is open exactly when it has
  items, the positions it holds as selected and as hovered and the one the view highlights are positions of items,
  and no further event panics.\<close>

theorem popup_never_panics:
  "let p = foldl popup_step popup_new evs
   in (pp_open p \<longleftrightarrow> pp_items p \<noteq> []) \<and>
      pred_option (\<lambda>i. i < length (pp_items p)) (pp_selected p) \<and>
      pred_option (\<lambda>i. i < length (pp_items p)) (pp_hovered p) \<and>
      popup_do ev p \<noteq> None \<and>
      (case suggestions_snapshot p of
         None \<Rightarrow> \<not> pp_open p
       | Some (items, h) \<Rightarrow> items = pp_items p \<and> items \<noteq> [] \<and> pred_option (\<lambda>i. i < length items) h)"
proof -
  define p where "p = foldl popup_step popup_new evs"
  have wf: "popup_wf p" unfolding p_def by (rule popups.run_inv) simp
  then have "popup_do ev p \<noteq> None" using popup_do_wf by fastforce
  with wf show ?thesis
    unfolding p_def [symmetric] Let_def
    by (auto simp: popup_wf_def suggestions_snapshot_def split: option.splits)
qed


lemma shown_prefix: "extract_cursor_line_prefix shown = rs ''$ git st''"
  by (simp add: shown_def rs_def extract_cursor_line_prefix_def cells_for_line_def partition_point_def cell_text_def)

lemma shown_suffix: "extract_cursor_line_suffix shown = []"
  by (simp add: shown_def rs_def extract_cursor_line_suffix_def cells_for_line_def partition_point_def cell_text_def)

definition popup_shown :: popup where
  "popup_shown =
     popup_new\<lparr>pp_open := True, pp_items := [\<lparr>full_text = rs ''git status'', score = 110, description = None\<rparr>],
       pp_selected := Some 0, pp_prompt := Some (rs ''$ '')\<rparr>"

definition right_key :: key_event where
  "right_key = \<lparr>key = ''right'', key_char = None, ime_in_progress = False, m_control = False, m_alt = False,
     m_platform = False, m_function = False\<rparr>"

lemma shown_suffix_for:
  "compute_insert_suffix_for_line (rs ''$ git st'') (Some (rs ''$ '')) (rs ''git status'') =
     Some (Some (rs ''git st'', rs ''atus''))"
  by (simp add: compute_insert_suffix_for_line_def compute_insert_suffix_def rs_def trim_start_def is_whitespace_def
    loose_prefix_match_end_def is_ascii_def ascii_end.simps skip_ws_def is_ascii_whitespace_def len_utf8_def)


end
