(* ===== verification/TransferCenter.thy ===== *)
theory TransferCenter
  imports Prelude "HOL-Library.Word"
begin

text \<open>
  The transfer center (\<open>crates/gpui_transfer/src/lib.rs\<close>): the list of running and recent
  file transfers shown in the foot bar, with per-group totals that stay stable while single
  tasks are dismissed. The hash maps of the code are association lists, its hash sets
  distinct lists; \<open>Instant::now()\<close> is an argument; an \<open>f32\<close> is its bit pattern (only stored);
  byte counts are \<open>u64\<close>, so sums wrap as in a release build. First the data and the
  operations, then the invariant \<open>tc_wf\<close> and what each operation does to the list.
\<close>

section \<open>Data\<close>

datatype transfer_kind = Upload | Download | Other

datatype transfer_status = InProgress | Finished | Cancelled | Failed

datatype transfer_progress = Indeterminate | Determinate "32 word"

record transfer_task =
  tid :: rstring
  title :: rstring
  detail :: "rstring option"
  group_id :: "rstring option"
  group_total :: "nat option"
  kind :: transfer_kind
  status :: transfer_status
  progress :: transfer_progress
  bytes_done :: "64 word option"
  bytes_total :: "64 word option"
  cancel :: "nat option"
  created_at :: nat
  updated_at :: nat

definition new_task :: "nat \<Rightarrow> rstring \<Rightarrow> rstring \<Rightarrow> transfer_task" where
  "new_task now i t =
     \<lparr> tid = i, title = t, detail = None, group_id = None, group_total = None, kind = Other,
       status = InProgress, progress = Indeterminate, bytes_done = None, bytes_total = None,
       cancel = None, created_at = now, updated_at = now \<rparr>"

definition with_detail :: "transfer_task \<Rightarrow> rstring \<Rightarrow> transfer_task" where
  "with_detail t d = t\<lparr>detail := Some d\<rparr>"

definition with_group :: "transfer_task \<Rightarrow> rstring \<Rightarrow> nat option \<Rightarrow> transfer_task" where
  "with_group t g n = t\<lparr>group_id := Some g, group_total := n\<rparr>"

definition with_kind :: "transfer_task \<Rightarrow> transfer_kind \<Rightarrow> transfer_task" where
  "with_kind t k = t\<lparr>kind := k\<rparr>"

definition with_progress :: "transfer_task \<Rightarrow> transfer_progress \<Rightarrow> transfer_task" where
  "with_progress t p = t\<lparr>progress := p\<rparr>"

definition with_bytes :: "transfer_task \<Rightarrow> 64 word option \<Rightarrow> 64 word option \<Rightarrow> transfer_task" where
  "with_bytes t d n = t\<lparr>bytes_done := d, bytes_total := n\<rparr>"

definition with_status :: "transfer_task \<Rightarrow> transfer_status \<Rightarrow> transfer_task" where
  "with_status t st = t\<lparr>status := st\<rparr>"

definition with_cancel_token :: "transfer_task \<Rightarrow> nat \<Rightarrow> transfer_task" where
  "with_cancel_token t c = t\<lparr>cancel := Some c\<rparr>"

record transfer_group_state =
  g_total :: nat
  completed :: "rstring list"
  g_bytes :: "(rstring \<times> 64 word \<times> 64 word) list"

record transfer_center_state =
  tasks :: "(rstring \<times> transfer_task) list"
  order :: "rstring list"
  groups :: "(rstring \<times> transfer_group_state) list"
  group_tasks :: "(rstring \<times> rstring list) list"

record transfer_center_summary =
  s_done :: nat
  s_total :: nat
  s_bytes_done :: "64 word"
  s_bytes_total :: "64 word"

definition group_default :: transfer_group_state where
  "group_default = \<lparr> g_total = 0, completed = [], g_bytes = [] \<rparr>"

definition center_default :: transfer_center_state where
  "center_default = \<lparr> tasks = [], order = [], groups = [], group_tasks = [] \<rparr>"

definition summary_default :: transfer_center_summary where
  "summary_default = \<lparr> s_done = 0, s_total = 0, s_bytes_done = 0, s_bytes_total = 0 \<rparr>"

section \<open>Operations\<close>

definition add_bytes :: "transfer_center_summary \<Rightarrow> 64 word \<times> 64 word \<Rightarrow> transfer_center_summary" where
  "add_bytes sm p = sm\<lparr>s_bytes_done := s_bytes_done sm + min (fst p) (snd p),
                       s_bytes_total := s_bytes_total sm + snd p\<rparr>"

definition group_summary :: "transfer_group_state \<Rightarrow> transfer_center_summary" where
  "group_summary g =
     foldl add_bytes
       (summary_default\<lparr>s_done := min (length (completed g)) (g_total g), s_total := g_total g\<rparr>)
       (map snd (g_bytes g))"

definition apply_task_to_group :: "transfer_task \<Rightarrow> transfer_group_state \<Rightarrow> transfer_group_state" where
  "apply_task_to_group task g =
     (let g = (case group_total task of None \<Rightarrow> g | Some n \<Rightarrow> g\<lparr>g_total := max (g_total g) n\<rparr>);
          g = (case bytes_total task of
                 None \<Rightarrow> g
               | Some n \<Rightarrow>
                   if n > 0
                   then g\<lparr>g_bytes := AList.update (tid task)
                          (min (case bytes_done task of Some d \<Rightarrow> d
                                | None \<Rightarrow> if status task = Finished then n else 0) n, n)
                          (g_bytes g)\<rparr>
                   else g)
      in if status task = InProgress then g
         else g\<lparr>completed := List.insert (tid task) (completed g)\<rparr>)"

definition apply_task_to_group_state ::
  "transfer_center_state \<Rightarrow> transfer_task \<Rightarrow> transfer_center_state" where
  "apply_task_to_group_state s task =
     (case group_id task of
        None \<Rightarrow> s
      | Some g \<Rightarrow>
          let ids = (case map_of (group_tasks s) g of None \<Rightarrow> [] | Some ids \<Rightarrow> ids);
              gs = (case map_of (groups s) g of None \<Rightarrow> group_default | Some x \<Rightarrow> x)
          in s\<lparr>group_tasks := AList.update g (List.insert (tid task) ids) (group_tasks s),
               groups := AList.update g (apply_task_to_group task gs) (groups s)\<rparr>)"

definition forget_in_group ::
  "transfer_center_state \<Rightarrow> rstring \<Rightarrow> transfer_task \<Rightarrow> bool \<Rightarrow> transfer_center_state" where
  "forget_in_group s g task remove_completion =
     (case map_of (groups s) g of
        None \<Rightarrow> s
      | Some gs \<Rightarrow>
          let gs = (if remove_completion then gs\<lparr>completed := removeAll (tid task) (completed gs)\<rparr>
                    else gs);
              gs = (if remove_completion \<or> status task = InProgress
                    then gs\<lparr>g_bytes := AList.delete (tid task) (g_bytes gs)\<rparr> else gs)
          in s\<lparr>groups := AList.update g gs (groups s)\<rparr>)"

definition remove_task_from_group_state ::
  "transfer_center_state \<Rightarrow> transfer_task \<Rightarrow> bool \<Rightarrow> bool \<Rightarrow> transfer_center_state" where
  "remove_task_from_group_state s task remove_completion preserve_group_when_empty =
     (case group_id task of
        None \<Rightarrow> s
      | Some g \<Rightarrow>
          (case map_of (group_tasks s) g of
             None \<Rightarrow> forget_in_group s g task remove_completion
           | Some ids \<Rightarrow>
               let ids = removeAll (tid task) ids in
               if ids = []
               then (let s = s\<lparr>group_tasks := AList.delete g (group_tasks s)\<rparr>
                     in if preserve_group_when_empty then forget_in_group s g task remove_completion
                        else s\<lparr>groups := AList.delete g (groups s)\<rparr>)
               else forget_in_group (s\<lparr>group_tasks := AList.update g ids (group_tasks s)\<rparr>)
                      g task remove_completion))"

definition merge_existing :: "nat \<Rightarrow> transfer_task \<Rightarrow> transfer_task \<Rightarrow> transfer_task" where
  "merge_existing now existing task =
     (let same = (group_id existing = group_id task);
          task = (if same \<and> bytes_done task = None
                  then task\<lparr>bytes_done := bytes_done existing\<rparr> else task);
          task = (if same \<and> bytes_total task = None
                  then task\<lparr>bytes_total := bytes_total existing\<rparr> else task)
      in task\<lparr>created_at := created_at existing, updated_at := now\<rparr>)"

definition upsert :: "nat \<Rightarrow> transfer_center_state \<Rightarrow> transfer_task \<Rightarrow> transfer_center_state" where
  "upsert now s task =
     (case map_of (tasks s) (tid task) of
        Some existing \<Rightarrow>
          let t = merge_existing now existing task;
              s = remove_task_from_group_state s existing True (group_id existing = group_id task);
              s = apply_task_to_group_state s t
          in s\<lparr>tasks := AList.update (tid task) t (tasks s)\<rparr>
      | None \<Rightarrow>
          let t = task\<lparr>created_at := now, updated_at := now\<rparr>;
              s = apply_task_to_group_state s t
          in s\<lparr>order := order s @ [tid task], tasks := AList.update (tid task) t (tasks s)\<rparr>)"

definition remove :: "transfer_center_state \<Rightarrow> rstring \<Rightarrow> transfer_center_state" where
  "remove s i =
     (case map_of (tasks s) i of
        None \<Rightarrow> s
      | Some task \<Rightarrow>
          let s = s\<lparr>tasks := AList.delete i (tasks s), order := remove1 i (order s)\<rparr>;
              s = remove_task_from_group_state s task False (status task \<noteq> InProgress)
          in if tasks s = [] then s\<lparr>group_tasks := [], groups := []\<rparr> else s)"

definition group_task_ids :: "transfer_center_state \<Rightarrow> rstring \<Rightarrow> rstring list" where
  "group_task_ids s g = (case map_of (group_tasks s) g of None \<Rightarrow> [] | Some ids \<Rightarrow> ids)"

definition remove_group :: "transfer_center_state \<Rightarrow> rstring \<Rightarrow> transfer_center_state" where
  "remove_group s g =
     (let s = foldl remove s (group_task_ids s g)
      in s\<lparr>group_tasks := AList.delete g (group_tasks s), groups := AList.delete g (groups s)\<rparr>)"

definition groups_with_prefix :: "transfer_center_state \<Rightarrow> rstring \<Rightarrow> rstring list" where
  "groups_with_prefix s p =
     foldl (\<lambda>ids g. if g \<in> set ids then ids else ids @ [g])
       (filter (starts_with p) (map fst (group_tasks s)))
       (filter (starts_with p) (map fst (groups s)))"

definition remove_groups_with_prefix ::
  "transfer_center_state \<Rightarrow> rstring \<Rightarrow> transfer_center_state" where
  "remove_groups_with_prefix s p = foldl remove_group s (groups_with_prefix s p)"

definition tasks_sorted :: "transfer_center_state \<Rightarrow> transfer_task list" where
  "tasks_sorted s = List.map_filter (map_of (tasks s)) (order s)"

definition is_empty :: "transfer_center_state \<Rightarrow> bool" where
  "is_empty s \<longleftrightarrow> tasks s = []"

definition summary_add ::
  "transfer_center_summary \<Rightarrow> transfer_center_summary \<Rightarrow> transfer_center_summary" where
  "summary_add a b =
     \<lparr> s_done = s_done a + s_done b, s_total = s_total a + s_total b,
       s_bytes_done = s_bytes_done a + s_bytes_done b,
       s_bytes_total = s_bytes_total a + s_bytes_total b \<rparr>"

definition add_task :: "transfer_center_summary \<Rightarrow> transfer_task \<Rightarrow> transfer_center_summary" where
  "add_task sm t =
     (let sm = sm\<lparr>s_total := s_total sm + 1\<rparr>;
          sm = (if status t = Finished then sm\<lparr>s_done := s_done sm + 1\<rparr> else sm)
      in case (bytes_done t, bytes_total t) of
           (Some d, Some n) \<Rightarrow> if n > 0 then add_bytes sm (d, n) else sm
         | _ \<Rightarrow> sm)"

definition summary :: "transfer_center_state \<Rightarrow> transfer_center_summary" where
  "summary s =
     (let sm = foldl summary_add summary_default (map (group_summary \<circ> snd) (groups s))
      in foldl add_task sm (filter (\<lambda>t. group_id t = None) (map snd (tasks s))))"

section \<open>Invariant\<close>

text \<open>
  \<open>group_inv m g ids gs\<close>: what the entries of group \<open>g\<close> in \<open>group_tasks\<close> and \<open>groups\<close> must say
  when the tasks are \<open>m\<close>. The id set holds exactly the tasks of the group and is never empty;
  a group with tasks has a state, which counts every ended task as completed and whose
  total is at least each task's.
\<close>

definition group_ok :: "transfer_group_state \<Rightarrow> bool" where
  "group_ok gs \<longleftrightarrow> distinct (completed gs) \<and> distinct (map fst (g_bytes gs)) \<and>
     (\<forall>(i, d, n) \<in> set (g_bytes gs). d \<le> n)"

definition ids_inv :: "(rstring \<Rightarrow> transfer_task option) \<Rightarrow> rstring \<Rightarrow> rstring list option \<Rightarrow> bool" where
  "ids_inv m g ids \<longleftrightarrow>
     (case ids of
        None \<Rightarrow> (\<forall>i t. m i = Some t \<longrightarrow> group_id t \<noteq> Some g)
      | Some ids \<Rightarrow> ids \<noteq> [] \<and> distinct ids \<and>
                    (\<forall>i. i \<in> set ids \<longleftrightarrow> (\<exists>t. m i = Some t \<and> group_id t = Some g)))"

definition state_inv ::
  "(rstring \<Rightarrow> transfer_task option) \<Rightarrow> rstring \<Rightarrow> transfer_group_state option \<Rightarrow> bool" where
  "state_inv m g gs \<longleftrightarrow>
     (\<forall>i t. m i = Some t \<and> group_id t = Some g \<longrightarrow>
        (\<exists>x. gs = Some x \<and> (status t \<noteq> InProgress \<longrightarrow> i \<in> set (completed x)) \<and>
             (\<forall>n. group_total t = Some n \<longrightarrow> n \<le> g_total x))) \<and>
     (\<forall>x. gs = Some x \<longrightarrow> group_ok x)"

definition gwf :: "(rstring \<Rightarrow> transfer_task option) \<Rightarrow> transfer_center_state \<Rightarrow> bool" where
  "gwf m s \<longleftrightarrow> distinct (map fst (groups s)) \<and> distinct (map fst (group_tasks s)) \<and>
     (\<forall>g. ids_inv m g (map_of (group_tasks s) g) \<and> state_inv m g (map_of (groups s) g))"

definition tc_wf :: "transfer_center_state \<Rightarrow> bool" where
  "tc_wf s \<longleftrightarrow> distinct (map fst (tasks s)) \<and> distinct (order s) \<and>
     set (order s) = dom (map_of (tasks s)) \<and>
     (\<forall>i t. map_of (tasks s) i = Some t \<longrightarrow> tid t = i) \<and> gwf (map_of (tasks s)) s"

lemma tc_wf_default: "tc_wf center_default"
  by (simp add: tc_wf_def center_default_def gwf_def ids_inv_def state_inv_def)

subsection \<open>Effect of the group bookkeeping, group by group\<close>

lemma forget_in_group_simps [simp]:
  "tasks (forget_in_group s g t rc) = tasks s"
  "order (forget_in_group s g t rc) = order s"
  "group_tasks (forget_in_group s g t rc) = group_tasks s"
  by (simp_all add: forget_in_group_def split: option.splits)

lemma remove_task_from_group_state_simps [simp]:
  "tasks (remove_task_from_group_state s t rc p) = tasks s"
  "order (remove_task_from_group_state s t rc p) = order s"
  by (simp_all add: remove_task_from_group_state_def Let_def split: option.splits)

lemma apply_task_to_group_state_simps [simp]:
  "tasks (apply_task_to_group_state s t) = tasks s"
  "order (apply_task_to_group_state s t) = order s"
  by (simp_all add: apply_task_to_group_state_def Let_def split: option.splits)

definition forget_task :: "transfer_task \<Rightarrow> bool \<Rightarrow> transfer_group_state \<Rightarrow> transfer_group_state" where
  "forget_task t rc gs =
     gs\<lparr>completed := (if rc then removeAll (tid t) (completed gs) else completed gs),
        g_bytes := (if rc \<or> status t = InProgress then AList.delete (tid t) (g_bytes gs)
                    else g_bytes gs)\<rparr>"

lemma groups_forget_in_group [simp]:
  "map_of (groups (forget_in_group s g t rc)) h =
     (if h = g then map_option (forget_task t rc) (map_of (groups s) g) else map_of (groups s) h)"
  by (cases "map_of (groups s) g") (auto simp: forget_in_group_def forget_task_def Let_def)

lemma group_tasks_remove_task:
  "map_of (group_tasks (remove_task_from_group_state s t rc p)) h =
     (if group_id t = Some h
      then (case map_of (group_tasks s) h of
              None \<Rightarrow> None
            | Some ids \<Rightarrow> if removeAll (tid t) ids = [] then None else Some (removeAll (tid t) ids))
      else map_of (group_tasks s) h)"
  by (auto simp: remove_task_from_group_state_def Let_def split: option.splits)

lemma groups_remove_task:
  "map_of (groups (remove_task_from_group_state s t rc p)) h =
     (if group_id t = Some h
      then (if \<not> p \<and> (\<exists>ids. map_of (group_tasks s) h = Some ids \<and> removeAll (tid t) ids = [])
            then None else map_option (forget_task t rc) (map_of (groups s) h))
      else map_of (groups s) h)"
  by (auto simp: remove_task_from_group_state_def Let_def split: option.splits)

lemma distinct_remove_task:
  assumes "distinct (map fst (groups s))" and "distinct (map fst (group_tasks s))"
  shows "distinct (map fst (groups (remove_task_from_group_state s t rc p)))"
    and "distinct (map fst (group_tasks (remove_task_from_group_state s t rc p)))"
  using assms
  by (auto simp: remove_task_from_group_state_def forget_in_group_def Let_def distinct_update
        distinct_delete split: option.splits)

lemma apply_lookup:
  "map_of (group_tasks (apply_task_to_group_state s t)) h =
     (if group_id t = Some h
      then Some (List.insert (tid t)
             (case map_of (group_tasks s) h of None \<Rightarrow> [] | Some ids \<Rightarrow> ids))
      else map_of (group_tasks s) h)"
  "map_of (groups (apply_task_to_group_state s t)) h =
     (if group_id t = Some h
      then Some (apply_task_to_group t
             (case map_of (groups s) h of None \<Rightarrow> group_default | Some x \<Rightarrow> x))
      else map_of (groups s) h)"
  by (auto simp: apply_task_to_group_state_def Let_def split: option.splits)

lemma distinct_apply_task:
  assumes "distinct (map fst (groups s))" and "distinct (map fst (group_tasks s))"
  shows "distinct (map fst (groups (apply_task_to_group_state s t)))"
    and "distinct (map fst (group_tasks (apply_task_to_group_state s t)))"
  using assms
  by (auto simp: apply_task_to_group_state_def Let_def distinct_update split: option.splits)

subsection \<open>Every operation keeps the invariant\<close>

lemma group_ok_default: "group_ok group_default"
  by (simp add: group_ok_def group_default_def)

lemma set_delete_subset: "set (AList.delete k al) \<subseteq> set al"
  by (induction al) auto

lemma group_ok_forget: "group_ok gs \<Longrightarrow> group_ok (forget_task t rc gs)"
  by (auto simp: group_ok_def forget_task_def distinct_removeAll distinct_delete
        dest: set_mp [OF set_delete_subset])

lemma set_update_subset: "set (AList.update k v al) \<subseteq> insert (k, v) (set al)"
  by (induction al) auto

lemma group_ok_apply: "group_ok gs \<Longrightarrow> group_ok (apply_task_to_group t gs)"
  using set_update_subset
  by (fastforce simp: group_ok_def apply_task_to_group_def Let_def distinct_update
        split: option.splits)

lemma apply_task_to_group_simps:
  "status t \<noteq> InProgress \<Longrightarrow> tid t \<in> set (completed (apply_task_to_group t gs))"
  "i \<in> set (completed gs) \<Longrightarrow> i \<in> set (completed (apply_task_to_group t gs))"
  "g_total (apply_task_to_group t gs) =
     (case group_total t of None \<Rightarrow> g_total gs | Some n \<Rightarrow> max (g_total gs) n)"
  by (auto simp: apply_task_to_group_def Let_def split: option.splits)

lemma ids_inv_insert:
  assumes "ids_inv m g ids" and "m (tid t) = None" and "group_id t = Some g"
  shows "ids_inv (m(tid t \<mapsto> t)) g
    (Some (List.insert (tid t) (case ids of None \<Rightarrow> [] | Some ids \<Rightarrow> ids)))"
proof -
  define xs where "xs = (case ids of None \<Rightarrow> [] | Some ids \<Rightarrow> ids)"
  have "distinct xs" and mem: "\<And>i. i \<in> set xs \<longleftrightarrow> (\<exists>t. m i = Some t \<and> group_id t = Some g)"
    using assms(1) by (auto simp: ids_inv_def xs_def split: option.splits)
  moreover have "List.insert (tid t) xs \<noteq> []" by (auto simp: List.insert_def)
  ultimately show ?thesis
    using assms(2,3) unfolding ids_inv_def xs_def [symmetric] by auto
qed

lemma ids_inv_other:
  assumes "ids_inv m g ids" and "group_id t \<noteq> Some g" and "m (tid t) = None"
  shows "ids_inv (m(tid t \<mapsto> t)) g ids"
  using assms unfolding ids_inv_def by (cases ids) auto

lemma gwf_apply:
  assumes "gwf m s" and "m (tid t) = None"
  shows "gwf (m(tid t \<mapsto> t)) (apply_task_to_group_state s t)"
proof -
  have "ids_inv (m(tid t \<mapsto> t)) g (map_of (group_tasks (apply_task_to_group_state s t)) g)" for g
  proof -
    have inv: "ids_inv m g (map_of (group_tasks s) g)" using assms(1) by (simp add: gwf_def)
    show ?thesis
    proof (cases "group_id t = Some g")
      case True
      show ?thesis using ids_inv_insert [OF inv assms(2) True] True by (simp add: apply_lookup)
    next
      case False
      show ?thesis using ids_inv_other [OF inv False assms(2)] False by (simp add: apply_lookup)
    qed
  qed
  moreover have "state_inv (m(tid t \<mapsto> t)) g (map_of (groups (apply_task_to_group_state s t)) g)" for g
  proof -
    have inv: "state_inv m g (map_of (groups s) g)" using assms(1) by (simp add: gwf_def)
    show ?thesis
    proof (cases "group_id t = Some g")
      case False
      with inv assms(2) show ?thesis by (auto simp: state_inv_def apply_lookup split: if_splits)
    next
      case True
      define gs where "gs = (case map_of (groups s) g of None \<Rightarrow> group_default | Some x \<Rightarrow> x)"
      have "group_ok gs" using inv by (auto simp: gs_def state_inv_def group_ok_default split: option.splits)
      moreover have "(status u \<noteq> InProgress \<longrightarrow> i \<in> set (completed gs)) \<and>
          (\<forall>n. group_total u = Some n \<longrightarrow> n \<le> g_total gs)"
        if "m i = Some u" "group_id u = Some g" for i u
        using inv that by (cases "map_of (groups s) g") (auto simp: state_inv_def gs_def)
      ultimately show ?thesis
        using True
        by (auto simp: state_inv_def apply_lookup gs_def [symmetric] group_ok_apply
              apply_task_to_group_simps le_max_iff_disj split: option.split)
    qed
  qed
  ultimately show ?thesis using assms(1) by (auto simp: gwf_def distinct_apply_task)
qed

lemma ids_inv_remove:
  assumes "ids_inv m g (Some ids)" and "m (tid t) = Some t" and "group_id t = Some g"
  shows "ids_inv (m(tid t := None)) g
    (if removeAll (tid t) ids = [] then None else Some (removeAll (tid t) ids))"
proof -
  have "distinct (removeAll (tid t) ids)"
    using assms(1) by (simp add: ids_inv_def distinct_removeAll)
  moreover have "j \<in> set (removeAll (tid t) ids) \<longleftrightarrow>
      (\<exists>u. (m(tid t := None)) j = Some u \<and> group_id u = Some g)" for j
    using assms(1) by (auto simp: ids_inv_def)
  ultimately show ?thesis unfolding ids_inv_def by (cases "removeAll (tid t) ids") auto
qed

lemma ids_inv_remove_other:
  assumes "ids_inv m g ids" and "group_id t \<noteq> Some g" and "m (tid t) = Some t"
  shows "ids_inv (m(tid t := None)) g ids"
  using assms unfolding ids_inv_def by (cases ids) auto

lemma state_inv_forget:
  assumes "state_inv m g gs"
  shows "state_inv (m(tid t := None)) g (map_option (forget_task t rc) gs)"
proof (cases gs)
  case (Some x)
  then have "group_ok (forget_task t rc x)"
    using assms by (simp add: state_inv_def group_ok_forget)
  moreover have "i \<noteq> tid t \<Longrightarrow> i \<in> set (completed x) \<Longrightarrow> i \<in> set (completed (forget_task t rc x))"
    and "g_total (forget_task t rc x) = g_total x" for i
    by (simp_all add: forget_task_def)
  ultimately show ?thesis using assms Some by (auto simp: state_inv_def)
qed (use assms in \<open>auto simp: state_inv_def\<close>)

lemma gwf_remove_task:
  assumes "gwf m s" and "m (tid t) = Some t"
  shows "gwf (m(tid t := None)) (remove_task_from_group_state s t rc p)"
proof -
  let ?s = "remove_task_from_group_state s t rc p"
  have "ids_inv (m(tid t := None)) g (map_of (group_tasks ?s) g) \<and>
        state_inv (m(tid t := None)) g (map_of (groups ?s) g)" for g
  proof -
    have ids: "ids_inv m g (map_of (group_tasks s) g)" and st: "state_inv m g (map_of (groups s) g)"
      using assms(1) by (auto simp: gwf_def)
    show ?thesis
    proof (cases "group_id t = Some g")
      case False
      have "state_inv (m(tid t := None)) g (map_of (groups s) g)"
        using st by (auto simp: state_inv_def)
      then show ?thesis
        using ids_inv_remove_other [OF ids False assms(2)] False
        by (simp add: group_tasks_remove_task groups_remove_task)
    next
      case True
      then obtain xs where l: "map_of (group_tasks s) g = Some xs"
        using ids assms(2) by (auto simp: ids_inv_def split: option.splits)
      have ids': "ids_inv (m(tid t := None)) g
          (if removeAll (tid t) xs = [] then None else Some (removeAll (tid t) xs))"
        using ids_inv_remove [of m g xs t] ids assms(2) True l by simp
      moreover have "state_inv (m(tid t := None)) g None" if "removeAll (tid t) xs = []"
        using ids' that by (auto simp: ids_inv_def state_inv_def)
      ultimately show ?thesis
        using True l state_inv_forget [OF st, of t rc]
        by (simp add: group_tasks_remove_task groups_remove_task del: fun_upd_apply)
    qed
  qed
  then show ?thesis using assms(1) by (simp add: gwf_def distinct_remove_task)
qed

lemma gwf_cong:
  "groups s = groups s' \<Longrightarrow> group_tasks s = group_tasks s' \<Longrightarrow> gwf m s = gwf m s'"
  by (simp add: gwf_def)

lemma merge_existing_simps [simp]:
  "tid (merge_existing now e t) = tid t"
  "group_id (merge_existing now e t) = group_id t"
  "created_at (merge_existing now e t) = created_at e"
  by (simp_all add: merge_existing_def Let_def)

lemma tc_wf_tid: "tc_wf s \<Longrightarrow> map_of (tasks s) i = Some t \<Longrightarrow> tid t = i"
  by (simp add: tc_wf_def)

lemma tc_wf_upsert [inv_pres]:
  assumes "tc_wf s"
  shows "tc_wf (upsert now s t)"
proof (cases "map_of (tasks s) (tid t)")
  case None
  define t' where "t' = t\<lparr>created_at := now, updated_at := now\<rparr>"
  have "tid t' = tid t" by (simp add: t'_def)
  then have "gwf ((map_of (tasks s))(tid t \<mapsto> t')) (apply_task_to_group_state s t')"
    using gwf_apply [of "map_of (tasks s)" s t'] assms None by (simp add: tc_wf_def)
  moreover have "map_of (AList.update (tid t) t' (tasks s)) = (map_of (tasks s))(tid t \<mapsto> t')"
    by (rule update_conv')
  moreover have "tid t \<notin> set (order s)" using assms None by (auto simp: tc_wf_def)
  ultimately show ?thesis
    using assms None \<open>tid t' = tid t\<close>
    by (auto simp: tc_wf_def upsert_def t'_def [symmetric] Let_def distinct_update
          simp del: map_of_update fun_upd_apply cong: gwf_cong) (auto split: if_splits)
next
  case (Some e)
  let ?p = "group_id e = group_id t"
  let ?s = "remove_task_from_group_state s e True ?p"
  let ?t = "merge_existing now e t"
  have e: "tid e = tid t" using assms Some by (rule tc_wf_tid)
  then have "gwf ((map_of (tasks s))(tid t := None)) ?s"
    using gwf_remove_task [of "map_of (tasks s)" s e] assms Some by (simp add: tc_wf_def)
  then have "gwf ((map_of (tasks s))(tid t \<mapsto> ?t)) (apply_task_to_group_state ?s ?t)"
    using gwf_apply [of "(map_of (tasks s))(tid t := None)" ?s ?t] by simp
  moreover have "map_of (AList.update (tid t) ?t (tasks s)) = (map_of (tasks s))(tid t \<mapsto> ?t)"
    by (rule update_conv')
  ultimately show ?thesis
    using assms Some
    by (auto simp: tc_wf_def upsert_def Let_def distinct_update
          simp del: map_of_update fun_upd_apply cong: gwf_cong) (auto split: if_splits)
qed

lemma gwf_empty: "gwf (\<lambda>_. None) s \<Longrightarrow> groups s' = [] \<Longrightarrow> group_tasks s' = [] \<Longrightarrow> gwf (\<lambda>_. None) s'"
  by (simp add: gwf_def ids_inv_def state_inv_def)

lemma tasks_remove: "map_of (tasks (remove s i)) = (map_of (tasks s))(i := None)"
proof (cases "map_of (tasks s) i")
  case None
  then show ?thesis by (simp add: remove_def fun_upd_idem)
next
  case (Some t)
  then show ?thesis by (simp add: remove_def Let_def delete_conv' [symmetric] del: fun_upd_apply)
qed

lemma order_remove: "tc_wf s \<Longrightarrow> order (remove s i) = remove1 i (order s)"
  by (cases "map_of (tasks s) i")
    (auto simp: remove_def Let_def tc_wf_def domIff intro!: remove1_idem [symmetric])

lemma tc_wf_remove [inv_pres]:
  assumes "tc_wf s"
  shows "tc_wf (remove s i)"
proof (cases "map_of (tasks s) i")
  case None
  then show ?thesis using assms by (simp add: remove_def)
next
  case (Some t)
  then have "tid t = i" by (rule tc_wf_tid [OF assms])
  then have g: "gwf ((map_of (tasks s))(i := None)) (remove_task_from_group_state s t False p)" for p
    using gwf_remove_task [of "map_of (tasks s)" s t] assms Some by (simp add: tc_wf_def)
  have "gwf ((map_of (tasks s))(i := None)) (remove s i)"
  proof (cases "AList.delete i (tasks s) = []")
    case True
    then have "(map_of (tasks s))(i := None) = (\<lambda>_. None)" by (metis delete_conv' map_of.simps(1))
    then show ?thesis using g [of True] Some True
      by (simp add: remove_def Let_def gwf_def ids_inv_def state_inv_def)
  next
    case False
    have "remove_task_from_group_state
        (s\<lparr>tasks := AList.delete i (tasks s), order := remove1 i (order s)\<rparr>) t False p =
      (remove_task_from_group_state s t False p)
        \<lparr>tasks := AList.delete i (tasks s), order := remove1 i (order s)\<rparr>" for p
      by (simp add: remove_task_from_group_state_def forget_in_group_def Let_def split: option.split)
    then show ?thesis using g [of "status t \<noteq> InProgress"] Some False
      by (simp add: remove_def Let_def cong: gwf_cong)
  qed
  moreover have "distinct (map fst (tasks (remove s i)))"
    using assms Some by (simp add: remove_def Let_def tc_wf_def distinct_delete)
  ultimately show ?thesis
    using assms tasks_remove [of s i] order_remove [OF assms, of i]
    by (auto simp: tc_wf_def split: if_splits)
qed

lemma tc_wf_foldl_remove [inv_pres]: "tc_wf s \<Longrightarrow> tc_wf (foldl remove s is)"
  by (induction "is" arbitrary: s) (auto intro: inv_pres)

lemma tasks_foldl_remove:
  "map_of (tasks (foldl remove s is)) = (\<lambda>i. if i \<in> set is then None else map_of (tasks s) i)"
  by (induction "is" arbitrary: s) (auto simp: tasks_remove fun_eq_iff)

lemma group_ids_iff:
  assumes "tc_wf s"
  shows "i \<in> set (group_task_ids s g) \<longleftrightarrow>
    (\<exists>t. map_of (tasks s) i = Some t \<and> group_id t = Some g)"
proof -
  have "ids_inv (map_of (tasks s)) g (map_of (group_tasks s) g)"
    using assms by (simp add: tc_wf_def gwf_def)
  then show ?thesis by (auto simp: group_task_ids_def ids_inv_def split: option.splits)
qed

definition drop_group :: "transfer_center_state \<Rightarrow> rstring \<Rightarrow> transfer_center_state" where
  "drop_group s g =
     s\<lparr>group_tasks := AList.delete g (group_tasks s), groups := AList.delete g (groups s)\<rparr>"

lemma remove_group_eq:
  "remove_group s g = drop_group (foldl remove s (group_task_ids s g)) g"
  by (simp add: remove_group_def drop_group_def Let_def)

lemma tc_wf_drop_group:
  assumes "tc_wf s" and "\<And>i t. map_of (tasks s) i = Some t \<Longrightarrow> group_id t \<noteq> Some g"
  shows "tc_wf (drop_group s g)"
proof -
  have "ids_inv (map_of (tasks s)) g None" "state_inv (map_of (tasks s)) g None"
    using assms(2) by (auto simp: ids_inv_def state_inv_def)
  then have "gwf (map_of (tasks s)) (drop_group s g)"
    using assms(1) by (auto simp: tc_wf_def gwf_def drop_group_def distinct_delete)
  then show ?thesis using assms(1) by (simp add: tc_wf_def drop_group_def)
qed

lemma tc_wf_remove_group [inv_pres]:
  assumes "tc_wf s"
  shows "tc_wf (remove_group s g)"
  unfolding remove_group_eq
proof (rule tc_wf_drop_group)
  fix i t
  assume "map_of (tasks (foldl remove s (group_task_ids s g))) i = Some t"
  then show "group_id t \<noteq> Some g"
    by (auto simp: tasks_foldl_remove group_ids_iff [OF assms] split: if_splits)
qed (rule tc_wf_foldl_remove [OF assms])

lemma tc_wf_remove_groups [inv_pres]: "tc_wf s \<Longrightarrow> tc_wf (remove_groups_with_prefix s p)"
proof -
  have "tc_wf s \<Longrightarrow> tc_wf (foldl remove_group s gs)" for gs
    by (induction gs arbitrary: s) (auto intro: inv_pres)
  then show "tc_wf s \<Longrightarrow> ?thesis" by (simp add: remove_groups_with_prefix_def)
qed

datatype tc_event =
    Upsert nat transfer_task
  | Remove rstring
  | RemoveGroup rstring
  | RemoveGroupsWithPrefix rstring

fun tc_step :: "transfer_center_state \<Rightarrow> tc_event \<Rightarrow> transfer_center_state" where
  "tc_step s (Upsert now t) = upsert now s t"
| "tc_step s (Remove i) = remove s i"
| "tc_step s (RemoveGroup g) = remove_group s g"
| "tc_step s (RemoveGroupsWithPrefix p) = remove_groups_with_prefix s p"

lemma tc_wf_step [inv_pres]: "tc_wf s \<Longrightarrow> tc_wf (tc_step s e)"
  by (cases e) (auto intro: inv_pres)

interpretation center: transition_system "\<lambda>s. s = center_default" tc_step tc_wf
  by unfold_locales (auto intro: inv_pres tc_wf_default)

section \<open>The list the view shows\<close>

text \<open>
  Abstractly the center is the list of tasks in the order they were first reported.
  \<open>list_step\<close> says what each operation does to that list, with no group bookkeeping;
  \<open>tasks_sorted\<close> maps a state to it.
\<close>

fun list_step :: "transfer_task list \<Rightarrow> tc_event \<Rightarrow> transfer_task list" where
  "list_step ts (Upsert now t) =
     (if tid t \<in> tid ` set ts
      then map (\<lambda>e. if tid e = tid t then merge_existing now e t else e) ts
      else ts @ [t\<lparr>created_at := now, updated_at := now\<rparr>])"
| "list_step ts (Remove i) = filter (\<lambda>t. tid t \<noteq> i) ts"
| "list_step ts (RemoveGroup g) = filter (\<lambda>t. group_id t \<noteq> Some g) ts"
| "list_step ts (RemoveGroupsWithPrefix p) =
     filter (\<lambda>t. case group_id t of None \<Rightarrow> True | Some g \<Rightarrow> \<not> starts_with p g) ts"

lemma map_filter_remove1: "m i = None \<Longrightarrow> List.map_filter m (remove1 i xs) = List.map_filter m xs"
  by (induction xs) (auto simp: map_filter_simps split: option.splits)

lemma map_filter_drop:
  assumes "\<And>i t. m i = Some t \<Longrightarrow> tid t = i"
  shows "List.map_filter (m(i := None)) xs = filter (\<lambda>t. tid t \<noteq> i) (List.map_filter m xs)"
proof (induction xs)
  case (Cons x xs)
  then show ?case by (cases "m x") (auto simp: map_filter_simps dest: assms)
qed (simp add: map_filter_simps)

lemma map_filter_upd:
  assumes "\<And>i t. m i = Some t \<Longrightarrow> tid t = i" and "m i = Some e"
  shows "List.map_filter (m(i \<mapsto> u)) xs =
    map (\<lambda>t. if tid t = i then u else t) (List.map_filter m xs)"
proof (induction xs)
  case (Cons x xs)
  show ?case
  proof (cases "m x")
    case None
    then have "x \<noteq> i" using assms(2) by auto
    then show ?thesis using Cons None by (simp add: map_filter_simps)
  next
    case (Some a)
    then have "tid a = x" by (rule assms(1))
    then show ?thesis using Cons Some by (simp add: map_filter_simps)
  qed
qed (simp add: map_filter_simps)

lemma map_filter_upd_other: "i \<notin> set xs \<Longrightarrow> List.map_filter (m(i := v)) xs = List.map_filter m xs"
  by (induction xs) (auto simp: map_filter_simps split: option.splits)

lemma map_filter_append: "List.map_filter m (xs @ ys) = List.map_filter m xs @ List.map_filter m ys"
  by (simp add: List.map_filter_def)

lemma tasks_sorted_mem:
  assumes "tc_wf s"
  shows "t \<in> set (tasks_sorted s) \<longleftrightarrow> map_of (tasks s) (tid t) = Some t"
proof -
  have "t \<in> set (List.map_filter m xs) \<longleftrightarrow> (\<exists>i \<in> set xs. m i = Some t)"
    for m :: "rstring \<rightharpoonup> transfer_task" and xs
    by (induction xs) (auto simp: map_filter_simps split: option.splits)
  then have "t \<in> set (tasks_sorted s) \<longleftrightarrow> (\<exists>i \<in> dom (map_of (tasks s)). map_of (tasks s) i = Some t)"
    using assms by (simp add: tasks_sorted_def tc_wf_def)
  also have "\<dots> \<longleftrightarrow> map_of (tasks s) (tid t) = Some t"
    using tc_wf_tid [OF assms] by blast
  finally show ?thesis .
qed

lemma tasks_sorted_ids:
  assumes "tc_wf s"
  shows "map tid (tasks_sorted s) = order s"
proof -
  have "map tid (List.map_filter m xs) = xs"
    if "set xs \<subseteq> dom m" "\<And>i t. m i = Some t \<Longrightarrow> tid t = i" for m :: "rstring \<rightharpoonup> transfer_task" and xs
    using that by (induction xs) (auto simp: map_filter_simps split: option.splits)
  then show ?thesis using assms by (simp add: tc_wf_def tasks_sorted_def)
qed

lemma tasks_sorted_remove:
  assumes "tc_wf s"
  shows "tasks_sorted (remove s i) = filter (\<lambda>t. tid t \<noteq> i) (tasks_sorted s)"
  unfolding tasks_sorted_def tasks_remove order_remove [OF assms]
  by (subst map_filter_remove1) (simp_all add: map_filter_drop tc_wf_tid [OF assms])

lemma tasks_sorted_foldl_remove:
  "tc_wf s \<Longrightarrow> tasks_sorted (foldl remove s is) = filter (\<lambda>t. tid t \<notin> set is) (tasks_sorted s)"
  by (induction "is" arbitrary: s) (auto simp: tasks_sorted_remove inv_pres intro!: filter_cong)

lemma tasks_sorted_remove_group:
  assumes "tc_wf s"
  shows "tasks_sorted (remove_group s g) = filter (\<lambda>t. group_id t \<noteq> Some g) (tasks_sorted s)"
proof -
  have "tasks_sorted (remove_group s g) = tasks_sorted (foldl remove s (group_task_ids s g))"
    by (simp add: remove_group_eq drop_group_def tasks_sorted_def)
  then show ?thesis
    by (auto simp: tasks_sorted_foldl_remove [OF assms] group_ids_iff [OF assms]
          tasks_sorted_mem [OF assms] intro!: filter_cong)
qed

lemma tasks_sorted_remove_groups:
  "tc_wf s \<Longrightarrow> tasks_sorted (foldl remove_group s gs) =
     filter (\<lambda>t. group_id t \<notin> Some ` set gs) (tasks_sorted s)"
  by (induction gs arbitrary: s) (auto simp: tasks_sorted_remove_group inv_pres intro!: filter_cong)

lemma set_groups_with_prefix:
  "set (groups_with_prefix s p) =
     {g. starts_with p g \<and> g \<in> dom (map_of (group_tasks s)) \<union> dom (map_of (groups s))}"
proof -
  have "set (foldl (\<lambda>ids g. if g \<in> set ids then ids else ids @ [g]) xs ys) = set xs \<union> set ys"
    for xs ys :: "rstring list"
    by (induction ys arbitrary: xs) auto
  then show ?thesis by (auto simp: groups_with_prefix_def dom_map_of_conv_image_fst)
qed

lemma tasks_sorted_upsert:
  assumes "tc_wf s"
  shows "tasks_sorted (upsert now s t) = list_step (tasks_sorted s) (Upsert now t)"
proof (cases "map_of (tasks s) (tid t)")
  case None
  then have new: "tid t \<notin> set (order s)" using assms by (auto simp: tc_wf_def)
  then have "tid t \<notin> tid ` set (tasks_sorted s)"
    using tasks_sorted_ids [OF assms] by (metis list.set_map)
  moreover have "tasks_sorted (upsert now s t) =
      tasks_sorted s @ [t\<lparr>created_at := now, updated_at := now\<rparr>]"
    using None new
    by (simp add: tasks_sorted_def upsert_def Let_def update_conv' map_filter_append
          map_filter_upd_other map_filter_simps del: map_of_update)
  ultimately show ?thesis by simp
next
  case (Some e)
  then have "tid t \<in> set (order s)" using assms by (auto simp: tc_wf_def)
  then have "tid t \<in> tid ` set (tasks_sorted s)"
    using tasks_sorted_ids [OF assms] by (metis list.set_map)
  moreover have "x = e" if "x \<in> set (tasks_sorted s)" "tid x = tid t" for x
    using that Some by (simp add: tasks_sorted_mem [OF assms])
  moreover have "tasks_sorted (upsert now s t) =
      map (\<lambda>x. if tid x = tid t then merge_existing now e t else x) (tasks_sorted s)"
    unfolding tasks_sorted_def
    by (subst map_filter_upd [symmetric, of "map_of (tasks s)", OF tc_wf_tid [OF assms] Some])
      (simp_all add: upsert_def Some Let_def update_conv' del: fun_upd_apply map_of_update)
  ultimately show ?thesis by (auto intro!: map_cong)
qed

lemma tasks_sorted_step:
  assumes "tc_wf s"
  shows "tasks_sorted (tc_step s e) = list_step (tasks_sorted s) e"
proof (cases e)
  case (RemoveGroupsWithPrefix p)
  have "group_id t \<in> Some ` set (groups_with_prefix s p) \<longleftrightarrow>
      (\<exists>g. group_id t = Some g \<and> starts_with p g)" if "t \<in> set (tasks_sorted s)" for t
  proof -
    have "map_of (group_tasks s) g \<noteq> None" if g: "group_id t = Some g" for g
    proof -
      have "tid t \<in> set (group_task_ids s g)"
        using \<open>t \<in> set (tasks_sorted s)\<close> g by (simp add: tasks_sorted_mem [OF assms] group_ids_iff [OF assms])
      then show ?thesis by (cases "map_of (group_tasks s) g") (simp_all add: group_task_ids_def)
    qed
    then show ?thesis by (auto simp: set_groups_with_prefix)
  qed
  then show ?thesis
    by (auto simp: RemoveGroupsWithPrefix remove_groups_with_prefix_def
          tasks_sorted_remove_groups [OF assms] intro!: filter_cong split: option.splits)
qed (use assms in \<open>simp_all add: tasks_sorted_upsert tasks_sorted_remove tasks_sorted_remove_group
       del: list_step.simps(1)\<close>)

section \<open>Summaries\<close>

text \<open>The pairs of byte counts a summary adds up.\<close>

definition counted :: "transfer_center_state \<Rightarrow> (64 word \<times> 64 word) list" where
  "counted s =
     concat (map (map snd \<circ> g_bytes \<circ> snd) (groups s)) @
     List.map_filter
       (\<lambda>t. case (group_id t, bytes_done t, bytes_total t) of
              (None, Some d, Some n) \<Rightarrow> if n > 0 then Some (d, n) else None
            | _ \<Rightarrow> None)
       (map snd (tasks s))"

definition sums :: "(64 word \<times> 64 word) list \<Rightarrow> 64 word \<times> 64 word" where
  "sums ps = (sum_list (map (\<lambda>(d, n). min d n) ps), sum_list (map snd ps))"

lemma sums_simps [simp]:
  "sums [] = (0, 0)"
  "sums (p # ps) = (min (fst p) (snd p) + fst (sums ps), snd p + snd (sums ps))"
  "fst (sums (ps @ qs)) = fst (sums ps) + fst (sums qs)"
  "snd (sums (ps @ qs)) = snd (sums ps) + snd (sums qs)"
  by (simp_all add: sums_def split_def)

lemma foldl_add_bytes:
  "s_done (foldl add_bytes sm ps) = s_done sm"
  "s_total (foldl add_bytes sm ps) = s_total sm"
  "s_bytes_done (foldl add_bytes sm ps) = s_bytes_done sm + fst (sums ps)"
  "s_bytes_total (foldl add_bytes sm ps) = s_bytes_total sm + snd (sums ps)"
  by (induction ps arbitrary: sm) (auto simp: add_bytes_def)

lemma foldl_summary_add:
  "s_done (foldl summary_add sm xs) = s_done sm + sum_list (map s_done xs)"
  "s_total (foldl summary_add sm xs) = s_total sm + sum_list (map s_total xs)"
  "s_bytes_done (foldl summary_add sm xs) = s_bytes_done sm + sum_list (map s_bytes_done xs)"
  "s_bytes_total (foldl summary_add sm xs) = s_bytes_total sm + sum_list (map s_bytes_total xs)"
  by (induction xs arbitrary: sm) (auto simp: summary_add_def)

definition task_pair :: "transfer_task \<Rightarrow> (64 word \<times> 64 word) option" where
  "task_pair t = (case (bytes_done t, bytes_total t) of
     (Some d, Some n) \<Rightarrow> if n > 0 then Some (d, n) else None | _ \<Rightarrow> None)"

lemma add_task_simps:
  "s_done (add_task sm t) = s_done sm + (if status t = Finished then 1 else 0)"
  "s_total (add_task sm t) = s_total sm + 1"
  "s_bytes_done (add_task sm t) = s_bytes_done sm +
     (case task_pair t of None \<Rightarrow> 0 | Some p \<Rightarrow> min (fst p) (snd p))"
  "s_bytes_total (add_task sm t) = s_bytes_total sm + (case task_pair t of None \<Rightarrow> 0 | Some p \<Rightarrow> snd p)"
  by (auto simp: add_task_def task_pair_def add_bytes_def Let_def split: option.splits)

lemma foldl_add_task:
  "s_done (foldl add_task sm ts) = s_done sm + length (filter (\<lambda>t. status t = Finished) ts)"
  "s_total (foldl add_task sm ts) = s_total sm + length ts"
  "s_bytes_done (foldl add_task sm ts) = s_bytes_done sm + fst (sums (List.map_filter task_pair ts))"
  "s_bytes_total (foldl add_task sm ts) = s_bytes_total sm + snd (sums (List.map_filter task_pair ts))"
  by (induction ts arbitrary: sm) (auto simp: add_task_simps map_filter_simps split: option.splits)

lemma summary_counts:
  "s_done (summary s) =
     sum_list (map (\<lambda>(_, g). min (length (completed g)) (g_total g)) (groups s)) +
     length (filter (\<lambda>t. group_id t = None \<and> status t = Finished) (map snd (tasks s)))"
  "s_total (summary s) =
     sum_list (map (g_total \<circ> snd) (groups s)) +
     length (filter (\<lambda>t. group_id t = None) (map snd (tasks s)))"
  by (simp_all add: summary_def Let_def foldl_add_task foldl_summary_add group_summary_def
        foldl_add_bytes summary_default_def comp_def split_def conj_commute)

lemma summary_bytes:
  "(s_bytes_done (summary s), s_bytes_total (summary s)) = sums (counted s)"
proof -
  have groups: "sum_list (map (\<lambda>x. fst (sums (map snd (g_bytes (snd x))))) gs) =
      fst (sums (concat (map (map snd \<circ> g_bytes \<circ> snd) gs)))"
    "sum_list (map (\<lambda>x. snd (sums (map snd (g_bytes (snd x))))) gs) =
      snd (sums (concat (map (map snd \<circ> g_bytes \<circ> snd) gs)))" for gs :: "(rstring \<times> transfer_group_state) list"
    by (induction gs) auto
  have tasks: "List.map_filter task_pair (filter (\<lambda>t. group_id t = None) ts) =
      List.map_filter (\<lambda>t. case (group_id t, bytes_done t, bytes_total t) of
              (None, Some d, Some n) \<Rightarrow> if n > 0 then Some (d, n) else None
            | _ \<Rightarrow> None) ts" for ts
    by (induction ts) (auto simp: map_filter_simps task_pair_def split: option.splits)
  show ?thesis
    by (simp add: prod_eq_iff counted_def summary_def Let_def foldl_add_task foldl_summary_add
          group_summary_def foldl_add_bytes summary_default_def comp_def groups [unfolded comp_def]
          tasks)
qed

lemma sums_le:
  assumes "sum_list (map (\<lambda>(_, n). unat n) ps) < 2 ^ 64"
  shows "unat (fst (sums ps)) \<le> unat (snd (sums ps)) \<and>
    unat (snd (sums ps)) = sum_list (map (\<lambda>(_, n). unat n) ps)"
  using assms
proof (induction ps)
  case (Cons p ps)
  obtain d n where p: "p = (d, n)" by (cases p)
  have IH: "unat (fst (sums ps)) \<le> unat (snd (sums ps))"
    "unat (snd (sums ps)) = sum_list (map (\<lambda>(_, n). unat n) ps)"
    using Cons p by auto
  have "unat n + unat (snd (sums ps)) < 2 ^ 64" using Cons.prems p IH by simp
  moreover have "unat (min d n) \<le> unat n" by (simp add: word_le_nat_alt [symmetric])
  ultimately have "unat (min d n + fst (sums ps)) = unat (min d n) + unat (fst (sums ps))"
    "unat (n + snd (sums ps)) = unat n + unat (snd (sums ps))"
    using IH(1) by (simp_all add: unat_word_ariths)
  then show ?case using IH p \<open>unat (min d n) \<le> unat n\<close> by simp
qed simp

section \<open>Properties\<close>

text \<open>C28:
  Whatever sequence of \<open>upsert\<close>, \<open>remove\<close>, \<open>remove_group\<close> and \<open>remove_groups_with_prefix\<close>
  calls the program makes, the transfer center's four collections stay consistent: every
  task is listed once, \<open>group_tasks\<close> holds exactly the tasks of each group and no empty set,
  a group with tasks has a state that counts each ended task and whose total covers it.\<close>

theorem transfer_center_invariant: "tc_wf (foldl tc_step center_default es)"
  by (rule center.run_inv) (rule refl)

text \<open>C29:
  The list the view shows (\<open>tasks_sorted\<close>) behaves as an ordered list keyed by task id: an
  \<open>upsert\<close> replaces the entry in place, keeping its creation time and, within the same group,
  its byte counts, or appends a new one; \<open>remove\<close> drops the id, \<open>remove_group\<close> exactly the
  tasks of the group, \<open>remove_groups_with_prefix\<close> exactly those whose group has the prefix.\<close>

theorem transfer_list_refines:
  "tasks_sorted (foldl tc_step center_default es) = foldl list_step [] es"
proof (induction es rule: rev_induct)
  case Nil
  show ?case by (simp add: tasks_sorted_def center_default_def map_filter_simps)
next
  case (snoc e es)
  have "tc_wf (foldl tc_step center_default es)"
    by (rule center.run_inv) (rule refl)
  then show ?case using snoc by (simp add: tasks_sorted_step del: list_step.simps)
qed

text \<open>The foot-bar summary never reports more finished items than items, and as long as the byte
  totals fit in a \<open>u64\<close> it reports the exact total and no more bytes done than that.\<close>

theorem transfer_summary_bounds:
  assumes "sum_list (map (\<lambda>(_, n). unat n) (counted s)) < 2 ^ 64"
  shows "s_done (summary s) \<le> s_total (summary s) \<and>
    s_bytes_done (summary s) \<le> s_bytes_total (summary s) \<and>
    unat (s_bytes_total (summary s)) = sum_list (map (\<lambda>(_, n). unat n) (counted s))"
proof -
  have groups: "sum_list (map (\<lambda>(_, g). min (length (completed g)) (g_total g)) gs) \<le>
      sum_list (map (g_total \<circ> snd) gs)" for gs :: "(rstring \<times> transfer_group_state) list"
    by (induction gs) auto
  have "length (filter (\<lambda>t. group_id t = None \<and> status t = Finished) ts) \<le>
      length (filter (\<lambda>t. group_id t = None) ts)" for ts
    by (induction ts) auto
  from add_mono [OF groups this] have "s_done (summary s) \<le> s_total (summary s)"
    unfolding summary_counts .
  moreover from sums_le [OF assms] have "unat (s_bytes_done (summary s)) \<le> unat (s_bytes_total (summary s))"
    "unat (s_bytes_total (summary s)) = sum_list (map (\<lambda>(_, n). unat n) (counted s))"
    by (simp_all add: summary_bytes [symmetric])
  ultimately show ?thesis by (simp add: word_le_nat_alt)
qed

text \<open>Dismissing a task that has ended (as the auto-dismiss timer does) leaves its group's
  counters alone, so the group's done/total stay stable, while other tasks are listed;
  dismissing the last task clears all groups.\<close>

theorem dismissal_keeps_group_counts:
  assumes "tc_wf s" and "map_of (tasks s) i = Some t" and "status t \<noteq> InProgress"
  shows "map_of (groups (remove s i)) =
      (if tasks_sorted (remove s i) = [] then (\<lambda>_. None) else map_of (groups s))"
proof -
  have "tasks_sorted (remove s i) = [] \<longleftrightarrow> AList.delete i (tasks s) = []"
  proof -
    have "tc_wf (remove s i)" by (rule tc_wf_remove [OF assms(1)])
    then have "tasks_sorted (remove s i) = [] \<longleftrightarrow> tasks (remove s i) = []"
      using tasks_sorted_ids [of "remove s i"] by (cases "tasks (remove s i)") (auto simp: tc_wf_def)
    then show ?thesis using assms(2) by (simp add: remove_def Let_def)
  qed
  moreover have "forget_task t False = (\<lambda>x. x)"
    using assms(3) by (simp add: forget_task_def fun_eq_iff)
  ultimately show ?thesis using assms(2,3)
    by (intro ext) (auto simp: remove_def Let_def groups_remove_task option.map_ident)
qed

section \<open>Examples\<close>

definition demo_upload :: "rstring \<Rightarrow> transfer_status \<Rightarrow> transfer_task" where
  "demo_upload i st =
     with_bytes (with_status (with_group (new_task 0 i i) (rs ''g'') (Some 2)) st) (Some 5) (Some 9)"

definition demo_center :: transfer_center_state where
  "demo_center = foldl tc_step center_default
     [Upsert 1 (demo_upload (rs ''a'') Finished), Upsert 2 (demo_upload (rs ''b'') InProgress)]"

lemmas center_eval = demo_center_def demo_upload_def new_task_def with_bytes_def with_status_def
  with_group_def center_default_def upsert_def apply_task_to_group_state_def
  apply_task_to_group_def group_default_def rs_def of_char_def Let_def

lemma transfer_summary_bounds_witness:
  "s_bytes_done (summary demo_center) \<le> s_bytes_total (summary demo_center) \<and>
   summary demo_center =
     \<lparr> s_done = 1, s_total = 2, s_bytes_done = 10, s_bytes_total = 18 \<rparr>"
proof
  have "sum_list (map (\<lambda>(_, n). unat n) (counted demo_center)) < 2 ^ 64"
    by (simp add: center_eval counted_def map_filter_simps)
  then show "s_bytes_done (summary demo_center) \<le> s_bytes_total (summary demo_center)"
    using transfer_summary_bounds by blast
  show "summary demo_center =
     \<lparr> s_done = 1, s_total = 2, s_bytes_done = 10, s_bytes_total = 18 \<rparr>"
    by (simp add: center_eval summary_def summary_default_def summary_add_def group_summary_def
          add_bytes_def)
qed

lemma dismissal_keeps_group_counts_witness:
  "map_of (groups (remove demo_center (rs ''a''))) = map_of (groups demo_center) \<and>
   map_option completed (map_of (groups demo_center) (rs ''g'')) = Some [rs ''a'']"
proof
  have "tc_wf demo_center" unfolding demo_center_def by (rule center.run_inv) (rule refl)
  moreover have "map_of (tasks demo_center) (rs ''a'') =
      Some ((demo_upload (rs ''a'') Finished)\<lparr>created_at := 1, updated_at := 1\<rparr>)"
    by (simp add: center_eval)
  moreover have "tasks_sorted (remove demo_center (rs ''a'')) \<noteq> []"
    using \<open>tc_wf demo_center\<close> by (simp add: tasks_sorted_remove) (simp add: center_eval tasks_sorted_def map_filter_simps)
  ultimately show "map_of (groups (remove demo_center (rs ''a''))) = map_of (groups demo_center)"
    using dismissal_keeps_group_counts [of demo_center "rs ''a''"] by (simp add: demo_upload_def with_bytes_def with_status_def)
  show "map_option completed (map_of (groups demo_center) (rs ''g'')) = Some [rs ''a'']"
    by (simp add: center_eval)
qed

end
