(* ===== verification/PermitPool.thy ===== *)
theory PermitPool
  imports Prelude
begin

text \<open>
  The permit pool that caps concurrent SFTP uploads (\<open>crates/gpui_common/src/limiter.rs\<close>).
  Every method of the pool runs under one mutex, so the concurrent program is a sequence of
  atomic steps: an \<open>acquire\<close> call taking a permit or queueing a one-shot channel, its
  \<open>recv\<close>, the cancellation of a waiting future, the drop of a permit, and \<open>set_max\<close>.
  The code's state is \<open>pool_state\<close>; \<open>phase\<close> is what the tasks outside it are doing, which
  decides whether \<open>try_send\<close> on a queued channel succeeds (its receiver is alive).
\<close>

section \<open>State\<close>

text \<open>\<open>Leaked\<close>: a future that was granted a permit and dropped before it could receive it.\<close>

datatype phase = Idle | Waiting | Granted | Holding | Abandoned | Leaked

record pool_state =
  max_permits :: nat
  inflight :: nat
  waiters :: "nat list"

record world = pool_state +
  phase :: "nat \<Rightarrow> phase"

definition clamp :: "nat \<Rightarrow> nat \<Rightarrow> nat \<Rightarrow> nat" where
  "clamp lo hi x = max lo (min hi x)"

definition pool_new :: "nat \<Rightarrow> world" where
  "pool_new m =
     \<lparr> max_permits = clamp 1 15 m, inflight = 0, waiters = [], phase = (\<lambda>_. Idle) \<rparr>"

section \<open>Operations\<close>

text \<open>
  \<open>grant_waiters\<close>: the loop pops a channel while permits are free; \<open>try_send\<close> succeeds
  exactly when the waiting future still holds the receiver.
\<close>

fun grant_loop :: "nat \<Rightarrow> nat \<Rightarrow> nat list \<Rightarrow> (nat \<Rightarrow> phase) \<Rightarrow> nat \<times> nat list \<times> (nat \<Rightarrow> phase)" where
  "grant_loop m n [] ph = (n, [], ph)"
| "grant_loop m n (i # ws) ph =
     (if n < m
      then (if ph i = Waiting then grant_loop m (n + 1) ws (ph(i := Granted))
            else grant_loop m n ws ph)
      else (n, i # ws, ph))"

definition grant_waiters :: "world \<Rightarrow> world" where
  "grant_waiters w =
     (case grant_loop (max_permits w) (inflight w) (waiters w) (phase w) of
        (n, ws, ph) \<Rightarrow> w\<lparr>inflight := n, waiters := ws, phase := ph\<rparr>)"

definition set_max :: "world \<Rightarrow> nat \<Rightarrow> world" where
  "set_max w m =
     (let m = clamp 1 15 m
      in if max_permits w = m then w else grant_waiters (w\<lparr>max_permits := m\<rparr>))"

definition acquire_start :: "world \<Rightarrow> nat \<Rightarrow> world" where
  "acquire_start w i =
     (if inflight w < max_permits w
      then w\<lparr>inflight := inflight w + 1, phase := (phase w)(i := Holding)\<rparr>
      else w\<lparr>waiters := waiters w @ [i], phase := (phase w)(i := Waiting)\<rparr>)"

definition drop_permit :: "world \<Rightarrow> nat \<Rightarrow> world" where
  "drop_permit w i =
     grant_waiters (w\<lparr>inflight := inflight w - 1, phase := (phase w)(i := Abandoned)\<rparr>)"

text \<open>
  The steps of the system. A waiting \<open>acquire\<close> completes when it receives its grant; its
  future may be dropped at any await point. An id names one call of \<open>acquire\<close>.
\<close>

datatype pool_event = Acquire nat | Recv nat | Cancel nat | Drop nat | SetMax nat

inductive pool_step :: "world \<Rightarrow> pool_event \<Rightarrow> world \<Rightarrow> bool" where
  step_acquire: "phase w i = Idle \<Longrightarrow> pool_step w (Acquire i) (acquire_start w i)"
| step_recv: "phase w i = Granted \<Longrightarrow> pool_step w (Recv i) (w\<lparr>phase := (phase w)(i := Holding)\<rparr>)"
| step_cancel_waiting: "phase w i = Waiting \<Longrightarrow>
    pool_step w (Cancel i) (w\<lparr>phase := (phase w)(i := Abandoned)\<rparr>)"
| step_cancel_granted: "phase w i = Granted \<Longrightarrow>
    pool_step w (Cancel i) (w\<lparr>phase := (phase w)(i := Leaked)\<rparr>)"
| step_drop: "phase w i = Holding \<Longrightarrow> pool_step w (Drop i) (drop_permit w i)"
| step_set_max: "pool_step w (SetMax m) (set_max w m)"

inductive_cases pool_stepE: "pool_step w e w'"
inductive_simps pool_step_acquire [simp]: "pool_step w (Acquire i) w'"
inductive_simps pool_step_recv [simp]: "pool_step w (Recv i) w'"
inductive_simps pool_step_cancel [simp]: "pool_step w (Cancel i) w'"
inductive_simps pool_step_drop [simp]: "pool_step w (Drop i) w'"
inductive_simps pool_step_set_max [simp]: "pool_step w (SetMax m) w'"

inductive pool_run :: "world \<Rightarrow> pool_event list \<Rightarrow> world \<Rightarrow> bool" where
  run_nil: "pool_run w [] w"
| run_snoc: "pool_run w es w' \<Longrightarrow> pool_step w' e w'' \<Longrightarrow> pool_run w (es @ [e]) w''"

text \<open>The application keeps one pool as a global; the settings resize or create it.\<close>

definition sftp_upload_permit_pool_in_app :: "world option \<Rightarrow> world option \<times> world" where
  "sftp_upload_permit_pool_in_app g =
     (case g of Some p \<Rightarrow> (g, p) | None \<Rightarrow> (let p = pool_new 5 in (Some p, p)))"

definition set_sftp_upload_permit_pool_max_in_app ::
  "world option \<Rightarrow> nat \<Rightarrow> world option \<times> world" where
  "set_sftp_upload_permit_pool_max_in_app g m =
     (let m = clamp 1 15 m
      in case g of
           None \<Rightarrow> (let p = pool_new m in (Some p, p))
         | Some p \<Rightarrow> (let p = set_max p m in (Some p, p)))"

section \<open>Invariant\<close>

definition taken_permits :: "(nat \<Rightarrow> phase) \<Rightarrow> nat set" where
  "taken_permits ph = {i. ph i \<in> {Granted, Holding, Leaked}}"

definition pool_wf :: "world \<Rightarrow> bool" where
  "pool_wf w \<longleftrightarrow>
     1 \<le> max_permits w \<and> max_permits w \<le> 15 \<and>
     finite (taken_permits (phase w)) \<and> inflight w = card (taken_permits (phase w)) \<and>
     distinct (waiters w) \<and>
     (\<forall>i \<in> set (waiters w). phase w i \<in> {Waiting, Abandoned}) \<and>
     (\<forall>i. phase w i = Waiting \<longrightarrow> i \<in> set (waiters w)) \<and>
     (waiters w \<noteq> [] \<longrightarrow> max_permits w \<le> inflight w)"

text \<open>The same without the last clause: what holds just before \<open>grant_waiters\<close> runs.\<close>

definition pool_pre :: "nat \<Rightarrow> nat list \<Rightarrow> (nat \<Rightarrow> phase) \<Rightarrow> bool" where
  "pool_pre n ws ph \<longleftrightarrow>
     finite (taken_permits ph) \<and> n = card (taken_permits ph) \<and> distinct ws \<and>
     (\<forall>i \<in> set ws. ph i \<in> {Waiting, Abandoned}) \<and> (\<forall>i. ph i = Waiting \<longrightarrow> i \<in> set ws)"

lemma pool_wf_iff:
  "pool_wf w \<longleftrightarrow> 1 \<le> max_permits w \<and> max_permits w \<le> 15 \<and>
     pool_pre (inflight w) (waiters w) (phase w) \<and>
     (waiters w \<noteq> [] \<longrightarrow> max_permits w \<le> inflight w)"
  by (auto simp: pool_wf_def pool_pre_def)

lemma taken_permits_upd:
  "taken_permits (ph(i := p)) =
     (if p \<in> {Granted, Holding, Leaked} then insert i (taken_permits ph) else taken_permits ph - {i})"
  by (auto simp: taken_permits_def)

lemma grant_loop_pre:
  "pool_pre n ws ph \<Longrightarrow> grant_loop m n ws ph = (n', ws', ph') \<Longrightarrow>
     pool_pre n' ws' ph' \<and> (ws' \<noteq> [] \<longrightarrow> m \<le> n')"
proof (induction m n ws ph rule: grant_loop.induct)
  case (2 m n i ws ph)
  have "pool_pre (n + 1) ws (ph(i := Granted))" if "ph i = Waiting"
    using "2.prems"(1) that
    by (auto simp: pool_pre_def taken_permits_upd) (auto simp: taken_permits_def)
  moreover have "pool_pre n ws ph" if "ph i \<noteq> Waiting"
    using "2.prems"(1) that by (auto simp: pool_pre_def)
  ultimately show ?case
    using 2 by (simp del: fun_upd_apply split: if_splits)
qed auto

lemma grant_waiters_wf:
  assumes "1 \<le> max_permits w" "max_permits w \<le> 15" "pool_pre (inflight w) (waiters w) (phase w)"
  shows "pool_wf (grant_waiters w)"
  using assms grant_loop_pre [OF assms(3)]
  by (auto simp: grant_waiters_def pool_wf_iff split: prod.split)

lemma pool_new_wf: "pool_wf (pool_new m)"
  by (simp add: pool_new_def pool_wf_def clamp_def taken_permits_def)

lemma set_max_wf: "pool_wf w \<Longrightarrow> pool_wf (set_max w m)"
  using grant_waiters_wf [of "w\<lparr>max_permits := clamp 1 15 m\<rparr>"]
  by (simp add: set_max_def Let_def clamp_def) (simp add: pool_wf_iff)

lemma drop_permit_wf:
  assumes "pool_wf w" and "phase w i = Holding"
  shows "pool_wf (drop_permit w i)"
proof -
  have "i \<in> taken_permits (phase w)" using assms(2) by (simp add: taken_permits_def)
  then have "pool_pre (inflight w - 1) (waiters w) ((phase w)(i := Abandoned))"
    using assms by (auto simp: pool_wf_def pool_pre_def taken_permits_upd)
  then show ?thesis
    using assms(1)
      grant_waiters_wf [of "w\<lparr>inflight := inflight w - 1, phase := (phase w)(i := Abandoned)\<rparr>"]
    by (simp add: drop_permit_def pool_wf_iff del: fun_upd_apply)
qed

lemma acquire_start_wf:
  assumes "pool_wf w" and "phase w i = Idle"
  shows "pool_wf (acquire_start w i)"
proof -
  have "i \<notin> taken_permits (phase w)" using assms(2) by (simp add: taken_permits_def)
  moreover have "i \<notin> set (waiters w)" using assms by (auto simp: pool_wf_def)
  ultimately show ?thesis
    using assms(1) by (auto simp: pool_wf_def acquire_start_def taken_permits_upd)
qed

lemma cancel_wf:
  assumes "pool_wf w" and "phase w i = Waiting"
  shows "pool_wf (w\<lparr>phase := (phase w)(i := Abandoned)\<rparr>)"
proof -
  have "i \<notin> taken_permits (phase w)" using assms(2) by (simp add: taken_permits_def)
  then show ?thesis using assms by (auto simp: pool_wf_def taken_permits_upd)
qed

lemma granted_moves_wf:
  assumes "pool_wf w" and "phase w i = Granted" and "p \<in> {Holding, Leaked}"
  shows "pool_wf (w\<lparr>phase := (phase w)(i := p)\<rparr>)"
proof -
  have "i \<in> taken_permits (phase w)" using assms(2) by (simp add: taken_permits_def)
  moreover have "i \<notin> set (waiters w)" using assms(1,2) by (auto simp: pool_wf_def)
  ultimately show ?thesis
    using assms by (auto simp: pool_wf_def taken_permits_upd insert_absorb)
qed

lemma pool_step_wf: "pool_step w e w' \<Longrightarrow> pool_wf w \<Longrightarrow> pool_wf w'"
  by (induction rule: pool_step.induct)
    (auto intro: acquire_start_wf drop_permit_wf cancel_wf granted_moves_wf set_max_wf)

lemma pool_run_wf: "pool_run w es w' \<Longrightarrow> pool_wf w \<Longrightarrow> pool_wf w'"
  by (induction rule: pool_run.induct) (auto intro: pool_step_wf)

subsection \<open>Who is granted\<close>

text \<open>The live futures of the queue, in arrival order.\<close>

definition live_waiters :: "world \<Rightarrow> nat list" where
  "live_waiters w = filter (\<lambda>i. phase w i = Waiting) (waiters w)"

lemma grant_loop_spec:
  "distinct ws \<Longrightarrow> grant_loop m n ws ph = (n', ws', ph') \<Longrightarrow>
     (let gs = take (m - n) (filter (\<lambda>i. ph i = Waiting) ws)
      in n' = n + length gs \<and> ph' = (\<lambda>i. if i \<in> set gs then Granted else ph i) \<and>
         (\<exists>pre. ws = pre @ ws'))"
proof (induction m n ws ph rule: grant_loop.induct)
  case (2 m n i ws ph)
  show ?case
  proof (cases "n < m \<and> ph i = Waiting")
    case True
    then obtain k where k: "m - n = Suc k" "m - (n + 1) = k" by (cases "m - n") auto
    have "filter (\<lambda>j. (ph(i := Granted)) j = Waiting) ws = filter (\<lambda>j. ph j = Waiting) ws"
      using "2.prems"(1) by (auto intro!: filter_cong)
    then have IH: "n' = n + 1 + length (take k (filter (\<lambda>j. ph j = Waiting) ws))"
      "ph' = (\<lambda>j. if j \<in> set (take k (filter (\<lambda>j. ph j = Waiting) ws)) then Granted
                   else (ph(i := Granted)) j)"
      "\<exists>pre. ws = pre @ ws'"
      using "2.IH"(1) "2.prems" True k(2) by (simp_all add: Let_def del: fun_upd_apply)
    from IH(3) have "\<exists>pre. i # ws = pre @ ws'" by (metis append_Cons)
    then show ?thesis
      using IH(1,2) True k(1) by (simp add: Let_def fun_eq_iff)
  next
    case False
    have "\<exists>pre. i # ws = pre @ xs" if "\<exists>pre. ws = pre @ xs" for xs
      using that by (metis append_Cons)
    then show ?thesis using 2 False
      by (cases "n < m") (auto simp: Let_def fun_eq_iff split: if_splits)
  qed
qed (simp add: Let_def)

lemma grant_waiters_phase:
  assumes "distinct (waiters w)"
  shows "phase (grant_waiters w) =
      (\<lambda>i. if i \<in> set (take (max_permits w - inflight w) (live_waiters w)) then Granted else phase w i)"
    and "inflight (grant_waiters w) =
      inflight w + length (take (max_permits w - inflight w) (live_waiters w))"
    and "max_permits (grant_waiters w) = max_permits w"
  using grant_loop_spec [OF assms, of "max_permits w" "inflight w" "phase w"]
  by (auto simp: grant_waiters_def live_waiters_def Let_def split: prod.split)

section \<open>Properties\<close>

text \<open>C30: In every reachable state of the permit pool the counter \<open>inflight\<close> is the number of permits that are out:
  those held, those handed to a future that has yet to see its own, and those handed to a future that was dropped
  before it did, which stay out for good. A future waits only while all permits are out, with its channel in the
  queue; the limit is between 1 and 15.\<close>

theorem permit_pool_invariant:
  assumes "pool_run (pool_new m) es w"
  shows "inflight w = card (taken_permits (phase w)) \<and>
    (\<forall>i. phase w i = Waiting \<longrightarrow> i \<in> set (waiters w) \<and> max_permits w \<le> inflight w) \<and>
    1 \<le> max_permits w \<and> max_permits w \<le> 15"
proof -
  have "pool_wf w" using pool_run_wf [OF assms pool_new_wf] .
  then show ?thesis by (auto simp: pool_wf_def)
qed

text \<open>No step hands out a permit beyond the limit in force: a step that raises the number of
  permits in use leaves it at most \<open>max\<close> (lowering \<open>max\<close> never revokes one).\<close>

theorem permits_never_exceed_max:
  assumes "pool_wf w" and "pool_step w e w'" and "inflight w < inflight w'"
  shows "inflight w' \<le> max_permits w'"
  using assms(2)
proof cases
  case (step_drop i)
  have "distinct (waiters w)" using assms(1) by (simp add: pool_wf_def)
  then show ?thesis
    using assms(3) step_drop by (auto simp: drop_permit_def grant_waiters_phase min_def split: if_splits)
next
  case (step_set_max m)
  have "distinct (waiters w)" using assms(1) by (simp add: pool_wf_def)
  then show ?thesis
    using assms(3) step_set_max by (auto simp: set_max_def Let_def grant_waiters_phase split: if_splits)
qed (use assms(3) in \<open>auto simp: acquire_start_def split: if_splits\<close>)

text \<open>Permits go to waiting uploads in arrival order: dropping a permit grants exactly the first
  \<open>max - (inflight - 1)\<close> live waiters, skipping cancelled ones, and changes nobody else.\<close>

theorem permits_granted_in_order:
  assumes "pool_wf w" and "phase w i = Holding"
  shows "phase (drop_permit w i) =
    (\<lambda>j. if j \<in> set (take (max_permits w - (inflight w - 1)) (live_waiters w)) then Granted
         else if j = i then Abandoned else phase w j)"
proof -
  have "i \<notin> set (waiters w)" using assms by (auto simp: pool_wf_def)
  then have "live_waiters (w\<lparr>inflight := inflight w - 1, phase := (phase w)(i := Abandoned)\<rparr>) =
      live_waiters w"
    by (auto simp: live_waiters_def intro!: filter_cong)
  then show ?thesis using assms(1)
    by (auto simp: drop_permit_def pool_wf_def grant_waiters_phase fun_eq_iff)
qed

text \<open>
  A future dropped after it was granted a permit but before its \<open>recv\<close> completed never
  builds the guard that gives the permit back.
\<close>

definition all_leaked :: "world \<Rightarrow> bool" where
  "all_leaked w \<longleftrightarrow> max_permits w \<le> inflight w \<and> (\<forall>i. phase w i \<notin> {Granted, Holding})"

lemma all_leaked_step:
  "pool_step w e w' \<Longrightarrow> all_leaked w \<Longrightarrow> (\<forall>m. e \<noteq> SetMax m) \<Longrightarrow> all_leaked w'"
  by (induction rule: pool_step.induct) (auto simp: all_leaked_def acquire_start_def)

text \<open>C31: Once every permit is out for good (each granted future was dropped before its next poll), no upload ever
  starts again for as long as the limit is not changed: every later \<open>acquire\<close> waits for ever.\<close>

theorem leaked_permits_starve:
  assumes "pool_run w es w'" and "all_leaked w" and "\<forall>m. SetMax m \<notin> set es"
  shows "phase w' i \<notin> {Granted, Holding} \<and> max_permits w' \<le> inflight w'"
proof -
  have "all_leaked w'" using assms
    by (induction rule: pool_run.induct) (auto intro: all_leaked_step)
  then show ?thesis by (simp add: all_leaked_def)
qed

section \<open>Examples\<close>

text \<open>A pool of one permit: call 0 runs, call 1 queues and is granted when 0 ends.\<close>

definition busy_world :: world where
  "busy_world = \<lparr> max_permits = 1, inflight = 1, waiters = [1],
     phase = (\<lambda>_. Idle)(0 := Holding, 1 := Waiting) \<rparr>"

definition granted_world :: world where
  "granted_world = \<lparr> max_permits = 1, inflight = 1, waiters = [],
     phase = (\<lambda>_. Idle)(0 := Abandoned, 1 := Granted) \<rparr>"

definition leaked_world :: world where
  "leaked_world = \<lparr> max_permits = 1, inflight = 1, waiters = [],
     phase = (\<lambda>_. Idle)(0 := Abandoned, 1 := Leaked) \<rparr>"

definition starving_world :: world where
  "starving_world = \<lparr> max_permits = 1, inflight = 1, waiters = [2],
     phase = (\<lambda>_. Idle)(0 := Abandoned, 1 := Leaked, 2 := Waiting) \<rparr>"

lemma busy_step: "pool_step busy_world (Drop 0) granted_world"
  by (simp add: busy_world_def granted_world_def drop_permit_def grant_waiters_def)

lemma busy_run: "pool_run (pool_new 1) [Acquire 0, Acquire 1] busy_world"
proof -
  have "pool_run (pool_new 1) (([] @ [Acquire 0]) @ [Acquire 1]) busy_world"
    by (intro run_snoc [where w' = "acquire_start (pool_new 1) 0"]
          run_snoc [where w' = "pool_new 1"] run_nil)
      (auto simp: pool_new_def clamp_def acquire_start_def busy_world_def)
  then show ?thesis by simp
qed

lemma leaked_run: "pool_run (pool_new 1) [Acquire 0, Acquire 1, Drop 0, Cancel 1] leaked_world"
proof -
  have "pool_run (pool_new 1) (([Acquire 0, Acquire 1] @ [Drop 0]) @ [Cancel 1]) leaked_world"
    by (intro run_snoc [where w' = granted_world] run_snoc [where w' = busy_world] busy_run busy_step)
      (auto simp: granted_world_def leaked_world_def)
  then show ?thesis by simp
qed

lemma starving_run: "pool_run leaked_world [Acquire 2] starving_world"
proof -
  have "pool_run leaked_world ([] @ [Acquire 2]) starving_world"
    by (intro run_snoc [where w' = leaked_world] run_nil)
      (auto simp: leaked_world_def starving_world_def acquire_start_def)
  then show ?thesis by simp
qed

lemma permit_pool_invariant_witness:
  "inflight busy_world = card (taken_permits (phase busy_world)) \<and> phase busy_world 1 = Waiting"
  using permit_pool_invariant [OF busy_run] by (simp add: busy_world_def)

lemma permits_never_exceed_max_witness:
  "inflight (acquire_start (pool_new 1) 0) \<le> max_permits (acquire_start (pool_new 1) 0)"
  using permits_never_exceed_max [OF pool_new_wf, of 1 "Acquire 0" "acquire_start (pool_new 1) 0"]
  by (simp add: pool_new_def clamp_def acquire_start_def)

lemma permits_granted_in_order_witness: "phase (drop_permit busy_world 0) 1 = Granted"
proof -
  have "pool_wf busy_world" by (rule pool_run_wf [OF busy_run pool_new_wf])
  then show ?thesis
    using permits_granted_in_order [of busy_world 0] by (simp add: busy_world_def live_waiters_def)
qed

lemma leaked_permits_starve_witness:
  "pool_run (pool_new 1) [Acquire 0, Acquire 1, Drop 0, Cancel 1] leaked_world \<and>
   phase starving_world 2 = Waiting \<and> phase starving_world 2 \<notin> {Granted, Holding}"
proof -
  have "all_leaked leaked_world" by (simp add: all_leaked_def leaked_world_def)
  then have "phase starving_world 2 \<notin> {Granted, Holding}"
    using leaked_permits_starve [OF starving_run] by simp
  then show ?thesis using leaked_run by (simp add: starving_world_def)
qed

end
