(* ===== verification/DockHistory.thy ===== *)
theory DockHistory
  imports Prelude
begin

text \<open>
  The undo history of the dock's free-form tiles (\<open>crates/gpui_dock/src/history.rs\<close>) and the
  tile operations that record in it (\<open>crates/gpui_dock/src/tiles.rs\<close>: bringing a tile to
  the front, removing one, undo, redo). The trait \<open>HistoryItem\<close> is the record
  \<open>history_item\<close>, which every item type extends; the end of \<open>undos\<close> and \<open>redos\<close> is their
  top. Clock readings are arguments; pixel bounds are an arbitrary type, since these
  operations only store them. A \<open>None\<close> result is a panic.
\<close>

section \<open>History\<close>

record history_item =
  version :: nat

record 'i history =
  undos :: "'i list"
  redos :: "'i list"
  last_changed_at :: nat
  h_version :: nat
  ignore :: bool
  max_undos :: nat
  group_interval :: "nat option"
  grouping :: bool
  unique :: bool

definition history_new :: "nat \<Rightarrow> 'i history" where
  "history_new now =
     \<lparr> undos = [], redos = [], last_changed_at = now, h_version = 0, ignore = False,
       max_undos = 1000, group_interval = None, grouping = False, unique = False \<rparr>"

definition with_max_undos :: "'i history \<Rightarrow> nat \<Rightarrow> 'i history" where
  "with_max_undos h n = h\<lparr>max_undos := n\<rparr>"

definition with_unique :: "'i history \<Rightarrow> 'i history" where
  "with_unique h = h\<lparr>unique := True\<rparr>"

definition with_group_interval :: "'i history \<Rightarrow> nat \<Rightarrow> 'i history" where
  "with_group_interval h d = h\<lparr>group_interval := Some d\<rparr>"

definition start_grouping :: "'i history \<Rightarrow> 'i history" where
  "start_grouping h = h\<lparr>grouping := True\<rparr>"

definition end_grouping :: "'i history \<Rightarrow> 'i history" where
  "end_grouping h = h\<lparr>grouping := False\<rparr>"

text \<open>\<open>Some(elapsed) > interval\<close>: an absent interval is less than every duration.\<close>

definition inc_version :: "nat \<Rightarrow> 'i history \<Rightarrow> 'i history" where
  "inc_version now h =
     (let elapsed = now - last_changed_at h;
          past = (case group_interval h of None \<Rightarrow> True | Some d \<Rightarrow> d < elapsed);
          h = (if \<not> grouping h \<and> past then h\<lparr>h_version := h_version h + 1\<rparr> else h)
      in h\<lparr>last_changed_at := now\<rparr>)"

definition push ::
  "('z history_item_scheme \<Rightarrow> 'z history_item_scheme \<Rightarrow> bool) \<Rightarrow> nat \<Rightarrow>
   'z history_item_scheme history \<Rightarrow> 'z history_item_scheme \<Rightarrow>
   'z history_item_scheme history option" where
  "push eq now h item =
     (let h = inc_version now h
      in if max_undos h \<le> length (undos h) \<and> undos h = [] then None
         else
           let h = (if max_undos h \<le> length (undos h) then h\<lparr>undos := tl (undos h)\<rparr> else h);
               h = (if unique h
                    then h\<lparr>undos := filter (\<lambda>c. \<not> eq c item) (undos h),
                           redos := filter (\<lambda>c. \<not> eq c item) (redos h)\<rparr>
                    else h)
           in Some (h\<lparr>undos := undos h @ [item\<lparr>version := h_version h\<rparr>]\<rparr>))"

definition clear :: "'i history \<Rightarrow> 'i history" where
  "clear h = h\<lparr>undos := [], redos := []\<rparr>"

text \<open>
  The inner loop of \<open>undo\<close> and \<open>redo\<close>: pop while an item of version \<open>v\<close> is anywhere in the
  stack.
\<close>

function pop_group ::
  "nat \<Rightarrow> 'z history_item_scheme list \<Rightarrow> 'z history_item_scheme list \<Rightarrow>
   'z history_item_scheme list \<times> 'z history_item_scheme list" where
  "pop_group v stack changes =
     (if \<exists>c \<in> set stack. version c = v
      then pop_group v (butlast stack) (changes @ [last stack])
      else (stack, changes))"
  by auto

termination
  by (relation "measure (\<lambda>(_, stack, _). length stack)") (auto dest: length_pos_if_in_set)

declare pop_group.simps [simp del]

definition undo ::
  "'z history_item_scheme history \<Rightarrow>
   'z history_item_scheme history \<times> 'z history_item_scheme list option" where
  "undo h =
     (if undos h = [] then (h, None)
      else
        let first = last (undos h);
            (rest, changes) = pop_group (version first) (butlast (undos h)) [first]
        in (h\<lparr>undos := rest, redos := redos h @ changes\<rparr>, Some changes))"

definition redo ::
  "'z history_item_scheme history \<Rightarrow>
   'z history_item_scheme history \<times> 'z history_item_scheme list option" where
  "redo h =
     (if redos h = [] then (h, None)
      else
        let first = last (redos h);
            (rest, changes) = pop_group (version first) (butlast (redos h)) [first]
        in (h\<lparr>redos := rest, undos := undos h @ changes\<rparr>, Some changes))"

section \<open>Tiles\<close>

record 'b tile_change = history_item +
  tile_id :: nat
  old_bounds :: "'b option"
  new_bounds :: "'b option"
  old_order :: "nat option"
  new_order :: "nat option"

record 'b tile_item =
  item_id :: nat
  bounds :: 'b
  z_index :: nat

record 'b tiles =
  panels :: "'b tile_item list"
  history :: "'b tile_change history"

definition tiles_new :: "nat \<Rightarrow> 'b tiles" where
  "tiles_new now = \<lparr> panels = [], history = with_group_interval (history_new now) 100 \<rparr>"

text \<open>\<open>Iterator::position\<close>, \<open>Vec::remove\<close> at a valid index, and \<open>Vec::insert\<close>, which panics past the end.\<close>

fun position :: "('a \<Rightarrow> bool) \<Rightarrow> 'a list \<Rightarrow> nat option" where
  "position P [] = None"
| "position P (x # xs) = (if P x then Some 0 else map_option Suc (position P xs))"

definition vec_remove :: "nat \<Rightarrow> 'a list \<Rightarrow> 'a list" where
  "vec_remove i xs = take i xs @ drop (Suc i) xs"

definition vec_insert :: "nat \<Rightarrow> 'a \<Rightarrow> 'a list \<Rightarrow> 'a list option" where
  "vec_insert i x xs = (if i \<le> length xs then Some (take i xs @ x # drop i xs) else None)"

definition index_of :: "'b tiles \<Rightarrow> nat \<Rightarrow> nat option" where
  "index_of t i = position (\<lambda>p. item_id p = i) (panels t)"

definition tiles_remove :: "'b tiles \<Rightarrow> nat \<Rightarrow> 'b tiles" where
  "tiles_remove t i =
     (case index_of t i of None \<Rightarrow> t | Some ix \<Rightarrow> t\<lparr>panels := vec_remove ix (panels t)\<rparr>)"

definition bring_to_front :: "nat \<Rightarrow> 'b tiles \<Rightarrow> nat option \<Rightarrow> ('b tiles \<times> nat option) option" where
  "bring_to_front now t target =
     (case target of
        None \<Rightarrow> Some (t, None)
      | Some old_id \<Rightarrow>
          (case index_of t old_id of
             None \<Rightarrow> Some (t, None)
           | Some old_ix \<Rightarrow>
               let item = panels t ! old_ix;
                   ps = vec_remove old_ix (panels t) @ [item];
                   new_ix = length ps - 1;
                   new_id = item_id (ps ! new_ix)
               in do {
                 h \<leftarrow> push (=) now (history t)
                        \<lparr> version = 0, tile_id = new_id, old_bounds = None, new_bounds = None,
                          old_order = Some old_ix, new_order = Some new_ix \<rparr>;
                 Some (t\<lparr>panels := ps, history := h\<rparr>, Some new_id)
               }))"

text \<open>
  The end of \<open>update_position\<close> and of \<open>resize\<close>: the tile at \<open>ix\<close> gets the bounds \<open>b\<close> the
  gesture computed, and a change that moves it is recorded unless an undo or redo is running.
\<close>

definition commit_bounds :: "nat \<Rightarrow> 'b tiles \<Rightarrow> nat \<Rightarrow> 'b \<Rightarrow> 'b tiles option" where
  "commit_bounds now t ix b =
     (let item = panels t ! ix
      in if b = bounds item then Some t
         else
           let t' = t\<lparr>panels := (panels t)[ix := item\<lparr>bounds := b\<rparr>]\<rparr>
           in if ignore (history t) then Some t'
              else do {
                h \<leftarrow> push (=) now (history t)
                       \<lparr> version = 0, tile_id = item_id item, old_bounds = Some (bounds item),
                         new_bounds = Some b, old_order = None, new_order = None \<rparr>;
                Some (t'\<lparr>history := h\<rparr>)
              })"

text \<open>What \<open>undo\<close> and \<open>redo\<close> do with one change: the old (or new) bounds and position.\<close>

definition apply_change ::
  "'b option \<Rightarrow> nat option \<Rightarrow> nat \<Rightarrow> 'b tile_item list \<Rightarrow> 'b tile_item list option" where
  "apply_change b ord i ps =
     (case position (\<lambda>p. item_id p = i) ps of
        None \<Rightarrow> Some ps
      | Some ix \<Rightarrow>
          let ps = (case b of None \<Rightarrow> ps | Some b \<Rightarrow> ps[ix := (ps ! ix)\<lparr>bounds := b\<rparr>])
          in case ord of
               None \<Rightarrow> Some ps
             | Some k \<Rightarrow> vec_insert k (ps ! ix) (vec_remove ix ps))"

fun apply_changes ::
  "('b tile_change \<Rightarrow> 'b option) \<Rightarrow> ('b tile_change \<Rightarrow> nat option) \<Rightarrow> 'b tile_change list \<Rightarrow>
   'b tile_item list \<Rightarrow> 'b tile_item list option" where
  "apply_changes fb fo [] ps = Some ps"
| "apply_changes fb fo (c # cs) ps =
     do { ps \<leftarrow> apply_change (fb c) (fo c) (tile_id c) ps; apply_changes fb fo cs ps }"

definition tiles_undo :: "'b tiles \<Rightarrow> 'b tiles option" where
  "tiles_undo t =
     (let t = t\<lparr>history := (history t)\<lparr>ignore := True\<rparr>\<rparr>
      in case undo (history t) of
           (h, changes) \<Rightarrow> do {
             ps \<leftarrow> (case changes of None \<Rightarrow> Some (panels t)
                    | Some cs \<Rightarrow> apply_changes old_bounds old_order cs (panels t));
             Some (t\<lparr>panels := ps, history := h\<lparr>ignore := False\<rparr>\<rparr>)
           })"

definition tiles_redo :: "'b tiles \<Rightarrow> 'b tiles option" where
  "tiles_redo t =
     (let t = t\<lparr>history := (history t)\<lparr>ignore := True\<rparr>\<rparr>
      in case redo (history t) of
           (h, changes) \<Rightarrow> do {
             ps \<leftarrow> (case changes of None \<Rightarrow> Some (panels t)
                    | Some cs \<Rightarrow> apply_changes new_bounds new_order cs (panels t));
             Some (t\<lparr>panels := ps, history := h\<lparr>ignore := False\<rparr>\<rparr>)
           })"

text \<open>The order the tiles are painted in: by \<open>z_index\<close>, then by position.\<close>

definition sorted_panels :: "'b tiles \<Rightarrow> 'b tile_item list" where
  "sorted_panels t =
     map snd (sort_by (\<lambda>a b. then_with (lin_cmp (z_index (snd a)) (z_index (snd b))) (lin_cmp (fst a) (fst b)))
       (enumerate 0 (panels t)))"

section \<open>Undoing a group of changes\<close>

lemma pop_group_spec:
  "(\<exists>c \<in> set stack. version c = v) \<Longrightarrow>
   \<exists>rest c mid. stack = rest @ c # mid \<and> version c = v \<and> (\<forall>c \<in> set rest. version c \<noteq> v) \<and>
     pop_group v stack ch = (rest, ch @ rev (c # mid))"
proof (induction v stack ch rule: pop_group.induct)
  case (1 v stack ch)
  then have ne: "stack \<noteq> []" by auto
  have step: "pop_group v stack ch = pop_group v (butlast stack) (ch @ [last stack])"
    using "1.prems" by (subst pop_group.simps) simp
  show ?case
  proof (cases "\<exists>c \<in> set (butlast stack). version c = v")
    case True
    from "1.IH" [OF "1.prems" True] obtain rest c mid where
      b: "butlast stack = rest @ c # mid" "version c = v" "\<forall>c \<in> set rest. version c \<noteq> v"
      "pop_group v (butlast stack) (ch @ [last stack]) = (rest, (ch @ [last stack]) @ rev (c # mid))"
      by blast
    have "stack = rest @ c # (mid @ [last stack])"
      using append_butlast_last_id [OF ne] b(1) by (metis append_Cons append_assoc)
    then show ?thesis
      using b step by (intro exI [of _ rest] exI [of _ c] exI [of _ "mid @ [last stack]"]) simp
  next
    case False
    have "pop_group v (butlast stack) (ch @ [last stack]) = (butlast stack, ch @ [last stack])"
      using False by (subst pop_group.simps) simp
    moreover obtain c where "c \<in> set stack" "version c = v" using "1.prems" by blast
    then have "version (last stack) = v"
      using False append_butlast_last_id [OF ne] by (metis UnE empty_iff empty_set set_ConsD set_append)
    ultimately show ?thesis
      using False step append_butlast_last_id [OF ne]
      by (intro exI [of _ "butlast stack"] exI [of _ "last stack"] exI [of _ "[]"]) auto
  qed
qed

lemma pop_group_none: "\<forall>c \<in> set stack. version c \<noteq> v \<Longrightarrow> pop_group v stack ch = (stack, ch)"
  by (subst pop_group.simps) auto

text \<open>
  A non-empty stack popped at the version of its top: the part above and including the
  lowest item of that version comes off, in reverse.
\<close>

lemma pop_top:
  assumes "stack \<noteq> []"
  shows "\<exists>rest grp. stack = rest @ grp \<and> grp \<noteq> [] \<and> version (hd grp) = version (last stack) \<and>
    last grp = last stack \<and> (\<forall>c \<in> set rest. version c \<noteq> version (last stack)) \<and>
    pop_group (version (last stack)) (butlast stack) [last stack] = (rest, rev grp)"
proof (cases "\<exists>c \<in> set (butlast stack). version c = version (last stack)")
  case True
  from pop_group_spec [OF True, of "[last stack]"] obtain rest c mid where
    s: "butlast stack = rest @ c # mid" "version c = version (last stack)"
    "\<forall>c \<in> set rest. version c \<noteq> version (last stack)"
    "pop_group (version (last stack)) (butlast stack) [last stack] = (rest, [last stack] @ rev (c # mid))"
    by blast
  have "stack = butlast stack @ [last stack]" using assms by simp
  then have "stack = rest @ (c # mid @ [last stack])" unfolding s(1) by simp
  moreover have "pop_group (version (last stack)) (butlast stack) [last stack] =
      (rest, rev (c # mid @ [last stack]))"
    unfolding s(4) by simp
  ultimately show ?thesis using s(2,3)
    by (metis last_ConsR last_snoc list.distinct(1) list.sel(1) snoc_eq_iff_butlast)
next
  case False
  then have "pop_group (version (last stack)) (butlast stack) [last stack] =
      (butlast stack, rev [last stack])"
    by (simp add: pop_group_none)
  moreover have "stack = butlast stack @ [last stack]" using assms by simp
  ultimately show ?thesis using False
    by (intro exI [of _ "butlast stack"] exI [of _ "[last stack]"] conjI) auto
qed

lemma pop_reversed:
  assumes "grp \<noteq> []" "version (hd grp) = version (last grp)" "\<forall>c \<in> set old. version c \<noteq> version (last grp)"
  shows "pop_group (version (hd grp)) (butlast (old @ rev grp)) [hd grp] = (old, grp)"
proof (cases grp)
  case (Cons c cs)
  show ?thesis
  proof (cases "cs = []")
    case True
    then show ?thesis using assms Cons by (simp add: pop_group_none butlast_append)
  next
    case False
    have stack: "butlast (old @ rev grp) = old @ rev cs" using Cons False by (simp add: butlast_append)
    have "last cs \<in> set (old @ rev cs)" "version (last cs) = version c"
      using False assms(2) Cons by simp_all
    then have ex: "\<exists>x \<in> set (old @ rev cs). version x = version c" by blast
    from pop_group_spec [OF this, of "[c]"] obtain rest x mid where
      s: "old @ rev cs = rest @ x # mid" "version x = version c" "\<forall>y \<in> set rest. version y \<noteq> version c"
      "pop_group (version c) (old @ rev cs) [c] = (rest, [c] @ rev (x # mid))"
      by blast
    have first: "rev cs ! 0 = last cs"
      using False by (simp add: hd_conv_nth [symmetric] hd_rev)
    have "rest = old"
    proof (rule append_eq_append_conv [THEN iffD1, THEN conjunct1, symmetric])
      show "old @ rev cs = rest @ x # mid" by (rule s(1))
      have "\<not> length old < length rest"
      proof
        assume "length old < length rest"
        then have "rest ! length old = (old @ rev cs) ! length old" using s(1) by (metis nth_append)
        also have "\<dots> = last cs" using first by (simp add: nth_append)
        finally have "last cs \<in> set rest" using \<open>length old < length rest\<close> by (metis nth_mem)
        then show False using s(3) \<open>version (last cs) = version c\<close> by blast
      qed
      moreover have "\<not> length rest < length old"
      proof
        assume l: "length rest < length old"
        then have "x = old ! length rest" using s(1) by (metis nth_append nth_append_length)
        then have "x \<in> set old" using l by simp
        then show False using s(2) assms(2,3) Cons by auto
      qed
      ultimately show "length old = length rest \<or> length (rev cs) = length (x # mid)" by simp
    qed
    then have "rev cs = x # mid" using s(1) by simp
    then have "[c] @ rev (x # mid) = grp" using Cons by (metis append_Cons append_Nil rev_rev_ident)
    then show ?thesis using s(4) stack Cons \<open>rest = old\<close> by simp
  qed
qed (use assms in simp)

lemma undo_shape:
  assumes "undos h \<noteq> []"
  shows "\<exists>rest grp. undos h = rest @ grp \<and> grp \<noteq> [] \<and> version (hd grp) = version (last grp) \<and>
    last grp = last (undos h) \<and> (\<forall>c \<in> set rest. version c \<noteq> version (last (undos h))) \<and>
    undo h = (h\<lparr>undos := rest, redos := redos h @ rev grp\<rparr>, Some (rev grp))"
proof -
  from pop_top [OF assms] obtain rest grp where g:
    "undos h = rest @ grp" "grp \<noteq> []" "version (hd grp) = version (last (undos h))"
    "last grp = last (undos h)" "\<forall>c \<in> set rest. version c \<noteq> version (last (undos h))"
    and p: "pop_group (version (last (undos h))) (butlast (undos h)) [last (undos h)] = (rest, rev grp)"
    by blast
  have "undo h = (h\<lparr>undos := rest, redos := redos h @ rev grp\<rparr>, Some (rev grp))"
    using assms by (simp only: undo_def Let_def p prod.case if_False)
  moreover have "version (hd grp) = version (last grp)" by (simp only: g(3,4))
  ultimately show ?thesis using g(1,2,4,5) by blast
qed

lemma redo_after_undo:
  assumes "undos h = rest @ grp" "grp \<noteq> []" "version (hd grp) = version (last grp)"
    and "\<forall>c \<in> set (redos h). version c \<noteq> version (last grp)"
  shows "redo (h\<lparr>undos := rest, redos := redos h @ rev grp\<rparr>) = (h, Some grp)"
proof -
  have "last (redos h @ rev grp) = hd grp" using assms(2) by (simp add: last_rev)
  then show ?thesis
    using pop_reversed [OF assms(2,3,4)] assms(1,2) by (simp add: redo_def Let_def)
qed

section \<open>Undoing a tile edit\<close>

text \<open>The user's edits: a click that brings a tile to the front, a drag or resize step.\<close>

datatype 'b tile_edit = BringToFront nat | SetBounds nat 'b

fun perform :: "nat \<Rightarrow> 'b tiles \<Rightarrow> 'b tile_edit \<Rightarrow> 'b tiles option" where
  "perform now t (BringToFront i) = map_option fst (bring_to_front now t (Some i))"
| "perform now t (SetBounds ix b) = commit_bounds now t ix b"

fun effective :: "'b tiles \<Rightarrow> 'b tile_edit \<Rightarrow> bool" where
  "effective t (BringToFront i) \<longleftrightarrow> i \<in> item_id ` set (panels t)"
| "effective t (SetBounds ix b) \<longleftrightarrow> ix < length (panels t) \<and> b \<noteq> bounds (panels t ! ix)"

text \<open>The history is not mid-operation, not full, and the edit starts a new undo group.\<close>

definition ready :: "nat \<Rightarrow> 'b tiles \<Rightarrow> bool" where
  "ready now t \<longleftrightarrow>
     (let h = history t
      in distinct (map item_id (panels t)) \<and> \<not> ignore h \<and> \<not> grouping h \<and> \<not> unique h \<and>
         length (undos h) < max_undos h \<and>
         (\<forall>d. group_interval h = Some d \<longrightarrow> d < now - last_changed_at h) \<and>
         (\<forall>c \<in> set (undos h) \<union> set (redos h). version c \<le> h_version h))"

lemma ready_versions:
  assumes "ready now t"
  shows "\<forall>c \<in> set (undos (history t)). version c \<noteq> h_version (history t) + 1"
    and "\<forall>c \<in> set (redos (history t)). version c \<noteq> h_version (history t) + 1"
proof -
  have le: "version c \<le> h_version (history t)"
    if "c \<in> set (undos (history t)) \<union> set (redos (history t))" for c
    using assms that by (simp only: ready_def Let_def)
  show "\<forall>c \<in> set (undos (history t)). version c \<noteq> h_version (history t) + 1"
  proof
    fix c assume "c \<in> set (undos (history t))"
    then have "version c \<le> h_version (history t)" using le by blast
    then show "version c \<noteq> h_version (history t) + 1" by linarith
  qed
  show "\<forall>c \<in> set (redos (history t)). version c \<noteq> h_version (history t) + 1"
  proof
    fix c assume "c \<in> set (redos (history t))"
    then have "version c \<le> h_version (history t)" using le by blast
    then show "version c \<noteq> h_version (history t) + 1" by linarith
  qed
qed

lemma push_ready:
  assumes "ready now t"
  shows "push (=) now (history t) c =
    Some ((history t)\<lparr>undos := undos (history t) @ [c\<lparr>version := h_version (history t) + 1\<rparr>],
                       last_changed_at := now, h_version := h_version (history t) + 1\<rparr>)"
  using assms by (cases "group_interval (history t)") (auto simp: ready_def push_def inc_version_def Let_def)

lemma position_Some:
  "position P xs = Some i \<longleftrightarrow> i < length xs \<and> P (xs ! i) \<and> (\<forall>j<i. \<not> P (xs ! j))"
proof (induction xs arbitrary: i)
  case (Cons x xs)
  then show ?case by (cases i) (auto simp: All_less_Suc2)
qed simp

lemma position_None: "position P xs = None \<longleftrightarrow> (\<forall>x \<in> set xs. \<not> P x)"
  by (induction xs) auto

lemma position_id:
  assumes "distinct (map f xs)" and "i < length xs"
  shows "position (\<lambda>x. f x = f (xs ! i)) xs = Some i"
proof -
  have "j < i \<Longrightarrow> f (xs ! j) \<noteq> f (xs ! i)" for j
    using nth_eq_iff_index_eq [OF assms(1), of j i] assms(2) by simp
  then show ?thesis using assms(2) by (simp add: position_Some)
qed

lemma vec_remove_snoc [simp]: "vec_remove (length xs) (xs @ [x]) = xs"
  by (simp add: vec_remove_def)

lemma vec_insert_remove: "i < length xs \<Longrightarrow> vec_insert i (xs ! i) (vec_remove i xs) = Some xs"
  by (simp add: vec_insert_def vec_remove_def id_take_nth_drop [symmetric])

lemma length_vec_remove [simp]: "i < length xs \<Longrightarrow> length (vec_remove i xs) = length xs - 1"
  by (simp add: vec_remove_def)

lemma set_vec_remove: "i < length xs \<Longrightarrow> set xs = insert (xs ! i) (set (vec_remove i xs))"
  by (subst id_take_nth_drop, assumption) (auto simp: vec_remove_def)

text \<open>Every edit records a change whose old side takes it back and whose new side repeats it.\<close>

lemma effective_edit:
  assumes "ready now t" and "effective t e"
  shows "\<exists>ps c. perform now t e =
      Some (t\<lparr>panels := ps,
              history := (history t)
                \<lparr>undos := undos (history t) @ [c\<lparr>version := h_version (history t) + 1\<rparr>],
                 last_changed_at := now, h_version := h_version (history t) + 1\<rparr>\<rparr>) \<and>
    apply_change (old_bounds c) (old_order c) (tile_id c) ps = Some (panels t) \<and>
    apply_change (new_bounds c) (new_order c) (tile_id c) (panels t) = Some ps"
proof (cases e)
  case (BringToFront i)
  have dist: "distinct (map item_id (panels t))" using assms(1) by (simp add: ready_def Let_def)
  from assms(2) BringToFront obtain ix where ix: "ix < length (panels t)" "i = item_id (panels t ! ix)"
    by (auto simp: in_set_conv_nth)
  let ?p = "panels t ! ix"
  let ?ps = "vec_remove ix (panels t) @ [?p]"
  have pos: "position (\<lambda>p. item_id p = item_id ?p) (panels t) = Some ix"
    by (rule position_id [OF dist ix(1)])
  have "mset ?ps = mset (panels t)"
    using ix(1) by (subst (3) id_take_nth_drop [OF ix(1)]) (simp add: vec_remove_def)
  then have "distinct (map item_id ?ps)"
    using dist by (metis mset_eq_imp_distinct_iff mset_map)
  then have "position (\<lambda>p. item_id p = item_id ?p) ?ps = Some (length (panels t) - 1)"
    using position_id [of item_id ?ps "length (panels t) - 1"] ix(1) by (simp add: nth_append)
  moreover have "vec_remove (length (panels t) - 1) ?ps = vec_remove ix (panels t)"
    using vec_remove_snoc [of "vec_remove ix (panels t)" ?p] ix(1) by simp
  ultimately have "apply_change None (Some ix) i ?ps = Some (panels t)"
    using ix by (simp add: apply_change_def nth_append vec_insert_remove)
  moreover have "apply_change None (Some (length (panels t) - 1)) i (panels t) = Some ?ps"
    using ix pos by (simp add: apply_change_def vec_insert_def Let_def)
  ultimately show ?thesis
    using ix pos push_ready [OF assms(1)] BringToFront
    by (intro exI [of _ ?ps] exI [of _ "\<lparr> version = 0, tile_id = i, old_bounds = None,
          new_bounds = None, old_order = Some ix, new_order = Some (length (panels t) - 1) \<rparr>"])
      (simp add: bring_to_front_def index_of_def Let_def nth_append)
next
  case (SetBounds ix b)
  have dist: "distinct (map item_id (panels t))" using assms(1) by (simp add: ready_def Let_def)
  let ?p = "panels t ! ix"
  let ?ps = "(panels t)[ix := ?p\<lparr>bounds := b\<rparr>]"
  have ix: "ix < length (panels t)" "b \<noteq> bounds ?p" using assms(2) SetBounds by auto
  have pos: "position (\<lambda>p. item_id p = item_id ?p) (panels t) = Some ix"
    by (rule position_id [OF dist ix(1)])
  have "map item_id ?ps = map item_id (panels t)"
    using ix(1) by (simp add: map_update) (metis length_map list_update_id nth_map)
  then have "position (\<lambda>p. item_id p = item_id ?p) ?ps = Some ix"
    using position_id [of item_id ?ps ix] dist ix(1) by simp
  then show ?thesis
    using ix pos push_ready [OF assms(1)] SetBounds assms(1)
    by (intro exI [of _ ?ps] exI [of _ "\<lparr> version = 0, tile_id = item_id ?p,
          old_bounds = Some (bounds ?p), new_bounds = Some b, old_order = None, new_order = None \<rparr>"])
      (simp add: commit_bounds_def Let_def apply_change_def ready_def)
qed

section \<open>Properties\<close>

text \<open>C32: While the redo stack holds no change of the version of the group to be undone, redo takes back undo exactly:
  \<open>undo\<close> removes the whole top group of changes and returns it newest first; \<open>redo\<close> then restores the
  history as it was and returns the group oldest first. (\<open>push\<close> neither clears the redo stack nor, within the
  group interval, takes a new version, so the condition is one on the history.)\<close>

theorem redo_undo_roundtrip:
  assumes "undos h \<noteq> []"
    and "\<forall>c \<in> set (redos h). version c \<noteq> version (last (undos h))"
  shows "\<exists>h' grp. undo h = (h', Some (rev grp)) \<and> redo h' = (h, Some grp) \<and>
    undos h = undos h' @ grp \<and> (\<forall>c \<in> set (undos h'). version c \<noteq> version (last grp))"
proof -
  from undo_shape [OF assms(1)] obtain rest grp where
    g: "undos h = rest @ grp" "grp \<noteq> []" "version (hd grp) = version (last grp)"
    "last grp = last (undos h)" "\<forall>c \<in> set rest. version c \<noteq> version (last (undos h))"
    and u: "undo h = (h\<lparr>undos := rest, redos := redos h @ rev grp\<rparr>, Some (rev grp))"
    by blast
  have "redo (h\<lparr>undos := rest, redos := redos h @ rev grp\<rparr>) = (h, Some grp)"
    by (rule redo_after_undo [OF g(1-3)]) (use assms(2) g(4) in simp)
  with u g(1,4,5) show ?thesis
    by (intro exI [of _ "h\<lparr>undos := rest, redos := redos h @ rev grp\<rparr>"] exI [of _ grp] conjI)
      simp_all
qed

text \<open>Undo takes back a tile edit and redo repeats it: after a drag, a resize or a click that
  brings a tile to the front, \<open>undo\<close> succeeds and restores every tile's place and bounds,
  and \<open>redo\<close> after it restores the state after the edit, history included.\<close>

theorem tile_edit_undo_redo:
  assumes "ready now t" and "effective t e" and "perform now t e = Some t'"
  shows "\<exists>t''. tiles_undo t' = Some t'' \<and> panels t'' = panels t \<and>
    undos (history t'') = undos (history t) \<and> tiles_redo t'' = Some t'"
proof -
  let ?h = "history t"
  from effective_edit [OF assms(1,2)] assms(3) obtain ps c where
    t': "t' = t\<lparr>panels := ps, history := ?h
        \<lparr>undos := undos ?h @ [c\<lparr>version := h_version ?h + 1\<rparr>],
         last_changed_at := now, h_version := h_version ?h + 1\<rparr>\<rparr>"
    and old: "apply_change (old_bounds c) (old_order c) (tile_id c) ps = Some (panels t)"
    and new: "apply_change (new_bounds c) (new_order c) (tile_id c) (panels t) = Some ps"
    by auto
  have ig: "\<not> ignore ?h" using assms(1) by (simp add: ready_def Let_def)
  note p = ready_versions [OF assms(1), THEN pop_group_none]
  let ?t = "t\<lparr>history := ?h\<lparr>redos := redos ?h @ [c\<lparr>version := h_version ?h + 1\<rparr>],
         last_changed_at := now, h_version := h_version ?h + 1\<rparr>\<rparr>"
  have "tiles_undo t' = Some ?t"
    using p old ig by (simp add: t' tiles_undo_def undo_def Let_def)
  moreover have "tiles_redo ?t = Some t'"
    using p new ig by (simp add: t' tiles_redo_def redo_def Let_def)
  ultimately show ?thesis by simp
qed

text \<open>C33:
  Undo can panic: with two tiles, bring the second to the front and close the first; the
  recorded position 1 is past the end of the remaining list and \<open>Vec::insert\<close> aborts.\<close>

theorem undo_after_close_panics:
  assumes "ready now t" and "panels t = [a, b]"
    and "bring_to_front now t (Some (item_id b)) = Some (t', i)"
  shows "panels (tiles_remove t' (item_id a)) = [b] \<and>
    tiles_undo (tiles_remove t' (item_id a)) = None"
proof -
  have ne: "item_id a \<noteq> item_id b" using assms(1,2) by (simp add: ready_def Let_def)
  then have t': "t' = t\<lparr>history := (history t)
      \<lparr>undos := undos (history t) @
         [\<lparr> version = h_version (history t) + 1, tile_id = item_id b, old_bounds = None,
            new_bounds = None, old_order = Some 1, new_order = Some 1 \<rparr>],
       last_changed_at := now, h_version := h_version (history t) + 1\<rparr>\<rparr>"
    using assms(2,3) push_ready [OF assms(1)]
    by (auto simp: bring_to_front_def index_of_def vec_remove_def Let_def)
  from ready_versions(1) [OF assms(1), THEN pop_group_none] show ?thesis
    using ne assms(2)
    by (simp add: t' tiles_remove_def index_of_def vec_remove_def tiles_undo_def undo_def Let_def
          apply_change_def vec_insert_def)
qed

section \<open>Examples\<close>

definition demo_tiles :: "nat tiles" where
  "demo_tiles = (tiles_new 0)\<lparr>panels :=
     [\<lparr> item_id = 1, bounds = 10, z_index = 0 \<rparr>, \<lparr> item_id = 2, bounds = 20, z_index = 0 \<rparr>]\<rparr>"

lemmas tiles_eval = demo_tiles_def tiles_new_def with_group_interval_def history_new_def
  bring_to_front_def index_of_def vec_remove_def push_def inc_version_def Let_def

lemma demo_ready: "ready 500 demo_tiles"
  by (simp add: ready_def Let_def tiles_eval)

lemma tile_edit_undo_redo_witness:
  "\<exists>t' t''. perform 500 demo_tiles (BringToFront 1) = Some t' \<and>
     map item_id (panels t') = [2, 1] \<and> tiles_undo t' = Some t'' \<and> panels t'' = panels demo_tiles"
proof -
  have eff: "effective demo_tiles (BringToFront 1)" by (simp add: tiles_eval)
  obtain t' where t': "perform 500 demo_tiles (BringToFront 1) = Some t'"
    and "map item_id (panels t') = [2, 1]"
    by (simp add: tiles_eval)
  then show ?thesis using tile_edit_undo_redo [OF demo_ready eff t'] by auto
qed

lemma redo_undo_roundtrip_witness:
  "\<exists>h'. undo (history_new 0 \<lparr>undos := [\<lparr>version = 1\<rparr>, \<lparr>version = 2\<rparr>, \<lparr>version = 2\<rparr>]\<rparr>) =
     (h', Some [\<lparr>version = 2\<rparr>, \<lparr>version = 2\<rparr>]) \<and> undos h' = [\<lparr>version = 1\<rparr>]"
proof -
  let ?h = "history_new 0 \<lparr>undos := [\<lparr>version = 1\<rparr>, \<lparr>version = 2\<rparr>, \<lparr>version = 2\<rparr>]\<rparr>"
  obtain h' grp where u: "undo ?h = (h', Some (rev grp))" and s: "undos ?h = undos h' @ grp"
    and "\<forall>c \<in> set (undos h'). version c \<noteq> version (last grp)"
    using redo_undo_roundtrip [of ?h] by (auto simp: history_new_def)
  have "undo ?h = (history_new 0 \<lparr>undos := [\<lparr>version = 1\<rparr>],
      redos := [\<lparr>version = 2\<rparr>, \<lparr>version = 2\<rparr>]\<rparr>, Some [\<lparr>version = 2\<rparr>, \<lparr>version = 2\<rparr>])"
    by (simp add: undo_def history_new_def pop_group.simps Let_def)
  then show ?thesis by simp
qed

lemma undo_after_close_panics_witness:
  "\<exists>t'. bring_to_front 500 demo_tiles (Some 2) = Some (t', Some 2) \<and>
     tiles_undo (tiles_remove t' 1) = None"
proof -
  obtain t' where t': "bring_to_front 500 demo_tiles (Some 2) = Some (t', Some 2)"
    by (simp add: tiles_eval)
  then show ?thesis
    using undo_after_close_panics [OF demo_ready, of "panels demo_tiles ! 0" "panels demo_tiles ! 1" t' "Some 2"]
    by (simp add: demo_tiles_def)
qed

end
