(* ===== verification/SftpTree.thy ===== *)
theory SftpTree
  imports Prelude
begin

text \<open>
  The remote file tree of the SFTP browser (\<open>crates/gpui_sftp/src/state.rs\<close>): entries, the
  tree of loaded directories, the flattened rows in the chosen sort order, and the breadcrumb
  labels of a path. \<open>HashMap\<close> is an association list, \<open>HashSet\<close> a distinct list. The
  recursion \<open>flatten_into_sorted\<close> follows child ids through the map, so it takes fuel; a tree
  that satisfies \<open>tree_wf\<close> never runs out of it. Sizes and times are only compared, so they
  are natural numbers.
\<close>

section \<open>Entries and sorting\<close>

datatype entry_kind = KDir | KFile | KSymlink | KOther

record entry =
  path :: rstring
  name :: rstring
  kind :: entry_kind
  size :: "nat option"
  modified :: "nat option"
  perms :: "rstring option"

definition entry_new_with_meta ::
  "rstring \<Rightarrow> rstring \<Rightarrow> entry_kind \<Rightarrow> nat option \<Rightarrow> nat option \<Rightarrow> rstring option \<Rightarrow> entry" where
  "entry_new_with_meta p n k s m pr =
     \<lparr> path = p, name = n, kind = k, size = s, modified = m, perms = pr \<rparr>"

definition entry_new :: "rstring \<Rightarrow> rstring \<Rightarrow> entry_kind \<Rightarrow> entry" where
  "entry_new p n k = entry_new_with_meta p n k None None None"

datatype sort_column = ByName | ByType | BySize | ByModified | ByPerms

datatype sort_direction = Asc | Desc

record sort_spec =
  column :: sort_column
  direction :: sort_direction

definition sort_default :: sort_spec where
  "sort_default = \<lparr> column = ByName, direction = Asc \<rparr>"

fun kind_rank :: "entry_kind \<Rightarrow> nat" where
  "kind_rank KDir = 0"
| "kind_rank KFile = 1"
| "kind_rank KSymlink = 2"
| "kind_rank KOther = 3"

fun dir_rank :: "entry_kind \<Rightarrow> nat" where
  "dir_rank KDir = 0"
| "dir_rank _ = 1"

fun opt_u64_cmp :: "nat option \<Rightarrow> nat option \<Rightarrow> ordering" where
  "opt_u64_cmp (Some a) (Some b) = lin_cmp a b"
| "opt_u64_cmp None (Some _) = Greater"
| "opt_u64_cmp (Some _) None = Less"
| "opt_u64_cmp None None = Equal"

definition perms_or_empty :: "entry \<Rightarrow> rstring" where
  "perms_or_empty e = (case perms e of None \<Rightarrow> [] | Some p \<Rightarrow> p)"

definition column_cmp :: "sort_column \<Rightarrow> entry \<Rightarrow> entry \<Rightarrow> ordering" where
  "column_cmp c a b =
     (case c of
        ByName \<Rightarrow> str_cmp (name a) (name b)
      | ByType \<Rightarrow> then_with (lin_cmp (kind_rank (kind a)) (kind_rank (kind b))) (str_cmp (name a) (name b))
      | BySize \<Rightarrow> then_with (opt_u64_cmp (size a) (size b)) (str_cmp (name a) (name b))
      | ByModified \<Rightarrow> then_with (opt_u64_cmp (modified a) (modified b)) (str_cmp (name a) (name b))
      | ByPerms \<Rightarrow> then_with (str_cmp (perms_or_empty a) (perms_or_empty b)) (str_cmp (name a) (name b)))"

definition compare_entries :: "sort_spec \<Rightarrow> entry \<Rightarrow> entry \<Rightarrow> ordering" where
  "compare_entries s a b =
     (let dr = lin_cmp (dir_rank (kind a)) (dir_rank (kind b))
      in if dr \<noteq> Equal then dr
         else let ord = column_cmp (column s) a b
              in case direction s of Asc \<Rightarrow> ord | Desc \<Rightarrow> ord_reverse ord)"

section \<open>The tree\<close>

record node =
  n_entry :: entry
  children :: "rstring list"
  loaded_children :: bool

record tree_state =
  root :: rstring
  nodes :: "(rstring \<times> node) list"
  expanded :: "rstring list"

definition node_new :: "entry \<Rightarrow> node" where
  "node_new e = \<lparr> n_entry = e, children = [], loaded_children = False \<rparr>"

definition tree_new :: "entry \<Rightarrow> tree_state" where
  "tree_new e = \<lparr> root = path e, nodes = [(path e, node_new e)], expanded = [path e] \<rparr>"

definition is_expanded :: "tree_state \<Rightarrow> rstring \<Rightarrow> bool" where
  "is_expanded t i \<longleftrightarrow> i \<in> set (expanded t)"

definition set_expanded :: "tree_state \<Rightarrow> rstring \<Rightarrow> bool \<Rightarrow> tree_state" where
  "set_expanded t i b =
     t\<lparr>expanded := (if b then List.insert i (expanded t) else removeAll i (expanded t))\<rparr>"

definition upsert_child :: "tree_state \<Rightarrow> entry \<Rightarrow> tree_state" where
  "upsert_child t c =
     t\<lparr>nodes := AList.update (path c)
        (case map_of (nodes t) (path c) of
           Some n \<Rightarrow> n\<lparr>n_entry := c\<rparr> | None \<Rightarrow> node_new c) (nodes t)\<rparr>"

definition upsert_children :: "tree_state \<Rightarrow> rstring \<Rightarrow> entry list \<Rightarrow> tree_state" where
  "upsert_children t parent_id cs =
     (let t = foldl upsert_child t cs
      in case map_of (nodes t) parent_id of
           None \<Rightarrow> t
         | Some p \<Rightarrow>
             t\<lparr>nodes := AList.update parent_id
                 (p\<lparr>children := map path cs, loaded_children := True\<rparr>) (nodes t)\<rparr>)"

record visible_row =
  vid :: rstring
  vname :: rstring
  vkind :: entry_kind
  vsize :: "nat option"
  vmodified :: "nat option"
  vperms :: "rstring option"
  depth :: nat
  is_dir :: bool
  v_expanded :: bool
  v_loaded :: bool

definition compare_ids :: "tree_state \<Rightarrow> sort_spec \<Rightarrow> rstring \<Rightarrow> rstring \<Rightarrow> ordering" where
  "compare_ids t s a b =
     (case (map_of (nodes t) a, map_of (nodes t) b) of
        (Some a, Some b) \<Rightarrow> compare_entries s (n_entry a) (n_entry b)
      | _ \<Rightarrow> Equal)"

definition row_of :: "tree_state \<Rightarrow> rstring \<Rightarrow> node \<Rightarrow> nat \<Rightarrow> visible_row" where
  "row_of t i n d =
     \<lparr> vid = path (n_entry n), vname = name (n_entry n), vkind = kind (n_entry n),
       vsize = size (n_entry n), vmodified = modified (n_entry n), vperms = perms (n_entry n),
       depth = d, is_dir = (kind (n_entry n) = KDir), v_expanded = is_expanded t i,
       v_loaded = loaded_children n \<rparr>"

text \<open>\<open>None\<close>: the fuel ran out (the code would overflow its stack).\<close>

fun flatten_into_sorted ::
  "nat \<Rightarrow> tree_state \<Rightarrow> sort_spec \<Rightarrow> rstring \<Rightarrow> nat \<Rightarrow> visible_row list option"
and flatten_list ::
  "nat \<Rightarrow> tree_state \<Rightarrow> sort_spec \<Rightarrow> rstring list \<Rightarrow> nat \<Rightarrow> visible_row list option" where
  "flatten_into_sorted 0 t s i d = None"
| "flatten_into_sorted (Suc f) t s i d =
     (case map_of (nodes t) i of
        None \<Rightarrow> Some []
      | Some n \<Rightarrow>
          if kind (n_entry n) \<noteq> KDir \<or> \<not> is_expanded t i then Some [row_of t i n d]
          else map_option (\<lambda>rows. row_of t i n d # rows)
                 (flatten_list f t s (sort_by (compare_ids t s) (children n)) (d + 1)))"
| "flatten_list f t s [] d = Some []"
| "flatten_list f t s (i # is) d =
     do { a \<leftarrow> flatten_into_sorted f t s i d; b \<leftarrow> flatten_list f t s is d; Some (a @ b) }"

definition visible_rows_sorted :: "tree_state \<Rightarrow> sort_spec \<Rightarrow> visible_row list option" where
  "visible_rows_sorted t s = flatten_into_sorted (Suc (length (nodes t))) t s (root t) 0"

section \<open>Paths\<close>

definition slash :: rchar where "slash = 47"

definition path_parts :: "rstring \<Rightarrow> rstring list" where
  "path_parts p = filter (\<lambda>x. x \<noteq> []) (split_char slash (trim_end_matches slash p))"

fun crumbs_from :: "rstring \<Rightarrow> bool \<Rightarrow> rstring list \<Rightarrow> (rstring \<times> rstring) list" where
  "crumbs_from acc ab [] = []"
| "crumbs_from acc ab (p # ps) =
     (let acc = (if acc = [] then (if ab then slash # p else p) else acc @ [slash] @ p)
      in (p, acc) # crumbs_from acc ab ps)"

definition breadcrumbs_for_path :: "rstring \<Rightarrow> (rstring \<times> rstring) list" where
  "breadcrumbs_for_path p =
     (let p = trim p
      in if p = [] \<or> p = rs ''.'' then [(rs ''.'', rs ''.'')]
         else if p = rs ''/'' then [(rs ''/'', rs ''/'')]
         else
           let is_abs = starts_with (rs ''/'') p;
               parts = path_parts p
           in if parts = []
              then (if is_abs then [(rs ''/'', rs ''/'')] else [(rs ''.'', rs ''.'')])
              else if is_abs then (rs ''/'', rs ''/'') # crumbs_from [] True parts
              else crumbs_from [] False parts)"

definition display_name_for_dir :: "rstring \<Rightarrow> rstring" where
  "display_name_for_dir p =
     (let p = trim p
      in if p = [] \<or> p = rs ''.'' then rs ''.''
         else if p = rs ''/'' then rs ''/''
         else if path_parts p \<noteq> [] then last (path_parts p)
         else if starts_with (rs ''/'') p then rs ''/'' else rs ''.'')"

text \<open>\<open>view/path.rs\<close>: joining a directory and an entry name; dot files.\<close>

definition join_remote :: "rstring \<Rightarrow> rstring \<Rightarrow> rstring" where
  "join_remote parent n =
     (if parent = rs ''/'' then slash # n
      else
        let p = trim_end_matches slash parent
        in if p = [] \<or> p = rs ''.'' then n else p @ [slash] @ n)"

definition is_hidden_name :: "rstring \<Rightarrow> bool" where
  "is_hidden_name n \<longleftrightarrow> starts_with (rs ''.'') n \<and> n \<noteq> rs ''.'' \<and> n \<noteq> rs ''..''"

text \<open>The filter keeps the depth of the hidden directory whose descendants it is skipping.\<close>

fun hidden_loop :: "nat option \<Rightarrow> visible_row list \<Rightarrow> visible_row list" where
  "hidden_loop hd' [] = []"
| "hidden_loop hd' (r # rows) =
     (if (case hd' of None \<Rightarrow> False | Some k \<Rightarrow> k < depth r) then hidden_loop hd' rows
      else if is_hidden_name (vname r)
      then hidden_loop (if is_dir r then Some (depth r) else None) rows
      else r # hidden_loop None rows)"

definition apply_hidden_filter :: "visible_row list \<Rightarrow> bool \<Rightarrow> visible_row list" where
  "apply_hidden_filter rows show_hidden = (if show_hidden then rows else hidden_loop None rows)"

section \<open>The comparator is a total order\<close>

lemma opt_u64_cmp_total: "total_cmp opt_u64_cmp"
proof
  fix x y show "opt_u64_cmp y x = ord_reverse (opt_u64_cmp x y)"
    by (cases x; cases y) (auto simp: lin_cmp_def)
next
  fix x y z show "opt_u64_cmp x y \<noteq> Greater \<Longrightarrow> opt_u64_cmp y z \<noteq> Greater \<Longrightarrow> opt_u64_cmp x z \<noteq> Greater"
    by (cases x; cases y; cases z) (auto simp: lin_cmp_def split: if_splits)
qed

lemma column_cmp_total: "total_cmp (column_cmp c)"
proof (cases c)
  case ByName
  show ?thesis using str_cmp_key [of "name :: entry \<Rightarrow> _"] by (simp add: ByName column_cmp_def [abs_def])
next
  case ByType
  show ?thesis
    using total_cmp_then [OF lin_cmp_key [of "\<lambda>e::entry. kind_rank (kind e)"] str_cmp_key [of "name :: entry \<Rightarrow> _"]]
    by (simp add: ByType column_cmp_def [abs_def])
next
  case BySize
  show ?thesis
    using total_cmp_then [OF total_cmp_key [OF opt_u64_cmp_total, of "size :: entry \<Rightarrow> _"] str_cmp_key [of "name :: entry \<Rightarrow> _"]]
    by (simp add: BySize column_cmp_def [abs_def])
next
  case ByModified
  show ?thesis
    using total_cmp_then [OF total_cmp_key [OF opt_u64_cmp_total, of "modified :: entry \<Rightarrow> _"] str_cmp_key [of "name :: entry \<Rightarrow> _"]]
    by (simp add: ByModified column_cmp_def [abs_def])
next
  case ByPerms
  show ?thesis
    using total_cmp_then [OF str_cmp_key [of "perms_or_empty :: entry \<Rightarrow> _"] str_cmp_key [of "name :: entry \<Rightarrow> _"]]
    by (simp add: ByPerms column_cmp_def [abs_def])
qed

lemma compare_entries_eq:
  "compare_entries s a b =
     then_with (lin_cmp (dir_rank (kind a)) (dir_rank (kind b)))
       (case direction s of Asc \<Rightarrow> column_cmp (column s) a b | Desc \<Rightarrow> ord_reverse (column_cmp (column s) a b))"
  by (cases "lin_cmp (dir_rank (kind a)) (dir_rank (kind b))") (auto simp: compare_entries_def Let_def)

interpretation entry_order: total_cmp "compare_entries s" for s
proof -
  have "total_cmp (\<lambda>a b. case direction s of Asc \<Rightarrow> column_cmp (column s) a b
      | Desc \<Rightarrow> ord_reverse (column_cmp (column s) a b))"
    by (cases "direction s") (simp_all add: column_cmp_total total_cmp_rev)
  from total_cmp_then [OF lin_cmp_key [of "\<lambda>e::entry. dir_rank (kind e)"] this]
  show "total_cmp (compare_entries s)" by (simp add: compare_entries_eq [abs_def])
qed

section \<open>Well-formed trees\<close>

text \<open>
  \<open>rank\<close> grows from a directory to its entries, whatever way the directory is written
  (\<open>"."\<close>, \<open>"/"\<close>, with trailing slashes), so following children never cycles.
\<close>

definition rank :: "rstring \<Rightarrow> nat" where
  "rank p = (let q = trim_end_matches slash p in if q = rs ''.'' then 0 else length q)"

definition tree_wf :: "tree_state \<Rightarrow> bool" where
  "tree_wf t \<longleftrightarrow> map_of (nodes t) (root t) \<noteq> None \<and>
     (\<forall>i n. map_of (nodes t) i = Some n \<longrightarrow> path (n_entry n) = i \<and>
        (\<forall>c \<in> set (children n). rank i < rank c \<and> map_of (nodes t) c \<noteq> None))"

lemma rs_dot [simp]: "rs ''.'' = [46]" and rs_slash [simp]: "rs ''/'' = [slash]"
  by (simp_all add: rs_def of_char_def slash_def)

lemma trim_end_matches_no [simp]: "c \<notin> set s \<Longrightarrow> trim_end_matches c s = s"
  by (cases "rev s") (auto simp: trim_end_matches_def)

lemma trim_end_matches_app [simp]:
  "s \<noteq> [] \<Longrightarrow> c \<notin> set s \<Longrightarrow> trim_end_matches c (p @ s) = p @ s"
  by (cases s rule: rev_cases) (auto simp: trim_end_matches_def)

lemma rank_join:
  assumes "n \<noteq> []" "slash \<notin> set n" "n \<noteq> rs ''.''"
  shows "rank p < rank (join_remote p n)"
proof -
  have 1: "trim_end_matches slash (slash # n) = slash # n"
    using trim_end_matches_app [of n slash "[slash]"] assms by simp
  have 2: "trim_end_matches slash (q @ slash # n) = q @ slash # n" for q
    using trim_end_matches_app [of n slash "q @ [slash]"] assms by simp
  have 3: "trim_end_matches slash [slash] = []" by (simp add: trim_end_matches_def)
  have "slash \<noteq> 46" by (simp add: slash_def)
  then show ?thesis
    using assms by (auto simp: join_remote_def rank_def Let_def 1 2 3 append_eq_Cons_conv)
qed

lemma tree_wf_new: "tree_wf (tree_new e)"
  by (simp add: tree_wf_def tree_new_def node_new_def)

lemma tree_wf_set_expanded [inv_pres]: "tree_wf t \<Longrightarrow> tree_wf (set_expanded t i b)"
  by (simp add: tree_wf_def set_expanded_def)

lemma tree_wf_upsert_child: "tree_wf t \<Longrightarrow> tree_wf (upsert_child t c)"
  by (auto simp: tree_wf_def upsert_child_def node_new_def split: option.splits)

lemma upsert_child_keys:
  "dom (map_of (nodes (upsert_child t c))) = insert (path c) (dom (map_of (nodes t)))"
  by (simp add: upsert_child_def update_conv' del: map_of_update)

lemma tree_wf_foldl_upsert: "tree_wf t \<Longrightarrow> tree_wf (foldl upsert_child t cs)"
  by (induction cs arbitrary: t) (auto intro: tree_wf_upsert_child)

lemma foldl_upsert_keys:
  "dom (map_of (nodes (foldl upsert_child t cs))) = path ` set cs \<union> dom (map_of (nodes t))"
  by (induction cs arbitrary: t) (auto simp: upsert_child_keys)

lemma tree_wf_upsert_children [inv_pres]:
  assumes "tree_wf t" and "\<forall>c \<in> set cs. rank p < rank (path c)"
  shows "tree_wf (upsert_children t p cs)"
proof -
  let ?t = "foldl upsert_child t cs"
  have wf: "tree_wf ?t" by (rule tree_wf_foldl_upsert [OF assms(1)])
  have keys: "map_of (nodes ?t) (path c) \<noteq> None" if "c \<in> set cs" for c
    using that foldl_upsert_keys [of t cs] by blast
  show ?thesis
  proof (cases "map_of (nodes ?t) p")
    case None
    then show ?thesis using wf by (simp add: upsert_children_def Let_def)
  next
    case (Some n)
    then show ?thesis using wf keys assms(2)
      by (auto simp: upsert_children_def Let_def tree_wf_def)
  qed
qed

subsection \<open>The flattening ends\<close>

definition above :: "tree_state \<Rightarrow> rstring \<Rightarrow> rstring set" where
  "above t i = {k \<in> dom (map_of (nodes t)). rank i \<le> rank k}"

lemma finite_above [simp]: "finite (above t i)"
  by (simp add: above_def finite_dom_map_of)

lemma above_child:
  assumes "tree_wf t" "map_of (nodes t) i = Some n" "c \<in> set (children n)"
  shows "card (above t c) < card (above t i)"
proof (rule psubset_card_mono)
  have "rank i < rank c" using assms by (auto simp: tree_wf_def)
  then have "above t c \<subseteq> above t i" "i \<notin> above t c" "i \<in> above t i"
    using assms(2) by (auto simp: above_def)
  then show "above t c \<subset> above t i" by blast
qed simp

lemma flatten_total:
  "tree_wf t \<Longrightarrow> card (above t i) < f \<Longrightarrow> flatten_into_sorted f t s i d \<noteq> None"
  "tree_wf t \<Longrightarrow> \<forall>i \<in> set is. card (above t i) < f \<Longrightarrow> flatten_list f t s is d \<noteq> None"
proof (induction f t s i d and f t s "is" d rule: flatten_into_sorted_flatten_list.induct)
  case (2 f t s i d)
  show ?case
  proof (cases "map_of (nodes t) i")
    case (Some n)
    have "\<forall>c \<in> set (children n). card (above t c) < f"
      using above_child [OF "2.prems"(1) Some] "2.prems"(2) by fastforce
    then show ?thesis using 2 Some by auto
  qed simp
qed auto

lemma visible_rows_total: "tree_wf t \<Longrightarrow> visible_rows_sorted t s \<noteq> None"
proof -
  assume wf: "tree_wf t"
  have "card (above t (root t)) \<le> card (dom (map_of (nodes t)))"
    by (rule card_mono) (auto simp: above_def finite_dom_map_of)
  also have "\<dots> \<le> length (nodes t)"
    by (metis card_length dom_map_of_conv_image_fst length_map list.set_map)
  finally show ?thesis
    unfolding visible_rows_sorted_def by (intro flatten_total(1) wf) simp
qed

subsection \<open>What is shown\<close>

text \<open>
  \<open>shown t i d j e\<close>: from node \<open>i\<close> at depth \<open>d\<close>, node \<open>j\<close> at depth \<open>e\<close> is reached through
  expanded directories only.
\<close>

inductive shown :: "tree_state \<Rightarrow> rstring \<Rightarrow> nat \<Rightarrow> rstring \<Rightarrow> nat \<Rightarrow> bool" for t where
  shown_self: "map_of (nodes t) i \<noteq> None \<Longrightarrow> shown t i d i d"
| shown_child: "map_of (nodes t) i = Some n \<Longrightarrow> kind (n_entry n) = KDir \<Longrightarrow> is_expanded t i \<Longrightarrow>
    c \<in> set (children n) \<Longrightarrow> shown t c (d + 1) j e \<Longrightarrow> shown t i d j e"

inductive_simps shown_iff: "shown t i d j e"

lemma flatten_shown:
  "tree_wf t \<Longrightarrow> flatten_into_sorted f t s i d = Some rows \<Longrightarrow>
     (\<lambda>r. (vid r, depth r)) ` set rows = {(j, e). shown t i d j e}"
  "tree_wf t \<Longrightarrow> flatten_list f t s is d = Some rows \<Longrightarrow>
     (\<lambda>r. (vid r, depth r)) ` set rows = {(j, e). \<exists>i \<in> set is. shown t i d j e}"
proof (induction f t s i d and f t s "is" d arbitrary: rows and rows
    rule: flatten_into_sorted_flatten_list.induct)
  case (2 f t s i d)
  show ?case
  proof (cases "map_of (nodes t) i")
    case None
    then have "\<not> shown t i d j e" for j e by (subst shown_iff) auto
    then show ?thesis using 2 None by simp
  next
    case (Some n)
    have [simp]: "path (n_entry n) = i" using "2.prems"(1) Some by (auto simp: tree_wf_def)
    show ?thesis
    proof (cases "kind (n_entry n) \<noteq> KDir \<or> \<not> is_expanded t i")
      case True
      then have "{(j, e). shown t i d j e} = {(i, d)}"
        using Some by (auto simp: shown_iff [of t i])
      then show ?thesis using 2 Some True by (auto simp: row_of_def)
    next
      case False
      with 2 Some obtain rs where rs: "rows = row_of t i n d # rs"
        "(\<lambda>r. (vid r, depth r)) ` set rs = {(j, e). \<exists>c \<in> set (children n). shown t c (d + 1) j e}"
        by auto
      have "{(j, e). shown t i d j e} =
          insert (i, d) {(j, e). \<exists>c \<in> set (children n). shown t c (d + 1) j e}"
        using Some False by (subst shown_iff) auto
      then show ?thesis using rs by (simp add: row_of_def)
    qed
  qed
next
  case (4 f t s i "is" d)
  from "4.prems"(2) obtain a b where ab: "flatten_into_sorted f t s i d = Some a"
    "flatten_list f t s is d = Some b" "rows = a @ b"
    by (auto simp: bind_eq_Some_conv)
  show ?case
    using "4.IH"(1) [OF "4.prems"(1) ab(1)] "4.IH"(2) [OF ab(1) "4.prems"(1) ab(2)] ab(3)
    by (auto simp: image_Un)
qed auto

section \<open>Helper lemmas for the properties\<close>

definition entry_of :: "tree_state \<Rightarrow> rstring \<Rightarrow> entry" where
  "entry_of t i = n_entry (the (map_of (nodes t) i))"

lemma sort_children_entries:
  assumes "tree_wf t" "map_of (nodes t) i = Some n"
  shows "map (entry_of t) (sort_by (compare_ids t s) (children n)) =
    sort_by (compare_entries s) (map (entry_of t) (children n))"
proof (rule map_sort_by)
  fix a b
  assume "a \<in> set (children n)" "b \<in> set (children n)"
  then have "map_of (nodes t) a \<noteq> None" "map_of (nodes t) b \<noteq> None"
    using assms by (auto simp: tree_wf_def)
  then show "compare_ids t s a b = compare_entries s (entry_of t a) (entry_of t b)"
    by (auto simp: compare_ids_def entry_of_def)
qed

lemma le_dirs_first: "entry_order.le s a b \<Longrightarrow> kind b = KDir \<Longrightarrow> kind a = KDir"
  by (cases "kind a") (auto simp: entry_order.le_def compare_entries_def Let_def lin_cmp_def)

text \<open>Row \<open>i\<close> lies inside the directory of row \<open>j\<close>: everything from \<open>j\<close> on is deeper.\<close>

definition inside :: "visible_row list \<Rightarrow> nat \<Rightarrow> nat \<Rightarrow> bool" where
  "inside rows j i \<longleftrightarrow> j < i \<and> is_dir (rows ! j) \<and>
     (\<forall>k. j < k \<and> k \<le> i \<longrightarrow> depth (rows ! j) < depth (rows ! k))"

definition hidden_at :: "visible_row list \<Rightarrow> nat \<Rightarrow> bool" where
  "hidden_at rows i \<longleftrightarrow> is_hidden_name (vname (rows ! i))"

definition covered :: "nat option \<Rightarrow> visible_row list \<Rightarrow> nat \<Rightarrow> bool" where
  "covered h rows i \<longleftrightarrow> (\<exists>d. h = Some d \<and> (\<forall>k\<le>i. d < depth (rows ! k)))"

lemma all_nat_Suc: "(\<forall>j. P j) \<longleftrightarrow> P 0 \<and> (\<forall>j. P (Suc j))"
  by (metis not0_implies_Suc)

lemma all_le_Suc: "(\<forall>k\<le>Suc i. P k) \<longleftrightarrow> P 0 \<and> (\<forall>k\<le>i. P (Suc k))"
  by (metis Suc_le_mono not0_implies_Suc zero_le)

lemma all_between_Suc:
  "(\<forall>k. 0 < k \<and> k \<le> Suc i \<longrightarrow> P k) \<longleftrightarrow> (\<forall>k\<le>i. P (Suc k))"
  "(\<forall>k. Suc j < k \<and> k \<le> Suc i \<longrightarrow> P k) \<longleftrightarrow> (\<forall>k. j < k \<and> k \<le> i \<longrightarrow> P (Suc k))"
  by (auto simp: gr0_conv_Suc Suc_less_eq2 Suc_le_eq)

lemma inside_Cons_0:
  "inside (r # rows) 0 (Suc i) \<longleftrightarrow> is_dir r \<and> (\<forall>k\<le>i. depth r < depth (rows ! k))"
  by (simp add: inside_def all_between_Suc)

lemma inside_Cons_Suc: "inside (r # rows) (Suc j) (Suc i) \<longleftrightarrow> inside rows j i"
  by (simp add: inside_def all_between_Suc)

definition kept :: "nat option \<Rightarrow> visible_row list \<Rightarrow> nat set" where
  "kept h rows = {i. \<not> hidden_at rows i \<and> \<not> covered h rows i \<and> (\<forall>j. inside rows j i \<longrightarrow> \<not> hidden_at rows j)}"

lemma covered_Suc:
  "covered h (r # rows) (Suc i) \<longleftrightarrow> (\<exists>d. h = Some d \<and> d < depth r) \<and> covered h rows i"
  by (cases h) (auto simp: covered_def all_le_Suc)

lemma kept_Suc:
  "Suc i \<in> kept h (r # rows) \<longleftrightarrow>
     \<not> hidden_at rows i \<and> \<not> ((\<exists>d. h = Some d \<and> d < depth r) \<and> covered h rows i) \<and>
     (\<forall>j. inside rows j i \<longrightarrow> \<not> hidden_at rows j) \<and>
     \<not> (is_hidden_name (vname r) \<and> is_dir r \<and> covered (Some (depth r)) rows i)"
proof -
  have "(\<forall>j. inside (r # rows) j (Suc i) \<longrightarrow> \<not> hidden_at (r # rows) j) \<longleftrightarrow>
      (inside (r # rows) 0 (Suc i) \<longrightarrow> \<not> is_hidden_name (vname r)) \<and>
      (\<forall>j. inside rows j i \<longrightarrow> \<not> hidden_at rows j)"
    by (subst all_nat_Suc) (simp add: hidden_at_def inside_Cons_Suc)
  moreover have "inside (r # rows) 0 (Suc i) \<longleftrightarrow> is_dir r \<and> covered (Some (depth r)) rows i"
    by (simp add: inside_Cons_0 covered_def)
  moreover have "hidden_at (r # rows) (Suc i) \<longleftrightarrow> hidden_at rows i" by (simp add: hidden_at_def)
  ultimately show ?thesis unfolding kept_def mem_Collect_eq covered_Suc by blast
qed

lemma kept_0:
  "0 \<in> kept h (r # rows) \<longleftrightarrow> \<not> is_hidden_name (vname r) \<and> \<not> (\<exists>d. h = Some d \<and> d < depth r)"
  by (auto simp: kept_def hidden_at_def covered_def inside_def)

lemma covered_None [simp]: "\<not> covered None rows i"
  by (simp add: covered_def)

lemma covered_weaken: "covered (Some e) rows i \<Longrightarrow> d < e \<Longrightarrow> covered (Some d) rows i"
  by (auto simp: covered_def)

lemma hidden_loop_nths: "hidden_loop h rows = nths rows (kept h rows)"
proof (induction rows arbitrary: h)
  case (Cons r rows)
  define c where "c \<longleftrightarrow> (\<exists>d. h = Some d \<and> d < depth r)"
  have loop: "hidden_loop h (r # rows) =
      (if c then hidden_loop h rows
       else if is_hidden_name (vname r) then hidden_loop (if is_dir r then Some (depth r) else None) rows
       else r # hidden_loop None rows)"
    by (auto simp: c_def split: option.splits)
  have "{i. Suc i \<in> kept h (r # rows)} =
      kept (if c then h else if is_hidden_name (vname r) \<and> is_dir r then Some (depth r) else None) rows"
    unfolding kept_Suc by (auto simp: kept_def c_def dest: covered_weaken)
  moreover have "0 \<in> kept h (r # rows) \<longleftrightarrow> \<not> is_hidden_name (vname r) \<and> \<not> c"
    by (simp add: kept_0 c_def)
  ultimately show ?case
    unfolding loop nths_Cons by (simp add: Cons.IH)
qed simp

lemma crumbs_from_eq:
  "map snd (crumbs_from acc ab ps) =
     map (\<lambda>k. foldl (\<lambda>a p. if a = [] then (if ab then slash # p else p) else a @ [slash] @ p)
                acc (take (Suc k) ps)) [0..<length ps]"
  "map fst (crumbs_from acc ab ps) = ps"
proof (induction ps arbitrary: acc)
  case (Cons p ps)
  {
    case 1
    then show ?case
      by (simp add: Let_def Cons.IH(1) map_upt_Suc del: upt_Suc)
  next
    case 2
    then show ?case by (simp add: Let_def Cons.IH(2))
  }
qed simp_all

text \<open>A directory path as the crumbs build it: no trailing slash, not a bare dot.\<close>

definition dir_acc :: "rstring \<Rightarrow> bool" where
  "dir_acc p \<longleftrightarrow> p \<noteq> [] \<and> trim_end_matches slash p = p \<and> p \<noteq> rs ''.''"

lemma join_dir_acc: "dir_acc p \<Longrightarrow> join_remote p n = p @ [slash] @ n"
  by (auto simp: dir_acc_def join_remote_def Let_def trim_end_matches_def)

lemma dir_acc_app: "n \<noteq> [] \<Longrightarrow> slash \<notin> set n \<Longrightarrow> dir_acc (slash # n)"
  using trim_end_matches_app [of n slash "[slash]"] by (auto simp: dir_acc_def slash_def)

lemma dir_acc_join: "p \<noteq> [] \<Longrightarrow> n \<noteq> [] \<Longrightarrow> slash \<notin> set n \<Longrightarrow> dir_acc (p @ [slash] @ n)"
  using trim_end_matches_app [of n slash "p @ [slash]"]
  by (auto simp: dir_acc_def append_eq_Cons_conv)

definition joined :: "(rstring \<times> rstring) list \<Rightarrow> bool" where
  "joined cs \<longleftrightarrow> (\<forall>i. Suc i < length cs \<longrightarrow> snd (cs ! Suc i) = join_remote (snd (cs ! i)) (fst (cs ! Suc i)))"

lemma joined_Cons:
  "joined (c # cs) \<longleftrightarrow> (cs \<noteq> [] \<longrightarrow> snd (hd cs) = join_remote (snd c) (fst (hd cs))) \<and> joined cs"
proof (cases cs)
  case (Cons d ds)
  show ?thesis unfolding joined_def Cons
    by (subst all_nat_Suc) auto
qed (simp add: joined_def)

lemma crumbs_joined:
  "dir_acc acc \<Longrightarrow> \<forall>p \<in> set ps. p \<noteq> [] \<and> slash \<notin> set p \<Longrightarrow>
     joined ((l, acc) # crumbs_from acc ab ps)"
proof (induction ps arbitrary: acc l)
  case (Cons p ps)
  have "acc \<noteq> []" using Cons.prems(1) by (simp add: dir_acc_def)
  then have "joined ((p, acc @ [slash] @ p) # crumbs_from (acc @ [slash] @ p) ab ps)"
    using Cons.prems by (intro Cons.IH dir_acc_join) auto
  then show ?case using \<open>acc \<noteq> []\<close> join_dir_acc [OF Cons.prems(1)]
    by (subst joined_Cons) (simp add: Let_def)
qed (simp add: joined_def)

lemma path_parts_ok: "p \<in> set (path_parts s) \<Longrightarrow> p \<noteq> [] \<and> slash \<notin> set p"
  by (auto simp: path_parts_def dest: split_char_no_sep)

section \<open>Properties\<close>

text \<open>C34:
  Listing the tree always ends, and lists exactly what is visible: the rows are the nodes
  reached from the root through expanded directories, each at its depth.\<close>

theorem visible_rows_complete:
  assumes "tree_wf t"
  shows "\<exists>rows. visible_rows_sorted t s = Some rows \<and>
    (\<lambda>r. (vid r, depth r)) ` set rows = {(i, d). shown t (root t) 0 i d}"
proof -
  obtain rows where "visible_rows_sorted t s = Some rows"
    using visible_rows_total [OF assms, of s] by blast
  then show ?thesis
    using flatten_shown(1) [OF assms, of _ s "root t" 0 rows] unfolding visible_rows_sorted_def by blast
qed

text \<open>The entries of a directory are shown in a well-defined order: a stable sort by the chosen
  column and direction in which the directories come first, in either direction.\<close>

theorem children_sorted:
  assumes "tree_wf t" and "map_of (nodes t) i = Some n"
  shows "let es = map (entry_of t) (sort_by (compare_ids t s) (children n))
    in mset es = mset (map (entry_of t) (children n)) \<and> sorted_wrt (entry_order.le s) es \<and>
       es = filter (\<lambda>e. kind e = KDir) es @ filter (\<lambda>e. kind e \<noteq> KDir) es \<and>
       (\<forall>z. filter (\<lambda>e. compare_entries s z e = Equal) es =
            filter (\<lambda>e. compare_entries s z e = Equal) (map (entry_of t) (children n)))"
proof -
  define es where "es = sort_by (compare_entries s) (map (entry_of t) (children n))"
  have sorted: "sorted_wrt (entry_order.le s) es" by (simp add: es_def entry_order.sort_by_sorted)
  then have "sorted_wrt (\<lambda>a b. kind b = KDir \<longrightarrow> kind a = KDir) es"
    by (rule sorted_wrt_mono_rel [rotated]) (auto dest: le_dirs_first)
  from take_partition_point [OF this] have "es = filter (\<lambda>e. kind e = KDir) es @ filter (\<lambda>e. kind e \<noteq> KDir) es"
    by (metis append_take_drop_id)
  then show ?thesis
    using sorted entry_order.sort_by_stable [of s]
    unfolding sort_children_entries [OF assms] es_def [symmetric] Let_def
    by (simp add: es_def)
qed

text \<open>C35:
  With dot files hidden, exactly the rows are kept that are not hidden and do not lie inside
  a hidden directory; their order is unchanged.\<close>

theorem hidden_filter_spec:
  "apply_hidden_filter rows False =
     nths rows {i. \<not> hidden_at rows i \<and> (\<nexists>j. inside rows j i \<and> hidden_at rows j)}"
proof -
  have "kept None rows = {i. \<not> hidden_at rows i \<and> (\<nexists>j. inside rows j i \<and> hidden_at rows j)}"
    by (auto simp: kept_def)
  then show ?thesis by (simp add: apply_hidden_filter_def hidden_loop_nths)
qed

text \<open>The breadcrumbs of an absolute path start at the root and step down one entry at a time:
  each crumb's target is its label joined to the target before it; the last label is the
  directory's display name.\<close>

theorem breadcrumbs_step_down:
  assumes "starts_with (rs ''/'') (trim p)"
  shows "hd (breadcrumbs_for_path p) = (rs ''/'', rs ''/'') \<and> joined (breadcrumbs_for_path p) \<and>
    fst (last (breadcrumbs_for_path p)) = display_name_for_dir p"
proof -
  let ?ps = "path_parts (trim p)"
  have abs: "trim p \<noteq> []" "trim p \<noteq> [46]" using assms by (auto simp: starts_with_iff slash_def)
  show ?thesis
  proof (cases "?ps = [] \<or> trim p = [slash]")
    case True
    then show ?thesis using abs assms
      by (auto simp: breadcrumbs_for_path_def display_name_for_dir_def Let_def joined_def)
  next
    case False
    then obtain q qs where ps: "?ps = q # qs" by (cases ?ps) auto
    have ok: "q \<noteq> []" "slash \<notin> set q" "\<forall>p \<in> set qs. p \<noteq> [] \<and> slash \<notin> set p"
      using path_parts_ok [of _ "trim p"] ps by auto
    have b: "breadcrumbs_for_path p = ([slash], [slash]) # (q, slash # q) # crumbs_from (slash # q) True qs"
      using False abs assms ps by (simp add: breadcrumbs_for_path_def Let_def)
    have "joined ((q, slash # q) # crumbs_from (slash # q) True qs)"
      by (rule crumbs_joined [OF dir_acc_app [OF ok(1,2)] ok(3)])
    then have "joined (breadcrumbs_for_path p)"
      unfolding b by (subst joined_Cons) (simp add: join_remote_def)
    moreover have "fst (last (breadcrumbs_for_path p)) = last (map fst (breadcrumbs_for_path p))"
      by (simp add: b last_map)
    then have "fst (last (breadcrumbs_for_path p)) = display_name_for_dir p"
      using False abs ps by (simp add: b crumbs_from_eq(2) display_name_for_dir_def Let_def)
    ultimately show ?thesis by (simp add: b)
  qed
qed

section \<open>Examples\<close>

definition demo_entry :: "string \<Rightarrow> string \<Rightarrow> entry_kind \<Rightarrow> entry" where
  "demo_entry p n k = entry_new (rs p) (rs n) k"

definition demo_tree :: tree_state where
  "demo_tree = upsert_children (tree_new (demo_entry ''/'' ''/'' KDir)) (rs ''/'')
     [demo_entry ''/b'' ''b'' KFile, demo_entry ''/a'' ''a'' KFile, demo_entry ''/d'' ''d'' KDir]"

lemma demo_tree_wf: "tree_wf demo_tree"
proof -
  have "\<forall>c \<in> set [demo_entry ''/b'' ''b'' KFile, demo_entry ''/a'' ''a'' KFile,
      demo_entry ''/d'' ''d'' KDir]. rank (rs ''/'') < rank (path c)"
    by (simp add: demo_entry_def entry_new_def entry_new_with_meta_def rs_def of_char_def rank_def
          trim_end_matches_def slash_def)
  then show ?thesis unfolding demo_tree_def by (intro tree_wf_upsert_children tree_wf_new)
qed

lemmas tree_eval = demo_tree_def demo_entry_def entry_new_def entry_new_with_meta_def tree_new_def
  node_new_def upsert_children_def upsert_child_def rs_def of_char_def Let_def

lemma visible_rows_complete_witness:
  "\<exists>rows. visible_rows_sorted demo_tree sort_default = Some rows \<and>
     map vname rows = [rs ''/'', rs ''d'', rs ''a'', rs ''b'']"
proof -
  obtain rows where "visible_rows_sorted demo_tree sort_default = Some rows"
    using visible_rows_complete [OF demo_tree_wf, of sort_default] by blast
  moreover have "map_option (map vname) (visible_rows_sorted demo_tree sort_default) =
      Some [rs ''/'', rs ''d'', rs ''a'', rs ''b'']"
    by (simp add: tree_eval visible_rows_sorted_def is_expanded_def row_of_def compare_ids_def
          sort_default_def compare_entries_def column_cmp_def lin_cmp_def eval_nat_numeral)
  ultimately show ?thesis by simp
qed

lemma children_sorted_witness:
  "sorted_wrt (entry_order.le \<lparr> column = ByName, direction = Desc \<rparr>)
     (map (entry_of demo_tree)
        (sort_by (compare_ids demo_tree \<lparr> column = ByName, direction = Desc \<rparr>)
           [rs ''/b'', rs ''/a'', rs ''/d'']))"
proof -
  have "map_of (nodes demo_tree) (rs ''/'') = Some \<lparr> n_entry = demo_entry ''/'' ''/'' KDir,
      children = [rs ''/b'', rs ''/a'', rs ''/d''], loaded_children = True \<rparr>"
    by (simp add: tree_eval)
  from children_sorted [OF demo_tree_wf this, of "\<lparr> column = ByName, direction = Desc \<rparr>"]
  show ?thesis by (simp add: Let_def)
qed

lemma breadcrumbs_step_down_witness:
  "breadcrumbs_for_path (rs ''/a/b'') =
     [(rs ''/'', rs ''/''), (rs ''a'', rs ''/a''), (rs ''b'', rs ''/a/b'')] \<and>
   joined (breadcrumbs_for_path (rs ''/a/b''))"
proof
  show b: "breadcrumbs_for_path (rs ''/a/b'') =
     [(rs ''/'', rs ''/''), (rs ''a'', rs ''/a''), (rs ''b'', rs ''/a/b'')]"
    by (simp add: breadcrumbs_for_path_def path_parts_def trim_def trim_start_def trim_end_def
          is_whitespace_def trim_end_matches_def slash_def starts_with_def Let_def rs_def of_char_def)
  have "starts_with (rs ''/'') (trim (rs ''/a/b''))"
    by (simp add: trim_def trim_start_def trim_end_def is_whitespace_def starts_with_def rs_def of_char_def)
  then show "joined (breadcrumbs_for_path (rs ''/a/b''))" using breadcrumbs_step_down by blast
qed

end
