(* ===== verification/SftpTable.thy ===== *)
theory SftpTable
  imports SftpTree
begin

text \<open>
  The table of the SFTP browser (\<open>crates/gpui_sftp/src/view/table/navigation.rs\<close>): visible
  rows, selection by click, shift-click, ctrl-click and drag, opening directories, reading
  them, moving to another root, sorting, and the targets of drops. A \<open>None\<close> result means the
  listing did not end. \<open>file_name\<close> is \<open>Utf8Path::file_name\<close> of the camino crate, a
  parameter; an answer of the server is the list of its entries' paths and metadata.
\<close>

section \<open>State\<close>

record modifiers =
  secondary :: bool
  shift :: bool

record sftp_table =
  connected :: bool
  tree :: "tree_state option"
  loading :: "rstring list"
  show_hidden :: bool
  selected_ids :: "rstring list"
  selection_anchor_id :: "rstring option"
  drag_selecting :: bool
  sort :: sort_spec
  visible :: "visible_row list"
  context_row :: "nat option"

definition row :: "sftp_table \<Rightarrow> nat \<Rightarrow> visible_row option" where
  "row tb i = (if i < length (visible tb) then Some (visible tb ! i) else None)"

section \<open>Rows and selection\<close>

definition retain_visible :: "sftp_table \<Rightarrow> sftp_table" where
  "retain_visible tb =
     (let ids = map vid (visible tb)
      in tb\<lparr>selected_ids := filter (\<lambda>i. i \<in> set ids) (selected_ids tb),
            selection_anchor_id :=
              (case selection_anchor_id tb of
                 None \<Rightarrow> None | Some a \<Rightarrow> if a \<in> set ids then Some a else None)\<rparr>)"

definition rebuild_visible :: "sftp_table \<Rightarrow> sftp_table option" where
  "rebuild_visible tb =
     do {
       rows \<leftarrow> (case tree tb of None \<Rightarrow> Some [] | Some t \<Rightarrow> visible_rows_sorted t (sort tb));
       Some (retain_visible (tb\<lparr>visible := apply_hidden_filter (drop 1 rows) (show_hidden tb)\<rparr>))
     }"

definition table_new :: "sftp_table option" where
  "table_new =
     (let t = tree_new (entry_new (rs ''.'') (rs ''~'') KDir)
      in do {
        rows \<leftarrow> visible_rows_sorted t sort_default;
        Some \<lparr> connected = True, tree = Some t, loading = [], show_hidden = False,
               selected_ids = [], selection_anchor_id = None, drag_selecting = False,
               sort = sort_default, visible = apply_hidden_filter (drop 1 rows) False,
               context_row = None \<rparr>
      })"

definition status :: "sftp_table \<Rightarrow> nat \<times> nat" where
  "status tb = (length (visible tb), length (selected_ids tb))"

definition selected_ids_sorted :: "sftp_table \<Rightarrow> rstring list" where
  "selected_ids_sorted tb = sort_by str_cmp (selected_ids tb)"

fun row_position :: "rstring \<Rightarrow> visible_row list \<Rightarrow> nat option" where
  "row_position i [] = None"
| "row_position i (r # rows) = (if vid r = i then Some 0 else map_option Suc (row_position i rows))"

definition insert_all :: "rstring list \<Rightarrow> rstring list \<Rightarrow> rstring list" where
  "insert_all xs sel = foldl (\<lambda>sel x. List.insert x sel) sel xs"

definition click_row_local :: "sftp_table \<Rightarrow> nat \<Rightarrow> modifiers \<Rightarrow> sftp_table" where
  "click_row_local tb row_ix m =
     (case row tb row_ix of
        None \<Rightarrow> tb
      | Some r \<Rightarrow>
          let target = vid r;
              sel =
                (if shift m then
                   (case selection_anchor_id tb of
                      None \<Rightarrow> [target]
                    | Some anchor \<Rightarrow>
                        (case row_position anchor (visible tb) of
                           None \<Rightarrow> [target]
                         | Some anchor_ix \<Rightarrow>
                             let (a, b) = (if anchor_ix \<le> row_ix then (anchor_ix, row_ix)
                                           else (row_ix, anchor_ix));
                                 base = (if secondary m then selected_ids tb else [])
                             in insert_all (map vid (take (b - a + 1) (drop a (visible tb)))) base))
                 else if secondary m then
                   (if target \<in> set (selected_ids tb) then removeAll target (selected_ids tb)
                    else List.insert target (selected_ids tb))
                 else [target])
          in tb\<lparr>selected_ids := sel, selection_anchor_id := Some target\<rparr>)"

definition clear_selection :: "sftp_table \<Rightarrow> sftp_table" where
  "clear_selection tb =
     tb\<lparr>selected_ids := [], selection_anchor_id := None, context_row := None,
        drag_selecting := False\<rparr>"

definition begin_drag_select :: "sftp_table \<Rightarrow> nat \<Rightarrow> modifiers \<Rightarrow> sftp_table" where
  "begin_drag_select = click_row_local"

definition begin_blank_drag_select :: "sftp_table \<Rightarrow> sftp_table" where
  "begin_blank_drag_select tb = (clear_selection tb)\<lparr>drag_selecting := True\<rparr>"

definition drag_select_row :: "sftp_table \<Rightarrow> nat \<Rightarrow> sftp_table \<times> bool" where
  "drag_select_row tb row_ix =
     (if \<not> drag_selecting tb then (tb, False)
      else case row tb row_ix of
             None \<Rightarrow> (tb, False)
           | Some r \<Rightarrow> (tb\<lparr>selected_ids := List.insert (vid r) (selected_ids tb)\<rparr>, True))"

definition end_drag_select :: "sftp_table \<Rightarrow> sftp_table" where
  "end_drag_select tb = tb\<lparr>drag_selecting := False\<rparr>"

definition set_context_menu_target :: "sftp_table \<Rightarrow> nat option \<Rightarrow> sftp_table" where
  "set_context_menu_target tb row_ix =
     (let tb = tb\<lparr>context_row := row_ix\<rparr>
      in case row_ix of
           None \<Rightarrow> tb
         | Some i \<Rightarrow>
             (case row tb i of
                None \<Rightarrow> tb
              | Some r \<Rightarrow>
                  let tb = (if vid r \<in> set (selected_ids tb) then tb
                            else tb\<lparr>selected_ids := [vid r]\<rparr>)
                  in tb\<lparr>selection_anchor_id := Some (vid r)\<rparr>))"

definition selection_summary :: "sftp_table \<Rightarrow> nat \<times> bool \<times> bool" where
  "selection_summary tb =
     (let rows = filter (\<lambda>r. vid r \<in> set (selected_ids tb)) (visible tb)
      in (length rows, \<exists>r \<in> set rows. vkind r \<noteq> KDir, \<exists>r \<in> set rows. vkind r = KDir))"

definition delete_target_ids :: "sftp_table \<Rightarrow> nat option \<Rightarrow> rstring list" where
  "delete_target_ids tb target =
     (if selected_ids tb \<noteq> [] then selected_ids_sorted tb
      else case Option.bind target (row tb) of None \<Rightarrow> [] | Some r \<Rightarrow> [vid r])"

section \<open>Directories\<close>

definition toggle_dir_local :: "sftp_table \<Rightarrow> nat \<Rightarrow> (sftp_table \<times> rstring option) option" where
  "toggle_dir_local tb row_ix =
     (case row tb row_ix of
        None \<Rightarrow> Some (tb, None)
      | Some r \<Rightarrow>
          if vkind r \<noteq> KDir then Some (tb, None)
          else case tree tb of
                 None \<Rightarrow> Some (tb, None)
               | Some t \<Rightarrow>
                   let nxt = \<not> is_expanded t (vid r)
                   in do {
                     tb \<leftarrow> rebuild_visible (tb\<lparr>tree := Some (set_expanded t (vid r) nxt)\<rparr>);
                     Some (tb, if nxt \<and> \<not> v_loaded r then Some (vid r) else None)
                   })"

text \<open>\<open>refresh_dir\<close> up to the request it sends, and the handler of the answer.\<close>

definition refresh_dir :: "sftp_table \<Rightarrow> rstring \<Rightarrow> sftp_table option" where
  "refresh_dir tb dir =
     (if \<not> connected tb then Some tb
      else case tree tb of
             None \<Rightarrow> Some tb
           | Some t \<Rightarrow>
               rebuild_visible
                 (tb\<lparr>loading := List.insert dir (loading tb), tree := Some (set_expanded t dir True)\<rparr>))"

record metadata =
  ty :: entry_kind
  m_size :: "nat option"
  m_modified :: "nat option"
  permissions :: "(bool \<times> bool \<times> bool) list option"

definition tri :: "bool \<times> bool \<times> bool \<Rightarrow> rstring" where
  "tri p = (case p of (r, w, x) \<Rightarrow>
     [if r then 114 else 45, if w then 119 else 45, if x then 120 else 45])"

definition format_perms :: "(bool \<times> bool \<times> bool) list \<Rightarrow> rstring" where
  "format_perms ps = concat (map tri ps)"

definition entry_from_meta :: "(rstring \<Rightarrow> rstring option) \<Rightarrow> rstring \<Rightarrow> metadata \<Rightarrow> entry" where
  "entry_from_meta file_name p m =
     entry_new_with_meta p (case file_name p of None \<Rightarrow> p | Some n \<Rightarrow> n) (ty m) (m_size m)
       (m_modified m) (map_option format_perms (permissions m))"

definition listed_entry ::
  "(rstring \<Rightarrow> rstring option) \<Rightarrow> rstring \<Rightarrow> rstring \<times> metadata \<Rightarrow> entry option" where
  "listed_entry file_name dir e =
     (case file_name (fst e) of
        None \<Rightarrow> None
      | Some n \<Rightarrow>
          if n = rs ''.'' \<or> n = rs ''..'' then None
          else Some (entry_from_meta file_name (join_remote dir n) (snd e)))"

definition read_dir_done ::
  "(rstring \<Rightarrow> rstring option) \<Rightarrow> sftp_table \<Rightarrow> rstring \<Rightarrow> (rstring \<times> metadata) list option \<Rightarrow>
   sftp_table option" where
  "read_dir_done file_name tb dir res =
     (let tb = tb\<lparr>loading := removeAll dir (loading tb)\<rparr>
      in case res of
           None \<Rightarrow> rebuild_visible tb
         | Some es \<Rightarrow>
             rebuild_visible
               (tb\<lparr>tree := map_option
                      (\<lambda>t. upsert_children t dir (List.map_filter (listed_entry file_name dir) es))
                      (tree tb)\<rparr>))"

definition toggle_dir :: "sftp_table \<Rightarrow> nat \<Rightarrow> sftp_table option" where
  "toggle_dir tb row_ix =
     do { (tb, dir) \<leftarrow> toggle_dir_local tb row_ix;
          case dir of None \<Rightarrow> Some tb | Some d \<Rightarrow> refresh_dir tb d }"

definition bootstrap_done :: "sftp_table \<Rightarrow> rstring option \<Rightarrow> sftp_table option" where
  "bootstrap_done tb res =
     (let r = (case res of None \<Rightarrow> rs ''.'' | Some p \<Rightarrow> p)
      in do {
        tb \<leftarrow> rebuild_visible (tb\<lparr>tree := Some (tree_new (entry_new r (display_name_for_dir r) KDir))\<rparr>);
        refresh_dir tb r
      })"

definition cd :: "sftp_table \<Rightarrow> rstring \<Rightarrow> sftp_table option" where
  "cd tb dir =
     (if \<not> connected tb then Some tb
      else do {
        tb \<leftarrow> rebuild_visible
          (tb\<lparr>loading := [], tree := Some (tree_new (entry_new dir (display_name_for_dir dir) KDir))\<rparr>);
        refresh_dir tb dir
      })"

definition disconnect :: "sftp_table \<Rightarrow> sftp_table" where
  "disconnect tb = tb\<lparr>connected := False, loading := []\<rparr>"

fun flip_direction :: "sort_direction \<Rightarrow> sort_direction" where
  "flip_direction Asc = Desc"
| "flip_direction Desc = Asc"

definition set_sort :: "sftp_table \<Rightarrow> sort_column \<Rightarrow> sftp_table option" where
  "set_sort tb c =
     rebuild_visible
       (tb\<lparr>sort := (if column (sort tb) = c
                    then (sort tb)\<lparr>direction := flip_direction (direction (sort tb))\<rparr>
                    else \<lparr> column = c, direction = Asc \<rparr>)\<rparr>)"

definition toggle_show_hidden :: "sftp_table \<Rightarrow> sftp_table option" where
  "toggle_show_hidden tb = rebuild_visible (tb\<lparr>show_hidden := \<not> show_hidden tb\<rparr>)"

definition open_refresh_dirs :: "sftp_table \<Rightarrow> rstring list option" where
  "open_refresh_dirs tb =
     (case tree tb of
        None \<Rightarrow> Some []
      | Some t \<Rightarrow>
          map_option (\<lambda>rows. map vid (filter (\<lambda>r. vkind r = KDir \<and> v_expanded r) rows))
            (visible_rows_sorted t (sort tb)))"

definition refresh_at :: "sftp_table \<Rightarrow> sftp_table option" where
  "refresh_at tb =
     do { dirs \<leftarrow> open_refresh_dirs tb;
          fold (\<lambda>d tb. Option.bind tb (\<lambda>tb. refresh_dir tb d)) dirs (Some tb) }"

section \<open>Drop targets\<close>

record remote_drag_entry =
  d_id :: rstring
  d_name :: rstring
  d_kind :: entry_kind

definition remote_move_destination :: "rstring \<Rightarrow> rstring \<Rightarrow> rstring \<Rightarrow> rstring option" where
  "remote_move_destination src nm target_dir =
     (let dst = join_remote target_dir nm in if dst \<noteq> src then Some dst else None)"

definition remote_move_target_dir :: "remote_drag_entry \<Rightarrow> rstring \<Rightarrow> rstring option" where
  "remote_move_target_dir drag target_dir =
     (if d_kind drag \<noteq> KFile then None
      else map_option (\<lambda>_. target_dir) (remote_move_destination (d_id drag) (d_name drag) target_dir))"

definition drop_upload_target_dir :: "sftp_table \<Rightarrow> nat option \<Rightarrow> rstring option" where
  "drop_upload_target_dir tb target_row =
     map_option (\<lambda>t.
       case Option.bind target_row (row tb) of
         None \<Rightarrow> root t
       | Some r \<Rightarrow> if vkind r = KDir then vid r else root t) (tree tb)"

definition drop_remote_move_target_dir ::
  "sftp_table \<Rightarrow> nat option \<Rightarrow> remote_drag_entry \<Rightarrow> rstring option" where
  "drop_remote_move_target_dir tb target_row drag =
     do {
       t \<leftarrow> tree tb;
       dir \<leftarrow> (case Option.bind target_row (row tb) of
                Some r \<Rightarrow> if vkind r = KDir then Some (vid r) else None
              | None \<Rightarrow> Some (root t));
       remote_move_target_dir drag dir
     }"

definition drop_remote_move_target_dir_for_blank_row ::
  "sftp_table \<Rightarrow> nat \<Rightarrow> remote_drag_entry \<Rightarrow> rstring option" where
  "drop_remote_move_target_dir_for_blank_row tb blank_row_ix drag =
     do {
       t \<leftarrow> tree tb;
       if row tb blank_row_ix \<noteq> None then None
       else case checked_sub (min blank_row_ix (length (visible tb))) 1 of
              None \<Rightarrow> remote_move_target_dir drag (root t)
            | Some prev_ix \<Rightarrow>
                do {
                  previous \<leftarrow> row tb prev_ix;
                  remote_move_target_dir drag
                    (if vkind previous = KDir \<and> v_expanded previous then vid previous
                     else case find (\<lambda>r. vkind r = KDir \<and> v_expanded r \<and> depth r < depth previous)
                                 (rev (take (Suc prev_ix) (visible tb))) of
                            None \<Rightarrow> root t
                          | Some r \<Rightarrow> vid r)
                }
     }"

definition selected_dir_for_new_entries ::
  "(rstring \<Rightarrow> rstring option) \<Rightarrow> sftp_table \<Rightarrow> nat option \<Rightarrow> rstring option" where
  "selected_dir_for_new_entries parent_dir tb target_row =
     map_option (\<lambda>t.
       case Option.bind target_row (row tb) of
         None \<Rightarrow> root t
       | Some r \<Rightarrow>
           if vkind r = KDir then vid r
           else case parent_dir (vid r) of None \<Rightarrow> root t | Some p \<Rightarrow> p) (tree tb)"

section \<open>Invariant\<close>

text \<open>Everything selected is visible, and so is the anchor of a range selection.\<close>

definition table_wf :: "sftp_table \<Rightarrow> bool" where
  "table_wf tb \<longleftrightarrow> (\<forall>t. tree tb = Some t \<longrightarrow> tree_wf t) \<and>
     distinct (selected_ids tb) \<and> set (selected_ids tb) \<subseteq> vid ` set (visible tb) \<and>
     (\<forall>a. selection_anchor_id tb = Some a \<longrightarrow> a \<in> vid ` set (visible tb))"

text \<open>What the model uses of \<open>Utf8Path::file_name\<close>: a path component is not empty and has no slash.\<close>

definition file_name_law :: "(rstring \<Rightarrow> rstring option) \<Rightarrow> bool" where
  "file_name_law file_name \<longleftrightarrow> (\<forall>p n. file_name p = Some n \<longrightarrow> n \<noteq> [] \<and> slash \<notin> set n)"

lemma row_Some: "row tb i = Some r \<Longrightarrow> r \<in> set (visible tb)"
  by (auto simp: row_def split: if_splits)

lemma insert_all_set [simp]: "set (insert_all xs sel) = set sel \<union> set xs"
  unfolding insert_all_def by (induction xs arbitrary: sel) auto

lemma insert_all_distinct: "distinct sel \<Longrightarrow> distinct (insert_all xs sel)"
  unfolding insert_all_def by (induction xs arbitrary: sel) auto

lemma rebuild_visible_wf [inv_pres]:
  assumes "\<forall>t. tree tb = Some t \<longrightarrow> tree_wf t" and "distinct (selected_ids tb)"
  shows "\<exists>tb'. rebuild_visible tb = Some tb' \<and> table_wf tb' \<and> tree tb' = tree tb \<and>
    connected tb' = connected tb"
proof -
  obtain rows where "(case tree tb of None \<Rightarrow> Some [] | Some t \<Rightarrow> visible_rows_sorted t (sort tb)) = Some rows"
    using assms(1) visible_rows_total by (cases "tree tb") force+
  then show ?thesis
    using assms
    by (auto simp: rebuild_visible_def retain_visible_def table_wf_def Let_def split: option.splits if_splits)
qed

lemma table_new_wf: "\<exists>tb. table_new = Some tb \<and> table_wf tb"
proof -
  let ?t = "tree_new (entry_new (rs ''.'') (rs ''~'') KDir)"
  obtain rows where "visible_rows_sorted ?t sort_default = Some rows"
    using visible_rows_total [OF tree_wf_new] by blast
  then show ?thesis by (simp add: table_new_def table_wf_def tree_wf_new)
qed

lemma click_row_wf: "table_wf tb \<Longrightarrow> table_wf (click_row_local tb i m)"
proof (cases "row tb i")
  case (Some r)
  assume wf: "table_wf tb"
  have range: "set (take n (drop a (visible tb))) \<subseteq> set (visible tb)" for n a
    by (meson order_trans set_drop_subset set_take_subset)
  have "\<forall>x \<in> set (selected_ids (click_row_local tb i m)).
      x \<in> set (selected_ids tb) \<or> x \<in> vid ` set (visible tb)"
    using range row_Some [OF Some]
    by (auto simp: click_row_local_def Some Let_def split: option.splits prod.splits if_splits)
  moreover have "distinct (selected_ids (click_row_local tb i m))"
    using wf by (auto simp: click_row_local_def Some Let_def table_wf_def insert_all_distinct
        distinct_removeAll split: option.splits prod.splits if_splits)
  moreover have "selection_anchor_id (click_row_local tb i m) = Some (vid r)"
    "visible (click_row_local tb i m) = visible tb" "tree (click_row_local tb i m) = tree tb"
    by (simp_all add: click_row_local_def Some Let_def)
  ultimately show ?thesis using wf row_Some [OF Some] by (auto simp: table_wf_def)
qed (simp add: click_row_local_def)

lemma drag_select_row_wf: "table_wf tb \<Longrightarrow> table_wf (fst (drag_select_row tb i))"
  using row_Some by (fastforce simp: drag_select_row_def table_wf_def split: option.splits)

lemma set_context_wf: "table_wf tb \<Longrightarrow> table_wf (set_context_menu_target tb i)"
  using row_Some
  by (fastforce simp: set_context_menu_target_def table_wf_def row_def Let_def split: option.splits if_splits)

lemma clear_selection_wf: "table_wf tb \<Longrightarrow> table_wf (clear_selection tb)"
  by (simp add: clear_selection_def table_wf_def)

lemma refresh_dir_wf: "table_wf tb \<Longrightarrow> \<exists>tb'. refresh_dir tb d = Some tb' \<and> table_wf tb'"
  using rebuild_visible_wf [of "tb\<lparr>loading := List.insert d (loading tb),
      tree := Some (set_expanded (the (tree tb)) d True)\<rparr>"]
  by (cases "tree tb") (auto simp: refresh_dir_def table_wf_def tree_wf_set_expanded)

lemma toggle_dir_local_wf:
  "table_wf tb \<Longrightarrow> \<exists>tb' d. toggle_dir_local tb i = Some (tb', d) \<and> table_wf tb'"
proof (cases "row tb i")
  case (Some r)
  assume wf: "table_wf tb"
  show ?thesis
  proof (cases "tree tb")
    case (Some t)
    then have "\<exists>tb'. rebuild_visible (tb\<lparr>tree := Some (set_expanded t (vid r) b)\<rparr>) = Some tb' \<and> table_wf tb'" for b
      using rebuild_visible_wf [of "tb\<lparr>tree := Some (set_expanded t (vid r) b)\<rparr>"] wf
      by (auto simp: table_wf_def tree_wf_set_expanded)
    from this [of "\<not> is_expanded t (vid r)"] show ?thesis
      using Some \<open>row tb i = Some r\<close> wf by (auto simp: toggle_dir_local_def Let_def)
  qed (use Some wf in \<open>simp add: toggle_dir_local_def\<close>)
qed (simp add: toggle_dir_local_def)

lemma listed_entry_rank:
  assumes "file_name_law file_name" and "listed_entry file_name dir e = Some c"
  shows "rank dir < rank (path c)"
proof -
  obtain n where n: "file_name (fst e) = Some n" "n \<noteq> rs ''.''"
    "c = entry_from_meta file_name (join_remote dir n) (snd e)"
    using assms(2) by (auto simp: listed_entry_def split: option.splits if_splits)
  then have "rank dir < rank (join_remote dir n)"
    using assms(1) by (intro rank_join) (auto simp: file_name_law_def)
  then show ?thesis using n(3) by (simp add: entry_from_meta_def entry_new_with_meta_def)
qed

lemma read_dir_done_wf:
  assumes "file_name_law file_name" and "table_wf tb"
  shows "\<exists>tb'. read_dir_done file_name tb dir res = Some tb' \<and> table_wf tb'"
proof -
  have ranks: "\<forall>c \<in> set (List.map_filter (listed_entry file_name dir) es). rank dir < rank (path c)" for es
    using listed_entry_rank [OF assms(1)]
    by (auto simp: List.map_filter_def)
  show ?thesis
  proof (cases res)
    case None
    then show ?thesis
      using rebuild_visible_wf [of "tb\<lparr>loading := removeAll dir (loading tb)\<rparr>"] assms(2)
      by (auto simp: read_dir_done_def table_wf_def)
  next
    case (Some es)
    then show ?thesis
      using rebuild_visible_wf [of "tb\<lparr>loading := removeAll dir (loading tb), tree := map_option
          (\<lambda>t. upsert_children t dir (List.map_filter (listed_entry file_name dir) es)) (tree tb)\<rparr>"]
        assms(2) tree_wf_upsert_children [OF _ ranks]
      by (auto simp: read_dir_done_def table_wf_def Let_def)
  qed
qed

lemma new_root_wf:
  assumes "table_wf tb"
  shows "\<exists>tb'. do { tb \<leftarrow> rebuild_visible (tb\<lparr>loading := l, tree := Some (tree_new e)\<rparr>);
    refresh_dir tb d } = Some tb' \<and> table_wf tb'"
proof -
  obtain tb1 where "rebuild_visible (tb\<lparr>loading := l, tree := Some (tree_new e)\<rparr>) = Some tb1"
    "table_wf tb1"
    using rebuild_visible_wf [of "tb\<lparr>loading := l, tree := Some (tree_new e)\<rparr>"] assms
    by (auto simp: table_wf_def tree_wf_new)
  then show ?thesis using refresh_dir_wf by simp
qed

lemma cd_wf: "table_wf tb \<Longrightarrow> \<exists>tb'. cd tb d = Some tb' \<and> table_wf tb'"
  using new_root_wf by (simp add: cd_def)

lemma bootstrap_wf: "table_wf tb \<Longrightarrow> \<exists>tb'. bootstrap_done tb res = Some tb' \<and> table_wf tb'"
  using new_root_wf [where tb = tb and l = "loading tb"] by (simp add: bootstrap_done_def Let_def)

lemma toggle_dir_wf: "table_wf tb \<Longrightarrow> \<exists>tb'. toggle_dir tb i = Some tb' \<and> table_wf tb'"
  using toggle_dir_local_wf [of tb i] refresh_dir_wf
  by (auto simp: toggle_dir_def split: option.split)

lemma fold_bind_wf:
  assumes "\<And>tb d. P tb \<Longrightarrow> \<exists>tb'. f tb d = Some tb' \<and> P tb'" and "P tb"
  shows "\<exists>tb'. fold (\<lambda>d tb. Option.bind tb (\<lambda>tb. f tb d)) ds (Some tb) = Some tb' \<and> P tb'"
  using assms(2)
proof (induction ds arbitrary: tb)
  case (Cons d ds)
  from assms(1) [OF Cons.prems, of d] Cons.IH show ?case by auto
qed simp

lemma refresh_at_wf:
  assumes "table_wf tb"
  shows "\<exists>tb'. refresh_at tb = Some tb' \<and> table_wf tb'"
proof -
  have "open_refresh_dirs tb \<noteq> None"
    using assms visible_rows_total by (auto simp: open_refresh_dirs_def table_wf_def split: option.splits)
  then obtain dirs where "open_refresh_dirs tb = Some dirs" by blast
  then show ?thesis
    using fold_bind_wf [of table_wf refresh_dir, OF refresh_dir_wf assms] by (simp add: refresh_at_def)
qed

text \<open>What can happen to the table: the user's gestures and the server's answers.\<close>

datatype table_event =
    Click nat modifiers
  | BlankDrag
  | DragOver nat
  | DragEnd
  | ClearSelection
  | ContextMenu "nat option"
  | ToggleDir nat
  | RefreshAt
  | ReadDirDone rstring "(rstring \<times> metadata) list option"
  | Bootstrapped "rstring option"
  | ChangeDir rstring
  | Disconnect
  | SetSort sort_column
  | ToggleHidden

fun table_step :: "(rstring \<Rightarrow> rstring option) \<Rightarrow> sftp_table \<Rightarrow> table_event \<Rightarrow> sftp_table option" where
  "table_step fn tb (Click i m) = Some (click_row_local tb i m)"
| "table_step fn tb BlankDrag = Some (begin_blank_drag_select tb)"
| "table_step fn tb (DragOver i) = Some (fst (drag_select_row tb i))"
| "table_step fn tb DragEnd = Some (end_drag_select tb)"
| "table_step fn tb ClearSelection = Some (clear_selection tb)"
| "table_step fn tb (ContextMenu i) = Some (set_context_menu_target tb i)"
| "table_step fn tb (ToggleDir i) = toggle_dir tb i"
| "table_step fn tb RefreshAt = refresh_at tb"
| "table_step fn tb (ReadDirDone d res) = read_dir_done fn tb d res"
| "table_step fn tb (Bootstrapped r) = bootstrap_done tb r"
| "table_step fn tb (ChangeDir d) = cd tb d"
| "table_step fn tb Disconnect = Some (disconnect tb)"
| "table_step fn tb (SetSort c) = set_sort tb c"
| "table_step fn tb ToggleHidden = toggle_show_hidden tb"

lemma table_step_wf:
  assumes "file_name_law fn" and "table_wf tb"
  shows "\<exists>tb'. table_step fn tb e = Some tb' \<and> table_wf tb'"
proof (cases e)
  case (SetSort c)
  show ?thesis
    using rebuild_visible_wf [of "tb\<lparr>sort := (if column (sort tb) = c
        then (sort tb)\<lparr>direction := flip_direction (direction (sort tb))\<rparr>
        else \<lparr> column = c, direction = Asc \<rparr>)\<rparr>"] assms(2)
    unfolding SetSort table_step.simps set_sort_def by (force simp: table_wf_def)
next
  case ToggleHidden
  then show ?thesis
    using rebuild_visible_wf [of "tb\<lparr>show_hidden := \<not> show_hidden tb\<rparr>"] assms(2)
    by (auto simp: toggle_show_hidden_def table_wf_def)
next
  case (DragOver i)
  then show ?thesis using drag_select_row_wf [OF assms(2)] by simp
qed (use assms in \<open>simp_all add: click_row_wf clear_selection_wf set_context_wf toggle_dir_wf refresh_at_wf
  read_dir_done_wf bootstrap_wf cd_wf\<close>,
  simp_all add: begin_blank_drag_select_def end_drag_select_def disconnect_def clear_selection_def table_wf_def)

text \<open>Under \<open>table_wf\<close> no step fails, so the table as a total system is a transition system.\<close>

definition base_name :: "rstring \<Rightarrow> rstring option" where
  "base_name p = (let q = last (split_char slash p) in if q = [] then None else Some q)"

lemma base_name_law: "file_name_law base_name"
proof -
  have "slash \<notin> set (last (split_char slash p))" for p
    by (rule split_char_no_sep [of _ slash p]) simp
  then show ?thesis by (auto simp: file_name_law_def base_name_def Let_def split: if_splits)
qed

interpretation table: transition_system "\<lambda>tb. table_new = Some tb"
  "\<lambda>tb e. the (table_step base_name tb e)" table_wf
proof
  show "table_wf tb" if "table_new = Some tb" for tb
    using table_new_wf that by (metis option.inject)
  show "table_wf (the (table_step base_name tb e))" if "table_wf tb" for tb e
    using table_step_wf [OF base_name_law that, of e] by auto
qed

section \<open>Properties\<close>

text \<open>C36:
  From the initial table on, whatever the user does and the server answers, no listing runs
  away, every selected row is on screen, and the anchor of a range selection is too: an
  action on the selection never touches a file the user cannot see.\<close>

theorem selection_stays_visible:
  assumes "file_name_law fn"
  shows "\<exists>tb0. table_new = Some tb0 \<and>
    (\<exists>tb. fold (\<lambda>e tb. Option.bind tb (\<lambda>tb. table_step fn tb e)) es (Some tb0) = Some tb \<and>
          set (selected_ids tb) \<subseteq> vid ` set (visible tb) \<and>
          (\<forall>a. selection_anchor_id tb \<noteq> Some a \<or> a \<in> vid ` set (visible tb)))"
proof -
  obtain tb0 where tb0: "table_new = Some tb0" "table_wf tb0" using table_new_wf by blast
  obtain tb where "fold (\<lambda>e tb. Option.bind tb (\<lambda>tb. table_step fn tb e)) es (Some tb0) = Some tb"
    "table_wf tb"
    using fold_bind_wf [of table_wf "table_step fn", OF table_step_wf [OF assms] tb0(2)] by blast
  then show ?thesis using tb0(1) by (auto simp: table_wf_def)
qed

text \<open>Clicking selects what a file browser should: a plain click the row alone, a ctrl-click
  toggles it, a shift-click exactly the rows from the anchor to it (added to the selection
  with ctrl).\<close>

theorem click_selects:
  assumes "row tb i = Some r"
  shows "set (selected_ids (click_row_local tb i m)) =
    (if shift m then
       (case Option.bind (selection_anchor_id tb) (\<lambda>a. row_position a (visible tb)) of
          None \<Rightarrow> {vid r}
        | Some a \<Rightarrow> (if secondary m then set (selected_ids tb) else {}) \<union>
                    (\<lambda>k. vid (visible tb ! k)) ` {min a i .. max a i})
     else if secondary m then
       (if vid r \<in> set (selected_ids tb) then set (selected_ids tb) - {vid r}
        else insert (vid r) (set (selected_ids tb)))
     else {vid r})"
proof -
  have pos: "row_position a rows = Some k \<Longrightarrow> k < length rows" for a k and rows :: "visible_row list"
    by (induction rows arbitrary: k) (auto split: if_splits)
  have i: "i < length (visible tb)" using assms by (auto simp: row_def split: if_splits)
  have range: "set (map vid (take (Suc (b - a)) (drop a (visible tb)))) =
      (\<lambda>k. vid (visible tb ! k)) ` {a..b}" if "a \<le> b" "b < length (visible tb)" for a b
  proof -
    have "take (Suc (b - a)) (drop a (visible tb)) = map ((!) (visible tb)) [a..<Suc b]"
      using that by (intro nth_equalityI) (auto simp del: upt_Suc)
    then have "set (map vid (take (Suc (b - a)) (drop a (visible tb)))) =
        vid ` (!) (visible tb) ` {a..<Suc b}"
      by (simp only: set_map set_upt)
    then show ?thesis by (simp add: image_image atLeastLessThanSuc_atLeastAtMost)
  qed
  show ?thesis
    using assms i
    by (auto simp: click_row_local_def Let_def range pos min_def max_def simp del: set_map
        split: option.splits)
qed

text \<open>A drop of a dragged entry only ever moves a plain file, and never onto itself: whatever
  row or blank space it is dropped on, the destination path differs from the source.\<close>

theorem drop_moves_file_elsewhere:
  assumes "drop_remote_move_target_dir tb target drag = Some dir \<or>
    drop_remote_move_target_dir_for_blank_row tb i drag = Some dir"
  shows "d_kind drag = KFile \<and> join_remote dir (d_name drag) \<noteq> d_id drag"
proof -
  have "remote_move_target_dir drag d = Some dir \<Longrightarrow>
      d_kind drag = KFile \<and> join_remote dir (d_name drag) \<noteq> d_id drag" for d
    by (auto simp: remote_move_target_dir_def remote_move_destination_def Let_def split: if_splits)
  then show ?thesis
    using assms
    by (auto simp: drop_remote_move_target_dir_def drop_remote_move_target_dir_for_blank_row_def
        bind_eq_Some_conv split: option.splits if_splits)
qed

section \<open>Examples\<close>

definition demo_row :: "string \<Rightarrow> visible_row" where
  "demo_row i = \<lparr> vid = rs i, vname = rs i, vkind = KFile, vsize = None, vmodified = None,
     vperms = None, depth = 1, is_dir = False, v_expanded = False, v_loaded = False \<rparr>"

definition demo_table :: sftp_table where
  "demo_table = \<lparr> connected = True, tree = Some demo_tree, loading = [], show_hidden = False,
     selected_ids = [rs ''c''], selection_anchor_id = Some (rs ''c''), drag_selecting = False,
     sort = sort_default, visible = map demo_row [''a'', ''b'', ''c'', ''d''], context_row = None \<rparr>"

lemma selection_stays_visible_witness:
  "\<exists>tb0 tb. table_new = Some tb0 \<and>
     fold (\<lambda>e tb. Option.bind tb (\<lambda>tb. table_step base_name tb e))
       [ChangeDir (rs ''/''), Click 0 \<lparr> secondary = False, shift = False \<rparr>] (Some tb0) = Some tb \<and>
     set (selected_ids tb) \<subseteq> vid ` set (visible tb)"
  using selection_stays_visible [OF base_name_law] by blast

lemma click_selects_witness:
  "set (selected_ids (click_row_local demo_table 0 \<lparr> secondary = False, shift = True \<rparr>)) =
     {rs ''a'', rs ''b'', rs ''c''}"
proof -
  have r: "row demo_table 0 = Some (demo_row ''a'')" by (simp add: row_def demo_table_def)
  have "{0..2::nat} = {0, 1, 2}" by auto
  then show ?thesis
    using click_selects [OF r, of "\<lparr> secondary = False, shift = True \<rparr>"]
    by (simp add: demo_table_def demo_row_def rs_def of_char_def eval_nat_numeral)
qed

lemma drop_moves_file_elsewhere_witness:
  "join_remote (rs ''/'') (rs ''x'') \<noteq> rs ''/d/x''"
proof -
  have "drop_remote_move_target_dir demo_table None \<lparr> d_id = rs ''/d/x'', d_name = rs ''x'', d_kind = KFile \<rparr> =
      Some (rs ''/'')"
    by (simp add: drop_remote_move_target_dir_def demo_table_def tree_eval remote_move_target_dir_def
        remote_move_destination_def join_remote_def slash_def)
  from drop_moves_file_elsewhere [OF disjI1, OF this] show ?thesis by simp
qed

end
