(* ===== verification/SshConfig.thy ===== *)
theory SshConfig
  imports Prelude
begin

text \<open>
  The \<open>ssh_config\<close> reader (\<open>crates/wezterm-ssh/src/config.rs\<close>): lines to stanzas, patterns,
  match criteria, and the merge of what applies to a host. \<open>BTreeMap\<close> is an association
  list, read by key. What the code calls outside the repository is the record
  \<open>externals\<close>, an argument of the definitions that use it: the regex engine, the files an
  \<open>Include\<close> glob yields (path and contents), the environment and host names, and SHA-256.
  A \<open>None\<close> result is a panic, or the end of the fuel that bounds nested includes.
\<close>

section \<open>What the reader calls\<close>

record externals =
  re_match :: "rstring \<Rightarrow> rstring \<Rightarrow> bool"
  regex_escape :: "rchar \<Rightarrow> rstring"
  glob_files :: "rstring \<Rightarrow> (rstring \<times> rstring) list"
  env_var :: "rstring \<Rightarrow> rstring option"
  home_dir :: "rstring option"
  getuid :: rstring
  gethostname :: rstring
  sha256_hex :: "rstring \<Rightarrow> rstring"

type_synonym config_map = "(rstring \<times> rstring) list"

section \<open>Patterns\<close>

record pattern =
  negated :: bool
  pat :: rstring
  original :: rstring
  is_literal :: bool

fun wildcard_chars :: "externals \<Rightarrow> rstring \<Rightarrow> rstring \<times> bool" where
  "wildcard_chars x [] = ([], True)"
| "wildcard_chars x (c # s) =
     (case wildcard_chars x s of
        (p, lit) \<Rightarrow>
          if c = 42 then (rs ''.*'' @ p, False)
          else if c = 63 then (rs ''.'' @ p, False)
          else (regex_escape x c @ p, lit))"

definition wildcard_to_pattern :: "externals \<Rightarrow> rstring \<Rightarrow> rstring \<times> bool" where
  "wildcard_to_pattern x s = (case wildcard_chars x s of (p, lit) \<Rightarrow> (rs ''^'' @ p @ rs ''$'', lit))"

definition pattern_new :: "externals \<Rightarrow> rstring \<Rightarrow> bool \<Rightarrow> pattern" where
  "pattern_new x s neg =
     (case wildcard_to_pattern x s of
        (p, lit) \<Rightarrow> \<lparr> negated = neg, pat = p, original = s, is_literal = lit \<rparr>)"

definition match_text :: "externals \<Rightarrow> pattern \<Rightarrow> rstring \<Rightarrow> bool" where
  "match_text x p hostname = re_match x (pat p) hostname"

fun match_group :: "externals \<Rightarrow> rstring \<Rightarrow> pattern list \<Rightarrow> bool" where
  "match_group x hostname [] = False"
| "match_group x hostname (p # ps) =
     (if match_text x p hostname then \<not> negated p else match_group x hostname ps)"

section \<open>Stanzas\<close>

datatype criteria =
    Host "pattern list"
  | Exec rstring
  | OriginalHost "pattern list"
  | User "pattern list"
  | LocalUser "pattern list"
  | All

datatype pass = FirstPass | Canonical | Final

record match_stanza =
  criteria :: "criteria list"
  pass :: pass
  options :: config_map

fun criterion_ok :: "externals \<Rightarrow> rstring \<Rightarrow> rstring \<Rightarrow> rstring \<Rightarrow> criteria \<Rightarrow> bool" where
  "criterion_ok x hostname user local_user (Host ps) = match_group x hostname ps"
| "criterion_ok x hostname user local_user (Exec _) = True"
| "criterion_ok x hostname user local_user (OriginalHost ps) = match_group x hostname ps"
| "criterion_ok x hostname user local_user (User ps) = match_group x user ps"
| "criterion_ok x hostname user local_user (LocalUser ps) = match_group x local_user ps"
| "criterion_ok x hostname user local_user All = True"

definition is_match :: "externals \<Rightarrow> match_stanza \<Rightarrow> rstring \<Rightarrow> rstring \<Rightarrow> rstring \<Rightarrow> pass \<Rightarrow> bool" where
  "is_match x g hostname user local_user p \<longleftrightarrow>
     pass g = p \<and> list_all (criterion_ok x hostname user local_user) (criteria g)"

record parsed_config_file =
  f_options :: config_map
  f_groups :: "match_stanza list"
  loaded_files :: "rstring list"

section \<open>Lines\<close>

text \<open>\<open>str::lines\<close>; every line is trimmed by its user, so the carriage return needs no care.\<close>

definition str_lines :: "rstring \<Rightarrow> rstring list" where
  "str_lines s = (let ls = split_char 10 s in if last ls = [] then butlast ls else ls)"

definition is_sep :: "rchar \<Rightarrow> bool" where
  "is_sep c \<longleftrightarrow> c = 61 \<or> is_whitespace c"

text \<open>
  A line as key and value: \<open>Some None\<close> for a blank line, a comment or a line without a
  separator; \<open>None\<close> where a slice panics, at a separator of several bytes (\<open>v[1..]\<close>) or a
  value that is a single quote (\<open>v[1..0]\<close>).
\<close>

definition unquote :: "rstring \<Rightarrow> rstring option" where
  "unquote v =
     (if v \<noteq> [] \<and> hd v = 34 \<and> last v = 34
      then (if byte_len v < 2 then None else Some (butlast (tl v)))
      else Some v)"

definition split_line :: "rstring \<Rightarrow> (rstring \<times> rstring) option option" where
  "split_line l =
     (let l = trim l
      in if l = [] \<or> hd l = 35 then Some None
         else
           let k = takeWhile (\<lambda>c. \<not> is_sep c) l;
               rest = dropWhile (\<lambda>c. \<not> is_sep c) l
           in case rest of
                [] \<Rightarrow> Some None
              | c # v \<Rightarrow>
                  if len_utf8 c \<noteq> 1 then None
                  else map_option (\<lambda>v. Some (to_lowercase (trim k), v)) (unquote (trim v)))"

definition parse_pattern :: "externals \<Rightarrow> rstring \<Rightarrow> pattern" where
  "parse_pattern x p =
     (case strip_prefix (rs ''!'') p of
        Some q \<Rightarrow> pattern_new x q True
      | None \<Rightarrow> pattern_new x p False)"

definition parse_pattern_list :: "externals \<Rightarrow> rstring \<Rightarrow> pattern list" where
  "parse_pattern_list x v = map (parse_pattern x \<circ> trim) (split_char 44 v)"

definition parse_whitespace_pattern_list :: "externals \<Rightarrow> rstring \<Rightarrow> pattern list" where
  "parse_whitespace_pattern_list x v = map (parse_pattern x \<circ> trim) (split_ascii_whitespace v)"

fun next_or :: "rstring \<Rightarrow> rstring list \<Rightarrow> rstring \<times> rstring list" where
  "next_or d [] = (d, [])"
| "next_or d (t # ts) = (t, ts)"

lemma next_or_length [simp]: "length (snd (next_or d ts)) \<le> length ts"
  by (cases ts) auto

function parse_criteria ::
  "externals \<Rightarrow> rstring list \<Rightarrow> criteria list \<Rightarrow> pass \<Rightarrow> criteria list \<times> pass" where
  "parse_criteria x [] cs p = (cs, p)"
| "parse_criteria x (t # ts) cs p =
     (let cname = to_lowercase t
      in if cname = rs ''all'' then parse_criteria x ts (cs @ [All]) p
         else if cname = rs ''canonical'' then parse_criteria x ts cs Canonical
         else if cname = rs ''final'' then parse_criteria x ts cs Final
         else if cname = rs ''exec'' then
           (let n = next_or (rs ''false'') ts in parse_criteria x (snd n) (cs @ [Exec (fst n)]) p)
         else if cname \<in> {rs ''host'', rs ''originalhost'', rs ''user'', rs ''localuser''} then
           (let n = next_or [] ts;
                ps = parse_pattern_list x (fst n);
                c = (if cname = rs ''host'' then Host ps
                     else if cname = rs ''originalhost'' then OriginalHost ps
                     else if cname = rs ''user'' then User ps else LocalUser ps)
            in parse_criteria x (snd n) (cs @ [c]) p)
         else (cs, p))"
  by pat_completeness auto

termination
  by (relation "measure (\<lambda>(_, ts, _). length ts)") (auto simp: less_Suc_eq_le)

declare parse_criteria.simps(2) [simp del]

definition add_option :: "config_map \<Rightarrow> rstring \<Rightarrow> rstring \<Rightarrow> config_map" where
  "add_option os k v =
     (case map_of os k of
        None \<Rightarrow> AList.update k v os
      | Some e \<Rightarrow> if k = rs ''identityfile'' then AList.update k (e @ [32] @ v) os else os)"

text \<open>What one key and value other than \<open>Include\<close> does.\<close>

definition parse_directive :: "externals \<Rightarrow> rstring \<Rightarrow> rstring \<Rightarrow> parsed_config_file \<Rightarrow> parsed_config_file" where
  "parse_directive x k v f =
     (if k = rs ''host'' then
        f\<lparr>f_groups := f_groups f @
            [\<lparr> criteria = [Host (parse_whitespace_pattern_list x v)], pass = FirstPass, options = [] \<rparr>]\<rparr>
      else if k = rs ''match'' then
        (case parse_criteria x (split_ascii_whitespace v) [] FirstPass of
           (cs, p) \<Rightarrow> f\<lparr>f_groups := f_groups f @ [\<lparr> criteria = cs, pass = p, options = [] \<rparr>]\<rparr>)
      else if f_groups f = [] then f\<lparr>f_options := add_option (f_options f) k v\<rparr>
      else
        let g = last (f_groups f)
        in f\<lparr>f_groups := butlast (f_groups f) @ [g\<lparr>options := add_option (options g) k v\<rparr>]\<rparr>)"

text \<open>
  \<open>parse_impl\<close> over the lines, \<open>do_include\<close> over the files a glob yields; the fuel counts
  the levels of inclusion still allowed.
\<close>

fun parse_lines ::
  "(rstring \<Rightarrow> parsed_config_file \<Rightarrow> parsed_config_file option) \<Rightarrow> externals \<Rightarrow> rstring list \<Rightarrow>
   parsed_config_file \<Rightarrow> parsed_config_file option" where
  "parse_lines incl x [] f = Some f"
| "parse_lines incl x (l # ls) f =
     (case split_line l of
        None \<Rightarrow> None
      | Some None \<Rightarrow> parse_lines incl x ls f
      | Some (Some (k, v)) \<Rightarrow>
          if k = rs ''include'' then Option.bind (incl v f) (parse_lines incl x ls)
          else parse_lines incl x ls (parse_directive x k v f))"

fun do_include ::
  "(rstring list \<Rightarrow> parsed_config_file \<Rightarrow> parsed_config_file option) \<Rightarrow> (rstring \<times> rstring) list \<Rightarrow>
   parsed_config_file \<Rightarrow> parsed_config_file option" where
  "do_include impl [] f = Some f"
| "do_include impl ((p, d) # fs) f =
     Option.bind (impl (str_lines d) (f\<lparr>loaded_files := loaded_files f @ [p]\<rparr>)) (do_include impl fs)"

fun parse_impl :: "nat \<Rightarrow> externals \<Rightarrow> rstring list \<Rightarrow> parsed_config_file \<Rightarrow> parsed_config_file option" where
  "parse_impl 0 x = parse_lines (\<lambda>_ _. None) x"
| "parse_impl (Suc n) x = parse_lines (\<lambda>v. do_include (parse_impl n x) (glob_files x v)) x"

definition parse :: "nat \<Rightarrow> externals \<Rightarrow> rstring \<Rightarrow> rstring option \<Rightarrow> parsed_config_file option" where
  "parse n x s source_file =
     parse_impl n x (str_lines s)
       \<lparr> f_options = [], f_groups = [],
         loaded_files = (case source_file of None \<Rightarrow> [] | Some p \<Rightarrow> [p]) \<rparr>"

section \<open>Merging\<close>

definition or_insert_all :: "config_map \<Rightarrow> config_map \<Rightarrow> config_map" where
  "or_insert_all src target = foldl (\<lambda>t (k, v). or_insert k v t) target src"

definition apply_matches ::
  "externals \<Rightarrow> parsed_config_file \<Rightarrow> rstring \<Rightarrow> rstring \<Rightarrow> rstring \<Rightarrow> pass \<Rightarrow> config_map \<Rightarrow>
   config_map \<times> bool" where
  "apply_matches x f hostname user local_user p target =
     (foldl (\<lambda>t g. if is_match x g hostname user local_user p then or_insert_all (options g) t else t)
        (or_insert_all (f_options f) target) (f_groups f),
      \<exists>g \<in> set (f_groups f). pass g \<noteq> FirstPass)"

record config =
  config_files :: "parsed_config_file list"
  c_options :: config_map
  tokens :: config_map
  environment :: "config_map option"

definition config_new :: config where
  "config_new = \<lparr> config_files = [], c_options = [], tokens = [], environment = None \<rparr>"

definition assign_environment :: "config \<Rightarrow> config_map \<Rightarrow> config" where
  "assign_environment c env = c\<lparr>environment := Some env\<rparr>"

definition assign_tokens :: "config \<Rightarrow> config_map \<Rightarrow> config" where
  "assign_tokens c ts = c\<lparr>tokens := ts\<rparr>"

definition set_option :: "config \<Rightarrow> rstring \<Rightarrow> rstring \<Rightarrow> config" where
  "set_option c k v = c\<lparr>c_options := AList.update (to_lowercase k) v (c_options c)\<rparr>"

definition add_config_string :: "nat \<Rightarrow> externals \<Rightarrow> config \<Rightarrow> rstring \<Rightarrow> config option" where
  "add_config_string n x c s =
     map_option (\<lambda>f. c\<lparr>config_files := config_files c @ [f]\<rparr>) (parse n x s None)"

definition add_config_file ::
  "nat \<Rightarrow> externals \<Rightarrow> config \<Rightarrow> rstring \<Rightarrow> rstring option \<Rightarrow> config option" where
  "add_config_file n x c p contents =
     (case contents of
        None \<Rightarrow> Some c
      | Some d \<Rightarrow> map_option (\<lambda>f. c\<lparr>config_files := config_files c @ [f]\<rparr>) (parse n x d (Some p)))"

definition loaded_config_files :: "config \<Rightarrow> rstring list" where
  "loaded_config_files c =
     foldl (\<lambda>fs p. if p \<in> set fs then fs else fs @ [p]) [] (concat (map loaded_files (config_files c)))"

fun host_patterns :: "criteria \<Rightarrow> pattern list" where
  "host_patterns (Host ps) = ps"
| "host_patterns _ = []"

definition enumerate_hosts :: "config \<Rightarrow> rstring list" where
  "enumerate_hosts c =
     foldl (\<lambda>hs p. if is_literal p \<and> \<not> negated p \<and> original p \<notin> set hs then hs @ [original p] else hs) []
       (concat (map (\<lambda>f. concat (map (\<lambda>g. concat (map host_patterns (criteria g))) (f_groups f)))
         (config_files c)))"

section \<open>Lookup after a merge\<close>

lemma map_of_or_insert_all:
  "map_of (or_insert_all src target) k = map_of (target @ src) k"
proof (induction src arbitrary: target)
  case (Cons kv src)
  obtain k' v where kv: "kv = (k', v)" by (cases kv)
  have "or_insert_all (kv # src) target = or_insert_all src (or_insert k' v target)"
    by (simp add: or_insert_all_def kv)
  then show ?case
    by (auto simp: Cons.IH kv map_add_def split: option.splits)
qed (simp add: or_insert_all_def)

text \<open>The option maps that apply to a host, in the order of precedence.\<close>

definition applying :: "externals \<Rightarrow> rstring \<Rightarrow> rstring \<Rightarrow> rstring \<Rightarrow> parsed_config_file \<Rightarrow> config_map" where
  "applying x host user lu f =
     f_options f @ concat (map options (filter (\<lambda>g. is_match x g host user lu FirstPass) (f_groups f)))"

lemma map_of_apply_matches:
  "map_of (fst (apply_matches x f host user lu FirstPass target)) k =
     map_of (target @ applying x host user lu f) k"
proof -
  have "map_of (foldl (\<lambda>t g. if is_match x g host user lu FirstPass then or_insert_all (options g) t else t)
        t gs) k =
      map_of (t @ concat (map options (filter (\<lambda>g. is_match x g host user lu FirstPass) gs))) k" for t gs
  proof (induction gs arbitrary: t)
    case (Cons g gs)
    show ?case
      by (auto simp: Cons.IH map_of_or_insert_all map_add_def split: option.splits)
  qed simp
  then show ?thesis
    by (auto simp: apply_matches_def applying_def map_of_or_insert_all map_add_def split: option.splits)
qed

definition merged :: "externals \<Rightarrow> config \<Rightarrow> rstring \<Rightarrow> rstring \<Rightarrow> rstring \<Rightarrow> config_map" where
  "merged x c host user lu =
     foldl (\<lambda>t f. fst (apply_matches x f host user lu FirstPass t)) (c_options c) (config_files c)"

lemma map_of_foldl_apply:
  "map_of (foldl (\<lambda>t f. fst (apply_matches x f host user lu FirstPass t)) t fs) k =
     map_of (t @ concat (map (applying x host user lu) fs)) k"
proof (induction fs arbitrary: t)
  case (Cons f fs)
  show ?case
    by (auto simp: Cons.IH map_of_apply_matches map_add_def split: option.splits)
qed simp

section \<open>Helper lemmas on options and patterns\<close>

lemma map_of_add_option:
  "map_of (add_option os k v) k' =
     (if k' = k
      then Some (case map_of os k of
                   None \<Rightarrow> v | Some e \<Rightarrow> if k = rs ''identityfile'' then e @ [32] @ v else e)
      else map_of os k')"
  by (auto simp: add_option_def split: option.splits)

text \<open>The values a stanza gives one key, in order.\<close>

definition key_values :: "rstring \<Rightarrow> (rstring \<times> rstring) list \<Rightarrow> rstring list" where
  "key_values k kvs = map snd (filter (\<lambda>kv. fst kv = k) kvs)"

fun join_space :: "rstring list \<Rightarrow> rstring" where
  "join_space [] = []"
| "join_space [v] = v"
| "join_space (v # vs) = v @ [32] @ join_space vs"

lemma map_of_add_options:
  "map_of (foldl (\<lambda>os (k, v). add_option os k v) os kvs) k =
     (case map_of os k of
        None \<Rightarrow> (if key_values k kvs = [] then None
                 else Some (if k = rs ''identityfile'' then join_space (key_values k kvs)
                            else hd (key_values k kvs)))
      | Some e \<Rightarrow> Some (if k = rs ''identityfile'' then join_space (e # key_values k kvs) else e))"
proof (induction kvs arbitrary: os)
  case Nil
  show ?case by (simp add: key_values_def split: option.split)
next
  case (Cons kv kvs)
  obtain k' v where kv: "kv = (k', v)" by (cases kv)
  have j: "join_space ((a @ [32] @ b) # vs) = a @ [32] @ join_space (b # vs)" for a b vs
    by (cases vs) simp_all
  show ?case
    using j
    by (auto simp: Cons.IH kv map_of_add_option key_values_def split: option.splits)
qed

lemma parse_directive_options:
  assumes "k \<notin> {rs ''host'', rs ''match''}" and "f_groups f \<noteq> []"
  shows "parse_directive x k v f =
    f\<lparr>f_groups := butlast (f_groups f) @
        [(last (f_groups f))\<lparr>options := add_option (options (last (f_groups f))) k v\<rparr>]\<rparr>"
  using assms by (simp add: parse_directive_def Let_def)

definition plain_key :: "rstring \<Rightarrow> bool" where
  "plain_key k \<longleftrightarrow> k \<notin> {rs ''host'', rs ''match'', rs ''include''}"

lemma parse_lines_options:
  assumes "list_all2 (\<lambda>l kv. split_line l = Some (Some kv) \<and> plain_key (fst kv)) ls kvs"
    and "f_groups f \<noteq> []"
  shows "parse_lines incl x ls f =
    Some (f\<lparr>f_groups := butlast (f_groups f) @
        [(last (f_groups f))\<lparr>options := foldl (\<lambda>os (k, v). add_option os k v)
            (options (last (f_groups f))) kvs\<rparr>]\<rparr>)"
  using assms
proof (induction arbitrary: f rule: list_all2_induct)
  case (Cons l ls kv kvs)
  obtain k v where kv: "kv = (k, v)" by (cases kv)
  have "parse_lines incl x (l # ls) f = parse_lines incl x ls (parse_directive x k v f)"
    using Cons.hyps(1) by (auto simp: kv plain_key_def)
  then show ?case
    using Cons.IH [of "parse_directive x k v f"] Cons.hyps(1) Cons.prems
    by (simp add: kv plain_key_def parse_directive_options)
qed simp

lemma unquote_None: "unquote v = None \<longleftrightarrow> v = [34]"
proof (cases v)
  case (Cons c v')
  then show ?thesis
    by (cases v') (auto simp: unquote_def len_utf8_def split: if_splits)
qed (simp add: unquote_def)

lemma takeWhile_dropWhile_split:
  "dropWhile P l = c # v \<longleftrightarrow> l = takeWhile P l @ c # v \<and> \<not> P c"
  by (metis append_same_eq dropWhile_eq_Cons_conv takeWhile_dropWhile_id)

lemma foldl_dedup:
  "set (foldl (\<lambda>hs p. if P p \<and> f p \<notin> set hs then hs @ [f p] else hs) hs ps) =
     set hs \<union> f ` {p \<in> set ps. P p}"
  "distinct hs \<Longrightarrow> distinct (foldl (\<lambda>hs p. if P p \<and> f p \<notin> set hs then hs @ [f p] else hs) hs ps)"
  by (induction ps arbitrary: hs) auto

section \<open>Properties\<close>

text \<open>C37:
  The first value wins: what the merge gives a key is the first value found in the options
  set by the caller, then file by file in the file's global options and in its stanzas that
  match the host, in order.\<close>

theorem first_value_wins:
  "map_of (merged x c host user lu) k =
     map_of (c_options c @ concat (map (applying x host user lu) (config_files c))) k"
  unfolding merged_def by (rule map_of_foldl_apply)

text \<open>The option lines that follow a \<open>Host\<close> or \<open>Match\<close> line go to its stanza; there too the
  first value of a key wins, except that the values of \<open>IdentityFile\<close> are all kept, joined
  by spaces.\<close>

theorem stanza_collects_options:
  assumes "list_all2 (\<lambda>l kv. split_line l = Some (Some kv) \<and> plain_key (fst kv)) ls kvs"
    and "f_groups f = gs @ [g]" and "options g = []"
  shows "\<exists>g'. parse_lines incl x ls f = Some (f\<lparr>f_groups := gs @ [g']\<rparr>) \<and>
    criteria g' = criteria g \<and>
    (\<forall>k. map_of (options g') k =
      (if key_values k kvs = [] then None
       else Some (if k = rs ''identityfile'' then join_space (key_values k kvs) else hd (key_values k kvs))))"
  using parse_lines_options [OF assms(1), of f incl x] assms(2,3)
  by (intro exI [of _ "g\<lparr>options := foldl (\<lambda>os (k, v). add_option os k v) [] kvs\<rparr>"])
    (simp add: map_of_add_options)

lemma len_utf8_gt_1: "1 < len_utf8 c \<longleftrightarrow> len_utf8 c \<noteq> 1"
  using len_utf8_pos [of c] by linarith

text \<open>Reading a line panics exactly when its separator takes more than one byte in UTF-8 or its
  value is a lone double quote.\<close>

theorem split_line_panics_iff:
  "split_line l = None \<longleftrightarrow>
     (\<exists>k c v. trim l = k @ c # v \<and> hd (trim l) \<noteq> 35 \<and> filter is_sep k = [] \<and> is_sep c \<and>
        (1 < len_utf8 c \<or> trim v = [34]))"
proof
  assume "split_line l = None"
  then obtain c v where d: "dropWhile (\<lambda>c. \<not> is_sep c) (trim l) = c # v" "hd (trim l) \<noteq> 35"
    "1 < len_utf8 c \<or> trim v = [34]"
    unfolding len_utf8_gt_1 by (auto simp: split_line_def Let_def unquote_None split: if_splits list.splits)
  then show "\<exists>k c v. trim l = k @ c # v \<and> hd (trim l) \<noteq> 35 \<and> filter is_sep k = [] \<and> is_sep c \<and>
        (1 < len_utf8 c \<or> trim v = [34])"
    unfolding takeWhile_dropWhile_split filter_empty_conv by (metis set_takeWhileD)
next
  assume "\<exists>k c v. trim l = k @ c # v \<and> hd (trim l) \<noteq> 35 \<and> filter is_sep k = [] \<and> is_sep c \<and>
        (1 < len_utf8 c \<or> trim v = [34])"
  then obtain k c v where l: "trim l = k @ c # v" "hd (trim l) \<noteq> 35" "\<forall>d \<in> set k. \<not> is_sep d"
    "is_sep c" "1 < len_utf8 c \<or> trim v = [34]"
    unfolding filter_empty_conv by blast
  then have "dropWhile (\<lambda>c. \<not> is_sep c) (trim l) = c # v"
    by (simp add: dropWhile_append3)
  then show "split_line l = None"
    using l unfolding len_utf8_gt_1 by (auto simp: split_line_def Let_def unquote_None)
qed

text \<open>Exclusions only work in front: a negated pattern listed after a pattern that matches the
  host is never consulted, so \<open>Host * !foo\<close> applies to \<open>foo\<close>.\<close>

theorem later_negation_ignored:
  assumes "match_text x p host" and "\<not> negated p"
  shows "criterion_ok x host user lu (Host (p # ps)) \<and>
    is_match x \<lparr> criteria = [Host (p # ps)], pass = FirstPass, options = os \<rparr> host user lu FirstPass"
  using assms by (simp add: is_match_def)

text \<open>\<open>enumerate_hosts\<close> lists each literal, non-negated name of a \<open>Host\<close> criterion once, and
  nothing else.\<close>

theorem enumerate_hosts_spec:
  "distinct (enumerate_hosts c) \<and>
   set (enumerate_hosts c) =
     {original p | p f g ps. f \<in> set (config_files c) \<and> g \<in> set (f_groups f) \<and>
        Host ps \<in> set (criteria g) \<and> p \<in> set ps \<and> is_literal p \<and> \<not> negated p}"
proof -
  define P :: "pattern \<Rightarrow> bool" where "P p \<longleftrightarrow> is_literal p \<and> \<not> negated p" for p
  define ps where "ps = concat (map (\<lambda>f. concat (map (\<lambda>g. concat (map host_patterns (criteria g)))
    (f_groups f))) (config_files c))"
  have eq: "enumerate_hosts c = foldl (\<lambda>hs p. if P p \<and> original p \<notin> set hs then hs @ [original p] else hs) [] ps"
    by (simp add: enumerate_hosts_def P_def ps_def)
  have "p \<in> set (host_patterns cr) \<longleftrightarrow> (\<exists>ps. cr = Host ps \<and> p \<in> set ps)" for p cr
    by (cases cr) auto
  then have "p \<in> set (concat (map host_patterns crs)) \<longleftrightarrow> (\<exists>ps. Host ps \<in> set crs \<and> p \<in> set ps)" for p crs
    by auto
  then have "{p \<in> set ps. P p} =
      {p. \<exists>f g ps. f \<in> set (config_files c) \<and> g \<in> set (f_groups f) \<and> Host ps \<in> set (criteria g) \<and>
        p \<in> set ps \<and> is_literal p \<and> \<not> negated p}"
    by (simp add: ps_def P_def set_concat) blast
  then have "original ` {p \<in> set ps. P p} =
      {original p | p f g ps. f \<in> set (config_files c) \<and> g \<in> set (f_groups f) \<and>
        Host ps \<in> set (criteria g) \<and> p \<in> set ps \<and> is_literal p \<and> \<not> negated p}"
    by auto
  then show ?thesis unfolding eq foldl_dedup(1) using foldl_dedup(2) [of "[]"] by simp
qed

section \<open>Examples\<close>

text \<open>A regex engine that knows the two shapes the examples use: any text, and a fixed text.\<close>

definition demo_ext :: externals where
  "demo_ext =
     \<lparr> re_match = (\<lambda>p h. p = rs ''^.*$'' \<or> p = rs ''^'' @ h @ rs ''$''), regex_escape = (\<lambda>c. [c]),
       glob_files = (\<lambda>_. []), env_var = (\<lambda>_. None), home_dir = Some (rs ''/home/me''),
       getuid = rs ''1000'', gethostname = rs ''box.lan'', sha256_hex = (\<lambda>_. rs ''00'') \<rparr>"

definition demo_lines :: "rstring list" where
  "demo_lines = [rs ''  User bob'', rs ''IdentityFile a'', rs ''user=eve'', rs ''IdentityFile \"b\"'']"

lemmas line_eval = split_line_def trim_def trim_start_def trim_end_def is_whitespace_def is_sep_def
  unquote_def to_lowercase_def lower_char_def len_utf8_def plain_key_def Let_def rs_def of_char_def

lemma stanza_collects_options_witness:
  "\<exists>g'. parse_lines (\<lambda>_ _. None) demo_ext demo_lines
      \<lparr> f_options = [], f_groups = [\<lparr> criteria = [All], pass = FirstPass, options = [] \<rparr>],
        loaded_files = [] \<rparr> =
    Some \<lparr> f_options = [], f_groups = [g'], loaded_files = [] \<rparr> \<and>
    map_of (options g') (rs ''user'') = Some (rs ''bob'') \<and>
    map_of (options g') (rs ''identityfile'') = Some (rs ''a b'')"
proof -
  let ?kvs = "[(rs ''user'', rs ''bob''), (rs ''identityfile'', rs ''a''), (rs ''user'', rs ''eve''),
    (rs ''identityfile'', rs ''b'')]"
  have "list_all2 (\<lambda>l kv. split_line l = Some (Some kv) \<and> plain_key (fst kv)) demo_lines ?kvs"
    by (simp add: demo_lines_def line_eval)
  from stanza_collects_options [OF this, of "\<lparr> f_options = [], f_groups =
      [\<lparr> criteria = [All], pass = FirstPass, options = [] \<rparr>], loaded_files = [] \<rparr>" "[]"
      "\<lparr> criteria = [All], pass = FirstPass, options = [] \<rparr>" "\<lambda>_ _. None" demo_ext]
  obtain g' where g: "parse_lines (\<lambda>_ _. None) demo_ext demo_lines
      \<lparr> f_options = [], f_groups = [\<lparr> criteria = [All], pass = FirstPass, options = [] \<rparr>],
        loaded_files = [] \<rparr> = Some \<lparr> f_options = [], f_groups = [g'], loaded_files = [] \<rparr>"
    and v: "\<forall>k. map_of (options g') k =
      (if key_values k ?kvs = [] then None
       else Some (if k = rs ''identityfile'' then join_space (key_values k ?kvs)
                  else hd (key_values k ?kvs)))"
    by auto
  have "map_of (options g') (rs ''user'') = Some (rs ''bob'')"
    "map_of (options g') (rs ''identityfile'') = Some (rs ''a b'')"
    by (simp_all add: v key_values_def rs_def of_char_def)
  with g show ?thesis by blast
qed

lemma later_negation_ignored_witness:
  "criterion_ok demo_ext (rs ''foo'') [] []
     (Host (parse_whitespace_pattern_list demo_ext (rs ''* !foo'')))"
proof -
  have ps: "parse_whitespace_pattern_list demo_ext (rs ''* !foo'') =
      [pattern_new demo_ext (rs ''*'') False, pattern_new demo_ext (rs ''foo'') True]"
    by (simp add: parse_whitespace_pattern_list_def split_ascii_whitespace_def parse_pattern_def
        is_ascii_whitespace_def line_eval)
  have "match_text demo_ext (pattern_new demo_ext (rs ''*'') False) (rs ''foo'')"
    "\<not> negated (pattern_new demo_ext (rs ''*'') False)"
    by (simp_all add: match_text_def pattern_new_def wildcard_to_pattern_def demo_ext_def rs_def of_char_def)
  then show ?thesis unfolding ps using later_negation_ignored by blast
qed

end
