(* ===== verification/SshResolve.thy ===== *)
theory SshResolve
  imports SshConfig
begin

text \<open>
  \<open>Config::for_host\<close> (\<open>crates/wezterm-ssh/src/config.rs\<close>): the merged options of a host,
  with \<open>%\<close> tokens and environment references expanded and defaults filled in. The token
  \<open>%C\<close> makes \<open>expand_tokens\<close> call itself; one level of fuel is enough, because the text it
  then expands has no \<open>%C\<close> (\<open>expand_tokens_total\<close>).
\<close>

section \<open>Strings\<close>

text \<open>\<open>str::replace\<close> with a non-empty pattern, \<open>str::contains\<close>, \<open>str::split_whitespace\<close>.\<close>

function str_replace :: "rstring \<Rightarrow> rstring \<Rightarrow> rstring \<Rightarrow> rstring" where
  "str_replace p r [] = []"
| "str_replace p r (c # s) =
     (case strip_prefix p (c # s) of
        Some rest \<Rightarrow> if p = [] then c # s else r @ str_replace p r rest
      | None \<Rightarrow> c # str_replace p r s)"
  by pat_completeness auto

termination
proof (relation "measure (\<lambda>(p, r, s). length s)")
  fix p r :: rstring and c :: rchar and s rest :: rstring
  assume "strip_prefix p (c # s) = Some rest" "p \<noteq> []"
  then have "c # s = p @ rest" by simp
  then have "length rest < length (c # s)" using \<open>p \<noteq> []\<close> by (metis length_append length_greater_0_conv less_add_same_cancel2)
  then show "((p, r, rest), p, r, c # s) \<in> measure (\<lambda>(p, r, s). length s)" by simp
qed auto

declare str_replace.simps(2) [simp del]

fun contains :: "rstring \<Rightarrow> rstring \<Rightarrow> bool" where
  "contains p [] \<longleftrightarrow> p = []"
| "contains p (c # s) \<longleftrightarrow> starts_with p (c # s) \<or> contains p s"

fun split_uws :: "rstring \<Rightarrow> rstring \<Rightarrow> rstring list" where
  "split_uws acc [] = (if acc = [] then [] else [rev acc])"
| "split_uws acc (c # s) =
     (if is_whitespace c
      then (if acc = [] then split_uws [] s else rev acc # split_uws [] s)
      else split_uws (c # acc) s)"

section \<open>The environment\<close>

definition resolve_env :: "externals \<Rightarrow> config \<Rightarrow> rstring \<Rightarrow> rstring option" where
  "resolve_env x c n = (case environment c of Some env \<Rightarrow> map_of env n | None \<Rightarrow> env_var x n)"

definition resolve_home :: "externals \<Rightarrow> config \<Rightarrow> rstring option" where
  "resolve_home x c =
     (case Option.bind (environment c) (\<lambda>env. map_of env (rs ''HOME'')) of
        Some h \<Rightarrow> Some h | None \<Rightarrow> home_dir x)"

definition resolve_local_user :: "externals \<Rightarrow> config \<Rightarrow> rstring" where
  "resolve_local_user x c =
     (case resolve_env x c (rs ''USER'') of
        Some u \<Rightarrow> u
      | None \<Rightarrow> (case resolve_env x c (rs ''USERNAME'') of
                   Some u \<Rightarrow> u | None \<Rightarrow> rs ''unknown-user''))"

definition resolve_local_host :: "externals \<Rightarrow> bool \<Rightarrow> rstring" where
  "resolve_local_host x include_domain_name =
     (if include_domain_name then gethostname x else takeWhile (\<lambda>c. c \<noteq> 46) (gethostname x))"

definition resolve_uid :: "externals \<Rightarrow> rstring" where
  "resolve_uid x = getuid x"

section \<open>Expansion\<close>

definition should_expand_environment :: "rstring \<Rightarrow> bool" where
  "should_expand_environment k \<longleftrightarrow>
     k \<in> {rs ''certificatefile'', rs ''controlpath'', rs ''identityagent'', rs ''identityfile'',
          rs ''userknownhostsfile'', rs ''localforward'', rs ''remoteforward''}"

definition should_expand_tokens :: "rstring \<Rightarrow> rstring list option" where
  "should_expand_tokens k =
     (if k \<in> {rs ''certificatefile'', rs ''controlpath'', rs ''identityagent'', rs ''identityfile'',
              rs ''localforward'', rs ''remotecommand'', rs ''remoteforward'', rs ''userknownkostsfile''}
      then Some (map rs [''%C'', ''%d'', ''%h'', ''%i'', ''%L'', ''%l'', ''%n'', ''%p'', ''%r'', ''%u''])
      else if k = rs ''hostname'' then Some [rs ''%h'']
      else if k = rs ''localcommand''
      then Some (map rs [''%C'', ''%d'', ''%h'', ''%i'', ''%k'', ''%L'', ''%l'', ''%n'', ''%p'', ''%r'', ''%T'', ''%u''])
      else if k = rs ''proxycommand'' then Some (map rs [''%h'', ''%n'', ''%p'', ''%r''])
      else None)"

definition expand_home_item :: "rstring \<Rightarrow> rstring \<Rightarrow> rstring" where
  "expand_home_item home item =
     (if starts_with (rs ''~/'') item then home @ tl item else str_replace (rs ''%d'') home item)"

definition expand_token ::
  "(rstring \<Rightarrow> rstring option) \<Rightarrow> externals \<Rightarrow> config \<Rightarrow> config_map \<Rightarrow> rstring \<Rightarrow> rstring \<Rightarrow> rstring option" where
  "expand_token rec x c token_map t value =
     (case map_of token_map t of
        Some v \<Rightarrow> Some (str_replace t v value)
      | None \<Rightarrow>
          if t = rs ''%i'' then Some (str_replace t (resolve_uid x) value)
          else if t = rs ''%u'' then Some (str_replace t (resolve_local_user x c) value)
          else if t = rs ''%l'' then Some (str_replace t (resolve_local_host x False) value)
          else if t = rs ''%L'' then Some (str_replace t (resolve_local_host x True) value)
          else if t = rs ''%d'' then
            (case resolve_home x c of
               None \<Rightarrow> Some value
             | Some home \<Rightarrow> Some (join_space (map (expand_home_item home) (split_uws [] value))))
          else if t = rs ''%j'' then Some (str_replace t [] value)
          else if t = rs ''%T'' then Some (str_replace t (rs ''NONE'') value)
          else if t = rs ''%C'' \<and> contains (rs ''%C'') value then
            map_option (\<lambda>cv. str_replace (rs ''%C'') (sha256_hex x cv) value) (rec (rs ''%l%h%p%r%j''))
          else Some value)"

fun expand_tokens ::
  "nat \<Rightarrow> externals \<Rightarrow> config \<Rightarrow> rstring list \<Rightarrow> config_map \<Rightarrow> rstring \<Rightarrow> rstring option" where
  "expand_tokens 0 x c toks tm value =
     map_option (str_replace (rs ''%%'') (rs ''%''))
       (fold_opt (expand_token (\<lambda>_. None) x c tm) toks value)"
| "expand_tokens (Suc n) x c toks tm value =
     map_option (str_replace (rs ''%%'') (rs ''%''))
       (fold_opt (expand_token (expand_tokens n x c toks tm) x c tm) toks value)"

definition env_start :: "rchar \<Rightarrow> bool" where
  "env_start c \<longleftrightarrow> (97 \<le> c \<and> c \<le> 122) \<or> (65 \<le> c \<and> c \<le> 90) \<or> c = 95"

definition env_char :: "rchar \<Rightarrow> bool" where
  "env_char c \<longleftrightarrow> env_start c \<or> is_ascii_digit c"

text \<open>
  The name and the rest, when the text starts with a reference the regex
  \<open>\$\{([a-zA-Z_][a-zA-Z_0-9]+)\}\<close> matches.
\<close>

definition env_ref :: "rstring \<Rightarrow> (rstring \<times> rstring) option" where
  "env_ref s =
     (case strip_prefix (rs ''${'') s of
        None \<Rightarrow> None
      | Some r \<Rightarrow>
          let n = takeWhile env_char r; rest = dropWhile env_char r
          in if 2 \<le> length n \<and> env_start (hd n) \<and> rest \<noteq> [] \<and> hd rest = 125 then Some (n, tl rest)
             else None)"

lemma env_ref_shorter: "env_ref s = Some (n, r) \<Longrightarrow> length r < length s"
proof -
  assume "env_ref s = Some (n, r)"
  then obtain q where q: "s = rs ''${'' @ q" "r = tl (dropWhile env_char q)"
    by (auto simp: env_ref_def Let_def split: option.splits if_splits)
  have "length (tl (dropWhile env_char q)) \<le> length q"
    using length_dropWhile_le [of env_char q] by simp
  then show ?thesis unfolding q by (simp add: rs_def)
qed

function expand_environment :: "externals \<Rightarrow> config \<Rightarrow> rstring \<Rightarrow> rstring" where
  "expand_environment x c [] = []"
| "expand_environment x c (a # s) =
     (case env_ref (a # s) of
        None \<Rightarrow> a # expand_environment x c s
      | Some (n, r) \<Rightarrow>
          (case resolve_env x c n of Some v \<Rightarrow> v | None \<Rightarrow> rs ''${'' @ n @ rs ''}'') @
          expand_environment x c r)"
  by pat_completeness auto

termination
  by (relation "measure (\<lambda>(_, _, s). length s)") (auto dest: env_ref_shorter)

declare expand_environment.simps(2) [simp del]

section \<open>Resolving a host\<close>

definition expand_value ::
  "nat \<Rightarrow> externals \<Rightarrow> config \<Rightarrow> config_map \<Rightarrow> rstring \<Rightarrow> rstring \<Rightarrow> rstring option" where
  "expand_value n x c tm k v =
     do {
       v \<leftarrow> (case should_expand_tokens k of None \<Rightarrow> Some v | Some toks \<Rightarrow> expand_tokens n x c toks tm v);
       Some (if should_expand_environment k then expand_environment x c v else v)
     }"

fun expand_all :: "(rstring \<Rightarrow> rstring \<Rightarrow> rstring option) \<Rightarrow> config_map \<Rightarrow> config_map option" where
  "expand_all f [] = Some []"
| "expand_all f ((k, v) # kvs) = do { v \<leftarrow> f k v; kvs \<leftarrow> expand_all f kvs; Some ((k, v) # kvs) }"

definition default_files :: "externals \<Rightarrow> config \<Rightarrow> config_map \<Rightarrow> config_map" where
  "default_files x c r =
     (let r = (case resolve_home x c of
                 None \<Rightarrow> r
               | Some h \<Rightarrow> or_insert (rs ''userknownhostsfile'')
                   (h @ rs ''/.ssh/known_hosts '' @ h @ rs ''/.ssh/known_hosts2'') r);
          r = (case resolve_home x c of
                 None \<Rightarrow> r
               | Some h \<Rightarrow> or_insert (rs ''identityfile'')
                   (h @ rs ''/.ssh/id_dsa '' @ h @ rs ''/.ssh/id_ecdsa '' @ h @ rs ''/.ssh/id_ed25519 '' @
                    h @ rs ''/.ssh/id_rsa'') r)
      in case resolve_env x c (rs ''SSH_AUTH_SOCK'') of
           None \<Rightarrow> r | Some p \<Rightarrow> or_insert (rs ''identityagent'') p r)"

definition host_tokens :: "config \<Rightarrow> rstring \<Rightarrow> rstring \<Rightarrow> rstring \<Rightarrow> config_map \<Rightarrow> config_map" where
  "host_tokens c host hostname user r =
     AList.update (rs ''%p'') (case map_of r (rs ''port'') of None \<Rightarrow> rs ''22'' | Some p \<Rightarrow> p)
       (AList.update (rs ''%r'') user
         (AList.update (rs ''%n'') host
           (AList.update (rs ''%h'') hostname (AList.update (rs ''%h'') host (tokens c)))))"

definition for_host :: "nat \<Rightarrow> externals \<Rightarrow> config \<Rightarrow> rstring \<Rightarrow> config_map option" where
  "for_host n x c host =
     (let user = resolve_local_user x c;
          r = merged x c host user user
      in do {
        hostname \<leftarrow> (case map_of r (rs ''hostname'') of
                       None \<Rightarrow> Some host
                     | Some v \<Rightarrow>
                         (case should_expand_tokens (rs ''hostname'') of
                            None \<Rightarrow> Some v
                          | Some toks \<Rightarrow>
                              expand_tokens n x c toks (AList.update (rs ''%h'') host (tokens c)) v));
        let r = AList.update (rs ''hostname'') hostname r;
        r \<leftarrow> expand_all (expand_value n x c (host_tokens c host hostname user r)) r;
        Some (default_files x c (or_insert (rs ''user'') user (or_insert (rs ''port'') (rs ''22'') r)))
      })"

section \<open>Expansion ends\<close>

text \<open>A token list in which \<open>%C\<close> can only come first.\<close>

definition toks_ok :: "rstring list \<Rightarrow> bool" where
  "toks_ok toks \<longleftrightarrow> rs ''%C'' \<notin> set (tl toks)"

lemma should_expand_tokens_ok: "should_expand_tokens k = Some toks \<Longrightarrow> toks_ok toks"
  by (auto simp: should_expand_tokens_def toks_ok_def rs_eq split: if_splits)

lemma expand_token_None:
  "expand_token rec x c tm t v = None \<Longrightarrow>
     t = rs ''%C'' \<and> contains (rs ''%C'') v \<and> rec (rs ''%l%h%p%r%j'') = None"
  unfolding expand_token_def by (simp split: option.splits if_splits)

lemma fold_expand_total:
  "rs ''%C'' \<notin> set toks \<Longrightarrow> fold_opt (expand_token rec x c tm) toks v \<noteq> None"
proof (induction toks arbitrary: v)
  case (Cons t toks)
  then have "expand_token rec x c tm t v \<noteq> None" using expand_token_None by fastforce
  then obtain w where "expand_token rec x c tm t v = Some w" by blast
  then show ?case using Cons by simp
qed simp

lemma expand_inner_total:
  assumes "toks_ok toks"
  shows "expand_tokens 0 x c toks tm (rs ''%l%h%p%r%j'') \<noteq> None"
proof (cases toks)
  case (Cons t ts)
  have "\<not> contains (rs ''%C'') (rs ''%l%h%p%r%j'')"
    by (simp add: rs_def of_char_def starts_with_def)
  then have "expand_token (\<lambda>_. None) x c tm t (rs ''%l%h%p%r%j'') \<noteq> None"
    using expand_token_None by blast
  then obtain w where w: "expand_token (\<lambda>_. None) x c tm t (rs ''%l%h%p%r%j'') = Some w" by blast
  moreover have "fold_opt (expand_token (\<lambda>_. None) x c tm) ts w \<noteq> None"
    by (rule fold_expand_total) (use assms Cons in \<open>simp add: toks_ok_def\<close>)
  ultimately show ?thesis using Cons by simp
qed simp

lemma expand_tokens_total:
  assumes "toks_ok toks"
  shows "expand_tokens (Suc 0) x c toks tm v \<noteq> None"
proof (cases toks)
  case (Cons t ts)
  let ?rec = "expand_tokens 0 x c toks tm"
  have "expand_token ?rec x c tm t v \<noteq> None"
  proof
    assume "expand_token ?rec x c tm t v = None"
    then have "?rec (rs ''%l%h%p%r%j'') = None" by (blast dest: expand_token_None)
    then show False by (rule notE [OF expand_inner_total [OF assms]])
  qed
  then obtain w where "expand_token ?rec x c tm t v = Some w" by blast
  moreover have "fold_opt (expand_token ?rec x c tm) ts w \<noteq> None"
    by (rule fold_expand_total) (use assms Cons in \<open>simp add: toks_ok_def\<close>)
  ultimately show ?thesis using Cons by (simp del: expand_tokens.simps(1))
qed simp

lemma expand_value_total: "expand_value (Suc 0) x c tm k v \<noteq> None"
  using expand_tokens_total [OF should_expand_tokens_ok, of k _ x c tm v]
  by (auto simp: expand_value_def simp del: expand_tokens.simps split: option.splits)

lemma expand_all_total: "(\<And>k v. f k v \<noteq> None) \<Longrightarrow> expand_all f kvs \<noteq> None"
proof (induction kvs)
  case (Cons kv kvs)
  obtain k v where kv: "kv = (k, v)" by (cases kv)
  obtain w ws where "f k v = Some w" "expand_all f kvs = Some ws" using Cons by blast
  then show ?case by (simp add: kv)
qed simp

lemma map_of_expand_all:
  "expand_all f kvs = Some kvs' \<Longrightarrow> map_of kvs' k = Option.bind (map_of kvs k) (f k)"
  by (induction f kvs arbitrary: kvs' rule: expand_all.induct) (auto simp: bind_eq_Some_conv)

lemma map_of_default_files:
  "map_of r k = Some v \<Longrightarrow> map_of (default_files x c r) k = Some v"
proof -
  assume r: "map_of r k = Some v"
  have keep: "map_of r' k = Some v \<Longrightarrow> map_of (or_insert k' v' r') k = Some v" for r' k' v'
    by auto
  show ?thesis
    unfolding default_files_def Let_def
    using r by (auto intro!: keep simp del: map_of_or_insert split: option.split)
qed

text \<open>The hostname \<open>for_host\<close> settles on.\<close>

definition host_name :: "nat \<Rightarrow> externals \<Rightarrow> config \<Rightarrow> rstring \<Rightarrow> config_map \<Rightarrow> rstring option" where
  "host_name n x c host r =
     (case map_of r (rs ''hostname'') of
        None \<Rightarrow> Some host
      | Some v \<Rightarrow>
          (case should_expand_tokens (rs ''hostname'') of
             None \<Rightarrow> Some v
           | Some toks \<Rightarrow> expand_tokens n x c toks (AList.update (rs ''%h'') host (tokens c)) v))"

lemma host_name_total: "host_name (Suc 0) x c host r \<noteq> None"
proof (cases "should_expand_tokens (rs ''hostname'')")
  case (Some toks)
  show ?thesis
    using expand_tokens_total [OF should_expand_tokens_ok [OF Some]] Some
    unfolding host_name_def by (auto simp del: expand_tokens.simps split: option.splits)
qed (auto simp: host_name_def split: option.splits)

lemma for_host_eq:
  "for_host n x c host =
     (let user = resolve_local_user x c;
          m = merged x c host user user
      in do {
        h \<leftarrow> host_name n x c host m;
        e \<leftarrow> expand_all (expand_value n x c
               (host_tokens c host h user (AList.update (rs ''hostname'') h m)))
               (AList.update (rs ''hostname'') h m);
        Some (default_files x c (or_insert (rs ''user'') user (or_insert (rs ''port'') (rs ''22'') e)))
      })"
  by (simp add: for_host_def host_name_def Let_def)

text \<open>\<open>for_host\<close> with one level of fuel, as its lookup function.\<close>

lemma for_host_lookup:
  fixes x c host
  defines "m \<equiv> merged x c host (resolve_local_user x c) (resolve_local_user x c)"
  obtains r h tm where "for_host (Suc 0) x c host = Some r"
    and "map_of m (rs ''hostname'') = None \<Longrightarrow> h = host"
    and "\<And>k v. (if k = rs ''hostname'' then Some h else map_of m k) = Some v \<Longrightarrow>
           map_of r k = expand_value (Suc 0) x c tm k v"
    and "map_of r (rs ''port'') \<noteq> None" and "map_of r (rs ''user'') \<noteq> None"
    and "map_of tm (rs ''%h'') = Some h"
proof -
  define user where "user = resolve_local_user x c"
  obtain h where h: "host_name (Suc 0) x c host m = Some h" using host_name_total by blast
  define m' where "m' = AList.update (rs ''hostname'') h m"
  define tm where "tm = host_tokens c host h user m'"
  obtain e where e: "expand_all (expand_value (Suc 0) x c tm) m' = Some e"
    using expand_all_total [of "expand_value (Suc 0) x c tm", OF expand_value_total] by blast
  define r where "r = or_insert (rs ''user'') user (or_insert (rs ''port'') (rs ''22'') e)"
  show thesis
  proof (rule that)
    show "for_host (Suc 0) x c host = Some (default_files x c r)"
      unfolding for_host_eq Let_def m_def [symmetric]
      unfolding user_def [symmetric] h
      by (simp add: m'_def [symmetric] tm_def [symmetric] e r_def)
    show "map_of m (rs ''hostname'') = None \<Longrightarrow> h = host" using h by (simp add: host_name_def)
    show "map_of (default_files x c r) k = expand_value (Suc 0) x c tm k v"
      if "(if k = rs ''hostname'' then Some h else map_of m k) = Some v" for k v
    proof -
      have "map_of m' k = Some v" using that by (simp add: m'_def split: if_splits)
      then have "map_of e k = expand_value (Suc 0) x c tm k v"
        using map_of_expand_all [OF e, of k] by simp
      moreover obtain w where "expand_value (Suc 0) x c tm k v = Some w"
        using expand_value_total by blast
      ultimately have "map_of r k = expand_value (Suc 0) x c tm k v" by (auto simp: r_def)
      then show ?thesis
        using \<open>expand_value (Suc 0) x c tm k v = Some w\<close> map_of_default_files by simp
    qed
    have "map_of r (rs ''port'') \<noteq> None" "map_of r (rs ''user'') \<noteq> None" by (auto simp: r_def)
    then show "map_of (default_files x c r) (rs ''port'') \<noteq> None"
      "map_of (default_files x c r) (rs ''user'') \<noteq> None"
      using map_of_default_files by blast+
    show "map_of tm (rs ''%h'') = Some h" by (simp add: tm_def host_tokens_def rs_eq)
  qed
qed

lemma str_replace_absent: "\<not> contains p s \<Longrightarrow> str_replace p r s = s"
  by (induction s) (auto simp: str_replace.simps(2) starts_with_def split: option.splits)

lemma not_contains_percent: "37 \<notin> set s \<Longrightarrow> \<not> contains (37 # p) s"
  by (induction s) (auto simp: starts_with_def)

lemma env_ref_none: "36 \<notin> set s \<Longrightarrow> env_ref s = None"
  by (cases s) (auto simp: env_ref_def rs_def of_char_def)

lemma expand_environment_none: "36 \<notin> set s \<Longrightarrow> expand_environment x c s = s"
  by (induction s) (auto simp: expand_environment.simps(2) env_ref_none)

section \<open>Properties\<close>

text \<open>C38:
  Resolving a host always ends with a result, and the result always says which host name,
  port and user to connect with.\<close>

theorem for_host_complete:
  "\<exists>r. for_host (Suc 0) x c host = Some r \<and> map_of r (rs ''hostname'') \<noteq> None \<and>
     map_of r (rs ''port'') \<noteq> None \<and> map_of r (rs ''user'') \<noteq> None"
proof -
  obtain r h tm where r: "for_host (Suc 0) x c host = Some r" "map_of r (rs ''port'') \<noteq> None"
    "map_of r (rs ''user'') \<noteq> None"
    "map_of r (rs ''hostname'') = expand_value (Suc 0) x c tm (rs ''hostname'') h"
    by (rule for_host_lookup [of x c host]) auto
  then show ?thesis using expand_value_total by auto
qed

text \<open>An option that is subject to neither tokens nor environment variables comes out as the
  configuration gave it, and a host no stanza renames is connected to under its own name.\<close>

theorem plain_options_unchanged:
  assumes "should_expand_tokens k = None" and "\<not> should_expand_environment k"
    and "map_of (merged x c host (resolve_local_user x c) (resolve_local_user x c)) k = Some v"
    and "map_of (merged x c host (resolve_local_user x c) (resolve_local_user x c)) (rs ''hostname'') = None"
    and "37 \<notin> set host"
  shows "\<exists>r. for_host (Suc 0) x c host = Some r \<and> map_of r k = Some v \<and>
    map_of r (rs ''hostname'') = Some host"
proof -
  obtain r tm where r: "for_host (Suc 0) x c host = Some r"
    "\<And>k v. (if k = rs ''hostname'' then Some host
      else map_of (merged x c host (resolve_local_user x c) (resolve_local_user x c)) k) = Some v \<Longrightarrow>
           map_of r k = expand_value (Suc 0) x c tm k v"
    "map_of tm (rs ''%h'') = Some host"
    using for_host_lookup [of x c host] assms(4) by metis
  have "k \<noteq> rs ''hostname''" using assms(3,4) by auto
  then have "map_of r k = Some v"
    using r(2) [of k v] assms(1-3) by (simp add: expand_value_def)
  moreover have "expand_value (Suc 0) x c tm (rs ''hostname'') host = Some host"
  proof -
    have "str_replace (rs ''%h'') host host = host" "str_replace (rs ''%%'') (rs ''%'') host = host"
      using not_contains_percent [OF assms(5)] by (simp_all add: str_replace_absent rs_def of_char_def)
    then show ?thesis using r(3)
      by (simp add: expand_value_def should_expand_tokens_def should_expand_environment_def
          expand_token_def rs_eq)
  qed
  ultimately show ?thesis using r(1) r(2) [of "rs ''hostname''" host] by auto
qed

text \<open>A configured \<open>UserKnownHostsFile\<close> keeps its \<open>%\<close> tokens: the table of options to expand
  spells it \<open>userknownkostsfile\<close>, so \<open>%d/known_hosts\<close> reaches the caller as it is.\<close>

theorem known_hosts_tokens_kept:
  assumes "map_of (merged x c host (resolve_local_user x c) (resolve_local_user x c))
      (rs ''userknownhostsfile'') = Some v"
    and "36 \<notin> set v"
  shows "\<exists>r. for_host (Suc 0) x c host = Some r \<and> map_of r (rs ''userknownhostsfile'') = Some v"
proof -
  obtain r h tm where r: "for_host (Suc 0) x c host = Some r"
    "\<And>k v. (if k = rs ''hostname'' then Some h
      else map_of (merged x c host (resolve_local_user x c) (resolve_local_user x c)) k) = Some v \<Longrightarrow>
           map_of r k = expand_value (Suc 0) x c tm k v"
    using for_host_lookup [of x c host] by metis
  have "rs ''userknownhostsfile'' \<noteq> rs ''hostname''" by (simp add: rs_eq)
  then have "map_of r (rs ''userknownhostsfile'') = expand_value (Suc 0) x c tm (rs ''userknownhostsfile'') v"
    using r(2) assms(1) by simp
  also have "\<dots> = Some v"
    using assms(2)
    by (simp add: expand_value_def should_expand_tokens_def rs_eq expand_environment_none)
  finally show ?thesis using r(1) by blast
qed

text \<open>A doubled percent sign does not protect what follows it: the tokens are replaced before
  \<open>%%\<close> is, so \<open>%%h\<close> in \<open>HostName\<close> becomes a percent sign and the host, not \<open>%h\<close>.\<close>

theorem escaped_percent_is_expanded:
  assumes "map_of tm (rs ''%h'') = Some h" and "37 \<notin> set h" and "h \<noteq> []"
  shows "expand_tokens n x c [rs ''%h''] tm (rs ''%%h'') = Some (37 # h)"
proof -
  obtain a h' where h: "h = a # h'" "a \<noteq> 37" "37 \<notin> set h'" using assms(2,3) by (cases h) auto
  have "str_replace (rs ''%h'') h (rs ''%%h'') = 37 # h"
    by (simp add: rs_def of_char_def str_replace.simps(2))
  moreover have "str_replace (rs ''%%'') (rs ''%'') (37 # h) = 37 # h"
    using h not_contains_percent [of h' "[37]"]
    by (simp add: rs_def of_char_def str_replace.simps(2) str_replace_absent)
  ultimately show ?thesis using assms(1)
    by (cases n) (simp_all add: expand_token_def)
qed

section \<open>Examples\<close>

definition demo_config :: config where
  "demo_config = \<lparr> config_files =
       [\<lparr> f_options = [(rs ''port'', rs ''2222'')],
          f_groups = [\<lparr> criteria = [All], pass = FirstPass,
            options = [(rs ''port'', rs ''1''), (rs ''userknownhostsfile'', rs ''%d/kh'')] \<rparr>],
          loaded_files = [] \<rparr>],
     c_options = [], tokens = [], environment = Some [(rs ''USER'', rs ''me'')] \<rparr>"

lemmas resolve_eval = demo_config_def merged_def apply_matches_def or_insert_all_def or_insert_def
  is_match_def rs_eq rs_def of_char_def

lemma plain_options_unchanged_witness:
  "\<exists>r. for_host (Suc 0) demo_ext demo_config (rs ''foo'') = Some r \<and>
     map_of r (rs ''port'') = Some (rs ''2222'') \<and> map_of r (rs ''hostname'') = Some (rs ''foo'')"
proof (rule plain_options_unchanged)
  show "should_expand_tokens (rs ''port'') = None"
    by (simp add: should_expand_tokens_def rs_eq)
  show "\<not> should_expand_environment (rs ''port'')"
    by (simp add: should_expand_environment_def rs_eq)
  show "map_of (merged demo_ext demo_config (rs ''foo'') (resolve_local_user demo_ext demo_config)
      (resolve_local_user demo_ext demo_config)) (rs ''port'') = Some (rs ''2222'')"
    by (simp add: resolve_eval)
  show "map_of (merged demo_ext demo_config (rs ''foo'') (resolve_local_user demo_ext demo_config)
      (resolve_local_user demo_ext demo_config)) (rs ''hostname'') = None"
    by (simp add: resolve_eval)
  show "37 \<notin> set (rs ''foo'')" by (simp add: rs_def of_char_def)
qed

lemma known_hosts_tokens_kept_witness:
  "\<exists>r. for_host (Suc 0) demo_ext demo_config (rs ''foo'') = Some r \<and>
     map_of r (rs ''userknownhostsfile'') = Some (rs ''%d/kh'')"
proof (rule known_hosts_tokens_kept)
  show "map_of (merged demo_ext demo_config (rs ''foo'') (resolve_local_user demo_ext demo_config)
      (resolve_local_user demo_ext demo_config)) (rs ''userknownhostsfile'') = Some (rs ''%d/kh'')"
    by (simp add: resolve_eval)
  show "36 \<notin> set (rs ''%d/kh'')" by (simp add: rs_def of_char_def)
qed

lemma escaped_percent_is_expanded_witness:
  "expand_tokens (Suc 0) demo_ext demo_config [rs ''%h''] [(rs ''%h'', rs ''foo'')] (rs ''%%h'') =
     Some (rs ''%foo'')"
proof -
  have "expand_tokens (Suc 0) demo_ext demo_config [rs ''%h''] [(rs ''%h'', rs ''foo'')] (rs ''%%h'') =
      Some (37 # rs ''foo'')"
    by (rule escaped_percent_is_expanded) (simp_all add: rs_def of_char_def)
  then show ?thesis by (simp add: rs_def of_char_def)
qed

end
