(* ===== verification/TermMode.thy ===== *)
theory TermMode
  imports Prelude "HOL-Library.Word"
begin

text \<open>
  The terminal's mode flags (\<open>TermMode\<close> of \<open>alacritty_terminal/src/term/mod.rs\<close>, a set of bits
  in a \<open>u32\<close>) as far as the input encoders read them, and decimal parameters of control
  sequences (\<open>format!("{}")\<close> on unsigned integers).
\<close>

unbundle bit_operations_syntax

section \<open>Mode flags\<close>

type_synonym term_mode = "32 word"

definition SHOW_CURSOR :: term_mode where "SHOW_CURSOR = push_bit 0 1"
definition APP_CURSOR :: term_mode where "APP_CURSOR = push_bit 1 1"
definition APP_KEYPAD :: term_mode where "APP_KEYPAD = push_bit 2 1"
definition MOUSE_REPORT_CLICK :: term_mode where "MOUSE_REPORT_CLICK = push_bit 3 1"
definition BRACKETED_PASTE :: term_mode where "BRACKETED_PASTE = push_bit 4 1"
definition SGR_MOUSE :: term_mode where "SGR_MOUSE = push_bit 5 1"
definition MOUSE_MOTION :: term_mode where "MOUSE_MOTION = push_bit 6 1"
definition LINE_WRAP :: term_mode where "LINE_WRAP = push_bit 7 1"
definition LINE_FEED_NEW_LINE :: term_mode where "LINE_FEED_NEW_LINE = push_bit 8 1"
definition ORIGIN :: term_mode where "ORIGIN = push_bit 9 1"
definition INSERT :: term_mode where "INSERT = push_bit 10 1"
definition FOCUS_IN_OUT :: term_mode where "FOCUS_IN_OUT = push_bit 11 1"
definition ALT_SCREEN :: term_mode where "ALT_SCREEN = push_bit 12 1"
definition MOUSE_DRAG :: term_mode where "MOUSE_DRAG = push_bit 13 1"
definition UTF8_MOUSE :: term_mode where "UTF8_MOUSE = push_bit 14 1"
definition ALTERNATE_SCROLL :: term_mode where "ALTERNATE_SCROLL = push_bit 15 1"
definition VI :: term_mode where "VI = push_bit 16 1"
definition URGENCY_HINTS :: term_mode where "URGENCY_HINTS = push_bit 17 1"
definition DISAMBIGUATE_ESC_CODES :: term_mode where "DISAMBIGUATE_ESC_CODES = push_bit 18 1"
definition REPORT_EVENT_TYPES :: term_mode where "REPORT_EVENT_TYPES = push_bit 19 1"
definition REPORT_ALTERNATE_KEYS :: term_mode where "REPORT_ALTERNATE_KEYS = push_bit 20 1"
definition REPORT_ALL_KEYS_AS_ESC :: term_mode where "REPORT_ALL_KEYS_AS_ESC = push_bit 21 1"
definition REPORT_ASSOCIATED_TEXT :: term_mode where "REPORT_ASSOCIATED_TEXT = push_bit 22 1"

definition MOUSE_MODE :: term_mode where
  "MOUSE_MODE = MOUSE_REPORT_CLICK OR MOUSE_MOTION OR MOUSE_DRAG"

definition KITTY_KEYBOARD_PROTOCOL :: term_mode where
  "KITTY_KEYBOARD_PROTOCOL = DISAMBIGUATE_ESC_CODES OR REPORT_EVENT_TYPES OR REPORT_ALTERNATE_KEYS OR
     REPORT_ALL_KEYS_AS_ESC OR REPORT_ASSOCIATED_TEXT"

definition mode_default :: term_mode where
  "mode_default = SHOW_CURSOR OR LINE_WRAP OR ALTERNATE_SCROLL OR URGENCY_HINTS"

definition contains_flags :: "term_mode \<Rightarrow> term_mode \<Rightarrow> bool" where
  "contains_flags m f \<longleftrightarrow> m AND f = f"

definition intersects :: "term_mode \<Rightarrow> term_mode \<Rightarrow> bool" where
  "intersects m f \<longleftrightarrow> m AND f \<noteq> 0"

definition remove_mode :: "term_mode \<Rightarrow> term_mode \<Rightarrow> term_mode" where
  "remove_mode m f = m AND NOT f"

lemmas mode_defs =
  APP_CURSOR_def MOUSE_REPORT_CLICK_def SGR_MOUSE_def MOUSE_MOTION_def ALT_SCREEN_def
  MOUSE_DRAG_def UTF8_MOUSE_def MOUSE_MODE_def contains_flags_def intersects_def

section \<open>Decimal parameters\<close>

fun dec :: "nat \<Rightarrow> rstring" where
  "dec n = (if n < 10 then [48 + n] else dec (n div 10) @ [48 + n mod 10])"

declare dec.simps [simp del]

definition undec :: "rstring \<Rightarrow> nat" where
  "undec s = foldl (\<lambda>a c. 10 * a + (c - 48)) 0 s"

lemma undec_dec [simp]: "undec (dec n) = n"
proof (induction n rule: dec.induct)
  case (1 n)
  then show ?case
    by (subst dec.simps) (simp add: undec_def)
qed

lemma dec_digits: "c \<in> set (dec n) \<Longrightarrow> is_ascii_digit c"
proof (induction n arbitrary: c rule: dec.induct)
  case (1 n)
  show ?case
  proof (cases "n < 10")
    case True
    with "1.prems" show ?thesis by (simp add: dec.simps [of n] is_ascii_digit_def)
  next
    case False
    have "is_ascii_digit (48 + n mod 10)" by (simp add: is_ascii_digit_def)
    with False 1 show ?thesis by (auto simp: dec.simps [of n])
  qed
qed

lemma dec_not_Nil [simp]: "dec n \<noteq> []"
  by (simp add: dec.simps [of n])

lemma dec_digit: "n < 10 \<Longrightarrow> dec n = [48 + n]"
  by (simp add: dec.simps)

text \<open>A number ends where the digits end: cutting it off a longer text gives it back.\<close>

lemma takeWhile_dec:
  assumes "\<not> is_ascii_digit c"
  shows "takeWhile is_ascii_digit (dec n @ c # r) = dec n"
    and "dropWhile is_ascii_digit (dec n @ c # r) = c # r"
  using assms dec_digits [of _ n] by (simp_all add: takeWhile_append2 dropWhile_append2)

end
