(* ===== verification/KeyEscape.thy ===== *)
theory KeyEscape
  imports TermMode
begin

text \<open>
  Key presses to terminal input: \<open>to_esc_str\<close> of
  \<open>gpui_term/src/backends/alacritty/keys.rs\<close>, with its tables as association lists in the
  order of the match arms. A keystroke is its key name and modifiers (\<open>gpui::Keystroke\<close>); the
  result is the text sent to the shell, \<open>None\<close> when the key is left to other handlers.
\<close>

section \<open>Keystrokes and modifiers\<close>

record keystroke =
  key :: rstring
  alt :: bool
  control :: bool
  shift :: bool
  platform :: bool

datatype alac_modifiers = NoMods | Alt | Ctrl | Shift | CtrlShift | Other

definition modifiers_new :: "keystroke \<Rightarrow> alac_modifiers" where
  "modifiers_new ks =
     (case (alt ks, control ks, shift ks, platform ks) of
        (False, False, False, False) \<Rightarrow> NoMods
      | (True, False, False, False) \<Rightarrow> Alt
      | (False, True, False, False) \<Rightarrow> Ctrl
      | (False, False, True, False) \<Rightarrow> Shift
      | (False, True, True, False) \<Rightarrow> CtrlShift
      | _ \<Rightarrow> Other)"

definition any_mods :: "alac_modifiers \<Rightarrow> bool" where
  "any_mods m = (case m of NoMods \<Rightarrow> False | _ \<Rightarrow> True)"

definition modifier_code :: "keystroke \<Rightarrow> nat" where
  "modifier_code ks =
     (if shift ks then 1 else 0) + (if alt ks then 2 else 0) + (if control ks then 4 else 0) + 1"

section \<open>The tables\<close>

text \<open>\<open>esc s\<close> is the literal with the escape character in front.\<close>

definition esc :: "string \<Rightarrow> rstring" where
  "esc s = 27 # rs s"

definition key_lookup :: "(string \<times> 'b) list \<Rightarrow> rstring \<Rightarrow> 'b option" where
  "key_lookup t k = map_of (map (\<lambda>(a, b). (rs a, b)) t) k"

definition mods_lookup :: "(string \<times> alac_modifiers \<times> rstring) list \<Rightarrow> rstring \<Rightarrow> alac_modifiers \<Rightarrow> rstring option" where
  "mods_lookup t k m = map_of (map (\<lambda>(a, m, b). ((rs a, m), b)) t) (k, m)"

definition or_else :: "'a option \<Rightarrow> 'a option \<Rightarrow> 'a option" where
  "or_else a b = (case a of None \<Rightarrow> b | Some x \<Rightarrow> Some x)"

definition basic_table :: "(string \<times> alac_modifiers \<times> rstring) list" where
  "basic_table = [
     (''tab'', NoMods, [9]), (''escape'', NoMods, [27]),
     (''enter'', NoMods, [13]), (''enter'', Shift, [10]),
     (''enter'', Alt, [27, 13]), (''backspace'', NoMods, [127]),
     (''tab'', Shift, esc ''[Z''), (''backspace'', Ctrl, [8]),
     (''backspace'', Alt, [27, 127]), (''backspace'', Shift, [127]),
     (''space'', Ctrl, [0]), (''back'', NoMods, [127])]"

definition manual_basic_escape_str :: "rstring \<Rightarrow> alac_modifiers \<Rightarrow> rstring option" where
  "manual_basic_escape_str = mods_lookup basic_table"

definition alt_screen_table :: "(string \<times> alac_modifiers \<times> rstring) list" where
  "alt_screen_table = [
     (''home'', Shift, esc ''[1;2H''), (''end'', Shift, esc ''[1;2F''),
     (''pageup'', Shift, esc ''[5;2~''), (''pagedown'', Shift, esc ''[6;2~'')]"

definition manual_alt_screen_escape_str :: "rstring \<Rightarrow> alac_modifiers \<Rightarrow> term_mode \<Rightarrow> rstring option" where
  "manual_alt_screen_escape_str k m mode =
     (if \<not> contains_flags mode ALT_SCREEN then None
      else mods_lookup alt_screen_table k m)"

definition manual_app_cursor_escape_str :: "rstring \<Rightarrow> alac_modifiers \<Rightarrow> term_mode \<Rightarrow> rstring option" where
  "manual_app_cursor_escape_str k m mode =
     (if m \<noteq> NoMods then None
      else if contains_flags mode APP_CURSOR
      then key_lookup [
         (''home'', esc ''OH''), (''end'', esc ''OF''), (''up'', esc ''OA''),
         (''down'', esc ''OB''), (''right'', esc ''OC''), (''left'', esc ''OD'')] k
      else key_lookup [
         (''home'', esc ''[H''), (''end'', esc ''[F''), (''up'', esc ''[A''),
         (''down'', esc ''[B''), (''right'', esc ''[C''), (''left'', esc ''[D'')] k)"

definition edit_table :: "(string \<times> alac_modifiers \<times> rstring) list" where
  "edit_table = [
     (''insert'', NoMods, esc ''[2~''), (''delete'', NoMods, esc ''[3~''),
     (''pageup'', NoMods, esc ''[5~''), (''pagedown'', NoMods, esc ''[6~'')]"

definition manual_edit_escape_str :: "rstring \<Rightarrow> alac_modifiers \<Rightarrow> rstring option" where
  "manual_edit_escape_str = mods_lookup edit_table"

definition function_keys :: "(string \<times> rstring) list" where
  "function_keys = [
     (''f1'', esc ''OP''), (''f2'', esc ''OQ''), (''f3'', esc ''OR''),
     (''f4'', esc ''OS''), (''f5'', esc ''[15~''), (''f6'', esc ''[17~''),
     (''f7'', esc ''[18~''), (''f8'', esc ''[19~''), (''f9'', esc ''[20~''),
     (''f10'', esc ''[21~''), (''f11'', esc ''[23~''), (''f12'', esc ''[24~''),
     (''f13'', esc ''[25~''), (''f14'', esc ''[26~''), (''f15'', esc ''[28~''),
     (''f16'', esc ''[29~''), (''f17'', esc ''[31~''), (''f18'', esc ''[32~''),
     (''f19'', esc ''[33~''), (''f20'', esc ''[34~'')]"

definition manual_function_escape_str :: "rstring \<Rightarrow> alac_modifiers \<Rightarrow> rstring option" where
  "manual_function_escape_str k m = (if m \<noteq> NoMods then None else key_lookup function_keys k)"

definition caret_table :: "(string \<times> alac_modifiers \<times> rstring) list" where
  "caret_table = [
     (''a'', Ctrl, [1]), (''A'', CtrlShift, [1]), (''b'', Ctrl, [2]),
     (''B'', CtrlShift, [2]), (''c'', Ctrl, [3]), (''C'', CtrlShift, [3]),
     (''d'', Ctrl, [4]), (''D'', CtrlShift, [4]), (''e'', Ctrl, [5]),
     (''E'', CtrlShift, [5]), (''f'', Ctrl, [6]), (''F'', CtrlShift, [6]),
     (''g'', Ctrl, [7]), (''G'', CtrlShift, [7]), (''h'', Ctrl, [8]),
     (''H'', CtrlShift, [8]), (''i'', Ctrl, [9]), (''I'', CtrlShift, [9]),
     (''j'', Ctrl, [10]), (''J'', CtrlShift, [10]), (''k'', Ctrl, [11]),
     (''K'', CtrlShift, [11]), (''l'', Ctrl, [12]), (''L'', CtrlShift, [12]),
     (''m'', Ctrl, [13]), (''M'', CtrlShift, [13]), (''n'', Ctrl, [14]),
     (''N'', CtrlShift, [14]), (''o'', Ctrl, [15]), (''O'', CtrlShift, [15]),
     (''p'', Ctrl, [16]), (''P'', CtrlShift, [16]), (''q'', Ctrl, [17]),
     (''Q'', CtrlShift, [17]), (''r'', Ctrl, [18]), (''R'', CtrlShift, [18]),
     (''s'', Ctrl, [19]), (''S'', CtrlShift, [19]), (''t'', Ctrl, [20]),
     (''T'', CtrlShift, [20]), (''u'', Ctrl, [21]), (''U'', CtrlShift, [21]),
     (''v'', Ctrl, [22]), (''V'', CtrlShift, [22]), (''w'', Ctrl, [23]),
     (''W'', CtrlShift, [23]), (''x'', Ctrl, [24]), (''X'', CtrlShift, [24]),
     (''y'', Ctrl, [25]), (''Y'', CtrlShift, [25]), (''z'', Ctrl, [26]),
     (''Z'', CtrlShift, [26]), (''@'', Ctrl, [0]), (''['', Ctrl, [27]),
     ([CHR 0x5C], Ctrl, [28]), ('']'', Ctrl, [29]), (''^'', Ctrl, [30]),
     (''_'', Ctrl, [31]), (''?'', Ctrl, [127])]"

definition manual_caret_notation_escape_str :: "rstring \<Rightarrow> alac_modifiers \<Rightarrow> rstring option" where
  "manual_caret_notation_escape_str = mods_lookup caret_table"

definition manual_escape_str :: "rstring \<Rightarrow> alac_modifiers \<Rightarrow> term_mode \<Rightarrow> rstring option" where
  "manual_escape_str k m mode =
     or_else (manual_basic_escape_str k m)
     (or_else (manual_alt_screen_escape_str k m mode)
     (or_else (manual_app_cursor_escape_str k m mode)
     (or_else (manual_edit_escape_str k m)
     (or_else (manual_function_escape_str k m)
              (manual_caret_notation_escape_str k m)))))"

text \<open>
  The keys that take modifiers, as parameter and final character of a CSI sequence: those before
  the guard \<open>_ if modifier_code == 2\<close>, and those after it, which Shift alone does not reach.
\<close>

definition shifted_keys :: "(string \<times> string \<times> char) list" where
  "shifted_keys = [
     (''up'', ''1'', CHR ''A''), (''down'', ''1'', CHR ''B''), (''right'', ''1'', CHR ''C''),
     (''left'', ''1'', CHR ''D''), (''f1'', ''1'', CHR ''P''), (''f2'', ''1'', CHR ''Q''),
     (''f3'', ''1'', CHR ''R''), (''f4'', ''1'', CHR ''S''), (''F5'', ''15'', CHR ''~''),
     (''f6'', ''17'', CHR ''~''), (''f7'', ''18'', CHR ''~''), (''f8'', ''19'', CHR ''~''),
     (''f9'', ''20'', CHR ''~''), (''f10'', ''21'', CHR ''~''), (''f11'', ''23'', CHR ''~''),
     (''f12'', ''24'', CHR ''~''), (''f13'', ''25'', CHR ''~''), (''f14'', ''26'', CHR ''~''),
     (''f15'', ''28'', CHR ''~''), (''f16'', ''29'', CHR ''~''), (''f17'', ''31'', CHR ''~''),
     (''f18'', ''32'', CHR ''~''), (''f19'', ''33'', CHR ''~''), (''f20'', ''34'', CHR ''~'')]"

definition unshifted_keys :: "(string \<times> string \<times> char) list" where
  "unshifted_keys = [
     (''insert'', ''2'', CHR ''~''), (''pageup'', ''5'', CHR ''~''), (''pagedown'', ''6'', CHR ''~''),
     (''end'', ''1'', CHR ''F''), (''home'', ''1'', CHR ''H'')]"

definition modified_escape :: "string \<times> char \<Rightarrow> nat \<Rightarrow> rstring" where
  "modified_escape p code = esc ''['' @ rs (fst p) @ rs '';'' @ dec code @ [of_char (snd p)]"

definition modified_esc_str :: "rstring \<Rightarrow> nat \<Rightarrow> rstring option" where
  "modified_esc_str k code =
     (case key_lookup shifted_keys k of
        Some p \<Rightarrow> Some (modified_escape p code)
      | None \<Rightarrow>
          if code = 2 then None
          else map_option (\<lambda>p. modified_escape p code) (key_lookup unshifted_keys k))"

section \<open>The whole function\<close>

definition upper_char :: "rchar \<Rightarrow> rchar" where
  "upper_char c = (if 97 \<le> c \<and> c \<le> 122 then c - 32 else c)"

definition alt_meta_str :: "keystroke \<Rightarrow> alac_modifiers \<Rightarrow> rstring option" where
  "alt_meta_str ks m =
     (let lower = (m = Alt \<and> is_ascii (key ks));
          upper = (alt ks \<and> shift ks \<and> is_ascii (key ks))
      in if lower \<or> upper
         then Some (27 # (if upper then map upper_char (key ks) else key ks))
         else None)"

definition to_esc_str :: "keystroke \<Rightarrow> term_mode \<Rightarrow> bool \<Rightarrow> rstring option" where
  "to_esc_str ks mode alt_is_meta =
     (let m = modifiers_new ks
      in case manual_escape_str (key ks) m mode of
           Some s \<Rightarrow> Some s
         | None \<Rightarrow>
             (case (if any_mods m then modified_esc_str (key ks) (modifier_code ks) else None) of
                Some s \<Rightarrow> Some s
              | None \<Rightarrow> if alt_is_meta then alt_meta_str ks m else None))"

section \<open>Facts about the tables\<close>

declare rs_eq [simp]

lemma rs_simps: "rs [] = []" "rs (c # s) = of_char c # rs s"
  by (simp_all add: rs_def)

lemma key_lookup_Cons [simp]:
  "key_lookup [] k = None"
  "key_lookup ((a, b) # t) k = (if k = rs a then Some b else key_lookup t k)"
  by (auto simp: key_lookup_def)

lemma mods_lookup_Cons [simp]:
  "mods_lookup [] k m = None"
  "mods_lookup ((a, m', b) # t) k m = (if k = rs a \<and> m = m' then Some b else mods_lookup t k m)"
  by (auto simp: mods_lookup_def)

lemma or_else_simps [simp]: "or_else None b = b" "or_else (Some x) b = Some x"
  by (simp_all add: or_else_def)

lemma or_else_None: "or_else a b = None \<longleftrightarrow> a = None \<and> b = None"
  by (auto simp: or_else_def split: option.splits)

lemma key_lookup_Some: "key_lookup t k = Some v \<Longrightarrow> \<exists>a. (a, v) \<in> set t \<and> k = rs a"
  by (auto simp: key_lookup_def dest!: map_of_SomeD)

lemmas key_tables =
  manual_basic_escape_str_def manual_alt_screen_escape_str_def manual_app_cursor_escape_str_def
  manual_edit_escape_str_def manual_function_escape_str_def manual_caret_notation_escape_str_def
  basic_table_def alt_screen_table_def edit_table_def function_keys_def caret_table_def shifted_keys_def unshifted_keys_def

lemma any_mods_iff:
  "any_mods (modifiers_new ks) \<longleftrightarrow> alt ks \<or> control ks \<or> shift ks \<or> platform ks"
  by (simp add: any_mods_def modifiers_new_def split: bool.split)

lemma any_mods_NoMods: "any_mods m \<longleftrightarrow> m \<noteq> NoMods"
  by (simp add: any_mods_def split: alac_modifiers.split)

lemma modifier_code_bounds: "1 \<le> modifier_code ks" "modifier_code ks \<le> 8"
  by (simp_all add: modifier_code_def)

lemma modifier_code_inj:
  assumes "modifier_code a = modifier_code b"
  shows "shift a = shift b \<and> alt a = alt b \<and> control a = control b"
  using assms by (simp add: modifier_code_def split: if_splits)

text \<open>The keys of the first table have no fixed sequence when a modifier is held.\<close>

definition avoids :: "(string \<times> 'b) list \<Rightarrow> (string \<times> alac_modifiers \<times> rstring) list \<Rightarrow> bool" where
  "avoids t u = list_all (\<lambda>(k, _). list_all (\<lambda>(a, m, _). a \<noteq> k \<or> m = NoMods) u) t"

lemma mods_lookup_avoids:
  assumes "avoids t u" "(k, v) \<in> set t" "m \<noteq> NoMods"
  shows "mods_lookup u (rs k) m = None"
  using assms by (fastforce simp: avoids_def list_all_iff mods_lookup_def map_of_eq_None_iff)

lemma shifted_keys_avoid:
  "avoids shifted_keys basic_table" "avoids shifted_keys alt_screen_table"
  "avoids shifted_keys edit_table" "avoids shifted_keys caret_table"
  by code_simp+

lemma function_keys_avoid:
  "avoids function_keys basic_table" "avoids function_keys alt_screen_table"
  "avoids function_keys edit_table" "avoids function_keys caret_table"
  by code_simp+

lemma manual_escape_None:
  assumes "avoids t basic_table" "avoids t alt_screen_table" "avoids t edit_table" "avoids t caret_table"
    and "(k, v) \<in> set t" "m \<noteq> NoMods"
  shows "manual_escape_str (rs k) m mode = None"
  using assms(1-4) [THEN mods_lookup_avoids, OF assms(5,6)] assms(6)
  by (simp add: manual_escape_str_def manual_basic_escape_str_def manual_alt_screen_escape_str_def
      manual_app_cursor_escape_str_def manual_edit_escape_str_def manual_function_escape_str_def
      manual_caret_notation_escape_str_def)

lemma shifted_key_not_manual:
  assumes "key_lookup shifted_keys k = Some p" "m \<noteq> NoMods"
  shows "manual_escape_str k m mode = None"
proof -
  obtain a where "(a, p) \<in> set shifted_keys" "k = rs a"
    using key_lookup_Some [OF assms(1)] by auto
  then show ?thesis
    using manual_escape_None [OF shifted_keys_avoid _ assms(2)] by simp
qed

lemma key_lookup_rs: "key_lookup t (rs k) = map_of t k"
  by (induction t) auto

lemma function_keys_shifted:
  assumes "(k, v) \<in> set function_keys"
  shows "key_lookup shifted_keys (rs k) = None \<longleftrightarrow> k = ''f5''"
    and "key_lookup unshifted_keys (rs k) = None"
proof -
  have "list_all (\<lambda>(k, _). (map_of shifted_keys k = None \<longleftrightarrow> k = ''f5'') \<and> map_of unshifted_keys k = None)
          function_keys"
    by code_simp
  then show "key_lookup shifted_keys (rs k) = None \<longleftrightarrow> k = ''f5''"
    and "key_lookup unshifted_keys (rs k) = None"
    using assms by (auto simp: list_all_iff key_lookup_rs)
qed

lemma to_esc_str_modified:
  assumes "key_lookup shifted_keys (key ks) = Some p" "any_mods (modifiers_new ks)"
  shows "to_esc_str ks mode meta = Some (modified_escape p (modifier_code ks))"
  using assms shifted_key_not_manual [OF assms(1), of "modifiers_new ks" mode]
  by (simp add: to_esc_str_def Let_def modified_esc_str_def any_mods_NoMods)

lemma modified_escape_inj:
  assumes "modified_escape p m = modified_escape q n" "m < 10" "n < 10"
  shows "p = q \<and> m = n"
  using assms by (cases p; cases q) (auto simp: modified_escape_def esc_def dec_digit rs_simps)

lemma shifted_keys_inj:
  assumes "key_lookup shifted_keys k = Some p" "key_lookup shifted_keys l = Some p"
  shows "k = l"
proof -
  have "distinct (map snd shifted_keys)" by code_simp
  moreover obtain a b where "(a, p) \<in> set shifted_keys" "(b, p) \<in> set shifted_keys" "k = rs a" "l = rs b"
    using key_lookup_Some [OF assms(1)] key_lookup_Some [OF assms(2)] by auto
  ultimately show ?thesis
    by (metis distinct_map inj_onD snd_conv prod.inject)
qed

lemma single_not_named:
  "mods_lookup basic_table [c] m = None" "mods_lookup alt_screen_table [c] m = None"
  "mods_lookup edit_table [c] m = None"
  by (simp_all add: basic_table_def alt_screen_table_def edit_table_def rs_simps)

lemma caret_masks:
  "65 \<le> c \<Longrightarrow> c \<le> 90 \<Longrightarrow> mods_lookup caret_table [c] CtrlShift = Some [c AND 31]"
  "c = 64 \<or> 91 \<le> c \<and> c \<le> 95 \<or> 97 \<le> c \<and> c \<le> 122 \<Longrightarrow> mods_lookup caret_table [c] Ctrl = Some [c AND 31]"
proof -
  have upper: "list_all (\<lambda>c. mods_lookup caret_table [c] CtrlShift = Some [c AND 31]) [65..<91]"
    by (simp add: upt_rec caret_table_def rs_simps del: upt_Suc)
  show "mods_lookup caret_table [c] CtrlShift = Some [c AND 31]" if "65 \<le> c" "c \<le> 90"
  proof -
    have "c \<in> set [65..<91]" using that unfolding set_upt by simp
    then show ?thesis using upper unfolding list_all_iff by blast
  qed
  have lower: "list_all (\<lambda>c. mods_lookup caret_table [c] Ctrl = Some [c AND 31]) (64 # [91..<96] @ [97..<123])"
    by (simp add: upt_rec caret_table_def rs_simps del: upt_Suc)
  show "mods_lookup caret_table [c] Ctrl = Some [c AND 31]"
    if "c = 64 \<or> 91 \<le> c \<and> c \<le> 95 \<or> 97 \<le> c \<and> c \<le> 122"
  proof -
    have "c \<in> set (64 # [91..<96] @ [97..<123])"
      using that unfolding set_simps set_append set_upt by auto
    then show ?thesis using lower unfolding list_all_iff by blast
  qed
qed

section \<open>Properties\<close>

text \<open>C39: For the keys of the table of modified keys (the arrows and the function keys, as it spells them: F5 is
  in it in upper case, so that the key f5 is not) the sequence sent with a modifier held determines the key and the
  modifiers: two such keystrokes that send the same text agree on the key and on Shift, Alt and Control, whatever the
  modes of the terminal were.\<close>

theorem modified_keys_unambiguous:
  assumes "key_lookup shifted_keys (key a) = Some p" "key_lookup shifted_keys (key b) = Some q"
    and "any_mods (modifiers_new a)" "any_mods (modifiers_new b)"
    and "to_esc_str a mode meta = to_esc_str b mode' meta'"
  shows "key a = key b \<and> shift a = shift b \<and> alt a = alt b \<and> control a = control b"
proof -
  have "modified_escape p (modifier_code a) = modified_escape q (modifier_code b)"
    using assms(5) to_esc_str_modified [OF assms(1,3)] to_esc_str_modified [OF assms(2,4)] by simp
  then have "p = q" "modifier_code a = modifier_code b"
    using modified_escape_inj [of p "modifier_code a" q "modifier_code b"]
      modifier_code_bounds [of a] modifier_code_bounds [of b] by auto
  then show ?thesis
    using assms(1,2) shifted_keys_inj modifier_code_inj by blast
qed

definition demo_key :: keystroke where
  "demo_key = \<lparr>key = rs ''up'', alt = True, control = False, shift = True, platform = False\<rparr>"

lemma modified_keys_unambiguous_witness:
  "key demo_key = key (demo_key\<lparr>platform := True\<rparr>) \<and> shift demo_key = shift (demo_key\<lparr>platform := True\<rparr>) \<and>
   alt demo_key = alt (demo_key\<lparr>platform := True\<rparr>) \<and>
   control demo_key = control (demo_key\<lparr>platform := True\<rparr>)"
proof (rule modified_keys_unambiguous [of _ "(''1'', CHR ''A'')" _ "(''1'', CHR ''A'')" 0 False 0 False])
  show l: "key_lookup shifted_keys (key demo_key) = Some (''1'', CHR ''A'')"
    "key_lookup shifted_keys (key (demo_key\<lparr>platform := True\<rparr>)) = Some (''1'', CHR ''A'')"
    by (simp_all add: shifted_keys_def demo_key_def)
  show m: "any_mods (modifiers_new demo_key)" "any_mods (modifiers_new (demo_key\<lparr>platform := True\<rparr>))"
    by (simp_all add: any_mods_iff demo_key_def)
  have "modifier_code (demo_key\<lparr>platform := True\<rparr>) = modifier_code demo_key"
    by (simp add: modifier_code_def)
  then show "to_esc_str demo_key 0 False = to_esc_str (demo_key\<lparr>platform := True\<rparr>) 0 False"
    using to_esc_str_modified [OF l(1) m(1), of 0 False] to_esc_str_modified [OF l(2) m(2), of 0 False]
    by simp
qed

text \<open>Of the function keys only F5 is lost when a modifier is held: every other one of F1 to F20 sends
  a sequence, F5 (spelt \<open>F5\<close> in that table) sends nothing.\<close>

theorem only_f5_loses_modifiers:
  assumes "(k, v) \<in> set function_keys" "key ks = rs k" "any_mods (modifiers_new ks)"
  shows "to_esc_str ks mode False = None \<longleftrightarrow> k = ''f5''"
proof -
  have "manual_escape_str (key ks) (modifiers_new ks) mode = None"
    using manual_escape_None [OF function_keys_avoid assms(1)] assms(2,3) by (simp add: any_mods_NoMods)
  then have "to_esc_str ks mode False = None \<longleftrightarrow> key_lookup shifted_keys (rs k) = None"
    using function_keys_shifted(2) [OF assms(1)] assms(2,3)
    by (simp add: to_esc_str_def modified_esc_str_def split: option.splits)
  then show ?thesis
    by (simp add: function_keys_shifted(1) [OF assms(1)])
qed

lemma only_f5_loses_modifiers_witness:
  "to_esc_str (demo_key\<lparr>key := rs ''f5''\<rparr>) 0 False = None \<and> to_esc_str (demo_key\<lparr>key := rs ''f6''\<rparr>) 0 False \<noteq> None"
  using only_f5_loses_modifiers [of "''f5''" "esc ''[15~''" "demo_key\<lparr>key := rs ''f5''\<rparr>" 0]
    only_f5_loses_modifiers [of "''f6''" "esc ''[17~''" "demo_key\<lparr>key := rs ''f6''\<rparr>" 0]
  by (simp add: function_keys_def any_mods_iff demo_key_def)

text \<open>Control with a letter or one of \<open>@ [ \ ] ^ _\<close> sends the character's low five bits, in every mode;
  with Shift held the same holds for the capital letters.\<close>

theorem control_masks_key:
  assumes "key ks = [c]" "control ks" "\<not> alt ks" "\<not> platform ks"
    and "if shift ks then 65 \<le> c \<and> c \<le> 90 else c = 64 \<or> 91 \<le> c \<and> c \<le> 95 \<or> 97 \<le> c \<and> c \<le> 122"
  shows "to_esc_str ks mode meta = Some [c AND 31]"
proof -
  have m: "modifiers_new ks = (if shift ks then CtrlShift else Ctrl)"
    using assms(2-4) by (simp add: modifiers_new_def)
  have "manual_escape_str [c] n mode = mods_lookup caret_table [c] n" if "n \<noteq> NoMods" for n
    using that by (simp add: manual_escape_str_def manual_basic_escape_str_def
        manual_alt_screen_escape_str_def manual_app_cursor_escape_str_def manual_edit_escape_str_def
        manual_function_escape_str_def manual_caret_notation_escape_str_def single_not_named)
  then have "manual_escape_str (key ks) (modifiers_new ks) mode = Some [c AND 31]"
    using assms(5) caret_masks by (simp add: m assms(1) split: if_splits)
  then show ?thesis by (simp add: to_esc_str_def)
qed

lemma control_masks_key_witness:
  "to_esc_str \<lparr>key = [97], alt = False, control = True, shift = False, platform = False\<rparr> 0 True = Some [1] \<and>
   to_esc_str \<lparr>key = [90], alt = False, control = True, shift = True, platform = False\<rparr> 0 True = Some [26]"
  using control_masks_key [of "\<lparr>key = [97], alt = False, control = True, shift = False, platform = False\<rparr>" 97 0 True]
    control_masks_key [of "\<lparr>key = [90], alt = False, control = True, shift = True, platform = False\<rparr>" 90 0 True]
  by simp

end
