(* ===== verification/MouseReport.thy ===== *)
theory MouseReport
  imports TermMode
begin

text \<open>
  Mouse events to terminal input: \<open>gpui_term/src/backends/alacritty/mouse.rs\<close>. Button codes and
  bytes are \<open>u8\<close> values, kept at their width. Converting pixels to cells (\<open>grid_point\<close>,
  floating point) is not modelled: a report starts from the cell.
\<close>

section \<open>Buttons\<close>

datatype mouse_format = Sgr | Normal bool

datatype mouse_button = Left | Right | Middle | Navigate

datatype alac_mouse_button =
  LeftButton | MiddleButton | RightButton | LeftMove | MiddleMove | RightMove | NoneMove |
  ScrollUp | ScrollDown | Other

record mouse_modifiers =
  shift :: bool
  alt :: bool
  control :: bool

record alac_point =
  line :: int
  column :: nat

definition from_mode :: "term_mode \<Rightarrow> mouse_format" where
  "from_mode mode =
     (if contains_flags mode SGR_MOUSE then Sgr
      else if contains_flags mode UTF8_MOUSE then Normal True
      else Normal False)"

text \<open>The discriminants of the enum, which \<open>button as u8\<close> reads.\<close>

fun button_code :: "alac_mouse_button \<Rightarrow> 8 word" where
  "button_code LeftButton = 0"
| "button_code MiddleButton = 1"
| "button_code RightButton = 2"
| "button_code LeftMove = 32"
| "button_code MiddleMove = 33"
| "button_code RightMove = 34"
| "button_code NoneMove = 35"
| "button_code ScrollUp = 64"
| "button_code ScrollDown = 65"
| "button_code Other = 99"

fun from_move_button :: "mouse_button option \<Rightarrow> alac_mouse_button" where
  "from_move_button (Some Left) = LeftMove"
| "from_move_button (Some Middle) = MiddleMove"
| "from_move_button (Some Right) = RightMove"
| "from_move_button (Some Navigate) = Other"
| "from_move_button None = NoneMove"

fun from_button :: "mouse_button \<Rightarrow> alac_mouse_button" where
  "from_button Left = LeftButton"
| "from_button Right = MiddleButton"
| "from_button Middle = RightButton"
| "from_button Navigate = Other"

text \<open>Of a scroll event's delta only the sign of its vertical part is read.\<close>

definition from_scroll :: "bool \<Rightarrow> alac_mouse_button" where
  "from_scroll is_positive = (if is_positive then ScrollUp else ScrollDown)"

section \<open>Encodings\<close>

definition mouse_pos_encode :: "nat \<Rightarrow> 8 word list" where
  "mouse_pos_encode pos =
     (let pos = 32 + 1 + pos;
          first = 0xC0 + pos div 64;
          second = 0x80 + (pos AND 63)
      in [of_nat first, of_nat second])"

definition normal_mouse_report :: "alac_point \<Rightarrow> 8 word \<Rightarrow> bool \<Rightarrow> 8 word list option" where
  "normal_mouse_report p button utf8 =
     (let max_point = (if utf8 then 2015 else 223)
      in if line p \<ge> int max_point \<or> column p \<ge> max_point then None
         else Some ([0x1b, 0x5b, 0x4d, 32 + button] @
           (if utf8 \<and> column p \<ge> 95 then mouse_pos_encode (column p)
            else [32 + 1 + of_nat (column p)]) @
           (if utf8 \<and> line p \<ge> 95 then mouse_pos_encode (nat (line p))
            else [32 + 1 + of_int (line p)])))"

definition ascii_bytes :: "rstring \<Rightarrow> 8 word list" where
  "ascii_bytes s = map of_nat s"

text \<open>The line is non-negative where \<open>mouse_report\<close> calls this.\<close>

definition sgr_mouse_report :: "alac_point \<Rightarrow> 8 word \<Rightarrow> bool \<Rightarrow> rstring" where
  "sgr_mouse_report p button pressed =
     27 # rs ''[<'' @ dec (unat button) @ rs '';'' @ dec (column p + 1) @ rs '';'' @
       dec (nat (line p + 1)) @ (if pressed then rs ''M'' else rs ''m'')"

definition modifier_bits :: "mouse_modifiers \<Rightarrow> 8 word" where
  "modifier_bits m =
     (if shift m then 4 else 0) + (if alt m then 8 else 0) + (if control m then 16 else 0)"

definition mouse_report ::
  "alac_point \<Rightarrow> alac_mouse_button \<Rightarrow> bool \<Rightarrow> mouse_modifiers \<Rightarrow> mouse_format \<Rightarrow> 8 word list option" where
  "mouse_report p button pressed modifiers format =
     (if line p < 0 then None
      else
        let mods = modifier_bits modifiers
        in case format of
             Sgr \<Rightarrow> Some (ascii_bytes (sgr_mouse_report p (button_code button + mods) pressed))
           | Normal utf8 \<Rightarrow>
               if pressed then normal_mouse_report p (button_code button + mods) utf8
               else normal_mouse_report p (3 + mods) utf8)"

section \<open>Reports of the view\<close>

definition scroll_report ::
  "alac_point \<Rightarrow> int \<Rightarrow> bool \<Rightarrow> mouse_modifiers \<Rightarrow> term_mode \<Rightarrow> 8 word list list option" where
  "scroll_report p scroll_lines is_positive modifiers mode =
     (if intersects mode MOUSE_MODE
      then map_option (replicate (nat (max scroll_lines 1)))
             (mouse_report p (from_scroll is_positive) True modifiers (from_mode mode))
      else None)"

definition alt_scroll :: "int \<Rightarrow> 8 word list" where
  "alt_scroll scroll_lines =
     (let cmd = (if scroll_lines > 0 then 0x41 else 0x42)
      in concat (replicate (nat \<bar>scroll_lines\<bar>) [0x1b, 0x4f, cmd]))"

definition mouse_button_report ::
  "alac_point \<Rightarrow> mouse_button \<Rightarrow> mouse_modifiers \<Rightarrow> bool \<Rightarrow> term_mode \<Rightarrow> 8 word list option" where
  "mouse_button_report p button modifiers pressed mode =
     (let button = from_button button
      in if button \<noteq> Other \<and> intersects mode MOUSE_MODE
         then mouse_report p button pressed modifiers (from_mode mode)
         else None)"

definition mouse_moved_report ::
  "alac_point \<Rightarrow> mouse_button option \<Rightarrow> mouse_modifiers \<Rightarrow> term_mode \<Rightarrow> 8 word list option" where
  "mouse_moved_report p button modifiers mode =
     (let button = from_move_button button
      in if button \<noteq> Other \<and> intersects mode (MOUSE_MOTION OR MOUSE_DRAG)
         then if contains_flags mode MOUSE_DRAG \<and> button = NoneMove then None
              else mouse_report p button True modifiers (from_mode mode)
         else None)"

section \<open>A reader of reports\<close>

text \<open>
  What an application does with a report in each format: the button code, column, line (from 0)
  and, in the SGR format only, whether the button went down.
\<close>

record mouse_event =
  ev_button :: nat
  ev_column :: nat
  ev_line :: nat
  ev_pressed :: "bool option"

fun read_coord :: "bool \<Rightarrow> 8 word list \<Rightarrow> (nat \<times> 8 word list) option" where
  "read_coord utf8 [] = None"
| "read_coord utf8 (b # r) =
     (if utf8 \<and> 128 \<le> unat b
      then (case r of [] \<Rightarrow> None | b' # r' \<Rightarrow> Some (64 * (unat b - 192) + (unat b' - 128) - 33, r'))
      else Some (unat b - 33, r))"

definition read_normal :: "bool \<Rightarrow> 8 word list \<Rightarrow> mouse_event option" where
  "read_normal utf8 bs =
     (if take 3 bs = [0x1b, 0x5b, 0x4d]
      then (case drop 3 bs of
              [] \<Rightarrow> None
            | b # r \<Rightarrow> do {
                (c, r) \<leftarrow> read_coord utf8 r;
                (l, r) \<leftarrow> read_coord utf8 r;
                if r = [] then Some \<lparr>ev_button = unat b - 32, ev_column = c, ev_line = l, ev_pressed = None\<rparr>
                else None })
      else None)"

definition read_dec :: "rstring \<Rightarrow> nat \<times> rstring" where
  "read_dec s = (undec (takeWhile is_ascii_digit s), dropWhile is_ascii_digit s)"

definition read_sgr :: "8 word list \<Rightarrow> mouse_event option" where
  "read_sgr bs =
     (let s = map unat bs
      in if take 3 s = 27 # rs ''[<''
         then let (b, s) = read_dec (drop 3 s);
                  (c, s) = read_dec (tl s);
                  (l, s) = read_dec (tl s)
              in if s = rs ''M'' \<or> s = rs ''m''
                 then Some \<lparr>ev_button = b, ev_column = c - 1, ev_line = l - 1, ev_pressed = Some (s = rs ''M'')\<rparr>
                 else None
         else None)"

fun read_report :: "mouse_format \<Rightarrow> 8 word list \<Rightarrow> mouse_event option" where
  "read_report Sgr bs = read_sgr bs"
| "read_report (Normal utf8) bs = read_normal utf8 bs"

section \<open>Lemmas\<close>

definition sent_code :: "alac_mouse_button \<Rightarrow> bool \<Rightarrow> mouse_format \<Rightarrow> nat" where
  "sent_code button pressed format = (if pressed \<or> format = Sgr then unat (button_code button) else 3)"

definition limit :: "bool \<Rightarrow> nat" where
  "limit utf8 = (if utf8 then 2015 else 223)"

lemma unat_byte [simp]: "n < 256 \<Longrightarrow> unat (of_nat n :: 8 word) = n"
  by (simp add: unat_of_nat)

lemma unat_modifier_bits: "unat (modifier_bits m) \<le> 28"
  by (simp add: modifier_bits_def)

lemma unat_button_code: "unat (button_code b) \<le> 99"
  by (cases b) simp_all

lemma unat_byte_add: "unat a + unat b < 256 \<Longrightarrow> unat (a + b :: 8 word) = unat a + unat b"
  by (simp add: unat_word_ariths)

lemma unat_code_mods [simp]:
  "unat (button_code b + modifier_bits m) = unat (button_code b) + unat (modifier_bits m)"
  "unat (3 + modifier_bits m) = 3 + unat (modifier_bits m)"
  using unat_button_code [of b] unat_modifier_bits [of m]
  by (simp_all add: unat_byte_add)

lemma ascii_bytes_unat: "(\<And>c. c \<in> set s \<Longrightarrow> c < 256) \<Longrightarrow> map unat (ascii_bytes s) = s"
  by (induction s) (simp_all add: ascii_bytes_def)

lemma read_coord_short: "n < 223 \<Longrightarrow> \<not> utf8 \<or> n < 95 \<Longrightarrow> read_coord utf8 ((33 + of_nat n) # r) = Some (n, r)"
proof -
  assume n: "n < 223" "\<not> utf8 \<or> n < 95"
  have "unat (33 + of_nat n :: 8 word) = 33 + n"
    using n(1) unat_byte_add [of 33 "of_nat n"] by simp
  with n show ?thesis by auto
qed

lemma read_coord_long: "95 \<le> n \<Longrightarrow> n < 2015 \<Longrightarrow> read_coord True (mouse_pos_encode n @ r) = Some (n, r)"
proof -
  assume n: "95 \<le> n" "n < 2015"
  have m: "(33 + n) AND 63 = (33 + n) mod 64"
    using take_bit_eq_mask [of 6 "33 + n"] by (simp add: take_bit_eq_mod mask_eq_exp_minus_1)
  have d: "(33 + n) div 64 < 32" using n by (simp add: div_less_iff_less_mult)
  have "unat (192 + of_nat ((33 + n) div 64) :: 8 word) = 192 + (33 + n) div 64"
    using d unat_byte_add [of 192 "of_nat ((33 + n) div 64)"] by simp
  moreover have "unat (128 + of_nat ((33 + n) mod 64) :: 8 word) = 128 + (33 + n) mod 64"
    using unat_byte_add [of 128 "of_nat ((33 + n) mod 64)"] by simp
  moreover have "64 * ((33 + n) div 64) + (33 + n) mod 64 = 33 + n"
    by (rule mult_div_mod_eq)
  ultimately show ?thesis
    by (simp add: mouse_pos_encode_def Let_def m)
qed

lemma read_coord_encoded:
  assumes "n < limit utf8"
  shows "read_coord utf8 ((if utf8 \<and> 95 \<le> n then mouse_pos_encode n else [33 + of_nat n]) @ r) = Some (n, r)"
  using assms read_coord_short [of n utf8 r] read_coord_long [of n r] by (auto simp: limit_def)

lemma read_dec_dec [simp]:
  "\<not> is_ascii_digit c \<Longrightarrow> read_dec (dec n @ c # r) = (n, c # r)"
  by (simp add: read_dec_def takeWhile_dec)

lemma dec_byte: "c \<in> set (dec n) \<Longrightarrow> c < 256"
  using dec_digits [of c n] by (simp add: is_ascii_digit_def)

lemma read_sgr_report:
  "read_sgr (ascii_bytes (sgr_mouse_report p b pressed)) =
     Some \<lparr>ev_button = unat b, ev_column = column p, ev_line = nat (line p + 1) - 1, ev_pressed = Some pressed\<rparr>"
proof -
  have "map unat (ascii_bytes (sgr_mouse_report p b pressed)) = sgr_mouse_report p b pressed"
    by (rule ascii_bytes_unat) (auto simp: sgr_mouse_report_def rs_def dest: dec_byte split: if_splits)
  then show ?thesis
    by (simp add: read_sgr_def Let_def sgr_mouse_report_def rs_def is_ascii_digit_def)
qed

lemma read_normal_report:
  assumes "0 \<le> line p" "nat (line p) < limit utf8" "column p < limit utf8" "unat b < 224"
  shows "\<exists>bs. normal_mouse_report p b utf8 = Some bs \<and>
    read_normal utf8 bs =
      Some \<lparr>ev_button = unat b, ev_column = column p, ev_line = nat (line p), ev_pressed = None\<rparr>"
proof -
  have "unat (32 + b) = 32 + unat b"
    using assms(4) unat_byte_add [of 32 b] by simp
  moreover have "normal_mouse_report p b utf8 = Some ([0x1b, 0x5b, 0x4d, 32 + b] @
      (if utf8 \<and> 95 \<le> column p then mouse_pos_encode (column p) else [33 + of_nat (column p)]) @
      (if utf8 \<and> 95 \<le> nat (line p) then mouse_pos_encode (nat (line p)) else [33 + of_nat (nat (line p))]) @ [])"
    using assms by (auto simp: normal_mouse_report_def limit_def nat_le_iff nat_less_iff le_nat_iff)
  ultimately show ?thesis
    using read_coord_encoded [OF assms(3)] read_coord_encoded [OF assms(2), of "[]"]
    by (simp add: read_normal_def)
qed

lemma mouse_report_Some:
  assumes "0 \<le> line p" "mouse_report p button pressed m format = Some bs"
  shows "read_report format bs =
    Some \<lparr>ev_button = sent_code button pressed format + unat (modifier_bits m), ev_column = column p,
      ev_line = nat (line p), ev_pressed = (if format = Sgr then Some pressed else None)\<rparr>"
proof (cases format)
  case Sgr
  then show ?thesis
    using assms by (auto simp: mouse_report_def read_sgr_report sent_code_def nat_add_distrib)
next
  case (Normal utf8)
  let ?b = "if pressed then button_code button + modifier_bits m else 3 + modifier_bits m"
  have bs: "normal_mouse_report p ?b utf8 = Some bs"
    using assms by (simp add: mouse_report_def Normal Let_def split: if_splits)
  then have "nat (line p) < limit utf8" "column p < limit utf8"
    using assms(1) by (auto simp: normal_mouse_report_def limit_def Let_def split: if_splits)
  moreover have "unat ?b = sent_code button pressed format + unat (modifier_bits m)" "unat ?b < 224"
    using unat_button_code [of button] unat_modifier_bits [of m] by (simp_all add: sent_code_def Normal)
  ultimately show ?thesis
    using read_normal_report [OF assms(1), of utf8 ?b] bs by (auto simp: Normal)
qed

lemma mouse_report_None:
  assumes "0 \<le> line p" "mouse_report p button pressed m format = None"
  shows "\<exists>utf8. format = Normal utf8 \<and> (limit utf8 \<le> nat (line p) \<or> limit utf8 \<le> column p)"
  using assms
  by (auto simp: mouse_report_def normal_mouse_report_def limit_def Let_def le_nat_iff
      split: mouse_format.splits if_splits)

section \<open>Properties\<close>

text \<open>C40: A mouse report at a line that is not negative says what happened: reading it back in the same format gives
  the button code with its modifier bits (in the older formats every release reads as 3), the column and the line;
  and no report is made only where the format cannot express the position. No byte overflows on the way.\<close>

theorem mouse_report_reads_back:
  assumes "0 \<le> line p"
  shows "case mouse_report p button pressed m format of
      None \<Rightarrow> \<exists>utf8. format = Normal utf8 \<and> (limit utf8 \<le> nat (line p) \<or> limit utf8 \<le> column p)
    | Some bs \<Rightarrow> read_report format bs =
        Some \<lparr>ev_button = sent_code button pressed format + unat (modifier_bits m), ev_column = column p,
          ev_line = nat (line p), ev_pressed = (if format = Sgr then Some pressed else None)\<rparr>"
proof (cases "mouse_report p button pressed m format")
  case None
  then show ?thesis using mouse_report_None [OF assms None] by simp
next
  case (Some bs)
  then show ?thesis using mouse_report_Some [OF assms Some] by simp
qed

lemma mouse_report_reads_back_witness:
  "read_report (Normal True) (the (mouse_report \<lparr>line = 3, column = 300\<rparr> LeftButton False
       \<lparr>shift = True, alt = False, control = True\<rparr> (Normal True))) =
     Some \<lparr>ev_button = 23, ev_column = 300, ev_line = 3, ev_pressed = None\<rparr>"
proof -
  let ?m = "\<lparr>shift = True, alt = False, control = True\<rparr> :: mouse_modifiers"
  let ?p = "\<lparr>line = 3, column = 300\<rparr> :: alac_point"
  have "mouse_report ?p LeftButton False ?m (Normal True) \<noteq> None"
    by (simp add: mouse_report_def normal_mouse_report_def)
  then show ?thesis
    using mouse_report_reads_back [where p = ?p and button = LeftButton and pressed = False and m = ?m
        and format = "Normal True"]
    by (auto simp: sent_code_def modifier_bits_def)
qed

text \<open>The right and middle buttons are swapped in presses: the button a press names and the one a drag
  names (the two low bits) agree only for the left button.\<close>

theorem press_and_drag_disagree:
  assumes "0 \<le> line p"
    and "mouse_button_report p b m True mode = Some bs" "mouse_moved_report p (Some b) m mode = Some bs'"
    and "read_report (from_mode mode) bs = Some e" "read_report (from_mode mode) bs' = Some e'"
  shows "ev_button e mod 4 = ev_button e' mod 4 \<longleftrightarrow> b = Left"
proof -
  have "ev_button e = unat (button_code (from_button b)) + unat (modifier_bits m)"
    using assms(2,4) mouse_report_Some [OF assms(1), of "from_button b" True m "from_mode mode" bs]
    by (auto simp: mouse_button_report_def Let_def sent_code_def split: if_splits)
  moreover have "ev_button e' = unat (button_code (from_move_button (Some b))) + unat (modifier_bits m)"
    using assms(3,5) mouse_report_Some [OF assms(1), of "from_move_button (Some b)" True m "from_mode mode" bs']
    by (auto simp: mouse_moved_report_def Let_def sent_code_def split: if_splits)
  moreover have "b \<noteq> Navigate"
    using assms(2) by (auto simp: mouse_button_report_def)
  ultimately show ?thesis
    by (cases b) (simp_all add: modifier_bits_def)
qed

lemma press_and_drag_disagree_witness:
  "\<exists>e e'. ev_button e mod 4 \<noteq> ev_button e' mod 4 \<and>
     read_report (from_mode MOUSE_DRAG)
       (the (mouse_button_report \<lparr>line = 0, column = 0\<rparr> Right \<lparr>shift = False, alt = False, control = False\<rparr> True MOUSE_DRAG)) = Some e \<and>
     read_report (from_mode MOUSE_DRAG)
       (the (mouse_moved_report \<lparr>line = 0, column = 0\<rparr> (Some Right) \<lparr>shift = False, alt = False, control = False\<rparr> MOUSE_DRAG)) = Some e'"
proof -
  let ?m = "\<lparr>shift = False, alt = False, control = False\<rparr> :: mouse_modifiers"
  let ?p = "\<lparr>line = 0, column = 0\<rparr> :: alac_point"
  have f: "from_mode MOUSE_DRAG = Normal False"
    by (simp add: from_mode_def mode_defs)
  have b: "mouse_button_report ?p Right ?m True MOUSE_DRAG = Some [0x1b, 0x5b, 0x4d, 33, 33, 33]"
    unfolding mouse_button_report_def f
    by (simp add: mode_defs mouse_report_def normal_mouse_report_def modifier_bits_def)
  have d: "mouse_moved_report ?p (Some Right) ?m MOUSE_DRAG = Some [0x1b, 0x5b, 0x4d, 66, 33, 33]"
    unfolding mouse_moved_report_def f
    by (simp add: mode_defs mouse_report_def normal_mouse_report_def modifier_bits_def)
  have r: "read_report (from_mode MOUSE_DRAG) [0x1b, 0x5b, 0x4d, 33, 33, 33] =
      Some \<lparr>ev_button = 1, ev_column = 0, ev_line = 0, ev_pressed = None\<rparr>"
    "read_report (from_mode MOUSE_DRAG) [0x1b, 0x5b, 0x4d, 66, 33, 33] =
      Some \<lparr>ev_button = 34, ev_column = 0, ev_line = 0, ev_pressed = None\<rparr>"
    by (simp_all add: f read_normal_def)
  from press_and_drag_disagree [OF _ b d r] show ?thesis
    by (simp add: b d r)
qed

end
