(* ===== verification/TermCell.thy ===== *)
theory TermCell
  imports Prelude "HOL-Library.Word"
begin

text \<open>
  Cells and rows of the terminal grid: \<open>alacritty_terminal/src/term/cell.rs\<close> and
  \<open>grid/row.rs\<close>. A row keeps the number of cells that may differ from the last reset, so
  that a reset touches only those; the locale \<open>grid_cell\<close> states what this relies on, and
  its interpretation on \<open>Cell\<close> shows that cells keep it.
\<close>

unbundle bit_operations_syntax

section \<open>Cells\<close>

type_synonym flags = "16 word"

definition INVERSE :: flags where "INVERSE = push_bit 0 1"
definition BOLD :: flags where "BOLD = push_bit 1 1"
definition ITALIC :: flags where "ITALIC = push_bit 2 1"
definition UNDERLINE :: flags where "UNDERLINE = push_bit 3 1"
definition WRAPLINE :: flags where "WRAPLINE = push_bit 4 1"
definition WIDE_CHAR :: flags where "WIDE_CHAR = push_bit 5 1"
definition WIDE_CHAR_SPACER :: flags where "WIDE_CHAR_SPACER = push_bit 6 1"
definition DIM :: flags where "DIM = push_bit 7 1"
definition HIDDEN :: flags where "HIDDEN = push_bit 8 1"
definition STRIKEOUT :: flags where "STRIKEOUT = push_bit 9 1"
definition LEADING_WIDE_CHAR_SPACER :: flags where "LEADING_WIDE_CHAR_SPACER = push_bit 10 1"
definition DOUBLE_UNDERLINE :: flags where "DOUBLE_UNDERLINE = push_bit 11 1"
definition UNDERCURL :: flags where "UNDERCURL = push_bit 12 1"
definition DOTTED_UNDERLINE :: flags where "DOTTED_UNDERLINE = push_bit 13 1"
definition DASHED_UNDERLINE :: flags where "DASHED_UNDERLINE = push_bit 14 1"

definition ALL_UNDERLINES :: flags where
  "ALL_UNDERLINES = UNDERLINE OR DOUBLE_UNDERLINE OR UNDERCURL OR DOTTED_UNDERLINE OR DASHED_UNDERLINE"

definition has_flags :: "flags \<Rightarrow> flags \<Rightarrow> bool" where
  "has_flags f g \<longleftrightarrow> f AND g = g"

definition any_flags :: "flags \<Rightarrow> flags \<Rightarrow> bool" where
  "any_flags f g \<longleftrightarrow> f AND g \<noteq> 0"

definition remove_flags :: "flags \<Rightarrow> flags \<Rightarrow> flags" where
  "remove_flags f g = f AND NOT g"

text \<open>Colours of the \<open>vte\<close> crate: of the named ones the model tells two apart from the rest.\<close>

datatype named_color = Foreground | Background | OtherNamed nat

datatype color = Named named_color | Spec "8 word" "8 word" "8 word" | Indexed "8 word"

record hyperlink =
  link_id :: rstring
  link_uri :: rstring

record cell_extra =
  zerowidth :: "rchar list"
  underline_color :: "color option"
  link :: "hyperlink option"

record cell =
  ch :: rchar
  fg :: color
  bg :: color
  cflags :: flags
  extra :: "cell_extra option"

definition extra_default :: cell_extra where
  "extra_default = \<lparr>zerowidth = [], underline_color = None, link = None\<rparr>"

definition cell_default :: cell where
  "cell_default = \<lparr>ch = 32, fg = Named Foreground, bg = Named Background, cflags = 0, extra = None\<rparr>"

definition push_zerowidth :: "rchar \<Rightarrow> cell \<Rightarrow> cell" where
  "push_zerowidth c cl =
     (let e = (case extra cl of None \<Rightarrow> extra_default | Some e \<Rightarrow> e)
      in cl\<lparr>extra := Some (e\<lparr>zerowidth := zerowidth e @ [c]\<rparr>)\<rparr>)"

definition clear_wide :: "cell \<Rightarrow> cell" where
  "clear_wide cl =
     cl\<lparr>cflags := remove_flags (cflags cl) WIDE_CHAR,
        extra := map_option (\<lambda>e. e\<lparr>zerowidth := []\<rparr>) (extra cl), ch := 32\<rparr>"

definition set_underline_color :: "color option \<Rightarrow> cell \<Rightarrow> cell" where
  "set_underline_color col cl =
     (if col = None \<and>
         (case extra cl of None \<Rightarrow> True | Some e \<Rightarrow> zerowidth e = [] \<and> link e = None)
      then cl\<lparr>extra := None\<rparr>
      else let e = (case extra cl of None \<Rightarrow> extra_default | Some e \<Rightarrow> e)
           in cl\<lparr>extra := Some (e\<lparr>underline_color := col\<rparr>)\<rparr>)"

definition set_hyperlink :: "hyperlink option \<Rightarrow> cell \<Rightarrow> cell" where
  "set_hyperlink l cl =
     (if l = None \<and>
         (case extra cl of None \<Rightarrow> True | Some e \<Rightarrow> zerowidth e = [] \<and> underline_color e = None)
      then cl\<lparr>extra := None\<rparr>
      else let e = (case extra cl of None \<Rightarrow> extra_default | Some e \<Rightarrow> e)
           in cl\<lparr>extra := Some (e\<lparr>link := l\<rparr>)\<rparr>)"

definition get_underline_color :: "cell \<Rightarrow> color option" where
  "get_underline_color cl = Option.bind (extra cl) underline_color"

definition get_hyperlink :: "cell \<Rightarrow> hyperlink option" where
  "get_hyperlink cl = Option.bind (extra cl) link"

definition get_zerowidth :: "cell \<Rightarrow> rchar list option" where
  "get_zerowidth cl = map_option zerowidth (extra cl)"

definition cell_is_empty :: "cell \<Rightarrow> bool" where
  "cell_is_empty cl \<longleftrightarrow>
     (ch cl = 32 \<or> ch cl = 9) \<and> bg cl = Named Background \<and> fg cl = Named Foreground \<and>
     \<not> any_flags (cflags cl)
         (INVERSE OR ALL_UNDERLINES OR STRIKEOUT OR WRAPLINE OR WIDE_CHAR_SPACER OR LEADING_WIDE_CHAR_SPACER) \<and>
     map_option (\<lambda>e. zerowidth e = []) (extra cl) \<noteq> Some False"

definition cell_reset :: "cell \<Rightarrow> cell \<Rightarrow> cell" where
  "cell_reset cl template = cell_default\<lparr>bg := bg template\<rparr>"

section \<open>Rows\<close>

text \<open>
  The operations of \<open>Row<T>\<close> take those of \<open>T\<close> they use as arguments: \<open>dflt\<close>
  (\<open>Default\<close>), \<open>is_empty\<close> and \<open>reset\<close> (\<open>GridCell\<close>), \<open>disc\<close> (\<open>ResetDiscriminant\<close>).
\<close>

record 'a row =
  cells :: "'a list"
  occ :: nat

definition row_new :: "'a \<Rightarrow> nat \<Rightarrow> 'a row" where
  "row_new dflt columns = \<lparr>cells = replicate columns dflt, occ = 0\<rparr>"

definition row_grow :: "'a \<Rightarrow> nat \<Rightarrow> 'a row \<Rightarrow> 'a row" where
  "row_grow dflt columns r =
     (if length (cells r) \<ge> columns then r
      else r\<lparr>cells := cells r @ replicate (columns - length (cells r)) dflt\<rparr>)"

text \<open>The cells cut off, without the empty ones at their end; \<open>None\<close> if nothing is left of them.\<close>

definition row_shrink :: "('a \<Rightarrow> bool) \<Rightarrow> nat \<Rightarrow> 'a row \<Rightarrow> 'a row \<times> 'a list option" where
  "row_shrink is_empty columns r =
     (if length (cells r) \<le> columns then (r, None)
      else let new_row = rev (dropWhile is_empty (rev (drop columns (cells r))))
           in (\<lparr>cells = take columns (cells r), occ = min (occ r) columns\<rparr>,
               if new_row = [] then None else Some new_row))"

definition row_reset :: "('a \<Rightarrow> 'a \<Rightarrow> 'a) \<Rightarrow> ('a \<Rightarrow> 'd) \<Rightarrow> 'a \<Rightarrow> 'a row \<Rightarrow> 'a row" where
  "row_reset reset disc template r =
     (let dirty = (if disc (last (cells r)) \<noteq> disc template then length (cells r) else occ r)
      in \<lparr>cells = map (\<lambda>c. reset c template) (take dirty (cells r)) @ drop dirty (cells r), occ = 0\<rparr>)"

definition row_from_vec :: "'a list \<Rightarrow> nat \<Rightarrow> 'a row" where
  "row_from_vec v n = \<lparr>cells = v, occ = n\<rparr>"

text \<open>\<open>last_mut\<close> and \<open>row[column] = x\<close>: writing through the mutable references they return.\<close>

definition row_map_last :: "('a \<Rightarrow> 'a) \<Rightarrow> 'a row \<Rightarrow> 'a row" where
  "row_map_last f r =
     \<lparr>cells = (if cells r = [] then [] else butlast (cells r) @ [f (last (cells r))]), occ = length (cells r)\<rparr>"

definition row_set :: "nat \<Rightarrow> 'a \<Rightarrow> 'a row \<Rightarrow> 'a row option" where
  "row_set col x r =
     (if col < length (cells r)
      then Some \<lparr>cells = (cells r)[col := x], occ = max (occ r) (col + 1)\<rparr> else None)"

definition row_append :: "'a list \<Rightarrow> 'a row \<Rightarrow> 'a row" where
  "row_append v r = \<lparr>cells = cells r @ v, occ = occ r + length v\<rparr>"

definition row_append_front :: "'a list \<Rightarrow> 'a row \<Rightarrow> 'a row" where
  "row_append_front v r = \<lparr>cells = v @ cells r, occ = occ r + length v\<rparr>"

definition row_is_clear :: "('a \<Rightarrow> bool) \<Rightarrow> 'a row \<Rightarrow> bool" where
  "row_is_clear is_empty r = list_all is_empty (cells r)"

text \<open>\<open>front_split_off\<close> leaves the part behind \<open>at\<close> in the row and returns the part in front.\<close>

definition row_front_split_off :: "nat \<Rightarrow> 'a row \<Rightarrow> ('a row \<times> 'a list) option" where
  "row_front_split_off at r =
     (if at \<le> length (cells r)
      then Some (\<lparr>cells = drop at (cells r), occ = occ r - at\<rparr>, take at (cells r)) else None)"

text \<open>
  Writes through \<open>IndexMut\<close>, for one column, for a range of columns and for all of them: each marks
  the cells it hands out as modified. \<open>None\<close> is an index out of range.
\<close>

definition row_update :: "nat \<Rightarrow> ('a \<Rightarrow> 'a) \<Rightarrow> 'a row \<Rightarrow> 'a row option" where
  "row_update i f r =
     (if i < length (cells r)
      then Some \<lparr>cells = (cells r)[i := f (cells r ! i)], occ = max (occ r) (i + 1)\<rparr> else None)"

definition row_fill :: "nat \<Rightarrow> nat \<Rightarrow> 'a \<Rightarrow> 'a row \<Rightarrow> 'a row option" where
  "row_fill i j c r =
     (if i \<le> j \<and> j \<le> length (cells r)
      then Some \<lparr>cells = take i (cells r) @ replicate (j - i) c @ drop j (cells r), occ = max (occ r) j\<rparr>
      else None)"

definition row_fill_from :: "nat \<Rightarrow> 'a \<Rightarrow> 'a row \<Rightarrow> 'a row option" where
  "row_fill_from i c r =
     (if i \<le> length (cells r)
      then Some \<lparr>cells = take i (cells r) @ replicate (length (cells r) - i) c, occ = length (cells r)\<rparr>
      else None)"

definition vec_swap :: "nat \<Rightarrow> nat \<Rightarrow> 'b list \<Rightarrow> 'b list option" where
  "vec_swap i j xs =
     (if i < length xs \<and> j < length xs then Some (xs[i := xs ! j, j := xs ! i]) else None)"

definition row_edit_all :: "('a list \<Rightarrow> 'a list option) \<Rightarrow> 'a row \<Rightarrow> 'a row option" where
  "row_edit_all f r = map_option (\<lambda>xs. \<lparr>cells = xs, occ = length (cells r)\<rparr>) (f (cells r))"

text \<open>The occupied length of a line of cells (\<open>LineLength\<close>).\<close>

definition line_length :: "cell row \<Rightarrow> nat" where
  "line_length r =
     (if has_flags (cflags (last (cells r))) WRAPLINE then length (cells r)
      else length (dropWhile (\<lambda>c. \<not> (ch c \<noteq> 32 \<or> map_option (\<lambda>e. zerowidth e = []) (extra c) = Some False))
             (rev (cells r))))"

section \<open>The contract between rows and cells\<close>

text \<open>
  \<open>row_ok\<close>: the cells from \<open>occ\<close> on are all equal, and blank: a reset to their own
  template leaves them as they are.
\<close>

definition row_ok :: "('a \<Rightarrow> 'a \<Rightarrow> 'a) \<Rightarrow> 'a row \<Rightarrow> bool" where
  "row_ok reset r \<longleftrightarrow>
     occ r \<le> length (cells r) \<and>
     (\<forall>c \<in> set (drop (occ r) (cells r)). reset c c = c \<and> c = last (cells r))"

locale grid_cell =
  fixes dflt :: "'a"
    and reset :: "'a \<Rightarrow> 'a \<Rightarrow> 'a"
    and disc :: "'a \<Rightarrow> 'd"
  assumes reset_any: "reset c t = reset c' t"
    and reset_cong: "disc t = disc t' \<Longrightarrow> reset c t = reset c t'"
    and reset_disc: "disc (reset c t) = disc t"
    and reset_dflt: "reset c dflt = dflt"
begin

lemma reset_self [simp]: "reset (reset c t) (reset c t) = reset c t"
proof -
  have "reset (reset c t) (reset c t) = reset c (reset c t)" by (rule reset_any)
  also have "\<dots> = reset c t" by (rule reset_cong) (rule reset_disc)
  finally show ?thesis .
qed

lemma row_okI: "occ r \<le> length (cells r) \<Longrightarrow> reset b b = b \<Longrightarrow> set (drop (occ r) (cells r)) \<subseteq> {b} \<Longrightarrow> row_ok reset r"
proof -
  assume r: "occ r \<le> length (cells r)" "reset b b = b" "set (drop (occ r) (cells r)) \<subseteq> {b}"
  have "c = b \<and> last (cells r) = b" if "c \<in> set (drop (occ r) (cells r))" for c
  proof -
    have "occ r < length (cells r)" using length_pos_if_in_set [OF that] by simp
    then have "last (cells r) \<in> set (drop (occ r) (cells r))"
      using last_in_set [of "drop (occ r) (cells r)"] by (simp add: last_drop)
    then show ?thesis using r(3) that by blast
  qed
  then show ?thesis using r(1,2) unfolding row_ok_def by blast
qed

lemma row_okE:
  assumes "row_ok reset r"
  obtains b where "occ r \<le> length (cells r)" "reset b b = b" "set (drop (occ r) (cells r)) \<subseteq> {b}"
    "set (drop (occ r) (cells r)) = {} \<or> b = last (cells r)"
proof (cases "drop (occ r) (cells r) = []")
  case True
  then show thesis using assms reset_dflt by (intro that [of dflt]) (simp_all add: row_ok_def)
next
  case False
  have all: "occ r \<le> length (cells r)" "\<And>c. c \<in> set (drop (occ r) (cells r)) \<Longrightarrow> reset c c = c \<and> c = last (cells r)"
    using assms by (simp_all add: row_ok_def)
  have "last (drop (occ r) (cells r)) \<in> set (drop (occ r) (cells r))"
    using False by (rule last_in_set)
  then have "reset (last (cells r)) (last (cells r)) = last (cells r)"
    using all(2) by metis
  then show thesis using all(2) by (intro that [of "last (cells r)"]) (auto simp: all(1))
qed

lemma blank_tail:
  assumes "set xs \<subseteq> {b}"
  shows "xs = replicate (length xs) b"
  using assms by (metis replicate_length_same singletonD subsetD)

lemma row_reset_blank:
  assumes "row_ok reset r" "cells r \<noteq> []"
  shows "row_reset reset disc t r = \<lparr>cells = replicate (length (cells r)) (reset dflt t), occ = 0\<rparr>"
proof -
  obtain b where b: "occ r \<le> length (cells r)" "reset b b = b" "set (drop (occ r) (cells r)) \<subseteq> {b}"
    "set (drop (occ r) (cells r)) = {} \<or> b = last (cells r)"
    by (rule row_okE [OF assms(1)])
  define n where "n = (if disc (last (cells r)) \<noteq> disc t then length (cells r) else occ r)"
  have "set (drop n (cells r)) \<subseteq> {reset dflt t}"
  proof (cases "drop n (cells r) = []")
    case False
    then have "n = occ r" "disc (last (cells r)) = disc t" by (auto simp: n_def split: if_splits)
    moreover from this False b(4) have "b = last (cells r)" by auto
    ultimately have "b = reset dflt t"
      using b(2) reset_cong [of b t b] reset_any [of b t dflt] by simp
    then show ?thesis using b(3) \<open>n = occ r\<close> by simp
  qed simp
  moreover have "set (map (\<lambda>c. reset c t) (take n (cells r))) \<subseteq> {reset dflt t}"
    using reset_any by auto
  ultimately have "set (map (\<lambda>c. reset c t) (take n (cells r)) @ drop n (cells r)) \<subseteq> {reset dflt t}"
    by auto
  from blank_tail [OF this] have
    "map (\<lambda>c. reset c t) (take n (cells r)) @ drop n (cells r) = replicate (length (cells r)) (reset dflt t)"
    using b(1) by (simp add: n_def split: if_splits)
  then show ?thesis by (simp add: row_reset_def n_def Let_def)
qed

lemma row_ok_new: "row_ok reset (row_new dflt n)"
  by (rule row_okI [of _ dflt]) (auto simp: row_new_def reset_dflt)

lemma row_ok_reset: "row_ok reset r \<Longrightarrow> cells r \<noteq> [] \<Longrightarrow> row_ok reset (row_reset reset disc t r)"
  by (rule row_okI [of _ "reset dflt t"]) (auto simp: row_reset_blank)

lemma row_ok_set: "row_ok reset r \<Longrightarrow> row_set i x r = Some r' \<Longrightarrow> row_ok reset r'"
proof (erule row_okE)
  fix b assume b: "occ r \<le> length (cells r)" "reset b b = b" "set (drop (occ r) (cells r)) \<subseteq> {b}"
    and s: "row_set i x r = Some r'"
  have "set (drop (max (occ r) (Suc i)) (cells r)) \<subseteq> set (drop (occ r) (cells r))"
    by (rule set_drop_subset_set_drop) simp
  then show "row_ok reset r'"
    using b s by (intro row_okI [of _ b]) (auto simp: row_set_def split: if_splits)
qed

lemma row_ok_tail:
  assumes "row_ok reset r" "occ r \<le> k" "k \<le> length xs" "drop k xs = drop k (cells r)"
  shows "row_ok reset \<lparr>cells = xs, occ = k\<rparr>"
proof -
  obtain b where b: "reset b b = b" "set (drop (occ r) (cells r)) \<subseteq> {b}"
    by (rule row_okE [OF assms(1)])
  have "set (drop k (cells r)) \<subseteq> set (drop (occ r) (cells r))"
    by (rule set_drop_subset_set_drop) (rule assms(2))
  then show ?thesis using b assms(3,4) by (intro row_okI [of _ b]) auto
qed

lemma row_ok_update: "row_ok reset r \<Longrightarrow> row_update i f r = Some r' \<Longrightarrow> row_ok reset r'"
  using row_ok_set [of r i "f (cells r ! i)" r'] by (simp add: row_update_def row_set_def split: if_splits)

lemma row_ok_fill:
  assumes "row_ok reset r" "row_fill i j c r = Some r'"
  shows "row_ok reset r'"
proof -
  have ij: "i \<le> j" "j \<le> length (cells r)"
    and r': "r' = \<lparr>cells = take i (cells r) @ replicate (j - i) c @ drop j (cells r), occ = max (occ r) j\<rparr>"
    using assms(2) by (auto simp: row_fill_def split: if_splits)
  have "occ r \<le> length (cells r)" using assms(1) by (simp add: row_ok_def)
  then show ?thesis unfolding r'
    using ij by (intro row_ok_tail [OF assms(1)]) (auto simp: drop_append max_def min_def)
qed

lemma row_ok_full: "row_ok reset \<lparr>cells = xs, occ = length xs\<rparr>"
  by (simp add: row_ok_def)

lemma row_ok_map_last: "row_ok reset (row_map_last f r)"
  by (rule row_okI [of _ dflt]) (auto simp: row_map_last_def reset_dflt)

lemma row_ok_append: "occ r = length (cells r) \<Longrightarrow> row_ok reset (row_append v r)"
  by (rule row_okI [of _ dflt]) (auto simp: row_append_def reset_dflt)

lemma row_ok_append_front: "row_ok reset r \<Longrightarrow> row_ok reset (row_append_front v r)"
  by (erule row_okE, rule row_okI) (auto simp: row_append_front_def)

lemma row_ok_shrink:
  assumes "row_ok reset r"
  shows "row_ok reset (fst (row_shrink is_empty n r))"
proof (cases "length (cells r) \<le> n")
  case False
  have "set (drop (min (occ r) n) (take n (cells r))) \<subseteq> set (drop (occ r) (cells r))"
    by (auto simp: min_def drop_take dest: in_set_takeD)
  moreover obtain b where "occ r \<le> length (cells r)" "reset b b = b" "set (drop (occ r) (cells r)) \<subseteq> {b}"
    by (rule row_okE [OF assms])
  ultimately show ?thesis
    using False by (intro row_okI [of _ b]) (simp_all add: row_shrink_def Let_def)
qed (use assms in \<open>simp add: row_shrink_def\<close>)

lemma row_ok_front_split_off:
  assumes "row_ok reset r" "row_front_split_off n r = Some (r', v)"
  shows "row_ok reset r'"
proof -
  have "set (drop (occ r - n + n) (cells r)) \<subseteq> set (drop (occ r) (cells r))"
    by (rule set_drop_subset_set_drop) simp
  moreover obtain b where "occ r \<le> length (cells r)" "reset b b = b" "set (drop (occ r) (cells r)) \<subseteq> {b}"
    by (rule row_okE [OF assms(1)])
  moreover have "r' = \<lparr>cells = drop n (cells r), occ = occ r - n\<rparr>" "n \<le> length (cells r)"
    using assms(2) by (simp_all add: row_front_split_off_def split: if_splits)
  ultimately show ?thesis
    by (intro row_okI [of _ b]) auto
qed

end

interpretation cell: grid_cell cell_default cell_reset bg
  by unfold_locales (auto simp: cell_reset_def cell_default_def)

section \<open>Properties\<close>

text \<open>Resetting a row of cells blanks the whole row, although it only touches the cells marked as
  modified: every cell becomes the default cell in the template's background. The mark is sound
  after every operation that edits a row within its width.\<close>

theorem row_reset_clears:
  assumes "row_ok cell_reset r" "cells r \<noteq> []"
  shows "row_reset cell_reset bg t r =
      \<lparr>cells = replicate (length (cells r)) (cell_default\<lparr>bg := bg t\<rparr>), occ = 0\<rparr> \<and>
    row_ok cell_reset (row_reset cell_reset bg t r) \<and>
    row_ok cell_reset (fst (row_shrink cell_is_empty n r)) \<and>
    row_ok cell_reset (row_map_last f r) \<and> row_ok cell_reset (row_append_front v r) \<and>
    (case row_set i x r of None \<Rightarrow> length (cells r) \<le> i | Some r' \<Rightarrow> row_ok cell_reset r') \<and>
    (case row_front_split_off n r of None \<Rightarrow> length (cells r) < n | Some (r', _) \<Rightarrow> row_ok cell_reset r')"
proof (intro conjI)
  show "row_reset cell_reset bg t r =
      \<lparr>cells = replicate (length (cells r)) (cell_default\<lparr>bg := bg t\<rparr>), occ = 0\<rparr>"
    using cell.row_reset_blank [OF assms] by (simp add: cell_reset_def)
  show "(case row_set i x r of None \<Rightarrow> length (cells r) \<le> i | Some r' \<Rightarrow> row_ok cell_reset r')"
    using cell.row_ok_set [OF assms(1), of i x] by (auto simp: row_set_def)
  show "(case row_front_split_off n r of None \<Rightarrow> length (cells r) < n | Some (r', _) \<Rightarrow> row_ok cell_reset r')"
    using cell.row_ok_front_split_off [OF assms(1), of n] by (auto simp: row_front_split_off_def)
qed (rule cell.row_ok_reset [OF assms] cell.row_ok_shrink [OF assms(1)] cell.row_ok_map_last
      cell.row_ok_append_front [OF assms(1)])+

definition demo_row :: "cell row" where
  "demo_row = \<lparr>cells = [cell_default\<lparr>ch := 97\<rparr>, cell_default], occ = 1\<rparr>"

lemma demo_row_ok: "row_ok cell_reset demo_row" "cells demo_row \<noteq> []"
  by (simp_all add: demo_row_def row_ok_def cell_reset_def cell_default_def)

lemma row_reset_clears_witness:
  "row_reset cell_reset bg (cell_default\<lparr>bg := Indexed 1\<rparr>) demo_row =
     \<lparr>cells = [cell_default\<lparr>bg := Indexed 1\<rparr>, cell_default\<lparr>bg := Indexed 1\<rparr>], occ = 0\<rparr>"
  using row_reset_clears [OF demo_row_ok, of "cell_default\<lparr>bg := Indexed 1\<rparr>"]
  by (simp add: demo_row_def numeral_2_eq_2)

text \<open>Widening a row defeats the next reset: after a reset to a coloured background and a \<open>grow\<close>, a
  reset to the default background leaves the old cells coloured, since the last cell already has
  the new background and no cell is marked as modified.\<close>

theorem grow_defeats_reset:
  assumes "row_ok cell_reset r" "cells r \<noteq> []" "length (cells r) < n"
    and "bg t \<noteq> Named Background"
  shows "cells (row_reset cell_reset bg cell_default
           (row_grow cell_default n (row_reset cell_reset bg t r))) =
         replicate (length (cells r)) (cell_default\<lparr>bg := bg t\<rparr>) @
         replicate (n - length (cells r)) cell_default"
proof -
  have "row_reset cell_reset bg t r =
      \<lparr>cells = replicate (length (cells r)) (cell_default\<lparr>bg := bg t\<rparr>), occ = 0\<rparr>"
    using cell.row_reset_blank [OF assms(1,2)] by (simp add: cell_reset_def)
  then have grown: "row_grow cell_default n (row_reset cell_reset bg t r) =
      \<lparr>cells = replicate (length (cells r)) (cell_default\<lparr>bg := bg t\<rparr>) @
         replicate (n - length (cells r)) cell_default, occ = 0\<rparr>"
    using assms(3) by (simp add: row_grow_def)
  show ?thesis
    unfolding grown using assms(3) by (simp add: row_reset_def Let_def last_replicate)
qed

lemma grow_defeats_reset_witness:
  "cells (row_reset cell_reset bg cell_default
     (row_grow cell_default 3 (row_reset cell_reset bg (cell_default\<lparr>bg := Indexed 1\<rparr>) demo_row))) =
   [cell_default\<lparr>bg := Indexed 1\<rparr>, cell_default\<lparr>bg := Indexed 1\<rparr>, cell_default]"
  using grow_defeats_reset [OF demo_row_ok, of 3 "cell_default\<lparr>bg := Indexed 1\<rparr>"]
  by (simp add: demo_row_def numeral_2_eq_2)

end
