(* ===== verification/GridStorage.thy ===== *)
theory GridStorage
  imports TermCell
begin

text \<open>
  The ring buffer under the terminal grid: \<open>alacritty_terminal/src/grid/storage.rs\<close>. Lines are
  numbered from \<open>-history\<close> at the top to \<open>visible_lines - 1\<close> at the bottom and stored
  bottom up from the offset \<open>zero\<close>. \<open>None\<close> is a panic: a failed \<open>debug_assert\<close>, an index
  out of range or a \<open>usize\<close> subtraction below zero. Line numbers are far below the range of
  \<open>i32\<close> and are taken as integers. The refinement forgets \<open>zero\<close>: the buffer is a list of
  rows with their stable ids, bottom line first, and each operation a list operation on it.
\<close>

section \<open>The ring buffer\<close>

definition MAX_CACHE_SIZE :: nat where
  "MAX_CACHE_SIZE = 1000"

record 'a storage =
  inner :: "'a row list"
  zero :: nat
  visible_lines :: nat
  len :: nat
  stable_row_ids :: "int list"

definition compute_index :: "'a storage \<Rightarrow> int \<Rightarrow> nat option" where
  "compute_index s requested =
     (if requested \<ge> int (visible_lines s) then None
      else let positive = nat (- (requested - int (visible_lines s)) - 1)
           in if positive \<ge> len s then None
              else let zeroed = zero s + positive
                   in Some (if zeroed \<ge> length (inner s) then zeroed - length (inner s) else zeroed))"

definition index_line :: "'a storage \<Rightarrow> int \<Rightarrow> 'a row option" where
  "index_line s l =
     do { i \<leftarrow> compute_index s l; if i < length (inner s) then Some (inner s ! i) else None }"

definition update_line :: "('a row \<Rightarrow> 'a row) \<Rightarrow> int \<Rightarrow> 'a storage \<Rightarrow> 'a storage option" where
  "update_line f l s =
     do { i \<leftarrow> compute_index s l;
          if i < length (inner s) then Some (s\<lparr>inner := (inner s)[i := f (inner s ! i)]\<rparr>) else None }"

definition storage_id_for_line :: "'a storage \<Rightarrow> int \<Rightarrow> int option" where
  "storage_id_for_line s l =
     do { i \<leftarrow> compute_index s l;
          if i < length (stable_row_ids s) then Some (stable_row_ids s ! i) else None }"

definition set_stable_row_id :: "int \<Rightarrow> int \<Rightarrow> 'a storage \<Rightarrow> 'a storage option" where
  "set_stable_row_id l ident s =
     do { i \<leftarrow> compute_index s l;
          if i < length (stable_row_ids s)
          then Some (s\<lparr>stable_row_ids := (stable_row_ids s)[i := ident]\<rparr>) else None }"

text \<open>\<open>Vec::resize\<close> fills up with a value or cuts off.\<close>

definition vec_resize :: "nat \<Rightarrow> 'b \<Rightarrow> 'b list \<Rightarrow> 'b list" where
  "vec_resize n v xs = take n xs @ replicate (n - length xs) v"

definition reset_stable_row_ids :: "'a storage \<Rightarrow> 'a storage option" where
  "reset_stable_row_ids s =
     (let s = s\<lparr>stable_row_ids := vec_resize (length (inner s)) 0 (stable_row_ids s)\<rparr>
      in if len s = 0 then Some s
         else let history = len s - visible_lines s;
                  top = - int history;
                  bottom = int (visible_lines s) - 1
              in fold_opt (\<lambda>(k, l). set_stable_row_id l (int k))
                   (enumerate 0 [top..bottom]) s)"

definition with_capacity :: "'a \<Rightarrow> nat \<Rightarrow> nat \<Rightarrow> 'a storage option" where
  "with_capacity dflt visible columns =
     reset_stable_row_ids
       \<lparr>inner = replicate visible (row_new dflt columns), zero = 0, visible_lines = visible,
        len = visible, stable_row_ids = replicate visible 0\<rparr>"

definition rezero :: "'a storage \<Rightarrow> 'a storage" where
  "rezero s =
     (if zero s = 0 then s
      else s\<lparr>inner := rotate (zero s) (inner s), stable_row_ids := rotate (zero s) (stable_row_ids s),
             zero := 0\<rparr>)"

definition truncate_lines :: "'a storage \<Rightarrow> 'a storage" where
  "truncate_lines s =
     (let s = rezero s
      in s\<lparr>inner := take (len s) (inner s), stable_row_ids := take (len s) (stable_row_ids s)\<rparr>)"

definition shrink_lines :: "nat \<Rightarrow> 'a storage \<Rightarrow> 'a storage option" where
  "shrink_lines shrinkage s =
     do { n \<leftarrow> checked_sub (len s) shrinkage;
          let s = s\<lparr>len := n\<rparr>;
          Some (if length (inner s) > len s + MAX_CACHE_SIZE then truncate_lines s else s) }"

definition initialize :: "'a \<Rightarrow> nat \<Rightarrow> nat \<Rightarrow> 'a storage \<Rightarrow> 'a storage" where
  "initialize dflt additional_rows columns s =
     (let s' = (if len s + additional_rows > length (inner s)
                then let s = rezero s;
                         realloc_size = length (inner s) + max additional_rows MAX_CACHE_SIZE
                     in s\<lparr>inner := vec_resize realloc_size (row_new dflt columns) (inner s),
                          stable_row_ids := vec_resize realloc_size 0 (stable_row_ids s)\<rparr>
                else s)
      in s'\<lparr>len := len s + additional_rows\<rparr>)"

definition grow_visible_lines :: "'a \<Rightarrow> nat \<Rightarrow> 'a storage \<Rightarrow> 'a storage option" where
  "grow_visible_lines dflt next s =
     do { additional_lines \<leftarrow> checked_sub next (visible_lines s);
          r \<leftarrow> index_line s 0;
          Some ((initialize dflt additional_lines (length (cells r)) s)\<lparr>visible_lines := next\<rparr>) }"

definition shrink_visible_lines :: "nat \<Rightarrow> 'a storage \<Rightarrow> 'a storage option" where
  "shrink_visible_lines next s =
     do { shrinkage \<leftarrow> checked_sub (visible_lines s) next;
          s \<leftarrow> shrink_lines shrinkage s;
          Some (s\<lparr>visible_lines := next\<rparr>) }"

definition list_swap :: "nat \<Rightarrow> nat \<Rightarrow> 'b list \<Rightarrow> 'b list" where
  "list_swap i j xs = xs[i := xs ! j, j := xs ! i]"

definition swap_lines :: "int \<Rightarrow> int \<Rightarrow> 'a storage \<Rightarrow> 'a storage option" where
  "swap_lines a b s =
     do { a \<leftarrow> compute_index s a;
          b \<leftarrow> compute_index s b;
          if a < length (stable_row_ids s) \<and> b < length (stable_row_ids s)
          then Some (s\<lparr>inner := list_swap a b (inner s), stable_row_ids := list_swap a b (stable_row_ids s)\<rparr>)
          else None }"

definition rotate_lines :: "int \<Rightarrow> 'a storage \<Rightarrow> 'a storage option" where
  "rotate_lines k s =
     (let n = length (inner s)
      in if nat \<bar>k\<bar> \<le> n \<and> n \<noteq> 0
         then Some (s\<lparr>zero := nat (int (zero s) + k + int n) mod n\<rparr>) else None)"

definition rotate_down :: "nat \<Rightarrow> 'a storage \<Rightarrow> 'a storage option" where
  "rotate_down k s =
     (if inner s = [] then None else Some (s\<lparr>zero := (zero s + k) mod length (inner s)\<rparr>))"

definition replace_inner :: "'a row list \<Rightarrow> 'a storage \<Rightarrow> 'a storage option" where
  "replace_inner vec s =
     do { s \<leftarrow> reset_stable_row_ids
                 (s\<lparr>len := length vec, inner := vec, stable_row_ids := replicate (length vec) 0\<rparr>);
          Some (s\<lparr>zero := 0\<rparr>) }"

definition take_all :: "'a storage \<Rightarrow> 'a row list \<times> 'a storage" where
  "take_all s =
     (let s = truncate_lines s in (inner s, s\<lparr>inner := [], stable_row_ids := [], len := 0\<rparr>))"

section \<open>The list it implements\<close>

definition storage_wf :: "'a storage \<Rightarrow> bool" where
  "storage_wf s \<longleftrightarrow>
     (zero s < length (inner s) \<or> zero s = 0) \<and> len s \<le> length (inner s) \<and>
     length (stable_row_ids s) = length (inner s)"

text \<open>All rows, bottom line first, with their ids; the first \<open>len\<close> are in use.\<close>

definition ring :: "'a storage \<Rightarrow> ('a row \<times> int) list" where
  "ring s = rotate (zero s) (zip (inner s) (stable_row_ids s))"

text \<open>The position of a line in that list, and the lines there are.\<close>

definition pos_of :: "nat \<Rightarrow> int \<Rightarrow> nat" where
  "pos_of visible l = nat (int visible - 1 - l)"

definition line_ok :: "'a storage \<Rightarrow> int \<Rightarrow> bool" where
  "line_ok s l \<longleftrightarrow> l < int (visible_lines s) \<and> int (visible_lines s) - int (len s) \<le> l"

section \<open>Lemmas\<close>

lemma length_ring [simp]: "storage_wf s \<Longrightarrow> length (ring s) = length (inner s)"
  by (simp add: ring_def storage_wf_def)

lemma mod_wrap: "z < n \<Longrightarrow> p < n \<Longrightarrow> (z + p) mod n = (if z + p \<ge> n then z + p - n else z + p)" for n :: nat
  by (simp add: mod_if)

lemma rotate_update:
  assumes "p < length xs" "z < length xs"
  shows "rotate z (xs[(z + p) mod length xs := v]) = (rotate z xs)[p := v]"
proof (rule nth_equalityI)
  fix i assume "i < length (rotate z (xs[(z + p) mod length xs := v]))"
  then have i: "i < length xs" by simp
  then have "(z + p) mod length xs = (z + i) mod length xs \<longleftrightarrow> p = i"
    using assms by (auto simp: mod_wrap)
  moreover have "(z + i) mod length xs < length xs"
    by (rule mod_less_divisor) (use i in linarith)
  ultimately show "rotate z (xs[(z + p) mod length xs := v]) ! i = (rotate z xs)[p := v] ! i"
    using i assms by (simp add: nth_rotate nth_list_update)
qed simp

lemma map_fst_ring [simp]: "storage_wf s \<Longrightarrow> map fst (ring s) = rotate (zero s) (inner s)"
  by (simp add: ring_def rotate_map [symmetric] storage_wf_def)

lemma map_snd_ring [simp]: "storage_wf s \<Longrightarrow> map snd (ring s) = rotate (zero s) (stable_row_ids s)"
  by (simp add: ring_def rotate_map [symmetric] storage_wf_def)

lemma pos_of_less: "line_ok s l \<Longrightarrow> pos_of (visible_lines s) l < len s"
  by (auto simp: line_ok_def pos_of_def)

lemma compute_index_eq:
  assumes "storage_wf s" "line_ok s l"
  shows "compute_index s l = Some ((zero s + pos_of (visible_lines s) l) mod length (inner s))"
    and "(zero s + pos_of (visible_lines s) l) mod length (inner s) < length (inner s)"
    and "pos_of (visible_lines s) l < length (inner s)" "zero s < length (inner s)"
proof -
  have pos: "pos_of (visible_lines s) l < len s" by (rule pos_of_less [OF assms(2)])
  then show p: "pos_of (visible_lines s) l < length (inner s)" and z: "zero s < length (inner s)"
    using assms(1) by (auto simp: storage_wf_def)
  have "nat (- (l - int (visible_lines s)) - 1) = pos_of (visible_lines s) l"
    by (simp add: pos_of_def algebra_simps)
  then show "compute_index s l = Some ((zero s + pos_of (visible_lines s) l) mod length (inner s))"
    using assms(2) pos mod_wrap [OF z p] by (simp add: compute_index_def line_ok_def Let_def)
  show "(zero s + pos_of (visible_lines s) l) mod length (inner s) < length (inner s)"
    by (rule mod_less_divisor) (use p in linarith)
qed

lemma compute_index_None: "\<not> line_ok s l \<Longrightarrow> compute_index s l = None"
  by (auto simp: compute_index_def line_ok_def Let_def)

lemma ring_nth:
  assumes "storage_wf s" "line_ok s l"
  shows "index_line s l = Some (fst (ring s ! pos_of (visible_lines s) l))"
    and "storage_id_for_line s l = Some (snd (ring s ! pos_of (visible_lines s) l))"
  using compute_index_eq [OF assms] assms(1)
  by (simp_all add: index_line_def storage_id_for_line_def ring_def nth_rotate storage_wf_def)

lemma storage_wf_simps [simp]:
  "storage_wf s \<Longrightarrow> length xs = length (inner s) \<Longrightarrow> storage_wf (s\<lparr>inner := xs\<rparr>)"
  "storage_wf s \<Longrightarrow> length ys = length (inner s) \<Longrightarrow> storage_wf (s\<lparr>stable_row_ids := ys\<rparr>)"
  by (auto simp: storage_wf_def)

lemma ring_update_line:
  assumes "storage_wf s" "line_ok s l"
  defines "p \<equiv> pos_of (visible_lines s) l"
  shows "\<exists>s'. update_line f l s = Some s' \<and> storage_wf s' \<and> len s' = len s \<and> visible_lines s' = visible_lines s \<and>
    ring s' = (ring s)[p := (f (fst (ring s ! p)), snd (ring s ! p))]"
proof -
  let ?i = "(zero s + p) mod length (inner s)"
  note ix = compute_index_eq [OF assms(1,2), folded p_def]
  let ?s = "s\<lparr>inner := (inner s)[?i := f (inner s ! ?i)]\<rparr>"
  have ids: "length (stable_row_ids s) = length (inner s)" using assms(1) by (simp add: storage_wf_def)
  have "zip ((inner s)[?i := f (inner s ! ?i)]) (stable_row_ids s) =
      (zip (inner s) (stable_row_ids s))[?i := (f (inner s ! ?i), stable_row_ids s ! ?i)]"
    by (simp add: update_zip)
  then have "ring ?s = (ring s)[p := (f (inner s ! ?i), stable_row_ids s ! ?i)]"
    using rotate_update [of p "zip (inner s) (stable_row_ids s)" "zero s"] ix ids by (simp add: ring_def)
  moreover have "ring s ! p = (inner s ! ?i, stable_row_ids s ! ?i)"
    using ix ids by (simp add: ring_def nth_rotate)
  ultimately show ?thesis
    using ix assms(1) by (simp add: update_line_def)
qed

lemma ring_set_id:
  assumes "storage_wf s" "line_ok s l"
  defines "p \<equiv> pos_of (visible_lines s) l"
  shows "\<exists>s'. set_stable_row_id l v s = Some s' \<and> storage_wf s' \<and> len s' = len s \<and> visible_lines s' = visible_lines s \<and>
    ring s' = (ring s)[p := (fst (ring s ! p), v)]"
proof -
  let ?i = "(zero s + p) mod length (inner s)"
  note ix = compute_index_eq [OF assms(1,2), folded p_def]
  let ?s = "s\<lparr>stable_row_ids := (stable_row_ids s)[?i := v]\<rparr>"
  have ids: "length (stable_row_ids s) = length (inner s)" using assms(1) by (simp add: storage_wf_def)
  have "zip (inner s) ((stable_row_ids s)[?i := v]) =
      (zip (inner s) (stable_row_ids s))[?i := (inner s ! ?i, v)]"
    by (simp add: update_zip)
  then have "ring ?s = (ring s)[p := (inner s ! ?i, v)]"
    using rotate_update [of p "zip (inner s) (stable_row_ids s)" "zero s"] ix ids by (simp add: ring_def)
  moreover have "fst (ring s ! p) = inner s ! ?i"
    using ix ids by (simp add: ring_def nth_rotate)
  ultimately show ?thesis
    using ix ids assms(1) by (simp add: set_stable_row_id_def)
qed

lemma list_swap_simps [simp]: "length (list_swap i j xs) = length xs"
  by (simp add: list_swap_def)

lemma zip_swap:
  assumes "length xs = length ys" "i < length xs" "j < length xs"
  shows "zip (list_swap i j xs) (list_swap i j ys) = list_swap i j (zip xs ys)"
  using assms by (simp add: list_swap_def update_zip)

lemma rotate_swap:
  assumes "p < length xs" "q < length xs" "z < length xs"
  shows "rotate z (list_swap ((z + p) mod length xs) ((z + q) mod length xs) xs) = list_swap p q (rotate z xs)"
proof -
  let ?xs = "xs[(z + p) mod length xs := xs ! ((z + q) mod length xs)]"
  have "rotate z (?xs[(z + q) mod length ?xs := xs ! ((z + p) mod length xs)]) =
      (rotate z ?xs)[q := xs ! ((z + p) mod length xs)]"
    using assms by (intro rotate_update) simp_all
  moreover have "rotate z ?xs = (rotate z xs)[p := xs ! ((z + q) mod length xs)]"
    using assms by (intro rotate_update) simp_all
  ultimately show ?thesis
    using assms by (simp add: list_swap_def nth_rotate)
qed

lemma ring_swap:
  assumes "storage_wf s" "line_ok s a" "line_ok s b"
  shows "\<exists>s'. swap_lines a b s = Some s' \<and> storage_wf s' \<and> len s' = len s \<and> visible_lines s' = visible_lines s \<and>
    ring s' = list_swap (pos_of (visible_lines s) a) (pos_of (visible_lines s) b) (ring s)"
proof -
  note a = compute_index_eq [OF assms(1,2)] and b = compute_index_eq [OF assms(1,3)]
  have ids: "length (stable_row_ids s) = length (inner s)" using assms(1) by (simp add: storage_wf_def)
  show ?thesis
    using a b ids assms(1)
      rotate_swap [of "pos_of (visible_lines s) a" "zip (inner s) (stable_row_ids s)"
        "pos_of (visible_lines s) b" "zero s"]
    by (simp add: swap_lines_def ring_def zip_swap [symmetric] storage_wf_def)
qed

lemma rotate_zip:
  assumes "length xs = length ys"
  shows "zip (rotate n xs) (rotate n ys) = rotate n (zip xs ys)"
proof (rule nth_equalityI)
  fix i assume "i < length (zip (rotate n xs) (rotate n ys))"
  moreover from this have "(n + i) mod length xs < length xs"
    by (intro mod_less_divisor) auto
  ultimately show "zip (rotate n xs) (rotate n ys) ! i = rotate n (zip xs ys) ! i"
    using assms by (simp add: nth_rotate)
qed (use assms in simp)

lemma rezero_eq:
  assumes "storage_wf s"
  shows "ring (rezero s) = ring s" "storage_wf (rezero s)" "zero (rezero s) = 0"
    "len (rezero s) = len s" "visible_lines (rezero s) = visible_lines s"
    "length (inner (rezero s)) = length (inner s)"
  using assms by (auto simp: rezero_def ring_def rotate_zip storage_wf_def)

lemma ring_zero: "zero s = 0 \<Longrightarrow> ring s = zip (inner s) (stable_row_ids s)"
  by (simp add: ring_def)

lemma truncate_eq:
  assumes "storage_wf s"
  shows "ring (truncate_lines s) = take (len s) (ring s)" "storage_wf (truncate_lines s)"
    "len (truncate_lines s) = len s" "visible_lines (truncate_lines s) = visible_lines s" "zero (truncate_lines s) = 0"
  using rezero_eq [OF assms] assms
  by (simp_all add: truncate_lines_def Let_def ring_zero take_zip [symmetric] storage_wf_def)

lemma vec_resize_grow: "length xs \<le> n \<Longrightarrow> vec_resize n v xs = xs @ replicate (n - length xs) v"
  by (simp add: vec_resize_def)

lemma initialize_eq:
  assumes "storage_wf s"
  shows "ring (initialize d k c s) =
      (if len s + k > length (ring s)
       then ring s @ replicate (max k MAX_CACHE_SIZE) (row_new d c, 0) else ring s)"
    "storage_wf (initialize d k c s)" "len (initialize d k c s) = len s + k"
    "visible_lines (initialize d k c s) = visible_lines s"
proof -
  note z = rezero_eq [OF assms]
  have l: "length (stable_row_ids (rezero s)) = length (inner (rezero s))" "length (inner (rezero s)) = length (inner s)"
    using z by (simp_all add: storage_wf_def)
  show "ring (initialize d k c s) =
      (if len s + k > length (ring s)
       then ring s @ replicate (max k MAX_CACHE_SIZE) (row_new d c, 0) else ring s)"
  proof (cases "len s + k > length (inner s)")
    case True
    let ?r = "rezero s"
    have "ring (initialize d k c s) =
        zip (inner ?r @ replicate (max k MAX_CACHE_SIZE) (row_new d c))
            (stable_row_ids ?r @ replicate (max k MAX_CACHE_SIZE) 0)"
      using True l z(3) by (simp add: initialize_def Let_def ring_zero vec_resize_grow)
    also have "\<dots> = ring ?r @ replicate (max k MAX_CACHE_SIZE) (row_new d c, 0)"
      using l z(3) by (simp add: ring_zero zip_replicate)
    finally show ?thesis using True assms z(1) by simp
  next
    case False
    then show ?thesis using assms by (simp add: initialize_def ring_def storage_wf_def)
  qed
  show "storage_wf (initialize d k c s)" "len (initialize d k c s) = len s + k"
    "visible_lines (initialize d k c s) = visible_lines s"
    using assms z l by (auto simp: initialize_def Let_def storage_wf_def vec_resize_grow)
qed

lemma shrink_lines_eq:
  assumes "storage_wf s" "k \<le> len s"
  shows "\<exists>s'. shrink_lines k s = Some s' \<and> storage_wf s' \<and> len s' = len s - k \<and> visible_lines s' = visible_lines s \<and>
    ring s' = (if length (ring s) > len s - k + MAX_CACHE_SIZE then take (len s - k) (ring s) else ring s)"
proof -
  have wf: "storage_wf (s\<lparr>len := len s - k\<rparr>)" and ring: "ring (s\<lparr>len := len s - k\<rparr>) = ring s"
    using assms by (auto simp: storage_wf_def ring_def)
  show ?thesis
    using truncate_eq [OF wf] wf ring assms by (simp add: shrink_lines_def Let_def)
qed

lemma ring_Nil: "storage_wf s \<Longrightarrow> ring s = [] \<longleftrightarrow> inner s = []"
  using length_ring [of s] by (metis length_0_conv)

lemma rotate_mod_length: "length xs = n \<Longrightarrow> rotate (k mod n) xs = rotate k xs"
  using rotate_conv_mod [of k xs] by simp

lemma rotate_down_eq:
  assumes "storage_wf s" "ring s \<noteq> []"
  shows "\<exists>s'. rotate_down k s = Some s' \<and> storage_wf s' \<and> len s' = len s \<and> visible_lines s' = visible_lines s \<and>
    ring s' = rotate k (ring s)"
proof -
  let ?z = "(zero s + k) mod length (inner s)"
  let ?xs = "zip (inner s) (stable_row_ids s)"
  have ne: "inner s \<noteq> []" using assms ring_Nil by blast
  then have "?z < length (inner s)" by (intro mod_less_divisor) simp
  moreover have "rotate ?z ?xs = rotate (zero s + k) ?xs"
    using assms(1) by (intro rotate_mod_length) (simp add: storage_wf_def)
  moreover have "rotate (zero s + k) ?xs = rotate k (ring s)"
    by (simp add: ring_def rotate_rotate add.commute)
  ultimately show ?thesis
    using ne assms(1) by (simp add: rotate_down_def storage_wf_def) (simp add: ring_def)
qed

lemma rotate_lines_eq:
  assumes "storage_wf s" "ring s \<noteq> []" "nat \<bar>k\<bar> \<le> length (ring s)"
  shows "\<exists>s'. rotate_lines k s = Some s' \<and> storage_wf s' \<and> len s' = len s \<and> visible_lines s' = visible_lines s \<and>
    ring s' = rotate (nat (k mod int (length (ring s)))) (ring s)"
proof -
  let ?n = "length (inner s)"
  define m where "m = nat (k mod int ?n)"
  have ne: "inner s \<noteq> []" using assms(1,2) ring_Nil by blast
  have n: "nat \<bar>k\<bar> \<le> ?n" using assms(1,3) by simp
  have m: "int m = k mod int ?n" using ne by (simp add: m_def)
  have "int (nat (int (zero s) + k + int ?n) mod ?n) = (int (zero s) + k) mod int ?n"
    using n by (simp add: zmod_int)
  also have "\<dots> = (int (zero s) + int m) mod int ?n"
    unfolding m by (simp add: mod_add_right_eq)
  also have "\<dots> = int ((zero s + m) mod ?n)"
    by (simp add: zmod_int)
  finally have "nat (int (zero s) + k + int ?n) mod ?n = (zero s + m) mod ?n"
    by (rule iffD1 [OF of_nat_eq_iff])
  then have "rotate_lines k s = rotate_down m s"
    using n ne by (simp add: rotate_lines_def rotate_down_def Let_def)
  then show ?thesis
    using rotate_down_eq [OF assms(1,2), of m] assms(1) by (simp add: m_def)
qed

text \<open>Numbering the lines in use from the top: ids \<open>0, 1, \<dots>\<close>.\<close>

lemma enumerate_lines: "enumerate 0 [- int h..int v - 1] = map (\<lambda>k. (k, int k - int h)) [0..<h + v]"
proof (rule nth_equalityI)
  fix i assume "i < length (enumerate 0 [- int h..int v - 1])"
  then have "i < h + v" by simp
  then show "enumerate 0 [- int h..int v - 1] ! i = map (\<lambda>k. (k, int k - int h)) [0..<h + v] ! i"
    by (simp add: nth_enumerate_eq)
qed simp

lemma number_lines:
  assumes "storage_wf s" "visible_lines s \<le> len s" "j \<le> len s"
  defines "ls \<equiv> map (\<lambda>k. (k, int k - int (len s - visible_lines s))) [0..<j]"
  shows "\<exists>s'. fold_opt (\<lambda>(k, l). set_stable_row_id l (int k)) ls s = Some s' \<and> storage_wf s' \<and>
    len s' = len s \<and> visible_lines s' = visible_lines s \<and> inner s' = inner s \<and> zero s' = zero s \<and>
    ring s' = map (\<lambda>p. (fst (ring s ! p), if p < len s \<and> len s - 1 - p < j then int (len s - 1 - p) else snd (ring s ! p)))
      [0..<length (ring s)]"
  using assms(3) unfolding ls_def
proof (induction j)
  case 0
  have "ring s = map (\<lambda>p. (fst (ring s ! p), snd (ring s ! p))) [0..<length (ring s)]"
    by (simp add: map_nth)
  with assms(1) show ?case by simp
next
  case (Suc j)
  let ?l = "int j - int (len s - visible_lines s)"
  let ?f = "\<lambda>j p. (fst (ring s ! p), if p < len s \<and> len s - 1 - p < j then int (len s - 1 - p) else snd (ring s ! p))"
  from Suc obtain s1 where s1: "fold_opt (\<lambda>(k, l). set_stable_row_id l (int k))
      (map (\<lambda>k. (k, int k - int (len s - visible_lines s))) [0..<j]) s = Some s1"
    "storage_wf s1" "len s1 = len s" "visible_lines s1 = visible_lines s" "inner s1 = inner s" "zero s1 = zero s"
    and ring1: "ring s1 = map (?f j) [0..<length (ring s)]"
    by auto
  have l: "line_ok s1 ?l" "pos_of (visible_lines s1) ?l = len s - 1 - j"
    using Suc.prems assms(2) s1 by (auto simp: line_ok_def pos_of_def)
  have "length (ring s) = length (inner s)" "len s \<le> length (inner s)"
    using assms(1) by (simp_all add: storage_wf_def)
  then have "(map (?f j) [0..<length (ring s)])[len s - 1 - j := (fst (ring s1 ! (len s - 1 - j)), int j)] =
      map (?f (Suc j)) [0..<length (ring s)]"
    using Suc.prems by (intro nth_equalityI) (auto simp: nth_list_update ring1)
  moreover obtain s2 where "set_stable_row_id ?l (int j) s1 = Some s2" "storage_wf s2" "len s2 = len s"
      "visible_lines s2 = visible_lines s"
      "ring s2 = (ring s1)[len s - 1 - j := (fst (ring s1 ! (len s - 1 - j)), int j)]"
    using ring_set_id [OF s1(2) l(1), of "int j"] s1 l(2) by auto
  moreover from this(1) have "inner s2 = inner s" "zero s2 = zero s"
    using s1 by (auto simp: set_stable_row_id_def split: Option.bind_splits if_splits)
  ultimately show ?case
    using s1(1) by (simp add: fold_opt_append ring1)
qed

lemma reset_ids_eq:
  assumes "storage_wf s" "zero s = 0" "visible_lines s \<le> len s" "len s = length (inner s)"
  shows "\<exists>s'. reset_stable_row_ids s = Some s' \<and> storage_wf s' \<and> len s' = len s \<and>
    visible_lines s' = visible_lines s \<and> zero s' = 0 \<and>
    ring s' = zip (inner s) (map int (rev [0..<len s]))"
proof -
  have r: "vec_resize (length (inner s)) 0 (stable_row_ids s) = stable_row_ids s"
    using assms(1) by (simp add: vec_resize_def storage_wf_def)
  let ?f = "\<lambda>(k, l). set_stable_row_id l (int k)"
  have "reset_stable_row_ids s = (if len s = 0 then Some s else
      fold_opt ?f (map (\<lambda>k. (k, int k - int (len s - visible_lines s))) [0..<len s]) s)"
    using assms(3) enumerate_lines [of "len s - visible_lines s" "visible_lines s"]
    by (simp add: reset_stable_row_ids_def r)
  moreover have "map (\<lambda>p. (fst (ring s ! p), if p < len s \<and> len s - 1 - p < len s then int (len s - 1 - p) else snd (ring s ! p)))
      [0..<length (ring s)] = zip (inner s) (map int (rev [0..<len s]))"
    using assms by (intro nth_equalityI) (auto simp: ring_zero rev_nth storage_wf_def)
  ultimately show ?thesis
    using number_lines [OF assms(1,3) order.refl] assms by (auto simp: ring_zero)
qed

lemma with_capacity_eq:
  "\<exists>s. with_capacity d v c = Some s \<and> storage_wf s \<and> len s = v \<and> visible_lines s = v \<and>
    ring s = zip (replicate v (row_new d c)) (map int (rev [0..<v]))"
  unfolding with_capacity_def
  using reset_ids_eq [of "\<lparr>inner = replicate v (row_new d c), zero = 0, visible_lines = v,
      len = v, stable_row_ids = replicate v 0\<rparr>"]
  by (auto simp: storage_wf_def)

section \<open>Refinement\<close>

text \<open>
  The buffer as a list of rows and ids, bottom line first, of which \<open>used\<close> are in use and
  \<open>shown\<close> on screen. The operations are those of the storage without the ring.
\<close>

record 'a lines =
  buf :: "('a row \<times> int) list"
  used :: nat
  shown :: nat

definition lines_of :: "'a storage \<Rightarrow> 'a lines" where
  "lines_of s = \<lparr>buf = ring s, used = len s, shown = visible_lines s\<rparr>"

datatype 'a storage_op =
    Update_Line "'a row \<Rightarrow> 'a row" int
  | Set_Id int int
  | Swap int int
  | Rotate int
  | Rotate_Down nat
  | Shrink_Lines nat
  | Truncate
  | Initialize nat nat
  | Grow_Visible nat
  | Shrink_Visible nat
  | Rebuild "'a row list \<Rightarrow> 'a row list"

fun storage_step :: "'a \<Rightarrow> 'a storage_op \<Rightarrow> 'a storage \<Rightarrow> 'a storage option" where
  "storage_step d (Update_Line f l) s = update_line f l s"
| "storage_step d (Set_Id l v) s = set_stable_row_id l v s"
| "storage_step d (Swap a b) s = swap_lines a b s"
| "storage_step d (Rotate k) s = rotate_lines k s"
| "storage_step d (Rotate_Down k) s = rotate_down k s"
| "storage_step d (Shrink_Lines k) s = shrink_lines k s"
| "storage_step d Truncate s = Some (truncate_lines s)"
| "storage_step d (Initialize k c) s = Some (initialize d k c s)"
| "storage_step d (Grow_Visible n) s = grow_visible_lines d n s"
| "storage_step d (Shrink_Visible n) s = shrink_visible_lines n s"
| "storage_step d (Rebuild f) s = (let (rows, s) = take_all s in replace_inner (f rows) s)"

definition has_line :: "'a lines \<Rightarrow> int \<Rightarrow> bool" where
  "has_line b l \<longleftrightarrow> l < int (shown b) \<and> int (shown b) - int (used b) \<le> l"

definition at :: "'a lines \<Rightarrow> int \<Rightarrow> nat" where
  "at b l = pos_of (shown b) l"

definition drop_spare :: "'a lines \<Rightarrow> 'a lines" where
  "drop_spare b = (if length (buf b) > used b + MAX_CACHE_SIZE then b\<lparr>buf := take (used b) (buf b)\<rparr> else b)"

definition add_lines :: "'a \<Rightarrow> nat \<Rightarrow> nat \<Rightarrow> 'a lines \<Rightarrow> 'a lines" where
  "add_lines d k c b =
     b\<lparr>buf := (if used b + k > length (buf b)
               then buf b @ replicate (max k MAX_CACHE_SIZE) (row_new d c, 0) else buf b),
       used := used b + k\<rparr>"

fun lines_step :: "'a \<Rightarrow> 'a storage_op \<Rightarrow> 'a lines \<Rightarrow> 'a lines option" where
  "lines_step d (Update_Line f l) b =
     (if has_line b l
      then Some (b\<lparr>buf := (buf b)[at b l := (f (fst (buf b ! at b l)), snd (buf b ! at b l))]\<rparr>) else None)"
| "lines_step d (Set_Id l v) b =
     (if has_line b l then Some (b\<lparr>buf := (buf b)[at b l := (fst (buf b ! at b l), v)]\<rparr>) else None)"
| "lines_step d (Swap l m) b =
     (if has_line b l \<and> has_line b m
      then Some (b\<lparr>buf := list_swap (at b l) (at b m) (buf b)\<rparr>) else None)"
| "lines_step d (Rotate k) b =
     (if buf b \<noteq> [] \<and> nat \<bar>k\<bar> \<le> length (buf b)
      then Some (b\<lparr>buf := rotate (nat (k mod int (length (buf b)))) (buf b)\<rparr>) else None)"
| "lines_step d (Rotate_Down k) b =
     (if buf b \<noteq> [] then Some (b\<lparr>buf := rotate k (buf b)\<rparr>) else None)"
| "lines_step d (Shrink_Lines k) b =
     (if k \<le> used b then Some (drop_spare (b\<lparr>used := used b - k\<rparr>)) else None)"
| "lines_step d Truncate b = Some (b\<lparr>buf := take (used b) (buf b)\<rparr>)"
| "lines_step d (Initialize k c) b = Some (add_lines d k c b)"
| "lines_step d (Grow_Visible n) b =
     (if shown b \<le> n \<and> has_line b 0
      then Some ((add_lines d (n - shown b) (length (cells (fst (buf b ! at b 0)))) b)\<lparr>shown := n\<rparr>) else None)"
| "lines_step d (Shrink_Visible n) b =
     (if n \<le> shown b \<and> shown b - n \<le> used b
      then Some ((drop_spare (b\<lparr>used := used b - (shown b - n)\<rparr>))\<lparr>shown := n\<rparr>) else None)"
| "lines_step d (Rebuild f) b =
     (let rows = f (map fst (take (used b) (buf b)))
      in if rows = [] \<or> shown b \<le> length rows
         then Some \<lparr>buf = zip rows (map int (rev [0..<length rows])), used = length rows, shown = shown b\<rparr>
         else None)"

lemma lines_of_simps [simp]:
  "buf (lines_of s) = ring s" "used (lines_of s) = len s" "shown (lines_of s) = visible_lines s"
  "has_line (lines_of s) l = line_ok s l" "at (lines_of s) l = pos_of (visible_lines s) l"
  by (simp_all add: lines_of_def has_line_def line_ok_def at_def)

lemma lines_of_shown [simp]:
  "lines_of (s\<lparr>visible_lines := n\<rparr>) = (lines_of s)\<lparr>shown := n\<rparr>"
  "storage_wf (s\<lparr>visible_lines := n\<rparr>) = storage_wf s"
  by (simp_all add: lines_of_def ring_def storage_wf_def)

lemma lines_eq_iff: "lines_of s = b \<longleftrightarrow> ring s = buf b \<and> len s = used b \<and> visible_lines s = shown b"
  by (auto simp: lines_of_def)

lemma line_updates_None:
  "\<not> line_ok s l \<Longrightarrow> update_line f l s = None" "\<not> line_ok s l \<Longrightarrow> set_stable_row_id l v s = None"
  "\<not> line_ok s l \<Longrightarrow> index_line s l = None"
  "\<not> (line_ok s l \<and> line_ok s m) \<Longrightarrow> swap_lines l m s = None"
  by (auto simp: update_line_def set_stable_row_id_def swap_lines_def index_line_def compute_index_None
      split: Option.bind_splits)

definition refines :: "'a storage option \<Rightarrow> 'a lines option \<Rightarrow> bool" where
  "refines s b \<longleftrightarrow> map_option lines_of s = b \<and> pred_option storage_wf s"

lemma refinesI:
  assumes "P \<Longrightarrow> \<exists>s'. s = Some s' \<and> storage_wf s' \<and> lines_of s' = b" "\<not> P \<Longrightarrow> s = None"
  shows "refines s (if P then Some b else None)"
  using assms by (cases P) (auto simp: refines_def)

lemma drop_spare_eq:
  "len s = used b \<Longrightarrow> visible_lines s = shown b \<Longrightarrow>
   ring s = (if length (buf b) > used b + MAX_CACHE_SIZE then take (used b) (buf b) else buf b) \<Longrightarrow>
   lines_of s = drop_spare b"
  by (simp add: lines_eq_iff drop_spare_def)

lemma refines_shrink:
  assumes "storage_wf s"
  shows "refines (shrink_lines k s) (lines_step d (Shrink_Lines k) (lines_of s))"
  unfolding lines_step.simps
proof (rule refinesI)
  assume "k \<le> used (lines_of s)"
  then show "\<exists>s'. shrink_lines k s = Some s' \<and> storage_wf s' \<and>
      lines_of s' = drop_spare ((lines_of s)\<lparr>used := used (lines_of s) - k\<rparr>)"
    using shrink_lines_eq [OF assms, of k] by (auto intro!: drop_spare_eq)
qed (simp add: shrink_lines_def checked_sub_def)

lemma refines_shrink_visible:
  assumes "storage_wf s"
  shows "refines (shrink_visible_lines n s) (lines_step d (Shrink_Visible n) (lines_of s))"
  unfolding lines_step.simps
proof (rule refinesI)
  let ?k = "visible_lines s - n"
  assume "n \<le> shown (lines_of s) \<and> shown (lines_of s) - n \<le> used (lines_of s)"
  moreover from this have "refines (shrink_lines ?k s) (Some (drop_spare ((lines_of s)\<lparr>used := len s - ?k\<rparr>)))"
    using refines_shrink [OF assms, of ?k d] by simp
  ultimately show "\<exists>s'. shrink_visible_lines n s = Some s' \<and> storage_wf s' \<and>
      lines_of s' = (drop_spare ((lines_of s)\<lparr>used := used (lines_of s) - (shown (lines_of s) - n)\<rparr>))\<lparr>shown := n\<rparr>"
    by (auto simp: shrink_visible_lines_def refines_def)
qed (auto simp: shrink_visible_lines_def shrink_lines_def checked_sub_def)

lemma refines_initialize:
  assumes "storage_wf s"
  shows "storage_wf (initialize d k c s)" "lines_of (initialize d k c s) = add_lines d k c (lines_of s)"
  using initialize_eq [OF assms, of d k c] by (simp_all add: lines_eq_iff add_lines_def)

lemma refines_grow_visible:
  assumes "storage_wf s"
  shows "refines (grow_visible_lines d n s) (lines_step d (Grow_Visible n) (lines_of s))"
  unfolding lines_step.simps
proof (rule refinesI)
  assume a: "shown (lines_of s) \<le> n \<and> has_line (lines_of s) 0"
  let ?c = "length (cells (fst (ring s ! pos_of (visible_lines s) 0)))"
  have "grow_visible_lines d n s = Some ((initialize d (n - visible_lines s) ?c s)\<lparr>visible_lines := n\<rparr>)"
    using a ring_nth [OF assms, of 0] by (simp add: grow_visible_lines_def)
  then show "\<exists>s'. grow_visible_lines d n s = Some s' \<and> storage_wf s' \<and>
      lines_of s' = (add_lines d (n - shown (lines_of s))
        (length (cells (fst (buf (lines_of s) ! at (lines_of s) 0)))) (lines_of s))\<lparr>shown := n\<rparr>"
    using refines_initialize [OF assms, of d "n - visible_lines s" ?c] by simp
qed (auto simp: grow_visible_lines_def checked_sub_def line_updates_None)

lemma refines_rebuild:
  assumes "storage_wf s"
  shows "refines (storage_step d (Rebuild f) s) (lines_step d (Rebuild f) (lines_of s))"
proof -
  let ?t = "truncate_lines s"
  let ?rows = "f (map fst (take (len s) (ring s)))"
  let ?s = "?t\<lparr>len := length ?rows, inner := ?rows, stable_row_ids := replicate (length ?rows) 0\<rparr>"
  note t = truncate_eq [OF assms]
  have "map fst (ring ?t) = inner ?t" using t(2,5) by simp
  then have rows: "inner ?t = map fst (take (len s) (ring s))" by (simp add: t(1))
  have step: "storage_step d (Rebuild f) s =
      Option.bind (reset_stable_row_ids ?s) (\<lambda>s. Some (s\<lparr>zero := 0\<rparr>))"
    by (simp add: take_all_def Let_def replace_inner_def rows)
  have wf: "storage_wf ?s" "zero ?s = 0" by (simp_all add: storage_wf_def t(5))
  show ?thesis
    unfolding lines_step.simps Let_def
  proof (simp only: lines_of_simps, rule refinesI)
    assume "?rows = [] \<or> visible_lines s \<le> length ?rows"
    then show "\<exists>s'. storage_step d (Rebuild f) s = Some s' \<and> storage_wf s' \<and>
        lines_of s' = \<lparr>buf = zip ?rows (map int (rev [0..<length ?rows])), used = length ?rows,
          shown = visible_lines s\<rparr>"
    proof (cases "?rows = []")
      case True
      then show ?thesis
        unfolding step by (simp add: reset_stable_row_ids_def vec_resize_def storage_wf_def lines_of_def ring_def t)
    next
      case False
      with \<open>?rows = [] \<or> _\<close> have v: "visible_lines ?s \<le> len ?s" "len ?s = length (inner ?s)"
        by (simp_all add: t(4))
      show ?thesis
        unfolding step using reset_ids_eq [OF wf v] by (auto simp: lines_of_def storage_wf_def ring_def t(4))
    qed
  next
    assume "\<not> (?rows = [] \<or> visible_lines s \<le> length ?rows)"
    then have "length ?rows < visible_lines s" "?rows \<noteq> []" by auto
    moreover from this have "\<not> line_ok (?s\<lparr>stable_row_ids := x\<rparr>) 0" for x by (simp add: line_ok_def t(4))
    ultimately show "storage_step d (Rebuild f) s = None"
      unfolding step by (simp add: reset_stable_row_ids_def t(4) upto.simps [of 0] line_updates_None)
  qed
qed

lemma step_refines:
  assumes "storage_wf s"
  shows "refines (storage_step d op s) (lines_step d op (lines_of s))"
proof (cases op)
  case (Update_Line f l)
  show ?thesis
    unfolding Update_Line storage_step.simps lines_step.simps
    by (rule refinesI) (use ring_update_line [OF assms, of l f] in \<open>auto simp: line_updates_None lines_eq_iff\<close>)
next
  case (Set_Id l v)
  show ?thesis
    unfolding Set_Id storage_step.simps lines_step.simps
    by (rule refinesI) (use ring_set_id [OF assms, of l v] in \<open>auto simp: line_updates_None lines_eq_iff\<close>)
next
  case (Swap l m)
  show ?thesis
    unfolding Swap storage_step.simps lines_step.simps
    by (rule refinesI) (use ring_swap [OF assms, of l m] in \<open>auto simp: line_updates_None lines_eq_iff\<close>)
next
  case (Rotate k)
  show ?thesis
    unfolding Rotate storage_step.simps lines_step.simps
    by (rule refinesI)
      (use rotate_lines_eq [OF assms, of k] ring_Nil [OF assms] assms in
        \<open>auto simp: lines_eq_iff rotate_lines_def\<close>)
next
  case (Rotate_Down k)
  show ?thesis
    unfolding Rotate_Down storage_step.simps lines_step.simps
    by (rule refinesI)
      (use rotate_down_eq [OF assms, of k] ring_Nil [OF assms] in \<open>auto simp: lines_eq_iff rotate_down_def\<close>)
next
  case (Shrink_Lines k)
  then show ?thesis using refines_shrink [OF assms] by simp
next
  case Truncate
  then show ?thesis using truncate_eq [OF assms] by (simp add: refines_def lines_eq_iff)
next
  case (Initialize k c)
  then show ?thesis using refines_initialize [OF assms, of d k c] by (simp add: refines_def)
next
  case (Grow_Visible n)
  then show ?thesis using refines_grow_visible [OF assms] by simp
next
  case (Shrink_Visible n)
  then show ?thesis using refines_shrink_visible [OF assms] by simp
next
  case (Rebuild f)
  then show ?thesis using refines_rebuild [OF assms] by simp
qed

lemma refines_cases:
  assumes "refines x y"
  obtains "x = None" "y = None" | s where "x = Some s" "y = Some (lines_of s)" "storage_wf s"
  using assms by (cases x) (auto simp: refines_def)

text \<open>C7:
  The ring buffer implements the list: whatever operations run, its content is that of the list
  that ran the reference operations, it panics exactly where the reference is undefined, and it
  stays well formed. A new storage is well formed and holds blank lines with ids from 0 on.\<close>

theorem storage_refines_lines:
  "\<exists>s. with_capacity d v c = Some s \<and> storage_wf s \<and>
     lines_of s = \<lparr>buf = zip (replicate v (row_new d c)) (map int (rev [0..<v])), used = v, shown = v\<rparr> \<and>
     map_option lines_of (fold_opt (storage_step d) ops s) = fold_opt (lines_step d) ops (lines_of s) \<and>
     pred_option storage_wf (fold_opt (storage_step d) ops s)"
proof -
  have run: "refines (fold_opt (storage_step d) ops s) (fold_opt (lines_step d) ops (lines_of s))"
    if "storage_wf s" for s
    using that
  proof (induction ops arbitrary: s)
    case (Cons op ops)
    from step_refines [OF Cons.prems, of d op] show ?case
      by (cases rule: refines_cases) (simp_all add: refines_def [of None] Cons.IH)
  qed (simp add: refines_def)
  obtain s where "with_capacity d v c = Some s" "storage_wf s" "lines_of s =
      \<lparr>buf = zip (replicate v (row_new d c)) (map int (rev [0..<v])), used = v, shown = v\<rparr>"
    using with_capacity_eq [of d v c] by (auto simp: lines_of_def)
  then show ?thesis using run [of s] by (auto simp: refines_def)
qed

end
