(* ===== verification/Grid.thy ===== *)
theory Grid
  imports GridStorage
begin

text \<open>
  The terminal grid: \<open>alacritty_terminal/src/grid/mod.rs\<close> and the line part of
  \<open>grid/resize.rs\<close>, on top of the ring buffer. The visible lines are \<open>0\<close> to \<open>lines - 1\<close>,
  the scrollback lies above at negative numbers. Each access to the buffer is a
  \<open>storage_step\<close>, so that what holds of the list it implements carries over. \<open>None\<close> is a
  panic.
\<close>

section \<open>State\<close>

record point =
  pt_line :: int
  pt_column :: nat

text \<open>
  Character sets of the \<open>vte\<close> crate: ASCII, which is the default, and the others by number. What
  they map characters to is a parameter of the terminal.
\<close>

datatype charset = Ascii | OtherCharset nat

record grid_cursor =
  point :: point
  template :: cell
  charsets :: "charset list"
  input_needs_wrap :: bool

definition cursor_default :: grid_cursor where
  "cursor_default = \<lparr>point = \<lparr>pt_line = 0, pt_column = 0\<rparr>, template = cell_default,
     charsets = replicate 4 Ascii, input_needs_wrap = False\<rparr>"

record grid =
  cursor :: grid_cursor
  saved_cursor :: grid_cursor
  raw :: "cell storage"
  columns :: nat
  screen_lines :: nat
  display_offset :: nat
  max_scroll_limit :: nat
  stable_row_min :: int
  stable_row_max :: int

datatype scroll = Delta int | PageUp | PageDown | Top | Bottom

text \<open>\<open>i64\<close> arithmetic that saturates.\<close>

definition sat64 :: "int \<Rightarrow> int" where
  "sat64 i = max (- (2 ^ 63)) (min i (2 ^ 63 - 1))"

definition history_size :: "grid \<Rightarrow> nat" where
  "history_size g = len (raw g) - screen_lines g"

definition topmost_line :: "grid \<Rightarrow> int" where
  "topmost_line g = - int (history_size g)"

definition bottommost_line :: "grid \<Rightarrow> int" where
  "bottommost_line g = int (screen_lines g) - 1"

definition last_column :: "grid \<Rightarrow> nat" where
  "last_column g = columns g - 1"

definition raw_do :: "cell storage_op \<Rightarrow> grid \<Rightarrow> grid option" where
  "raw_do op g = map_option (\<lambda>r. g\<lparr>raw := r\<rparr>) (storage_step cell_default op (raw g))"

definition row_at :: "grid \<Rightarrow> int \<Rightarrow> cell row option" where
  "row_at g l = index_line (raw g) l"

definition stable_row_id_for_line :: "grid \<Rightarrow> int \<Rightarrow> int option" where
  "stable_row_id_for_line g l = storage_id_for_line (raw g) l"

definition grid_new :: "nat \<Rightarrow> nat \<Rightarrow> nat \<Rightarrow> grid option" where
  "grid_new lines cols limit =
     map_option (\<lambda>r. \<lparr>cursor = cursor_default, saved_cursor = cursor_default, raw = r, columns = cols,
         screen_lines = lines, display_offset = 0, max_scroll_limit = limit, stable_row_min = 0,
         stable_row_max = int (lines - 1)\<rparr>)
       (with_capacity cell_default lines cols)"

definition recalc_stable_row_bounds :: "grid \<Rightarrow> grid option" where
  "recalc_stable_row_bounds g =
     (if len (raw g) = 0 then Some (g\<lparr>stable_row_min := 0, stable_row_max := -1\<rparr>)
      else do {
        a \<leftarrow> stable_row_id_for_line g (topmost_line g);
        b \<leftarrow> stable_row_id_for_line g (bottommost_line g);
        Some (g\<lparr>stable_row_min := a, stable_row_max := b\<rparr>) })"

section \<open>Scrolling\<close>

definition update_history :: "nat \<Rightarrow> grid \<Rightarrow> grid option" where
  "update_history n g =
     do { g \<leftarrow> (if history_size g > n then raw_do (Shrink_Lines (history_size g - n)) g else Some g);
          recalc_stable_row_bounds
            (g\<lparr>display_offset := min (display_offset g) n, max_scroll_limit := n\<rparr>) }"

definition scroll_display :: "scroll \<Rightarrow> grid \<Rightarrow> grid" where
  "scroll_display s g =
     g\<lparr>display_offset :=
        (case s of
           Delta n \<Rightarrow> min (nat (max (int (display_offset g) + n) 0)) (history_size g)
         | PageUp \<Rightarrow> min (display_offset g + screen_lines g) (history_size g)
         | PageDown \<Rightarrow> display_offset g - screen_lines g
         | Top \<Rightarrow> history_size g
         | Bottom \<Rightarrow> 0)\<rparr>"

definition increase_scroll_limit :: "nat \<Rightarrow> grid \<Rightarrow> grid option" where
  "increase_scroll_limit n g =
     do { room \<leftarrow> checked_sub (max_scroll_limit g) (history_size g);
          let n = min n room;
          if n \<noteq> 0 then raw_do (Initialize n (columns g)) g else Some g }"

definition decrease_scroll_limit :: "nat \<Rightarrow> grid \<Rightarrow> grid option" where
  "decrease_scroll_limit n g =
     (let n = min n (history_size g)
      in if n \<noteq> 0
         then do { g \<leftarrow> raw_do (Shrink_Lines (min n (history_size g))) g;
                   Some (g\<lparr>display_offset := min (display_offset g) (history_size g)\<rparr>) }
         else Some g)"

definition reset_row :: "grid \<Rightarrow> cell row \<Rightarrow> cell row" where
  "reset_row g = row_reset cell_reset bg (template (cursor g))"

definition reset_line :: "int \<Rightarrow> grid \<Rightarrow> grid option" where
  "reset_line l g = raw_do (Update_Line (reset_row g) l) g"

text \<open>The region \<open>Range<Line>\<close> is the pair of its start and its end.\<close>

definition full_region :: "int \<times> int \<Rightarrow> grid \<Rightarrow> bool" where
  "full_region r g \<longleftrightarrow> fst r = 0 \<and> snd r = int (screen_lines g)"

definition scroll_down :: "int \<times> int \<Rightarrow> nat \<Rightarrow> grid \<Rightarrow> grid option" where
  "scroll_down region positions g =
     (let (a, b) = region; p = int positions; assign = full_region region g
      in if b - a \<le> p then fold_opt reset_line [a..b - 1] g
         else do {
           g \<leftarrow> (if max_scroll_limit g = 0 then do {
               g \<leftarrow> fold_opt (\<lambda>i. raw_do (Swap i (i - p))) [b..int (screen_lines g) - 1] g;
               g \<leftarrow> raw_do (Rotate_Down positions) g;
               let g = (if assign \<and> positions \<noteq> 0
                        then g\<lparr>stable_row_min := sat64 (stable_row_min g - p)\<rparr> else g);
               g \<leftarrow> fold_opt (\<lambda>(k, i) g. do {
                       g \<leftarrow> reset_line i g;
                       if assign then raw_do (Set_Id i (stable_row_min g + int k)) g else Some g })
                     (enumerate 0 [0..p - 1]) g;
               fold_opt (\<lambda>i. raw_do (Swap i (i + p))) [0..a - 1] g }
             else do {
               g \<leftarrow> fold_opt (\<lambda>i. raw_do (Swap i (i - p))) (rev [a + p..b - 1]) g;
               let g = (if assign \<and> positions \<noteq> 0
                        then g\<lparr>stable_row_min := sat64 (stable_row_min g - p)\<rparr> else g);
               fold_opt (\<lambda>i g. do {
                   g \<leftarrow> reset_line i g;
                   if assign then raw_do (Set_Id i (stable_row_min g + (i - a))) g else Some g })
                 (rev [a..a + p - 1]) g });
           if assign then recalc_stable_row_bounds g else Some g })"

definition scroll_up :: "int \<times> int \<Rightarrow> nat \<Rightarrow> grid \<Rightarrow> grid option" where
  "scroll_up region positions g =
     (let (a, b) = region; p = int positions; assign = full_region region g
      in if b - a \<le> p \<and> a \<noteq> 0 then fold_opt reset_line [a..b - 1] g
         else do {
           let g = (if display_offset g \<noteq> 0
                    then g\<lparr>display_offset := min (display_offset g + positions) (max_scroll_limit g)\<rparr> else g);
           g \<leftarrow> (if a = 0 then do {
               g \<leftarrow> increase_scroll_limit positions g;
               g \<leftarrow> fold_opt (\<lambda>i. raw_do (Swap i (i + p))) (rev [0..a - 1]) g;
               g \<leftarrow> raw_do (Rotate (- p)) g;
               fold_opt (\<lambda>i. raw_do (Swap i (i - p))) (rev [b..int (screen_lines g) - 1]) g }
             else fold_opt (\<lambda>i. raw_do (Swap i (i + p))) [a..b - p - 1] g);
           g \<leftarrow> fold_opt (\<lambda>i g. do {
                   g \<leftarrow> reset_line i g;
                   if assign
                   then let g = g\<lparr>stable_row_max := sat64 (stable_row_max g + 1)\<rparr>
                        in raw_do (Set_Id i (stable_row_max g)) g
                   else Some g })
                 [b - p..b - 1] g;
           if assign then recalc_stable_row_bounds g else Some g })"

section \<open>Clearing\<close>

text \<open>\<open>reset_region\<close> with its bounds resolved to a half-open range of lines.\<close>

definition reset_region :: "int \<Rightarrow> int \<Rightarrow> grid \<Rightarrow> grid option" where
  "reset_region start stop g =
     (if start < int (screen_lines g) \<and> stop \<le> int (screen_lines g)
      then fold_opt reset_line [start..stop - 1] g else None)"

definition clear_history :: "grid \<Rightarrow> grid option" where
  "clear_history g =
     do { g \<leftarrow> raw_do (Shrink_Lines (history_size g)) g;
          recalc_stable_row_bounds (g\<lparr>display_offset := 0\<rparr>) }"

definition initialize_all :: "grid \<Rightarrow> grid option" where
  "initialize_all g =
     do { g \<leftarrow> raw_do Truncate g;
          n \<leftarrow> checked_sub (max_scroll_limit g) (history_size g);
          raw_do (Initialize n (columns g)) g }"

definition grid_truncate :: "grid \<Rightarrow> grid option" where
  "grid_truncate g = raw_do Truncate g"

definition grid_reset :: "grid \<Rightarrow> grid option" where
  "grid_reset g =
     do { g \<leftarrow> clear_history g;
          let g = g\<lparr>saved_cursor := cursor_default, cursor := cursor_default, display_offset := 0\<rparr>;
          g \<leftarrow> fold_opt reset_line [topmost_line g..int (screen_lines g) - 1] g;
          let g = g\<lparr>stable_row_min := 0, stable_row_max := int (screen_lines g - 1)\<rparr>;
          fold_opt (\<lambda>i. raw_do (Set_Id (int i) (int i))) [0..<screen_lines g] g }"

section \<open>Cells\<close>

definition cell_at :: "grid \<Rightarrow> point \<Rightarrow> cell option" where
  "cell_at g p =
     do { r \<leftarrow> row_at g (pt_line p);
          if pt_column p < length (cells r) then Some (cells r ! pt_column p) else None }"

definition set_cell :: "point \<Rightarrow> cell \<Rightarrow> grid \<Rightarrow> grid option" where
  "set_cell p c g =
     do { r \<leftarrow> row_at g (pt_line p);
          r' \<leftarrow> row_set (pt_column p) c r;
          raw_do (Update_Line (\<lambda>_. r') (pt_line p)) g }"

definition point_less :: "point \<Rightarrow> point \<Rightarrow> bool" where
  "point_less p q \<longleftrightarrow> pt_line p < pt_line q \<or> pt_line p = pt_line q \<and> pt_column p < pt_column q"

text \<open>\<open>GridIterator\<close>: the next and the previous position, \<open>None\<close> at the end.\<close>

definition iter_next :: "grid \<Rightarrow> point \<Rightarrow> point \<Rightarrow> point option" where
  "iter_next g stop p =
     (if \<not> point_less p stop then None
      else if pt_column p \<ge> last_column g then Some \<lparr>pt_line = pt_line p + 1, pt_column = 0\<rparr>
      else Some (p\<lparr>pt_column := pt_column p + 1\<rparr>))"

definition iter_prev :: "grid \<Rightarrow> point \<Rightarrow> point option" where
  "iter_prev g p =
     (if \<not> point_less \<lparr>pt_line = topmost_line g, pt_column = 0\<rparr> p then None
      else if pt_column p = 0 then Some \<lparr>pt_line = pt_line p - 1, pt_column = last_column g\<rparr>
      else Some (p\<lparr>pt_column := pt_column p - 1\<rparr>))"

text \<open>
  The loop of \<open>clear_viewport\<close>: backwards while cells on screen are empty. The fuel is the
  number of cells on screen plus one, so that it always suffices.
\<close>

fun last_used :: "nat \<Rightarrow> grid \<Rightarrow> point \<Rightarrow> point option" where
  "last_used 0 g p = None"
| "last_used (Suc n) g p =
     (case iter_prev g p of
        None \<Rightarrow> Some p
      | Some q \<Rightarrow>
          (case cell_at g q of
             None \<Rightarrow> None
           | Some c \<Rightarrow> if \<not> cell_is_empty c \<or> pt_line q < 0 then Some q else last_used n g q))"

definition clear_viewport :: "grid \<Rightarrow> grid option" where
  "clear_viewport g =
     do { q \<leftarrow> last_used (screen_lines g * columns g + 2) g
                \<lparr>pt_line = int (screen_lines g) - 1, pt_column = columns g\<rparr>;
          let positions = nat (pt_line q + 1);
          if pt_line q \<ge> -1 then do {
            g \<leftarrow> scroll_up (0, int (screen_lines g)) positions g;
            n \<leftarrow> checked_sub (screen_lines g) positions;
            fold_opt reset_line [0..int n - 1] g }
          else None }"

section \<open>Finding a line by its id\<close>

function search_id :: "grid \<Rightarrow> int \<Rightarrow> int \<Rightarrow> int \<Rightarrow> int option option" where
  "search_id g ident lo hi =
     (if lo \<le> hi
      then let mid = lo + (hi - lo) div 2;
               line = topmost_line g + mid
           in case stable_row_id_for_line g line of
                None \<Rightarrow> None
              | Some i \<Rightarrow>
                  if i < ident then search_id g ident (mid + 1) hi
                  else if i > ident then search_id g ident lo (mid - 1)
                  else Some (Some line)
      else Some None)"
  by pat_completeness auto
termination
  by (relation "measure (\<lambda>(g, ident, lo, hi). nat (hi + 1 - lo))") (auto simp: Let_def)

declare search_id.simps [simp del]

text \<open>The outer option is a panic, the inner one the answer.\<close>

definition line_for_stable_row_id :: "grid \<Rightarrow> int \<Rightarrow> int option option" where
  "line_for_stable_row_id g ident =
     (let n = len (raw g)
      in if n = 0 then Some None
         else if ident < stable_row_min g \<or> ident > stable_row_max g then Some None
         else search_id g ident 0 (int (n - 1)))"

section \<open>Resizing in lines\<close>

definition move_cursors :: "(int \<Rightarrow> int) \<Rightarrow> (int \<Rightarrow> int) \<Rightarrow> grid \<Rightarrow> grid" where
  "move_cursors f h g =
     g\<lparr>cursor := cursor g\<lparr>point := point (cursor g)\<lparr>pt_line := f (pt_line (point (cursor g)))\<rparr>\<rparr>,
       saved_cursor := saved_cursor g\<lparr>point := point (saved_cursor g)\<lparr>pt_line := h (pt_line (point (saved_cursor g)))\<rparr>\<rparr>\<rparr>"

definition grow_lines :: "nat \<Rightarrow> grid \<Rightarrow> grid option" where
  "grow_lines target g =
     do { lines_added \<leftarrow> checked_sub target (screen_lines g);
          g \<leftarrow> raw_do (Grow_Visible target) g;
          let g = g\<lparr>screen_lines := target\<rparr>;
          let from_history = min (history_size g) lines_added;
          g \<leftarrow> (if from_history \<noteq> lines_added
                then scroll_up (0, int target) (lines_added - from_history) g else Some g);
          let g = move_cursors (\<lambda>l. l + int from_history) (\<lambda>l. l + int from_history) g;
          decrease_scroll_limit lines_added (g\<lparr>display_offset := display_offset g - lines_added\<rparr>) }"

definition shrink_screen_lines :: "nat \<Rightarrow> grid \<Rightarrow> grid option" where
  "shrink_screen_lines target g =
     do { k \<leftarrow> checked_sub (screen_lines g) target;
          let required_scrolling = nat (pt_line (point (cursor g))) + 1 - target;
          g \<leftarrow> (if required_scrolling > 0
                then map_option (move_cursors (\<lambda>l. min l (int target - 1)) (\<lambda>l. l))
                       (scroll_up (0, int (screen_lines g)) required_scrolling g)
                else Some g);
          let g = move_cursors (\<lambda>l. l) (\<lambda>l. min l (int target - 1)) g;
          g \<leftarrow> raw_do (Rotate (int k)) g;
          g \<leftarrow> raw_do (Shrink_Visible target) g;
          Some (g\<lparr>screen_lines := target\<rparr>) }"

end
