(* ===== verification/GridScroll.thy ===== *)
theory GridScroll
  imports Grid
begin

text \<open>
  What scrolling does to the lines of the grid. The loops are analysed on the list the ring
  buffer implements (\<open>lines\<close>): first the swap loops, the rotations and the reset loops on their
  own, then \<open>scroll_up\<close> and \<open>scroll_down\<close> as a whole.
\<close>

section \<open>Lines by number\<close>

definition ent :: "'a lines \<Rightarrow> int \<Rightarrow> 'a row \<times> int" where
  "ent b l = buf b ! at b l"

definition row_of :: "'a lines \<Rightarrow> int \<Rightarrow> 'a row" where
  "row_of b l = fst (ent b l)"

definition id_of :: "'a lines \<Rightarrow> int \<Rightarrow> int" where
  "id_of b l = snd (ent b l)"

definition lines_wf :: "'a lines \<Rightarrow> bool" where
  "lines_wf b \<longleftrightarrow> used b \<le> length (buf b)"

lemma at_inj: "has_line b l \<Longrightarrow> has_line b m \<Longrightarrow> at b l = at b m \<longleftrightarrow> l = m"
  by (auto simp: at_def pos_of_def has_line_def)

lemma at_less: "has_line b l \<Longrightarrow> at b l < used b"
  by (auto simp: at_def pos_of_def has_line_def)

lemma at_length: "lines_wf b \<Longrightarrow> has_line b l \<Longrightarrow> at b l < length (buf b)"
  using at_less [of b l] by (simp add: lines_wf_def)

lemma same_shape [simp]:
  "has_line (b\<lparr>buf := xs\<rparr>) l = has_line b l" "at (b\<lparr>buf := xs\<rparr>) l = at b l"
  "length xs = length (buf b) \<Longrightarrow> lines_wf (b\<lparr>buf := xs\<rparr>) = lines_wf b"
  by (simp_all add: has_line_def at_def lines_wf_def)

text \<open>What a line operation leaves alone: the numbers of lines, and the rows as a set.\<close>

definition shape :: "'a lines \<Rightarrow> 'a lines \<Rightarrow> bool" where
  "shape b b' \<longleftrightarrow> used b' = used b \<and> shown b' = shown b \<and> length (buf b') = length (buf b)"

lemma shape_simps:
  assumes "shape b b'"
  shows "has_line b' l = has_line b l" "at b' l = at b l" "lines_wf b' = lines_wf b"
  using assms by (simp_all add: shape_def has_line_def at_def lines_wf_def)

lemma shape_refl [simp]: "shape b b" and shape_trans: "shape b c \<Longrightarrow> shape c e \<Longrightarrow> shape b e"
  by (simp_all add: shape_def)

lemma step_swap:
  assumes "lines_wf b" "has_line b l" "has_line b m"
  shows "\<exists>b'. lines_step d (Swap l m) b = Some b' \<and> shape b b' \<and> set (buf b') = set (buf b) \<and>
    (\<forall>k. has_line b k \<longrightarrow> ent b' k = (if k = l then ent b m else if k = m then ent b l else ent b k))"
proof -
  have "mset (list_swap (at b l) (at b m) (buf b)) = mset (buf b)"
    using at_length [OF assms(1,2)] at_length [OF assms(1,3)] by (simp add: list_swap_def mset_swap)
  then have "set (list_swap (at b l) (at b m) (buf b)) = set (buf b)"
    by (rule mset_eq_setD)
  then show ?thesis
    using assms at_length [OF assms(1,2)] at_length [OF assms(1,3)]
    by (simp add: shape_def ent_def list_swap_def nth_list_update at_inj)
qed

lemma step_update:
  assumes "lines_wf b" "has_line b l"
  shows "\<exists>b'. lines_step d (Update_Line f l) b = Some b' \<and> shape b b' \<and>
    fst ` set (buf b') \<subseteq> insert (f (row_of b l)) (fst ` set (buf b)) \<and>
    (\<forall>k. has_line b k \<longrightarrow> row_of b' k = (if k = l then f (row_of b l) else row_of b k) \<and> id_of b' k = id_of b k)"
proof -
  let ?x = "(f (fst (buf b ! at b l)), snd (buf b ! at b l))"
  have "set ((buf b)[at b l := ?x]) \<subseteq> insert ?x (set (buf b))"
    by (rule set_update_subset_insert)
  then show ?thesis
    using assms at_length [OF assms] by (auto simp: shape_def row_of_def id_of_def ent_def nth_list_update at_inj)
qed

lemma step_set_id:
  assumes "lines_wf b" "has_line b l"
  shows "\<exists>b'. lines_step d (Set_Id l v) b = Some b' \<and> shape b b' \<and>
    fst ` set (buf b') \<subseteq> fst ` set (buf b) \<and> 
    (\<forall>k. has_line b k \<longrightarrow> row_of b' k = row_of b k \<and> id_of b' k = (if k = l then v else id_of b k))"
proof -
  let ?x = "(fst (buf b ! at b l), v)"
  have "set ((buf b)[at b l := ?x]) \<subseteq> insert ?x (set (buf b))"
    by (rule set_update_subset_insert)
  moreover have "fst (buf b ! at b l) \<in> fst ` set (buf b)"
    using at_length [OF assms] by simp
  ultimately show ?thesis
    using assms at_length [OF assms] by (auto simp: shape_def row_of_def id_of_def ent_def nth_list_update at_inj)
qed

section \<open>Loops\<close>

text \<open>
  Swapping each line of \<open>[s, s + n)\<close>, from the top, with the one \<open>p\<close> below it moves the block
  below up by \<open>p\<close>; the lines it ends in hold rows of the first \<open>p\<close>. Swapping from the bottom
  with the one \<open>p\<close> above moves down.
\<close>

definition moved_up :: "'a lines \<Rightarrow> int \<Rightarrow> nat \<Rightarrow> nat \<Rightarrow> 'a lines \<Rightarrow> bool" where
  "moved_up b s n p b' \<longleftrightarrow>
     shape b b' \<and> set (buf b') = set (buf b) \<and>
     (\<forall>l. has_line b l \<longrightarrow>
       (if s \<le> l \<and> l < s + int n then ent b' l = ent b (l + int p)
        else if s + int n \<le> l \<and> l < s + int n + int p
        then \<exists>m. s \<le> m \<and> m < s + int p \<and> ent b' l = ent b m
        else ent b' l = ent b l))"

definition moved_down :: "'a lines \<Rightarrow> int \<Rightarrow> nat \<Rightarrow> nat \<Rightarrow> 'a lines \<Rightarrow> bool" where
  "moved_down b s n p b' \<longleftrightarrow>
     shape b b' \<and> set (buf b') = set (buf b) \<and>
     (\<forall>l. has_line b l \<longrightarrow> l < s - int n - int p \<or> s - int n \<le> l \<longrightarrow>
        ent b' l = (if s - int n \<le> l \<and> l < s then ent b (l - int p) else ent b l))"

lemma swap_up_loop:
  assumes "lines_wf b" "\<And>l. s \<le> l \<Longrightarrow> l < s + int n + int p \<Longrightarrow> has_line b l" "0 < p"
  shows "\<exists>b'. fold_opt (\<lambda>i. lines_step d (Swap i (i + int p))) [s..s + int n - 1] b = Some b' \<and>
    moved_up b s n p b'"
  using assms(2)
proof (induction n)
  case 0
  show ?case by (auto simp: moved_up_def)
next
  case (Suc n)
  let ?f = "\<lambda>i. lines_step d (Swap i (i + int p))"
  let ?i = "s + int n"
  have lines: "has_line b ?i" "has_line b (?i + int p)" using Suc.prems assms(3) by simp_all
  have "\<exists>c. fold_opt ?f [s..s + int n - 1] b = Some c \<and> moved_up b s n p c"
    by (rule Suc.IH) (rule Suc.prems; simp)
  then obtain c where c: "fold_opt ?f [s..s + int n - 1] b = Some c" "moved_up b s n p c" by blast
  then have sh: "shape b c" by (simp add: moved_up_def)
  obtain c' where c': "?f ?i c = Some c'" "shape c c'" "set (buf c') = set (buf c)"
    and rows: "\<And>k. has_line c k \<Longrightarrow> ent c' k =
      (if k = ?i then ent c (?i + int p) else if k = ?i + int p then ent c ?i else ent c k)"
    using step_swap [of c ?i "?i + int p" d] lines shape_simps [OF sh] assms(1) by blast
  have "[s..s + int (Suc n) - 1] = [s..s + int n - 1] @ [?i]"
    by (subst upto_rec2) auto
  then have fold: "fold_opt ?f [s..s + int (Suc n) - 1] b = Some c'"
    using c(1) c'(1) by (simp only: fold_opt_append fold_opt.simps Option.bind.simps bind_rzero)
  have row: "ent c' l = (if l = ?i then ent b (?i + int p) else if l = ?i + int p then ent c ?i else ent c l)"
    if "has_line b l" for l
    using rows [of l] that shape_simps [OF sh] c(2) lines by (auto simp: moved_up_def)
  have "\<exists>m. s \<le> m \<and> m < s + int p \<and> ent c ?i = ent b m"
    using c(2) lines(1) assms(3) by (auto simp: moved_up_def)
  then have "moved_up b s (Suc n) p c'"
    using c(2) c'(2,3) row shape_trans [OF sh c'(2)] assms(3) unfolding moved_up_def by auto
  with fold show ?case by blast
qed

lemma swap_down_loop:
  assumes "lines_wf b" "\<And>l. s - int n - int p \<le> l \<Longrightarrow> l < s \<Longrightarrow> has_line b l" "0 < p"
  shows "\<exists>b'. fold_opt (\<lambda>i. lines_step d (Swap i (i - int p))) (rev [s - int n..s - 1]) b = Some b' \<and>
    moved_down b s n p b'"
  using assms(2)
proof (induction n)
  case 0
  show ?case by (auto simp: moved_down_def)
next
  case (Suc n)
  let ?f = "\<lambda>i. lines_step d (Swap i (i - int p))"
  let ?i = "s - int (Suc n)"
  have lines: "has_line b ?i" "has_line b (?i - int p)" using Suc.prems assms(3) by simp_all
  have "\<exists>c. fold_opt ?f (rev [s - int n..s - 1]) b = Some c \<and> moved_down b s n p c"
    by (rule Suc.IH) (rule Suc.prems; simp)
  then obtain c where c: "fold_opt ?f (rev [s - int n..s - 1]) b = Some c" "moved_down b s n p c" by blast
  then have sh: "shape b c" by (simp add: moved_down_def)
  obtain c' where c': "?f ?i c = Some c'" "shape c c'" "set (buf c') = set (buf c)"
    and rows: "\<And>k. has_line c k \<Longrightarrow> ent c' k =
      (if k = ?i then ent c (?i - int p) else if k = ?i - int p then ent c ?i else ent c k)"
    using step_swap [of c ?i "?i - int p" d] lines shape_simps [OF sh] assms(1) by blast
  have "[s - int (Suc n)..s - 1] = ?i # [s - int n..s - 1]"
    by (subst upto_rec1) auto
  then have fold: "fold_opt ?f (rev [s - int (Suc n)..s - 1]) b = Some c'"
    using c(1) c'(1) by (simp only: rev.simps fold_opt_append fold_opt.simps Option.bind.simps bind_rzero)
  have row: "ent c' l = (if l = ?i then ent b (?i - int p) else if l = ?i - int p then ent c ?i else ent c l)"
    if "has_line b l" for l
    using rows [of l] that shape_simps [OF sh] c(2) lines by (auto simp: moved_down_def)
  have "moved_down b s (Suc n) p c'"
    using c(2) c'(2,3) row shape_trans [OF sh c'(2)] assms(3) unfolding moved_down_def by auto
  with fold show ?case by blast
qed

section \<open>Rotating and growing\<close>

text \<open>Rotating up by \<open>p\<close> lines, and rotating down where the lines that come in are not in use.\<close>

lemma rotate_up_rows:
  assumes "lines_wf b" "0 < used b" "p \<le> length (buf b)"
  shows "\<exists>b'. lines_step d (Rotate (- int p)) b = Some b' \<and> shape b b' \<and> set (buf b') = set (buf b) \<and>
    (\<forall>l. has_line b l \<longrightarrow> l + int p < int (shown b) \<longrightarrow> ent b' l = ent b (l + int p))"
proof -
  let ?n = "length (buf b)"
  let ?m = "nat (- int p mod int ?n)"
  have n: "0 < ?n" using assms(1,2) unfolding lines_wf_def by linarith
  have m: "?m = (if p = 0 \<or> p = ?n then 0 else ?n - p)"
  proof (cases "p = 0 \<or> p = ?n")
    case False
    then have "int p mod int ?n = int p" using assms(3) by simp
    then have "- int p mod int ?n = int (?n - p)"
      using False assms(3) by (simp add: zmod_zminus1_eq_if of_nat_diff)
    then show ?thesis using False by simp
  qed auto
  have "ent (b\<lparr>buf := rotate ?m (buf b)\<rparr>) l = ent b (l + int p)"
    if "has_line b l" "l + int p < int (shown b)" for l
  proof -
    have "at b (l + int p) = at b l - p" "p \<le> at b l"
      using that by (auto simp: at_def pos_of_def has_line_def)
    moreover have "at b l < ?n" by (rule at_length [OF assms(1) that(1)])
    moreover from calculation have "p \<noteq> ?n" by linarith
    ultimately show ?thesis
      unfolding m by (cases "p = 0") (simp_all add: ent_def nth_rotate mod_if)
  qed
  then show ?thesis using n assms(3) by (auto simp: shape_def)
qed

lemma rotate_down_rows:
  assumes "lines_wf b" "0 < used b"
  shows "\<exists>b'. lines_step d (Rotate_Down p) b = Some b' \<and> shape b b' \<and> set (buf b') = set (buf b) \<and>
    (\<forall>l. has_line b l \<longrightarrow> has_line b (l - int p) \<longrightarrow> ent b' l = ent b (l - int p))"
proof -
  have ne: "buf b \<noteq> []" using assms by (auto simp: lines_wf_def)
  have "ent (b\<lparr>buf := rotate p (buf b)\<rparr>) l = ent b (l - int p)"
    if "has_line b l" "has_line b (l - int p)" for l
  proof -
    have "at b (l - int p) = p + at b l"
      using that by (auto simp: at_def pos_of_def has_line_def)
    moreover have "at b (l - int p) < length (buf b)" by (rule at_length [OF assms(1) that(2)])
    ultimately show ?thesis by (auto simp: ent_def nth_rotate mod_if)
  qed
  then show ?thesis using ne by (auto simp: shape_def)
qed

section \<open>The grid's buffer as lines\<close>

declare row_of_def [simp]

definition gl :: "grid \<Rightarrow> cell lines" where
  "gl g = lines_of (raw g)"

definition rows_ok :: "grid \<Rightarrow> bool" where
  "rows_ok g \<longleftrightarrow> (\<forall>x \<in> set (buf (gl g)). row_ok cell_reset (fst x) \<and> length (cells (fst x)) = columns g)"

definition base_ok :: "grid \<Rightarrow> bool" where
  "base_ok g \<longleftrightarrow> storage_wf (raw g) \<and> 0 < columns g \<and> rows_ok g \<and>
     visible_lines (raw g) = screen_lines g \<and> 0 < screen_lines g \<and> screen_lines g \<le> len (raw g)"

definition blank_row :: "grid \<Rightarrow> cell row" where
  "blank_row g = \<lparr>cells = replicate (columns g) (cell_default\<lparr>bg := bg (template (cursor g))\<rparr>), occ = 0\<rparr>"

text \<open>\<open>keeps\<close>: only the buffer and the bounds of the stable ids have changed.\<close>

definition keeps :: "grid \<Rightarrow> grid \<Rightarrow> bool" where
  "keeps g g' \<longleftrightarrow>
     g' = g\<lparr>raw := raw g', stable_row_min := stable_row_min g', stable_row_max := stable_row_max g'\<rparr>"

lemma keepsD:
  assumes "keeps g g'"
  shows "cursor g' = cursor g" "columns g' = columns g" "screen_lines g' = screen_lines g"
    "display_offset g' = display_offset g" "max_scroll_limit g' = max_scroll_limit g"
    "saved_cursor g' = saved_cursor g" "blank_row g' = blank_row g"
proof -
  show "cursor g' = cursor g" "columns g' = columns g" "screen_lines g' = screen_lines g"
    "display_offset g' = display_offset g" "max_scroll_limit g' = max_scroll_limit g"
    "saved_cursor g' = saved_cursor g"
    by (subst assms [unfolded keeps_def], simp)+
  then show "blank_row g' = blank_row g" by (simp add: blank_row_def)
qed

lemma keepsI:
  assumes "cursor g' = cursor g" "columns g' = columns g" "screen_lines g' = screen_lines g"
    "display_offset g' = display_offset g" "max_scroll_limit g' = max_scroll_limit g"
    "saved_cursor g' = saved_cursor g"
  shows "keeps g g'"
  using assms by (simp add: keeps_def)

lemma keeps_refl [simp]: "keeps g g" and keeps_trans: "keeps g h \<Longrightarrow> keeps h k \<Longrightarrow> keeps g k"
  by (auto intro!: keepsI simp: keepsD)

lemma keeps_raw [simp]: "keeps g (g\<lparr>raw := r\<rparr>)" "keeps g (g\<lparr>stable_row_min := i\<rparr>)" "keeps g (g\<lparr>stable_row_max := i\<rparr>)"
  by (simp_all add: keepsI)

lemma gl_simps [simp]:
  "gl (g\<lparr>raw := r\<rparr>) = lines_of r" "gl (g\<lparr>stable_row_min := i\<rparr>) = gl g" "gl (g\<lparr>stable_row_max := i\<rparr>) = gl g"
  "gl (g\<lparr>display_offset := n\<rparr>) = gl g" "used (gl g) = len (raw g)" "shown (gl g) = visible_lines (raw g)"
  by (simp_all add: gl_def)

lemma gl_wf: "storage_wf (raw g) \<Longrightarrow> lines_wf (gl g)"
  by (simp add: lines_wf_def gl_def) (simp add: storage_wf_def)

lemma has_line_gl:
  "base_ok g \<Longrightarrow> has_line (gl g) l \<longleftrightarrow> l < int (screen_lines g) \<and> - int (history_size g) \<le> l"
  by (auto simp: base_ok_def has_line_def history_size_def gl_def)

lemma row_at_eq: "base_ok g \<Longrightarrow> has_line (gl g) l \<Longrightarrow> row_at g l = Some (row_of (gl g) l)"
  by (simp add: base_ok_def row_at_def gl_def ring_nth ent_def)

lemma raw_do_eq:
  assumes "storage_wf (raw g)" "lines_step cell_default op (gl g) = Some b"
  shows "\<exists>r. raw_do op g = Some (g\<lparr>raw := r\<rparr>) \<and> storage_wf r \<and> lines_of r = b"
  using step_refines [OF assms(1), of cell_default op] assms(2)
  by (cases rule: refines_cases) (auto simp: raw_do_def gl_def)

lemma fold_raw_do:
  assumes "storage_wf (raw g)" "fold_opt (\<lambda>i. lines_step cell_default (op i)) is (gl g) = Some b"
  shows "\<exists>r. fold_opt (\<lambda>i. raw_do (op i)) is g = Some (g\<lparr>raw := r\<rparr>) \<and> storage_wf r \<and> lines_of r = b"
  using assms
proof (induction "is" arbitrary: g)
  case Nil
  then have "g = g\<lparr>raw := raw g\<rparr>" by simp
  with Nil show ?case by (metis fold_opt.simps(1) gl_def option.inject)
next
  case (Cons i "is")
  then obtain c where c: "lines_step cell_default (op i) (gl g) = Some c"
    "fold_opt (\<lambda>i. lines_step cell_default (op i)) is c = Some b"
    by (auto split: Option.bind_splits)
  from raw_do_eq [OF Cons.prems(1) c(1)] obtain r where
    r: "raw_do (op i) g = Some (g\<lparr>raw := r\<rparr>)" "storage_wf r" "lines_of r = c" by blast
  with Cons.IH [of "g\<lparr>raw := r\<rparr>"] c(2) show ?case by auto
qed

text \<open>A change of the buffer that keeps its shape and its rows within those there were.\<close>

lemma base_ok_shape:
  assumes "base_ok g" "storage_wf r" "shape (gl g) (lines_of r)" "fst ` set (buf (lines_of r)) \<subseteq> fst ` set (buf (gl g))"
  shows "base_ok (g\<lparr>raw := r\<rparr>)"
proof -
  have "rows_ok (g\<lparr>raw := r\<rparr>)"
    using assms(1,4) by (fastforce simp: base_ok_def rows_ok_def)
  then show ?thesis using assms by (auto simp: base_ok_def shape_def)
qed

lemma base_ok_bounds [simp]:
  "base_ok (g\<lparr>stable_row_min := i\<rparr>) = base_ok g" "base_ok (g\<lparr>stable_row_max := i\<rparr>) = base_ok g"
  "base_ok (g\<lparr>display_offset := n\<rparr>) = base_ok g"
  by (simp_all add: base_ok_def rows_ok_def)

section \<open>Blanking lines\<close>

definition blanked :: "int set \<Rightarrow> grid \<Rightarrow> grid \<Rightarrow> bool" where
  "blanked L g g' \<longleftrightarrow> keeps g g' \<and> base_ok g' \<and> shape (gl g) (gl g') \<and>
     (\<forall>k. has_line (gl g) k \<longrightarrow> row_of (gl g') k = (if k \<in> L then blank_row g else row_of (gl g) k))"

lemma blanked_refl: "base_ok g \<Longrightarrow> blanked {} g g"
  by (simp add: blanked_def)

lemma blanked_trans: "blanked L g h \<Longrightarrow> blanked M h k \<Longrightarrow> blanked (L \<union> M) g k"
  unfolding blanked_def
  using keeps_trans [of g h k] shape_trans [of "gl g" "gl h" "gl k"]
  by (auto simp: keepsD shape_simps)

lemma blanked_bounds:
  "blanked L g g' \<Longrightarrow> blanked L g (g'\<lparr>stable_row_min := i\<rparr>)"
  "blanked L g g' \<Longrightarrow> blanked L g (g'\<lparr>stable_row_max := i\<rparr>)"
  unfolding blanked_def using keeps_trans [of g g'] by simp_all

lemma row_in_buf: "lines_wf b \<Longrightarrow> has_line b l \<Longrightarrow> row_of b l \<in> fst ` set (buf b)"
  using at_length [of b l] by (simp add: ent_def)

lemma reset_row_blank:
  assumes "base_ok g" "has_line (gl g) l"
  shows "reset_row g (row_of (gl g) l) = blank_row g"
proof -
  have "storage_wf (raw g)" using assms(1) by (simp add: base_ok_def)
  then have "row_of (gl g) l \<in> fst ` set (buf (gl g))"
    using row_in_buf [OF gl_wf assms(2)] by blast
  then have r: "row_ok cell_reset (row_of (gl g) l)" "length (cells (row_of (gl g) l)) = columns g"
    using assms(1) by (auto simp: base_ok_def rows_ok_def)
  moreover from this have "cells (row_of (gl g) l) \<noteq> []" using assms(1) by (auto simp: base_ok_def)
  ultimately show ?thesis
    using cell.row_reset_blank by (simp add: reset_row_def blank_row_def cell_reset_def)
qed

lemma reset_line_blanks:
  assumes "base_ok g" "has_line (gl g) l"
  shows "\<exists>g'. reset_line l g = Some g' \<and> blanked {l} g g' \<and>
    stable_row_min g' = stable_row_min g \<and> stable_row_max g' = stable_row_max g"
proof -
  have wf: "storage_wf (raw g)" using assms(1) by (simp add: base_ok_def)
  obtain b where b: "lines_step cell_default (Update_Line (reset_row g) l) (gl g) = Some b" "shape (gl g) b"
    "fst ` set (buf b) \<subseteq> insert (blank_row g) (fst ` set (buf (gl g)))"
    "\<And>k. has_line (gl g) k \<Longrightarrow> row_of b k = (if k = l then blank_row g else row_of (gl g) k)"
    using step_update [OF gl_wf [OF wf] assms(2), of cell_default "reset_row g"] reset_row_blank [OF assms]
    by auto
  obtain r where r: "raw_do (Update_Line (reset_row g) l) g = Some (g\<lparr>raw := r\<rparr>)" "storage_wf r" "lines_of r = b"
    using raw_do_eq [OF wf b(1)] by blast
  have "row_ok cell_reset (blank_row g)" "length (cells (blank_row g)) = columns g"
    by (auto simp: row_ok_def blank_row_def cell_reset_def cell_default_def last_replicate)
  then have "rows_ok (g\<lparr>raw := r\<rparr>)"
    using b(3) assms(1) r(3) by (fastforce simp: base_ok_def rows_ok_def)
  then have "base_ok (g\<lparr>raw := r\<rparr>)"
    using assms(1) r b(2) by (auto simp: base_ok_def shape_def)
  then show ?thesis
    using r b by (simp add: reset_line_def blanked_def)
qed

lemma set_id_blanks:
  assumes "base_ok g" "has_line (gl g) l"
  shows "\<exists>g'. raw_do (Set_Id l v) g = Some g' \<and> blanked {} g g' \<and>
    stable_row_min g' = stable_row_min g \<and> stable_row_max g' = stable_row_max g"
proof -
  have wf: "storage_wf (raw g)" using assms(1) by (simp add: base_ok_def)
  obtain b where b: "lines_step cell_default (Set_Id l v) (gl g) = Some b" "shape (gl g) b"
    "fst ` set (buf b) \<subseteq> fst ` set (buf (gl g))" "\<And>k. has_line (gl g) k \<Longrightarrow> row_of b k = row_of (gl g) k"
    using step_set_id [OF gl_wf [OF wf] assms(2), of cell_default v] by auto
  obtain r where r: "raw_do (Set_Id l v) g = Some (g\<lparr>raw := r\<rparr>)" "storage_wf r" "lines_of r = b"
    using raw_do_eq [OF wf b(1)] by blast
  then show ?thesis
    using b base_ok_shape [OF assms(1), of r] by (simp add: blanked_def)
qed

lemma blank_loop:
  assumes "\<And>i h. i \<in> set is \<Longrightarrow> base_ok h \<Longrightarrow> keeps g h \<Longrightarrow> shape (gl g) (gl h) \<Longrightarrow>
      \<exists>h'. F i h = Some h' \<and> blanked {line i} h h'"
    and "base_ok h" "keeps g h" "shape (gl g) (gl h)"
  shows "\<exists>g'. fold_opt F is h = Some g' \<and> blanked (line ` set is) h g'"
  using assms
proof (induction "is" arbitrary: h)
  case Nil
  then show ?case by (simp add: blanked_refl)
next
  case (Cons i "is")
  obtain h' where h': "F i h = Some h'" "blanked {line i} h h'"
    using Cons.prems(1) [of i h] Cons.prems(2-4) by auto
  then have "base_ok h'" "keeps g h'" "shape (gl g) (gl h')"
    using Cons.prems(3,4) keeps_trans shape_trans by (auto simp: blanked_def)
  with Cons.IH [of h'] Cons.prems(1) obtain g' where
    "fold_opt F is h' = Some g'" "blanked (line ` set is) h' g'"
    by auto
  with h' blanked_trans [OF h'(2)] show ?case by auto
qed

text \<open>One row of the scrolling loops: reset it and, if wanted, give it an id.\<close>

lemma blank_line:
  assumes "base_ok h" "has_line (gl h) l"
  shows "\<exists>h'. (do { h \<leftarrow> reset_line l h; if assign then raw_do (Set_Id l (v h)) h else Some h }) = Some h' \<and>
    blanked {l} h h'"
proof -
  obtain h1 where h1: "reset_line l h = Some h1" "blanked {l} h h1"
    using reset_line_blanks [OF assms] by blast
  then have "base_ok h1" "has_line (gl h1) l"
    using assms(2) by (auto simp: blanked_def shape_simps)
  then obtain h2 where "raw_do (Set_Id l (v h1)) h1 = Some h2" "blanked {} h1 h2"
    using set_id_blanks by blast
  then show ?thesis using h1 blanked_trans [of "{l}" h h1 "{}" h2] by simp
qed

lemma blank_next_line:
  assumes "base_ok h" "has_line (gl h) l"
  shows "\<exists>h'. (do { h \<leftarrow> reset_line l h;
      if assign then let h = h\<lparr>stable_row_max := f (stable_row_max h)\<rparr> in raw_do (Set_Id l (stable_row_max h)) h
      else Some h }) = Some h' \<and> blanked {l} h h'"
proof -
  obtain h1 where h1: "reset_line l h = Some h1" "blanked {l} h h1"
    using reset_line_blanks [OF assms] by blast
  let ?h = "h1\<lparr>stable_row_max := f (stable_row_max h1)\<rparr>"
  have b: "blanked {l} h ?h" by (rule blanked_bounds(2) [OF h1(2)])
  then have "base_ok ?h" "has_line (gl ?h) l"
    using assms(2) unfolding blanked_def by (auto simp: shape_simps)
  then obtain h2 where "raw_do (Set_Id l (stable_row_max ?h)) ?h = Some h2" "blanked {} ?h h2"
    using set_id_blanks by blast
  then show ?thesis using h1 blanked_trans [OF b, of "{}" h2] by (simp add: Let_def)
qed

lemma recalc_blanks:
  assumes "base_ok g"
  shows "\<exists>g'. recalc_stable_row_bounds g = Some g' \<and> blanked {} g g'"
proof -
  have "storage_wf (raw g)" "line_ok (raw g) (topmost_line g)" "line_ok (raw g) (bottommost_line g)"
    using assms by (auto simp: base_ok_def line_ok_def topmost_line_def bottommost_line_def history_size_def)
  then show ?thesis
    using blanked_refl [OF assms] ring_nth [of "raw g"]
    by (simp add: recalc_stable_row_bounds_def stable_row_id_for_line_def blanked_bounds)
qed

section \<open>Scrolling a region\<close>

text \<open>
  The outcome: lines of the region move by \<open>p\<close>, the lines that come free are blank, everything
  else stays; scrolling up from the top of the screen also pushes lines into the scrollback.
\<close>

definition scrolled_up :: "int \<times> int \<Rightarrow> nat \<Rightarrow> grid \<Rightarrow> grid \<Rightarrow> bool" where
  "scrolled_up region p g g' \<longleftrightarrow>
     (let (a, b) = region in
      \<forall>l. has_line (gl g') l \<longrightarrow>
        row_of (gl g') l =
          (if b - int p \<le> l \<and> l < b then blank_row g
           else if (a = 0 \<or> a \<le> l) \<and> l < b then row_of (gl g) (l + int p)
           else row_of (gl g) l))"

definition scrolled_down :: "int \<times> int \<Rightarrow> nat \<Rightarrow> grid \<Rightarrow> grid \<Rightarrow> bool" where
  "scrolled_down region p g g' \<longleftrightarrow>
     (let (a, b) = region in
      \<forall>l. has_line (gl g) l \<longrightarrow>
        row_of (gl g') l =
          (if a \<le> l \<and> l < a + int p then blank_row g
           else if a \<le> l \<and> l < b then row_of (gl g) (l - int p)
           else row_of (gl g) l))"

lemma increase_eq:
  assumes "base_ok g" "history_size g \<le> max_scroll_limit g"
  shows "\<exists>g'. increase_scroll_limit p g = Some g' \<and> keeps g g' \<and> base_ok g' \<and>
    stable_row_min g' = stable_row_min g \<and> stable_row_max g' = stable_row_max g \<and>
    history_size g' = min (history_size g + p) (max_scroll_limit g) \<and>
    (\<forall>l. has_line (gl g) l \<longrightarrow> ent (gl g') l = ent (gl g) l)"
proof -
  have wf: "storage_wf (raw g)" using assms(1) by (simp add: base_ok_def)
  define k where "k = min p (max_scroll_limit g - history_size g)"
  let ?b = "add_lines cell_default k (columns g) (gl g)"
  have room: "checked_sub (max_scroll_limit g) (history_size g) = Some (max_scroll_limit g - history_size g)"
    using assms(2) by simp
  have inc: "increase_scroll_limit p g = (if k \<noteq> 0 then raw_do (Initialize k (columns g)) g else Some g)"
    by (simp only: increase_scroll_limit_def room k_def Let_def Option.bind.simps bind_rzero)
  have h: "history_size g + k = min (history_size g + p) (max_scroll_limit g)"
    using assms(2) by (auto simp: k_def)
  show ?thesis
  proof (cases "k = 0")
    case True
    then show ?thesis
      using h assms(1) by (simp add: inc)
  next
    case False
    obtain r where r: "raw_do (Initialize k (columns g)) g = Some (g\<lparr>raw := r\<rparr>)" "storage_wf r" "lines_of r = ?b"
      using raw_do_eq [OF wf, of "Initialize k (columns g)"] by auto
    have len: "len r = len (raw g) + k" "visible_lines r = visible_lines (raw g)"
      using arg_cong [OF r(3), of used] arg_cong [OF r(3), of shown] by (simp_all add: add_lines_def)
    have "row_ok cell_reset (row_new cell_default (columns g))" "length (cells (row_new cell_default (columns g))) = columns g"
      by (rule cell.row_ok_new) (simp add: row_new_def)
    then have "rows_ok (g\<lparr>raw := r\<rparr>)"
      using assms(1) r(3) by (auto simp: base_ok_def rows_ok_def add_lines_def split: if_splits)
    then have ok: "base_ok (g\<lparr>raw := r\<rparr>)"
      using assms(1) r(2) len by (simp add: base_ok_def)
    have "history_size (g\<lparr>raw := r\<rparr>) = history_size g + k"
      using len assms(1) by (simp add: history_size_def base_ok_def)
    moreover have "ent (lines_of r) l = ent (gl g) l" if "has_line (gl g) l" for l
      using at_length [OF gl_wf [OF wf] that] that len
      by (simp add: r(3) ent_def at_def add_lines_def nth_append)
    ultimately show ?thesis
      using False r(1) ok h by (simp add: inc)
  qed
qed

text \<open>The loops of swaps, on the grid.\<close>

lemma swap_up_grid:
  assumes "base_ok g" "\<And>l. s \<le> l \<Longrightarrow> l < s + int n + int p \<Longrightarrow> has_line (gl g) l" "0 < p"
  shows "\<exists>g'. fold_opt (\<lambda>i. raw_do (Swap i (i + int p))) [s..s + int n - 1] g = Some g' \<and>
    keeps g g' \<and> base_ok g' \<and> stable_row_min g' = stable_row_min g \<and> stable_row_max g' = stable_row_max g \<and>
    moved_up (gl g) s n p (gl g')"
proof -
  have wf: "storage_wf (raw g)" using assms(1) by (simp add: base_ok_def)
  obtain b where b: "fold_opt (\<lambda>i. lines_step cell_default (Swap i (i + int p))) [s..s + int n - 1] (gl g) = Some b"
    "moved_up (gl g) s n p b"
    using swap_up_loop [OF gl_wf [OF wf] assms(2,3)] by blast
  obtain r where r: "fold_opt (\<lambda>i. raw_do (Swap i (i + int p))) [s..s + int n - 1] g = Some (g\<lparr>raw := r\<rparr>)"
    "storage_wf r" "lines_of r = b"
    using fold_raw_do [OF wf b(1)] by blast
  moreover have "base_ok (g\<lparr>raw := r\<rparr>)"
    using base_ok_shape [OF assms(1) r(2)] b(2) r(3) by (auto simp: moved_up_def)
  ultimately show ?thesis using b(2) by simp
qed

lemma swap_down_grid:
  assumes "base_ok g" "\<And>l. s - int n - int p \<le> l \<Longrightarrow> l < s \<Longrightarrow> has_line (gl g) l" "0 < p"
  shows "\<exists>g'. fold_opt (\<lambda>i. raw_do (Swap i (i - int p))) (rev [s - int n..s - 1]) g = Some g' \<and>
    keeps g g' \<and> base_ok g' \<and> stable_row_min g' = stable_row_min g \<and> stable_row_max g' = stable_row_max g \<and>
    moved_down (gl g) s n p (gl g')"
proof -
  have wf: "storage_wf (raw g)" using assms(1) by (simp add: base_ok_def)
  obtain b where b: "fold_opt (\<lambda>i. lines_step cell_default (Swap i (i - int p))) (rev [s - int n..s - 1]) (gl g) = Some b"
    "moved_down (gl g) s n p b"
    using swap_down_loop [OF gl_wf [OF wf] assms(2,3)] by blast
  obtain r where r: "fold_opt (\<lambda>i. raw_do (Swap i (i - int p))) (rev [s - int n..s - 1]) g = Some (g\<lparr>raw := r\<rparr>)"
    "storage_wf r" "lines_of r = b"
    using fold_raw_do [OF wf b(1)] by blast
  moreover have "base_ok (g\<lparr>raw := r\<rparr>)"
    using base_ok_shape [OF assms(1) r(2)] b(2) r(3) by (auto simp: moved_down_def)
  ultimately show ?thesis using b(2) by simp
qed

lemma rotate_grid:
  assumes "base_ok g" "p \<le> screen_lines g"
  shows "\<exists>g'. raw_do (Rotate (- int p)) g = Some g' \<and> keeps g g' \<and> base_ok g' \<and> shape (gl g) (gl g') \<and>
    stable_row_min g' = stable_row_min g \<and> stable_row_max g' = stable_row_max g \<and>
    (\<forall>l. has_line (gl g) l \<longrightarrow> l + int p < int (screen_lines g) \<longrightarrow> ent (gl g') l = ent (gl g) (l + int p))"
proof -
  have wf: "storage_wf (raw g)" and "p \<le> length (buf (gl g))" "0 < used (gl g)"
    using assms by (auto simp: base_ok_def gl_def) (auto simp: storage_wf_def)
  then obtain b where b: "lines_step cell_default (Rotate (- int p)) (gl g) = Some b" "shape (gl g) b"
    "set (buf b) = set (buf (gl g))"
    "\<forall>l. has_line (gl g) l \<longrightarrow> l + int p < int (shown (gl g)) \<longrightarrow> ent b l = ent (gl g) (l + int p)"
    using rotate_up_rows [OF gl_wf [OF wf], of p cell_default] by blast
  obtain r where r: "raw_do (Rotate (- int p)) g = Some (g\<lparr>raw := r\<rparr>)" "storage_wf r" "lines_of r = b"
    using raw_do_eq [OF wf b(1)] by blast
  moreover have "base_ok (g\<lparr>raw := r\<rparr>)"
    using base_ok_shape [OF assms(1) r(2)] b r(3) by auto
  ultimately show ?thesis
    using b assms(1) by (auto simp: base_ok_def)
qed

lemma rotate_down_grid:
  assumes "base_ok g"
  shows "\<exists>g'. raw_do (Rotate_Down p) g = Some g' \<and> keeps g g' \<and> base_ok g' \<and> shape (gl g) (gl g') \<and>
    stable_row_min g' = stable_row_min g \<and> stable_row_max g' = stable_row_max g \<and>
    (\<forall>l. has_line (gl g) l \<longrightarrow> has_line (gl g) (l - int p) \<longrightarrow> ent (gl g') l = ent (gl g) (l - int p))"
proof -
  have wf: "storage_wf (raw g)" and "0 < used (gl g)"
    using assms by (auto simp: base_ok_def)
  then obtain b where b: "lines_step cell_default (Rotate_Down p) (gl g) = Some b" "shape (gl g) b"
    "set (buf b) = set (buf (gl g))"
    "\<forall>l. has_line (gl g) l \<longrightarrow> has_line (gl g) (l - int p) \<longrightarrow> ent b l = ent (gl g) (l - int p)"
    using rotate_down_rows [OF gl_wf [OF wf], of cell_default p] by blast
  obtain r where r: "raw_do (Rotate_Down p) g = Some (g\<lparr>raw := r\<rparr>)" "storage_wf r" "lines_of r = b"
    using raw_do_eq [OF wf b(1)] by blast
  moreover have "base_ok (g\<lparr>raw := r\<rparr>)"
    using base_ok_shape [OF assms(1) r(2)] b r(3) by auto
  ultimately show ?thesis
    using b by auto
qed

text \<open>The rest of \<open>scroll_up\<close> once the lines are in place.\<close>

lemma scroll_up_tail:
  assumes "base_ok h" "\<And>l. b - int p \<le> l \<Longrightarrow> l < b \<Longrightarrow> has_line (gl h) l"
  shows "\<exists>g'. (do {
       g \<leftarrow> fold_opt (\<lambda>i g. do {
              g \<leftarrow> reset_line i g;
              if assign then let g = g\<lparr>stable_row_max := f (stable_row_max g)\<rparr>
                             in raw_do (Set_Id i (stable_row_max g)) g
              else Some g }) [b - int p..b - 1] h;
       if assign then recalc_stable_row_bounds g else Some g }) = Some g' \<and> blanked {b - int p..b - 1} h g'"
proof -
  let ?F = "\<lambda>i g. do { g \<leftarrow> reset_line i g;
              if assign then let g = g\<lparr>stable_row_max := f (stable_row_max g)\<rparr>
                             in raw_do (Set_Id i (stable_row_max g)) g
              else Some g }"
  have "\<exists>k'. ?F i k = Some k' \<and> blanked {i} k k'"
    if "i \<in> set [b - int p..b - 1]" "base_ok k" "keeps h k" "shape (gl h) (gl k)" for i k
    by (rule blank_next_line [OF that(2)]) (use that assms(2) in \<open>simp add: shape_simps\<close>)
  then obtain k where k: "fold_opt ?F [b - int p..b - 1] h = Some k"
    "blanked ((\<lambda>i. i) ` set [b - int p..b - 1]) h k"
    using blank_loop [of "[b - int p..b - 1]" h ?F "\<lambda>i. i" h] assms(1) by auto
  then have "base_ok k" by (simp add: blanked_def)
  then obtain g' where "recalc_stable_row_bounds k = Some g'" "blanked {} k g'"
    using recalc_blanks by blast
  with k blanked_trans [OF k(2), of "{}" g'] show ?thesis by simp
qed

lemma scroll_up_inner:
  assumes "base_ok g" "0 < a" "a + int p < b" "b \<le> int (screen_lines g)" "0 < p"
  shows "\<exists>g'. scroll_up (a, b) p g = Some g' \<and> base_ok g' \<and>
    keeps (g\<lparr>display_offset := display_offset g'\<rparr>) g' \<and> history_size g' = history_size g \<and>
    display_offset g' =
      (if display_offset g \<noteq> 0 then min (display_offset g + p) (max_scroll_limit g) else display_offset g) \<and>
    scrolled_up (a, b) p g g'"
proof -
  define g0 where "g0 = (if display_offset g \<noteq> 0
    then g\<lparr>display_offset := min (display_offset g + p) (max_scroll_limit g)\<rparr> else g)"
  have g: "base_ok g0" "gl g0 = gl g" "screen_lines g0 = screen_lines g" "blank_row g0 = blank_row g"
    "len (raw g0) = len (raw g)"
    using assms(1) by (simp_all add: blank_row_def g0_def)
  define n where "n = nat (b - int p - a)"
  have n: "a + int n - 1 = b - int p - 1" "a + int n = b - int p" using assms(3) by (simp_all add: n_def)
  have lines: "has_line (gl g) l" if "0 \<le> l" "l < b" for l
    using that assms(4) by (simp add: has_line_gl [OF assms(1)])
  obtain h where h: "fold_opt (\<lambda>i. raw_do (Swap i (i + int p))) [a..b - int p - 1] g0 = Some h"
    "keeps g0 h" "base_ok h" "moved_up (gl g) a n p (gl h)"
    using swap_up_grid [OF g(1), of a n p, unfolded n(1) g(2)] lines assms(2,5) n(2) by auto
  then have sh: "shape (gl g) (gl h)" by (simp add: moved_up_def)
  obtain g' where g': "fold_opt reset_line [b - int p..b - 1] h = Some g'" "blanked {b - int p..b - 1} h g'"
    using scroll_up_tail [OF h(3), of b p False "\<lambda>i. i"] lines sh assms(2,3)
    by (auto simp: shape_simps)
  have "\<not> full_region (a, b) g" using assms(2) by (simp add: full_region_def)
  then have step: "scroll_up (a, b) p g = Some g'"
    using assms(2,3) h(1) g'(1) by (simp add: scroll_up_def Let_def g0_def split: if_splits)
  have k: "keeps g0 g'" using g'(2) h(2) keeps_trans by (auto simp: blanked_def)
  have "scrolled_up (a, b) p g g'"
    unfolding scrolled_up_def Let_def split
  proof (intro allI impI)
    fix l assume "has_line (gl g') l"
    then have l: "has_line (gl g) l" "has_line (gl h) l" using sh g'(2) by (auto simp: blanked_def shape_simps)
    have "row_of (gl g') l = (if b - int p \<le> l \<and> l < b then blank_row g else row_of (gl h) l)"
      using g'(2) l(2) keepsD(7) [OF h(2)] g(4) by (auto simp: blanked_def)
    then show "row_of (gl g') l =
        (if b - int p \<le> l \<and> l < b then blank_row g
         else if (a = 0 \<or> a \<le> l) \<and> l < b then row_of (gl g) (l + int p) else row_of (gl g) l)"
      using h(4) l(1) n assms(2,3) by (auto simp: moved_up_def)
  qed
  moreover have "history_size g' = history_size g"
  proof -
    have "shape (gl g) (gl g')" using sh g'(2) shape_trans by (auto simp: blanked_def)
    then show ?thesis using keepsD(3) [OF k] g(3) by (simp add: history_size_def shape_def)
  qed
  moreover have "display_offset g' = display_offset g0" using keepsD(4) [OF k] .
  moreover have "keeps (g\<lparr>display_offset := display_offset g'\<rparr>) g'"
    using keepsD [OF k] by (intro keepsI) (auto simp: g0_def)
  ultimately show ?thesis using step g'(2) by (auto simp: blanked_def g0_def)
qed

lemma scroll_up_top:
  assumes "base_ok g" "history_size g \<le> max_scroll_limit g" "b \<le> int (screen_lines g)" "0 < p" "int p \<le> b"
  shows "\<exists>g'. scroll_up (0, b) p g = Some g' \<and> base_ok g' \<and>
    keeps (g\<lparr>display_offset := display_offset g'\<rparr>) g' \<and>
    history_size g' = min (history_size g + p) (max_scroll_limit g) \<and>
    display_offset g' =
      (if display_offset g \<noteq> 0 then min (display_offset g + p) (max_scroll_limit g) else display_offset g) \<and>
    scrolled_up (0, b) p g g'"
proof -
  define g0 where "g0 = (if display_offset g \<noteq> 0
    then g\<lparr>display_offset := min (display_offset g + p) (max_scroll_limit g)\<rparr> else g)"
  have g: "base_ok g0" "gl g0 = gl g" "screen_lines g0 = screen_lines g" "blank_row g0 = blank_row g"
    "history_size g0 = history_size g" "max_scroll_limit g0 = max_scroll_limit g"
    using assms(1) by (simp_all add: blank_row_def g0_def history_size_def)
  define n where "n = nat (int (screen_lines g) - b)"
  have n: "int (screen_lines g) - int n = b" using assms(3) by (simp add: n_def)
  obtain g1 where g1: "increase_scroll_limit p g0 = Some g1" "keeps g0 g1" "base_ok g1"
    "history_size g1 = min (history_size g + p) (max_scroll_limit g)"
    "\<And>l. has_line (gl g) l \<Longrightarrow> ent (gl g1) l = ent (gl g) l"
    using increase_eq [OF g(1), of p] assms(2) g by auto
  have sl: "screen_lines g1 = screen_lines g" using keepsD(3) [OF g1(2)] g(3) by simp
  obtain g2 where g2: "raw_do (Rotate (- int p)) g1 = Some g2" "keeps g1 g2" "base_ok g2" "shape (gl g1) (gl g2)"
    "\<And>l. has_line (gl g1) l \<Longrightarrow> l + int p < int (screen_lines g) \<Longrightarrow> ent (gl g2) l = ent (gl g1) (l + int p)"
    using rotate_grid [OF g1(3), of p] sl assms(3,5) by auto
  have sl2: "screen_lines g2 = screen_lines g" using keepsD(3) [OF g2(2)] sl by simp
  have lines: "has_line (gl g2) l" if "0 \<le> l" "l < int (screen_lines g)" for l
    using that sl2 by (simp add: has_line_gl [OF g2(3)])
  obtain h where h: "fold_opt (\<lambda>i. raw_do (Swap i (i - int p))) (rev [b..int (screen_lines g) - 1]) g2 = Some h"
    "keeps g2 h" "base_ok h" "moved_down (gl g2) (int (screen_lines g)) n p (gl h)"
    using swap_down_grid [OF g2(3), of "int (screen_lines g)" n p, unfolded n] lines assms(4,5) by auto
  then have sh: "shape (gl g2) (gl h)" by (simp add: moved_down_def)
  have lines': "\<And>l. b - int p \<le> l \<Longrightarrow> l < b \<Longrightarrow> has_line (gl h) l"
    using lines sh assms(3,5) by (simp add: shape_simps)
  define asg where "asg = full_region (0, b) g"
  obtain g' where g': "(do {
       k \<leftarrow> fold_opt (\<lambda>i k. do {
              k \<leftarrow> reset_line i k;
              if asg then let k = k\<lparr>stable_row_max := sat64 (stable_row_max k + 1)\<rparr>
                          in raw_do (Set_Id i (stable_row_max k)) k
              else Some k }) [b - int p..b - 1] h;
       if asg then recalc_stable_row_bounds k else Some k }) = Some g'"
    "blanked {b - int p..b - 1} h g'"
    using scroll_up_tail [OF h(3) lines', where assign = asg and f = "\<lambda>i. sat64 (i + 1)"] by blast
  have if0: "(if 0 < display_offset g
    then g\<lparr>display_offset := min (display_offset g + p) (max_scroll_limit g)\<rparr> else g) = g0"
    by (simp add: g0_def)
  have step: "scroll_up (0, b) p g = Some g'"
    using g1(1) g2(1) h(1) g'(1)
    by (simp add: scroll_up_def asg_def [symmetric] if0 sl2)
  have k: "keeps g0 g'" using g'(2) h(2) g2(2) g1(2) keeps_trans by (meson blanked_def)
  have "scrolled_up (0, b) p g g'"
    unfolding scrolled_up_def Let_def split
  proof (intro allI impI)
    fix l assume "has_line (gl g') l"
    then have l: "has_line (gl g1) l" "has_line (gl g2) l" "has_line (gl h) l"
      using sh g'(2) g2(4) by (auto simp: blanked_def shape_simps)
    have "row_of (gl g') l = (if b - int p \<le> l \<and> l < b then blank_row g else row_of (gl h) l)"
      using g'(2) l(3) keepsD(7) [OF h(2)] keepsD(7) [OF g2(2)] keepsD(7) [OF g1(2)] g(4)
      by (auto simp: blanked_def)
    then show "row_of (gl g') l =
        (if b - int p \<le> l \<and> l < b then blank_row g
         else if ((0::int) = 0 \<or> 0 \<le> l) \<and> l < b then row_of (gl g) (l + int p) else row_of (gl g) l)"
    proof -
      have "row_of (gl h) l = row_of (gl g) (l + int p)" if "l < b - int p"
      proof -
        have "has_line (gl g) (l + int p)"
          using l(1) that g1(4) sl assms(3) by (auto simp: has_line_gl [OF g1(3)] has_line_gl [OF assms(1)])
        moreover have "row_of (gl h) l = row_of (gl g2) l"
          using h(4) l(2) that n by (auto simp: moved_down_def)
        ultimately show ?thesis
          using g2(5) [OF l(1)] g1(5) that assms(3) by simp
      qed
      moreover have "row_of (gl h) l = row_of (gl g) l" if "b \<le> l"
      proof -
        have le: "l < int (screen_lines g)" using l(1) sl by (simp add: has_line_gl [OF g1(3)])
        have "has_line (gl g) l" "has_line (gl g1) (l - int p)"
          using le that assms(4,5) sl by (simp_all add: has_line_gl [OF assms(1)] has_line_gl [OF g1(3)])
        moreover have "row_of (gl h) l = row_of (gl g2) (l - int p)"
          using h(4) l(2) le that n by (auto simp: moved_down_def)
        ultimately show ?thesis
          using g2(5) [of "l - int p"] g1(5) le by simp
      qed
      ultimately show ?thesis using \<open>row_of (gl g') l = _\<close> by auto
    qed
  qed
  moreover have "history_size g' = history_size g1"
  proof -
    have "shape (gl g1) (gl g')" using sh g'(2) g2(4) shape_trans by (meson blanked_def)
    then show ?thesis using keepsD(3) [OF k] g(3) sl by (simp add: history_size_def shape_def)
  qed
  moreover have "display_offset g' = display_offset g0" using keepsD(4) [OF k] .
  moreover have "keeps (g\<lparr>display_offset := display_offset g'\<rparr>) g'"
    using keepsD [OF k] by (intro keepsI) (auto simp: g0_def)
  ultimately show ?thesis using step g'(2) g1(4) by (auto simp: blanked_def g0_def)
qed

lemma scroll_up_clear:
  assumes "base_ok g" "a \<noteq> 0" "0 \<le> a" "b = a + int p" "b \<le> int (screen_lines g)"
  shows "\<exists>g'. scroll_up (a, b) p g = Some g' \<and> base_ok g' \<and> keeps g g' \<and>
    history_size g' = history_size g \<and> scrolled_up (a, b) p g g'"
proof -
  have "\<exists>h'. reset_line i h = Some h' \<and> blanked {i} h h'"
    if "i \<in> set [a..b - 1]" "base_ok h" "keeps g h" "shape (gl g) (gl h)" for i h
    using reset_line_blanks [OF that(2), of i] that assms(3,5)
    by (auto simp: shape_simps has_line_gl [OF assms(1)])
  then obtain g' where g': "fold_opt reset_line [a..b - 1] g = Some g'" "blanked ((\<lambda>i. i) ` set [a..b - 1]) g g'"
    using blank_loop [of "[a..b - 1]" g reset_line "\<lambda>i. i" g] assms(1) by auto
  have "scroll_up (a, b) p g = Some g'"
    using g'(1) assms(2,4) by (simp add: scroll_up_def)
  moreover have "history_size g' = history_size g"
    using g'(2) by (auto simp: blanked_def history_size_def shape_def dest: keepsD)
  moreover have "scrolled_up (a, b) p g g'"
    using g'(2) assms(2,4) by (auto simp: scrolled_up_def blanked_def shape_simps)
  ultimately show ?thesis using g'(2) by (auto simp: blanked_def)
qed

lemma list_swap_sym: "i < length xs \<Longrightarrow> j < length xs \<Longrightarrow> list_swap i j xs = list_swap j i xs"
  by (cases "i = j") (auto simp: list_swap_def list_update_swap)

text \<open>The same loop written from below: \<open>swap(i, i - p)\<close> for \<open>i\<close> in \<open>[s + p, s + n + p)\<close>.\<close>

lemma swap_up_grid_from_below:
  assumes "base_ok g" "\<And>l. s \<le> l \<Longrightarrow> l < s + int n + int p \<Longrightarrow> has_line (gl g) l" "0 < p"
  shows "\<exists>g'. fold_opt (\<lambda>i. raw_do (Swap i (i - int p))) [s + int p..s + int n + int p - 1] g = Some g' \<and>
    keeps g g' \<and> base_ok g' \<and> moved_up (gl g) s n p (gl g')"
proof -
  have wf: "storage_wf (raw g)" using assms(1) by (simp add: base_ok_def)
  let ?F = "\<lambda>i. lines_step cell_default (Swap i (i + int p))"
  let ?G = "\<lambda>i. lines_step cell_default (Swap i (i - int p))"
  have swap: "?G (i + int p) b = ?F i b" if "lines_wf b" for i b
    using that list_swap_sym [of "at b (i + int p)" "buf b" "at b i"] at_length [of b] by auto
  have keeps_wf: "lines_wf b'" if "lines_wf b" "?F i b = Some b'" for i b b'
    using that by (auto simp: lines_wf_def split: if_splits)
  have shift: "fold_opt ?G (map (\<lambda>i. i + int p) is) b = fold_opt ?F is b" if "lines_wf b" for "is" b
    using that
  proof (induction "is" arbitrary: b)
    case (Cons i "is")
    show ?case
    proof (cases "?F i b")
      case None
      then show ?thesis
        by (simp only: list.map fold_opt.simps swap [OF Cons.prems] Option.bind.simps)
    next
      case (Some c)
      then show ?thesis
        using Cons.IH [OF keeps_wf [OF Cons.prems Some]]
        by (simp only: list.map fold_opt.simps swap [OF Cons.prems] Option.bind.simps)
    qed
  qed simp
  have upto: "map (\<lambda>i. i + int p) [s..s + int n - 1] = [s + int p..s + int n + int p - 1]"
    by (rule nth_equalityI) auto
  obtain b where b: "fold_opt ?F [s..s + int n - 1] (gl g) = Some b" "moved_up (gl g) s n p b"
    using swap_up_loop [OF gl_wf [OF wf] assms(2,3)] by blast
  have "fold_opt ?G [s + int p..s + int n + int p - 1] (gl g) = Some b"
    using shift [OF gl_wf [OF wf], of "[s..s + int n - 1]"] b(1) unfolding upto by (rule trans)
  then obtain r where r: "fold_opt (\<lambda>i. raw_do (Swap i (i - int p))) [s + int p..s + int n + int p - 1] g = Some (g\<lparr>raw := r\<rparr>)"
    "storage_wf r" "lines_of r = b"
    using fold_raw_do [OF wf, of "\<lambda>i. Swap i (i - int p)"] by blast
  moreover have "base_ok (g\<lparr>raw := r\<rparr>)"
    using base_ok_shape [OF assms(1) r(2)] b(2) r(3) by (auto simp: moved_up_def)
  ultimately show ?thesis using b(2) by simp
qed

text \<open>The loops that blank the lines scrolled in, and the end of \<open>scroll_down\<close>.\<close>

lemma blank_lines:
  assumes "base_ok h" "\<And>i. i \<in> set is \<Longrightarrow> has_line (gl h) (line i)"
  shows "\<exists>g'. fold_opt (\<lambda>i g. do { g \<leftarrow> reset_line (line i) g;
      if assign then raw_do (Set_Id (line i) (v i g)) g else Some g }) is h = Some g' \<and> blanked (line ` set is) h g'"
proof -
  have "\<exists>k'. (do { k \<leftarrow> reset_line (line i) k;
      if assign then raw_do (Set_Id (line i) (v i k)) k else Some k }) = Some k' \<and> blanked {line i} k k'"
    if "i \<in> set is" "base_ok k" "keeps h k" "shape (gl h) (gl k)" for i k
    by (rule blank_line [OF that(2)]) (use that assms(2) in \<open>simp add: shape_simps\<close>)
  then show ?thesis
    using blank_loop [of "is" h _ line h] assms(1) by auto
qed

lemma finish_recalc:
  assumes "base_ok h"
  shows "\<exists>g'. (if assign then recalc_stable_row_bounds h else Some h) = Some g' \<and> blanked {} h g'"
  using recalc_blanks [OF assms] blanked_refl [OF assms] by simp

lemma history_keeps: "keeps g g' \<Longrightarrow> shape (gl g) (gl g') \<Longrightarrow> history_size g' = history_size g"
  by (simp add: history_size_def shape_def keepsD(3))

lemma scroll_down_history:
  assumes "base_ok g" "max_scroll_limit g \<noteq> 0" "0 \<le> a" "a + int p < b" "b \<le> int (screen_lines g)" "0 < p"
  shows "\<exists>g'. scroll_down (a, b) p g = Some g' \<and> base_ok g' \<and> keeps g g' \<and> shape (gl g) (gl g') \<and>
    scrolled_down (a, b) p g g'"
proof -
  define asg where "asg = full_region (a, b) g"
  define n where "n = nat (b - a - int p)"
  have n: "b - int n = a + int p" using assms(4) by (simp add: n_def)
  have lines: "has_line (gl g) l" if "0 \<le> l" "l < b" for l
    using that assms(5) by (simp add: has_line_gl [OF assms(1)])
  obtain g1 where g1: "fold_opt (\<lambda>i. raw_do (Swap i (i - int p))) (rev [a + int p..b - 1]) g = Some g1"
    "keeps g g1" "base_ok g1" "moved_down (gl g) b n p (gl g1)"
    using swap_down_grid [OF assms(1), of b n p, unfolded n] lines assms(3,6) by auto
  define g2 where "g2 = (if asg \<and> p \<noteq> 0 then g1\<lparr>stable_row_min := sat64 (stable_row_min g1 - int p)\<rparr> else g1)"
  have g2: "base_ok g2" "keeps g g2" "gl g2 = gl g1"
    using g1 keeps_trans [OF g1(2) keeps_raw(2)] by (simp_all add: g2_def)
  have sh: "shape (gl g) (gl g2)" using g1(4) g2(3) by (simp add: moved_down_def)
  obtain h where h: "fold_opt (\<lambda>i g. do { g \<leftarrow> reset_line i g;
      if asg then raw_do (Set_Id i (stable_row_min g + (i - a))) g else Some g }) (rev [a..a + int p - 1]) g2 = Some h"
    "blanked {a..a + int p - 1} g2 h"
    using blank_lines [OF g2(1), of "rev [a..a + int p - 1]" "\<lambda>i. i" asg "\<lambda>i g. stable_row_min g + (i - a)"]
      lines sh assms(3,4) by (auto simp: shape_simps)
  then obtain g' where g': "(if asg then recalc_stable_row_bounds h else Some h) = Some g'" "blanked {} h g'"
    using finish_recalc by (meson blanked_def)
  have b: "blanked {a..a + int p - 1} g2 g'" using blanked_trans [OF h(2) g'(2)] by simp
  have step: "scroll_down (a, b) p g = Some g'"
    using g1(1) h(1) g'(1) assms(2,4) by (simp add: scroll_down_def asg_def [symmetric] g2_def Let_def)
  have k: "keeps g g'" "shape (gl g) (gl g')"
    using b g2(2) sh keeps_trans shape_trans by (meson blanked_def)+
  have "scrolled_down (a, b) p g g'"
    unfolding scrolled_down_def Let_def split
  proof (intro allI impI)
    fix l assume l: "has_line (gl g) l"
    have "row_of (gl g') l = (if a \<le> l \<and> l < a + int p then blank_row g else row_of (gl g1) l)"
      using b l sh g2(3) keepsD(7) [OF g2(2)] by (auto simp: blanked_def shape_simps)
    moreover have "row_of (gl g1) l = (if a \<le> l \<and> l < b then row_of (gl g) (l - int p) else row_of (gl g) l)"
      if "\<not> (a \<le> l \<and> l < a + int p)"
      using g1(4) l that n assms(4) by (auto simp: moved_down_def)
    ultimately show "row_of (gl g') l = (if a \<le> l \<and> l < a + int p then blank_row g
        else if a \<le> l \<and> l < b then row_of (gl g) (l - int p) else row_of (gl g) l)"
      by auto
  qed
  then show ?thesis using step k b by (auto simp: blanked_def)
qed

lemma scroll_down_no_history:
  assumes "base_ok g" "max_scroll_limit g = 0" "history_size g = 0" "0 \<le> a" "a + int p < b"
    "b \<le> int (screen_lines g)" "0 < p"
  shows "\<exists>g'. scroll_down (a, b) p g = Some g' \<and> base_ok g' \<and> keeps g g' \<and> shape (gl g) (gl g') \<and>
    scrolled_down (a, b) p g g'"
proof -
  define asg where "asg = full_region (a, b) g"
  define n where "n = nat (int (screen_lines g) - b)"
  have n: "b - int p + int n + int p = int (screen_lines g)" "int n = int (screen_lines g) - b"
    using assms(6) by (simp_all add: n_def)
  have lines: "has_line (gl g) l \<longleftrightarrow> 0 \<le> l \<and> l < int (screen_lines g)" for l
    using assms(3) by (auto simp: has_line_gl [OF assms(1)])
  obtain g1 where g1: "fold_opt (\<lambda>i. raw_do (Swap i (i - int p))) [b..int (screen_lines g) - 1] g = Some g1"
    "keeps g g1" "base_ok g1" "moved_up (gl g) (b - int p) n p (gl g1)"
    using swap_up_grid_from_below [OF assms(1), of "b - int p" n p, unfolded n(1)] lines assms(4,5,7) by auto
  then have sh1: "shape (gl g) (gl g1)" by (simp add: moved_up_def)
  obtain g2 where g2: "raw_do (Rotate_Down p) g1 = Some g2" "keeps g1 g2" "base_ok g2" "shape (gl g1) (gl g2)"
    "\<And>l. has_line (gl g1) l \<Longrightarrow> has_line (gl g1) (l - int p) \<Longrightarrow> ent (gl g2) l = ent (gl g1) (l - int p)"
    using rotate_down_grid [OF g1(3), of p] by blast
  define g3 where "g3 = (if asg \<and> p \<noteq> 0 then g2\<lparr>stable_row_min := sat64 (stable_row_min g2 - int p)\<rparr> else g2)"
  have g3: "base_ok g3" "keeps g g3" "gl g3 = gl g2" "shape (gl g) (gl g3)"
    using g2 g1(2) sh1 keeps_trans shape_trans [OF sh1 g2(4)]
    by (auto simp: g3_def intro: keeps_trans [OF keeps_trans [OF g1(2) g2(2)] keeps_raw(2)])
  obtain h where h: "fold_opt (\<lambda>(k, i) g. do { g \<leftarrow> reset_line i g;
      if asg then raw_do (Set_Id i (stable_row_min g + int k)) g else Some g }) (enumerate 0 [0..int p - 1]) g3 = Some h"
    "blanked {0..int p - 1} g3 h"
    using blank_lines [OF g3(1), of "enumerate 0 [0..int p - 1]" snd asg "\<lambda>i g. stable_row_min g + int (fst i)"]
      lines g3(4) assms(4,5,6)
    by (auto simp: shape_simps case_prod_beta' in_set_enumerate_eq set_map [symmetric] simp del: set_map)
  have sh3: "shape (gl g) (gl h)" using h(2) g3(4) shape_trans by (meson blanked_def)
  have base_h: "base_ok h" using h(2) by (simp add: blanked_def)
  obtain g4 where g4: "fold_opt (\<lambda>i. raw_do (Swap i (i + int p))) [0..a - 1] h = Some g4"
    "keeps h g4" "base_ok g4" "moved_up (gl h) 0 (nat a) p (gl g4)"
    using swap_up_grid [OF base_h, of 0 "nat a" p] lines sh3 assms(4,5,6,7) by (auto simp: shape_simps)
  obtain g' where g': "(if asg then recalc_stable_row_bounds g4 else Some g4) = Some g'" "blanked {} g4 g'"
    using finish_recalc [OF g4(3)] by blast
  have step: "scroll_down (a, b) p g = Some g'"
    using g1(1) g2(1) h(1) g4(1) g'(1) assms(2,5)
    by (simp add: scroll_down_def asg_def [symmetric] g3_def Let_def)
  have k: "keeps g g'" "shape (gl g) (gl g')"
    using h(2) g'(2) g4(2,4) g3(2) sh3 keeps_trans shape_trans by (meson blanked_def moved_up_def)+
  have "scrolled_down (a, b) p g g'"
    unfolding scrolled_down_def Let_def split
  proof (intro allI impI)
    fix l assume l: "has_line (gl g) l"
    have up: "row_of (gl g1) m = (if b - int p \<le> m then row_of (gl g) (m + int p) else row_of (gl g) m)"
      if "0 \<le> m" "m < int (screen_lines g) - int p" for m
      using g1(4) that n(2) lines by (auto simp: moved_up_def)
    have rot: "row_of (gl h) m = (if m < int p then blank_row g else row_of (gl g1) (m - int p))"
      if "0 \<le> m" "m < int (screen_lines g)" for m
    proof -
      have "row_of (gl h) m = (if m < int p then blank_row g else row_of (gl g2) m)"
        using h(2) that lines g3(3,4) keepsD(7) [OF g3(2)] by (auto simp: blanked_def shape_simps)
      then show ?thesis
        using g2(5) [of m] that lines sh1 by (auto simp: shape_simps)
    qed
    have "row_of (gl g') l = row_of (gl g4) l"
      using g'(2) l sh3 g4(4) by (auto simp: blanked_def moved_up_def shape_simps)
    also have "row_of (gl g4) l = (if a \<le> l \<and> l < a + int p then blank_row g
        else if a \<le> l \<and> l < b then row_of (gl g) (l - int p) else row_of (gl g) l)"
    proof -
      have lh: "has_line (gl h) l" "0 \<le> l" "l < int (screen_lines g)"
        using l sh3 lines by (auto simp: shape_simps)
      consider "l < a" | "a \<le> l" "l < a + int p" | "a + int p \<le> l" by linarith
      then show ?thesis
      proof cases
        case 1
        then have "row_of (gl g4) l = row_of (gl h) (l + int p)"
          using g4(4) lh by (auto simp: moved_up_def)
        then show ?thesis using 1 rot [of "l + int p"] up [of l] lh assms(5,6) by auto
      next
        case 2
        have "\<exists>m. 0 \<le> m \<and> m < 0 + int p \<and> ent (gl g4) l = ent (gl h) m"
          using g4(4) [unfolded moved_up_def, THEN conjunct2, THEN conjunct2, THEN spec, of l] lh(1) 2 assms(4)
          by simp
        then obtain m where "0 \<le> m" "m < int p" "row_of (gl g4) l = row_of (gl h) m" by auto
        then show ?thesis using 2 rot [of m] assms(4,5,6) by auto
      next
        case 3
        then have "row_of (gl g4) l = row_of (gl h) l"
          using g4(4) lh assms(4) by (auto simp: moved_up_def)
        then show ?thesis using 3 rot [of l] up [of "l - int p"] lh assms(4,5) by auto
      qed
    qed
    finally show "row_of (gl g') l = (if a \<le> l \<and> l < a + int p then blank_row g
        else if a \<le> l \<and> l < b then row_of (gl g) (l - int p) else row_of (gl g) l)" .
  qed
  then show ?thesis using step k g'(2) by (auto simp: blanked_def)
qed

end
