(* ===== verification/GridOps.thy ===== *)
theory GridOps
  imports GridScroll
begin

text \<open>
  The operations of the grid as a whole: what each keeps of the grid's well-formedness, the
  events of a grid as a transition system, and the properties of scrolling, of the display offset
  and of stable row ids.
\<close>

section \<open>Well-formed grids\<close>

definition grid_wf :: "grid \<Rightarrow> bool" where
  "grid_wf g \<longleftrightarrow> base_ok g \<and> history_size g \<le> max_scroll_limit g"

definition region_ok :: "int \<times> int \<Rightarrow> nat \<Rightarrow> grid \<Rightarrow> bool" where
  "region_ok r p g \<longleftrightarrow> 0 \<le> fst r \<and> fst r < snd r \<and> snd r \<le> int (screen_lines g) \<and> 0 < p \<and> int p \<le> snd r - fst r"

lemma grid_wf_simps [simp]:
  "grid_wf (g\<lparr>display_offset := n\<rparr>) = grid_wf g" "grid_wf (g\<lparr>stable_row_min := i\<rparr>) = grid_wf g"
  "grid_wf (g\<lparr>stable_row_max := i\<rparr>) = grid_wf g" "grid_wf (g\<lparr>cursor := c\<rparr>) = grid_wf g"
  "grid_wf (g\<lparr>saved_cursor := c\<rparr>) = grid_wf g"
  by (simp_all add: grid_wf_def base_ok_def rows_ok_def history_size_def gl_def)

lemma base_ok_cursor [simp]:
  "base_ok (g\<lparr>cursor := c\<rparr>) = base_ok g" "base_ok (g\<lparr>saved_cursor := c\<rparr>) = base_ok g"
  by (simp_all add: base_ok_def rows_ok_def gl_def)

lemma history_size_simps [simp]:
  "history_size (g\<lparr>cursor := c\<rparr>) = history_size g" "history_size (g\<lparr>saved_cursor := c\<rparr>) = history_size g"
  "history_size (g\<lparr>display_offset := n\<rparr>) = history_size g"
  by (simp_all add: history_size_def)

lemma grid_wf_blanked: "grid_wf g \<Longrightarrow> blanked L g g' \<Longrightarrow> grid_wf g'"
  by (auto simp: grid_wf_def blanked_def history_keeps keepsD)

lemma grid_wf_keeps: "grid_wf g \<Longrightarrow> base_ok g' \<Longrightarrow> keeps g g' \<Longrightarrow> shape (gl g) (gl g') \<Longrightarrow> grid_wf g'"
  by (auto simp: grid_wf_def history_keeps keepsD)

lemma base_ok_raw:
  assumes "base_ok g" "storage_wf r" "visible_lines r = screen_lines g" "screen_lines g \<le> len r"
    and "fst ` set (buf (lines_of r)) \<subseteq> insert (row_new cell_default (columns g)) (fst ` set (buf (gl g)))"
  shows "base_ok (g\<lparr>raw := r\<rparr>)"
proof -
  have "row_ok cell_reset (row_new cell_default (columns g))" "length (cells (row_new cell_default (columns g))) = columns g"
    by (rule cell.row_ok_new) (simp add: row_new_def)
  then have "rows_ok (g\<lparr>raw := r\<rparr>)"
    using assms(1,5) by (fastforce simp: base_ok_def rows_ok_def)
  then show ?thesis using assms by (simp add: base_ok_def)
qed

section \<open>Each operation keeps it\<close>

lemma shrink_history_ok:
  assumes "base_ok g" "k \<le> history_size g"
  shows "\<exists>g'. raw_do (Shrink_Lines k) g = Some g' \<and> base_ok g' \<and> keeps g g' \<and> history_size g' = history_size g - k \<and>
    stable_row_min g' = stable_row_min g \<and> stable_row_max g' = stable_row_max g"
proof -
  have wf: "storage_wf (raw g)" and le: "screen_lines g \<le> len (raw g)" using assms(1) by (simp_all add: base_ok_def)
  have k: "k \<le> len (raw g)" "screen_lines g \<le> len (raw g) - k"
    using assms(2) le by (simp_all add: history_size_def)
  let ?b = "drop_spare ((gl g)\<lparr>used := used (gl g) - k\<rparr>)"
  obtain r where r: "raw_do (Shrink_Lines k) g = Some (g\<lparr>raw := r\<rparr>)" "storage_wf r" "lines_of r = ?b"
    using raw_do_eq [OF wf, of "Shrink_Lines k"] k(1) by auto
  have "len r = len (raw g) - k" "visible_lines r = visible_lines (raw g)"
    using arg_cong [OF r(3), of used] arg_cong [OF r(3), of shown] by (simp_all add: drop_spare_def)
  moreover have "set (buf (lines_of r)) \<subseteq> set (buf (gl g))"
    unfolding r(3) by (auto simp: drop_spare_def dest: in_set_takeD)
  ultimately have "base_ok (g\<lparr>raw := r\<rparr>)"
    using base_ok_raw [OF assms(1) r(2)] k(2) assms(1) by (auto simp: base_ok_def)
  then show ?thesis
    using r(1) \<open>len r = len (raw g) - k\<close> by (simp add: history_size_def)
qed

lemma recalc_ok:
  assumes "base_ok g"
  shows "\<exists>g'. recalc_stable_row_bounds g = Some g' \<and> base_ok g' \<and> keeps g g' \<and> history_size g' = history_size g"
  using recalc_blanks [OF assms] by (auto simp: blanked_def history_keeps)

lemma update_history_wf:
  assumes "grid_wf g"
  shows "\<exists>g'. update_history n g = Some g' \<and> grid_wf g' \<and> display_offset g' \<le> n \<and> max_scroll_limit g' = n \<and>
    screen_lines g' = screen_lines g \<and> columns g' = columns g \<and> cursor g' = cursor g \<and>
    saved_cursor g' = saved_cursor g"
proof -
  have b: "base_ok g" using assms by (simp add: grid_wf_def)
  obtain g1 where g1: "(if history_size g > n then raw_do (Shrink_Lines (history_size g - n)) g else Some g) = Some g1"
    "base_ok g1" "history_size g1 \<le> n" "keeps g g1"
  proof (cases "history_size g > n")
    case True
    then obtain g' where "raw_do (Shrink_Lines (history_size g - n)) g = Some g'" "base_ok g'"
        "history_size g' = history_size g - (history_size g - n)" "keeps g g'"
      using shrink_history_ok [OF b, of "history_size g - n"] by auto
    then show thesis using True that [of g'] by simp
  qed (use b that [of g] in auto)
  let ?g = "g1\<lparr>display_offset := min (display_offset g1) n, max_scroll_limit := n\<rparr>"
  have "base_ok ?g" using g1(2) by (simp add: base_ok_def rows_ok_def gl_def)
  then obtain g' where "recalc_stable_row_bounds ?g = Some g'" "base_ok g'" "keeps ?g g'" "history_size g' = history_size ?g"
    using recalc_ok by blast
  moreover have "history_size ?g = history_size g1" by (simp add: history_size_def)
  ultimately show ?thesis
    using g1 by (auto simp: update_history_def grid_wf_def keepsD)
qed

lemma clear_history_wf:
  assumes "grid_wf g"
  shows "\<exists>g'. clear_history g = Some g' \<and> grid_wf g' \<and> history_size g' = 0 \<and> display_offset g' = 0 \<and>
    screen_lines g' = screen_lines g \<and> columns g' = columns g \<and> cursor g' = cursor g \<and>
    saved_cursor g' = saved_cursor g"
proof -
  have b: "base_ok g" using assms by (simp add: grid_wf_def)
  obtain g1 where g1: "raw_do (Shrink_Lines (history_size g)) g = Some g1" "base_ok g1" "keeps g g1" "history_size g1 = 0"
    using shrink_history_ok [OF b order.refl] by auto
  let ?g = "g1\<lparr>display_offset := 0\<rparr>"
  have "base_ok ?g" "history_size ?g = 0" using g1 by (simp_all add: history_size_def)
  then obtain g' where "recalc_stable_row_bounds ?g = Some g'" "base_ok g'" "keeps ?g g'" "history_size g' = 0"
    using recalc_ok [of ?g] by auto
  then show ?thesis
    using g1 by (auto simp: clear_history_def grid_wf_def keepsD)
qed

lemma reset_lines_blank:
  assumes "base_ok g" "\<And>l. l \<in> set ls \<Longrightarrow> has_line (gl g) l"
  shows "\<exists>g'. fold_opt reset_line ls g = Some g' \<and> blanked (set ls) g g'"
proof -
  have "\<exists>h'. reset_line i h = Some h' \<and> blanked {i} h h'"
    if "i \<in> set ls" "base_ok h" "keeps g h" "shape (gl g) (gl h)" for i h
    using reset_line_blanks [OF that(2), of i] that assms(2) by (auto simp: shape_simps)
  then show ?thesis
    using blank_loop [of ls g reset_line "\<lambda>i. i" g] assms(1) by auto
qed

lemma reset_region_wf:
  assumes "grid_wf g" "0 \<le> a" "a < int (screen_lines g)" "b \<le> int (screen_lines g)"
  shows "\<exists>g'. reset_region a b g = Some g' \<and> grid_wf g' \<and> blanked {a..b - 1} g g'"
proof -
  have b: "base_ok g" using assms(1) by (simp add: grid_wf_def)
  obtain g' where "fold_opt reset_line [a..b - 1] g = Some g'" "blanked (set [a..b - 1]) g g'"
    using reset_lines_blank [OF b, of "[a..b - 1]"] assms(2-4) by (auto simp: has_line_gl [OF b])
  then show ?thesis
    using assms(3,4) grid_wf_blanked [OF assms(1)] by (auto simp: reset_region_def)
qed

lemma id_loop:
  assumes "base_ok g" "\<And>i. i \<in> set is \<Longrightarrow> has_line (gl g) (f i)"
  shows "\<exists>g'. fold_opt (\<lambda>i. raw_do (Set_Id (f i) (v i))) is g = Some g' \<and> blanked {} g g'"
  using assms
proof (induction "is" arbitrary: g)
  case Nil
  then show ?case by (simp add: blanked_refl)
next
  case (Cons i "is")
  then obtain h where h: "raw_do (Set_Id (f i) (v i)) g = Some h" "blanked {} g h"
    using set_id_blanks [of g "f i" "v i"] by auto
  moreover obtain g' where "fold_opt (\<lambda>i. raw_do (Set_Id (f i) (v i))) is h = Some g'" "blanked {} h g'"
    using Cons.IH [of h] Cons.prems(2) h(2) by (auto simp: blanked_def shape_simps)
  ultimately show ?case using blanked_trans [of "{}" g h "{}" g'] by auto
qed

lemma grid_reset_wf:
  assumes "grid_wf g"
  shows "\<exists>g'. grid_reset g = Some g' \<and> grid_wf g' \<and> history_size g' = 0 \<and> display_offset g' = 0 \<and>
    (\<forall>l. 0 \<le> l \<longrightarrow> l < int (screen_lines g) \<longrightarrow>
       row_at g' l = Some (row_new cell_default (columns g))) \<and>
    screen_lines g' = screen_lines g \<and> columns g' = columns g \<and> cursor g' = cursor_default \<and>
    saved_cursor g' = cursor_default"
proof -
  obtain g1 where g1: "clear_history g = Some g1" "grid_wf g1" "history_size g1 = 0" "display_offset g1 = 0"
    "screen_lines g1 = screen_lines g" "columns g1 = columns g"
    using clear_history_wf [OF assms] by blast
  let ?g = "g1\<lparr>saved_cursor := cursor_default, cursor := cursor_default, display_offset := 0\<rparr>"
  have g: "grid_wf ?g" "base_ok ?g" "history_size ?g = 0" using g1(2,3) by (simp_all add: grid_wf_def history_size_def)
  then have lines: "has_line (gl ?g) l \<longleftrightarrow> 0 \<le> l \<and> l < int (screen_lines g)" for l
    using has_line_gl [OF g(2)] g1(5) by auto
  obtain h where h: "fold_opt reset_line [topmost_line ?g..int (screen_lines ?g) - 1] ?g = Some h"
    "blanked {0..int (screen_lines g) - 1} ?g h"
    using reset_lines_blank [OF g(2), of "[topmost_line ?g..int (screen_lines ?g) - 1]"] lines g(3) g1(5)
    by (auto simp: topmost_line_def)
  let ?h = "h\<lparr>stable_row_min := 0, stable_row_max := int (screen_lines h - 1)\<rparr>"
  have b: "blanked {0..int (screen_lines g) - 1} ?g ?h"
    using blanked_bounds(2) [OF blanked_bounds(1) [OF h(2)]] by simp
  then have hh: "base_ok ?h" "shape (gl ?g) (gl ?h)" "screen_lines ?h = screen_lines g"
    using g1(5) by (auto simp: blanked_def dest: keepsD)
  obtain g' where g': "fold_opt (\<lambda>i. raw_do (Set_Id (int i) (int i))) [0..<screen_lines ?h] ?h = Some g'" "blanked {} ?h g'"
    using id_loop [OF hh(1), of "[0..<screen_lines ?h]" int int] lines hh(2,3) by (auto simp: shape_simps)
  have bl: "blanked {0..int (screen_lines g) - 1} ?g g'" using blanked_trans [OF b g'(2)] by simp
  have "row_at g' l = Some (row_new cell_default (columns g))" if "0 \<le> l" "l < int (screen_lines g)" for l
  proof -
    have "base_ok g'" "has_line (gl g') l" using bl lines that by (auto simp: blanked_def shape_simps)
    then have "row_at g' l = Some (row_of (gl g') l)" by (rule row_at_eq)
    moreover have "row_of (gl g') l = blank_row ?g" using bl lines [of l] that by (auto simp: blanked_def)
    ultimately show ?thesis
      using g1(6) by (simp add: blank_row_def row_new_def cursor_default_def cell_default_def)
  qed
  moreover have "grid_reset g = Some g'"
    using g1(1) h(1) g'(1) by (simp add: grid_reset_def Let_def)
  moreover have "keeps ?g g'" "history_size g' = 0"
    using bl g(3) history_keeps [of ?g g'] by (auto simp: blanked_def)
  then have "display_offset g' = 0" "screen_lines g' = screen_lines g" "columns g' = columns g"
    "cursor g' = cursor_default" "saved_cursor g' = cursor_default"
    using keepsD [OF \<open>keeps ?g g'\<close>] g1(5,6) by simp_all
  ultimately show ?thesis using grid_wf_blanked [OF g(1) bl] \<open>history_size g' = 0\<close> by blast
qed

lemma scroll_up_eq:
  assumes "grid_wf g" "region_ok (a, b) p g"
  shows "\<exists>g'. scroll_up (a, b) p g = Some g' \<and> grid_wf g' \<and> scrolled_up (a, b) p g g' \<and>
    keeps (g\<lparr>display_offset := display_offset g'\<rparr>) g' \<and>
    history_size g' = (if a = 0 then min (history_size g + p) (max_scroll_limit g) else history_size g) \<and>
    display_offset g' = (if display_offset g = 0 \<or> a \<noteq> 0 \<and> b - a = int p then display_offset g
      else min (display_offset g + p) (max_scroll_limit g))"
proof -
  have g: "base_ok g" "history_size g \<le> max_scroll_limit g" using assms(1) by (simp_all add: grid_wf_def)
  have r: "0 \<le> a" "a < b" "b \<le> int (screen_lines g)" "0 < p" "int p \<le> b - a"
    using assms(2) by (simp_all add: region_ok_def)
  have wf: "grid_wf g'" if "base_ok g'" "keeps (g\<lparr>display_offset := n\<rparr>) g'" "history_size g' \<le> max_scroll_limit g"
    for g' n
    using that keepsD(5) [OF that(2)] by (simp add: grid_wf_def)
  consider "a = 0" | "a \<noteq> 0" "b - a = int p" | "0 < a" "a + int p < b" using r by linarith
  then show ?thesis
  proof cases
    case 1
    have "int p \<le> b" using r 1 by simp
    obtain g' where g': "scroll_up (0, b) p g = Some g'" "base_ok g'"
      "keeps (g\<lparr>display_offset := display_offset g'\<rparr>) g'"
      "history_size g' = min (history_size g + p) (max_scroll_limit g)"
      "display_offset g' = (if display_offset g \<noteq> 0 then min (display_offset g + p) (max_scroll_limit g) else display_offset g)"
      "scrolled_up (0, b) p g g'"
      using scroll_up_top [OF g r(3,4) \<open>int p \<le> b\<close>] by blast
    then show ?thesis using 1 wf [OF g'(2,3)] by (intro exI [of _ g']) simp
  next
    case 2
    have "b = a + int p" using 2(2) by simp
    obtain g' where g': "scroll_up (a, b) p g = Some g'" "base_ok g'" "keeps g g'"
      "history_size g' = history_size g" "scrolled_up (a, b) p g g'"
      using scroll_up_clear [OF g(1) 2(1) r(1) \<open>b = a + int p\<close> r(3)] by blast
    have "display_offset g' = display_offset g" by (rule keepsD(4) [OF g'(3)])
    then have "g\<lparr>display_offset := display_offset g'\<rparr> = g" by simp
    then have k: "keeps (g\<lparr>display_offset := display_offset g'\<rparr>) g'" using g'(3) by simp
    show ?thesis
      using 2 g' k wf [OF g'(2) k] g(2) \<open>display_offset g' = _\<close> by (intro exI [of _ g']) simp
  next
    case 3
    obtain g' where g': "scroll_up (a, b) p g = Some g'" "base_ok g'"
      "keeps (g\<lparr>display_offset := display_offset g'\<rparr>) g'" "history_size g' = history_size g"
      "display_offset g' = (if display_offset g \<noteq> 0 then min (display_offset g + p) (max_scroll_limit g) else display_offset g)"
      "scrolled_up (a, b) p g g'"
      using scroll_up_inner [OF g(1) 3 r(3,4)] by blast
    then show ?thesis using 3 wf [OF g'(2,3)] g(2) by (intro exI [of _ g']) auto
  qed
qed

lemma scroll_down_clear:
  assumes "base_ok g" "0 \<le> a" "b = a + int p" "b \<le> int (screen_lines g)"
  shows "\<exists>g'. scroll_down (a, b) p g = Some g' \<and> base_ok g' \<and> keeps g g' \<and> shape (gl g) (gl g') \<and>
    scrolled_down (a, b) p g g'"
proof -
  obtain g' where g': "fold_opt reset_line [a..b - 1] g = Some g'" "blanked (set [a..b - 1]) g g'"
    using reset_lines_blank [OF assms(1), of "[a..b - 1]"] assms(2,4) by (auto simp: has_line_gl [OF assms(1)])
  then have "scrolled_down (a, b) p g g'"
    using assms(3) by (auto simp: scrolled_down_def blanked_def)
  then show ?thesis using g' assms(3) by (auto simp: scroll_down_def blanked_def)
qed

lemma scroll_down_eq:
  assumes "grid_wf g" "region_ok (a, b) p g"
  shows "\<exists>g'. scroll_down (a, b) p g = Some g' \<and> grid_wf g' \<and> scrolled_down (a, b) p g g' \<and>
    keeps g g' \<and> history_size g' = history_size g"
proof -
  have g: "base_ok g" "history_size g \<le> max_scroll_limit g" using assms(1) by (simp_all add: grid_wf_def)
  have r: "0 \<le> a" "a < b" "b \<le> int (screen_lines g)" "0 < p" "int p \<le> b - a"
    using assms(2) by (simp_all add: region_ok_def)
  have "\<exists>g'. scroll_down (a, b) p g = Some g' \<and> base_ok g' \<and> keeps g g' \<and> shape (gl g) (gl g') \<and>
      scrolled_down (a, b) p g g'"
  proof (cases "b = a + int p")
    case True
    then show ?thesis using scroll_down_clear [OF g(1) r(1) True r(3)] by blast
  next
    case False
    then have lt: "a + int p < b" using r(5) by linarith
    show ?thesis
    proof (cases "max_scroll_limit g = 0")
      case True
      then show ?thesis using scroll_down_no_history [OF g(1) True _ r(1) lt r(3,4)] g(2) by simp
    next
      case False
      then show ?thesis using scroll_down_history [OF g(1) False r(1) lt r(3,4)] by blast
    qed
  qed
  then show ?thesis using grid_wf_keeps [OF assms(1)] history_keeps by blast
qed

lemma decrease_wf:
  assumes "grid_wf g"
  shows "\<exists>g'. decrease_scroll_limit n g = Some g' \<and> grid_wf g'"
proof -
  have b: "base_ok g" using assms by (simp add: grid_wf_def)
  define k where "k = min n (history_size g)"
  show ?thesis
  proof (cases "k = 0")
    case True
    then show ?thesis using assms by (simp add: decrease_scroll_limit_def k_def [symmetric] Let_def)
  next
    case False
    have min: "min k (history_size g) = k" by (simp add: k_def)
    obtain g' where "raw_do (Shrink_Lines k) g = Some g'" "base_ok g'" "keeps g g'" "history_size g' = history_size g - k"
      using shrink_history_ok [OF b, of k] by (auto simp: k_def)
    then show ?thesis
      using False assms min unfolding decrease_scroll_limit_def Let_def k_def [symmetric]
      by (auto simp: grid_wf_def keepsD)
  qed
qed

lemma grow_visible_ok:
  assumes "base_ok g" "screen_lines g \<le> n"
  shows "\<exists>g'. raw_do (Grow_Visible n) g = Some g' \<and> keeps g g' \<and> base_ok (g'\<lparr>screen_lines := n\<rparr>) \<and>
    history_size (g'\<lparr>screen_lines := n\<rparr>) = history_size g"
proof -
  have wf: "storage_wf (raw g)" and v: "visible_lines (raw g) = screen_lines g" "screen_lines g \<le> len (raw g)"
    using assms(1) by (simp_all add: base_ok_def)
  have h0: "has_line (gl g) 0" using assms(1) by (simp add: has_line_gl [OF assms(1)] base_ok_def)
  have "row_of (gl g) 0 \<in> fst ` set (buf (gl g))" by (rule row_in_buf [OF gl_wf [OF wf] h0])
  then have c: "length (cells (row_of (gl g) 0)) = columns g"
    using assms(1) by (auto simp: base_ok_def rows_ok_def)
  let ?b = "(add_lines cell_default (n - screen_lines g) (columns g) (gl g))\<lparr>shown := n\<rparr>"
  have step: "lines_step cell_default (Grow_Visible n) (gl g) = Some ?b"
    using h0 assms(2) v(1) c by (simp add: ent_def)
  obtain r where r: "raw_do (Grow_Visible n) g = Some (g\<lparr>raw := r\<rparr>)" "storage_wf r" "lines_of r = ?b"
    using raw_do_eq [OF wf step] by blast
  have len: "len r = len (raw g) + (n - screen_lines g)" "visible_lines r = n"
    using arg_cong [OF r(3), of used] arg_cong [OF r(3), of shown] by (simp_all add: add_lines_def)
  let ?g = "g\<lparr>raw := r, screen_lines := n\<rparr>"
  have "row_ok cell_reset (row_new cell_default (columns g))" "length (cells (row_new cell_default (columns g))) = columns g"
    by (rule cell.row_ok_new) (simp add: row_new_def)
  then have "rows_ok ?g"
    using assms(1) r(3) by (auto simp: base_ok_def rows_ok_def gl_def add_lines_def split: if_splits)
  then have "base_ok ?g" using assms(1) r(2) len v assms(2) by (simp add: base_ok_def)
  moreover have "history_size ?g = history_size g" using len v assms(2) by (simp add: history_size_def)
  ultimately show ?thesis using r(1) by simp
qed

lemma move_cursors_simps [simp]:
  "base_ok (move_cursors f h g) = base_ok g" "grid_wf (move_cursors f h g) = grid_wf g"
  "screen_lines (move_cursors f h g) = screen_lines g" "history_size (move_cursors f h g) = history_size g"
  "columns (move_cursors f h g) = columns g" "max_scroll_limit (move_cursors f h g) = max_scroll_limit g"
  "gl (move_cursors f h g) = gl g" "raw (move_cursors f h g) = raw g"
  by (simp_all add: move_cursors_def base_ok_def grid_wf_def rows_ok_def history_size_def gl_def)

lemma grow_lines_wf:
  assumes "grid_wf g" "screen_lines g \<le> n"
  shows "\<exists>g'. grow_lines n g = Some g' \<and> grid_wf g'"
proof -
  have b: "base_ok g" using assms(1) by (simp add: grid_wf_def)
  obtain g0 where g0: "raw_do (Grow_Visible n) g = Some g0" "keeps g g0" "base_ok (g0\<lparr>screen_lines := n\<rparr>)"
    "history_size (g0\<lparr>screen_lines := n\<rparr>) = history_size g"
    using grow_visible_ok [OF b assms(2)] by blast
  define k where "k = n - screen_lines g"
  define g1 where "g1 = g0\<lparr>screen_lines := n\<rparr>"
  define h where "h = min (history_size g1) k"
  have wf1: "grid_wf g1" and sl: "screen_lines g1 = n"
    using g0(3,4) assms(1) keepsD(5) [OF g0(2)] by (simp_all add: grid_wf_def g1_def)
  obtain g2 where g2: "(if h \<noteq> k then scroll_up (0, int n) (k - h) g1 else Some g1) = Some g2" "grid_wf g2"
  proof (cases "h = k")
    case True
    then show thesis using wf1 that by simp
  next
    case False
    then have "region_ok (0, int n) (k - h) g1"
      using b sl by (auto simp: region_ok_def base_ok_def h_def k_def)
    then obtain g' where "scroll_up (0, int n) (k - h) g1 = Some g'" "grid_wf g'"
      using scroll_up_eq [OF wf1] by blast
    then show thesis using False that by simp
  qed
  define g3 where "g3 = move_cursors (\<lambda>l. l + int h) (\<lambda>l. l + int h) g2"
  have "grid_wf (g3\<lparr>display_offset := display_offset g3 - k\<rparr>)" using g2(2) by (simp add: g3_def)
  then obtain g' where g': "decrease_scroll_limit k (g3\<lparr>display_offset := display_offset g3 - k\<rparr>) = Some g'" "grid_wf g'"
    using decrease_wf by blast
  have "grow_lines n g = Some g'"
    unfolding grow_lines_def Let_def checked_sub_Some [OF assms(2)] Option.bind.simps g0(1)
      g1_def [symmetric] k_def [symmetric] h_def [symmetric] g2(1) g3_def [symmetric] by (rule g'(1))
  then show ?thesis using g'(2) by blast
qed

lemma shrink_visible_ok:
  assumes "base_ok g" "0 < n" "n \<le> screen_lines g"
  shows "\<exists>g1 g2. raw_do (Rotate (int (screen_lines g - n))) g = Some g1 \<and>
    raw_do (Shrink_Visible n) g1 = Some g2 \<and> keeps g g2 \<and> base_ok (g2\<lparr>screen_lines := n\<rparr>) \<and>
    history_size (g2\<lparr>screen_lines := n\<rparr>) = history_size g"
proof -
  have wf: "storage_wf (raw g)" and v: "visible_lines (raw g) = screen_lines g" "screen_lines g \<le> len (raw g)"
    using assms(1) by (simp_all add: base_ok_def)
  let ?k = "screen_lines g - n"
  let ?xs = "rotate (nat (int ?k mod int (length (buf (gl g))))) (buf (gl g))"
  have ne: "buf (gl g) \<noteq> []" "?k \<le> length (buf (gl g))"
    using gl_wf [OF wf] v assms(2,3) by (auto simp: lines_wf_def)
  obtain r where r: "raw_do (Rotate (int ?k)) g = Some (g\<lparr>raw := r\<rparr>)" "storage_wf r"
    "lines_of r = (gl g)\<lparr>buf := ?xs\<rparr>"
    using raw_do_eq [OF wf, of "Rotate (int ?k)"] ne by auto
  let ?g1 = "g\<lparr>raw := r\<rparr>"
  have len1: "len r = len (raw g)" "visible_lines r = screen_lines g"
    using arg_cong [OF r(3), of used] arg_cong [OF r(3), of shown] v by simp_all
  let ?b = "(drop_spare ((gl ?g1)\<lparr>used := len r - ?k\<rparr>))\<lparr>shown := n\<rparr>"
  have "lines_step cell_default (Shrink_Visible n) (gl ?g1) = Some ?b"
    using assms(3) v len1 by simp
  then obtain r2 where r2: "raw_do (Shrink_Visible n) ?g1 = Some (?g1\<lparr>raw := r2\<rparr>)" "storage_wf r2" "lines_of r2 = ?b"
    using raw_do_eq [of ?g1 "Shrink_Visible n" ?b] r(2) by auto
  have len: "len r2 = len (raw g) - ?k" "visible_lines r2 = n"
    using arg_cong [OF r2(3), of used] arg_cong [OF r2(3), of shown] len1 by (simp_all add: drop_spare_def)
  have sub: "set (buf (lines_of r2)) \<subseteq> set (buf (gl g))"
    unfolding r2(3) by (auto simp: drop_spare_def r(3) dest: in_set_takeD)
  let ?g = "g\<lparr>raw := r2, screen_lines := n\<rparr>"
  have "rows_ok ?g" using assms(1) sub by (auto simp: base_ok_def rows_ok_def gl_def)
  then have "base_ok ?g" using assms r2(2) len v by (auto simp: base_ok_def)
  moreover have "history_size ?g = history_size g" using len v assms(3) by (simp add: history_size_def)
  ultimately show ?thesis using r(1) r2(1) by (auto intro!: keepsI)
qed

lemma shrink_screen_lines_wf:
  assumes "grid_wf g" "0 < n" "n \<le> screen_lines g"
    and "0 \<le> pt_line (point (cursor g))" "pt_line (point (cursor g)) < int (screen_lines g)"
  shows "\<exists>g'. shrink_screen_lines n g = Some g' \<and> grid_wf g'"
proof -
  define p where "p = nat (pt_line (point (cursor g))) + 1 - n"
  define f where "f = move_cursors (\<lambda>l. min l (int n - 1)) (\<lambda>l. l)"
  obtain g1 where g1: "(if p > 0 then map_option f (scroll_up (0, int (screen_lines g)) p g) else Some g) = Some g1"
    "grid_wf g1" "screen_lines g1 = screen_lines g"
  proof (cases "p > 0")
    case True
    then have "region_ok (0, int (screen_lines g)) p g"
      using assms by (auto simp: region_ok_def grid_wf_def base_ok_def p_def)
    then obtain g' where "scroll_up (0, int (screen_lines g)) p g = Some g'" "grid_wf g'"
      "keeps (g\<lparr>display_offset := display_offset g'\<rparr>) g'"
      using scroll_up_eq [OF assms(1)] by blast
    then show thesis using True that [of "f g'"] keepsD(3) by (fastforce simp: f_def)
  qed (use assms(1) that in simp)
  define g2 where "g2 = move_cursors (\<lambda>l. l) (\<lambda>l. min l (int n - 1)) g1"
  have "base_ok g2" "n \<le> screen_lines g2" "screen_lines g2 = screen_lines g"
    using g1(2,3) assms(3) by (simp_all add: grid_wf_def g2_def)
  then obtain g3 g4 where g4: "raw_do (Rotate (int (screen_lines g - n))) g2 = Some g3"
    "raw_do (Shrink_Visible n) g3 = Some g4" "keeps g2 g4" "base_ok (g4\<lparr>screen_lines := n\<rparr>)"
    "history_size (g4\<lparr>screen_lines := n\<rparr>) = history_size g2"
    using shrink_visible_ok [of g2 n] assms(2) by auto
  then have "grid_wf (g4\<lparr>screen_lines := n\<rparr>)"
    using g1(2) keepsD(5) [OF g4(3)] by (simp add: grid_wf_def g2_def)
  moreover have "shrink_screen_lines n g = Some (g4\<lparr>screen_lines := n\<rparr>)"
    unfolding shrink_screen_lines_def Let_def checked_sub_Some [OF assms(3)] Option.bind.simps
      p_def [symmetric] f_def [symmetric] g1(1) g2_def [symmetric] g4(1,2) ..
  ultimately show ?thesis by blast
qed

lemma cell_at_eq:
  assumes "base_ok g" "has_line (gl g) (pt_line p)" "pt_column p < columns g"
  shows "\<exists>c. cell_at g p = Some c"
proof -
  have "row_of (gl g) (pt_line p) \<in> fst ` set (buf (gl g))"
    using row_in_buf [OF gl_wf assms(2)] assms(1) by (simp add: base_ok_def)
  then have "length (cells (row_of (gl g) (pt_line p))) = columns g"
    using assms(1) by (auto simp: base_ok_def rows_ok_def)
  then show ?thesis using assms row_at_eq [OF assms(1,2)] by (simp add: cell_at_def)
qed

lemma set_cell_wf:
  assumes "grid_wf g" "has_line (gl g) (pt_line p)" "pt_column p < columns g"
  shows "\<exists>g'. set_cell p c g = Some g' \<and> grid_wf g' \<and> cell_at g' p = Some c"
proof -
  have b: "base_ok g" and wf: "storage_wf (raw g)" using assms(1) by (simp_all add: grid_wf_def base_ok_def)
  let ?l = "pt_line p"
  let ?r = "row_of (gl g) ?l"
  have "?r \<in> fst ` set (buf (gl g))" by (rule row_in_buf [OF gl_wf [OF wf] assms(2)])
  then have r: "row_ok cell_reset ?r" "length (cells ?r) = columns g"
    using b by (auto simp: base_ok_def rows_ok_def)
  obtain r' where r': "row_set (pt_column p) c ?r = Some r'" "length (cells r') = columns g" "cells r' ! pt_column p = c"
    using assms(3) r(2) by (simp add: row_set_def)
  note ok' = cell.row_ok_set [OF r(1) r'(1)]
  obtain b' where b': "lines_step cell_default (Update_Line (\<lambda>_. r') ?l) (gl g) = Some b'" "shape (gl g) b'"
    "fst ` set (buf b') \<subseteq> insert r' (fst ` set (buf (gl g)))" "row_of b' ?l = r'"
    using step_update [OF gl_wf [OF wf] assms(2), of cell_default "\<lambda>_. r'"] assms(2) by auto
  obtain s where s: "raw_do (Update_Line (\<lambda>_. r') ?l) g = Some (g\<lparr>raw := s\<rparr>)" "storage_wf s" "lines_of s = b'"
    using raw_do_eq [OF wf b'(1)] by blast
  let ?g = "g\<lparr>raw := s\<rparr>"
  have "rows_ok ?g" using b b'(3) r'(2) ok' s(3) by (fastforce simp: base_ok_def rows_ok_def)
  then have ok: "base_ok ?g" using b s b'(2) by (auto simp: base_ok_def shape_def)
  have sh: "shape (gl g) (gl ?g)" using b'(2) s(3) by simp
  have "row_at ?g ?l = Some r'"
    using row_at_eq [OF ok] assms(2) sh b'(4) s(3) by (simp add: shape_simps)
  then have "cell_at ?g p = Some c" using r'(2,3) assms(3) by (simp add: cell_at_def)
  moreover have "set_cell p c g = Some ?g"
    using row_at_eq [OF b assms(2)] r'(1) s(1) by (simp add: set_cell_def)
  ultimately show ?thesis using grid_wf_keeps [OF assms(1) ok _ sh] by simp
qed

lemma initialize_all_wf:
  assumes "grid_wf g"
  shows "\<exists>g'. initialize_all g = Some g' \<and> grid_wf g' \<and> history_size g' = max_scroll_limit g"
proof -
  have b: "base_ok g" and wf: "storage_wf (raw g)" using assms by (simp_all add: grid_wf_def base_ok_def)
  let ?b = "(gl g)\<lparr>buf := take (used (gl g)) (buf (gl g))\<rparr>"
  obtain r where r: "raw_do Truncate g = Some (g\<lparr>raw := r\<rparr>)" "storage_wf r" "lines_of r = ?b"
    using raw_do_eq [OF wf, of Truncate ?b] by auto
  have len: "len r = len (raw g)" "visible_lines r = visible_lines (raw g)"
    using arg_cong [OF r(3), of used] arg_cong [OF r(3), of shown] by simp_all
  let ?g = "g\<lparr>raw := r\<rparr>"
  have ok: "base_ok ?g"
    by (rule base_ok_raw [OF b r(2)]) (use b len r(3) in \<open>auto simp: base_ok_def dest: in_set_takeD\<close>)
  define k where "k = max_scroll_limit g - history_size g"
  let ?c = "add_lines cell_default k (columns g) (gl ?g)"
  obtain r2 where r2: "raw_do (Initialize k (columns g)) ?g = Some (?g\<lparr>raw := r2\<rparr>)" "storage_wf r2" "lines_of r2 = ?c"
    using raw_do_eq [of ?g "Initialize k (columns g)" ?c] r(2) by auto
  have len2: "len r2 = len (raw g) + k" "visible_lines r2 = visible_lines (raw g)"
    using arg_cong [OF r2(3), of used] arg_cong [OF r2(3), of shown] len by (simp_all add: add_lines_def)
  have "base_ok (?g\<lparr>raw := r2\<rparr>)"
    by (rule base_ok_raw [OF ok r2(2)]) (use b len2 r2(3) in \<open>auto simp: base_ok_def add_lines_def\<close>)
  moreover have "history_size (?g\<lparr>raw := r2\<rparr>) = history_size g + k"
    using len2 b by (simp add: history_size_def base_ok_def)
  moreover have "history_size ?g = history_size g" using len by (simp add: history_size_def)
  ultimately show ?thesis
    using assms r(1) r2(1) by (auto simp: initialize_all_def grid_wf_def k_def)
qed

lemma last_used_ok:
  assumes "base_ok g" "0 \<le> pt_line p" "pt_line p < int (screen_lines g)" "pt_column p \<le> columns g"
    and "nat (pt_line p) * columns g + pt_column p < n"
  shows "\<exists>q. last_used n g p = Some q \<and> -1 \<le> pt_line q \<and> pt_line q < int (screen_lines g)"
  using assms
proof (induction n arbitrary: p)
  case (Suc n)
  show ?case
  proof (cases "iter_prev g p")
    case None
    then show ?thesis using Suc.prems by simp
  next
    case (Some q)
    have less: "point_less \<lparr>pt_line = topmost_line g, pt_column = 0\<rparr> p"
      using Some by (simp add: iter_prev_def split: if_splits)
    have q: "q = (if pt_column p = 0 then \<lparr>pt_line = pt_line p - 1, pt_column = last_column g\<rparr>
        else p\<lparr>pt_column := pt_column p - 1\<rparr>)"
      using Some by (simp add: iter_prev_def split: if_splits)
    have col: "0 < columns g" using Suc.prems(1) by (simp add: base_ok_def)
    have "has_line (gl g) (pt_line q)"
      using Suc.prems less by (auto simp: has_line_gl q point_less_def topmost_line_def)
    moreover have "pt_column q < columns g"
      using Suc.prems(4) col by (auto simp: q last_column_def)
    ultimately obtain c where c: "cell_at g q = Some c" using cell_at_eq [OF Suc.prems(1)] by blast
    have lines: "-1 \<le> pt_line q" "pt_line q < int (screen_lines g)" using Suc.prems by (auto simp: q)
    show ?thesis
    proof (cases "\<not> cell_is_empty c \<or> pt_line q < 0")
      case True
      then show ?thesis using Some c lines by simp
    next
      case False
      have "nat (pt_line q) * columns g + pt_column q < nat (pt_line p) * columns g + pt_column p"
      proof (cases "pt_column p = 0")
        case True
        then have "nat (pt_line p) = Suc (nat (pt_line q))"
          using False Suc_nat_eq_nat_zadd1 [of "pt_line p - 1"] by (simp add: q)
        then show ?thesis using True col by (simp add: q last_column_def)
      qed (simp add: q)
      then have "\<exists>r. last_used n g q = Some r \<and> -1 \<le> pt_line r \<and> pt_line r < int (screen_lines g)"
        using False Suc.prems lines \<open>pt_column q < columns g\<close> by (intro Suc.IH) auto
      then show ?thesis using Some c False by simp
    qed
  qed
qed simp

lemma scroll_up_nothing:
  assumes "grid_wf g"
  shows "\<exists>g'. scroll_up (0, int (screen_lines g)) 0 g = Some g' \<and> grid_wf g' \<and> screen_lines g' = screen_lines g \<and>
    keeps (g\<lparr>display_offset := display_offset g'\<rparr>) g'"
proof -
  define g0 where "g0 = (if display_offset g \<noteq> 0
    then g\<lparr>display_offset := min (display_offset g + 0) (max_scroll_limit g)\<rparr> else g)"
  have g0: "grid_wf g0" "base_ok g0" "screen_lines g0 = screen_lines g"
    using assms by (simp_all add: g0_def grid_wf_def)
  have inc: "increase_scroll_limit 0 g0 = Some g0"
    using g0(1) by (simp add: increase_scroll_limit_def grid_wf_def)
  obtain g1 where g1: "raw_do (Rotate (- int 0)) g0 = Some g1" "keeps g0 g1" "base_ok g1" "shape (gl g0) (gl g1)"
    using rotate_grid [OF g0(2), of 0] by auto
  then have sl: "screen_lines g1 = screen_lines g" using keepsD(3) g0(3) by simp
  obtain g2 where g2: "recalc_stable_row_bounds g1 = Some g2" "blanked {} g1 g2"
    using recalc_blanks [OF g1(3)] by blast
  have f: "full_region (0, int (screen_lines g)) g" by (simp add: full_region_def)
  have if0: "(if 0 < display_offset g
    then g\<lparr>display_offset := min (display_offset g + 0) (max_scroll_limit g)\<rparr> else g) = g0"
    by (simp add: g0_def)
  have s: "0 < int (screen_lines g)" using g0(2,3) by (simp add: base_ok_def)
  have "scroll_up (0, int (screen_lines g)) 0 g = Some g2"
    using s g1(1) g2(1) by (simp add: scroll_up_def f if0 inc sl split del: if_split)
  moreover have "grid_wf g2"
    using grid_wf_blanked [OF grid_wf_keeps [OF g0(1) g1(3,2,4)] g2(2)] .
  moreover have k: "keeps g0 g2"
    using g2(2) keeps_trans [OF g1(2)] by (simp add: blanked_def)
  moreover have "display_offset g2 = display_offset g0" by (rule keepsD(4) [OF k])
  then have "g\<lparr>display_offset := display_offset g2\<rparr> = g0" by (simp add: g0_def)
  then have "keeps (g\<lparr>display_offset := display_offset g2\<rparr>) g2" using k by simp
  ultimately show ?thesis using keepsD(3) [OF k] g0(3) by auto
qed

lemma clear_viewport_wf:
  assumes "grid_wf g"
  shows "\<exists>g'. clear_viewport g = Some g' \<and> grid_wf g' \<and> keeps (g\<lparr>display_offset := display_offset g'\<rparr>) g'"
proof -
  have b: "base_ok g" using assms by (simp add: grid_wf_def)
  let ?p = "\<lparr>pt_line = int (screen_lines g) - 1, pt_column = columns g\<rparr>"
  have sl: "0 < screen_lines g" using b by (simp add: base_ok_def)
  then have "nat (pt_line ?p) * columns g + pt_column ?p < screen_lines g * columns g + 2"
    by (cases "screen_lines g") (auto simp: nat_eq_iff)
  then have "\<exists>q. last_used (screen_lines g * columns g + 2) g ?p = Some q \<and> -1 \<le> pt_line q \<and>
      pt_line q < int (screen_lines g)"
    using sl by (intro last_used_ok [OF b]) simp_all
  then obtain q where q: "last_used (screen_lines g * columns g + 2) g ?p = Some q"
    "-1 \<le> pt_line q" "pt_line q < int (screen_lines g)" by blast
  define k where "k = nat (pt_line q + 1)"
  obtain g1 where g1: "scroll_up (0, int (screen_lines g)) k g = Some g1" "grid_wf g1" "screen_lines g1 = screen_lines g"
    "keeps (g\<lparr>display_offset := display_offset g1\<rparr>) g1"
  proof (cases "k = 0")
    case True
    then show thesis using scroll_up_nothing [OF assms] that by auto
  next
    case False
    then have "region_ok (0, int (screen_lines g)) k g" using q sl by (auto simp: region_ok_def k_def)
    then obtain g1 where "scroll_up (0, int (screen_lines g)) k g = Some g1" "grid_wf g1"
      "keeps (g\<lparr>display_offset := display_offset g1\<rparr>) g1"
      using scroll_up_eq [OF assms] by blast
    then show thesis using that keepsD(3) by fastforce
  qed
  have k: "k \<le> screen_lines g" using q by (simp add: k_def)
  have b1: "base_ok g1" using g1(2) by (simp add: grid_wf_def)
  obtain g' where g': "fold_opt reset_line [0..int (screen_lines g - k) - 1] g1 = Some g'"
    "blanked (set [0..int (screen_lines g - k) - 1]) g1 g'"
  proof -
    have "has_line (gl g1) l" if "l \<in> set [0..int (screen_lines g - k) - 1]" for l
      using that g1(3) k by (auto simp: has_line_gl [OF b1])
    then show thesis using reset_lines_blank [OF b1] that by blast
  qed
  have "clear_viewport g = Some g'"
    unfolding clear_viewport_def Let_def q(1) Option.bind.simps k_def [symmetric] g1(1) g1(3)
      checked_sub_Some [OF k] using q(2) g'(1) by simp
  moreover have "keeps g1 g'" using g'(2) by (simp add: blanked_def)
  then have "keeps (g\<lparr>display_offset := display_offset g'\<rparr>) g'"
    using keeps_trans [OF g1(4)] keepsD(4) by simp
  ultimately show ?thesis using grid_wf_blanked [OF g1(2) g'(2)] by blast
qed

end
