(* ===== verification/GridIds.thy ===== *)
theory GridIds
  imports GridOps
begin

text \<open>
  Stable row ids: the search for a line by its id, what a scroll of the whole screen does to the
  ids, and where they stop being sorted.
\<close>

section \<open>Sorted ids\<close>

definition ids_ok :: "grid \<Rightarrow> bool" where
  "ids_ok g \<longleftrightarrow>
     (\<forall>l m. has_line (gl g) l \<longrightarrow> has_line (gl g) m \<longrightarrow> l < m \<longrightarrow> id_of (gl g) l < id_of (gl g) m) \<and>
     stable_row_min g = id_of (gl g) (topmost_line g) \<and> stable_row_max g = id_of (gl g) (bottommost_line g)"

lemma stable_id_eq: "base_ok g \<Longrightarrow> has_line (gl g) l \<Longrightarrow> stable_row_id_for_line g l = Some (id_of (gl g) l)"
  by (simp add: base_ok_def stable_row_id_for_line_def gl_def ring_nth ent_def id_of_def)

lemma has_top: "base_ok g \<Longrightarrow> has_line (gl g) (topmost_line g)"
  by (simp add: has_line_gl topmost_line_def) (simp add: base_ok_def)

lemma has_bottom: "base_ok g \<Longrightarrow> has_line (gl g) (bottommost_line g)"
  by (simp add: has_line_gl bottommost_line_def) (simp add: base_ok_def)

lemma ids_le:
  assumes "ids_ok g" "has_line (gl g) l" "has_line (gl g) m" "l \<le> m"
  shows "id_of (gl g) l \<le> id_of (gl g) m"
  using assms by (cases "l = m") (auto simp: ids_ok_def intro: less_imp_le)

lemma ids_inj:
  assumes "ids_ok g" "has_line (gl g) l" "has_line (gl g) m" "id_of (gl g) l = id_of (gl g) m"
  shows "l = m"
  using assms unfolding ids_ok_def by (metis linorder_neq_iff)

lemma no_line:
  assumes "base_ok g" "\<not> has_line (gl g) l"
  shows "row_at g l = None" "stable_row_id_for_line g l = None"
proof -
  have "\<not> line_ok (raw g) l" using assms(2) by (simp add: has_line_def line_ok_def)
  then show "row_at g l = None" "stable_row_id_for_line g l = None"
    by (simp_all add: row_at_def index_line_def stable_row_id_for_line_def storage_id_for_line_def compute_index_None)
qed

lemma stable_id_iff:
  "base_ok g \<Longrightarrow> stable_row_id_for_line g l = Some i \<longleftrightarrow> has_line (gl g) l \<and> id_of (gl g) l = i"
  by (cases "has_line (gl g) l") (simp_all add: stable_id_eq no_line)

lemma grid_new_ids:
  assumes "0 < lines" "0 < cols" "grid_new lines cols limit = Some g"
  shows "ids_ok g \<and> stable_row_max g = int lines - 1 \<and> stable_row_min g = 0"
proof -
  obtain r where r: "with_capacity cell_default lines cols = Some r" "len r = lines" "visible_lines r = lines"
    "ring r = zip (replicate lines (row_new cell_default cols)) (map int (rev [0..<lines]))"
    using with_capacity_eq [of cell_default lines cols] by blast
  have g: "raw g = r" "screen_lines g = lines" "stable_row_min g = 0" "stable_row_max g = int lines - 1"
    using assms(1,3) r(1) by (auto simp: grid_new_def)
  have id: "id_of (gl g) l = l" if "0 \<le> l" "l < int lines" for l
  proof -
    have "at (gl g) l < lines" "int (lines - Suc (at (gl g) l)) = l"
      using that g(1) r(3) by (auto simp: at_def pos_of_def)
    then show ?thesis
      by (simp add: id_of_def ent_def gl_def g(1) lines_of_def r(4) rev_nth)
  qed
  have "has_line (gl g) l \<longleftrightarrow> 0 \<le> l \<and> l < int lines" for l
    using g(1) r(2,3) by (auto simp: has_line_def)
  then show ?thesis
    using id assms(1) g(2-4) r(2) g(1) by (auto simp: ids_ok_def topmost_line_def bottommost_line_def history_size_def)
qed

section \<open>The search\<close>

lemma search_id_spec:
  assumes "base_ok g" "ids_ok g" "0 \<le> lo" "hi < int (len (raw g))"
    and "\<And>l. has_line (gl g) l \<Longrightarrow> id_of (gl g) l = i \<Longrightarrow> topmost_line g + lo \<le> l \<and> l \<le> topmost_line g + hi"
  shows "\<exists>r. search_id g i lo hi = Some r \<and> (\<forall>l. r = Some l \<longleftrightarrow> has_line (gl g) l \<and> id_of (gl g) l = i)"
  using assms
proof (induction g i lo hi rule: search_id.induct)
  case (1 g i lo hi)
  show ?case
  proof (cases "lo \<le> hi")
    case False
    then have "search_id g i lo hi = Some None" by (subst search_id.simps) simp
    moreover have "\<not> (has_line (gl g) l \<and> id_of (gl g) l = i)" for l
      using "1.prems"(5) [of l] False by linarith
    ultimately show ?thesis by simp
  next
    case True
    define mid where "mid = lo + (hi - lo) div 2"
    define m where "m = topmost_line g + mid"
    have mid: "lo \<le> mid" "mid \<le> hi" using True by (simp_all add: mid_def)
    have "int (len (raw g)) = int (screen_lines g) + int (history_size g)"
      using "1.prems"(1) by (simp add: history_size_def base_ok_def)
    then have hm: "has_line (gl g) m"
      using mid "1.prems"(3,4) by (simp add: has_line_gl [OF "1.prems"(1)] m_def topmost_line_def)
    have unfold: "search_id g i lo hi =
        (if id_of (gl g) m < i then search_id g i (mid + 1) hi
         else if id_of (gl g) m > i then search_id g i lo (mid - 1) else Some (Some m))"
      using True stable_id_eq [OF "1.prems"(1) hm]
      by (subst search_id.simps) (simp add: Let_def mid_def [symmetric] m_def [symmetric])
    consider "id_of (gl g) m < i" | "id_of (gl g) m > i" | "id_of (gl g) m = i" by linarith
    then show ?thesis
    proof cases
      case c: 1
      have "topmost_line g + (mid + 1) \<le> l \<and> l \<le> topmost_line g + hi"
        if "has_line (gl g) l" "id_of (gl g) l = i" for l
      proof -
        have "m < l" using ids_le [OF "1.prems"(2) that(1) hm] c that(2) by (cases "l \<le> m") auto
        then show ?thesis using "1.prems"(5) [OF that] by (simp add: m_def)
      qed
      note inside = this
      have "search_id g i lo hi = search_id g i (mid + 1) hi" using c by (simp add: unfold)
      moreover have "0 \<le> mid + 1" using mid "1.prems"(3) by simp
      note "1.IH"(1) [OF True mid_def m_def stable_id_eq [OF "1.prems"(1) hm] c "1.prems"(1,2) this "1.prems"(4) inside]
      ultimately show ?thesis by simp
    next
      case c: 2
      have "topmost_line g + lo \<le> l \<and> l \<le> topmost_line g + (mid - 1)"
        if "has_line (gl g) l" "id_of (gl g) l = i" for l
      proof -
        have "l < m" using ids_le [OF "1.prems"(2) hm that(1)] c that(2) by (cases "m \<le> l") auto
        then show ?thesis using "1.prems"(5) [OF that] by (simp add: m_def)
      qed
      note inside = this
      have "search_id g i lo hi = search_id g i lo (mid - 1)" using c by (simp add: unfold)
      moreover have "\<not> id_of (gl g) m < i" "mid - 1 < int (len (raw g))" using c mid "1.prems"(4) by simp_all
      note "1.IH"(2) [OF True mid_def m_def stable_id_eq [OF "1.prems"(1) hm] this(1) c "1.prems"(1-3) this(2) inside]
      ultimately show ?thesis by simp
    next
      case c: 3
      then have "search_id g i lo hi = Some (Some m)" by (simp add: unfold)
      moreover have "m = l \<longleftrightarrow> has_line (gl g) l \<and> id_of (gl g) l = i" for l
      proof
        assume "has_line (gl g) l \<and> id_of (gl g) l = i"
        then show "m = l" using ids_inj [OF "1.prems"(2) hm, of l] c by simp
      qed (use hm c in blast)
      ultimately show ?thesis by simp
    qed
  qed
qed

lemma line_search_spec:
  assumes "base_ok g" "ids_ok g"
  shows "\<exists>r. line_for_stable_row_id g i = Some r \<and> (\<forall>l. r = Some l \<longleftrightarrow> has_line (gl g) l \<and> id_of (gl g) l = i)"
proof -
  have len: "len (raw g) \<noteq> 0" "int (len (raw g)) = int (screen_lines g) + int (history_size g)"
    using assms(1) by (simp_all add: base_ok_def history_size_def)
  have between: "stable_row_min g \<le> id_of (gl g) l \<and> id_of (gl g) l \<le> stable_row_max g \<and>
      topmost_line g \<le> l \<and> l \<le> topmost_line g + int (len (raw g) - 1)" if "has_line (gl g) l" for l
  proof -
    have "topmost_line g \<le> l" "l \<le> bottommost_line g"
      using that by (simp_all add: has_line_gl [OF assms(1)] topmost_line_def bottommost_line_def)
    then show ?thesis
      using ids_le [OF assms(2) has_top [OF assms(1)] that] ids_le [OF assms(2) that has_bottom [OF assms(1)]] assms(2) len
      by (simp add: ids_ok_def topmost_line_def bottommost_line_def)
  qed
  show ?thesis
  proof (cases "i < stable_row_min g \<or> i > stable_row_max g")
    case True
    then show ?thesis using between len(1) by (force simp: line_for_stable_row_id_def)
  next
    case False
    then show ?thesis
      using search_id_spec [OF assms, of 0 "int (len (raw g) - 1)" i] between len(1)
      by (simp add: line_for_stable_row_id_def)
  qed
qed

section \<open>Scrolling the whole screen up\<close>

definition sat_ok :: "int \<Rightarrow> bool" where
  "sat_ok i \<longleftrightarrow> - (2 ^ 63) \<le> i \<and> i < 2 ^ 63"

lemma sat64_id [simp]: "sat_ok i \<Longrightarrow> sat64 i = i"
  by (simp add: sat_ok_def sat64_def)

text \<open>The loop that blanks the lines scrolled in numbers them on from the last id.\<close>

lemma reset_line_ids:
  assumes "base_ok g" "has_line (gl g) l"
  shows "\<exists>g'. reset_line l g = Some g' \<and> blanked {l} g g' \<and>
    stable_row_min g' = stable_row_min g \<and> stable_row_max g' = stable_row_max g \<and>
    (\<forall>k. has_line (gl g) k \<longrightarrow> id_of (gl g') k = id_of (gl g) k)"
proof -
  have wf: "storage_wf (raw g)" using assms(1) by (simp add: base_ok_def)
  obtain b where b: "lines_step cell_default (Update_Line (reset_row g) l) (gl g) = Some b"
    "\<And>k. has_line (gl g) k \<Longrightarrow> id_of b k = id_of (gl g) k"
    using step_update [OF gl_wf [OF wf] assms(2), of cell_default "reset_row g"] by auto
  obtain r where r: "raw_do (Update_Line (reset_row g) l) g = Some (g\<lparr>raw := r\<rparr>)" "lines_of r = b"
    using raw_do_eq [OF wf b(1)] by blast
  obtain g' where g': "reset_line l g = Some g'" "blanked {l} g g'" "stable_row_min g' = stable_row_min g"
    "stable_row_max g' = stable_row_max g"
    using reset_line_blanks [OF assms] by blast
  have "g' = g\<lparr>raw := r\<rparr>" using g'(1) r(1) by (simp add: reset_line_def)
  then have "gl g' = b" using r(2) by simp
  then show ?thesis using g' b(2) by auto
qed

lemma set_id_ids:
  assumes "base_ok g" "has_line (gl g) l"
  shows "\<exists>g'. raw_do (Set_Id l v) g = Some g' \<and> blanked {} g g' \<and>
    stable_row_min g' = stable_row_min g \<and> stable_row_max g' = stable_row_max g \<and>
    (\<forall>k. has_line (gl g) k \<longrightarrow> id_of (gl g') k = (if k = l then v else id_of (gl g) k))"
proof -
  have wf: "storage_wf (raw g)" using assms(1) by (simp add: base_ok_def)
  obtain b where b: "lines_step cell_default (Set_Id l v) (gl g) = Some b"
    "\<And>k. has_line (gl g) k \<Longrightarrow> id_of b k = (if k = l then v else id_of (gl g) k)"
    using step_set_id [OF gl_wf [OF wf] assms(2), of cell_default v] by auto
  obtain r where r: "raw_do (Set_Id l v) g = Some (g\<lparr>raw := r\<rparr>)" "lines_of r = b"
    using raw_do_eq [OF wf b(1)] by blast
  obtain g' where g': "raw_do (Set_Id l v) g = Some g'" "blanked {} g g'" "stable_row_min g' = stable_row_min g"
    "stable_row_max g' = stable_row_max g"
    using set_id_blanks [OF assms] by blast
  have "g' = g\<lparr>raw := r\<rparr>" using g'(1) r(1) by simp
  then have "gl g' = b" using r(2) by simp
  then show ?thesis using g' b(2) by auto
qed

definition number_line :: "int \<Rightarrow> grid \<Rightarrow> grid option" where
  "number_line i g =
     do { g \<leftarrow> reset_line i g;
          let g = g\<lparr>stable_row_max := sat64 (stable_row_max g + 1)\<rparr>;
          raw_do (Set_Id i (stable_row_max g)) g }"

lemma number_line_ids:
  assumes "base_ok g" "has_line (gl g) l" "sat_ok (stable_row_max g + 1)"
  shows "\<exists>g'. number_line l g = Some g' \<and> blanked {l} g g' \<and> stable_row_max g' = stable_row_max g + 1 \<and>
    (\<forall>k. has_line (gl g) k \<longrightarrow> id_of (gl g') k = (if k = l then stable_row_max g + 1 else id_of (gl g) k))"
proof -
  obtain h where h: "reset_line l g = Some h" "blanked {l} g h" "stable_row_max h = stable_row_max g"
    "\<And>k. has_line (gl g) k \<Longrightarrow> id_of (gl h) k = id_of (gl g) k"
    using reset_line_ids [OF assms(1,2)] by blast
  let ?h = "h\<lparr>stable_row_max := sat64 (stable_row_max h + 1)\<rparr>"
  have b: "blanked {l} g ?h" by (rule blanked_bounds(2) [OF h(2)])
  then have "base_ok ?h" "has_line (gl ?h) l"
    using assms(2) unfolding blanked_def by (auto simp: shape_simps)
  then obtain g' where g': "raw_do (Set_Id l (stable_row_max ?h)) ?h = Some g'" "blanked {} ?h g'"
    "stable_row_max g' = stable_row_max ?h"
    "\<And>k. has_line (gl ?h) k \<Longrightarrow> id_of (gl g') k = (if k = l then stable_row_max ?h else id_of (gl ?h) k)"
    using set_id_ids by blast
  have "has_line (gl ?h) k = has_line (gl g) k" for k
    using b unfolding blanked_def by (auto simp: shape_simps)
  then show ?thesis
    using h g' blanked_trans [OF b g'(2)] assms(3) by (auto simp: number_line_def Let_def)
qed

lemma number_loop:
  assumes "base_ok g" "\<And>l. s \<le> l \<Longrightarrow> l < s + int n \<Longrightarrow> has_line (gl g) l"
    and "- (2 ^ 63) \<le> stable_row_max g" "stable_row_max g + int n < 2 ^ 63"
  shows "\<exists>g'. fold_opt number_line [s..s + int n - 1] g = Some g' \<and> blanked {s..s + int n - 1} g g' \<and>
    stable_row_max g' = stable_row_max g + int n \<and>
    (\<forall>k. has_line (gl g) k \<longrightarrow>
      id_of (gl g') k = (if s \<le> k \<and> k < s + int n then stable_row_max g + (k - s) + 1 else id_of (gl g) k))"
  using assms(2,4)
proof (induction n)
  case 0
  then show ?case using blanked_refl [OF assms(1)] by simp
next
  case (Suc n)
  have "\<exists>h. fold_opt number_line [s..s + int n - 1] g = Some h \<and> blanked {s..s + int n - 1} g h \<and>
    stable_row_max h = stable_row_max g + int n \<and>
    (\<forall>k. has_line (gl g) k \<longrightarrow>
      id_of (gl h) k = (if s \<le> k \<and> k < s + int n then stable_row_max g + (k - s) + 1 else id_of (gl g) k))"
    by (rule Suc.IH) (use Suc.prems in auto)
  then obtain h where h: "fold_opt number_line [s..s + int n - 1] g = Some h" "blanked {s..s + int n - 1} g h"
    "stable_row_max h = stable_row_max g + int n"
    "\<And>k. has_line (gl g) k \<Longrightarrow>
      id_of (gl h) k = (if s \<le> k \<and> k < s + int n then stable_row_max g + (k - s) + 1 else id_of (gl g) k)"
    by blast
  have hl: "has_line (gl h) k = has_line (gl g) k" for k using h(2) by (auto simp: blanked_def shape_simps)
  have "base_ok h" "has_line (gl h) (s + int n)" "sat_ok (stable_row_max h + 1)"
    using h(2,3) Suc.prems assms(3) hl by (auto simp: blanked_def sat_ok_def)
  then obtain g' where g': "number_line (s + int n) h = Some g'" "blanked {s + int n} h g'"
    "stable_row_max g' = stable_row_max h + 1"
    "\<And>k. has_line (gl h) k \<Longrightarrow> id_of (gl g') k = (if k = s + int n then stable_row_max h + 1 else id_of (gl h) k)"
    using number_line_ids by blast
  have "[s..s + int (Suc n) - 1] = [s..s + int n - 1] @ [s + int n]" by (subst upto_rec2) auto
  then have "fold_opt number_line [s..s + int (Suc n) - 1] g = Some g'"
    using h(1) g'(1) by (simp only: fold_opt_append fold_opt.simps Option.bind.simps bind_rzero)
  moreover have "{s..s + int n - 1} \<union> {s + int n} = {s..s + int (Suc n) - 1}" by auto
  then have "blanked {s..s + int (Suc n) - 1} g g'" using blanked_trans [OF h(2) g'(2)] by simp
  moreover have "stable_row_max g' = stable_row_max g + int (Suc n)" using g'(3) h(3) by simp
  ultimately show ?case using g'(4) h(3,4) hl by auto
qed

lemma recalc_ids:
  assumes "base_ok g"
  shows "\<exists>g'. recalc_stable_row_bounds g = Some g' \<and> blanked {} g g' \<and> gl g' = gl g \<and>
    stable_row_min g' = id_of (gl g) (topmost_line g) \<and> stable_row_max g' = id_of (gl g) (bottommost_line g)"
proof -
  have "len (raw g) \<noteq> 0" using assms by (simp add: base_ok_def)
  then show ?thesis
    using stable_id_eq [OF assms has_top [OF assms]] stable_id_eq [OF assms has_bottom [OF assms]]
      blanked_refl [OF assms] by (simp add: recalc_stable_row_bounds_def blanked_bounds)
qed

lemma scroll_up_full_ids:
  assumes "grid_wf g" "ids_ok g" "0 < p" "p \<le> screen_lines g"
    and "- (2 ^ 63) \<le> stable_row_max g" "stable_row_max g + int p < 2 ^ 63"
  shows "\<exists>g'. scroll_up (0, int (screen_lines g)) p g = Some g' \<and> grid_wf g' \<and> ids_ok g' \<and>
    history_size g' = min (history_size g + p) (max_scroll_limit g) \<and> screen_lines g' = screen_lines g \<and>
    (\<forall>l. has_line (gl g') l \<longrightarrow>
      id_of (gl g') l = (if l + int p < int (screen_lines g) then id_of (gl g) (l + int p)
        else stable_row_max g + (l + int p - int (screen_lines g)) + 1))"
proof -
  let ?n = "int (screen_lines g)"
  have b: "base_ok g" "history_size g \<le> max_scroll_limit g" using assms(1) by (simp_all add: grid_wf_def)
  define g0 where "g0 = (if display_offset g \<noteq> 0
    then g\<lparr>display_offset := min (display_offset g + p) (max_scroll_limit g)\<rparr> else g)"
  have g0: "base_ok g0" "gl g0 = gl g" "screen_lines g0 = screen_lines g" "stable_row_max g0 = stable_row_max g"
    "history_size g0 = history_size g" "max_scroll_limit g0 = max_scroll_limit g"
    using b(1) by (simp_all add: g0_def)
  obtain g1 where g1: "increase_scroll_limit p g0 = Some g1" "keeps g0 g1" "base_ok g1"
    "stable_row_max g1 = stable_row_max g"
    "history_size g1 = min (history_size g + p) (max_scroll_limit g)"
    "\<And>l. has_line (gl g) l \<Longrightarrow> ent (gl g1) l = ent (gl g) l"
    using increase_eq [OF g0(1), of p] b(2) g0 by auto
  have sl1: "screen_lines g1 = screen_lines g" using keepsD(3) [OF g1(2)] g0(3) by simp
  obtain g2 where g2: "raw_do (Rotate (- int p)) g1 = Some g2" "keeps g1 g2" "base_ok g2" "shape (gl g1) (gl g2)"
    "stable_row_max g2 = stable_row_max g"
    "\<And>l. has_line (gl g1) l \<Longrightarrow> l + int p < ?n \<Longrightarrow> ent (gl g2) l = ent (gl g1) (l + int p)"
    using rotate_grid [OF g1(3), of p] sl1 assms(4) g1(4) by auto
  have sl2: "screen_lines g2 = screen_lines g" using keepsD(3) [OF g2(2)] sl1 by simp
  have lines2: "has_line (gl g2) l" if "?n - int p \<le> l" "l < ?n" for l
    using that sl2 assms(4) by (simp add: has_line_gl [OF g2(3)])
  have "?n - int p + int p - 1 = ?n - 1" "?n - int p + int p = ?n" by simp_all
  then obtain g3 where g3: "fold_opt number_line [?n - int p..?n - 1] g2 = Some g3"
    "blanked {?n - int p..?n - 1} g2 g3"
    "\<And>k. has_line (gl g2) k \<Longrightarrow>
      id_of (gl g3) k = (if ?n - int p \<le> k \<and> k < ?n then stable_row_max g + (k - (?n - int p)) + 1 else id_of (gl g2) k)"
    using number_loop [OF g2(3), of "?n - int p" p] lines2 assms(5,6) g2(5) by auto
  have b3: "base_ok g3" using g3(2) by (simp add: blanked_def)
  obtain g' where g': "recalc_stable_row_bounds g3 = Some g'" "blanked {} g3 g'" "gl g' = gl g3"
    "stable_row_min g' = id_of (gl g3) (topmost_line g3)" "stable_row_max g' = id_of (gl g3) (bottommost_line g3)"
    using recalc_ids [OF b3] by blast
  have body: "(\<lambda>i g. Option.bind (reset_line i g) (\<lambda>g. raw_do (Set_Id i (sat64 (stable_row_max g + 1)))
      (g\<lparr>stable_row_max := sat64 (stable_row_max g + 1)\<rparr>))) = number_line"
    by (simp add: fun_eq_iff number_line_def Let_def)
  have if0: "(if 0 < display_offset g
    then g\<lparr>display_offset := min (display_offset g + p) (max_scroll_limit g)\<rparr> else g) = g0"
    by (simp add: g0_def)
  have "full_region (0, ?n) g" by (simp add: full_region_def)
  then have step: "scroll_up (0, ?n) p g = Some g'"
    using g1(1) g2(1) g3(1) g'(1) sl2
    by (simp add: scroll_up_def if0 body sl2 split del: if_split)
  have k3: "keeps g2 g3" "shape (gl g2) (gl g3)" "keeps g3 g'" using g3(2) g'(2) by (simp_all add: blanked_def)
  have sh: "shape (gl g1) (gl g')" using shape_trans [OF g2(4) k3(2)] g'(3) by simp
  have sl: "screen_lines g' = screen_lines g" "topmost_line g3 = topmost_line g'" "bottommost_line g3 = bottommost_line g'"
    using keepsD(3) [OF k3(1)] keepsD(3) [OF k3(3)] sl2 g'(2) history_keeps [of g3 g']
    by (simp_all add: topmost_line_def bottommost_line_def blanked_def)
  have hist: "history_size g' = min (history_size g + p) (max_scroll_limit g)"
    using sh sl(1) sl1 g1(5) by (simp add: history_size_def shape_def)
  have b': "base_ok g'" using g'(2) by (simp add: blanked_def)
  have ids: "id_of (gl g') l = (if l + int p < ?n then id_of (gl g) (l + int p)
        else stable_row_max g + (l + int p - ?n) + 1)" if l: "has_line (gl g') l" for l
  proof -
    have l12: "has_line (gl g1) l" "has_line (gl g2) l" using l sh g2(4) by (simp_all add: shape_simps)
    have r: "- int (min (history_size g + p) (max_scroll_limit g)) \<le> l" "l < ?n"
      using l sl(1) hist by (simp_all add: has_line_gl [OF b'])
    show ?thesis
    proof (cases "l + int p < ?n")
      case True
      then have "has_line (gl g) (l + int p)" using r by (simp add: has_line_gl [OF b(1)])
      then show ?thesis
        using True g3(3) [OF l12(2)] g2(6) [OF l12(1) True] g1(6) g'(3) by (simp add: id_of_def)
    next
      case False
      then show ?thesis using g3(3) [OF l12(2)] r g'(3) by simp
    qed
  qed
  have top: "id_of (gl g) l \<le> stable_row_max g" if "has_line (gl g) l" for l
  proof -
    have "l \<le> bottommost_line g" using that by (simp add: has_line_gl [OF b(1)] bottommost_line_def)
    from ids_le [OF assms(2) that has_bottom [OF b(1)] this] show ?thesis
      using assms(2) by (simp add: ids_ok_def)
  qed
  have "ids_ok g'"
    unfolding ids_ok_def
  proof (intro conjI allI impI)
    fix l m assume l: "has_line (gl g') l" and m: "has_line (gl g') m" and lm: "l < m"
    have gl': "has_line (gl g) (i + int p)" if "has_line (gl g') i" "i + int p < ?n" for i
      using that hist by (simp add: has_line_gl [OF b'] has_line_gl [OF b(1)] min_def split: if_splits)
    consider "m + int p < ?n" | "l + int p < ?n" "?n \<le> m + int p" | "?n \<le> l + int p" by linarith
    then show "id_of (gl g') l < id_of (gl g') m"
    proof cases
      case 1
      then have "has_line (gl g) (l + int p)" "has_line (gl g) (m + int p)" "l + int p < m + int p"
        using gl' l m lm by auto
      then have "id_of (gl g) (l + int p) < id_of (gl g) (m + int p)"
        using assms(2) unfolding ids_ok_def by blast
      then show ?thesis using ids [OF l] ids [OF m] 1 lm by simp
    next
      case 2
      then show ?thesis using ids [OF l] ids [OF m] top [OF gl' [OF l 2(1)]] by simp
    next
      case 3
      then show ?thesis using ids [OF l] ids [OF m] lm by simp
    qed
  qed (use g' sl in simp_all)
  moreover have "grid_wf g'"
    using scroll_up_eq [OF assms(1), of 0 ?n p] step assms(3,4) by (auto simp: region_ok_def)
  ultimately show ?thesis using step hist sl(1) ids by blast
qed

section \<open>Scrolling the whole screen down\<close>

text \<open>The loop that numbers the lines scrolled in from \<open>stable_row_min\<close> on.\<close>

lemma number_down_loop:
  assumes "base_ok g" "\<And>i. i \<in> set is \<Longrightarrow> has_line (gl g) i"
  shows "\<exists>g'. fold_opt (\<lambda>i g. Option.bind (reset_line i g) (\<lambda>g. raw_do (Set_Id i (stable_row_min g + i)) g)) is g = Some g' \<and>
    blanked (set is) g g' \<and> stable_row_min g' = stable_row_min g \<and>
    (\<forall>k. has_line (gl g) k \<longrightarrow> id_of (gl g') k = (if k \<in> set is then stable_row_min g + k else id_of (gl g) k))"
  using assms
proof (induction "is" arbitrary: g)
  case Nil
  then show ?case using blanked_refl by simp
next
  case (Cons i "is")
  obtain h where h: "reset_line i g = Some h" "blanked {i} g h" "stable_row_min h = stable_row_min g"
    "\<And>k. has_line (gl g) k \<Longrightarrow> id_of (gl h) k = id_of (gl g) k"
    using reset_line_ids [OF Cons.prems(1), of i] Cons.prems(2) by auto
  have hl: "has_line (gl h) k = has_line (gl g) k" for k using h(2) by (auto simp: blanked_def shape_simps)
  obtain k where k: "raw_do (Set_Id i (stable_row_min g + i)) h = Some k" "blanked {} h k"
    "stable_row_min k = stable_row_min g"
    "\<And>l. has_line (gl g) l \<Longrightarrow> id_of (gl k) l = (if l = i then stable_row_min g + i else id_of (gl g) l)"
    using set_id_ids [of h i "stable_row_min g + i"] h Cons.prems(2) hl by (auto simp: blanked_def)
  have b: "blanked {i} g k" using blanked_trans [OF h(2) k(2)] by simp
  have kl: "has_line (gl k) l = has_line (gl g) l" for l using b by (auto simp: blanked_def shape_simps)
  have "base_ok k" using b by (simp add: blanked_def)
  moreover have "has_line (gl k) j" if "j \<in> set is" for j using that Cons.prems(2) kl by simp
  ultimately obtain g' where g':
    "fold_opt (\<lambda>i g. Option.bind (reset_line i g) (\<lambda>g. raw_do (Set_Id i (stable_row_min g + i)) g)) is k = Some g'"
    "blanked (set is) k g'" "stable_row_min g' = stable_row_min k"
    "\<And>l. has_line (gl k) l \<Longrightarrow> id_of (gl g') l = (if l \<in> set is then stable_row_min k + l else id_of (gl k) l)"
    using Cons.IH by blast
  have "set (i # is) = {i} \<union> set is" by simp
  then have "blanked (set (i # is)) g g'" using blanked_trans [OF b g'(2)] by simp
  then show ?case using h(1,3) k g' kl by (simp add: h(3))
qed

lemma scroll_down_full_ids:
  assumes "grid_wf g" "ids_ok g" "max_scroll_limit g \<noteq> 0" "0 < p" "p < screen_lines g" "sat_ok (stable_row_min g - int p)"
  shows "\<exists>g'. scroll_down (0, int (screen_lines g)) p g = Some g' \<and> grid_wf g' \<and>
    history_size g' = history_size g \<and> screen_lines g' = screen_lines g \<and>
    stable_row_min g' = id_of (gl g') (topmost_line g) \<and>
    (\<forall>l. has_line (gl g) l \<longrightarrow>
      id_of (gl g') l = (if l < 0 then id_of (gl g) l else if l < int p then stable_row_min g - int p + l
        else id_of (gl g) (l - int p)))"
proof -
  let ?n = "int (screen_lines g)"
  have b: "base_ok g" using assms(1) by (simp add: grid_wf_def)
  have lines: "has_line (gl g) l" if "0 \<le> l" "l < ?n" for l using that by (simp add: has_line_gl [OF b])
  have e: "?n - int (screen_lines g - p) = int p" using assms(5) by simp
  obtain g1 where g1: "fold_opt (\<lambda>i. raw_do (Swap i (i - int p))) (rev [int p..?n - 1]) g = Some g1"
    "keeps g g1" "base_ok g1" "stable_row_min g1 = stable_row_min g"
    "moved_down (gl g) ?n (screen_lines g - p) p (gl g1)"
    using swap_down_grid [OF b, of ?n "screen_lines g - p" p] lines assms(4,5) e by auto
  have m1: "ent (gl g1) l = (if int p \<le> l then ent (gl g) (l - int p) else ent (gl g) l)"
    if "has_line (gl g) l" "l < 0 \<or> int p \<le> l" for l
    using g1(5) that assms(4,5) e unfolding moved_down_def by (auto simp: has_line_gl [OF b])
  have sh1: "shape (gl g) (gl g1)" using g1(5) by (simp add: moved_down_def)
  define g2 where "g2 = g1\<lparr>stable_row_min := stable_row_min g - int p\<rparr>"
  have g2: "base_ok g2" "gl g2 = gl g1" "stable_row_min g2 = stable_row_min g - int p" "keeps g1 g2"
    using g1(3) by (simp_all add: g2_def)
  have in2: "has_line (gl g2) i" if "i \<in> set (rev [0..int p - 1])" for i
    using that lines assms(5) sh1 by (simp add: g2(2) shape_simps)
  obtain g3 where g3:
    "fold_opt (\<lambda>i g. Option.bind (reset_line i g) (\<lambda>g. raw_do (Set_Id i (stable_row_min g + i)) g)) (rev [0..int p - 1]) g2 = Some g3"
    "blanked (set (rev [0..int p - 1])) g2 g3"
    "\<And>k. has_line (gl g) k \<Longrightarrow> id_of (gl g3) k =
       (if k \<in> set (rev [0..int p - 1]) then stable_row_min g2 + k else id_of (gl g1) k)"
    using number_down_loop [OF g2(1), of "rev [0..int p - 1]"] in2 sh1 g2(2) by (auto simp: shape_simps)
  have b3: "base_ok g3" "keeps g2 g3" "shape (gl g2) (gl g3)" using g3(2) by (simp_all add: blanked_def)
  obtain g' where g': "recalc_stable_row_bounds g3 = Some g'" "blanked {} g3 g'" "gl g' = gl g3"
    "stable_row_min g' = id_of (gl g3) (topmost_line g3)"
    using recalc_ids [OF b3(1)] by blast
  have k: "keeps g g'" "shape (gl g) (gl g')"
    using keeps_trans [OF g1(2) keeps_trans [OF g2(4) keeps_trans [OF b3(2)]], of g'] g'(2,3)
      shape_trans [OF sh1, of "gl g3"] b3(3) g2(2) by (simp_all add: blanked_def)
  have hist: "history_size g' = history_size g" "screen_lines g' = screen_lines g"
    using history_keeps [OF k] keepsD(3) [OF k(1)] by simp_all
  have "topmost_line g3 = topmost_line g"
    using history_keeps [of g3 g'] g'(2) hist by (simp add: blanked_def topmost_line_def)
  moreover have "full_region (0, ?n) g" by (simp add: full_region_def)
  then have "scroll_down (0, ?n) p g = Some g'"
    using assms(3-6) g1(1,4) g3(1) g'(1) by (simp add: scroll_down_def g2_def Let_def)
  moreover have "grid_wf g'"
    using scroll_down_eq [OF assms(1), of 0 ?n p] calculation(2) assms(4,5) by (auto simp: region_ok_def)
  moreover have "id_of (gl g') l = (if l < 0 then id_of (gl g) l else if l < int p then stable_row_min g - int p + l
        else id_of (gl g) (l - int p))" if "has_line (gl g) l" for l
    using g3(3) [OF that] m1 [OF that] g2(3) g'(3) assms(4) by (simp add: id_of_def)
  ultimately show ?thesis using hist g'(3,4) by simp
qed

end
