(* ===== verification/GridEdit.thy ===== *)
theory GridEdit
  imports GridIds
begin

text \<open>
  What the terminal uses of the grid, stated on its rows: \<open>row_at\<close> gives the row of a line,
  editing a line changes that row alone, and scrolling never panics and keeps the grid well
  formed, also for no lines at all and for more lines than the region has.
\<close>

section \<open>Rows of a well-formed grid\<close>

lemma grid_wf_base: "grid_wf g \<Longrightarrow> base_ok g"
  by (simp add: grid_wf_def)

lemma grid_dims:
  assumes "grid_wf g"
  shows "0 < columns g" "0 < screen_lines g"
  using assms by (simp_all add: grid_wf_def base_ok_def)

lemma row_at_iff:
  assumes "grid_wf g"
  shows "(\<exists>r. row_at g l = Some r) \<longleftrightarrow> - int (history_size g) \<le> l \<and> l < int (screen_lines g)"
  using row_at_eq [OF grid_wf_base [OF assms], of l] no_line(1) [OF grid_wf_base [OF assms], of l]
    has_line_gl [OF grid_wf_base [OF assms], of l] by auto

lemma row_at_ok:
  assumes "grid_wf g" "row_at g l = Some r"
  shows "row_ok cell_reset r" "length (cells r) = columns g"
proof -
  have b: "base_ok g" using assms(1) by (rule grid_wf_base)
  have h: "has_line (gl g) l" using assms(2) no_line(1) [OF b, of l] by (cases "has_line (gl g) l") auto
  then have "r \<in> fst ` set (buf (gl g))"
    using row_in_buf [OF gl_wf h] b assms(2) row_at_eq [OF b h] by (simp add: base_ok_def)
  then show "row_ok cell_reset r" "length (cells r) = columns g" using b by (auto simp: base_ok_def rows_ok_def)
qed

lemma row_at_screen:
  assumes "grid_wf g" "- int (history_size g) \<le> l" "l < int (screen_lines g)"
  obtains r where "row_at g l = Some r" "row_ok cell_reset r" "length (cells r) = columns g"
proof -
  obtain r where "row_at g l = Some r" using row_at_iff [OF assms(1), of l] assms(2,3) by auto
  then show thesis using that row_at_ok [OF assms(1)] by blast
qed

section \<open>Editing a line\<close>

definition edit_row :: "int \<Rightarrow> (cell row \<Rightarrow> cell row option) \<Rightarrow> grid \<Rightarrow> grid option" where
  "edit_row l f g =
     do { r \<leftarrow> row_at g l;
          r' \<leftarrow> f r;
          raw_do (Update_Line (\<lambda>_. r') l) g }"

text \<open>\<open>same_view\<close>: same cursors, size, history and view; only rows may differ.\<close>

definition same_view :: "grid \<Rightarrow> grid \<Rightarrow> bool" where
  "same_view g g' \<longleftrightarrow>
     cursor g' = cursor g \<and> saved_cursor g' = saved_cursor g \<and> columns g' = columns g \<and>
     screen_lines g' = screen_lines g \<and> display_offset g' = display_offset g \<and>
     max_scroll_limit g' = max_scroll_limit g \<and> history_size g' = history_size g"

lemma same_view_refl [simp]: "same_view g g" and same_view_trans: "same_view g h \<Longrightarrow> same_view h k \<Longrightarrow> same_view g k"
  by (simp_all add: same_view_def)

lemma keeps_same_view: "keeps g g' \<Longrightarrow> history_size g' = history_size g \<Longrightarrow> same_view g g'"
  by (simp add: same_view_def keepsD)

lemma edit_row_eq:
  assumes "grid_wf g" "row_at g l = Some r" "f r = Some r'" "row_ok cell_reset r'" "length (cells r') = columns g"
  shows "ends_in (edit_row l f g) (\<lambda>g'. grid_wf g' \<and> same_view g g' \<and>
    (\<forall>k. row_at g' k = (if k = l then Some r' else row_at g k)))"
proof -
  have b: "base_ok g" and wf: "storage_wf (raw g)" using assms(1) by (simp_all add: grid_wf_def base_ok_def)
  have h: "has_line (gl g) l" using assms(2) no_line(1) [OF b, of l] by (cases "has_line (gl g) l") auto
  obtain b' where b': "lines_step cell_default (Update_Line (\<lambda>_. r') l) (gl g) = Some b'" "shape (gl g) b'"
    "fst ` set (buf b') \<subseteq> insert r' (fst ` set (buf (gl g)))"
    "\<And>k. has_line (gl g) k \<Longrightarrow> row_of b' k = (if k = l then r' else row_of (gl g) k)"
    using step_update [OF gl_wf [OF wf] h, of cell_default "\<lambda>_. r'"] by auto
  obtain s where s: "raw_do (Update_Line (\<lambda>_. r') l) g = Some (g\<lparr>raw := s\<rparr>)" "storage_wf s" "lines_of s = b'"
    using raw_do_eq [OF wf b'(1)] by blast
  let ?g = "g\<lparr>raw := s\<rparr>"
  have "rows_ok ?g" using b b'(3) assms(4,5) s(3) by (fastforce simp: base_ok_def rows_ok_def)
  then have ok: "base_ok ?g" using b s b'(2) by (auto simp: base_ok_def shape_def)
  have sh: "shape (gl g) (gl ?g)" using b'(2) s(3) by simp
  have "row_at ?g k = (if k = l then Some r' else row_at g k)" for k
  proof (cases "has_line (gl g) k")
    case True
    then have "has_line (gl ?g) k" by (simp only: shape_simps [OF sh])
    then show ?thesis using row_at_eq [OF ok] row_at_eq [OF b True] b'(4) [OF True] s(3) by simp
  next
    case False
    then have "\<not> has_line (gl ?g) k" "k \<noteq> l" using h by (auto simp only: shape_simps [OF sh])
    then show ?thesis using no_line(1) [OF ok] no_line(1) [OF b False] by simp
  qed
  moreover have "grid_wf ?g" using grid_wf_keeps [OF assms(1) ok _ sh] by simp
  moreover have "same_view g ?g" by (rule keeps_same_view) (use history_keeps [of g ?g] sh in simp_all)
  ultimately show ?thesis using assms(2,3) s(1) by (simp add: edit_row_def)
qed

lemma edit_row_wf:
  assumes "grid_wf g" "- int (history_size g) \<le> l" "l < int (screen_lines g)"
    and "\<And>r. row_ok cell_reset r \<Longrightarrow> length (cells r) = columns g \<Longrightarrow>
      ends_in (f r) (\<lambda>r'. row_ok cell_reset r' \<and> length (cells r') = columns g)"
  shows "ends_in (edit_row l f g) (\<lambda>g'. grid_wf g' \<and> same_view g g')"
proof -
  obtain r where r: "row_at g l = Some r" "row_ok cell_reset r" "length (cells r) = columns g"
    by (rule row_at_screen [OF assms(1-3)])
  then obtain r' where "f r = Some r'" "row_ok cell_reset r'" "length (cells r') = columns g"
    using assms(4) by (auto simp: ends_in_def)
  from edit_row_eq [where f = f, OF assms(1) r(1) this] show ?thesis by (rule ends_in_mono) simp
qed

lemma update_ends:
  "row_ok cell_reset r \<Longrightarrow> length (cells r) = n \<Longrightarrow> i < n \<Longrightarrow>
    ends_in (row_update i f r) (\<lambda>r'. row_ok cell_reset r' \<and> length (cells r') = n)"
  using cell.row_ok_update [of r i f] by (simp add: row_update_def)

lemma fill_ends:
  "row_ok cell_reset r \<Longrightarrow> length (cells r) = n \<Longrightarrow> i \<le> j \<Longrightarrow> j \<le> n \<Longrightarrow>
    ends_in (row_fill i j c r) (\<lambda>r'. row_ok cell_reset r' \<and> length (cells r') = n)"
  using cell.row_ok_fill [of r i j c] by (simp add: row_fill_def)

lemma fill_from_ends:
  "length (cells r) = n \<Longrightarrow> i \<le> n \<Longrightarrow>
    ends_in (row_fill_from i c r) (\<lambda>r'. row_ok cell_reset r' \<and> length (cells r') = n)"
  using cell.row_ok_full [of "take i (cells r) @ replicate (n - i) c"] by (simp add: row_fill_from_def)

lemma edit_all_ends:
  assumes "ends_in (f (cells r)) (\<lambda>xs. length xs = length (cells r))" "length (cells r) = n"
  shows "ends_in (row_edit_all f r) (\<lambda>r'. row_ok cell_reset r' \<and> length (cells r') = n)"
proof -
  obtain xs where xs: "f (cells r) = Some xs" "length xs = length (cells r)"
    using assms(1) by (auto simp: ends_in_def)
  then show ?thesis using cell.row_ok_full [of xs] assms(2) by (simp add: row_edit_all_def)
qed

section \<open>Scrolling any region by any number of lines\<close>

lemma swap_self:
  assumes "base_ok g" "has_line (gl g) l"
  shows "ends_in (raw_do (Swap l l) g) (blanked {} g)"
proof -
  have wf: "storage_wf (raw g)" using assms(1) by (simp add: base_ok_def)
  obtain b where b: "lines_step cell_default (Swap l l) (gl g) = Some b" "shape (gl g) b" "set (buf b) = set (buf (gl g))"
    "\<And>k. has_line (gl g) k \<Longrightarrow> ent b k = ent (gl g) k"
    using step_swap [OF gl_wf [OF wf] assms(2,2), of cell_default] by auto
  obtain r where r: "raw_do (Swap l l) g = Some (g\<lparr>raw := r\<rparr>)" "storage_wf r" "lines_of r = b"
    using raw_do_eq [OF wf b(1)] by blast
  have "base_ok (g\<lparr>raw := r\<rparr>)" using base_ok_shape [OF assms(1) r(2)] b(2,3) r(3) by simp
  then show ?thesis using r b(2,4) by (simp add: blanked_def)
qed

lemma swap_self_loop:
  assumes "base_ok g" "\<And>l. l \<in> set ls \<Longrightarrow> has_line (gl g) l"
  shows "ends_in (fold_opt (\<lambda>i. raw_do (Swap i i)) ls g) (blanked {} g)"
proof (rule ends_in_fold)
  fix l h assume l: "l \<in> set ls" and h: "blanked {} g h"
  have "base_ok h" "has_line (gl h) l"
    using h assms(2) [OF l] by (auto simp: blanked_def shape_simps)
  from swap_self [OF this] show "ends_in (raw_do (Swap l l) h) (blanked {} g)"
    by (rule ends_in_mono) (use blanked_trans [OF h] in fastforce)
qed (rule blanked_refl [OF assms(1)])

text \<open>What every scroll guarantees: only rows and the display offset change.\<close>

definition scrolled :: "grid \<Rightarrow> grid \<Rightarrow> bool" where
  "scrolled g g' \<longleftrightarrow> grid_wf g' \<and> cursor g' = cursor g \<and> saved_cursor g' = saved_cursor g \<and>
     columns g' = columns g \<and> screen_lines g' = screen_lines g \<and> max_scroll_limit g' = max_scroll_limit g"

lemma scrolledI: "grid_wf g' \<Longrightarrow> keeps (g\<lparr>display_offset := n\<rparr>) g' \<Longrightarrow> scrolled g g'"
  using keepsD [of "g\<lparr>display_offset := n\<rparr>" g'] by (simp add: scrolled_def)

lemma scrolled_blanked: "grid_wf g \<Longrightarrow> blanked L g g' \<Longrightarrow> scrolled g g'"
  using grid_wf_blanked [of g L g'] keepsD [of g g'] by (simp add: scrolled_def blanked_def)

lemma scroll_up_none:
  assumes "grid_wf g" "0 \<le> a" "a \<le> b" "b \<le> int (screen_lines g)"
  shows "ends_in (scroll_up (a, b) 0 g) (scrolled g)"
proof -
  have base: "base_ok g" using assms(1) by (rule grid_wf_base)
  define g0 where "g0 = (if display_offset g \<noteq> 0
    then g\<lparr>display_offset := min (display_offset g) (max_scroll_limit g)\<rparr> else g)"
  have g0: "grid_wf g0" "base_ok g0" "screen_lines g0 = screen_lines g" "gl g0 = gl g" "scrolled g g0"
    using assms(1) by (simp_all add: g0_def grid_wf_def scrolled_def)
  have inc: "increase_scroll_limit 0 g0 = Some g0"
    using g0(1) by (simp add: increase_scroll_limit_def grid_wf_def)
  obtain g1 where g1: "raw_do (Rotate (- int 0)) g0 = Some g1" "keeps g0 g1" "base_ok g1" "shape (gl g0) (gl g1)"
    using rotate_grid [OF g0(2), of 0] by auto
  have wf1: "grid_wf g1" and s1: "scrolled g0 g1"
    using grid_wf_keeps [OF g0(1) g1(3,2,4)] keepsD [OF g1(2)] by (simp_all add: scrolled_def)
  have s0: "scrolled g0 g0" using g0(1) by (simp add: scrolled_def)
  have tr: "scrolled g k" if "scrolled g0 h" "blanked {} h k" for h k
    using that scrolled_blanked [of h "{}" k] g0(5) by (simp add: scrolled_def)
  have fin: "ends_in (if full then recalc_stable_row_bounds k else Some k) (scrolled g)"
    if "scrolled g0 h" "blanked {} h k" for full h k
  proof (cases full)
    case True
    have "base_ok k" using that(2) by (simp add: blanked_def)
    then obtain m where "recalc_stable_row_bounds k = Some m" "blanked {} k m" using recalc_blanks by blast
    then show ?thesis using True tr [OF that(1)] blanked_trans [OF that(2)] by simp
  qed (use tr [OF that] in simp)
  have lines: "has_line (gl h) l" if "base_ok h" "screen_lines h = screen_lines g" "0 \<le> l" "l < int (screen_lines g)" for h l
    using that by (simp add: has_line_gl)
  have if0: "(if 0 < display_offset g
    then g\<lparr>display_offset := min (display_offset g + 0) (max_scroll_limit g)\<rparr> else g) = g0"
    by (simp add: g0_def)
  consider "b - a \<le> 0" "a \<noteq> 0" | "a = 0" | "0 < b - a" "a \<noteq> 0" by linarith
  then show ?thesis
  proof cases
    case 1
    then show ?thesis using assms(1,3) by (simp add: scroll_up_def scrolled_def)
  next
    case 2
    have "ends_in (fold_opt (\<lambda>i. raw_do (Swap i i)) (rev [b..int (screen_lines g1) - 1]) g1) (blanked {} g1)"
      using lines [OF g1(3)] keepsD(3) [OF g1(2)] g0(3) assms(2,3) by (intro swap_self_loop [OF g1(3)]) auto
    then have "ends_in (fold_opt (\<lambda>i. raw_do (Swap i i)) (rev [b..int (screen_lines g1) - 1]) g1)
        (\<lambda>k. ends_in (if full_region (0, b) g then recalc_stable_row_bounds k else Some k) (scrolled g))"
      by (rule ends_in_mono) (rule fin [OF s1])
    then show ?thesis
      using 2 inc g1(1) by (simp add: scroll_up_def if0 split del: if_split)
  next
    case 3
    have "ends_in (fold_opt (\<lambda>i. raw_do (Swap i i)) [a..b - 1] g0) (blanked {} g0)"
      using lines [OF g0(2,3)] assms(2,4) by (intro swap_self_loop [OF g0(2)]) auto
    then have "ends_in (fold_opt (\<lambda>i. raw_do (Swap i i)) [a..b - 1] g0)
        (\<lambda>k. ends_in (if full_region (a, b) g then recalc_stable_row_bounds k else Some k) (scrolled g))"
      by (rule ends_in_mono) (rule fin [OF s0])
    then show ?thesis
      using 3 by (simp add: scroll_up_def if0 split del: if_split)
  qed
qed

lemma scroll_up_any:
  assumes "grid_wf g" "0 \<le> a" "a \<le> b" "b \<le> int (screen_lines g)" "a = 0 \<Longrightarrow> int p \<le> b"
  shows "ends_in (scroll_up (a, b) p g) (scrolled g)"
proof -
  consider "p = 0" | "a \<noteq> 0" "b - a \<le> int p" | "0 < p" "int p \<le> b - a" using assms(5) by force
  then show ?thesis
  proof cases
    case 1
    then show ?thesis using scroll_up_none [OF assms(1-4)] by simp
  next
    case 2
    have "has_line (gl g) l" if "l \<in> set [a..b - 1]" for l
      using that assms(2,4) by (auto simp: has_line_gl [OF grid_wf_base [OF assms(1)]])
    then obtain g' where "fold_opt reset_line [a..b - 1] g = Some g'" "blanked (set [a..b - 1]) g g'"
      using reset_lines_blank [OF grid_wf_base [OF assms(1)]] by blast
    then show ?thesis using 2 scrolled_blanked [OF assms(1)] by (simp add: scroll_up_def)
  next
    case 3
    then have "region_ok (a, b) p g" using assms(2,4) by (simp add: region_ok_def)
    then obtain g' where "scroll_up (a, b) p g = Some g'" "grid_wf g'" "keeps (g\<lparr>display_offset := display_offset g'\<rparr>) g'"
      using scroll_up_eq [OF assms(1)] by blast
    then show ?thesis using scrolledI by simp
  qed
qed

lemma scroll_down_none:
  assumes "grid_wf g" "0 \<le> a" "a \<le> b" "b \<le> int (screen_lines g)"
  shows "ends_in (scroll_down (a, b) 0 g) (scrolled g)"
proof -
  have base: "base_ok g" using assms(1) by (rule grid_wf_base)
  have s0: "scrolled g g" using assms(1) by (simp add: scrolled_def)
  have fin: "ends_in (if full then recalc_stable_row_bounds k else Some k) (scrolled g)"
    if "scrolled g h" "blanked {} h k" for full h k
  proof -
    have wf: "grid_wf h" "base_ok k" using that by (simp_all add: scrolled_def blanked_def)
    have k: "scrolled g k" using scrolled_blanked [OF wf(1) that(2)] that(1) by (simp add: scrolled_def)
    show ?thesis
    proof (cases full)
      case True
      obtain m where "recalc_stable_row_bounds k = Some m" "blanked {} k m" using recalc_blanks [OF wf(2)] by blast
      then show ?thesis
        using True k scrolled_blanked [of k "{}" m] by (simp add: scrolled_def)
    qed (use k in simp)
  qed
  have lines: "has_line (gl h) l" if "base_ok h" "screen_lines h = screen_lines g" "0 \<le> l" "l < int (screen_lines g)" for h l
    using that by (simp add: has_line_gl)
  consider "b - a \<le> 0" | "0 < b - a" "max_scroll_limit g = 0" | "0 < b - a" "max_scroll_limit g \<noteq> 0" by linarith
  then show ?thesis
  proof cases
    case 1
    then show ?thesis using s0 by (simp add: scroll_down_def)
  next
    case 2
    have "ends_in (fold_opt (\<lambda>i. raw_do (Swap i i)) [b..int (screen_lines g) - 1] g) (blanked {} g)"
      using lines [OF base] assms(2,3) by (intro swap_self_loop [OF base]) auto
    then obtain g1 where g1: "fold_opt (\<lambda>i. raw_do (Swap i i)) [b..int (screen_lines g) - 1] g = Some g1" "blanked {} g g1"
      by (auto simp: ends_in_def)
    then have b1: "base_ok g1" "scrolled g g1" "grid_wf g1"
      using scrolled_blanked [OF assms(1) g1(2)] by (simp_all add: blanked_def scrolled_def)
    obtain g2 where g2: "raw_do (Rotate_Down 0) g1 = Some g2" "keeps g1 g2" "base_ok g2" "shape (gl g1) (gl g2)"
      using rotate_down_grid [OF b1(1), of 0] by blast
    have s2: "scrolled g g2"
      using grid_wf_keeps [OF b1(3) g2(3,2,4)] keepsD [OF g2(2)] b1(2) by (simp add: scrolled_def)
    then have sl: "screen_lines g2 = screen_lines g" by (simp add: scrolled_def)
    have "ends_in (fold_opt (\<lambda>i. raw_do (Swap i i)) [0..a - 1] g2) (blanked {} g2)"
      using lines [OF g2(3) sl] assms(3,4) by (intro swap_self_loop [OF g2(3)]) auto
    then have "ends_in (fold_opt (\<lambda>i. raw_do (Swap i i)) [0..a - 1] g2)
        (\<lambda>k. ends_in (if full_region (a, b) g then recalc_stable_row_bounds k else Some k) (scrolled g))"
      by (rule ends_in_mono) (rule fin [OF s2])
    then show ?thesis
      using 2 g1(1) g2(1) by (simp add: scroll_down_def Let_def split del: if_split)
  next
    case 3
    have "ends_in (fold_opt (\<lambda>i. raw_do (Swap i i)) (rev [a..b - 1]) g) (blanked {} g)"
      using lines [OF base] assms(2,4) by (intro swap_self_loop [OF base]) auto
    then have "ends_in (fold_opt (\<lambda>i. raw_do (Swap i i)) (rev [a..b - 1]) g)
        (\<lambda>k. ends_in (if full_region (a, b) g then recalc_stable_row_bounds k else Some k) (scrolled g))"
      by (rule ends_in_mono) (rule fin [OF s0])
    then show ?thesis
      using 3 by (simp add: scroll_down_def Let_def split del: if_split)
  qed
qed

lemma scroll_down_any:
  assumes "grid_wf g" "0 \<le> a" "a \<le> b" "b \<le> int (screen_lines g)" "int p \<le> b - a"
  shows "ends_in (scroll_down (a, b) p g) (scrolled g)"
proof (cases "p = 0")
  case True
  then show ?thesis using scroll_down_none [OF assms(1-4)] by simp
next
  case False
  then have "region_ok (a, b) p g" using assms(2-5) by (auto simp: region_ok_def)
  then obtain g' where "scroll_down (a, b) p g = Some g'" "grid_wf g'" "keeps g g'"
    using scroll_down_eq [OF assms(1)] by blast
  then show ?thesis using scrolledI [where g = g and n = "display_offset g"] by simp
qed

lemma reset_region_ends:
  "grid_wf g \<Longrightarrow> 0 \<le> a \<Longrightarrow> a < int (screen_lines g) \<Longrightarrow> b \<le> int (screen_lines g) \<Longrightarrow>
    ends_in (reset_region a b g) (scrolled g)"
  using reset_region_wf [of g a b] scrolled_blanked by (auto simp: ends_in_def)

lemma clear_viewport_ends: "grid_wf g \<Longrightarrow> ends_in (clear_viewport g) (scrolled g)"
  using clear_viewport_wf [of g] scrolledI by (auto simp: ends_in_def)

lemma clear_history_ends:
  "grid_wf g \<Longrightarrow> ends_in (clear_history g) (\<lambda>g'. grid_wf g' \<and> cursor g' = cursor g \<and>
    saved_cursor g' = saved_cursor g \<and> columns g' = columns g \<and> screen_lines g' = screen_lines g)"
  using clear_history_wf [of g] by (auto simp: ends_in_def)

lemma grid_reset_ends:
  "grid_wf g \<Longrightarrow> ends_in (grid_reset g) (\<lambda>g'. grid_wf g' \<and> cursor g' = cursor_default \<and>
    saved_cursor g' = cursor_default \<and> columns g' = columns g \<and> screen_lines g' = screen_lines g)"
  using grid_reset_wf [of g] by (auto simp: ends_in_def)

lemma update_history_ends:
  "grid_wf g \<Longrightarrow> ends_in (update_history n g) (\<lambda>g'. grid_wf g' \<and> cursor g' = cursor g \<and>
    saved_cursor g' = saved_cursor g \<and> columns g' = columns g \<and> screen_lines g' = screen_lines g)"
  using update_history_wf [of g n] by (auto simp: ends_in_def)

end
