(* ===== verification/GridProps.thy ===== *)
theory GridProps
  imports GridEdit
begin

text \<open>
  The grid driven by events, with its invariant, and the properties of scrolling, of the
  displayed region and of stable row ids.
\<close>

section \<open>Events\<close>

datatype grid_event =
    Update_History nat
  | Scroll_Display scroll
  | Scroll_Up "int \<times> int" nat
  | Scroll_Down "int \<times> int" nat
  | Reset_Region int int
  | Clear_History
  | Clear_Viewport
  | Initialize_All
  | Reset_Grid
  | Grow nat
  | Shrink nat
  | Write point cell
  | Set_Cursors grid_cursor grid_cursor

fun grid_do :: "grid_event \<Rightarrow> grid \<Rightarrow> grid option" where
  "grid_do (Update_History n) g = update_history n g"
| "grid_do (Scroll_Display s) g = Some (scroll_display s g)"
| "grid_do (Scroll_Up r p) g = scroll_up r p g"
| "grid_do (Scroll_Down r p) g = scroll_down r p g"
| "grid_do (Reset_Region a b) g = reset_region a b g"
| "grid_do Clear_History g = clear_history g"
| "grid_do Clear_Viewport g = clear_viewport g"
| "grid_do Initialize_All g = initialize_all g"
| "grid_do Reset_Grid g = grid_reset g"
| "grid_do (Grow n) g = grow_lines n g"
| "grid_do (Shrink n) g = shrink_screen_lines n g"
| "grid_do (Write p c) g = set_cell p c g"
| "grid_do (Set_Cursors c saved) g = Some (g\<lparr>cursor := c, saved_cursor := saved\<rparr>)"

text \<open>
  What the terminal guarantees when it calls an operation: regions and positions on the screen, and the
  cursor on the screen when it shrinks. \<open>scroll_down_relative\<close> clamps the number of lines to the region it
  scrolls. \<open>scroll_up_relative\<close> clamps it to the whole scrolling region only, so that a region that starts
  below the top (\<open>delete_lines\<close>) may be scrolled by more lines than it has.
\<close>

fun event_ok :: "grid_event \<Rightarrow> grid \<Rightarrow> bool" where
  "event_ok (Scroll_Up r p) g =
     (0 \<le> fst r \<and> fst r \<le> snd r \<and> snd r \<le> int (screen_lines g) \<and> (fst r = 0 \<longrightarrow> int p \<le> snd r))"
| "event_ok (Scroll_Down r p) g =
     (0 \<le> fst r \<and> fst r \<le> snd r \<and> snd r \<le> int (screen_lines g) \<and> int p \<le> snd r - fst r)"
| "event_ok (Reset_Region a b) g = (0 \<le> a \<and> a < int (screen_lines g) \<and> b \<le> int (screen_lines g))"
| "event_ok (Grow n) g = (screen_lines g \<le> n)"
| "event_ok (Shrink n) g =
     (0 < n \<and> n \<le> screen_lines g \<and> 0 \<le> pt_line (point (cursor g)) \<and>
      pt_line (point (cursor g)) < int (screen_lines g))"
| "event_ok (Write p c) g =
     (- int (history_size g) \<le> pt_line p \<and> pt_line p < int (screen_lines g) \<and> pt_column p < columns g)"
| "event_ok _ g = True"

definition grid_step :: "grid \<Rightarrow> grid_event \<Rightarrow> grid" where
  "grid_step g e =
     (if event_ok e g then (case grid_do e g of Some g' \<Rightarrow> g' | None \<Rightarrow> g) else g)"

lemma grid_do_wf:
  assumes "grid_wf g" "event_ok e g"
  shows "\<exists>g'. grid_do e g = Some g' \<and> grid_wf g'"
proof (cases e)
  case (Update_History n)
  then show ?thesis using update_history_wf [OF assms(1), of n] by auto
next
  case (Scroll_Display s)
  then show ?thesis using assms(1) by (simp add: scroll_display_def)
next
  case (Scroll_Up r p)
  then have "ends_in (scroll_up (fst r, snd r) p g) (scrolled g)"
    using assms(2) by (intro scroll_up_any [OF assms(1)]) simp_all
  then show ?thesis by (auto simp: Scroll_Up ends_in_def scrolled_def)
next
  case (Scroll_Down r p)
  then have "ends_in (scroll_down (fst r, snd r) p g) (scrolled g)"
    using assms(2) by (intro scroll_down_any [OF assms(1)]) simp_all
  then show ?thesis by (auto simp: Scroll_Down ends_in_def scrolled_def)
next
  case (Reset_Region a b)
  then show ?thesis using reset_region_wf [OF assms(1), of a b] assms(2) by auto
next
  case Clear_History
  then show ?thesis using clear_history_wf [OF assms(1)] by auto
next
  case Clear_Viewport
  then show ?thesis using clear_viewport_wf [OF assms(1)] by auto
next
  case Initialize_All
  then show ?thesis using initialize_all_wf [OF assms(1)] by auto
next
  case Reset_Grid
  then show ?thesis using grid_reset_wf [OF assms(1)] by auto
next
  case (Grow n)
  then show ?thesis using grow_lines_wf [OF assms(1), of n] assms(2) by simp
next
  case (Shrink n)
  then show ?thesis using shrink_screen_lines_wf [OF assms(1), of n] assms(2) by simp
next
  case (Write p c)
  then have "has_line (gl g) (pt_line p)" "pt_column p < columns g"
    using assms by (simp_all add: has_line_gl grid_wf_def)
  from set_cell_wf [OF assms(1) this, of c] show ?thesis by (auto simp: Write)
next
  case (Set_Cursors c saved)
  then show ?thesis using assms(1) by simp
qed

lemma grid_new_wf:
  assumes "0 < lines" "0 < cols"
  shows "\<exists>g. grid_new lines cols limit = Some g \<and> grid_wf g \<and> screen_lines g = lines \<and> columns g = cols \<and>
    history_size g = 0 \<and> max_scroll_limit g = limit \<and> display_offset g = 0"
proof -
  obtain r where r: "with_capacity cell_default lines cols = Some r" "storage_wf r" "len r = lines"
    "visible_lines r = lines" "ring r = zip (replicate lines (row_new cell_default cols)) (map int (rev [0..<lines]))"
    using with_capacity_eq [of cell_default lines cols] by blast
  have "row_ok cell_reset (row_new cell_default cols)" by (rule cell.row_ok_new)
  moreover have "fst x = row_new cell_default cols" if "x \<in> set (ring r)" for x
  proof -
    have "fst x \<in> set (replicate lines (row_new cell_default cols))"
      using that unfolding r(5) by (metis in_set_zipE prod.collapse)
    then show ?thesis by simp
  qed
  ultimately show ?thesis
    using r assms by (simp add: grid_new_def grid_wf_def base_ok_def rows_ok_def history_size_def gl_def row_new_def)
qed

interpretation grid: transition_system
  "\<lambda>g. \<exists>lines cols limit. 0 < lines \<and> 0 < cols \<and> grid_new lines cols limit = Some g" grid_step grid_wf
proof
  fix g assume "\<exists>lines cols limit. 0 < lines \<and> 0 < cols \<and> grid_new lines cols limit = Some g"
  then obtain lines cols limit where "0 < lines" "0 < cols" "grid_new lines cols limit = Some g" by blast
  then show "grid_wf g" using grid_new_wf [of lines cols limit] by simp
next
  fix g e assume wf: "grid_wf g"
  show "grid_wf (grid_step g e)"
  proof (cases "event_ok e g")
    case True
    then show ?thesis using grid_do_wf [OF wf True] by (auto simp: grid_step_def)
  qed (simp add: grid_step_def wf)
qed

section \<open>Properties\<close>

text \<open>C8: A new grid (of at least one line and one column) is well formed: the buffer is consistent,
  every row has the grid's width and only default cells past its occupied part, and the history is
  within its limit. Every run of the operations above (scrolling regions and the display, clearing,
  resetting, the history's limit, resizing in lines, writing cells, moving the cursors), called with
  arguments as the terminal may give them, keeps that, and no such call panics. Resizing in columns is
  not among them: it leaves rows behind whose unoccupied part is not blank.\<close>

theorem grid_invariant:
  assumes "0 < lines" "0 < cols"
  shows "\<exists>g. grid_new lines cols limit = Some g \<and>
    (\<forall>es e. grid_wf (foldl grid_step g es) \<and>
      (event_ok e (foldl grid_step g es) \<longrightarrow> (\<exists>g'. grid_do e (foldl grid_step g es) = Some g' \<and> grid_wf g')))"
proof -
  obtain g where g: "grid_new lines cols limit = Some g" using grid_new_wf [OF assms] by blast
  have "grid_wf (foldl grid_step g es)" for es using grid.run_inv [of g es] assms g by blast
  then show ?thesis using g grid_do_wf by blast
qed

lemma grid_invariant_witness:
  "\<exists>g. grid_new 2 3 10 = Some g \<and>
    (\<forall>es e. grid_wf (foldl grid_step g es) \<and>
      (event_ok e (foldl grid_step g es) \<longrightarrow> (\<exists>g'. grid_do e (foldl grid_step g es) = Some g' \<and> grid_wf g')))"
  by (rule grid_invariant) simp_all

lemma row_at_Some: "base_ok g \<Longrightarrow> - int (history_size g) \<le> l \<Longrightarrow> l < int (screen_lines g) \<Longrightarrow>
    row_at g l = Some (row_of (gl g) l)"
  by (simp add: row_at_eq has_line_gl)

text \<open>C9: Scrolling a region up by some lines never panics. Afterwards the last of its lines are blank
  in the background of the cursor, every other line of the region holds the row that was below it
  by that many lines, a region that starts at the top of the screen pushes its rows into the
  history, up to the limit, and no other line changes.\<close>

theorem scroll_up_moves_lines:
  assumes "grid_wf g" "region_ok (a, b) p g"
  shows "\<exists>g'. scroll_up (a, b) p g = Some g' \<and> screen_lines g' = screen_lines g \<and>
    history_size g' = (if a = 0 then min (history_size g + p) (max_scroll_limit g) else history_size g) \<and>
    (\<forall>l. - int (history_size g') \<le> l \<and> l < int (screen_lines g) \<longrightarrow>
      row_at g' l =
        (if b - int p \<le> l \<and> l < b then Some (blank_row g)
         else if (a = 0 \<or> a \<le> l) \<and> l < b then row_at g (l + int p)
         else row_at g l))"
proof -
  obtain g' where g': "scroll_up (a, b) p g = Some g'" "grid_wf g'" "scrolled_up (a, b) p g g'"
    "history_size g' = (if a = 0 then min (history_size g + p) (max_scroll_limit g) else history_size g)"
    "keeps (g\<lparr>display_offset := display_offset g'\<rparr>) g'"
    using scroll_up_eq [OF assms] by blast
  have sl: "screen_lines g' = screen_lines g" using keepsD(3) [OF g'(5)] by simp
  have b: "base_ok g" "base_ok g'" using assms(1) g'(2) by (simp_all add: grid_wf_def)
  have r: "0 \<le> a" "int p \<le> b - a" "b \<le> int (screen_lines g)" using assms(2) by (auto simp: region_ok_def)
  have "row_at g' l = (if b - int p \<le> l \<and> l < b then Some (blank_row g)
         else if (a = 0 \<or> a \<le> l) \<and> l < b then row_at g (l + int p) else row_at g l)"
    if l: "- int (history_size g') \<le> l" "l < int (screen_lines g)" for l
  proof -
    have at: "row_at g' l = Some (row_of (gl g') l)" using row_at_Some [OF b(2)] l sl by simp
    have "has_line (gl g') l" using l sl by (simp add: has_line_gl [OF b(2)])
    then have rows: "row_of (gl g') l = (if b - int p \<le> l \<and> l < b then blank_row g
           else if (a = 0 \<or> a \<le> l) \<and> l < b then row_of (gl g) (l + int p) else row_of (gl g) l)"
      using g'(3) by (simp add: scrolled_up_def)
    consider "b - int p \<le> l \<and> l < b" | "\<not> (b - int p \<le> l \<and> l < b)" "(a = 0 \<or> a \<le> l) \<and> l < b"
      | "\<not> (b - int p \<le> l \<and> l < b)" "\<not> ((a = 0 \<or> a \<le> l) \<and> l < b)" by blast
    then show ?thesis
    proof cases
      case 1
      then show ?thesis using at rows by simp
    next
      case 2
      have "- int (history_size g) \<le> l + int p"
        using l(1) 2(2) r(1) g'(4) by (cases "a = 0") (auto simp: min_def split: if_splits)
      then have "row_at g (l + int p) = Some (row_of (gl g) (l + int p))"
        using 2 r(3) by (intro row_at_Some [OF b(1)]) auto
      then show ?thesis using 2 at rows by simp
    next
      case 3
      have "- int (history_size g) \<le> l"
        using l(1) 3(2) r g'(4) by (cases "a = 0") auto
      then have "row_at g l = Some (row_of (gl g) l)" using l(2) by (rule row_at_Some [OF b(1)])
      then show ?thesis using at rows by (simp only: if_not_P [OF 3(1)] if_not_P [OF 3(2)])
    qed
  qed
  then show ?thesis using g'(1,4) sl by blast
qed

lemma demo_grid:
  "\<exists>g. grid_new 3 2 4 = Some g \<and> grid_wf g \<and> region_ok (1, 3) 1 g \<and> screen_lines g = 3 \<and> history_size g = 0"
proof -
  obtain g where g: "grid_new 3 2 4 = Some g" "grid_wf g" "screen_lines g = 3" "history_size g = 0"
    using grid_new_wf [of 3 2 4] by auto
  then show ?thesis by (simp add: region_ok_def)
qed

lemma scroll_up_moves_lines_witness:
  "\<exists>g g'. grid_new 3 2 4 = Some g \<and> scroll_up (1, 3) 1 g = Some g' \<and> row_at g' 1 = row_at g 2 \<and>
    row_at g' 2 = Some (blank_row g) \<and> row_at g' 0 = row_at g 0"
proof -
  obtain g where g: "grid_new 3 2 4 = Some g" "grid_wf g" "region_ok (1, 3) 1 g" "screen_lines g = 3" "history_size g = 0"
    using demo_grid by blast
  obtain g' where g': "scroll_up (1, 3) 1 g = Some g'" "history_size g' = (if (1::int) = 0 then min (history_size g + 1) (max_scroll_limit g) else history_size g)"
    "\<forall>l. - int (history_size g') \<le> l \<and> l < int (screen_lines g) \<longrightarrow>
      row_at g' l =
        (if 3 - int 1 \<le> l \<and> l < 3 then Some (blank_row g)
         else if ((1::int) = 0 \<or> 1 \<le> l) \<and> l < 3 then row_at g (l + int 1)
         else row_at g l)"
    using scroll_up_moves_lines [OF g(2,3)] by blast
  then show ?thesis using g g'(3) [rule_format, of 0] g'(3) [rule_format, of 1] g'(3) [rule_format, of 2] by simp
qed

text \<open>Scrolling a region down by some lines never panics: its first lines become blank, every
  other line of the region holds the row that was above it by that many lines, and neither the rest
  of the screen nor the history changes.\<close>

theorem scroll_down_moves_lines:
  assumes "grid_wf g" "region_ok (a, b) p g"
  shows "\<exists>g'. scroll_down (a, b) p g = Some g' \<and> history_size g' = history_size g \<and>
    display_offset g' = display_offset g \<and>
    (\<forall>l. - int (history_size g) \<le> l \<and> l < int (screen_lines g) \<longrightarrow>
      row_at g' l =
        (if a \<le> l \<and> l < a + int p then Some (blank_row g)
         else if a \<le> l \<and> l < b then row_at g (l - int p)
         else row_at g l))"
proof -
  obtain g' where g': "scroll_down (a, b) p g = Some g'" "grid_wf g'" "scrolled_down (a, b) p g g'"
    "keeps g g'" "history_size g' = history_size g"
    using scroll_down_eq [OF assms] by blast
  have k: "screen_lines g' = screen_lines g" "history_size g' = history_size g" "display_offset g' = display_offset g"
    using keepsD(3,4) [OF g'(4)] g'(5) by simp_all
  have b: "base_ok g" "base_ok g'" using assms(1) g'(2) by (simp_all add: grid_wf_def)
  have r: "0 \<le> a" "b \<le> int (screen_lines g)" using assms(2) by (auto simp: region_ok_def)
  have "row_at g' l = (if a \<le> l \<and> l < a + int p then Some (blank_row g)
         else if a \<le> l \<and> l < b then row_at g (l - int p) else row_at g l)"
    if l: "- int (history_size g) \<le> l" "l < int (screen_lines g)" for l
  proof -
    have at: "row_at g' l = Some (row_of (gl g') l)" using row_at_Some [OF b(2)] l k by simp
    have "has_line (gl g) l" using l by (simp add: has_line_gl [OF b(1)])
    then have rows: "row_of (gl g') l = (if a \<le> l \<and> l < a + int p then blank_row g
           else if a \<le> l \<and> l < b then row_of (gl g) (l - int p) else row_of (gl g) l)"
      using g'(3) by (simp add: scrolled_down_def)
    have old: "row_at g l = Some (row_of (gl g) l)" using l by (rule row_at_Some [OF b(1)])
    have "row_at g (l - int p) = Some (row_of (gl g) (l - int p))" if "a + int p \<le> l"
      using that r l by (intro row_at_Some [OF b(1)]) auto
    then show ?thesis using at rows old by auto
  qed
  then show ?thesis using g'(1) k by blast
qed

lemma scroll_down_moves_lines_witness:
  "\<exists>g g'. grid_new 3 2 4 = Some g \<and> scroll_down (1, 3) 1 g = Some g' \<and> row_at g' 2 = row_at g 1 \<and>
    row_at g' 1 = Some (blank_row g) \<and> row_at g' 0 = row_at g 0"
proof -
  obtain g where g: "grid_new 3 2 4 = Some g" "grid_wf g" "region_ok (1, 3) 1 g" "screen_lines g = 3" "history_size g = 0"
    using demo_grid by blast
  obtain g' where g': "scroll_down (1, 3) 1 g = Some g'"
    "\<forall>l. - int (history_size g) \<le> l \<and> l < int (screen_lines g) \<longrightarrow>
      row_at g' l =
        (if 1 \<le> l \<and> l < 1 + int 1 then Some (blank_row g)
         else if 1 \<le> l \<and> l < 3 then row_at g (l - int 1)
         else row_at g l)"
    using scroll_down_moves_lines [OF g(2,3)] by blast
  then show ?thesis using g g'(2) [rule_format, of 0] g'(2) [rule_format, of 1] g'(2) [rule_format, of 2] by simp
qed

text \<open>Scrolling a region that does not start at the top of the screen leaves the history alone but
  still moves the display offset. When the view shows the oldest line of a history that is not full,
  the offset then exceeds the history: the top line of the view has no row, and reading it panics
  (in a build with debug assertions).\<close>

theorem region_scroll_passes_history:
  assumes "grid_wf g" "0 < a" "a + int p < b" "b \<le> int (screen_lines g)" "0 < p"
    and "display_offset g = history_size g" "0 < history_size g" "history_size g < max_scroll_limit g"
  shows "\<exists>g'. scroll_up (a, b) p g = Some g' \<and> history_size g' = history_size g \<and>
    history_size g' < display_offset g' \<and> row_at g' (- int (display_offset g')) = None"
proof -
  have "region_ok (a, b) p g" using assms(2-5) by (simp add: region_ok_def)
  then obtain g' where g': "scroll_up (a, b) p g = Some g'" "grid_wf g'" "history_size g' = history_size g"
    "display_offset g' = min (display_offset g + p) (max_scroll_limit g)"
    using scroll_up_eq [OF assms(1), of a b p] assms(2,3,6,7) by auto
  then have "history_size g' < display_offset g'" using assms(5,6,8) by simp
  moreover from this have "\<not> has_line (gl g') (- int (display_offset g'))" if "base_ok g'"
    using that by (simp add: has_line_gl)
  then have "row_at g' (- int (display_offset g')) = None"
    using g'(2) no_line(1) by (simp add: grid_wf_def)
  ultimately show ?thesis using g'(1,3) by blast
qed

lemma demo_history:
  "\<exists>g h. grid_new 3 2 4 = Some g \<and> scroll_up (0, 3) 1 g = Some h \<and> grid_wf h \<and> screen_lines h = 3 \<and>
    history_size h = 1 \<and> max_scroll_limit h = 4 \<and> display_offset h = 0"
proof -
  obtain g where g: "grid_new 3 2 4 = Some g" "grid_wf g" "screen_lines g = 3" "history_size g = 0"
    "max_scroll_limit g = 4" "display_offset g = 0"
    using grid_new_wf [of 3 2 4] by auto
  then have "region_ok (0, 3) 1 g" by (simp add: region_ok_def)
  from scroll_up_eq [OF g(2) this] obtain h where h: "scroll_up (0, 3) 1 g = Some h" "grid_wf h"
    "keeps (g\<lparr>display_offset := display_offset h\<rparr>) h" "history_size h = 1" "display_offset h = 0"
    using g by auto
  then show ?thesis using keepsD(3,5) [OF h(3)] g by auto
qed

lemma region_scroll_passes_history_witness:
  "\<exists>g h v g'. grid_new 3 2 4 = Some g \<and> scroll_up (0, 3) 1 g = Some h \<and> v = scroll_display Top h \<and>
    scroll_up (1, 3) 1 v = Some g' \<and> history_size g' = 1 \<and> history_size g' < display_offset g' \<and>
    row_at g' (- int (display_offset g')) = None"
proof -
  obtain g h where g: "grid_new 3 2 4 = Some g" "scroll_up (0, 3) 1 g = Some h" "grid_wf h" "screen_lines h = 3"
    "history_size h = 1" "max_scroll_limit h = 4"
    using demo_history by blast
  define v where "v = scroll_display Top h"
  have v: "grid_wf v" "screen_lines v = 3" "display_offset v = 1" "history_size v = 1" "max_scroll_limit v = 4"
    using g(3-6) by (simp_all add: v_def scroll_display_def)
  have "\<exists>g'. scroll_up (1, 3) 1 v = Some g' \<and> history_size g' = history_size v \<and>
    history_size g' < display_offset g' \<and> row_at g' (- int (display_offset g')) = None"
    by (rule region_scroll_passes_history) (use v in simp_all)
  then show ?thesis using g(1,2) v(4) v_def by auto
qed

text \<open>C10: While the stable ids of the lines increase from the oldest line to the last one and the bounds
  kept beside them are those of the two ends, looking up an id ends without a panic and finds the
  line that carries it, or nothing when no line does.\<close>

theorem line_search_correct:
  assumes "grid_wf g" "ids_ok g"
  shows "\<exists>r. line_for_stable_row_id g i = Some r \<and> (\<forall>l. r = Some l \<longleftrightarrow> stable_row_id_for_line g l = Some i)"
  using line_search_spec [OF _ assms(2), of i] assms(1) by (simp add: grid_wf_def stable_id_iff)

lemma line_search_correct_witness:
  "\<exists>g r. grid_new 3 2 4 = Some g \<and> line_for_stable_row_id g 2 = Some r \<and>
    (\<forall>l. r = Some l \<longleftrightarrow> stable_row_id_for_line g l = Some 2)"
proof -
  obtain g where g: "grid_new 3 2 4 = Some g" "grid_wf g" using grid_new_wf [of 3 2 4] by auto
  then have "ids_ok g" using grid_new_ids [of 3 2 4 g] by simp
  from line_search_correct [OF g(2) this, of 2] show ?thesis using g(1) by auto
qed

text \<open>While the ids are sorted and the bounds kept beside them are those of the two ends, scrolling the
  whole screen up keeps that, and each row its id, whether it stays on the screen or moves into the
  history; the lines that come in are numbered on from the last id, as long as the 64-bit counter
  has room.\<close>

theorem scroll_up_keeps_ids:
  assumes "grid_wf g" "ids_ok g" "0 < p" "p \<le> screen_lines g"
    and "- (2 ^ 63) \<le> stable_row_max g" "stable_row_max g + int p < 2 ^ 63"
  shows "\<exists>g'. scroll_up (0, int (screen_lines g)) p g = Some g' \<and> ids_ok g' \<and>
    (\<forall>l. - int (history_size g') \<le> l \<and> l < int (screen_lines g) \<longrightarrow>
      stable_row_id_for_line g' l =
        (if l + int p < int (screen_lines g) then stable_row_id_for_line g (l + int p)
         else Some (stable_row_max g + (l + int p - int (screen_lines g)) + 1)))"
proof -
  obtain g' where g': "scroll_up (0, int (screen_lines g)) p g = Some g'" "grid_wf g'" "ids_ok g'"
    "history_size g' = min (history_size g + p) (max_scroll_limit g)" "screen_lines g' = screen_lines g"
    and ids: "\<And>l. has_line (gl g') l \<Longrightarrow>
      id_of (gl g') l = (if l + int p < int (screen_lines g) then id_of (gl g) (l + int p)
        else stable_row_max g + (l + int p - int (screen_lines g)) + 1)"
    using scroll_up_full_ids [OF assms] by blast
  have b: "base_ok g" "base_ok g'" using assms(1) g'(2) by (simp_all add: grid_wf_def)
  have "stable_row_id_for_line g' l =
        (if l + int p < int (screen_lines g) then stable_row_id_for_line g (l + int p)
         else Some (stable_row_max g + (l + int p - int (screen_lines g)) + 1))"
    if l: "- int (history_size g') \<le> l" "l < int (screen_lines g)" for l
  proof -
    have h: "has_line (gl g') l" using l g'(5) by (simp add: has_line_gl [OF b(2)])
    show ?thesis
    proof (cases "l + int p < int (screen_lines g)")
      case True
      then have "has_line (gl g) (l + int p)"
        using l(1) g'(4) by (simp add: has_line_gl [OF b(1)] min_def split: if_splits)
      then show ?thesis using True ids [OF h] by (simp add: stable_id_eq [OF b(2) h] stable_id_eq [OF b(1)])
    qed (use ids [OF h] in \<open>simp add: stable_id_eq [OF b(2) h]\<close>)
  qed
  then show ?thesis using g'(1,3) by blast
qed

lemma scroll_up_keeps_ids_witness:
  "\<exists>g g'. grid_new 3 2 4 = Some g \<and> scroll_up (0, 3) 1 g = Some g' \<and> ids_ok g'"
proof -
  obtain g where g: "grid_new 3 2 4 = Some g" "grid_wf g" "screen_lines g = 3" using grid_new_wf [of 3 2 4] by auto
  then have i: "ids_ok g" "stable_row_max g = 2" using grid_new_ids [of 3 2 4 g] by simp_all
  have "\<exists>g'. scroll_up (0, int (screen_lines g)) 1 g = Some g' \<and> ids_ok g'"
    using scroll_up_keeps_ids [OF g(2) i(1), of 1] i(2) g(3) by auto
  then show ?thesis using g by auto
qed

text \<open>Scrolling the whole screen down, with some history above it, numbers the lines that come in
  below the ids of the history, so that the ids are no longer sorted and the top line of the screen,
  which has a stable id, is not found by it.\<close>

theorem scroll_down_hides_ids:
  assumes "grid_wf g" "ids_ok g" "max_scroll_limit g > 0" "0 < history_size g" "0 < p" "p < screen_lines g"
    and "- (2 ^ 63) \<le> stable_row_min g - int p" "stable_row_min g < 2 ^ 63"
  shows "\<exists>g' i. scroll_down (0, int (screen_lines g)) p g = Some g' \<and>
    stable_row_id_for_line g' 0 = Some i \<and> line_for_stable_row_id g' i = Some None"
proof -
  have sat: "sat_ok (stable_row_min g - int p)" using assms(7,8) by (simp add: sat_ok_def)
  obtain g' where g': "scroll_down (0, int (screen_lines g)) p g = Some g'" "grid_wf g'"
    "history_size g' = history_size g" "screen_lines g' = screen_lines g"
    "stable_row_min g' = id_of (gl g') (topmost_line g)"
    and ids: "\<And>l. has_line (gl g) l \<Longrightarrow> id_of (gl g') l =
      (if l < 0 then id_of (gl g) l else if l < int p then stable_row_min g - int p + l else id_of (gl g) (l - int p))"
    using scroll_down_full_ids [OF assms(1,2) _ assms(5,6) sat] assms(3) by auto
  have b: "base_ok g" "base_ok g'" using assms(1) g'(2) by (simp_all add: grid_wf_def)
  have "0 < screen_lines g" using b(1) by (simp add: base_ok_def)
  then have top: "has_line (gl g) 0" "has_line (gl g') 0" "topmost_line g < 0"
    using assms(4) g'(3,4) by (simp_all add: has_line_gl [OF b(1)] has_line_gl [OF b(2)] topmost_line_def)
  have "stable_row_min g' = stable_row_min g"
    using g'(5) ids [OF has_top [OF b(1)]] top(3) assms(2) by (simp add: ids_ok_def)
  moreover have "id_of (gl g') 0 = stable_row_min g - int p" using ids [OF top(1)] assms(5) by simp
  moreover have "len (raw g') \<noteq> 0" using b(2) by (simp add: base_ok_def)
  ultimately have "line_for_stable_row_id g' (stable_row_min g - int p) = Some None"
    using assms(5) by (simp add: line_for_stable_row_id_def)
  then show ?thesis using g'(1) stable_id_eq [OF b(2) top(2)] \<open>id_of (gl g') 0 = _\<close> by simp
qed

lemma scroll_down_hides_ids_witness:
  "\<exists>g h g' i. grid_new 3 2 4 = Some g \<and> scroll_up (0, 3) 1 g = Some h \<and> scroll_down (0, 3) 1 h = Some g' \<and>
    stable_row_id_for_line g' 0 = Some i \<and> line_for_stable_row_id g' i = Some None"
proof -
  obtain g where g: "grid_new 3 2 4 = Some g" "grid_wf g" "screen_lines g = 3" "history_size g = 0"
    "max_scroll_limit g = 4"
    using grid_new_wf [of 3 2 4] by auto
  have i: "ids_ok g" "stable_row_max g = 2" using grid_new_ids [of 3 2 4 g] g(1) by simp_all
  obtain h where h: "scroll_up (0, 3) 1 g = Some h" "grid_wf h" "ids_ok h" "history_size h = 1" "screen_lines h = 3"
    and ids: "\<And>l. has_line (gl h) l \<Longrightarrow> id_of (gl h) l = (if l + 1 < 3 then id_of (gl g) (l + 1) else 2 + (l + 1 - 3) + 1)"
    using scroll_up_full_ids [OF g(2) i(1), of 1] i(2) g by auto
  have "region_ok (0, 3) 1 g" using g(3) by (simp add: region_ok_def)
  from scroll_up_eq [OF g(2) this] h(1) have "keeps (g\<lparr>display_offset := display_offset h\<rparr>) h" by auto
  then have "max_scroll_limit h = 4" using keepsD(5) g(5) by fastforce
  have b: "base_ok h" "base_ok g" using h(2) g(2) by (simp_all add: grid_wf_def)
  have "stable_row_min h = id_of (gl h) (- 1)" using h(3,4) by (simp add: ids_ok_def topmost_line_def)
  also have "\<dots> = id_of (gl g) 0" using ids [of "- 1"] h(4,5) by (simp add: has_line_gl [OF b(1)])
  also have "\<dots> = 0" using i(1) g(4) grid_new_ids [of 3 2 4 g] g(1) by (simp add: ids_ok_def topmost_line_def)
  finally have m: "stable_row_min h = 0" .
  have "\<exists>g' i. scroll_down (0, int (screen_lines h)) 1 h = Some g' \<and>
    stable_row_id_for_line g' 0 = Some i \<and> line_for_stable_row_id g' i = Some None"
    by (rule scroll_down_hides_ids [OF h(2,3)]) (use h(4,5) \<open>max_scroll_limit h = 4\<close> m in simp_all)
  then show ?thesis using g(1) h(1,5) by auto
qed

end
