(* ===== verification/TermIndex.thy ===== *)
theory TermIndex
  imports GridEdit GridProps "HOL-Library.Signed_Division"
begin

text \<open>
  Positions in the terminal (\<open>alacritty_terminal/src/index.rs\<close>): moving a point by a number of
  columns, with the three ways to clamp it. The dimensions are those of a grid.
\<close>

section \<open>Definitions\<close>

datatype direction = Leftward | Rightward

fun opposite :: "direction \<Rightarrow> direction" where
  "opposite Rightward = Leftward"
| "opposite Leftward = Rightward"

datatype boundary = Cursor_Boundary | Grid_Boundary | No_Boundary

definition total_lines :: "grid \<Rightarrow> nat" where
  "total_lines g = len (raw g)"

fun line_clamp :: "grid \<Rightarrow> boundary \<Rightarrow> int \<Rightarrow> int" where
  "line_clamp g Cursor_Boundary l = max 0 (min (bottommost_line g) l)"
| "line_clamp g Grid_Boundary l = max (topmost_line g) (min (bottommost_line g) l)"
| "line_clamp g No_Boundary l =
     (let n = int (screen_lines g); total = int (total_lines g)
      in if l \<ge> n then topmost_line g + (l - n) smod total
         else bottommost_line g + (l - n + 1) smod total)"

definition point_clamp :: "grid \<Rightarrow> boundary \<Rightarrow> point \<Rightarrow> point" where
  "point_clamp g b p =
     (let p = p\<lparr>pt_column := min (pt_column p) (last_column g)\<rparr>
      in if b = Cursor_Boundary \<and> pt_line p < 0 then \<lparr>pt_line = 0, pt_column = 0\<rparr>
         else if b = Grid_Boundary \<and> pt_line p < topmost_line g
         then \<lparr>pt_line = topmost_line g, pt_column = 0\<rparr>
         else if b \<noteq> No_Boundary \<and> pt_line p > bottommost_line g
         then \<lparr>pt_line = bottommost_line g, pt_column = last_column g\<rparr>
         else if b = No_Boundary then p\<lparr>pt_line := line_clamp g b (pt_line p)\<rparr>
         else p)"

definition point_sub :: "grid \<Rightarrow> boundary \<Rightarrow> nat \<Rightarrow> point \<Rightarrow> point" where
  "point_sub g b rhs p =
     (let cols = columns g;
          line_changes = (rhs + cols - 1 - pt_column p) div cols
      in point_clamp g b
           \<lparr>pt_line = pt_line p - int line_changes,
            pt_column = (cols + pt_column p - rhs mod cols) mod cols\<rparr>)"

definition point_add :: "grid \<Rightarrow> boundary \<Rightarrow> nat \<Rightarrow> point \<Rightarrow> point" where
  "point_add g b rhs p =
     (let cols = columns g
      in point_clamp g b
           \<lparr>pt_line = pt_line p + int ((rhs + pt_column p) div cols),
            pt_column = (pt_column p + rhs) mod cols\<rparr>)"

section \<open>Points as numbers\<close>

definition in_grid :: "grid \<Rightarrow> point \<Rightarrow> bool" where
  "in_grid g p \<longleftrightarrow> topmost_line g \<le> pt_line p \<and> pt_line p \<le> bottommost_line g \<and> pt_column p < columns g"

definition cell_number :: "grid \<Rightarrow> point \<Rightarrow> int" where
  "cell_number g p = pt_line p * int (columns g) + int (pt_column p)"

lemma clamp_in_grid:
  assumes "in_grid g p"
  shows "point_clamp g Grid_Boundary p = p"
proof -
  have "min (pt_column p) (last_column g) = pt_column p" using assms by (auto simp: in_grid_def last_column_def min_def)
  then show ?thesis using assms by (simp add: point_clamp_def in_grid_def)
qed

lemma point_clamp_in_grid:
  assumes "grid_wf g"
  shows "in_grid g (point_clamp g Grid_Boundary p)"
proof -
  have "0 < columns g" "topmost_line g \<le> bottommost_line g"
    using grid_dims [OF assms] by (simp_all add: topmost_line_def bottommost_line_def)
  then show ?thesis by (auto simp: point_clamp_def in_grid_def last_column_def Let_def)
qed

lemma cell_number_div:
  assumes "pt_column p < columns g"
  shows "cell_number g p div int (columns g) = pt_line p" "cell_number g p mod int (columns g) = int (pt_column p)"
  using assms by (simp_all add: cell_number_def)

lemma cell_number_inj:
  assumes "pt_column p < columns g" "pt_column q < columns g" "cell_number g p = cell_number g q"
  shows "p = q"
  using cell_number_div [OF assms(1)] cell_number_div [OF assms(2)] assms(3) by simp

text \<open>The point moved, before it is clamped.\<close>

lemma add_number:
  "0 < columns g \<Longrightarrow> cell_number g
     \<lparr>pt_line = pt_line p + int ((n + pt_column p) div columns g), pt_column = (pt_column p + n) mod columns g\<rparr> =
   cell_number g p + int n"
proof -
  have "int ((pt_column p + n) div columns g) * int (columns g) + int ((pt_column p + n) mod columns g) =
      int (pt_column p + n)"
    by (metis div_mult_mod_eq of_nat_add of_nat_mult)
  then show ?thesis by (simp add: cell_number_def algebra_simps)
qed

lemma sub_number:
  assumes "pt_column p < columns g"
  shows "cell_number g
     \<lparr>pt_line = pt_line p - int ((n + columns g - 1 - pt_column p) div columns g),
      pt_column = (columns g + pt_column p - n mod columns g) mod columns g\<rparr> =
   cell_number g p - int n"
proof -
  define c where "c = columns g"
  define k where "k = pt_column p"
  have k: "k < c" using assms by (simp add: k_def c_def)
  define q where "q = n div c"
  define r where "r = n mod c"
  have n: "n = q * c + r" "r < c" using k by (simp_all add: q_def r_def)
  define D where "D = (n + c - 1 - k) div c"
  define M where "M = (c + k - r) mod c"
  have D: "int D * int c = int ((if r \<le> k then q else q + 1) * c)"
  proof (cases "r \<le> k")
    case True
    then have "n + c - 1 - k = q * c + (c - 1 - (k - r))" using n k by simp
    moreover have "(q * c + (c - 1 - (k - r))) div c = q" using k by (intro div_nat_eqI) (auto simp: algebra_simps)
    ultimately have "(n + c - 1 - k) div c = q" by simp
    then show ?thesis using True by (simp add: D_def)
  next
    case False
    then have "n + c - 1 - k = (q + 1) * c + (r - k - 1)" using n k by simp
    moreover have "r - k - 1 < c" using n(2) by simp
    ultimately have "(n + c - 1 - k) div c = q + 1"
      by (metis add.commute div_mult_self1 div_less less_nat_zero_code mult.commute not_gr0 add_0)
    then show ?thesis using False by (simp add: D_def algebra_simps)
  qed
  have M: "int M = int k - int r + (if r \<le> k then 0 else int c)"
  proof (cases "r \<le> k")
    case True
    then have "c + k - r = (k - r) + c" by simp
    then have "(c + k - r) mod c = (k - r) mod c" by (simp only: mod_add_self2)
    then have "(c + k - r) mod c = k - r" using k by simp
    then show ?thesis using True by (simp add: M_def)
  next
    case False
    then have "c + k - r < c" using n(2) by linarith
    then show ?thesis using False n(2) by (simp add: M_def)
  qed
  have "(pt_line p - int D) * int c + int M = pt_line p * int c + int k - int n"
  proof (cases "r \<le> k")
    case True
    then show ?thesis using D M n(1) by (simp add: left_diff_distrib)
  next
    case False
    then have "int D * int c = int q * int c + int c" "int M = int k - int r + int c"
      using D M by (simp_all add: algebra_simps)
    then show ?thesis using n(1) by (simp add: left_diff_distrib)
  qed
  then show ?thesis
    by (simp only: cell_number_def point.select_convs c_def [symmetric] k_def [symmetric] r_def [symmetric]
        D_def [symmetric] M_def [symmetric])
qed

lemma point_sub_number:
  assumes "pt_column p < columns g" "in_grid g q" "cell_number g q = cell_number g p - int n"
  shows "point_sub g Grid_Boundary n p = q"
proof -
  let ?q = "\<lparr>pt_line = pt_line p - int ((n + columns g - 1 - pt_column p) div columns g),
      pt_column = (columns g + pt_column p - n mod columns g) mod columns g\<rparr>"
  have "?q = q"
    using assms sub_number [OF assms(1), of n]
    by (intro cell_number_inj [of _ g]) (auto simp: in_grid_def intro!: mod_less_divisor)
  then show ?thesis using clamp_in_grid [OF assms(2)] by (simp add: point_sub_def Let_def)
qed

lemma point_add_number:
  assumes "pt_column p < columns g" "in_grid g q" "cell_number g q = cell_number g p + int n"
  shows "point_add g Grid_Boundary n p = q"
proof -
  let ?q = "\<lparr>pt_line = pt_line p + int ((n + pt_column p) div columns g),
      pt_column = (pt_column p + n) mod columns g\<rparr>"
  have "?q = q"
    using assms add_number [of g p n]
    by (intro cell_number_inj [of _ g]) (auto simp: in_grid_def intro!: mod_less_divisor)
  then show ?thesis using clamp_in_grid [OF assms(2)] by (simp add: point_add_def Let_def)
qed

section \<open>Properties\<close>

text \<open>Moving a point of the grid forward and backward by columns is exact as long as it stays in the
  grid: it moves over line ends by that many cells, and moving back gives the point again.\<close>

theorem point_add_sub:
  assumes "in_grid g p" "in_grid g q" "cell_number g q = cell_number g p + int n"
  shows "point_add g Grid_Boundary n p = q \<and> point_sub g Grid_Boundary n q = p"
  using point_add_number [of p g q n] point_sub_number [of q g p n] assms by (auto simp: in_grid_def)

lemma point_add_sub_witness:
  "\<exists>g. grid_new 3 2 4 = Some g \<and>
    point_add g Grid_Boundary 3 \<lparr>pt_line = 0, pt_column = 1\<rparr> = \<lparr>pt_line = 2, pt_column = 0\<rparr> \<and>
    point_sub g Grid_Boundary 3 \<lparr>pt_line = 2, pt_column = 0\<rparr> = \<lparr>pt_line = 0, pt_column = 1\<rparr>"
proof -
  obtain g where g: "grid_new 3 2 4 = Some g" "screen_lines g = 3" "columns g = 2" "history_size g = 0"
    using grid_new_wf [of 3 2 4] by auto
  then show ?thesis
    using point_add_sub [of g "\<lparr>pt_line = 0, pt_column = 1\<rparr>" "\<lparr>pt_line = 2, pt_column = 0\<rparr>" 3]
    by (simp add: in_grid_def cell_number_def topmost_line_def bottommost_line_def)
qed

end
