(* ===== verification/Selection.thy ===== *)
theory Selection
  imports TermIndex
begin

text \<open>
  Text selections (\<open>alacritty_terminal/src/selection.rs\<close>): two anchors, each a point and a side of
  its cell, that move with the text when it scrolls and become a range of cells. The range of a
  selection of any kind is in \<open>TermSearch\<close>, beside the searches for words and lines.
\<close>

section \<open>Definitions\<close>

record anchor =
  a_point :: point
  a_side :: direction

datatype selection_type = Simple | Block | Semantic | Lines

record selection =
  sel_ty :: selection_type
  sel_start :: anchor
  sel_end :: anchor

record selection_range =
  range_from :: point
  range_to :: point
  is_block :: bool

definition range_contains :: "selection_range \<Rightarrow> point \<Rightarrow> bool" where
  "range_contains r p \<longleftrightarrow>
     pt_line (range_from r) \<le> pt_line p \<and> pt_line p \<le> pt_line (range_to r) \<and>
     (pt_column (range_from r) \<le> pt_column p \<or> pt_line (range_from r) \<noteq> pt_line p \<and> \<not> is_block r) \<and>
     (pt_column p \<le> pt_column (range_to r) \<or> pt_line (range_to r) \<noteq> pt_line p \<and> \<not> is_block r)"

definition selection_new :: "selection_type \<Rightarrow> point \<Rightarrow> direction \<Rightarrow> selection" where
  "selection_new ty p s =
     \<lparr>sel_ty = ty, sel_start = \<lparr>a_point = p, a_side = s\<rparr>, sel_end = \<lparr>a_point = p, a_side = s\<rparr>\<rparr>"

definition selection_update :: "point \<Rightarrow> direction \<Rightarrow> selection \<Rightarrow> selection" where
  "selection_update p s sel = sel\<lparr>sel_end := \<lparr>a_point = p, a_side = s\<rparr>\<rparr>"

text \<open>The anchors in reading order, and the way back.\<close>

definition swapped :: "selection \<Rightarrow> bool" where
  "swapped sel \<longleftrightarrow> point_less (a_point (sel_end sel)) (a_point (sel_start sel))"

definition ordered :: "selection \<Rightarrow> anchor \<times> anchor" where
  "ordered sel = (if swapped sel then (sel_end sel, sel_start sel) else (sel_start sel, sel_end sel))"

definition put_anchors :: "bool \<Rightarrow> anchor \<Rightarrow> anchor \<Rightarrow> selection \<Rightarrow> selection" where
  "put_anchors sw s e sel =
     (if sw then sel\<lparr>sel_start := e, sel_end := s\<rparr> else sel\<lparr>sel_start := s, sel_end := e\<rparr>)"

definition in_lines :: "int \<Rightarrow> int \<Rightarrow> anchor \<Rightarrow> bool" where
  "in_lines lo hi a \<longleftrightarrow> (lo \<le> pt_line (a_point a) \<or> lo = 0) \<and> pt_line (a_point a) < hi"

definition set_line :: "int \<Rightarrow> anchor \<Rightarrow> anchor" where
  "set_line l a = a\<lparr>a_point := a_point a\<lparr>pt_line := l\<rparr>\<rparr>"

definition rotate_start :: "grid \<Rightarrow> int \<Rightarrow> int \<Rightarrow> int \<Rightarrow> selection_type \<Rightarrow> anchor \<Rightarrow> anchor \<Rightarrow> anchor option" where
  "rotate_start g lo hi delta ty s e =
     (if in_lines lo hi s
      then let l = min (pt_line (a_point s) - delta) (bottommost_line g)
           in if hi \<le> l \<and> pt_line (a_point e) < hi then None
              else if l < lo \<and> lo \<noteq> 0
              then Some (set_line lo
                     (if ty \<noteq> Block then s\<lparr>a_point := a_point s\<lparr>pt_column := 0\<rparr>, a_side := Leftward\<rparr> else s))
              else Some (set_line l s)
      else Some s)"

definition rotate_end :: "grid \<Rightarrow> int \<Rightarrow> int \<Rightarrow> int \<Rightarrow> selection_type \<Rightarrow> anchor \<Rightarrow> anchor \<Rightarrow> anchor option" where
  "rotate_end g lo hi delta ty s e =
     (if in_lines lo hi e
      then let l = min (pt_line (a_point e) - delta) (bottommost_line g)
           in if l < pt_line (a_point s) then None
              else if hi \<le> l
              then Some (set_line (hi - 1)
                     (if ty \<noteq> Block then e\<lparr>a_point := a_point e\<lparr>pt_column := last_column g\<rparr>, a_side := Rightward\<rparr>
                      else e))
              else Some (set_line l e)
      else Some e)"

definition selection_rotate :: "grid \<Rightarrow> int \<times> int \<Rightarrow> int \<Rightarrow> selection \<Rightarrow> selection option" where
  "selection_rotate g region delta sel =
     (let (lo, hi) = region; sw = swapped sel; (s, e) = ordered sel
      in do { s \<leftarrow> rotate_start g lo hi delta (sel_ty sel) s e;
              e \<leftarrow> rotate_end g lo hi delta (sel_ty sel) s e;
              Some (put_anchors sw s e sel) })"

definition selection_is_empty :: "selection \<Rightarrow> bool" where
  "selection_is_empty sel =
     (case sel_ty sel of
        Simple \<Rightarrow>
          (let (s, e) = ordered sel
           in s = e \<or>
              a_side s = Rightward \<and> a_side e = Leftward \<and> pt_line (a_point s) = pt_line (a_point e) \<and>
              pt_column (a_point s) + 1 = pt_column (a_point e))
      | Block \<Rightarrow>
          (let s = sel_start sel; e = sel_end sel
           in pt_column (a_point s) = pt_column (a_point e) \<and> a_side s = a_side e \<or>
              pt_column (a_point s) + 1 = pt_column (a_point e) \<and> a_side s = Rightward \<and> a_side e = Leftward \<or>
              pt_column (a_point e) + 1 = pt_column (a_point s) \<and> a_side s = Leftward \<and> a_side e = Rightward)
      | _ \<Rightarrow> False)"

text \<open>The range is given by its first and its last line.\<close>

definition intersects_range :: "int \<Rightarrow> int \<Rightarrow> selection \<Rightarrow> bool" where
  "intersects_range first_line last_line sel \<longleftrightarrow>
     (let a = pt_line (a_point (sel_start sel)); b = pt_line (a_point (sel_end sel))
      in min a b \<le> last_line \<and> first_line \<le> max a b)"

definition include_all :: "selection \<Rightarrow> selection" where
  "include_all sel =
     (let s = a_point (sel_start sel); e = a_point (sel_end sel);
          back = (if sel_ty sel = Block
                  then pt_column e < pt_column s \<or> pt_column s = pt_column e \<and> pt_line e < pt_line s
                  else point_less e s)
      in sel\<lparr>sel_start := sel_start sel\<lparr>a_side := if back then Rightward else Leftward\<rparr>,
             sel_end := sel_end sel\<lparr>a_side := if back then Leftward else Rightward\<rparr>\<rparr>)"

definition range_simple :: "selection \<Rightarrow> nat \<Rightarrow> anchor \<Rightarrow> anchor \<Rightarrow> selection_range option" where
  "range_simple sel cols s e =
     (if selection_is_empty sel then None
      else let e = (if a_side e = Leftward \<and> a_point s \<noteq> a_point e
                    then e\<lparr>a_point := (if pt_column (a_point e) = 0
                                       then \<lparr>pt_line = pt_line (a_point e) - 1, pt_column = cols - 1\<rparr>
                                       else a_point e\<lparr>pt_column := pt_column (a_point e) - 1\<rparr>)\<rparr>
                    else e);
               s = (if a_side s = Rightward \<and> a_point s \<noteq> a_point e
                    then s\<lparr>a_point := (if pt_column (a_point s) + 1 = cols
                                       then \<lparr>pt_line = pt_line (a_point s) + 1, pt_column = 0\<rparr>
                                       else a_point s\<lparr>pt_column := pt_column (a_point s) + 1\<rparr>)\<rparr>
                    else s)
           in Some \<lparr>range_from = a_point s, range_to = a_point e, is_block = False\<rparr>)"

definition range_block :: "selection \<Rightarrow> anchor \<Rightarrow> anchor \<Rightarrow> selection_range option" where
  "range_block sel s e =
     (if selection_is_empty sel then None
      else let (s, e) = (if pt_column (a_point e) < pt_column (a_point s)
                         then (s\<lparr>a_side := a_side e, a_point := a_point s\<lparr>pt_column := pt_column (a_point e)\<rparr>\<rparr>,
                               e\<lparr>a_side := a_side s, a_point := a_point e\<lparr>pt_column := pt_column (a_point s)\<rparr>\<rparr>)
                         else (s, e));
               e = (if a_side e = Leftward \<and> a_point s \<noteq> a_point e \<and> 0 < pt_column (a_point e)
                    then e\<lparr>a_point := a_point e\<lparr>pt_column := pt_column (a_point e) - 1\<rparr>\<rparr> else e);
               s = (if a_side s = Rightward \<and> a_point s \<noteq> a_point e
                    then s\<lparr>a_point := a_point s\<lparr>pt_column := pt_column (a_point s) + 1\<rparr>\<rparr> else s)
           in Some \<lparr>range_from = a_point s, range_to = a_point e, is_block = True\<rparr>)"

end
