(* ===== verification/TermSearch.thy ===== *)
theory TermSearch
  imports TermIndex Selection
begin

text \<open>
  Searching the terminal (\<open>alacritty_terminal/src/term/search.rs\<close>): brackets, words, lines and single
  characters, and the ranges of words and lines of a selection (\<open>selection.rs\<close>). Regular expressions
  are left out.
\<close>

section \<open>Walking the grid\<close>

text \<open>The positions a \<open>GridIterator\<close> yields from a point on, forwards and backwards.\<close>

definition grid_end :: "grid \<Rightarrow> point" where
  "grid_end g = \<lparr>pt_line = bottommost_line g, pt_column = last_column g\<rparr>"

definition grid_next :: "grid \<Rightarrow> point \<Rightarrow> point option" where
  "grid_next g p = iter_next g (grid_end g) p"

function points_after :: "grid \<Rightarrow> point \<Rightarrow> point list" where
  "points_after g p = (case grid_next g p of None \<Rightarrow> [] | Some q \<Rightarrow> q # points_after g q)"
  by pat_completeness auto
termination
  by (relation "measures [\<lambda>(g, p). nat (bottommost_line g + 1 - pt_line p), \<lambda>(g, p). last_column g - pt_column p]")
    (auto simp: grid_next_def iter_next_def grid_end_def point_less_def split: if_splits)

function points_before :: "grid \<Rightarrow> point \<Rightarrow> point list" where
  "points_before g p = (case iter_prev g p of None \<Rightarrow> [] | Some q \<Rightarrow> q # points_before g q)"
  by pat_completeness auto
termination
  by (relation "measures [\<lambda>(g, p). nat (pt_line p - topmost_line g), \<lambda>(g, p). pt_column p]")
    (auto simp: iter_prev_def point_less_def split: if_splits)

declare points_after.simps [simp del] points_before.simps [simp del]

section \<open>Brackets\<close>

definition bracket_pairs :: "(rchar \<times> rchar) list" where
  "bracket_pairs = [(40, 41), (91, 93), (123, 125), (60, 62)]"

text \<open>Whether to search forwards, and the bracket to look for.\<close>

fun find_bracket :: "(rchar \<times> rchar) list \<Rightarrow> rchar \<Rightarrow> (bool \<times> rchar) option" where
  "find_bracket [] c = None"
| "find_bracket ((b, e) # bs) c =
     (if b = c then Some (True, e) else if e = c then Some (False, b) else find_bracket bs c)"

text \<open>The outer option is a panic (indexing outside the grid), here and below.\<close>

fun bracket_scan :: "grid \<Rightarrow> rchar \<Rightarrow> rchar \<Rightarrow> nat \<Rightarrow> point list \<Rightarrow> point option option" where
  "bracket_scan g start_char end_char skip_pairs [] = Some None"
| "bracket_scan g start_char end_char skip_pairs (q # qs) =
     do { c \<leftarrow> cell_at g q;
          if ch c = end_char \<and> skip_pairs = 0 then Some (Some q)
          else if ch c = start_char then bracket_scan g start_char end_char (skip_pairs + 1) qs
          else if ch c = end_char then bracket_scan g start_char end_char (skip_pairs - 1) qs
          else bracket_scan g start_char end_char skip_pairs qs }"

definition bracket_search :: "grid \<Rightarrow> point \<Rightarrow> point option option" where
  "bracket_search g p =
     do { c \<leftarrow> cell_at g p;
          case find_bracket bracket_pairs (ch c) of
            None \<Rightarrow> Some None
          | Some (forward, end_char) \<Rightarrow>
              bracket_scan g (ch c) end_char 0 (if forward then points_after g p else points_before g p) }"

section \<open>Characters and words\<close>

definition wide_spacer :: "cell \<Rightarrow> bool" where
  "wide_spacer c \<longleftrightarrow> any_flags (cflags c) (WIDE_CHAR_SPACER OR LEADING_WIDE_CHAR_SPACER)"

definition wraps :: "cell \<Rightarrow> bool" where
  "wraps c \<longleftrightarrow> has_flags (cflags c) WRAPLINE"

text \<open>Searches give the match (\<open>Inr\<close>, the code's \<open>Ok\<close>) or where they stopped (\<open>Inl\<close>).\<close>

fun inline_left :: "grid \<Rightarrow> rstring \<Rightarrow> point \<Rightarrow> point list \<Rightarrow> (point + point) option" where
  "inline_left g needles p [] = Some (Inl p)"
| "inline_left g needles p (q # qs) =
     do { c \<leftarrow> cell_at g q;
          if pt_column q = last_column g \<and> \<not> wraps c then Some (Inl p)
          else if \<not> wide_spacer c \<and> ch c \<in> set needles then Some (Inr q)
          else inline_left g needles q qs }"

definition inline_search_left :: "grid \<Rightarrow> rstring \<Rightarrow> point \<Rightarrow> (point + point) option" where
  "inline_search_left g needles p =
     (let p = p\<lparr>pt_line := max (pt_line p) (topmost_line g)\<rparr> in inline_left g needles p (points_before g p))"

fun inline_right :: "grid \<Rightarrow> rstring \<Rightarrow> point \<Rightarrow> point list \<Rightarrow> (point + point) option" where
  "inline_right g needles p [] = Some (Inl p)"
| "inline_right g needles p (q # qs) =
     do { c \<leftarrow> cell_at g q;
          if \<not> wide_spacer c \<and> ch c \<in> set needles then Some (Inr q)
          else if pt_column q = last_column g \<and> \<not> wraps c then Some (Inl q)
          else inline_right g needles q qs }"

definition inline_search_right :: "grid \<Rightarrow> rstring \<Rightarrow> point \<Rightarrow> (point + point) option" where
  "inline_search_right g needles p =
     (let p = p\<lparr>pt_line := max (pt_line p) (topmost_line g)\<rparr>
      in do { c \<leftarrow> (if pt_column p = last_column g then map_option wraps (cell_at g p) else Some True);
              if \<not> c then Some (Inl p) else inline_right g needles p (points_after g p) })"

fun find_point :: "grid \<Rightarrow> (cell \<Rightarrow> bool) \<Rightarrow> point list \<Rightarrow> point option option" where
  "find_point g P [] = Some None"
| "find_point g P (q # qs) = do { c \<leftarrow> cell_at g q; if P c then Some (Some q) else find_point g P qs }"

definition semantic_search_left :: "grid \<Rightarrow> rstring \<Rightarrow> point \<Rightarrow> point option" where
  "semantic_search_left g escape_chars p =
     do { r \<leftarrow> inline_search_left g escape_chars p;
          case r of
            Inl q \<Rightarrow> Some q
          | Inr q \<Rightarrow> map_option (\<lambda>f. case f of None \<Rightarrow> q | Some f \<Rightarrow> f)
                       (find_point g (\<lambda>c. \<not> wide_spacer c) (points_after g q)) }"

definition semantic_search_right :: "grid \<Rightarrow> rstring \<Rightarrow> point \<Rightarrow> point option" where
  "semantic_search_right g escape_chars p =
     do { r \<leftarrow> inline_search_right g escape_chars p;
          case r of
            Inl q \<Rightarrow> Some q
          | Inr q \<Rightarrow> Some (case iter_prev g q of None \<Rightarrow> q | Some f \<Rightarrow> f) }"

section \<open>Lines\<close>

definition line_wraps :: "grid \<Rightarrow> int \<Rightarrow> bool option" where
  "line_wraps g l = map_option wraps (cell_at g \<lparr>pt_line = l, pt_column = last_column g\<rparr>)"

function line_start :: "grid \<Rightarrow> int \<Rightarrow> int option" where
  "line_start g l =
     (if l > topmost_line g
      then do { w \<leftarrow> line_wraps g (l - 1); if w then line_start g (l - 1) else Some l }
      else Some l)"
  by pat_completeness auto
termination by (relation "measure (\<lambda>(g, l). nat (l - topmost_line g))") auto

definition line_search_left :: "grid \<Rightarrow> point \<Rightarrow> point option" where
  "line_search_left g p = map_option (\<lambda>l. \<lparr>pt_line = l, pt_column = 0\<rparr>) (line_start g (pt_line p))"

function line_end :: "grid \<Rightarrow> int \<Rightarrow> int option" where
  "line_end g l =
     (if l + 1 < int (screen_lines g)
      then do { w \<leftarrow> line_wraps g l; if w then line_end g (l + 1) else Some l }
      else Some l)"
  by pat_completeness auto
termination by (relation "measure (\<lambda>(g, l). nat (int (screen_lines g) - l))") auto

definition line_search_right :: "grid \<Rightarrow> point \<Rightarrow> point option" where
  "line_search_right g p = map_option (\<lambda>l. \<lparr>pt_line = l, pt_column = last_column g\<rparr>) (line_end g (pt_line p))"

declare line_start.simps [simp del] line_end.simps [simp del]

section \<open>The ranges of words and lines\<close>

definition range_semantic :: "grid \<Rightarrow> rstring \<Rightarrow> point \<Rightarrow> point \<Rightarrow> selection_range option" where
  "range_semantic g escape_chars s e =
     do { m \<leftarrow> (if s = e then bracket_search g s else Some None);
          case m of
            Some m \<Rightarrow> Some (if point_less m s
                            then \<lparr>range_from = m, range_to = e, is_block = False\<rparr>
                            else \<lparr>range_from = s, range_to = m, is_block = False\<rparr>)
          | None \<Rightarrow>
              do { a \<leftarrow> semantic_search_left g escape_chars s;
                   b \<leftarrow> semantic_search_right g escape_chars e;
                   Some \<lparr>range_from = a, range_to = b, is_block = False\<rparr> } }"

definition range_lines :: "grid \<Rightarrow> point \<Rightarrow> point \<Rightarrow> selection_range option" where
  "range_lines g s e =
     do { a \<leftarrow> line_search_left g s;
          b \<leftarrow> line_search_right g e;
          Some \<lparr>range_from = a, range_to = b, is_block = False\<rparr> }"

section \<open>Walking, by numbers\<close>

definition cell_point :: "grid \<Rightarrow> int \<Rightarrow> point" where
  "cell_point g n = \<lparr>pt_line = n div int (columns g), pt_column = nat (n mod int (columns g))\<rparr>"

definition first_number :: "grid \<Rightarrow> int" where
  "first_number g = topmost_line g * int (columns g)"

definition last_number :: "grid \<Rightarrow> int" where
  "last_number g = int (screen_lines g) * int (columns g) - 1"

lemma cell_point_number: "pt_column p < columns g \<Longrightarrow> cell_point g (cell_number g p) = p"
  by (simp add: cell_point_def cell_number_div)

lemma number_cell_point:
  assumes "0 < columns g"
  shows "cell_number g (cell_point g n) = n"
  using assms by (simp add: cell_point_def cell_number_def)

lemma in_grid_number:
  assumes "pt_column p < columns g"
  shows "in_grid g p \<longleftrightarrow> first_number g \<le> cell_number g p \<and> cell_number g p \<le> last_number g"
proof -
  let ?c = "int (columns g)" and ?k = "int (pt_column p)"
  have k: "0 \<le> ?k" "?k < ?c" using assms by simp_all
  have "a * ?c \<le> l * ?c + ?k \<longleftrightarrow> a \<le> l" for a l
  proof
    assume "a * ?c \<le> l * ?c + ?k"
    then have "a * ?c < (l + 1) * ?c" using k by (simp add: algebra_simps)
    then show "a \<le> l" using k by simp
  next
    assume "a \<le> l"
    then have "a * ?c \<le> l * ?c" using k by (intro mult_right_mono) auto
    then show "a * ?c \<le> l * ?c + ?k" using k by linarith
  qed
  moreover have "l * ?c + ?k \<le> n * ?c - 1 \<longleftrightarrow> l \<le> n - 1" for l n
  proof
    assume "l * ?c + ?k \<le> n * ?c - 1"
    then have "l * ?c < n * ?c" using k by linarith
    then show "l \<le> n - 1" using k by simp
  next
    assume "l \<le> n - 1"
    then have "(l + 1) * ?c \<le> n * ?c" using k by (intro mult_right_mono) auto
    then show "l * ?c + ?k \<le> n * ?c - 1" using k by (simp add: algebra_simps)
  qed
  ultimately show ?thesis
    using assms by (auto simp: in_grid_def first_number_def last_number_def cell_number_def bottommost_line_def)
qed

lemma cell_point_in_grid:
  assumes "0 < columns g" "first_number g \<le> n" "n \<le> last_number g"
  shows "in_grid g (cell_point g n)"
proof -
  have "pt_column (cell_point g n) < columns g"
    using assms(1) by (simp add: cell_point_def nat_less_iff)
  from in_grid_number [OF this] show ?thesis using assms by (simp add: number_cell_point)
qed

lemma grid_next_number:
  assumes "in_grid g p"
  shows "grid_next g p = (if cell_number g p < last_number g then Some (cell_point g (cell_number g p + 1)) else None)"
proof -
  let ?c = "int (columns g)"
  have p: "pt_column p < columns g" "pt_line p \<le> bottommost_line g" using assms by (auto simp: in_grid_def)
  then have c: "0 < columns g" by simp
  have e: "cell_number g p < last_number g \<longleftrightarrow> point_less p (grid_end g)"
  proof -
    have "in_grid g (p\<lparr>pt_line := pt_line p\<rparr>)" using assms by simp
    have "cell_number g (grid_end g) = last_number g"
      using c by (simp add: cell_number_def grid_end_def last_number_def last_column_def bottommost_line_def
        left_diff_distrib of_nat_diff Suc_leI)
    moreover have "in_grid g (grid_end g)"
      using assms c by (simp add: in_grid_def grid_end_def last_column_def)
    moreover have "cell_number g p \<le> last_number g" using assms in_grid_number [OF p(1)] by simp
    moreover have "p = grid_end g" if "cell_number g p = cell_number g (grid_end g)"
      using cell_number_inj [OF p(1) _ that] c by (simp add: grid_end_def last_column_def)
    moreover have "point_less p (grid_end g) \<longleftrightarrow> p \<noteq> grid_end g"
      using p by (cases p) (auto simp: point_less_def grid_end_def last_column_def)
    ultimately show ?thesis by fastforce
  qed
  show ?thesis
  proof (cases "pt_column p \<ge> last_column g")
    case True
    then have k: "pt_column p = columns g - 1" using p(1) by (simp add: last_column_def)
    then have "cell_number g p + 1 = (pt_line p + 1) * ?c"
      using c by (simp add: cell_number_def algebra_simps of_nat_diff Suc_leI)
    then have "cell_point g (cell_number g p + 1) = \<lparr>pt_line = pt_line p + 1, pt_column = 0\<rparr>"
      using c by (simp add: cell_point_def)
    then show ?thesis using e True by (simp add: grid_next_def iter_next_def)
  next
    case False
    then have "pt_column (p\<lparr>pt_column := pt_column p + 1\<rparr>) < columns g" by (simp add: last_column_def)
    from cell_point_number [OF this]
    have "cell_point g (cell_number g p + 1) = p\<lparr>pt_column := pt_column p + 1\<rparr>"
      by (simp add: cell_number_def algebra_simps)
    then show ?thesis using e False by (simp add: grid_next_def iter_next_def)
  qed
qed

lemma iter_prev_number:
  assumes "in_grid g p"
  shows "iter_prev g p = (if first_number g < cell_number g p then Some (cell_point g (cell_number g p - 1)) else None)"
proof -
  let ?c = "int (columns g)"
  have p: "pt_column p < columns g" "topmost_line g \<le> pt_line p" using assms by (auto simp: in_grid_def)
  then have c: "0 < columns g" by simp
  let ?z = "\<lparr>pt_line = topmost_line g, pt_column = 0\<rparr>"
  have e: "first_number g < cell_number g p \<longleftrightarrow> point_less ?z p"
  proof -
    have z: "cell_number g ?z = first_number g" by (simp add: cell_number_def first_number_def)
    have "first_number g \<le> cell_number g p" using assms in_grid_number [OF p(1)] by simp
    moreover have "p = ?z" if "cell_number g p = first_number g"
      using cell_number_inj [of p g ?z] p(1) c z that by simp
    moreover have "point_less ?z p \<longleftrightarrow> p \<noteq> ?z" using p(2) by (cases p) (auto simp: point_less_def)
    ultimately show ?thesis using z by fastforce
  qed
  show ?thesis
  proof (cases "pt_column p = 0")
    case True
    let ?q = "\<lparr>pt_line = pt_line p - 1, pt_column = last_column g\<rparr>"
    have "cell_number g ?q = cell_number g p - 1"
      using True c by (simp add: cell_number_def last_column_def algebra_simps of_nat_diff Suc_leI)
    then have "cell_point g (cell_number g p - 1) = ?q"
      using cell_point_number [of ?q g] c by (simp add: last_column_def)
    then show ?thesis using e True by (simp add: iter_prev_def)
  next
    case False
    let ?q = "p\<lparr>pt_column := pt_column p - 1\<rparr>"
    have "cell_number g ?q = cell_number g p - 1" using False by (simp add: cell_number_def of_nat_diff Suc_leI)
    then have "cell_point g (cell_number g p - 1) = ?q"
      using cell_point_number [of ?q g] p(1) by simp
    then show ?thesis using e False by (simp add: iter_prev_def)
  qed
qed

lemma points_after_eq:
  "in_grid g p \<Longrightarrow> points_after g p = map (cell_point g) [cell_number g p + 1..last_number g]"
proof (induction g p rule: points_after.induct)
  case (1 g p)
  have c: "0 < columns g" "first_number g \<le> cell_number g p"
    using "1.prems" in_grid_number [of p g] by (auto simp: in_grid_def)
  show ?case
  proof (cases "cell_number g p < last_number g")
    case True
    let ?q = "cell_point g (cell_number g p + 1)"
    have q: "in_grid g ?q" using True c by (intro cell_point_in_grid) auto
    have s: "grid_next g p = Some ?q" using grid_next_number [OF "1.prems"] True by simp
    from "1.IH" [OF s q] show ?thesis
      using s True c(1) by (simp add: points_after.simps [of g p] number_cell_point upto_rec1 [of "cell_number g p + 1"])
  next
    case False
    then show ?thesis using grid_next_number [OF "1.prems"] by (simp add: points_after.simps [of g p])
  qed
qed

lemma points_before_eq:
  "in_grid g p \<Longrightarrow> points_before g p = map (cell_point g) (rev [first_number g..cell_number g p - 1])"
proof (induction g p rule: points_before.induct)
  case (1 g p)
  have c: "0 < columns g" "cell_number g p \<le> last_number g"
    using "1.prems" in_grid_number [of p g] by (auto simp: in_grid_def)
  show ?case
  proof (cases "first_number g < cell_number g p")
    case True
    let ?q = "cell_point g (cell_number g p - 1)"
    have q: "in_grid g ?q" using True c by (intro cell_point_in_grid) auto
    have s: "iter_prev g p = Some ?q" using iter_prev_number [OF "1.prems"] True by simp
    from "1.IH" [OF s q] show ?thesis
      using s True c(1) by (simp add: points_before.simps [of g p] number_cell_point upto_rec2 [of _ "cell_number g p - 1"])
  next
    case False
    then show ?thesis using iter_prev_number [OF "1.prems"] by (simp add: points_before.simps [of g p])
  qed
qed

section \<open>Cells read in the grid\<close>

lemma cell_in_grid: "grid_wf g \<Longrightarrow> in_grid g p \<Longrightarrow> \<exists>c. cell_at g p = Some c"
  using cell_at_eq [OF grid_wf_base] has_line_gl [OF grid_wf_base]
  by (auto simp: in_grid_def topmost_line_def bottommost_line_def)

definition char_at :: "grid \<Rightarrow> point \<Rightarrow> rchar" where
  "char_at g p = (case cell_at g p of None \<Rightarrow> 0 | Some c \<Rightarrow> ch c)"

lemma in_grid_after: "in_grid g p \<Longrightarrow> q \<in> set (points_after g p) \<Longrightarrow> in_grid g q"
  using in_grid_number [of p g] by (auto simp: points_after_eq in_grid_def [of g p] intro!: cell_point_in_grid)

lemma in_grid_before: "in_grid g p \<Longrightarrow> q \<in> set (points_before g p) \<Longrightarrow> in_grid g q"
  using in_grid_number [of p g] by (auto simp: points_before_eq in_grid_def [of g p] intro!: cell_point_in_grid)

section \<open>Matching brackets\<close>

text \<open>The scan over the characters alone: the position of the matching bracket.\<close>

fun match_in :: "rchar \<Rightarrow> rchar \<Rightarrow> nat \<Rightarrow> rstring \<Rightarrow> nat option" where
  "match_in b e k [] = None"
| "match_in b e k (c # cs) =
     (if c = e \<and> k = 0 then Some 0
      else map_option Suc (match_in b e (if c = b then k + 1 else if c = e then k - 1 else k) cs))"

lemma bracket_scan_eq:
  "\<forall>q \<in> set ps. cell_at g q \<noteq> None \<Longrightarrow>
   bracket_scan g b e k ps = Some (map_option (nth ps) (match_in b e k (map (char_at g) ps)))"
proof (induction ps arbitrary: k)
  case (Cons q qs)
  then obtain c where "cell_at g q = Some c" by auto
  then show ?case using Cons by (simp add: char_at_def option.map_comp comp_def)
qed simp

text \<open>Openings minus closings.\<close>

definition depth :: "rchar \<Rightarrow> rchar \<Rightarrow> rstring \<Rightarrow> int" where
  "depth b e cs = int (count_list cs b) - int (count_list cs e)"

lemma depth_simps [simp]:
  "depth b e [] = 0" "depth b e (xs @ ys) = depth b e xs + depth b e ys" "depth b e (rev xs) = depth b e xs"
  by (simp_all add: depth_def)

lemma depth_Cons:
  "b \<noteq> e \<Longrightarrow> depth b e (c # cs) = (if c = b then 1 else if c = e then -1 else 0) + depth b e cs"
  by (simp add: depth_def)

lemma depth_swap: "depth e b cs = - depth b e cs"
  by (simp add: depth_def)

text \<open>A text that closes \<open>k\<close> open brackets, and none that is not open.\<close>

fun closes :: "rchar \<Rightarrow> rchar \<Rightarrow> nat \<Rightarrow> rstring \<Rightarrow> bool" where
  "closes b e k [] \<longleftrightarrow> k = 0"
| "closes b e k (c # w) \<longleftrightarrow>
     \<not> (c = e \<and> k = 0) \<and> closes b e (if c = b then k + 1 else if c = e then k - 1 else k) w"

lemma match_in_iff:
  "match_in b e k cs = Some i \<longleftrightarrow> (\<exists>w rest. cs = w @ e # rest \<and> length w = i \<and> closes b e k w)"
proof (induction cs arbitrary: k i)
  case (Cons c cs)
  let ?k = "if c = b then k + 1 else if c = e then k - 1 else k"
  show ?case
  proof (cases "c = e \<and> k = 0")
    case True
    then have "length w = 0" if "c # cs = w @ e # rest" "closes b e k w" for w rest
      using that by (cases w) auto
    then show ?thesis using True by fastforce
  next
    case False
    have "match_in b e k (c # cs) = Some i \<longleftrightarrow> (\<exists>j. i = Suc j \<and> match_in b e ?k cs = Some j)"
      using False by auto
    also have "\<dots> \<longleftrightarrow> (\<exists>j w rest. i = Suc j \<and> cs = w @ e # rest \<and> length w = j \<and> closes b e ?k w)"
      unfolding Cons.IH by blast
    also have "\<dots> \<longleftrightarrow> (\<exists>w rest. c # cs = w @ e # rest \<and> length w = i \<and> closes b e k w)"
    proof
      assume "\<exists>j w rest. i = Suc j \<and> cs = w @ e # rest \<and> length w = j \<and> closes b e ?k w"
      then obtain w rest where "cs = w @ e # rest" "i = Suc (length w)" "closes b e ?k w" by blast
      then have "c # cs = (c # w) @ e # rest \<and> length (c # w) = i \<and> closes b e k (c # w)" using False by simp
      then show "\<exists>w rest. c # cs = w @ e # rest \<and> length w = i \<and> closes b e k w" by blast
    next
      assume "\<exists>w rest. c # cs = w @ e # rest \<and> length w = i \<and> closes b e k w"
      then obtain w rest where w: "c # cs = w @ e # rest" "length w = i" "closes b e k w" by blast
      show "\<exists>j w rest. i = Suc j \<and> cs = w @ e # rest \<and> length w = j \<and> closes b e ?k w"
      proof (cases w)
        case Nil
        then show ?thesis using w False by simp
      next
        case (Cons d v)
        then show ?thesis using w by fastforce
      qed
    qed
    finally show ?thesis .
  qed
qed simp

lemma closes_iff:
  assumes "b \<noteq> e"
  shows "closes b e k w \<longleftrightarrow> int k + depth b e w = 0 \<and> (\<forall>u v. w = u @ v \<longrightarrow> 0 \<le> int k + depth b e u)"
proof (induction w arbitrary: k)
  case (Cons c w)
  let ?d = "if c = b then 1 else if c = e then -1 else (0::int)"
  let ?k = "if c = b then k + 1 else if c = e then k - 1 else k"
  have all: "(\<forall>u v. c # w = u @ v \<longrightarrow> 0 \<le> int k + depth b e u) \<longleftrightarrow>
      (\<forall>u v. w = u @ v \<longrightarrow> 0 \<le> int k + ?d + depth b e u)"
  proof -
    have "(\<forall>u v. c # w = u @ v \<longrightarrow> P u) \<longleftrightarrow> P [] \<and> (\<forall>u v. w = u @ v \<longrightarrow> P (c # u))" for P :: "rstring \<Rightarrow> bool"
      by (simp add: Cons_eq_append_conv) blast
    from this [of "\<lambda>u. 0 \<le> int k + depth b e u"] show ?thesis by (simp add: depth_Cons [OF assms] add.assoc)
  qed
  show ?case
  proof (cases "c = e \<and> k = 0")
    case True
    then have "\<not> 0 \<le> int k + ?d + depth b e []" using assms by simp
    then have "\<not> (\<forall>u v. w = u @ v \<longrightarrow> 0 \<le> int k + ?d + depth b e u)" by blast
    then show ?thesis using True all by simp
  next
    case False
    then have k: "int ?k = int k + ?d" by (auto simp: of_nat_diff)
    show ?thesis
      unfolding all using False Cons.IH [of ?k] unfolding k by (simp add: depth_Cons [OF assms] add.assoc)
  qed
qed simp

lemma closes_rev:
  assumes "b \<noteq> e" "closes b e 0 w"
  shows "closes e b 0 (rev w)"
proof -
  have w: "depth b e w = 0" "\<And>u v. w = u @ v \<Longrightarrow> 0 \<le> depth b e u"
    using assms(2) unfolding closes_iff [OF assms(1)] by auto
  have "0 \<le> depth e b u" if "rev w = u @ v" for u v
  proof -
    have "w = rev v @ rev u" using that by (metis rev_append rev_rev_ident)
    then have "0 \<le> depth b e (rev v)" "depth b e (rev v) + depth b e (rev u) = 0"
      using w depth_simps(2) by metis+
    then show ?thesis by (simp add: depth_swap [of e b])
  qed
  then show ?thesis using w(1) unfolding closes_iff [OF assms(1) [symmetric]] by (simp add: depth_swap [of e b])
qed

section \<open>Walking back\<close>

lemma step_back:
  assumes "in_grid g p"
  shows "grid_next g p = Some q \<Longrightarrow> in_grid g q \<and> iter_prev g q = Some p"
    and "iter_prev g p = Some q \<Longrightarrow> in_grid g q \<and> grid_next g q = Some p"
proof -
  have c: "0 < columns g" "pt_column p < columns g" "first_number g \<le> cell_number g p" "cell_number g p \<le> last_number g"
    using assms in_grid_number [of p g] by (auto simp: in_grid_def)
  show "in_grid g q \<and> iter_prev g q = Some p" if "grid_next g p = Some q"
  proof -
    have q: "q = cell_point g (cell_number g p + 1)" "cell_number g p < last_number g"
      using that by (auto simp: grid_next_number [OF assms] split: if_splits)
    then have i: "in_grid g q" using c by (auto intro!: cell_point_in_grid)
    then show ?thesis using c q by (simp add: iter_prev_number number_cell_point cell_point_number)
  qed
  show "in_grid g q \<and> grid_next g q = Some p" if "iter_prev g p = Some q"
  proof -
    have q: "q = cell_point g (cell_number g p - 1)" "first_number g < cell_number g p"
      using that by (auto simp: iter_prev_number [OF assms] split: if_splits)
    then have i: "in_grid g q" using c by (auto intro!: cell_point_in_grid)
    then show ?thesis using c q by (simp add: grid_next_number number_cell_point cell_point_number)
  qed
qed

lemma walk_back_after:
  "in_grid g p \<Longrightarrow> points_after g p = us @ q # vs \<Longrightarrow>
   in_grid g q \<and> points_before g q = rev us @ p # points_before g p"
proof (induction us arbitrary: p)
  case Nil
  then have "grid_next g p = Some q" by (simp add: points_after.simps [of g p] split: option.splits)
  then show ?case using step_back(1) [OF Nil.prems(1)] by (simp add: points_before.simps [of g q])
next
  case (Cons r us)
  then have r: "grid_next g p = Some r" "points_after g r = us @ q # vs"
    by (simp_all add: points_after.simps [of g p] split: option.splits)
  have b: "in_grid g r" "points_before g r = p # points_before g p"
    using step_back(1) [OF Cons.prems(1) r(1)] by (simp_all add: points_before.simps [of g r])
  show ?case using Cons.IH [OF b(1) r(2)] b(2) by simp
qed

lemma walk_back_before:
  "in_grid g p \<Longrightarrow> points_before g p = us @ q # vs \<Longrightarrow>
   in_grid g q \<and> points_after g q = rev us @ p # points_after g p"
proof (induction us arbitrary: p)
  case Nil
  then have "iter_prev g p = Some q" by (simp add: points_before.simps [of g p] split: option.splits)
  then show ?case using step_back(2) [OF Nil.prems(1)] by (simp add: points_after.simps [of g q])
next
  case (Cons r us)
  then have r: "iter_prev g p = Some r" "points_before g r = us @ q # vs"
    by (simp_all add: points_before.simps [of g p] split: option.splits)
  have b: "in_grid g r" "points_after g r = p # points_after g p"
    using step_back(2) [OF Cons.prems(1) r(1)] by (simp_all add: points_after.simps [of g r])
  show ?case using Cons.IH [OF b(1) r(2)] b(2) by simp
qed

lemma find_bracket_iff:
  "find_bracket bracket_pairs c = Some (True, e) \<longleftrightarrow> (c, e) \<in> set bracket_pairs"
  "find_bracket bracket_pairs c = Some (False, e) \<longleftrightarrow> (e, c) \<in> set bracket_pairs"
  by (auto simp: bracket_pairs_def)

lemma bracket_pair_distinct: "(b, e) \<in> set bracket_pairs \<Longrightarrow> b \<noteq> e"
  by (auto simp: bracket_pairs_def)

text \<open>The scan from one bracket finds the other, and from there the scan back finds the first.\<close>

lemma bracket_scan_back:
  assumes "b \<noteq> e" "\<forall>q \<in> set ps. cell_at g q \<noteq> None" "bracket_scan g b e 0 ps = Some (Some q)"
  shows "\<exists>us vs. ps = us @ q # vs \<and> char_at g q = e \<and>
    (\<forall>p rest. char_at g p = b \<longrightarrow> (\<forall>r \<in> set (rev us @ p # rest). cell_at g r \<noteq> None) \<longrightarrow>
       bracket_scan g e b 0 (rev us @ p # rest) = Some (Some p))"
proof -
  obtain i where i: "match_in b e 0 (map (char_at g) ps) = Some i" "q = ps ! i"
    using assms(3) bracket_scan_eq [OF assms(2), of b e 0] by auto
  then obtain w rest where w: "map (char_at g) ps = w @ e # rest" "length w = i" "closes b e 0 w"
    unfolding match_in_iff by blast
  then obtain us q' vs where us: "ps = us @ q' # vs" "w = map (char_at g) us" "char_at g q' = e"
    by (auto simp: map_eq_append_conv)
  have q: "q' = q" using us(1,2) i(2) w(2) by (auto simp: nth_append)
  have "bracket_scan g e b 0 (rev us @ p # rest) = Some (Some p)"
    if "char_at g p = b" "\<forall>r \<in> set (rev us @ p # rest). cell_at g r \<noteq> None" for p rest
  proof -
    have "map (char_at g) (rev us @ p # rest) = rev w @ b # map (char_at g) rest" using us(2) that(1) by (simp add: rev_map)
    then have "match_in e b 0 (map (char_at g) (rev us @ p # rest)) = Some (length w)"
      unfolding match_in_iff using closes_rev [OF assms(1) w(3)] by (metis length_rev)
    moreover have "length w = length (rev us)" using us(2) by simp
    ultimately show ?thesis using bracket_scan_eq [OF that(2), of e b 0] by (simp only: nth_append_length option.map)
  qed
  then show ?thesis using us q by blast
qed

section \<open>Words\<close>

definition separator :: "grid \<Rightarrow> rstring \<Rightarrow> point \<Rightarrow> bool" where
  "separator g escape_chars q \<longleftrightarrow>
     (case cell_at g q of None \<Rightarrow> False | Some c \<Rightarrow> \<not> wide_spacer c \<and> ch c \<in> set escape_chars)"

definition ends_line :: "grid \<Rightarrow> point \<Rightarrow> bool" where
  "ends_line g q \<longleftrightarrow>
     pt_column q = last_column g \<and> (case cell_at g q of None \<Rightarrow> True | Some c \<Rightarrow> \<not> wraps c)"

definition inner_cell :: "grid \<Rightarrow> rstring \<Rightarrow> point \<Rightarrow> bool" where
  "inner_cell g needles q \<longleftrightarrow> \<not> separator g needles q \<and> \<not> ends_line g q"

definition spacer_at :: "grid \<Rightarrow> point \<Rightarrow> bool" where
  "spacer_at g q \<longleftrightarrow> (case cell_at g q of None \<Rightarrow> False | Some c \<Rightarrow> wide_spacer c)"

lemma inline_left_eq:
  "\<forall>q \<in> set ps. cell_at g q \<noteq> None \<Longrightarrow>
   inline_left g needles p ps =
     Some (case dropWhile (inner_cell g needles) ps of
             [] \<Rightarrow> Inl (last (p # ps))
           | q # _ \<Rightarrow> if ends_line g q then Inl (last (p # takeWhile (inner_cell g needles) ps)) else Inr q)"
proof (induction ps arbitrary: p)
  case (Cons q qs)
  then obtain c where c: "cell_at g q = Some c" by auto
  have e: "ends_line g q \<longleftrightarrow> pt_column q = last_column g \<and> \<not> wraps c"
    "separator g needles q \<longleftrightarrow> \<not> wide_spacer c \<and> ch c \<in> set needles"
    by (simp_all add: ends_line_def separator_def c)
  show ?case
  proof (cases "inner_cell g needles q")
    case True
    then have "inline_left g needles p (q # qs) = inline_left g needles q qs" using c e by (auto simp: inner_cell_def)
    then show ?thesis using True Cons by (simp split: list.split del: dropWhile_eq_Nil_conv)
  next
    case False
    then show ?thesis using c e by (auto simp: inner_cell_def)
  qed
qed simp

lemma inline_right_eq:
  "\<forall>q \<in> set ps. cell_at g q \<noteq> None \<Longrightarrow>
   inline_right g needles p ps =
     Some (case dropWhile (inner_cell g needles) ps of
             [] \<Rightarrow> Inl (last (p # ps))
           | q # _ \<Rightarrow> if separator g needles q then Inr q else Inl q)"
proof (induction ps arbitrary: p)
  case (Cons q qs)
  then obtain c where c: "cell_at g q = Some c" by auto
  have e: "ends_line g q \<longleftrightarrow> pt_column q = last_column g \<and> \<not> wraps c"
    "separator g needles q \<longleftrightarrow> \<not> wide_spacer c \<and> ch c \<in> set needles"
    by (simp_all add: ends_line_def separator_def c)
  show ?case
  proof (cases "inner_cell g needles q")
    case True
    then have "inline_right g needles p (q # qs) = inline_right g needles q qs" using c e by (auto simp: inner_cell_def)
    then show ?thesis using True Cons by (simp split: list.split del: dropWhile_eq_Nil_conv)
  next
    case False
    then show ?thesis using c e by (auto simp: inner_cell_def)
  qed
qed simp

lemma find_point_eq:
  "\<forall>q \<in> set ps. cell_at g q \<noteq> None \<Longrightarrow>
   find_point g (\<lambda>c. \<not> wide_spacer c) ps = Some (find (\<lambda>q. \<not> spacer_at g q) ps)"
  by (induction ps) (auto simp: spacer_at_def)

text \<open>The cells between two points of the grid.\<close>

definition between :: "grid \<Rightarrow> point \<Rightarrow> point \<Rightarrow> point set" where
  "between g a b = {r. in_grid g r \<and> cell_number g a < cell_number g r \<and> cell_number g r < cell_number g b}"

lemma set_points:
  assumes "in_grid g p"
  shows "set (points_after g p) = {r. in_grid g r \<and> cell_number g p < cell_number g r}"
    and "set (points_before g p) = {r. in_grid g r \<and> cell_number g r < cell_number g p}"
proof -
  have c: "0 < columns g" "first_number g \<le> cell_number g p" "cell_number g p \<le> last_number g"
    using assms in_grid_number [of p g] by (auto simp: in_grid_def)
  have r: "in_grid g r \<longleftrightarrow> (\<exists>n. r = cell_point g n \<and> first_number g \<le> n \<and> n \<le> last_number g)" for r
    using in_grid_number [of r g] cell_point_number [of r g] cell_point_in_grid [OF c(1)]
    by (metis in_grid_def)
  show "set (points_after g p) = {r. in_grid g r \<and> cell_number g p < cell_number g r}"
    using c by (auto simp: points_after_eq [OF assms] r number_cell_point)
  show "set (points_before g p) = {r. in_grid g r \<and> cell_number g r < cell_number g p}"
    using c by (auto simp: points_before_eq [OF assms] r number_cell_point)
qed

lemma walk_on_after: "points_after g p = us @ q # vs \<Longrightarrow> vs = points_after g q"
proof (induction us arbitrary: p)
  case Nil
  then show ?case by (simp add: points_after.simps [of g p] split: option.splits)
next
  case (Cons r us)
  then show ?case by (simp add: points_after.simps [of g p] split: option.splits)
qed

lemma walk_on_before: "points_before g p = us @ q # vs \<Longrightarrow> vs = points_before g q"
proof (induction us arbitrary: p)
  case Nil
  then show ?case by (simp add: points_before.simps [of g p] split: option.splits)
next
  case (Cons r us)
  then show ?case by (simp add: points_before.simps [of g p] split: option.splits)
qed

lemma segment_after:
  assumes "in_grid g p" "points_after g p = us @ q # vs"
  shows "in_grid g q" "cell_number g p < cell_number g q" "set us = between g p q"
proof -
  show q: "in_grid g q" using walk_back_after [OF assms] by simp
  show n: "cell_number g p < cell_number g q" using set_points(1) [OF assms(1)] assms(2) by auto
  have "set us \<subseteq> set (points_before g q)" using walk_back_after [OF assms] by auto
  moreover have "set us \<subseteq> set (points_after g p)" using assms(2) by auto
  moreover have "r \<in> set us" if "in_grid g r" "cell_number g p < cell_number g r" "cell_number g r < cell_number g q" for r
  proof -
    have "r \<in> set (us @ q # points_after g q)"
      using that set_points(1) [OF assms(1)] assms(2) walk_on_after [OF assms(2)] by auto
    then show ?thesis using that set_points(1) [OF q] by auto
  qed
  ultimately show "set us = between g p q"
    unfolding set_points [OF q] set_points [OF assms(1)] between_def by blast
qed

lemma segment_before:
  assumes "in_grid g p" "points_before g p = us @ q # vs"
  shows "in_grid g q" "cell_number g q < cell_number g p" "set us = between g q p"
proof -
  have b: "in_grid g q" "points_after g q = rev us @ p # points_after g p"
    using walk_back_before [OF assms] by simp_all
  from segment_after [OF this] show "in_grid g q" "cell_number g q < cell_number g p" "set us = between g q p"
    using b by simp_all
qed

lemma cells_around:
  assumes "grid_wf g" "in_grid g p"
  shows "\<forall>q \<in> set (points_after g p). cell_at g q \<noteq> None" "\<forall>q \<in> set (points_before g p). cell_at g q \<noteq> None"
  using in_grid_after [OF assms(2)] in_grid_before [OF assms(2)] cell_in_grid [OF assms(1)] by fastforce+

lemma last_hd_rev: "last (p # us) = hd (rev us @ [p])"
  by (cases us rule: rev_cases) auto

lemma next_hd: "grid_next g q = (case points_after g q of [] \<Rightarrow> None | r # _ \<Rightarrow> Some r)"
  by (simp add: points_after.simps [of g q] split: option.split)

lemma prev_hd: "iter_prev g q = (case points_before g q of [] \<Rightarrow> None | r # _ \<Rightarrow> Some r)"
  by (simp add: points_before.simps [of g q] split: option.split)

lemma between_next:
  assumes "in_grid g p" "grid_next g p = Some q"
  shows "between g p q = {}"
proof -
  have "points_after g p = [] @ q # points_after g q" using assms(2) by (simp add: points_after.simps [of g p])
  from segment_after(3) [OF assms(1) this] show ?thesis by simp
qed

text \<open>The start of a word: only cells of the word up to the point; before it the grid begins, a line ends or
  there is a separator, with nothing but the spacers of wide characters behind it.\<close>

definition word_start :: "grid \<Rightarrow> rstring \<Rightarrow> point \<Rightarrow> point \<Rightarrow> bool" where
  "word_start g needles p a \<longleftrightarrow>
     in_grid g a \<and> cell_number g a \<le> cell_number g p \<and>
     (\<forall>r. in_grid g r \<and> cell_number g a \<le> cell_number g r \<and> cell_number g r < cell_number g p \<longrightarrow> inner_cell g needles r) \<and>
     (cell_number g a = first_number g \<or>
      (\<exists>q. in_grid g q \<and> cell_number g q < cell_number g a \<and> \<not> inner_cell g needles q \<and>
         (\<forall>r \<in> between g q a. spacer_at g r)))"

lemma word_start_intro:
  assumes "in_grid g p" "points_before g p = us @ q # vs" "\<forall>r \<in> set us. inner_cell g needles r"
    "\<not> inner_cell g needles q" "points_after g q = ss @ a # ts" "\<forall>r \<in> set ss. spacer_at g r"
    "a = p \<or> a \<in> set us"
  shows "word_start g needles p a"
proof -
  note seg = segment_before [OF assms(1,2)]
  note sega = segment_after [OF seg(1) assms(5)]
  have le: "cell_number g a \<le> cell_number g p"
    using assms(7)
  proof
    assume "a \<in> set us"
    then have "a \<in> between g q p" unfolding seg(3) .
    then show ?thesis by (simp add: between_def)
  qed simp
  have "inner_cell g needles r"
    if "in_grid g r" "cell_number g a \<le> cell_number g r" "cell_number g r < cell_number g p" for r
  proof -
    have "r \<in> between g q p" using that sega(2) by (simp add: between_def)
    then show ?thesis using assms(3) unfolding seg(3) by blast
  qed
  moreover have "\<exists>q. in_grid g q \<and> cell_number g q < cell_number g a \<and> \<not> inner_cell g needles q \<and>
      (\<forall>r \<in> between g q a. spacer_at g r)"
    using seg(1) sega(2) assms(4,6) unfolding sega(3) by (intro exI [of _ q]) simp
  ultimately show ?thesis using sega(1) le by (simp add: word_start_def)
qed

lemma last_before:
  assumes "in_grid g p"
  defines "a \<equiv> last (p # points_before g p)"
  shows "in_grid g a" "cell_number g a \<le> cell_number g p" "cell_number g a = first_number g"
proof -
  have "a = p \<or> a \<in> set (points_before g p)" by (simp add: a_def)
  then have "in_grid g a \<and> cell_number g a \<le> cell_number g p"
  proof
    assume "a \<in> set (points_before g p)"
    then show ?thesis unfolding set_points(2) [OF assms(1)] by simp
  qed (simp add: assms(1))
  then show i: "in_grid g a" "cell_number g a \<le> cell_number g p" by simp_all
  have "points_before g a = []"
  proof (cases "points_before g p = []")
    case True
    then show ?thesis by (simp add: a_def)
  next
    case False
    then have "points_before g p = butlast (points_before g p) @ a # []" by (simp add: a_def)
    from walk_on_before [OF this] show ?thesis by simp
  qed
  then have "iter_prev g a = None" by (simp add: prev_hd)
  then have "\<not> first_number g < cell_number g a" unfolding iter_prev_number [OF i(1)] by (simp split: if_splits)
  moreover have "first_number g \<le> cell_number g a" using i(1) in_grid_number [of a g] by (simp add: in_grid_def)
  ultimately show "cell_number g a = first_number g" by simp
qed

lemma split_while:
  assumes "dropWhile P xs = q # vs"
  shows "xs = takeWhile P xs @ q # vs" "\<not> P q" "\<forall>r \<in> set (takeWhile P xs). P r"
proof -
  show "xs = takeWhile P xs @ q # vs" using takeWhile_dropWhile_id [of P xs] assms by simp
  show "\<not> P q" using hd_dropWhile [of P xs] assms by simp
  show "\<forall>r \<in> set (takeWhile P xs). P r" by (auto dest: set_takeWhileD)
qed

lemma first_not_spacer:
  assumes "points_after g q = rev us @ p # ts" "\<not> spacer_at g p"
  shows "\<exists>a ss xs. find (\<lambda>r. \<not> spacer_at g r) (points_after g q) = Some a \<and> (a = p \<or> a \<in> set us) \<and>
    points_after g q = ss @ a # xs \<and> (\<forall>r \<in> set ss. spacer_at g r)"
proof -
  have f: "find (\<lambda>r. \<not> spacer_at g r) xs = (case dropWhile (spacer_at g) xs of [] \<Rightarrow> None | a # _ \<Rightarrow> Some a)" for xs
    by (induction xs) auto
  obtain a xs where d: "dropWhile (spacer_at g) (rev us @ [p]) = a # xs"
    using assms(2) by (cases "dropWhile (spacer_at g) (rev us @ [p])") auto
  have "a \<in> set (rev us @ [p])" using set_dropWhileD [of a "spacer_at g" "rev us @ [p]"] d by simp
  then have "a = p \<or> a \<in> set us" by auto
  moreover have "dropWhile (spacer_at g) (points_after g q) = a # (xs @ ts)"
    using d assms dropWhile_append2 dropWhile_append1 [of p "rev us @ [p]" "spacer_at g" ts] by simp
  ultimately show ?thesis
    using f [of "points_after g q"] split_while [of "spacer_at g" "points_after g q" a "xs @ ts"] by auto
qed

lemma semantic_left_start:
  assumes "grid_wf g" "in_grid g p" "\<not> spacer_at g p"
  shows "\<exists>a. semantic_search_left g needles p = Some a \<and> word_start g needles p a"
proof -
  let ?in = "inner_cell g needles"
  have clamp: "p\<lparr>pt_line := max (pt_line p) (topmost_line g)\<rparr> = p" using assms(2) by (simp add: in_grid_def max_def)
  note eq = inline_left_eq [OF cells_around(2) [OF assms(1,2)], of needles p]
  define us where "us = takeWhile ?in (points_before g p)"
  show ?thesis
  proof (cases "dropWhile ?in (points_before g p)")
    case Nil
    let ?a = "last (p # points_before g p)"
    have s: "semantic_search_left g needles p = Some ?a"
      using eq unfolding Nil by (simp add: semantic_search_left_def inline_search_left_def Let_def clamp)
    have "?in r" if "in_grid g r" "cell_number g r < cell_number g p" for r
      using that Nil set_points(2) [OF assms(2)] by simp
    then have "word_start g needles p ?a" using last_before [OF assms(2)] by (simp add: word_start_def)
    then show ?thesis using s by blast
  next
    case (Cons q vs)
    note w = split_while [OF Cons, folded us_def]
    note bk = walk_back_before [OF assms(2) w(1)]
    show ?thesis
    proof (cases "ends_line g q")
      case True
      let ?a = "last (p # us)"
      have s: "semantic_search_left g needles p = Some ?a"
        using eq True unfolding Cons us_def [symmetric]
        by (simp add: semantic_search_left_def inline_search_left_def Let_def clamp)
      have a: "points_after g q = [] @ ?a # tl (rev us @ p # points_after g p)"
        using bk by (cases us rule: rev_cases) simp_all
      have "word_start g needles p ?a" by (rule word_start_intro [OF assms(2) w(1,3,2) a]) simp_all
      then show ?thesis using s by blast
    next
      case False
      obtain a ss xs where a: "find (\<lambda>r. \<not> spacer_at g r) (points_after g q) = Some a" "a = p \<or> a \<in> set us"
        "points_after g q = ss @ a # xs" "\<forall>r \<in> set ss. spacer_at g r"
        using first_not_spacer [of g q us p] bk assms(3) by blast
      have "semantic_search_left g needles p = Some a"
        using eq False a(1) find_point_eq [OF cells_around(1) [OF assms(1)], of q] bk unfolding Cons us_def [symmetric]
        by (simp add: semantic_search_left_def inline_search_left_def Let_def clamp)
      then show ?thesis using word_start_intro [OF assms(2) w(1,3,2) a(3,4,2)] by blast
    qed
  qed
qed

text \<open>The end of a word: after it the grid ends, the line ends, or there is a separator.\<close>

definition word_end :: "grid \<Rightarrow> rstring \<Rightarrow> point \<Rightarrow> point \<Rightarrow> bool" where
  "word_end g needles p b \<longleftrightarrow>
     in_grid g b \<and> cell_number g p \<le> cell_number g b \<and>
     (\<forall>r. in_grid g r \<and> cell_number g p < cell_number g r \<and> cell_number g r \<le> cell_number g b \<longrightarrow> \<not> separator g needles r) \<and>
     (\<forall>r. in_grid g r \<and> cell_number g p \<le> cell_number g r \<and> cell_number g r < cell_number g b \<longrightarrow> \<not> ends_line g r) \<and>
     (cell_number g b = last_number g \<or> ends_line g b \<or>
      (\<exists>q. in_grid g q \<and> cell_number g q = cell_number g b + 1 \<and> separator g needles q))"

lemma last_after:
  assumes "in_grid g p"
  defines "b \<equiv> last (p # points_after g p)"
  shows "in_grid g b" "cell_number g p \<le> cell_number g b" "cell_number g b = last_number g"
proof -
  have "b = p \<or> b \<in> set (points_after g p)" by (simp add: b_def)
  then have "in_grid g b \<and> cell_number g p \<le> cell_number g b"
  proof
    assume "b \<in> set (points_after g p)"
    then show ?thesis unfolding set_points(1) [OF assms(1)] by simp
  qed (simp add: assms(1))
  then show i: "in_grid g b" "cell_number g p \<le> cell_number g b" by simp_all
  have "points_after g b = []"
  proof (cases "points_after g p = []")
    case True
    then show ?thesis by (simp add: b_def)
  next
    case False
    then have "points_after g p = butlast (points_after g p) @ b # []" by (simp add: b_def)
    from walk_on_after [OF this] show ?thesis by simp
  qed
  then have "grid_next g b = None" by (simp add: next_hd)
  then have "\<not> cell_number g b < last_number g" unfolding grid_next_number [OF i(1)] by (simp split: if_splits)
  moreover have "cell_number g b \<le> last_number g" using i(1) in_grid_number [of b g] by (simp add: in_grid_def)
  ultimately show "cell_number g b = last_number g" by simp
qed

lemma prev_number:
  assumes "in_grid g p" "iter_prev g p = Some q"
  shows "in_grid g q" "cell_number g q = cell_number g p - 1"
proof -
  show "in_grid g q" using step_back(2) [OF assms] by simp
  have c: "0 < columns g" using assms(1) by (simp add: in_grid_def)
  show "cell_number g q = cell_number g p - 1"
    using assms(2) unfolding iter_prev_number [OF assms(1)] by (auto simp: number_cell_point [OF c] split: if_splits)
qed

lemma number_inj: "in_grid g p \<Longrightarrow> in_grid g q \<Longrightarrow> cell_number g p = cell_number g q \<Longrightarrow> p = q"
  by (rule cell_number_inj) (auto simp: in_grid_def)

lemma word_end_intro:
  assumes "in_grid g p" "\<not> ends_line g p" "in_grid g b" "cell_number g p \<le> cell_number g b"
    "\<forall>r \<in> between g p b. inner_cell g needles r" "b = p \<or> \<not> separator g needles b"
    "cell_number g b = last_number g \<or> ends_line g b \<or>
      (\<exists>q. in_grid g q \<and> cell_number g q = cell_number g b + 1 \<and> separator g needles q)"
  shows "word_end g needles p b"
proof -
  have inner: "inner_cell g needles r"
    if "in_grid g r" "cell_number g p < cell_number g r" "cell_number g r < cell_number g b" for r
    using assms(5) that by (simp add: between_def)
  have "\<not> separator g needles r"
    if r: "in_grid g r" "cell_number g p < cell_number g r" "cell_number g r \<le> cell_number g b" for r
  proof (cases "cell_number g r = cell_number g b")
    case True
    then show ?thesis using number_inj [OF r(1) assms(3)] assms(6) r(2) by auto
  next
    case False
    then show ?thesis using inner [OF r(1,2)] r(3) by (simp add: inner_cell_def)
  qed
  moreover have "\<not> ends_line g r"
    if r: "in_grid g r" "cell_number g p \<le> cell_number g r" "cell_number g r < cell_number g b" for r
  proof (cases "cell_number g r = cell_number g p")
    case True
    then show ?thesis using number_inj [OF r(1) assms(1)] assms(2) by simp
  next
    case False
    then show ?thesis using inner [OF r(1) _ r(3)] r(2) by (simp add: inner_cell_def)
  qed
  ultimately show ?thesis using assms(3,4,7) by (simp add: word_end_def)
qed

lemma semantic_right_end:
  assumes "grid_wf g" "in_grid g p"
  shows "\<exists>b. semantic_search_right g needles p = Some b \<and> word_end g needles p b"
proof -
  let ?in = "inner_cell g needles"
  have clamp: "p\<lparr>pt_line := max (pt_line p) (topmost_line g)\<rparr> = p" using assms(2) by (simp add: in_grid_def max_def)
  note eq = inline_right_eq [OF cells_around(1) [OF assms], of needles p]
  obtain c where c: "cell_at g p = Some c" using cell_in_grid [OF assms] by blast
  show ?thesis
  proof (cases "ends_line g p")
    case True
    then have "semantic_search_right g needles p = Some p"
      using c by (simp add: semantic_search_right_def inline_search_right_def Let_def clamp ends_line_def)
    moreover have "word_end g needles p p" using True assms(2) by (auto simp: word_end_def)
    ultimately show ?thesis by blast
  next
    case here: False
    have search: "inline_search_right g needles p = inline_right g needles p (points_after g p)"
      using here c by (simp add: inline_search_right_def Let_def clamp ends_line_def)
    show ?thesis
    proof (cases "dropWhile ?in (points_after g p)")
      case Nil
      let ?b = "last (p # points_after g p)"
      have s: "semantic_search_right g needles p = Some ?b"
        using eq unfolding Nil search [symmetric] by (simp add: semantic_search_right_def)
      have all: "?in r" if "in_grid g r" "cell_number g p < cell_number g r" for r
        using that Nil set_points(1) [OF assms(2)] by simp
      have b: "?b = p \<or> \<not> separator g needles ?b"
        using all [of ?b] last_after [OF assms(2)] number_inj [of g ?b p] assms(2)
        by (cases "cell_number g ?b = cell_number g p") (auto simp: inner_cell_def)
      have "word_end g needles p ?b"
        using last_after [OF assms(2)] all b by (intro word_end_intro [OF assms(2) here]) (auto simp: between_def)
      then show ?thesis using s by blast
    next
      case (Cons q vs)
      define us where "us = takeWhile ?in (points_after g p)"
      note w = split_while [OF Cons, folded us_def]
      note seg = segment_after [OF assms(2) w(1)]
      show ?thesis
      proof (cases "separator g needles q")
        case True
        let ?b = "last (p # us)"
        have "points_before g q = rev us @ p # points_before g p" using walk_back_after [OF assms(2) w(1)] by simp
        then have prev: "iter_prev g q = Some ?b" unfolding prev_hd by (cases us rule: rev_cases) simp_all
        note b = prev_number [OF seg(1) prev]
        have s: "semantic_search_right g needles p = Some ?b"
          using eq True unfolding Cons search [symmetric] by (simp add: semantic_search_right_def prev)
        have "?b = p \<or> ?b \<in> set us" by simp
        then have "?b = p \<or> \<not> separator g needles ?b" using w(3) by (auto simp: inner_cell_def)
        moreover have "\<forall>r \<in> between g p ?b. ?in r"
        proof
          fix r assume "r \<in> between g p ?b"
          then have "r \<in> between g p q" using b(2) by (simp add: between_def)
          then show "?in r" using w(3) unfolding seg(3) by blast
        qed
        ultimately have "word_end g needles p ?b"
          using b seg True by (intro word_end_intro [OF assms(2) here]) auto
        then show ?thesis using s by blast
      next
        case False
        then have e: "ends_line g q" using w(2) by (simp add: inner_cell_def)
        have s: "semantic_search_right g needles p = Some q"
          using eq False unfolding Cons search [symmetric] by (simp add: semantic_search_right_def)
        have "word_end g needles p q"
          using seg w(3) False e by (intro word_end_intro [OF assms(2) here]) auto
        then show ?thesis using s by blast
      qed
    qed
  qed
qed

section \<open>Lines\<close>

lemma line_wraps_total: "grid_wf g \<Longrightarrow> topmost_line g \<le> l \<Longrightarrow> l \<le> bottommost_line g \<Longrightarrow> \<exists>w. line_wraps g l = Some w"
  using cell_in_grid [of g "\<lparr>pt_line = l, pt_column = last_column g\<rparr>"] grid_dims [of g]
  by (auto simp: line_wraps_def in_grid_def last_column_def)

lemma line_start_spec:
  "grid_wf g \<Longrightarrow> topmost_line g \<le> l \<Longrightarrow> l \<le> bottommost_line g \<Longrightarrow>
   \<exists>a. line_start g l = Some a \<and> topmost_line g \<le> a \<and> a \<le> l \<and>
     (\<forall>k. a \<le> k \<and> k < l \<longrightarrow> line_wraps g k = Some True) \<and> (a = topmost_line g \<or> line_wraps g (a - 1) = Some False)"
proof (induction g l rule: line_start.induct)
  case (1 g l)
  show ?case
  proof (cases "l > topmost_line g")
    case True
    obtain w where w: "line_wraps g (l - 1) = Some w" using line_wraps_total [of g "l - 1"] "1.prems" True by auto
    show ?thesis
    proof (cases w)
      case True
      obtain a where a: "line_start g (l - 1) = Some a" "topmost_line g \<le> a" "a \<le> l - 1"
        "\<forall>k. a \<le> k \<and> k < l - 1 \<longrightarrow> line_wraps g k = Some True"
        "a = topmost_line g \<or> line_wraps g (a - 1) = Some False"
        using "1.IH" [OF \<open>l > topmost_line g\<close> w True] "1.prems" \<open>l > topmost_line g\<close> by auto
      have "line_wraps g k = Some True" if "a \<le> k" "k < l" for k
        using that a(4) w True by (cases "k = l - 1") auto
      then show ?thesis using a w True \<open>l > topmost_line g\<close> by (simp add: line_start.simps [of g l])
    next
      case False
      then show ?thesis using w \<open>l > topmost_line g\<close> by (auto simp: line_start.simps [of g l])
    qed
  next
    case False
    then show ?thesis using "1.prems" by (auto simp: line_start.simps [of g l])
  qed
qed

lemma line_end_spec:
  "grid_wf g \<Longrightarrow> topmost_line g \<le> l \<Longrightarrow> l \<le> bottommost_line g \<Longrightarrow>
   \<exists>b. line_end g l = Some b \<and> l \<le> b \<and> b \<le> bottommost_line g \<and>
     (\<forall>k. l \<le> k \<and> k < b \<longrightarrow> line_wraps g k = Some True) \<and> (b = bottommost_line g \<or> line_wraps g b = Some False)"
proof (induction g l rule: line_end.induct)
  case (1 g l)
  show ?case
  proof (cases "l + 1 < int (screen_lines g)")
    case True
    obtain w where w: "line_wraps g l = Some w" using line_wraps_total [of g l] "1.prems" by auto
    show ?thesis
    proof (cases w)
      case True
      obtain b where b: "line_end g (l + 1) = Some b" "l + 1 \<le> b" "b \<le> bottommost_line g"
        "\<forall>k. l + 1 \<le> k \<and> k < b \<longrightarrow> line_wraps g k = Some True"
        "b = bottommost_line g \<or> line_wraps g b = Some False"
        using "1.IH" [OF \<open>l + 1 < int (screen_lines g)\<close> w True] "1.prems" \<open>l + 1 < int (screen_lines g)\<close>
        by (auto simp: bottommost_line_def)
      have "line_wraps g k = Some True" if "l \<le> k" "k < b" for k
        using that b(4) w True by (cases "k = l") auto
      then show ?thesis using b w True \<open>l + 1 < int (screen_lines g)\<close> by (simp add: line_end.simps [of g l])
    next
      case False
      then show ?thesis using w True "1.prems" by (auto simp: line_end.simps [of g l])
    qed
  next
    case False
    then show ?thesis using "1.prems" by (auto simp: line_end.simps [of g l] bottommost_line_def)
  qed
qed

section \<open>Selected ranges\<close>

text \<open>\<open>Selection::to_range\<close>; the outer option is a panic.\<close>

definition to_range :: "grid \<Rightarrow> rstring \<Rightarrow> selection \<Rightarrow> selection_range option option" where
  "to_range g escape_chars sel =
     (let (s, e) = ordered sel
      in if pt_line (a_point e) < topmost_line g then Some None
         else let s = s\<lparr>a_point := point_clamp g Grid_Boundary (a_point s)\<rparr>;
                  e = e\<lparr>a_point := point_clamp g Grid_Boundary (a_point e)\<rparr>
              in case sel_ty sel of
                   Simple \<Rightarrow> Some (range_simple sel (columns g) s e)
                 | Block \<Rightarrow> Some (range_block sel s e)
                 | Semantic \<Rightarrow> map_option Some (range_semantic g escape_chars (a_point s) (a_point e))
                 | Lines \<Rightarrow> map_option Some (range_lines g (a_point s) (a_point e)))"

lemma point_less_asym: "point_less p q \<Longrightarrow> \<not> point_less q p"
  by (auto simp: point_less_def)

lemma ordered_le: "ordered sel = (s, e) \<Longrightarrow> \<not> point_less (a_point e) (a_point s)"
  unfolding ordered_def using point_less_asym [of "a_point (sel_end sel)" "a_point (sel_start sel)"]
  by (cases "swapped sel") (simp_all add: swapped_def)

lemma clamp_cases:
  "pt_line p < topmost_line g \<Longrightarrow> point_clamp g Grid_Boundary p = \<lparr>pt_line = topmost_line g, pt_column = 0\<rparr>"
  "\<not> pt_line p < topmost_line g \<Longrightarrow> pt_line p > bottommost_line g \<Longrightarrow>
    point_clamp g Grid_Boundary p = \<lparr>pt_line = bottommost_line g, pt_column = last_column g\<rparr>"
  "\<not> pt_line p < topmost_line g \<Longrightarrow> \<not> pt_line p > bottommost_line g \<Longrightarrow>
    point_clamp g Grid_Boundary p = p\<lparr>pt_column := min (pt_column p) (last_column g)\<rparr>"
  by (simp_all add: point_clamp_def)

lemma clamp_mono:
  assumes "grid_wf g" "\<not> point_less q p"
  shows "\<not> point_less (point_clamp g Grid_Boundary q) (point_clamp g Grid_Boundary p)"
proof -
  have le: "topmost_line g \<le> bottommost_line g"
    using grid_dims [OF assms(1)] by (simp add: topmost_line_def bottommost_line_def)
  have lines: "pt_line p < pt_line q \<or> pt_line p = pt_line q \<and> pt_column p \<le> pt_column q"
    using assms(2) by (auto simp: point_less_def)
  consider "pt_line p < topmost_line g" | "\<not> pt_line p < topmost_line g" "pt_line p > bottommost_line g"
    | "\<not> pt_line p < topmost_line g" "\<not> pt_line p > bottommost_line g" by blast
  then show ?thesis
  proof cases
    case 1
    have "topmost_line g \<le> pt_line (point_clamp g Grid_Boundary q)"
      using point_clamp_in_grid [OF assms(1), of q] by (simp add: in_grid_def)
    then show ?thesis by (simp add: clamp_cases(1) [OF 1] point_less_def)
  next
    case 2
    then have "\<not> pt_line q < topmost_line g" "pt_line q > bottommost_line g" using lines by auto
    from clamp_cases(2) [OF this] show ?thesis using clamp_cases(2) [OF 2] by (simp add: point_less_def)
  next
    case 3
    then have q: "\<not> pt_line q < topmost_line g" using lines by auto
    show ?thesis
    proof (cases "pt_line q > bottommost_line g")
      case True
      then show ?thesis using 3 clamp_cases(2) [OF q True] clamp_cases(3) [OF 3] by (auto simp: point_less_def)
    next
      case False
      have "min (pt_column p) (last_column g) \<le> min (pt_column q) (last_column g)"
        if "pt_line p = pt_line q" using lines that by (simp add: min_le_iff_disj)
      then show ?thesis
        using lines unfolding clamp_cases(3) [OF q False] clamp_cases(3) [OF 3] point_less_def by fastforce
    qed
  qed
qed

lemma point_less_number:
  assumes "in_grid g p" "in_grid g q"
  shows "point_less p q \<longleftrightarrow> cell_number g p < cell_number g q"
proof -
  let ?c = "int (columns g)"
  have less: "pt_line a * ?c + int (pt_column a) < pt_line b * ?c + int (pt_column b)"
    if "pt_line a < pt_line b" "pt_column a < columns g" for a b :: point
  proof -
    have "(pt_line a + 1) * ?c \<le> pt_line b * ?c" using that(1) by (intro mult_right_mono) auto
    then have "pt_line a * ?c + ?c \<le> pt_line b * ?c" by (simp add: algebra_simps)
    then show ?thesis using that(2) by linarith
  qed
  show ?thesis
    using less [of p q] less [of q p] assms
    by (cases "pt_line p" "pt_line q" rule: linorder_cases) (auto simp: point_less_def cell_number_def in_grid_def)
qed

text \<open>The ranges of simple selections stay in the grid and in order.\<close>

definition before_end :: "nat \<Rightarrow> point \<Rightarrow> point" where
  "before_end cols p =
     (if pt_column p = 0 then \<lparr>pt_line = pt_line p - 1, pt_column = cols - 1\<rparr> else p\<lparr>pt_column := pt_column p - 1\<rparr>)"

definition after_start :: "nat \<Rightarrow> point \<Rightarrow> point" where
  "after_start cols p =
     (if pt_column p + 1 = cols then \<lparr>pt_line = pt_line p + 1, pt_column = 0\<rparr> else p\<lparr>pt_column := pt_column p + 1\<rparr>)"

lemma before_end_eq:
  assumes "in_grid g p" "in_grid g q" "cell_number g p < cell_number g q"
  shows "in_grid g (before_end (columns g) q)" "cell_number g (before_end (columns g) q) = cell_number g q - 1"
proof -
  have "point_less p q" using point_less_number [OF assms(1,2)] assms(3) by simp
  then have "point_less \<lparr>pt_line = topmost_line g, pt_column = 0\<rparr> q"
    using assms(1) unfolding point_less_def in_grid_def by fastforce
  then have "iter_prev g q = Some (before_end (columns g) q)"
    by (simp add: iter_prev_def before_end_def last_column_def)
  from prev_number [OF assms(2) this] show "in_grid g (before_end (columns g) q)"
    "cell_number g (before_end (columns g) q) = cell_number g q - 1" .
qed

lemma after_start_eq:
  assumes "in_grid g p" "in_grid g q" "cell_number g p < cell_number g q"
  shows "in_grid g (after_start (columns g) p)" "cell_number g (after_start (columns g) p) = cell_number g p + 1"
proof -
  have c: "0 < columns g" "pt_column p < columns g" using assms(1) by (simp_all add: in_grid_def)
  have lt: "cell_number g p < last_number g"
    using assms(2,3) in_grid_number [of q g] by (simp add: in_grid_def)
  then have "point_less p (grid_end g)"
    using grid_next_number [OF assms(1)] by (simp add: grid_next_def iter_next_def split: if_splits)
  then have n: "grid_next g p = Some (after_start (columns g) p)"
    using c by (cases "pt_column p + 1 = columns g") (simp_all add: grid_next_def iter_next_def after_start_def last_column_def)
  then show "in_grid g (after_start (columns g) p)" using step_back(1) [OF assms(1) n] by simp
  show "cell_number g (after_start (columns g) p) = cell_number g p + 1"
    using n lt number_cell_point [OF c(1), of "cell_number g p + 1"] unfolding grid_next_number [OF assms(1)] by simp
qed

lemma range_simple_Some:
  assumes "range_simple sel cols s e = Some r"
  shows "range_to r = (if a_side e = Leftward \<and> a_point s \<noteq> a_point e then before_end cols (a_point e) else a_point e)"
    and "range_from r =
      (if a_side s = Rightward \<and> a_point s \<noteq> range_to r then after_start cols (a_point s) else a_point s)"
  using assms by (auto simp: range_simple_def Let_def before_end_def after_start_def split: if_splits)

lemma range_simple_in_grid:
  assumes "in_grid g (a_point s)" "in_grid g (a_point e)" "\<not> point_less (a_point e) (a_point s)"
    "range_simple sel (columns g) s e = Some r"
  shows "in_grid g (range_from r)" "in_grid g (range_to r)"
    "cell_number g (range_from r) \<le> cell_number g (range_to r)"
proof -
  have le: "cell_number g (a_point s) \<le> cell_number g (a_point e)"
    using assms(3) point_less_number [OF assms(2,1)] by simp
  have t: "in_grid g (range_to r) \<and> cell_number g (a_point s) \<le> cell_number g (range_to r)"
  proof (cases "a_side e = Leftward \<and> a_point s \<noteq> a_point e")
    case True
    then have lt: "cell_number g (a_point s) < cell_number g (a_point e)"
      using le number_inj [OF assms(1,2)] by (simp add: le_less) blast
    have "range_to r = before_end (columns g) (a_point e)" using range_simple_Some(1) [OF assms(4)] True by simp
    then show ?thesis using before_end_eq [OF assms(1,2) lt] lt by simp
  next
    case False
    then have "range_to r = a_point e" using range_simple_Some(1) [OF assms(4)] by (simp only: if_False)
    then show ?thesis using assms(2) le by simp
  qed
  have f: "in_grid g (range_from r) \<and> cell_number g (range_from r) \<le> cell_number g (range_to r)"
  proof (cases "a_side s = Rightward \<and> a_point s \<noteq> range_to r")
    case True
    have tg: "in_grid g (range_to r)" using t by simp
    have lt: "cell_number g (a_point s) < cell_number g (range_to r)"
      using t True number_inj [OF assms(1) tg] by (simp add: le_less) blast
    have "range_from r = after_start (columns g) (a_point s)" using range_simple_Some(2) [OF assms(4)] True by simp
    then show ?thesis using after_start_eq [OF assms(1) tg lt] lt by simp
  next
    case False
    then have "range_from r = a_point s" using range_simple_Some(2) [OF assms(4)] by (simp only: if_False)
    then show ?thesis using assms(1) t by simp
  qed
  show "in_grid g (range_from r)" "in_grid g (range_to r)"
    "cell_number g (range_from r) \<le> cell_number g (range_to r)" using t f by simp_all
qed

lemma semantic_left_in_grid:
  assumes "grid_wf g" "in_grid g p"
  shows "\<exists>a. semantic_search_left g needles p = Some a \<and> in_grid g a"
proof -
  have clamp: "p\<lparr>pt_line := max (pt_line p) (topmost_line g)\<rparr> = p" using assms(2) by (simp add: in_grid_def max_def)
  note eq = inline_left_eq [OF cells_around(2) [OF assms], of needles p]
  let ?ps = "points_before g p"
  have ins: "in_grid g q" if "q = p \<or> q \<in> set ?ps" for q using that assms(2) in_grid_before [OF assms(2)] by blast
  show ?thesis
  proof (cases "inline_left g needles p ?ps")
    case None
    then show ?thesis using eq by simp
  next
    case (Some r)
    have r: "r = Inl q \<or> r = Inr q \<Longrightarrow> q = p \<or> q \<in> set ?ps" for q
    proof (cases "dropWhile (inner_cell g needles) ?ps")
      case Nil
      assume "r = Inl q \<or> r = Inr q"
      then have "q = last (p # ?ps)" using eq Some unfolding Nil by auto
      then show ?thesis by simp
    next
      case (Cons x xs)
      have x: "x \<in> set ?ps" using Cons set_dropWhileD [of x "inner_cell g needles" ?ps] by simp
      let ?us = "takeWhile (inner_cell g needles) ?ps"
      assume "r = Inl q \<or> r = Inr q"
      then have "q = last (p # ?us) \<or> q = x" using eq Some unfolding Cons by (auto split: if_splits)
      moreover have "last (p # ?us) = p \<or> last (p # ?us) \<in> set ?us" by simp
      ultimately show ?thesis using x set_takeWhileD [of q "inner_cell g needles" ?ps] by auto
    qed
    show ?thesis
    proof (cases r)
      case (Inl q)
      then show ?thesis using Some r ins [of q]
        by (simp add: semantic_search_left_def inline_search_left_def Let_def clamp)
    next
      case (Inr q)
      then have q: "in_grid g q" using r ins by blast
      have "in_grid g a" if "find (\<lambda>r. \<not> spacer_at g r) (points_after g q) = Some a" for a
        using that in_grid_after [OF q] by (auto simp: find_Some_iff)
      then show ?thesis
        using Some Inr q find_point_eq [OF cells_around(1) [OF assms(1) q]]
        by (cases "find (\<lambda>r. \<not> spacer_at g r) (points_after g q)")
          (simp_all add: semantic_search_left_def inline_search_left_def Let_def clamp)
    qed
  qed
qed

lemma range_lines_in_grid:
  assumes "grid_wf g" "in_grid g s" "in_grid g e"
  shows "\<exists>a b. range_lines g s e = Some \<lparr>range_from = a, range_to = b, is_block = False\<rparr> \<and> in_grid g a \<and> in_grid g b \<and>
    \<not> point_less s a \<and> \<not> point_less b e"
proof -
  obtain a where a: "line_start g (pt_line s) = Some a" "topmost_line g \<le> a" "a \<le> pt_line s"
    using line_start_spec [OF assms(1), of "pt_line s"] assms(2) by (auto simp: in_grid_def)
  obtain b where b: "line_end g (pt_line e) = Some b" "pt_line e \<le> b" "b \<le> bottommost_line g"
    using line_end_spec [OF assms(1), of "pt_line e"] assms(3) by (auto simp: in_grid_def)
  show ?thesis
    using a b assms(2,3)
    by (auto simp: range_lines_def line_search_left_def line_search_right_def in_grid_def last_column_def point_less_def)
qed

lemma bracket_spec:
  assumes "grid_wf g" "in_grid g p"
  shows "\<exists>r. bracket_search g p = Some r \<and>
    (\<forall>q. r = Some q \<longrightarrow> in_grid g q \<and> bracket_search g q = Some (Some p) \<and>
       ((char_at g p, char_at g q) \<in> set bracket_pairs \<or> (char_at g q, char_at g p) \<in> set bracket_pairs))"
proof -
  obtain c where c: "cell_at g p = Some c" using cell_in_grid [OF assms] by blast
  then have cp: "char_at g p = ch c" by (simp add: char_at_def)
  show ?thesis
  proof (cases "find_bracket bracket_pairs (ch c)")
    case None
    then show ?thesis using c by (simp add: bracket_search_def)
  next
    case (Some x)
    obtain f e where x: "x = (f, e)" by (cases x)
    let ?ps = "if f then points_after g p else points_before g p"
    have s: "bracket_search g p = bracket_scan g (ch c) e 0 ?ps" using c Some x by (simp add: bracket_search_def)
    have ps: "\<forall>q \<in> set ?ps. cell_at g q \<noteq> None" using cells_around [OF assms] by simp
    have "in_grid g q \<and> bracket_search g q = Some (Some p) \<and>
       ((char_at g p, char_at g q) \<in> set bracket_pairs \<or> (char_at g q, char_at g p) \<in> set bracket_pairs)"
      if q: "bracket_search g p = Some (Some q)" for q
    proof -
      have pair: "if f then (ch c, e) \<in> set bracket_pairs else (e, ch c) \<in> set bracket_pairs"
        using Some x find_bracket_iff by (cases f) auto
      then have ne: "ch c \<noteq> e" using bracket_pair_distinct by (cases f) auto
      obtain us vs where us: "?ps = us @ q # vs" "char_at g q = e"
        "\<And>p rest. char_at g p = ch c \<Longrightarrow> (\<forall>r \<in> set (rev us @ p # rest). cell_at g r \<noteq> None) \<Longrightarrow>
           bracket_scan g e (ch c) 0 (rev us @ p # rest) = Some (Some p)"
        using bracket_scan_back [OF ne ps] q unfolding s by blast
      let ?bps = "if f then points_before g q else points_after g q"
      have bk: "in_grid g q" "\<exists>rest. ?bps = rev us @ p # rest"
        using us(1) walk_back_after [OF assms(2)] walk_back_before [OF assms(2)] by (cases f; fastforce)+
      then obtain rest where rest: "?bps = rev us @ p # rest" by blast
      have "bracket_scan g e (ch c) 0 ?bps = Some (Some p)"
        unfolding rest using cells_around [OF assms(1) bk(1)] by (intro us(3)) (simp_all add: cp rest [symmetric])
      moreover obtain d where "cell_at g q = Some d" "ch d = e"
        using cell_in_grid [OF assms(1) bk(1)] us(2) by (auto simp: char_at_def)
      moreover have "find_bracket bracket_pairs e = Some (\<not> f, ch c)"
        using pair find_bracket_iff by (cases f) auto
      ultimately have "bracket_search g q = Some (Some p)"
        by (cases f) (simp_all add: bracket_search_def)
      then show ?thesis using bk(1) pair us(2) cp by (cases f) auto
    qed
    moreover have "\<exists>r. bracket_search g p = Some r" unfolding s bracket_scan_eq [OF ps] by blast
    ultimately show ?thesis by blast
  qed
qed

lemma semantic_ends_in_grid:
  assumes "grid_wf g" "in_grid g p"
  shows "\<exists>a b. semantic_search_left g needles p = Some a \<and> in_grid g a \<and>
    semantic_search_right g needles p = Some b \<and> in_grid g b"
  using semantic_left_in_grid [OF assms, of needles] semantic_right_end [OF assms, of needles]
  unfolding word_end_def by blast

lemma range_semantic_in_grid:
  assumes "grid_wf g" "in_grid g s" "in_grid g e"
  shows "\<exists>a b. range_semantic g needles s e = Some \<lparr>range_from = a, range_to = b, is_block = False\<rparr> \<and>
    in_grid g a \<and> in_grid g b"
proof -
  obtain a b where ab: "semantic_search_left g needles s = Some a" "in_grid g a"
    "semantic_search_right g needles e = Some b" "in_grid g b"
    using semantic_ends_in_grid [OF assms(1,2), of needles] semantic_ends_in_grid [OF assms(1,3), of needles] by blast
  obtain r where r: "bracket_search g s = Some r" "\<And>q. r = Some q \<Longrightarrow> in_grid g q"
    using bracket_spec [OF assms(1,2)] by blast
  show ?thesis
  proof (cases "s = e \<and> r \<noteq> None")
    case True
    then obtain q where "r = Some q" "s = e" by blast
    then show ?thesis using r assms(2,3) by (cases "point_less q s") (auto simp: range_semantic_def)
  next
    case False
    then have "(if s = e then bracket_search g s else Some None) = Some None" using r(1) by auto
    then show ?thesis using ab by (simp add: range_semantic_def)
  qed
qed

section \<open>Samples\<close>

text \<open>A line with a blank between brackets.\<close>

definition bracket_grid :: "grid option" where
  "bracket_grid =
     do { g \<leftarrow> grid_new 1 4 0;
          g \<leftarrow> set_cell \<lparr>pt_line = 0, pt_column = 0\<rparr> (cell_default\<lparr>ch := 40\<rparr>) g;
          set_cell \<lparr>pt_line = 0, pt_column = 2\<rparr> (cell_default\<lparr>ch := 41\<rparr>) g }"

lemma bracket_grid_eval:
  "map_option (\<lambda>g. (screen_lines g, columns g, history_size g))
     (Option.bind (grid_new 1 4 0) (set_cell \<lparr>pt_line = 0, pt_column = 0\<rparr> (cell_default\<lparr>ch := 40\<rparr>))) = Some (1, 4, 0)"
  "map_option (\<lambda>g. (screen_lines g, columns g, history_size g)) bracket_grid = Some (1, 4, 0)"
  "map_option (\<lambda>g. (bracket_search g \<lparr>pt_line = 0, pt_column = 0\<rparr>, spacer_at g \<lparr>pt_line = 0, pt_column = 1\<rparr>)) bracket_grid =
     Some (Some (Some \<lparr>pt_line = 0, pt_column = 2\<rparr>), False)"
  by code_simp+

lemma bracket_grid_wf:
  "\<exists>g. bracket_grid = Some g \<and> grid_wf g \<and> in_grid g \<lparr>pt_line = 0, pt_column = 0\<rparr> \<and>
     in_grid g \<lparr>pt_line = 0, pt_column = 1\<rparr> \<and>
     bracket_search g \<lparr>pt_line = 0, pt_column = 0\<rparr> = Some (Some \<lparr>pt_line = 0, pt_column = 2\<rparr>) \<and>
     \<not> spacer_at g \<lparr>pt_line = 0, pt_column = 1\<rparr>"
proof -
  have line: "has_line (gl v) 0" if "grid_wf v" "screen_lines v = 1" for v
    using that by (simp add: has_line_gl [OF grid_wf_base])
  obtain g where g: "grid_new 1 4 0 = Some g" "grid_wf g" "screen_lines g = 1" "columns g = 4"
    using grid_new_wf [of 1 4 0] by auto
  obtain h where h: "set_cell \<lparr>pt_line = 0, pt_column = 0\<rparr> (cell_default\<lparr>ch := 40\<rparr>) g = Some h" "grid_wf h"
    using set_cell_wf [OF g(2), of "\<lparr>pt_line = 0, pt_column = 0\<rparr>"] line [OF g(2,3)] g(4) by auto
  have hd: "screen_lines h = 1" "columns h = 4" using bracket_grid_eval(1) g(1) h(1) by simp_all
  obtain k where k: "set_cell \<lparr>pt_line = 0, pt_column = 2\<rparr> (cell_default\<lparr>ch := 41\<rparr>) h = Some k" "grid_wf k"
    using set_cell_wf [OF h(2), of "\<lparr>pt_line = 0, pt_column = 2\<rparr>"] line [OF h(2) hd(1)] hd(2) by auto
  have b: "bracket_grid = Some k" using g(1) h(1) k(1) by (simp add: bracket_grid_def)
  note e = bracket_grid_eval(2,3) [unfolded b, simplified]
  show ?thesis using b k(2) e by (intro exI [of _ k]) (simp add: in_grid_def topmost_line_def bottommost_line_def)
qed

section \<open>Properties\<close>

text \<open>C19: Searching for the bracket that matches the one at a point of the grid never panics, and from the
  bracket found the search leads back.\<close>

theorem bracket_search_back:
  assumes "grid_wf g" "in_grid g p"
  shows "\<exists>r. bracket_search g p = Some r \<and>
    (\<forall>q. r = Some q \<longrightarrow> in_grid g q \<and> bracket_search g q = Some (Some p) \<and>
       ((char_at g p, char_at g q) \<in> set bracket_pairs \<or> (char_at g q, char_at g p) \<in> set bracket_pairs))"
  by (rule bracket_spec [OF assms])

lemma bracket_search_back_witness:
  "\<exists>g. bracket_grid = Some g \<and>
     bracket_search g \<lparr>pt_line = 0, pt_column = 2\<rparr> = Some (Some \<lparr>pt_line = 0, pt_column = 0\<rparr>)"
proof -
  obtain g where g: "bracket_grid = Some g" "grid_wf g" "in_grid g \<lparr>pt_line = 0, pt_column = 0\<rparr>"
    "bracket_search g \<lparr>pt_line = 0, pt_column = 0\<rparr> = Some (Some \<lparr>pt_line = 0, pt_column = 2\<rparr>)"
    using bracket_grid_wf by blast
  from bracket_search_back [OF g(2,3)] show ?thesis using g by auto
qed



text \<open>A line search goes over all lines joined to a line by wrapping and no others, and never panics.\<close>

theorem logical_line_found:
  assumes "grid_wf g" "in_grid g p"
  shows "\<exists>a b. line_search_left g p = Some \<lparr>pt_line = a, pt_column = 0\<rparr> \<and>
    line_search_right g p = Some \<lparr>pt_line = b, pt_column = last_column g\<rparr> \<and>
    topmost_line g \<le> a \<and> a \<le> pt_line p \<and> pt_line p \<le> b \<and> b \<le> bottommost_line g \<and>
    (\<forall>l. a \<le> l \<and> l < b \<longrightarrow> line_wraps g l = Some True) \<and>
    (a = topmost_line g \<or> line_wraps g (a - 1) = Some False) \<and>
    (b = bottommost_line g \<or> line_wraps g b = Some False)"
proof -
  have l: "topmost_line g \<le> pt_line p" "pt_line p \<le> bottommost_line g" using assms(2) by (simp_all add: in_grid_def)
  obtain a where a: "line_start g (pt_line p) = Some a" "topmost_line g \<le> a" "a \<le> pt_line p"
    "\<forall>k. a \<le> k \<and> k < pt_line p \<longrightarrow> line_wraps g k = Some True"
    "a = topmost_line g \<or> line_wraps g (a - 1) = Some False"
    using line_start_spec [OF assms(1) l] by blast
  obtain b where b: "line_end g (pt_line p) = Some b" "pt_line p \<le> b" "b \<le> bottommost_line g"
    "\<forall>k. pt_line p \<le> k \<and> k < b \<longrightarrow> line_wraps g k = Some True"
    "b = bottommost_line g \<or> line_wraps g b = Some False"
    using line_end_spec [OF assms(1) l] by blast
  have "line_wraps g k = Some True" if "a \<le> k \<and> k < b" for k
    using that a(4) b(4) by (cases "k < pt_line p") auto
  then show ?thesis using a b by (simp add: line_search_left_def line_search_right_def)
qed

lemma logical_line_found_witness:
  "\<exists>g a. bracket_grid = Some g \<and> line_search_left g \<lparr>pt_line = 0, pt_column = 1\<rparr> = Some \<lparr>pt_line = a, pt_column = 0\<rparr>"
proof -
  obtain g where g: "bracket_grid = Some g" "grid_wf g" "in_grid g \<lparr>pt_line = 0, pt_column = 1\<rparr>"
    using bracket_grid_wf by blast
  from logical_line_found [OF g(2,3)] show ?thesis using g(1) by blast
qed

text \<open>C20: Turning a simple, word or line selection into a range never panics and gives a range of the grid,
  for simple and line selections one that does not run backwards.\<close>

theorem selection_range_in_grid:
  assumes "grid_wf g" "sel_ty sel \<noteq> Block"
  shows "\<exists>r. to_range g needles sel = Some r \<and>
    (\<forall>range. r = Some range \<longrightarrow> in_grid g (range_from range) \<and> in_grid g (range_to range) \<and> \<not> is_block range \<and>
       (sel_ty sel \<noteq> Semantic \<longrightarrow> \<not> point_less (range_to range) (range_from range)))"
proof -
  obtain s e where se: "ordered sel = (s, e)" by (cases "ordered sel")
  define s' where "s' = s\<lparr>a_point := point_clamp g Grid_Boundary (a_point s)\<rparr>"
  define e' where "e' = e\<lparr>a_point := point_clamp g Grid_Boundary (a_point e)\<rparr>"
  have i: "in_grid g (a_point s')" "in_grid g (a_point e')"
    using point_clamp_in_grid [OF assms(1)] by (simp_all add: s'_def e'_def)
  have le: "\<not> point_less (a_point e') (a_point s')"
    using clamp_mono [OF assms(1) ordered_le [OF se]] by (simp add: s'_def e'_def)
  show ?thesis
  proof (cases "pt_line (a_point e) < topmost_line g")
    case True
    then show ?thesis using se by (simp add: to_range_def)
  next
    case False
    then have r: "to_range g needles sel =
        (case sel_ty sel of
           Simple \<Rightarrow> Some (range_simple sel (columns g) s' e')
         | Block \<Rightarrow> Some (range_block sel s' e')
         | Semantic \<Rightarrow> map_option Some (range_semantic g needles (a_point s') (a_point e'))
         | Lines \<Rightarrow> map_option Some (range_lines g (a_point s') (a_point e')))"
      using se by (simp add: to_range_def Let_def s'_def e'_def split: selection_type.split)
    show ?thesis
    proof (cases "sel_ty sel")
      case Simple
      have "in_grid g (range_from range) \<and> in_grid g (range_to range) \<and> \<not> is_block range \<and>
          \<not> point_less (range_to range) (range_from range)"
        if "range_simple sel (columns g) s' e' = Some range" for range
      proof -
        note x = range_simple_in_grid [OF i le that]
        have "\<not> is_block range" using that by (auto simp: range_simple_def Let_def split: if_splits)
        then show ?thesis using x point_less_number [OF x(2,1)] by simp
      qed
      then show ?thesis using r Simple by simp
    next
      case Block
      then show ?thesis using assms(2) by simp
    next
      case Semantic
      then show ?thesis using r range_semantic_in_grid [OF assms(1) i, of needles] by auto
    next
      case Lines
      obtain a b where ab: "range_lines g (a_point s') (a_point e') = Some \<lparr>range_from = a, range_to = b, is_block = False\<rparr>"
        "in_grid g a" "in_grid g b" "\<not> point_less (a_point s') a" "\<not> point_less b (a_point e')"
        using range_lines_in_grid [OF assms(1) i] by blast
      have "\<not> point_less b a"
        using ab(4,5) le unfolding point_less_number [OF i(1) ab(2)] point_less_number [OF ab(3) i(2)]
          point_less_number [OF ab(3,2)] point_less_number [OF i(2,1)] by linarith
      then show ?thesis using r Lines ab by simp
    qed
  qed
qed

lemma selection_range_in_grid_witness:
  "\<exists>g r. bracket_grid = Some g \<and> to_range g [] (selection_new Lines \<lparr>pt_line = 7, pt_column = 9\<rparr> Leftward) = Some r \<and>
     (\<forall>range. r = Some range \<longrightarrow> in_grid g (range_from range))"
proof -
  obtain g where g: "bracket_grid = Some g" "grid_wf g" using bracket_grid_wf by blast
  have "sel_ty (selection_new Lines \<lparr>pt_line = 7, pt_column = 9\<rparr> Leftward) \<noteq> Block" by (simp add: selection_new_def)
  from selection_range_in_grid [OF g(2) this, of "[]"] show ?thesis using g(1) by blast
qed

end
