(* ===== verification/Term.thy ===== *)
theory Term
  imports Selection TermMode
begin

text \<open>
  The terminal (\<open>Term\<close> of \<open>alacritty_terminal/src/term/mod.rs\<close>): its state, the damage it keeps
  for the renderer, its tab stops, and the operations below the handler of control sequences:
  scrolling, wrapping, writing a character, swapping screens. \<open>None\<close> is a panic. What the terminal
  sends to its owner is collected in \<open>sent\<close>. The 32-bit lines and columns of the code are
  unbounded here: their sums stay far below the limit for 16-bit parameters.
\<close>

section \<open>Damage\<close>

record line_damage =
  d_line :: nat
  d_left :: nat
  d_right :: nat

definition undamaged :: "nat \<Rightarrow> nat \<Rightarrow> line_damage" where
  "undamaged line cols = \<lparr>d_line = line, d_left = cols, d_right = 0\<rparr>"

definition damage_expand :: "nat \<Rightarrow> nat \<Rightarrow> line_damage \<Rightarrow> line_damage" where
  "damage_expand left right d = d\<lparr>d_left := min (d_left d) left, d_right := max (d_right d) right\<rparr>"

definition is_damaged :: "line_damage \<Rightarrow> bool" where
  "is_damaged d \<longleftrightarrow> d_left d \<le> d_right d"

record damage_state =
  full :: bool
  dlines :: "line_damage list"
  last_cursor :: point

definition point_zero :: point where
  "point_zero = \<lparr>pt_line = 0, pt_column = 0\<rparr>"

definition damage_new :: "nat \<Rightarrow> nat \<Rightarrow> damage_state" where
  "damage_new cols lines =
     \<lparr>full = True, dlines = map (\<lambda>l. undamaged l cols) [0..<lines], last_cursor = point_zero\<rparr>"

definition damage_reset :: "nat \<Rightarrow> damage_state \<Rightarrow> damage_state" where
  "damage_reset cols d = d\<lparr>full := False, dlines := map (\<lambda>l. undamaged (d_line l) cols) (dlines d)\<rparr>"

text \<open>Lines are cast from \<open>i32\<close> to \<open>usize\<close>, so that a negative one is out of range.\<close>

definition as_usize :: "int \<Rightarrow> nat" where
  "as_usize i = nat (if i < 0 then i + 2 ^ 64 else i)"

definition state_damage_line :: "nat \<Rightarrow> nat \<Rightarrow> nat \<Rightarrow> damage_state \<Rightarrow> damage_state option" where
  "state_damage_line line left right d =
     (if line < length (dlines d)
      then Some (d\<lparr>dlines := (dlines d)[line := damage_expand left right (dlines d ! line)]\<rparr>) else None)"

text \<open>\<open>TermDamageIterator\<close>: the damaged lines of the viewport, which may be scrolled back.\<close>

definition damage_iter :: "line_damage list \<Rightarrow> nat \<Rightarrow> line_damage list" where
  "damage_iter ds offset =
     map (\<lambda>d. d\<lparr>d_line := d_line d + offset\<rparr>) (filter is_damaged (take (length ds - offset) ds))"

section \<open>Tab stops\<close>

definition tabs_new :: "nat \<Rightarrow> bool list" where
  "tabs_new cols = map (\<lambda>i. i mod 8 = 0) [0..<cols]"

definition tabs_resize :: "nat \<Rightarrow> bool list \<Rightarrow> bool list" where
  "tabs_resize cols ts = take cols ts @ map (\<lambda>i. i mod 8 = 0) [length ts..<cols]"

section \<open>State\<close>

record kb_mode =
  disambiguate_esc_codes :: bool
  report_event_types :: bool
  report_alternate_keys :: bool
  report_all_keys_as_esc :: bool
  report_associated_text :: bool

definition kb_none :: kb_mode where
  "kb_none = \<lparr>disambiguate_esc_codes = False, report_event_types = False, report_alternate_keys = False,
     report_all_keys_as_esc = False, report_associated_text = False\<rparr>"

definition kb_to_mode :: "kb_mode \<Rightarrow> term_mode" where
  "kb_to_mode k =
     (if disambiguate_esc_codes k then DISAMBIGUATE_ESC_CODES else 0) OR
     (if report_event_types k then REPORT_EVENT_TYPES else 0) OR
     (if report_alternate_keys k then REPORT_ALTERNATE_KEYS else 0) OR
     (if report_all_keys_as_esc k then REPORT_ALL_KEYS_AS_ESC else 0) OR
     (if report_associated_text k then REPORT_ASSOCIATED_TEXT else 0)"

datatype kb_apply = Replace | Union | Difference

text \<open>Cursor shapes are those of the \<open>vte\<close> crate, by number.\<close>

record cursor_style =
  shape :: nat
  blinking :: bool

record config =
  scrolling_history :: nat
  default_cursor_style :: cursor_style
  vi_mode_cursor_style :: "cursor_style option"
  kitty_keyboard :: bool
  semantic_escape_chars :: rstring

definition SEMANTIC_ESCAPE_CHARS :: rstring where
  "SEMANTIC_ESCAPE_CHARS = [44, 0x2502, 96, 124, 58, 34, 39, 32, 40, 41, 91, 93, 123, 125, 60, 62, 9]"

text \<open>The default cursor style is that of \<open>vte\<close>.\<close>

definition config_default :: "cursor_style \<Rightarrow> config" where
  "config_default style =
     \<lparr>scrolling_history = 10000, default_cursor_style = style, vi_mode_cursor_style = None,
      kitty_keyboard = False, semantic_escape_chars = SEMANTIC_ESCAPE_CHARS\<rparr>"

datatype term_out =
    MouseCursorDirty
  | CursorBlinkingChange
  | Title rstring
  | ResetTitle
  | Bell
  | PtyWrite rstring
  | Exit

record term_state =
  main :: grid
  inactive :: grid
  active_charset :: nat
  tabs :: "bool list"
  mode :: term_mode
  scroll_region :: "int \<times> int"
  cur_style :: "cursor_style option"
  title :: "rstring option"
  title_stack :: "rstring option list"
  kb_stack :: "kb_mode list"
  inactive_kb_stack :: "kb_mode list"
  damage :: damage_state
  sel :: "selection option"
  vi_cursor :: point
  conf :: config
  sent :: "term_out list"

text \<open>
  What the terminal takes from other crates: the width of a character in cells
  (\<open>unicode_width\<close>), the mapping of a character set (\<open>vte\<close>), the numbers of keyboard modes and of
  private modes (\<open>vte\<close>).
\<close>

record env =
  char_width :: "rchar \<Rightarrow> nat option"
  map_char :: "charset \<Rightarrow> rchar \<Rightarrow> rchar"
  kb_bits :: "kb_mode \<Rightarrow> nat"

definition MAX_STACK :: nat where
  "MAX_STACK = 4096"

definition term_new :: "config \<Rightarrow> nat \<Rightarrow> nat \<Rightarrow> term_state option" where
  "term_new c lines cols =
     do { g \<leftarrow> grid_new lines cols (scrolling_history c);
          h \<leftarrow> grid_new lines cols 0;
          Some \<lparr>main = g, inactive = h, active_charset = 0, tabs = tabs_new cols, mode = mode_default,
            scroll_region = (0, int lines), cur_style = None, title = None, title_stack = [],
            kb_stack = [], inactive_kb_stack = [], damage = damage_new cols lines, sel = None,
            vi_cursor = point_zero, conf = c, sent = []\<rparr> }"

section \<open>Access\<close>

definition has_mode :: "term_mode \<Rightarrow> term_state \<Rightarrow> bool" where
  "has_mode m t \<longleftrightarrow> contains_flags (mode t) m"

definition insert_mode :: "term_mode \<Rightarrow> term_state \<Rightarrow> term_state" where
  "insert_mode m t = t\<lparr>mode := mode t OR m\<rparr>"

definition drop_mode :: "term_mode \<Rightarrow> term_state \<Rightarrow> term_state" where
  "drop_mode m t = t\<lparr>mode := remove_mode (mode t) m\<rparr>"

definition send :: "term_out \<Rightarrow> term_state \<Rightarrow> term_state" where
  "send e t = t\<lparr>sent := sent t @ [e]\<rparr>"

definition mark_fully_damaged :: "term_state \<Rightarrow> term_state" where
  "mark_fully_damaged t = t\<lparr>damage := (damage t)\<lparr>full := True\<rparr>\<rparr>"

definition on_main :: "(grid \<Rightarrow> grid option) \<Rightarrow> term_state \<Rightarrow> term_state option" where
  "on_main f t = map_option (\<lambda>g. t\<lparr>main := g\<rparr>) (f (main t))"

definition cur_line :: "term_state \<Rightarrow> int" where
  "cur_line t = pt_line (point (cursor (main t)))"

definition cur_col :: "term_state \<Rightarrow> nat" where
  "cur_col t = pt_column (point (cursor (main t)))"

definition upd_cursor :: "(grid_cursor \<Rightarrow> grid_cursor) \<Rightarrow> term_state \<Rightarrow> term_state" where
  "upd_cursor f t = t\<lparr>main := (main t)\<lparr>cursor := f (cursor (main t))\<rparr>\<rparr>"

definition set_cur_line :: "int \<Rightarrow> term_state \<Rightarrow> term_state" where
  "set_cur_line l = upd_cursor (\<lambda>c. c\<lparr>point := point c\<lparr>pt_line := l\<rparr>\<rparr>)"

definition set_cur_col :: "nat \<Rightarrow> term_state \<Rightarrow> term_state" where
  "set_cur_col k = upd_cursor (\<lambda>c. c\<lparr>point := point c\<lparr>pt_column := k\<rparr>\<rparr>)"

definition set_wrap :: "bool \<Rightarrow> term_state \<Rightarrow> term_state" where
  "set_wrap w = upd_cursor (\<lambda>c. c\<lparr>input_needs_wrap := w\<rparr>)"

definition wrap_next :: "term_state \<Rightarrow> bool" where
  "wrap_next t = input_needs_wrap (cursor (main t))"

definition upd_template :: "(cell \<Rightarrow> cell) \<Rightarrow> term_state \<Rightarrow> term_state" where
  "upd_template f = upd_cursor (\<lambda>c. c\<lparr>template := f (template c)\<rparr>)"

definition add_template_flags :: "flags \<Rightarrow> term_state \<Rightarrow> term_state" where
  "add_template_flags f = upd_template (\<lambda>c. c\<lparr>cflags := cflags c OR f\<rparr>)"

definition drop_template_flags :: "flags \<Rightarrow> term_state \<Rightarrow> term_state" where
  "drop_template_flags f = upd_template (\<lambda>c. c\<lparr>cflags := remove_flags (cflags c) f\<rparr>)"

text \<open>\<open>From<Color> for Cell\<close>.\<close>

definition bg_cell :: "color \<Rightarrow> cell" where
  "bg_cell c = cell_default\<lparr>bg := c\<rparr>"

definition cur_bg :: "term_state \<Rightarrow> color" where
  "cur_bg t = bg (template (cursor (main t)))"

definition edit_cell :: "int \<Rightarrow> nat \<Rightarrow> (cell \<Rightarrow> cell) \<Rightarrow> term_state \<Rightarrow> term_state option" where
  "edit_cell l k f = on_main (edit_row l (row_update k f))"

definition damage_line :: "int \<Rightarrow> nat \<Rightarrow> nat \<Rightarrow> term_state \<Rightarrow> term_state option" where
  "damage_line l left right t =
     map_option (\<lambda>d. t\<lparr>damage := d\<rparr>) (state_damage_line (as_usize l) left right (damage t))"

definition damage_cursor :: "term_state \<Rightarrow> term_state option" where
  "damage_cursor t = damage_line (cur_line t) (cur_col t) (cur_col t) t"

end
