(* ===== verification/TermOps.thy ===== *)
theory TermOps
  imports Term
begin

text \<open>
  The operations of \<open>Term\<close> and its handler of control sequences (\<open>impl Handler for Term\<close> in
  \<open>alacritty_terminal/src/term/mod.rs\<close>), in the order of the code. Colours of the palette, the
  clipboard and sizes in pixels are left out.
\<close>

section \<open>Scrolling relative to a line\<close>

definition rotate_selection :: "int \<times> int \<Rightarrow> int \<Rightarrow> term_state \<Rightarrow> term_state" where
  "rotate_selection region delta t = t\<lparr>sel := Option.bind (sel t) (selection_rotate (main t) region delta)\<rparr>"

definition scroll_down_relative :: "int \<Rightarrow> nat \<Rightarrow> term_state \<Rightarrow> term_state option" where
  "scroll_down_relative origin lines t =
     (let (a, b) = scroll_region t;
          lines = min lines (as_usize (b - a));
          lines = min lines (as_usize (b - origin));
          t = rotate_selection (origin, b) (- int lines) t;
          l = pt_line (vi_cursor t);
          t = (if origin \<le> l \<and> l < b
               then t\<lparr>vi_cursor := (vi_cursor t)\<lparr>pt_line := min (l + int lines) (b - 1)\<rparr>\<rparr> else t)
      in map_option mark_fully_damaged (on_main (scroll_down (origin, b) lines) t))"

definition scroll_up_relative :: "int \<Rightarrow> nat \<Rightarrow> term_state \<Rightarrow> term_state option" where
  "scroll_up_relative origin lines t =
     (let (a, b) = scroll_region t;
          lines = min lines (as_usize (b - a));
          t = rotate_selection (origin, b) (int lines) t
      in do { t \<leftarrow> on_main (scroll_up (origin, b) lines) t;
              let viewport_top = - int (display_offset (main t));
              let top_line = (if origin = 0 then viewport_top else origin);
              let l = pt_line (vi_cursor t);
              let t = (if top_line \<le> l \<and> l < b
                       then t\<lparr>vi_cursor := (vi_cursor t)\<lparr>pt_line := max (l - int lines) top_line\<rparr>\<rparr> else t);
              Some (mark_fully_damaged t) })"

definition term_scroll_up :: "nat \<Rightarrow> term_state \<Rightarrow> term_state option" where
  "term_scroll_up lines t = scroll_up_relative (fst (scroll_region t)) lines t"

definition term_scroll_down :: "nat \<Rightarrow> term_state \<Rightarrow> term_state option" where
  "term_scroll_down lines t = scroll_down_relative (fst (scroll_region t)) lines t"

section \<open>Moving the cursor\<close>

definition goto :: "int \<Rightarrow> nat \<Rightarrow> term_state \<Rightarrow> term_state option" where
  "goto line col t =
     (let (y_offset, max_y) = (if has_mode ORIGIN t then (fst (scroll_region t), snd (scroll_region t) - 1)
                               else (0, bottommost_line (main t)))
      in do { t \<leftarrow> damage_cursor t;
              let t = set_cur_line (max (min (line + y_offset) max_y) 0) t;
              let t = set_cur_col (min col (last_column (main t))) t;
              t \<leftarrow> damage_cursor t;
              Some (set_wrap False t) })"

definition goto_line :: "int \<Rightarrow> term_state \<Rightarrow> term_state option" where
  "goto_line line t = goto line (cur_col t) t"

definition goto_col :: "nat \<Rightarrow> term_state \<Rightarrow> term_state option" where
  "goto_col col t = goto (cur_line t) col t"

definition move_up :: "nat \<Rightarrow> term_state \<Rightarrow> term_state option" where
  "move_up lines t = goto (cur_line t - int lines) (cur_col t) t"

definition move_down :: "nat \<Rightarrow> term_state \<Rightarrow> term_state option" where
  "move_down lines t = goto (cur_line t + int lines) (cur_col t) t"

definition move_down_and_cr :: "nat \<Rightarrow> term_state \<Rightarrow> term_state option" where
  "move_down_and_cr lines t = goto (cur_line t + int lines) 0 t"

definition move_up_and_cr :: "nat \<Rightarrow> term_state \<Rightarrow> term_state option" where
  "move_up_and_cr lines t = goto (cur_line t - int lines) 0 t"

definition move_forward :: "nat \<Rightarrow> term_state \<Rightarrow> term_state option" where
  "move_forward cols t =
     (let col = min (cur_col t + cols) (last_column (main t))
      in do { t \<leftarrow> damage_line (cur_line t) (cur_col t) col t;
              Some (set_wrap False (set_cur_col col t)) })"

definition move_backward :: "nat \<Rightarrow> term_state \<Rightarrow> term_state option" where
  "move_backward cols t =
     (let col = cur_col t - cols
      in do { t \<leftarrow> damage_line (cur_line t) col (cur_col t) t;
              Some (set_wrap False (set_cur_col col t)) })"

definition backspace :: "term_state \<Rightarrow> term_state option" where
  "backspace t =
     (if cur_col t > 0
      then let line = cur_line t; col = cur_col t
           in damage_line line (col - 1) col (set_wrap False (set_cur_col (col - 1) t))
      else Some t)"

definition carriage_return :: "term_state \<Rightarrow> term_state option" where
  "carriage_return t =
     do { t \<leftarrow> damage_line (cur_line t) 0 (cur_col t) t;
          Some (set_wrap False (set_cur_col 0 t)) }"

definition linefeed :: "term_state \<Rightarrow> term_state option" where
  "linefeed t =
     (let next = cur_line t + 1
      in if next = snd (scroll_region t) then term_scroll_up 1 t
         else if next < int (screen_lines (main t))
         then do { t \<leftarrow> damage_cursor t; damage_cursor (set_cur_line (cur_line t + 1) t) }
         else Some t)"

definition newline :: "term_state \<Rightarrow> term_state option" where
  "newline t =
     do { t \<leftarrow> linefeed t;
          if has_mode LINE_FEED_NEW_LINE t then carriage_return t else Some t }"

definition reverse_index :: "term_state \<Rightarrow> term_state option" where
  "reverse_index t =
     (if cur_line t = fst (scroll_region t) then term_scroll_down 1 t
      else do { t \<leftarrow> damage_cursor t; damage_cursor (set_cur_line (max (cur_line t - 1) 0) t) })"

definition save_cursor_position :: "term_state \<Rightarrow> term_state option" where
  "save_cursor_position t = Some (t\<lparr>main := (main t)\<lparr>saved_cursor := cursor (main t)\<rparr>\<rparr>)"

definition restore_cursor_position :: "term_state \<Rightarrow> term_state option" where
  "restore_cursor_position t =
     do { t \<leftarrow> damage_cursor t;
          damage_cursor (upd_cursor (\<lambda>_. saved_cursor (main t)) t) }"

section \<open>Tab stops\<close>

text \<open>The next column with a tab stop, or the last one.\<close>

function next_stop :: "bool list \<Rightarrow> nat \<Rightarrow> nat \<Rightarrow> nat option" where
  "next_stop ts cols col =
     (if col + 1 = cols then Some col
      else if col + 1 < length ts
      then (if ts ! (col + 1) then Some (col + 1) else next_stop ts cols (col + 1))
      else None)"
  by pat_completeness auto
termination
  by (relation "measure (\<lambda>(ts, cols, col). length ts - col)") auto

declare next_stop.simps [simp del]

text \<open>The previous column with a tab stop, or the same one if there is none.\<close>

definition prev_stop :: "bool list \<Rightarrow> nat \<Rightarrow> nat option" where
  "prev_stop ts col =
     (if col \<le> length ts
      then Some (case find (\<lambda>i. ts ! i) (rev [0..<col]) of None \<Rightarrow> col | Some i \<Rightarrow> i) else None)"

definition wrapline :: "term_state \<Rightarrow> term_state option" where
  "wrapline t =
     (if \<not> has_mode LINE_WRAP t then Some t
      else do {
        t \<leftarrow> edit_cell (cur_line t) (cur_col t) (\<lambda>c. c\<lparr>cflags := cflags c OR WRAPLINE\<rparr>) t;
        t \<leftarrow> (if cur_line t + 1 \<ge> snd (scroll_region t) then linefeed t
              else do { t \<leftarrow> damage_cursor t; Some (set_cur_line (cur_line t + 1) t) });
        damage_cursor (set_wrap False (set_cur_col 0 t)) })"

fun put_tab_loop :: "env \<Rightarrow> nat \<Rightarrow> term_state \<Rightarrow> term_state option" where
  "put_tab_loop e 0 t = Some t"
| "put_tab_loop e (Suc n) t =
     (if cur_col t < columns (main t)
      then do {
        cs \<leftarrow> (if active_charset t < length (charsets (cursor (main t)))
               then Some (charsets (cursor (main t)) ! active_charset t) else None);
        let c = map_char e cs 9;
        t \<leftarrow> edit_cell (cur_line t) (cur_col t) (\<lambda>cl. if ch cl = 32 then cl\<lparr>ch := c\<rparr> else cl) t;
        col \<leftarrow> next_stop (tabs t) (columns (main t)) (cur_col t);
        put_tab_loop e n (set_cur_col col t) }
      else Some t)"

definition put_tab :: "env \<Rightarrow> nat \<Rightarrow> term_state \<Rightarrow> term_state option" where
  "put_tab e n t = (if wrap_next t then wrapline t else put_tab_loop e n t)"

fun backward_tabs_loop :: "nat \<Rightarrow> term_state \<Rightarrow> term_state option" where
  "backward_tabs_loop 0 t = Some t"
| "backward_tabs_loop (Suc n) t =
     (if cur_col t = 0 then Some t
      else do { col \<leftarrow> prev_stop (tabs t) (cur_col t); backward_tabs_loop n (set_cur_col col t) })"

definition move_backward_tabs :: "nat \<Rightarrow> term_state \<Rightarrow> term_state option" where
  "move_backward_tabs n t =
     (let old_col = cur_col t
      in do { t \<leftarrow> backward_tabs_loop n t; damage_line (cur_line t) (cur_col t) old_col t })"

fun forward_tabs_loop :: "nat \<Rightarrow> term_state \<Rightarrow> term_state option" where
  "forward_tabs_loop 0 t = Some t"
| "forward_tabs_loop (Suc n) t =
     (if cur_col t = columns (main t) - 1 then Some t
      else do { col \<leftarrow> next_stop (tabs t) (columns (main t)) (cur_col t);
                forward_tabs_loop n (set_cur_col col t) })"

definition move_forward_tabs :: "nat \<Rightarrow> term_state \<Rightarrow> term_state option" where
  "move_forward_tabs n t =
     (let old_col = cur_col t
      in do { t \<leftarrow> forward_tabs_loop n t; damage_line (cur_line t) old_col (cur_col t) t })"

definition set_tab :: "bool \<Rightarrow> nat \<Rightarrow> term_state \<Rightarrow> term_state option" where
  "set_tab b col t = (if col < length (tabs t) then Some (t\<lparr>tabs := (tabs t)[col := b]\<rparr>) else None)"

definition set_horizontal_tabstop :: "term_state \<Rightarrow> term_state option" where
  "set_horizontal_tabstop t = set_tab True (cur_col t) t"

datatype tab_clear = Current | AllTabs

fun clear_tabs :: "tab_clear \<Rightarrow> term_state \<Rightarrow> term_state option" where
  "clear_tabs Current t = set_tab False (cur_col t) t"
| "clear_tabs AllTabs t = Some (t\<lparr>tabs := map (\<lambda>_. False) (tabs t)\<rparr>)"

section \<open>Writing characters\<close>

definition main_cell :: "int \<Rightarrow> nat \<Rightarrow> term_state \<Rightarrow> cell option" where
  "main_cell l k t = cell_at (main t) \<lparr>pt_line = l, pt_column = k\<rparr>"

definition write_at_cursor :: "env \<Rightarrow> rchar \<Rightarrow> term_state \<Rightarrow> term_state option" where
  "write_at_cursor e c t =
     do { cs \<leftarrow> (if active_charset t < length (charsets (cursor (main t)))
               then Some (charsets (cursor (main t)) ! active_charset t) else None);
          let c = map_char e cs c;
          let tmpl = template (cursor (main t));
          let l = cur_line t;
          let k = cur_col t;
          cell \<leftarrow> main_cell l k t;
          t \<leftarrow> (if any_flags (cflags cell) (WIDE_CHAR OR WIDE_CHAR_SPACER)
                then do {
                  t \<leftarrow> (if has_flags (cflags cell) WIDE_CHAR \<and> k < last_column (main t)
                        then edit_cell l (k + 1)
                               (\<lambda>c. c\<lparr>cflags := remove_flags (cflags c) WIDE_CHAR_SPACER\<rparr>) t
                        else if k > 0 then edit_cell l (k - 1) clear_wide t else Some t);
                  if k \<le> 1 \<and> l \<noteq> topmost_line (main t)
                  then edit_cell (l - 1) (last_column (main t))
                         (\<lambda>c. c\<lparr>cflags := remove_flags (cflags c) LEADING_WIDE_CHAR_SPACER\<rparr>) t
                  else Some t }
                else Some t);
          edit_cell l k (\<lambda>_. tmpl\<lparr>ch := c\<rparr>) t }"

text \<open>The swaps that shift a row's cells, as the code runs them.\<close>

definition swap_right :: "nat \<Rightarrow> nat \<Rightarrow> nat \<Rightarrow> 'b list \<Rightarrow> 'b list option" where
  "swap_right src dst n = fold_opt (\<lambda>offset. vec_swap (dst + offset) (src + offset)) (rev [0..<n])"

definition swap_left :: "nat \<Rightarrow> nat \<Rightarrow> nat \<Rightarrow> 'b list \<Rightarrow> 'b list option" where
  "swap_left dst src n = fold_opt (\<lambda>offset. vec_swap (dst + offset) (src + offset)) [0..<n]"

definition input_zero_width :: "rchar \<Rightarrow> term_state \<Rightarrow> term_state option" where
  "input_zero_width c t =
     (let col = (if wrap_next t then cur_col t else cur_col t - 1)
      in do { cell \<leftarrow> main_cell (cur_line t) col t;
              let col = (if has_flags (cflags cell) WIDE_CHAR_SPACER then col - 1 else col);
              edit_cell (cur_line t) col (push_zerowidth c) t })"

text \<open>
  The part of \<open>input\<close> that writes a wide character; \<open>False\<close> where the code returns early since
  the glyph does not fit and lines do not wrap.
\<close>

definition input_wide :: "env \<Rightarrow> rchar \<Rightarrow> term_state \<Rightarrow> (bool \<times> term_state) option" where
  "input_wide e c t =
     do { (fits, t) \<leftarrow>
            (if cur_col t + 1 \<ge> columns (main t)
             then if has_mode LINE_WRAP t
                  then do {
                    t \<leftarrow> write_at_cursor e 32 (add_template_flags LEADING_WIDE_CHAR_SPACER t);
                    t \<leftarrow> wrapline (drop_template_flags LEADING_WIDE_CHAR_SPACER t);
                    Some (True, t) }
                  else Some (False, set_wrap True t)
             else Some (True, t));
          if \<not> fits then Some (False, t)
          else do {
            t \<leftarrow> write_at_cursor e c (add_template_flags WIDE_CHAR t);
            let t = drop_template_flags WIDE_CHAR t;
            let t = set_cur_col (cur_col t + 1) t;
            t \<leftarrow> write_at_cursor e 32 (add_template_flags WIDE_CHAR_SPACER t);
            Some (True, drop_template_flags WIDE_CHAR_SPACER t) } }"

definition advance :: "term_state \<Rightarrow> term_state" where
  "advance t = (if cur_col t + 1 < columns (main t) then set_cur_col (cur_col t + 1) t else set_wrap True t)"

definition input :: "env \<Rightarrow> rchar \<Rightarrow> term_state \<Rightarrow> term_state option" where
  "input e c t =
     (case char_width e c of
        None \<Rightarrow> Some t
      | Some width \<Rightarrow>
          if width = 0 then input_zero_width c t
          else do {
            t \<leftarrow> (if wrap_next t then wrapline t else Some t);
            let cols = columns (main t);
            let col = cur_col t;
            t \<leftarrow> (if has_mode INSERT t \<and> col + width < cols
                  then on_main (edit_row (cur_line t)
                         (row_edit_all (swap_right col (col + width) (cols - width - col)))) t
                  else Some t);
            (fits, t) \<leftarrow> (if width = 1 then do { t \<leftarrow> write_at_cursor e c t; Some (True, t) }
                          else input_wide e c t);
            Some (if fits then advance t else t) })"

definition decaln :: "term_state \<Rightarrow> term_state option" where
  "decaln t =
     do { t \<leftarrow> fold_opt (\<lambda>l. fold_opt (\<lambda>k. edit_cell l k (\<lambda>_. cell_default\<lparr>ch := 69\<rparr>)) [0..<columns (main t)])
                  [0..int (screen_lines (main t)) - 1] t;
          Some (mark_fully_damaged t) }"

section \<open>Inserting and deleting\<close>

definition insert_blank :: "nat \<Rightarrow> term_state \<Rightarrow> term_state option" where
  "insert_blank n t =
     (let cols = columns (main t); c = bg_cell (cur_bg t); source = cur_col t
      in do { room \<leftarrow> checked_sub cols source;
              let n = min n room;
              let destination = source + n;
              let num_cells = cols - destination;
              t \<leftarrow> damage_line (cur_line t) 0 (cols - 1) t;
              on_main (edit_row (cur_line t)
                (\<lambda>r. do { r \<leftarrow> row_edit_all (swap_right source destination num_cells) r;
                           row_fill source destination c r })) t })"

definition insert_blank_lines :: "nat \<Rightarrow> term_state \<Rightarrow> term_state option" where
  "insert_blank_lines lines t =
     (let origin = cur_line t; (a, b) = scroll_region t
      in if a \<le> origin \<and> origin < b then scroll_down_relative origin lines t else Some t)"

definition delete_lines :: "nat \<Rightarrow> term_state \<Rightarrow> term_state option" where
  "delete_lines lines t =
     (let origin = cur_line t; (a, b) = scroll_region t
      in do { below \<leftarrow> checked_sub (screen_lines (main t)) (as_usize origin);
              let lines = min below lines;
              if lines > 0 \<and> a \<le> origin \<and> origin < b then scroll_up_relative origin lines t else Some t })"

definition erase_chars :: "nat \<Rightarrow> term_state \<Rightarrow> term_state option" where
  "erase_chars n t =
     (let start = cur_col t; stop = min (start + n) (columns (main t)); c = bg_cell (cur_bg t)
      in do { t \<leftarrow> damage_line (cur_line t) start stop t;
              on_main (edit_row (cur_line t) (row_fill start stop c)) t })"

definition delete_chars :: "nat \<Rightarrow> term_state \<Rightarrow> term_state option" where
  "delete_chars n t =
     (let cols = columns (main t); c = bg_cell (cur_bg t); n = min n cols; start = cur_col t;
          stop = min (start + n) (cols - 1); num_cells = cols - stop
      in do { t \<leftarrow> damage_line (cur_line t) 0 (cols - 1) t;
              on_main (edit_row (cur_line t)
                (\<lambda>r. do { r \<leftarrow> row_edit_all (swap_left start stop num_cells) r;
                           row_fill_from (cols - n) c r })) t })"

datatype line_clear = ClearRight | ClearLeft | ClearLine

definition filter_selection :: "(selection \<Rightarrow> bool) \<Rightarrow> term_state \<Rightarrow> term_state" where
  "filter_selection P t = t\<lparr>sel := (case sel t of None \<Rightarrow> None | Some s \<Rightarrow> if P s then Some s else None)\<rparr>"

definition clear_line :: "line_clear \<Rightarrow> term_state \<Rightarrow> term_state option" where
  "clear_line m t =
     (if m = ClearRight \<and> wrap_next t then Some t
      else let c = bg_cell (cur_bg t); l = cur_line t;
               left = (if m = ClearRight then cur_col t else 0);
               right = (if m = ClearLeft then cur_col t + 1 else columns (main t))
           in do { t \<leftarrow> damage_line l left (right - 1) t;
                   t \<leftarrow> on_main (edit_row l (row_fill left right c)) t;
                   Some (filter_selection (\<lambda>s. \<not> intersects_range l l s) t) })"

datatype screen_clear = Above | Below | ClearScreen | Saved

definition clear_screen :: "screen_clear \<Rightarrow> term_state \<Rightarrow> term_state option" where
  "clear_screen m t =
     (let c = bg_cell (cur_bg t); n = int (screen_lines (main t)); l = cur_line t; k = cur_col t
      in do {
        t \<leftarrow> (case m of
            Above \<Rightarrow> do {
              t \<leftarrow> (if l > 1 then on_main (reset_region 0 l) t else Some t);
              t \<leftarrow> on_main (edit_row l (row_fill 0 (min (k + 1) (columns (main t))) c)) t;
              Some (filter_selection (\<lambda>s. \<not> intersects_range 0 l s) t) }
          | Below \<Rightarrow> do {
              t \<leftarrow> on_main (edit_row l (row_fill_from k c)) t;
              t \<leftarrow> (if int (as_usize l) < n - 1 then on_main (reset_region (l + 1) n) t else Some t);
              Some (filter_selection (\<lambda>s. \<not> intersects_range l (n - 1) s) t) }
          | ClearScreen \<Rightarrow>
              if has_mode ALT_SCREEN t
              then do { t \<leftarrow> on_main (reset_region 0 n) t; Some (t\<lparr>sel := None\<rparr>) }
              else do {
                let old_offset = display_offset (main t);
                t \<leftarrow> on_main clear_viewport t;
                let lines = display_offset (main t) - old_offset;
                Some (t\<lparr>vi_cursor := (vi_cursor t)\<lparr>pt_line :=
                          line_clamp (main t) Grid_Boundary (pt_line (vi_cursor t) - int lines)\<rparr>, sel := None\<rparr>) }
          | Saved \<Rightarrow>
              if history_size (main t) > 0
              then do {
                t \<leftarrow> on_main clear_history t;
                Some (filter_selection (\<lambda>s. \<not> intersects_range (- (2 ^ 31)) (-1) s)
                  (t\<lparr>vi_cursor := (vi_cursor t)\<lparr>pt_line :=
                       line_clamp (main t) Cursor_Boundary (pt_line (vi_cursor t))\<rparr>\<rparr>)) }
              else Some t);
        Some (mark_fully_damaged t) })"

section \<open>Modes and screens\<close>

definition apply_kb_mode :: "term_mode \<Rightarrow> kb_apply \<Rightarrow> term_state \<Rightarrow> term_state" where
  "apply_kb_mode m a t =
     (let active = mode t AND KITTY_KEYBOARD_PROTOCOL;
          new = (case a of Replace \<Rightarrow> m | Union \<Rightarrow> active OR m | Difference \<Rightarrow> remove_mode active m)
      in t\<lparr>mode := remove_mode (mode t) KITTY_KEYBOARD_PROTOCOL OR new\<rparr>)"

definition top_kb_mode :: "kb_mode list \<Rightarrow> kb_mode" where
  "top_kb_mode ks = (if ks = [] then kb_none else last ks)"

definition push_keyboard_mode :: "kb_mode \<Rightarrow> term_state \<Rightarrow> term_state option" where
  "push_keyboard_mode k t =
     (if \<not> kitty_keyboard (conf t) then Some t
      else do {
        t \<leftarrow> (if length (kb_stack t) \<ge> MAX_STACK
              then if title_stack t = [] then None else Some (t\<lparr>title_stack := tl (title_stack t)\<rparr>)
              else Some t);
        Some (apply_kb_mode (kb_to_mode k) Replace (t\<lparr>kb_stack := kb_stack t @ [k]\<rparr>)) })"

definition pop_keyboard_modes :: "nat \<Rightarrow> term_state \<Rightarrow> term_state option" where
  "pop_keyboard_modes n t =
     (if \<not> kitty_keyboard (conf t) then Some t
      else let ks = take (length (kb_stack t) - n) (kb_stack t)
           in Some (apply_kb_mode (kb_to_mode (top_kb_mode ks)) Replace (t\<lparr>kb_stack := ks\<rparr>)))"

definition set_keyboard_mode :: "kb_mode \<Rightarrow> kb_apply \<Rightarrow> term_state \<Rightarrow> term_state option" where
  "set_keyboard_mode k a t =
     (if \<not> kitty_keyboard (conf t) then Some t else Some (apply_kb_mode (kb_to_mode k) a t))"

definition report_keyboard_mode :: "env \<Rightarrow> term_state \<Rightarrow> term_state option" where
  "report_keyboard_mode e t =
     (if \<not> kitty_keyboard (conf t) then Some t
      else Some (send (PtyWrite ([27] @ rs ''[?'' @ dec (kb_bits e (top_kb_mode (kb_stack t))) @ rs ''u'')) t))"

definition swap_alt :: "term_state \<Rightarrow> term_state option" where
  "swap_alt t =
     do { t \<leftarrow> (if \<not> has_mode ALT_SCREEN t
                then do {
                  let t = t\<lparr>inactive := (inactive t)\<lparr>cursor := cursor (main t)\<rparr>,
                            main := (main t)\<lparr>saved_cursor := cursor (main t)\<rparr>\<rparr>;
                  g \<leftarrow> reset_region 0 (int (screen_lines (inactive t))) (inactive t);
                  Some (t\<lparr>inactive := g\<rparr>) }
                else Some t);
          let t = t\<lparr>kb_stack := inactive_kb_stack t, inactive_kb_stack := kb_stack t\<rparr>;
          let t = apply_kb_mode (kb_to_mode (top_kb_mode (kb_stack t))) Replace t;
          let t = t\<lparr>main := inactive t, inactive := main t, mode := mode t XOR ALT_SCREEN, sel := None\<rparr>;
          Some (mark_fully_damaged t) }"

definition set_scrolling_region :: "nat \<Rightarrow> nat option \<Rightarrow> term_state \<Rightarrow> term_state option" where
  "set_scrolling_region first bottom_line t =
     (let b = (case bottom_line of None \<Rightarrow> screen_lines (main t) | Some b \<Rightarrow> b)
      in if first \<ge> b then Some t
         else let n = int (screen_lines (main t))
              in goto 0 0 (t\<lparr>scroll_region := (min (int first - 1) n, min (int b) n)\<rparr>))"

definition deccolm :: "term_state \<Rightarrow> term_state option" where
  "deccolm t =
     do { t \<leftarrow> set_scrolling_region 1 None t;
          t \<leftarrow> on_main (reset_region 0 (int (screen_lines (main t)))) t;
          Some (mark_fully_damaged t) }"

datatype private_mode =
    UrgencyHints | SwapScreenAndSetRestoreCursor | ShowCursor | CursorKeys | ReportMouseClicks
  | ReportCellMouseMotion | ReportAllMouseMotion | ReportFocusInOut | BracketedPaste | SgrMouse
  | Utf8Mouse | AlternateScroll | LineWrap | Origin | ColumnMode | BlinkingCursor | SyncUpdate
  | UnknownPrivateMode nat

definition set_blinking :: "bool \<Rightarrow> term_state \<Rightarrow> term_state" where
  "set_blinking b t =
     (let s = (case cur_style t of None \<Rightarrow> default_cursor_style (conf t) | Some s \<Rightarrow> s)
      in send CursorBlinkingChange (t\<lparr>cur_style := Some (s\<lparr>blinking := b\<rparr>)\<rparr>))"

fun set_private_mode :: "private_mode \<Rightarrow> term_state \<Rightarrow> term_state option" where
  "set_private_mode UrgencyHints t = Some (insert_mode URGENCY_HINTS t)"
| "set_private_mode SwapScreenAndSetRestoreCursor t = (if has_mode ALT_SCREEN t then Some t else swap_alt t)"
| "set_private_mode ShowCursor t = Some (insert_mode SHOW_CURSOR t)"
| "set_private_mode CursorKeys t = Some (insert_mode APP_CURSOR t)"
| "set_private_mode ReportMouseClicks t =
     Some (send MouseCursorDirty (insert_mode MOUSE_REPORT_CLICK (drop_mode MOUSE_MODE t)))"
| "set_private_mode ReportCellMouseMotion t =
     Some (send MouseCursorDirty (insert_mode MOUSE_DRAG (drop_mode MOUSE_MODE t)))"
| "set_private_mode ReportAllMouseMotion t =
     Some (send MouseCursorDirty (insert_mode MOUSE_MOTION (drop_mode MOUSE_MODE t)))"
| "set_private_mode ReportFocusInOut t = Some (insert_mode FOCUS_IN_OUT t)"
| "set_private_mode BracketedPaste t = Some (insert_mode BRACKETED_PASTE t)"
| "set_private_mode SgrMouse t = Some (insert_mode SGR_MOUSE (drop_mode UTF8_MOUSE t))"
| "set_private_mode Utf8Mouse t = Some (insert_mode UTF8_MOUSE (drop_mode SGR_MOUSE t))"
| "set_private_mode AlternateScroll t = Some (insert_mode ALTERNATE_SCROLL t)"
| "set_private_mode LineWrap t = Some (insert_mode LINE_WRAP t)"
| "set_private_mode Origin t = goto 0 0 (insert_mode ORIGIN t)"
| "set_private_mode ColumnMode t = deccolm t"
| "set_private_mode BlinkingCursor t = Some (set_blinking True t)"
| "set_private_mode SyncUpdate t = Some t"
| "set_private_mode (UnknownPrivateMode n) t = Some t"

fun unset_private_mode :: "private_mode \<Rightarrow> term_state \<Rightarrow> term_state option" where
  "unset_private_mode UrgencyHints t = Some (drop_mode URGENCY_HINTS t)"
| "unset_private_mode SwapScreenAndSetRestoreCursor t = (if has_mode ALT_SCREEN t then swap_alt t else Some t)"
| "unset_private_mode ShowCursor t = Some (drop_mode SHOW_CURSOR t)"
| "unset_private_mode CursorKeys t = Some (drop_mode APP_CURSOR t)"
| "unset_private_mode ReportMouseClicks t = Some (send MouseCursorDirty (drop_mode MOUSE_REPORT_CLICK t))"
| "unset_private_mode ReportCellMouseMotion t = Some (send MouseCursorDirty (drop_mode MOUSE_DRAG t))"
| "unset_private_mode ReportAllMouseMotion t = Some (send MouseCursorDirty (drop_mode MOUSE_MOTION t))"
| "unset_private_mode ReportFocusInOut t = Some (drop_mode FOCUS_IN_OUT t)"
| "unset_private_mode BracketedPaste t = Some (drop_mode BRACKETED_PASTE t)"
| "unset_private_mode SgrMouse t = Some (drop_mode SGR_MOUSE t)"
| "unset_private_mode Utf8Mouse t = Some (drop_mode UTF8_MOUSE t)"
| "unset_private_mode AlternateScroll t = Some (drop_mode ALTERNATE_SCROLL t)"
| "unset_private_mode LineWrap t = Some (drop_mode LINE_WRAP t)"
| "unset_private_mode Origin t = Some (drop_mode ORIGIN t)"
| "unset_private_mode ColumnMode t = deccolm t"
| "unset_private_mode BlinkingCursor t = Some (set_blinking False t)"
| "unset_private_mode SyncUpdate t = Some t"
| "unset_private_mode (UnknownPrivateMode n) t = Some t"

datatype ansi_mode = Insert | LineFeedNewLine | UnknownMode nat

fun set_mode :: "ansi_mode \<Rightarrow> term_state \<Rightarrow> term_state option" where
  "set_mode Insert t = Some (insert_mode INSERT t)"
| "set_mode LineFeedNewLine t = Some (insert_mode LINE_FEED_NEW_LINE t)"
| "set_mode (UnknownMode n) t = Some t"

fun unset_mode :: "ansi_mode \<Rightarrow> term_state \<Rightarrow> term_state option" where
  "unset_mode Insert t = Some (mark_fully_damaged (drop_mode INSERT t))"
| "unset_mode LineFeedNewLine t = Some (drop_mode LINE_FEED_NEW_LINE t)"
| "unset_mode (UnknownMode n) t = Some t"

definition set_keypad_application_mode :: "term_state \<Rightarrow> term_state option" where
  "set_keypad_application_mode t = Some (insert_mode APP_KEYPAD t)"

definition unset_keypad_application_mode :: "term_state \<Rightarrow> term_state option" where
  "unset_keypad_application_mode t = Some (drop_mode APP_KEYPAD t)"

definition configure_charset :: "nat \<Rightarrow> charset \<Rightarrow> term_state \<Rightarrow> term_state option" where
  "configure_charset i cs t =
     (if i < length (charsets (cursor (main t)))
      then Some (upd_cursor (\<lambda>c. c\<lparr>charsets := (charsets c)[i := cs]\<rparr>) t) else None)"

definition set_active_charset :: "nat \<Rightarrow> term_state \<Rightarrow> term_state option" where
  "set_active_charset i t = Some (t\<lparr>active_charset := i\<rparr>)"

definition set_cursor_style :: "cursor_style option \<Rightarrow> term_state \<Rightarrow> term_state option" where
  "set_cursor_style s t = Some (send CursorBlinkingChange (t\<lparr>cur_style := s\<rparr>))"

definition set_cursor_shape :: "nat \<Rightarrow> term_state \<Rightarrow> term_state option" where
  "set_cursor_shape sh t =
     (let s = (case cur_style t of None \<Rightarrow> default_cursor_style (conf t) | Some s \<Rightarrow> s)
      in Some (t\<lparr>cur_style := Some (s\<lparr>shape := sh\<rparr>)\<rparr>))"

definition term_set_hyperlink :: "hyperlink option \<Rightarrow> term_state \<Rightarrow> term_state option" where
  "term_set_hyperlink h t = Some (upd_template (set_hyperlink h) t)"

datatype attr =
    SetForeground color | SetBackground color | UnderlineColor "color option" | ResetAttr | Reverse
  | CancelReverse | Bold | CancelBold | Dim | CancelBoldDim | Italic | CancelItalic | Underline
  | DoubleUnderline | Undercurl | DottedUnderline | DashedUnderline | CancelUnderline | Hidden
  | CancelHidden | Strike | CancelStrike | OtherAttr

definition put_flags :: "flags \<Rightarrow> cell \<Rightarrow> cell" where
  "put_flags f c = c\<lparr>cflags := cflags c OR f\<rparr>"

definition cut_flags :: "flags \<Rightarrow> cell \<Rightarrow> cell" where
  "cut_flags f c = c\<lparr>cflags := remove_flags (cflags c) f\<rparr>"

fun apply_attr :: "attr \<Rightarrow> cell \<Rightarrow> cell" where
  "apply_attr (SetForeground col) c = c\<lparr>fg := col\<rparr>"
| "apply_attr (SetBackground col) c = c\<lparr>bg := col\<rparr>"
| "apply_attr (UnderlineColor col) c = set_underline_color col c"
| "apply_attr ResetAttr c =
     set_underline_color None (c\<lparr>fg := Named Foreground, bg := Named Background, cflags := 0\<rparr>)"
| "apply_attr Reverse c = put_flags INVERSE c"
| "apply_attr CancelReverse c = cut_flags INVERSE c"
| "apply_attr Bold c = put_flags BOLD c"
| "apply_attr CancelBold c = cut_flags BOLD c"
| "apply_attr Dim c = put_flags DIM c"
| "apply_attr CancelBoldDim c = cut_flags (BOLD OR DIM) c"
| "apply_attr Italic c = put_flags ITALIC c"
| "apply_attr CancelItalic c = cut_flags ITALIC c"
| "apply_attr Underline c = put_flags UNDERLINE (cut_flags ALL_UNDERLINES c)"
| "apply_attr DoubleUnderline c = put_flags DOUBLE_UNDERLINE (cut_flags ALL_UNDERLINES c)"
| "apply_attr Undercurl c = put_flags UNDERCURL (cut_flags ALL_UNDERLINES c)"
| "apply_attr DottedUnderline c = put_flags DOTTED_UNDERLINE (cut_flags ALL_UNDERLINES c)"
| "apply_attr DashedUnderline c = put_flags DASHED_UNDERLINE (cut_flags ALL_UNDERLINES c)"
| "apply_attr CancelUnderline c = cut_flags ALL_UNDERLINES c"
| "apply_attr Hidden c = put_flags HIDDEN c"
| "apply_attr CancelHidden c = cut_flags HIDDEN c"
| "apply_attr Strike c = put_flags STRIKEOUT c"
| "apply_attr CancelStrike c = cut_flags STRIKEOUT c"
| "apply_attr OtherAttr c = c"

definition terminal_attribute :: "attr \<Rightarrow> term_state \<Rightarrow> term_state option" where
  "terminal_attribute a t = Some (upd_template (apply_attr a) t)"

section \<open>Titles, reports and the state as a whole\<close>

definition set_title :: "rstring option \<Rightarrow> term_state \<Rightarrow> term_state option" where
  "set_title s t =
     Some (send (case s of None \<Rightarrow> ResetTitle | Some x \<Rightarrow> Title x) (t\<lparr>title := s\<rparr>))"

definition push_title :: "term_state \<Rightarrow> term_state option" where
  "push_title t =
     (let ts = (if length (title_stack t) \<ge> MAX_STACK then tl (title_stack t) else title_stack t)
      in Some (t\<lparr>title_stack := ts @ [title t]\<rparr>))"

definition pop_title :: "term_state \<Rightarrow> term_state option" where
  "pop_title t =
     (if title_stack t = [] then Some t
      else set_title (last (title_stack t)) (t\<lparr>title_stack := butlast (title_stack t)\<rparr>))"

definition bell :: "term_state \<Rightarrow> term_state option" where
  "bell t = Some (send Bell t)"

definition device_status :: "nat \<Rightarrow> term_state \<Rightarrow> term_state option" where
  "device_status arg t =
     Some (if arg = 5 then send (PtyWrite ([27] @ rs ''[0n'')) t
           else if arg = 6
           then send (PtyWrite ([27] @ rs ''['' @ dec (nat (cur_line t + 1)) @ rs '';'' @ dec (cur_col t + 1) @ rs ''R'')) t
           else t)"

definition text_area_size_chars :: "term_state \<Rightarrow> term_state option" where
  "text_area_size_chars t =
     Some (send (PtyWrite ([27] @ rs ''[8;'' @ dec (screen_lines (main t)) @ rs '';'' @ dec (columns (main t)) @ rs ''t'')) t)"

definition reset_state :: "term_state \<Rightarrow> term_state option" where
  "reset_state t =
     do { let t = (if has_mode ALT_SCREEN t then t\<lparr>main := inactive t, inactive := main t\<rparr> else t);
          let t = t\<lparr>active_charset := 0, cur_style := None\<rparr>;
          g \<leftarrow> grid_reset (main t);
          h \<leftarrow> grid_reset (inactive t);
          let t = t\<lparr>main := g, inactive := h\<rparr>;
          let t = t\<lparr>scroll_region := (0, int (screen_lines (main t))), tabs := tabs_new (columns (main t)),
                    title_stack := [], title := None, sel := None, vi_cursor := point_zero,
                    kb_stack := [], inactive_kb_stack := [],
                    mode := (mode t AND VI) OR mode_default\<rparr>;
          Some (mark_fully_damaged (send CursorBlinkingChange t)) }"

definition recompute_vi_selection :: "term_state \<Rightarrow> term_state" where
  "recompute_vi_selection t =
     (if \<not> has_mode VI t then t
      else case sel t of
             None \<Rightarrow> t
           | Some s \<Rightarrow>
               if selection_is_empty s then t
               else t\<lparr>sel := Some (include_all (selection_update (vi_cursor t) Leftward s))\<rparr>)"

definition term_scroll_display :: "scroll \<Rightarrow> term_state \<Rightarrow> term_state" where
  "term_scroll_display s t =
     (let old = display_offset (main t);
          t = send MouseCursorDirty (t\<lparr>main := scroll_display s (main t)\<rparr>);
          viewport_start = - int (display_offset (main t));
          viewport_end = viewport_start + bottommost_line (main t);
          t = t\<lparr>vi_cursor := (vi_cursor t)\<lparr>pt_line :=
                  min viewport_end (max viewport_start (pt_line (vi_cursor t)))\<rparr>\<rparr>;
          t = recompute_vi_selection t
      in if old \<noteq> display_offset (main t) then mark_fully_damaged t else t)"

definition scroll_to_point :: "point \<Rightarrow> term_state \<Rightarrow> term_state" where
  "scroll_to_point p t =
     (let d = int (display_offset (main t)); n = int (screen_lines (main t))
      in if pt_line p < - d then term_scroll_display (Delta (- (pt_line p + d))) t
         else if pt_line p \<ge> n - d then term_scroll_display (Delta (- (pt_line p + d - n + 1))) t
         else t)"

definition vi_goto_point :: "point \<Rightarrow> term_state \<Rightarrow> term_state" where
  "vi_goto_point p t = recompute_vi_selection ((scroll_to_point p t)\<lparr>vi_cursor := p\<rparr>)"

definition toggle_vi_mode :: "term_state \<Rightarrow> term_state" where
  "toggle_vi_mode t =
     (let t = t\<lparr>mode := mode t XOR VI\<rparr>;
          t = (if has_mode VI t
               then let d = int (display_offset (main t))
                    in if cur_line t > bottommost_line (main t) - d
                       then t\<lparr>vi_cursor := \<lparr>pt_line = - d, pt_column = 0\<rparr>\<rparr>
                       else t\<lparr>vi_cursor := point (cursor (main t))\<rparr>
               else t)
      in send CursorBlinkingChange t)"

definition set_options :: "config \<Rightarrow> term_state \<Rightarrow> term_state option" where
  "set_options c t =
     do { let old = conf t;
          let t = send (case title t of None \<Rightarrow> ResetTitle | Some x \<Rightarrow> Title x) (t\<lparr>conf := c\<rparr>);
          t \<leftarrow> (if has_mode ALT_SCREEN t
                then map_option (\<lambda>g. t\<lparr>inactive := g\<rparr>) (update_history (scrolling_history c) (inactive t))
                else on_main (update_history (scrolling_history c)) t);
          let t = (if kitty_keyboard c \<noteq> kitty_keyboard old
                   then drop_mode KITTY_KEYBOARD_PROTOCOL (t\<lparr>kb_stack := [], inactive_kb_stack := []\<rparr>) else t);
          Some (mark_fully_damaged t) }"

definition collect_damage :: "term_state \<Rightarrow> (line_damage list option \<times> term_state) option" where
  "collect_damage t =
     do { let t = (if has_mode INSERT t then mark_fully_damaged t else t);
          let previous = last_cursor (damage t);
          let t = t\<lparr>damage := (damage t)\<lparr>last_cursor := point (cursor (main t))\<rparr>\<rparr>;
          if full (damage t) then Some (None, t)
          else do {
            t \<leftarrow> (if last_cursor (damage t) \<noteq> previous
                  then damage_line (pt_line previous) (pt_column previous) (pt_column previous) t else Some t);
            t \<leftarrow> damage_cursor t;
            Some (Some (damage_iter (dlines (damage t)) (display_offset (main t))), t) } }"

definition reset_damage :: "term_state \<Rightarrow> term_state" where
  "reset_damage t = t\<lparr>damage := damage_reset (columns (main t)) (damage t)\<rparr>"

definition term_cursor_style :: "term_state \<Rightarrow> cursor_style" where
  "term_cursor_style t =
     (let s = (case cur_style t of None \<Rightarrow> default_cursor_style (conf t) | Some s \<Rightarrow> s)
      in if has_mode VI t then (case vi_mode_cursor_style (conf t) of None \<Rightarrow> s | Some v \<Rightarrow> v) else s)"

text \<open>The point of the viewport that shows a point of the terminal, and back.\<close>

definition point_to_viewport :: "nat \<Rightarrow> point \<Rightarrow> (nat \<times> nat) option" where
  "point_to_viewport offset p =
     (let l = pt_line p + int offset in if 0 \<le> l then Some (nat l, pt_column p) else None)"

definition viewport_to_point :: "nat \<Rightarrow> nat \<times> nat \<Rightarrow> point" where
  "viewport_to_point offset v = \<lparr>pt_line = int (fst v) - int offset, pt_column = snd v\<rparr>"

end
