(* ===== verification/TermWf.thy ===== *)
theory TermWf
  imports TermOps
begin

text \<open>
  The invariant of the terminal, and that every operation returns and keeps it. The postcondition
  of a sequence of steps is computed backwards (\<open>ends_in\<close>); each primitive step has a rule that
  reduces it to a condition on the state it leaves.
\<close>

section \<open>The invariant\<close>

definition cursor_ok :: "grid \<Rightarrow> grid_cursor \<Rightarrow> bool" where
  "cursor_ok g c \<longleftrightarrow> 0 \<le> pt_line (point c) \<and> pt_line (point c) < int (screen_lines g) \<and>
     pt_column (point c) < columns g \<and> length (charsets c) = 4"

definition screen_ok :: "grid \<Rightarrow> bool" where
  "screen_ok g \<longleftrightarrow> grid_wf g \<and> 2 \<le> columns g \<and> cursor_ok g (cursor g) \<and> cursor_ok g (saved_cursor g)"

definition dam_ok :: "nat \<Rightarrow> damage_state \<Rightarrow> bool" where
  "dam_ok n d \<longleftrightarrow> map d_line (dlines d) = [0..<n] \<and> 0 \<le> pt_line (last_cursor d) \<and> pt_line (last_cursor d) < int n"

definition term_ok :: "term_state \<Rightarrow> bool" where
  "term_ok t \<longleftrightarrow>
     screen_ok (main t) \<and> screen_ok (inactive t) \<and> columns (inactive t) = columns (main t) \<and>
     screen_lines (inactive t) = screen_lines (main t) \<and> dam_ok (screen_lines (main t)) (damage t) \<and>
     length (tabs t) = columns (main t) \<and> active_charset t < 4 \<and> 0 \<le> fst (scroll_region t) \<and>
     fst (scroll_region t) \<le> snd (scroll_region t) \<and> snd (scroll_region t) \<le> int (screen_lines (main t))"

lemma term_ok_simps [simp]:
  "term_ok (t\<lparr>sel := x1\<rparr>) = term_ok t" "term_ok (t\<lparr>vi_cursor := x2\<rparr>) = term_ok t"
  "term_ok (t\<lparr>mode := x3\<rparr>) = term_ok t" "term_ok (t\<lparr>title := x4\<rparr>) = term_ok t"
  "term_ok (t\<lparr>title_stack := x5\<rparr>) = term_ok t" "term_ok (t\<lparr>kb_stack := x6\<rparr>) = term_ok t"
  "term_ok (t\<lparr>inactive_kb_stack := x7\<rparr>) = term_ok t" "term_ok (t\<lparr>sent := x8\<rparr>) = term_ok t"
  "term_ok (t\<lparr>conf := x9\<rparr>) = term_ok t" "term_ok (t\<lparr>cur_style := x10\<rparr>) = term_ok t"
  by (simp_all add: term_ok_def)

lemma dam_ok_full [simp]: "dam_ok n (d\<lparr>full := b\<rparr>) = dam_ok n d"
  by (simp add: dam_ok_def)

lemma term_ok_full [simp]: "term_ok (mark_fully_damaged t) = term_ok t"
  by (simp add: mark_fully_damaged_def term_ok_def)

lemma term_ok_damage [simp]: "term_ok t \<Longrightarrow> dam_ok (screen_lines (main t)) d \<Longrightarrow> term_ok (t\<lparr>damage := d\<rparr>)"
  by (simp add: term_ok_def)

lemma screen_ok_same: "screen_ok g \<Longrightarrow> grid_wf h \<Longrightarrow> same_view g h \<Longrightarrow> screen_ok h"
  by (simp add: screen_ok_def same_view_def cursor_ok_def)

lemma screen_ok_scrolled: "screen_ok g \<Longrightarrow> scrolled g h \<Longrightarrow> screen_ok h"
  by (simp add: screen_ok_def scrolled_def cursor_ok_def)

lemma term_ok_main:
  assumes "term_ok t" "screen_ok g" "columns g = columns (main t)" "screen_lines g = screen_lines (main t)"
  shows "term_ok (t\<lparr>main := g\<rparr>)"
  using assms by (simp add: term_ok_def)

lemma screen_ok_cursor: "screen_ok (g\<lparr>cursor := c\<rparr>) \<longleftrightarrow> screen_ok (g\<lparr>cursor := saved_cursor g\<rparr>) \<and> cursor_ok g c"
  by (auto simp: screen_ok_def cursor_ok_def)

lemma term_ok_cursor:
  assumes "term_ok t" "cursor_ok (main t) (f (cursor (main t)))"
  shows "term_ok (upd_cursor f t)"
  using assms by (simp add: upd_cursor_def term_ok_def screen_ok_def cursor_ok_def)

lemma term_okD:
  assumes "term_ok t"
  shows "grid_wf (main t)" "grid_wf (inactive t)" "2 \<le> columns (main t)" "0 < screen_lines (main t)"
    "0 \<le> cur_line t" "cur_line t < int (screen_lines (main t))" "cur_col t < columns (main t)"
    "length (charsets (cursor (main t))) = 4" "active_charset t < 4" "length (tabs t) = columns (main t)"
    "0 \<le> fst (scroll_region t)" "fst (scroll_region t) \<le> snd (scroll_region t)"
    "snd (scroll_region t) \<le> int (screen_lines (main t))"
  using assms grid_dims(2) by (auto simp: term_ok_def screen_ok_def cursor_ok_def cur_line_def cur_col_def)

section \<open>Rules for the primitive steps\<close>

lemma damage_line_wp:
  assumes "term_ok t" "0 \<le> l" "l < int (screen_lines (main t))"
    and "\<And>d. dam_ok (screen_lines (main t)) d \<Longrightarrow> Q (t\<lparr>damage := d\<rparr>)"
  shows "ends_in (damage_line l a b t) Q"
proof -
  let ?n = "screen_lines (main t)"
  have dam: "dam_ok ?n (damage t)" using assms(1) by (simp add: term_ok_def)
  then have m: "map d_line (dlines (damage t)) = [0..<?n]" and n: "length (dlines (damage t)) = ?n"
    by (simp add: dam_ok_def, metis dam_ok_def length_map length_upt diff_zero)
  have l: "as_usize l = nat l" "nat l < ?n" using assms(2,3) by (simp_all add: as_usize_def nat_less_iff)
  let ?d = "(damage t)\<lparr>dlines := (dlines (damage t))[nat l := damage_expand a b (dlines (damage t) ! nat l)]\<rparr>"
  have "map d_line ((dlines (damage t))[nat l := damage_expand a b (dlines (damage t) ! nat l)]) =
      (map d_line (dlines (damage t)))[nat l := map d_line (dlines (damage t)) ! nat l]"
    using l(2) n by (simp add: map_update damage_expand_def)
  then have "map d_line ((dlines (damage t))[nat l := damage_expand a b (dlines (damage t) ! nat l)]) = [0..<?n]"
    by (simp only: list_update_id m)
  then have "dam_ok ?n ?d" using dam by (simp add: dam_ok_def)
  then show ?thesis using assms(4) l n by (simp add: damage_line_def state_damage_line_def)
qed

lemma damage_cursor_wp:
  assumes "term_ok t" "\<And>d. dam_ok (screen_lines (main t)) d \<Longrightarrow> Q (t\<lparr>damage := d\<rparr>)"
  shows "ends_in (damage_cursor t) Q"
  unfolding damage_cursor_def by (rule damage_line_wp) (use assms term_okD in auto)

lemma edit_row_wp:
  assumes "term_ok t" "- int (history_size (main t)) \<le> l" "l < int (screen_lines (main t))"
    and "\<And>r. row_ok cell_reset r \<Longrightarrow> length (cells r) = columns (main t) \<Longrightarrow>
      ends_in (f r) (\<lambda>r'. row_ok cell_reset r' \<and> length (cells r') = columns (main t))"
    and "\<And>g. grid_wf g \<Longrightarrow> same_view (main t) g \<Longrightarrow> term_ok (t\<lparr>main := g\<rparr>) \<Longrightarrow> Q (t\<lparr>main := g\<rparr>)"
  shows "ends_in (on_main (edit_row l f) t) Q"
proof -
  have "ends_in (edit_row l f (main t)) (\<lambda>g. grid_wf g \<and> same_view (main t) g)"
    by (rule edit_row_wf) (use assms term_okD in auto)
  then have "ends_in (edit_row l f (main t)) (\<lambda>g. Q (t\<lparr>main := g\<rparr>))"
  proof (rule ends_in_mono)
    fix g assume g: "grid_wf g \<and> same_view (main t) g"
    then have "screen_ok g" using screen_ok_same [of "main t" g] assms(1) by (simp add: term_ok_def)
    then have "term_ok (t\<lparr>main := g\<rparr>)" using g assms(1) by (intro term_ok_main) (simp_all add: same_view_def)
    then show "Q (t\<lparr>main := g\<rparr>)" using assms(5) g by blast
  qed
  then show ?thesis by (simp add: on_main_def)
qed

lemma edit_cell_wp:
  assumes "term_ok t" "- int (history_size (main t)) \<le> l" "l < int (screen_lines (main t))" "k < columns (main t)"
    and "\<And>g. grid_wf g \<Longrightarrow> same_view (main t) g \<Longrightarrow> term_ok (t\<lparr>main := g\<rparr>) \<Longrightarrow> Q (t\<lparr>main := g\<rparr>)"
  shows "ends_in (edit_cell l k f t) Q"
  unfolding edit_cell_def
  by (rule edit_row_wp [OF assms(1-3)]) (use update_ends assms in auto)

lemma scroll_wp:
  assumes "term_ok t" "ends_in (f (main t)) (scrolled (main t))"
    and "\<And>g. scrolled (main t) g \<Longrightarrow> term_ok (t\<lparr>main := g\<rparr>) \<Longrightarrow> Q (t\<lparr>main := g\<rparr>)"
  shows "ends_in (on_main f t) Q"
proof -
  have "ends_in (f (main t)) (\<lambda>g. Q (t\<lparr>main := g\<rparr>))"
  proof (rule ends_in_mono [OF assms(2)])
    fix g assume g: "scrolled (main t) g"
    have "screen_ok g" using screen_ok_scrolled [OF _ g] assms(1) by (simp add: term_ok_def)
    then have "term_ok (t\<lparr>main := g\<rparr>)" using g assms(1) by (intro term_ok_main) (simp_all add: scrolled_def)
    then show "Q (t\<lparr>main := g\<rparr>)" using assms(3) g by blast
  qed
  then show ?thesis by (simp add: on_main_def)
qed

section \<open>Cursor movement\<close>

lemmas cursor_defs =
  set_cur_line_def set_cur_col_def set_wrap_def upd_cursor_def cur_line_def cur_col_def wrap_next_def

lemma term_ok_set_line [simp]:
  "term_ok t \<Longrightarrow> 0 \<le> l \<Longrightarrow> l < int (screen_lines (main t)) \<Longrightarrow> term_ok (set_cur_line l t)"
  unfolding set_cur_line_def by (rule term_ok_cursor) (auto simp: term_ok_def screen_ok_def cursor_ok_def)

lemma term_ok_set_col [simp]:
  "term_ok t \<Longrightarrow> k < columns (main t) \<Longrightarrow> term_ok (set_cur_col k t)"
  unfolding set_cur_col_def by (rule term_ok_cursor) (auto simp: term_ok_def screen_ok_def cursor_ok_def)

lemma term_ok_set_wrap [simp]: "term_ok (set_wrap b t) = term_ok t"
  by (simp add: set_wrap_def upd_cursor_def term_ok_def screen_ok_def cursor_ok_def)

lemma term_ok_template [simp]: "term_ok (upd_template f t) = term_ok t"
  by (simp add: upd_template_def upd_cursor_def term_ok_def screen_ok_def cursor_ok_def)

lemma cursor_simps [simp]:
  "cur_line (set_cur_line l t) = l" "cur_line (set_cur_col k t) = cur_line t" "cur_line (set_wrap b t) = cur_line t"
  "cur_col (set_cur_line l t) = cur_col t" "cur_col (set_cur_col k t) = k" "cur_col (set_wrap b t) = cur_col t"
  "cur_line (upd_template f t) = cur_line t" "cur_col (upd_template f t) = cur_col t"
  "columns (main (set_cur_line l t)) = columns (main t)" "columns (main (set_cur_col k t)) = columns (main t)"
  "columns (main (set_wrap b t)) = columns (main t)" "columns (main (upd_template f t)) = columns (main t)"
  "screen_lines (main (set_cur_line l t)) = screen_lines (main t)"
  "screen_lines (main (set_cur_col k t)) = screen_lines (main t)"
  "screen_lines (main (set_wrap b t)) = screen_lines (main t)"
  "screen_lines (main (upd_template f t)) = screen_lines (main t)"
  "cur_line (t\<lparr>damage := d\<rparr>) = cur_line t" "cur_col (t\<lparr>damage := d\<rparr>) = cur_col t"
  by (simp_all add: cursor_defs upd_template_def)

lemma last_col: "term_ok t \<Longrightarrow> last_column (main t) < columns (main t)"
  using term_okD(3) [of t] by (simp add: last_column_def)

lemma goto_ends:
  assumes "term_ok t"
  shows "ends_in (goto line col t) term_ok"
proof -
  define l where "l = max (min (line + (if has_mode ORIGIN t then fst (scroll_region t) else 0))
      (if has_mode ORIGIN t then snd (scroll_region t) - 1 else bottommost_line (main t))) 0"
  have l: "0 \<le> l" "l < int (screen_lines (main t))"
    using term_okD(4,13) [OF assms] by (auto simp: l_def bottommost_line_def)
  have k: "min col (last_column (main t)) < columns (main t)" using last_col [OF assms] by simp
  have "ends_in (do { t \<leftarrow> damage_cursor t;
          t \<leftarrow> damage_cursor (set_cur_col (min col (last_column (main t))) (set_cur_line l t));
          Some (set_wrap False t) }) term_ok"
    unfolding ends_in_simps
  proof (intro damage_cursor_wp assms)
    fix d assume d: "dam_ok (screen_lines (main t)) d"
    then show "term_ok (set_cur_col (min col (last_column (main (t\<lparr>damage := d\<rparr>)))) (set_cur_line l (t\<lparr>damage := d\<rparr>)))"
      using assms l k by simp
    fix d' assume "dam_ok (screen_lines (main (set_cur_col (min col (last_column (main (t\<lparr>damage := d\<rparr>))))
        (set_cur_line l (t\<lparr>damage := d\<rparr>))))) d'"
    then show "term_ok (set_wrap False (set_cur_col (min col (last_column (main (t\<lparr>damage := d\<rparr>))))
        (set_cur_line l (t\<lparr>damage := d\<rparr>))\<lparr>damage := d'\<rparr>))"
      using assms l k d by simp
  qed
  moreover have "last_column (main (set_cur_line x u)) = last_column (main u)" for x u
    by (simp add: last_column_def)
  ultimately show ?thesis
    by (cases "has_mode ORIGIN t") (simp_all add: goto_def l_def Let_def)
qed

lemma move_ends:
  assumes "term_ok t"
  shows "ends_in (goto_line line t) term_ok" "ends_in (goto_col col t) term_ok" "ends_in (move_up n t) term_ok"
    "ends_in (move_down n t) term_ok" "ends_in (move_down_and_cr n t) term_ok" "ends_in (move_up_and_cr n t) term_ok"
  by (simp_all add: goto_line_def goto_col_def move_up_def move_down_def move_down_and_cr_def move_up_and_cr_def
      goto_ends assms)

lemma damaged_ends:
  assumes "term_ok t" "0 \<le> l" "l < int (screen_lines (main t))" "k < columns (main t)"
  shows "ends_in (do { t \<leftarrow> damage_line l a b t; Some (set_wrap w (set_cur_col k t)) }) term_ok"
  unfolding ends_in_simps by (rule damage_line_wp [OF assms(1-3)]) (use assms in simp)

lemma move_forward_ends: "term_ok t \<Longrightarrow> ends_in (move_forward n t) term_ok"
  unfolding move_forward_def Let_def by (rule damaged_ends) (use term_okD [of t] last_col [of t] in auto)

lemma move_backward_ends: "term_ok t \<Longrightarrow> ends_in (move_backward n t) term_ok"
  unfolding move_backward_def Let_def by (rule damaged_ends) (use term_okD [of t] in auto)

lemma carriage_return_ends: "term_ok t \<Longrightarrow> ends_in (carriage_return t) term_ok"
  unfolding carriage_return_def by (rule damaged_ends) (use term_okD [of t] in auto)

lemma backspace_ends:
  assumes "term_ok t"
  shows "ends_in (backspace t) term_ok"
proof (cases "cur_col t > 0")
  case True
  have "term_ok (set_wrap False (set_cur_col (cur_col t - 1) t))"
    using assms term_okD(7) [OF assms] by simp
  moreover from this have "ends_in (damage_line (cur_line t) (cur_col t - 1) (cur_col t)
      (set_wrap False (set_cur_col (cur_col t - 1) t))) term_ok"
    by (rule damage_line_wp) (use calculation term_okD(5,6) [OF assms] in auto)
  ultimately show ?thesis using True by (simp add: backspace_def Let_def)
qed (use assms in \<open>simp add: backspace_def\<close>)

lemma move_line_ends:
  assumes "term_ok t" "0 \<le> l" "l < int (screen_lines (main t))"
  shows "ends_in (do { t \<leftarrow> damage_cursor t; damage_cursor (set_cur_line l t) }) term_ok"
  unfolding ends_in_simps
  by (intro damage_cursor_wp) (use assms in auto)

section \<open>Scrolling\<close>

lemma as_usize_nonneg [simp]: "0 \<le> i \<Longrightarrow> as_usize i = nat i"
  by (simp add: as_usize_def)

lemma rotate_selection_simps [simp]:
  "term_ok (rotate_selection r n t) = term_ok t" "main (rotate_selection r n t) = main t"
  by (simp_all add: rotate_selection_def)

lemma scroll_down_relative_ends:
  assumes "term_ok t" "fst (scroll_region t) \<le> origin" "origin \<le> snd (scroll_region t)"
  shows "ends_in (scroll_down_relative origin n t) (\<lambda>t'. term_ok t' \<and>
    cur_col t' = cur_col t \<and> cur_line t' = cur_line t \<and> columns (main t') = columns (main t))"
proof -
  define b where "b = snd (scroll_region t)"
  define k where "k = min (min n (as_usize (b - fst (scroll_region t)))) (as_usize (b - origin))"
  have r: "0 \<le> origin" "origin \<le> b" "b \<le> int (screen_lines (main t))" "int k \<le> b - origin"
    using assms term_okD(11-13) [OF assms(1)] by (auto simp: b_def k_def)
  define t1 where "t1 = rotate_selection (origin, b) (- int k) t"
  define t2 where "t2 = (if origin \<le> pt_line (vi_cursor t1) \<and> pt_line (vi_cursor t1) < b
    then t1\<lparr>vi_cursor := (vi_cursor t1)\<lparr>pt_line := min (pt_line (vi_cursor t1) + int k) (b - 1)\<rparr>\<rparr> else t1)"
  have t2: "term_ok t2" "main t2 = main t" using assms(1) by (simp_all add: t2_def t1_def)
  have "ends_in (on_main (scroll_down (origin, b) k) t2) (\<lambda>t'. term_ok t' \<and> cur_col t' = cur_col t \<and> cur_line t' = cur_line t \<and> columns (main t') = columns (main t))"
    by (rule scroll_wp [OF t2(1)])
      (use scroll_down_any [of "main t2" origin b k] r t2 term_okD(1) [OF assms(1)] in
        \<open>auto simp: cur_col_def cur_line_def scrolled_def\<close>)
  then have "ends_in (map_option mark_fully_damaged (on_main (scroll_down (origin, b) k) t2))
      (\<lambda>t'. term_ok t' \<and> cur_col t' = cur_col t \<and> cur_line t' = cur_line t \<and> columns (main t') = columns (main t))"
    by (simp add: mark_fully_damaged_def cur_col_def cur_line_def) (simp add: term_ok_def)
  moreover have "scroll_down_relative origin n t = map_option mark_fully_damaged (on_main (scroll_down (origin, b) k) t2)"
    by (simp only: scroll_down_relative_def Let_def split_def b_def [symmetric] k_def [symmetric]
        t1_def [symmetric] t2_def [symmetric])
  ultimately show ?thesis by simp
qed

lemma scroll_up_relative_ends:
  assumes "term_ok t" "fst (scroll_region t) \<le> origin" "origin \<le> snd (scroll_region t)"
  shows "ends_in (scroll_up_relative origin n t) (\<lambda>t'. term_ok t' \<and> cur_col t' = cur_col t \<and> cur_line t' = cur_line t \<and> columns (main t') = columns (main t))"
proof -
  define b where "b = snd (scroll_region t)"
  define k where "k = min n (as_usize (b - fst (scroll_region t)))"
  have r: "0 \<le> origin" "origin \<le> b" "b \<le> int (screen_lines (main t))" "origin = 0 \<Longrightarrow> int k \<le> b"
    using assms term_okD(11-13) [OF assms(1)] by (auto simp: b_def k_def)
  define t1 where "t1 = rotate_selection (origin, b) (int k) t"
  have t1: "term_ok t1" "main t1 = main t" using assms(1) by (simp_all add: t1_def)
  have "ends_in (on_main (scroll_up (origin, b) k) t1) (\<lambda>t'. term_ok t' \<and> cur_col t' = cur_col t \<and> cur_line t' = cur_line t \<and> columns (main t') = columns (main t))"
    by (rule scroll_wp [OF t1(1)])
      (use scroll_up_any [of "main t1" origin b k] r t1 term_okD(1) [OF assms(1)] in
        \<open>auto simp: cur_col_def cur_line_def scrolled_def\<close>)
  then show ?thesis
    unfolding scroll_up_relative_def
    by (simp add: split_def Let_def b_def [symmetric] k_def [symmetric] t1_def [symmetric] ends_in_def)
      (auto simp: mark_fully_damaged_def cur_col_def cur_line_def term_ok_def)
qed

lemma term_scroll_ends:
  assumes "term_ok t"
  shows "ends_in (term_scroll_up n t) (\<lambda>t'. term_ok t' \<and> cur_col t' = cur_col t \<and> cur_line t' = cur_line t \<and> columns (main t') = columns (main t))"
    and "ends_in (term_scroll_down n t) (\<lambda>t'. term_ok t' \<and> cur_col t' = cur_col t \<and> cur_line t' = cur_line t \<and> columns (main t') = columns (main t))"
  using scroll_up_relative_ends [OF assms] scroll_down_relative_ends [OF assms] term_okD(12) [OF assms]
  by (simp_all add: term_scroll_up_def term_scroll_down_def)

lemma linefeed_ends:
  assumes "term_ok t"
  shows "ends_in (linefeed t) (\<lambda>t'. term_ok t' \<and> cur_col t' = cur_col t \<and> columns (main t') = columns (main t))"
proof -
  have "ends_in (do { t \<leftarrow> damage_cursor t; damage_cursor (set_cur_line (cur_line t + 1) t) })
      (\<lambda>t'. term_ok t' \<and> cur_col t' = cur_col t \<and> columns (main t') = columns (main t))" if "cur_line t + 1 < int (screen_lines (main t))"
    unfolding ends_in_simps by (intro damage_cursor_wp) (use assms term_okD(5) [OF assms] that in auto)
  moreover have "ends_in (term_scroll_up 1 t) (\<lambda>t'. term_ok t' \<and> cur_col t' = cur_col t \<and> columns (main t') = columns (main t))"
    by (rule ends_in_mono [OF term_scroll_ends(1) [OF assms]]) simp
  ultimately show ?thesis using assms by (simp add: linefeed_def Let_def)
qed

lemma newline_ends: "term_ok t \<Longrightarrow> ends_in (newline t) term_ok"
  unfolding newline_def ends_in_simps
  by (rule ends_in_mono [OF linefeed_ends]) (auto simp: carriage_return_ends)

lemma reverse_index_ends:
  assumes "term_ok t"
  shows "ends_in (reverse_index t) term_ok"
proof -
  have "ends_in (do { t \<leftarrow> damage_cursor t; damage_cursor (set_cur_line (max (cur_line t - 1) 0) t) }) term_ok"
    unfolding ends_in_simps by (intro damage_cursor_wp) (use assms term_okD(4-6) [OF assms] in auto)
  moreover have "ends_in (term_scroll_down 1 t) term_ok"
    by (rule ends_in_mono [OF term_scroll_ends(2) [OF assms]]) simp
  ultimately show ?thesis by (simp add: reverse_index_def)
qed

lemma save_restore_ends:
  assumes "term_ok t"
  shows "ends_in (save_cursor_position t) term_ok" "ends_in (restore_cursor_position t) term_ok"
proof -
  show "ends_in (save_cursor_position t) term_ok"
    using assms by (simp add: save_cursor_position_def term_ok_def screen_ok_def cursor_ok_def)
  have saved: "cursor_ok (main t) (saved_cursor (main t))" using assms by (simp add: term_ok_def screen_ok_def)
  have "ends_in (damage_cursor (upd_cursor (\<lambda>_. saved_cursor (main u)) u)) term_ok"
    if "u = t\<lparr>damage := d\<rparr>" "dam_ok (screen_lines (main t)) d" for u d
  proof (rule damage_cursor_wp)
    show u: "term_ok (upd_cursor (\<lambda>_. saved_cursor (main u)) u)"
      by (rule term_ok_cursor) (use that assms saved in simp_all)
    fix d' assume "dam_ok (screen_lines (main (upd_cursor (\<lambda>_. saved_cursor (main u)) u))) d'"
    then show "term_ok (upd_cursor (\<lambda>_. saved_cursor (main u)) u\<lparr>damage := d'\<rparr>)" using u by simp
  qed
  then show "ends_in (restore_cursor_position t) term_ok"
    unfolding restore_cursor_position_def ends_in_simps
    by (intro damage_cursor_wp [OF assms]) blast
qed

section \<open>Tab stops\<close>

lemma next_stop_ends:
  "col < cols \<Longrightarrow> length ts = cols \<Longrightarrow> ends_in (next_stop ts cols col) (\<lambda>k. col \<le> k \<and> k < cols)"
proof (induction ts cols col rule: next_stop.induct)
  case (1 ts cols col)
  show ?case
  proof (cases "col + 1 = cols \<or> ts ! (col + 1)")
    case True
    then show ?thesis using "1.prems" by (subst next_stop.simps) auto
  next
    case False
    then have "ends_in (next_stop ts cols (col + 1)) (\<lambda>k. col + 1 \<le> k \<and> k < cols)"
      using "1.prems" by (intro "1.IH") auto
    then have "ends_in (next_stop ts cols (col + 1)) (\<lambda>k. col \<le> k \<and> k < cols)"
      by (rule ends_in_mono) simp
    then show ?thesis using False "1.prems" by (subst next_stop.simps) auto
  qed
qed

lemma prev_stop_ends:
  "col \<le> length ts \<Longrightarrow> ends_in (prev_stop ts col) (\<lambda>k. k \<le> col)"
  by (auto simp: prev_stop_def find_Some_iff rev_nth split: option.splits)

lemma backward_tabs_loop_ends:
  "term_ok t \<Longrightarrow> ends_in (backward_tabs_loop n t) (\<lambda>t'. term_ok t' \<and> cur_line t' = cur_line t \<and>
    screen_lines (main t') = screen_lines (main t))"
proof (induction n arbitrary: t)
  case (Suc n)
  have "ends_in (prev_stop (tabs t) (cur_col t)) (\<lambda>k. ends_in (backward_tabs_loop n (set_cur_col k t))
      (\<lambda>t'. term_ok t' \<and> cur_line t' = cur_line t \<and> screen_lines (main t') = screen_lines (main t)))"
  proof (rule ends_in_mono [OF prev_stop_ends])
    fix k assume "k \<le> cur_col t"
    then have "term_ok (set_cur_col k t)" using Suc.prems term_okD(7) [OF Suc.prems] by simp
    from Suc.IH [OF this] show "ends_in (backward_tabs_loop n (set_cur_col k t))
      (\<lambda>t'. term_ok t' \<and> cur_line t' = cur_line t \<and> screen_lines (main t') = screen_lines (main t))" by simp
  qed (use term_okD(7,10) [OF Suc.prems] in simp)
  then show ?case using Suc.prems by simp
qed simp

lemma forward_tabs_loop_ends:
  "term_ok t \<Longrightarrow> ends_in (forward_tabs_loop n t) (\<lambda>t'. term_ok t' \<and> cur_line t' = cur_line t \<and>
    screen_lines (main t') = screen_lines (main t))"
proof (induction n arbitrary: t)
  case (Suc n)
  have "ends_in (next_stop (tabs t) (columns (main t)) (cur_col t)) (\<lambda>k. ends_in (forward_tabs_loop n (set_cur_col k t))
      (\<lambda>t'. term_ok t' \<and> cur_line t' = cur_line t \<and> screen_lines (main t') = screen_lines (main t)))"
  proof (rule ends_in_mono [OF next_stop_ends])
    fix k assume "cur_col t \<le> k \<and> k < columns (main t)"
    then have "term_ok (set_cur_col k t)" using Suc.prems by simp
    from Suc.IH [OF this] show "ends_in (forward_tabs_loop n (set_cur_col k t))
      (\<lambda>t'. term_ok t' \<and> cur_line t' = cur_line t \<and> screen_lines (main t') = screen_lines (main t))" by simp
  qed (use term_okD(7,10) [OF Suc.prems] in simp_all)
  then show ?case using Suc.prems by simp
qed simp

lemma damage_line_ends:
  "term_ok t \<Longrightarrow> 0 \<le> l \<Longrightarrow> l < int (screen_lines (main t)) \<Longrightarrow> ends_in (damage_line l a b t) term_ok"
  by (rule damage_line_wp) simp_all

lemma tab_moves_ends:
  assumes "term_ok t"
  shows "ends_in (move_backward_tabs n t) term_ok" "ends_in (move_forward_tabs n t) term_ok"
  unfolding move_backward_tabs_def move_forward_tabs_def Let_def ends_in_simps
  by (rule ends_in_mono [OF backward_tabs_loop_ends [OF assms]], use damage_line_ends term_okD(5,6) in blast,
      rule ends_in_mono [OF forward_tabs_loop_ends [OF assms]], use damage_line_ends term_okD(5,6) in blast)

lemma set_tab_ends:
  assumes "term_ok t"
  shows "ends_in (set_horizontal_tabstop t) term_ok" "ends_in (clear_tabs m t) term_ok"
proof -
  have "ends_in (set_tab b (cur_col t) t) term_ok" for b
    using assms term_okD(7,10) [OF assms] by (simp add: set_tab_def term_ok_def)
  then show "ends_in (set_horizontal_tabstop t) term_ok" "ends_in (clear_tabs m t) term_ok"
    using assms by (simp_all add: set_horizontal_tabstop_def) (cases m; simp add: term_ok_def)
qed

section \<open>Writing\<close>

lemma wrapline_ends:
  assumes "term_ok t"
  shows "ends_in (wrapline t) (\<lambda>t'. term_ok t' \<and>
    (if has_mode LINE_WRAP t then cur_col t' = 0 \<and> columns (main t') = columns (main t) else t' = t))"
proof (cases "has_mode LINE_WRAP t")
  case True
  have tail: "ends_in (damage_cursor (set_wrap False (set_cur_col 0 u))) (\<lambda>t'. term_ok t' \<and> cur_col t' = 0 \<and> columns (main t') = columns (main t))"
    if "term_ok u \<and> columns (main u) = columns (main t)" for u
    by (rule damage_cursor_wp) (use that term_okD(3) [of u] in auto)
  have body: "ends_in (if cur_line u + 1 \<ge> snd (scroll_region u) then linefeed u
       else do { t \<leftarrow> damage_cursor u; Some (set_cur_line (cur_line t + 1) t) })
       (\<lambda>t'. term_ok t' \<and> columns (main t') = columns (main u))" if u: "term_ok u" for u
  proof (cases "cur_line u + 1 \<ge> snd (scroll_region u)")
    case True
    then show ?thesis using linefeed_ends [OF u] by (auto intro: ends_in_mono)
  next
    case False
    have "ends_in (damage_cursor u) (\<lambda>t. ends_in (Some (set_cur_line (cur_line t + 1) t)) (\<lambda>t'. term_ok t' \<and> columns (main t') = columns (main u)))"
      by (rule damage_cursor_wp [OF u]) (use u False term_okD(5,13) [OF u] in auto)
    then show ?thesis using False by simp
  qed
  have "ends_in (edit_cell (cur_line t) (cur_col t) (\<lambda>c. c\<lparr>cflags := cflags c OR WRAPLINE\<rparr>) t)
      (\<lambda>u. term_ok u \<and> columns (main u) = columns (main t))"
    by (rule edit_cell_wp [OF assms]) (use term_okD(5-7) [OF assms] in \<open>auto simp: same_view_def\<close>)
  then obtain u where u: "edit_cell (cur_line t) (cur_col t) (\<lambda>c. c\<lparr>cflags := cflags c OR WRAPLINE\<rparr>) t = Some u"
    "term_ok u" "columns (main u) = columns (main t)" by (auto simp: ends_in_def)
  obtain v where v: "(if cur_line u + 1 \<ge> snd (scroll_region u) then linefeed u
       else do { t \<leftarrow> damage_cursor u; Some (set_cur_line (cur_line t + 1) t) }) = Some v"
    "term_ok v \<and> columns (main v) = columns (main t)"
    using body [OF u(2)] u(3) unfolding ends_in_def by auto
  have "wrapline t = damage_cursor (set_wrap False (set_cur_col 0 v))"
    using True by (simp only: wrapline_def u(1) v(1) if_False not_True_eq_False Option.bind.bind_lunit)
  then show ?thesis using tail [OF v(2)] True by simp
qed (use assms in \<open>simp add: wrapline_def\<close>)

text \<open>What writing cells leaves alone.\<close>

definition same_place :: "term_state \<Rightarrow> term_state \<Rightarrow> bool" where
  "same_place t t' \<longleftrightarrow> term_ok t' \<and> cur_line t' = cur_line t \<and> cur_col t' = cur_col t \<and> mode t' = mode t \<and>
     columns (main t') = columns (main t) \<and> screen_lines (main t') = screen_lines (main t) \<and>
     history_size (main t') = history_size (main t) \<and> tabs t' = tabs t"

lemma same_place_refl: "term_ok t \<Longrightarrow> same_place t t"
  by (simp add: same_place_def)

lemma same_place_trans: "same_place t u \<Longrightarrow> same_place u v \<Longrightarrow> same_place t v"
  by (simp add: same_place_def)

lemma same_place_main:
  "term_ok (t\<lparr>main := g\<rparr>) \<Longrightarrow> same_view (main t) g \<Longrightarrow> same_place t (t\<lparr>main := g\<rparr>)"
  by (simp add: same_place_def same_view_def cur_line_def cur_col_def)

lemma edit_cell_place:
  assumes "same_place t u" "- int (history_size (main t)) \<le> l" "l < int (screen_lines (main t))" "k < columns (main t)"
  shows "ends_in (edit_cell l k f u) (same_place t)"
  by (rule edit_cell_wp)
    (use assms same_place_main same_place_trans in \<open>auto simp: same_place_def dest: same_place_main\<close>)

lemma main_cell_ends:
  assumes "term_ok t" "k < columns (main t)"
  shows "ends_in (main_cell (cur_line t) k t) (\<lambda>_. True)"
proof -
  have "has_line (gl (main t)) (cur_line t)"
    using term_okD(5,6) [OF assms(1)] has_line_gl [OF grid_wf_base [OF term_okD(1) [OF assms(1)]]] by simp
  then show ?thesis
    using cell_at_eq [OF grid_wf_base [OF term_okD(1) [OF assms(1)]], of "\<lparr>pt_line = cur_line t, pt_column = k\<rparr>"] assms(2)
    by (auto simp: main_cell_def ends_in_def)
qed

lemma charset_ends:
  assumes "term_ok t"
  shows "ends_in (if active_charset t < length (charsets (cursor (main t)))
           then Some (charsets (cursor (main t)) ! active_charset t) else None) (\<lambda>_. True)"
  using term_okD(8,9) [OF assms] by simp

lemma write_at_cursor_ends:
  assumes "term_ok t"
  shows "ends_in (write_at_cursor e c t) (same_place t)"
proof -
  note [simp] = term_okD(5-7) [OF assms]
  have [simp]: "- int (history_size (main t)) \<le> cur_line t" using term_okD(5) [OF assms] by linarith
  have p: "same_place t t" using assms by (rule same_place_refl)
  have wr: "ends_in (edit_cell (cur_line t) (cur_col t) f u) (same_place t)" if "same_place t u" for f u
    by (rule edit_cell_place [OF that]) simp_all
  have clear: "ends_in (if has_flags (cflags cell) WIDE_CHAR \<and> cur_col t < last_column (main t)
        then edit_cell (cur_line t) (cur_col t + 1) f t
        else if cur_col t > 0 then edit_cell (cur_line t) (cur_col t - 1) h t else Some t) (same_place t)" for cell f h
    using edit_cell_place [OF p, of "cur_line t" "cur_col t + 1" f] edit_cell_place [OF p, of "cur_line t" "cur_col t - 1" h]
      p last_col [OF assms] by (auto simp: less_imp_diff_less)
  have lead: "ends_in (if cur_col t \<le> 1 \<and> cur_line t \<noteq> topmost_line (main u)
        then edit_cell (cur_line t - 1) (last_column (main u)) f u else Some u) (same_place t)" if u: "same_place t u" for f u
  proof -
    have "ends_in (edit_cell (cur_line t - 1) (last_column (main u)) f u) (same_place t)"
      if "cur_line t \<noteq> topmost_line (main u)"
    proof (rule edit_cell_place [OF u])
      show "- int (history_size (main t)) \<le> cur_line t - 1"
      proof -
        have "cur_line t \<noteq> - int (history_size (main t))" using that u by (simp add: same_place_def topmost_line_def)
        moreover have "- int (history_size (main t)) \<le> cur_line t" by simp
        ultimately show ?thesis by linarith
      qed
      show "last_column (main u) < columns (main t)" using last_col u by (fastforce simp: same_place_def)
    qed (use term_okD(6) [OF assms] in linarith)
    then show ?thesis using u by simp
  qed
  show ?thesis
    unfolding write_at_cursor_def Let_def ends_in_simps
  proof (rule ends_in_mono [OF charset_ends [OF assms]], rule ends_in_mono [OF main_cell_ends [OF assms term_okD(7) [OF assms]]])
    fix cs :: charset and cell :: cell
    have "ends_in (if any_flags (cflags cell) (WIDE_CHAR OR WIDE_CHAR_SPACER)
        then do { u \<leftarrow> (if has_flags (cflags cell) WIDE_CHAR \<and> cur_col t < last_column (main t)
            then edit_cell (cur_line t) (cur_col t + 1) (\<lambda>c. c\<lparr>cflags := remove_flags (cflags c) WIDE_CHAR_SPACER\<rparr>) t
            else if cur_col t > 0 then edit_cell (cur_line t) (cur_col t - 1) clear_wide t else Some t);
          if cur_col t \<le> 1 \<and> cur_line t \<noteq> topmost_line (main u)
          then edit_cell (cur_line t - 1) (last_column (main u))
                 (\<lambda>c. c\<lparr>cflags := remove_flags (cflags c) LEADING_WIDE_CHAR_SPACER\<rparr>) u else Some u }
        else Some t) (same_place t)"
    proof (cases "any_flags (cflags cell) (WIDE_CHAR OR WIDE_CHAR_SPACER)")
      case True
      then show ?thesis
        using ends_in_mono [OF clear lead] by (simp only: if_True ends_in_simps)
    qed (use p in simp)
    then show "ends_in (if any_flags (cflags cell) (WIDE_CHAR OR WIDE_CHAR_SPACER)
        then do { u \<leftarrow> (if has_flags (cflags cell) WIDE_CHAR \<and> cur_col t < last_column (main t)
            then edit_cell (cur_line t) (cur_col t + 1) (\<lambda>c. c\<lparr>cflags := remove_flags (cflags c) WIDE_CHAR_SPACER\<rparr>) t
            else if cur_col t > 0 then edit_cell (cur_line t) (cur_col t - 1) clear_wide t else Some t);
          if cur_col t \<le> 1 \<and> cur_line t \<noteq> topmost_line (main u)
          then edit_cell (cur_line t - 1) (last_column (main u))
                 (\<lambda>c. c\<lparr>cflags := remove_flags (cflags c) LEADING_WIDE_CHAR_SPACER\<rparr>) u else Some u }
        else Some t)
      (\<lambda>u. ends_in (edit_cell (cur_line t) (cur_col t) (\<lambda>_. template (cursor (main t))\<lparr>ch := map_char e cs c\<rparr>) u) (same_place t))"
      by (rule ends_in_mono) (rule wr)
  qed
qed

section \<open>Shifting cells\<close>

lemma swap_right_eq:
  assumes "src \<le> dst" "dst + n \<le> length xs"
  shows "ends_in (swap_right src dst n xs) (\<lambda>ys. length ys = length xs \<and>
    (\<forall>k. dst \<le> k \<longrightarrow> k < dst + n \<longrightarrow> ys ! k = xs ! (k - (dst - src))) \<and>
    (\<forall>k. k < src \<or> dst + n \<le> k \<longrightarrow> ys ! k = xs ! k))"
  using assms(2)
proof (induction n arbitrary: xs)
  case 0
  then show ?case by (simp add: swap_right_def)
next
  case (Suc n)
  let ?xs = "xs[dst + n := xs ! (src + n), src + n := xs ! (dst + n)]"
  have s: "vec_swap (dst + n) (src + n) xs = Some ?xs" using Suc.prems assms(1) by (simp add: vec_swap_def)
  have "ends_in (swap_right src dst n ?xs) (\<lambda>ys. length ys = length xs \<and>
    (\<forall>k. dst \<le> k \<longrightarrow> k < dst + n \<longrightarrow> ys ! k = ?xs ! (k - (dst - src))) \<and>
    (\<forall>k. k < src \<or> dst + n \<le> k \<longrightarrow> ys ! k = ?xs ! k))"
    using Suc.IH [of ?xs] Suc.prems by simp
  moreover have "swap_right src dst (Suc n) xs = swap_right src dst n ?xs"
    using s by (simp add: swap_right_def)
  ultimately have "ends_in (swap_right src dst (Suc n) xs) (\<lambda>ys. length ys = length xs \<and>
    (\<forall>k. dst \<le> k \<longrightarrow> k < dst + n \<longrightarrow> ys ! k = ?xs ! (k - (dst - src))) \<and>
    (\<forall>k. k < src \<or> dst + n \<le> k \<longrightarrow> ys ! k = ?xs ! k))" by simp
  then show ?case
  proof (rule ends_in_mono)
    fix ys assume ys: "length ys = length xs \<and>
      (\<forall>k. dst \<le> k \<longrightarrow> k < dst + n \<longrightarrow> ys ! k = ?xs ! (k - (dst - src))) \<and>
      (\<forall>k. k < src \<or> dst + n \<le> k \<longrightarrow> ys ! k = ?xs ! k)"
    have "ys ! k = xs ! (k - (dst - src))" if "dst \<le> k" "k < dst + Suc n" for k
    proof (cases "k = dst + n")
      case True
      then have "k - (dst - src) = src + n" using assms(1) by simp
      then show ?thesis using True ys Suc.prems assms(1) by (auto simp: nth_list_update add.commute)
    next
      case False
      then have "ys ! k = ?xs ! (k - (dst - src))" "k - (dst - src) < src + n"
        using ys that assms(1) by auto
      then show ?thesis using assms(1) by (simp add: nth_list_update)
    qed
    moreover have "ys ! k = xs ! k" if "k < src \<or> dst + Suc n \<le> k" for k
    proof -
      have "ys ! k = ?xs ! k" "k \<noteq> dst + n" "k \<noteq> src + n" using ys that assms(1) by auto
      then show ?thesis by simp
    qed
    ultimately show "length ys = length xs \<and>
      (\<forall>k. dst \<le> k \<longrightarrow> k < dst + Suc n \<longrightarrow> ys ! k = xs ! (k - (dst - src))) \<and>
      (\<forall>k. k < src \<or> dst + Suc n \<le> k \<longrightarrow> ys ! k = xs ! k)" using ys by blast
  qed
qed

lemma swap_left_eq:
  assumes "dst \<le> src" "src + n \<le> length xs"
  shows "ends_in (swap_left dst src n xs) (\<lambda>ys. length ys = length xs \<and>
    (\<forall>k. dst \<le> k \<longrightarrow> k < dst + n \<longrightarrow> ys ! k = xs ! (k + (src - dst))) \<and>
    (\<forall>k. k < dst \<or> src + n \<le> k \<longrightarrow> ys ! k = xs ! k))"
  using assms(2)
proof (induction n)
  case 0
  then show ?case by (simp add: swap_left_def)
next
  case (Suc n)
  then obtain ys where ys: "swap_left dst src n xs = Some ys" "length ys = length xs"
    "\<And>k. dst \<le> k \<Longrightarrow> k < dst + n \<Longrightarrow> ys ! k = xs ! (k + (src - dst))"
    "\<And>k. k < dst \<or> src + n \<le> k \<Longrightarrow> ys ! k = xs ! k"
    by (auto simp: ends_in_def)
  let ?zs = "ys[dst + n := ys ! (src + n), src + n := ys ! (dst + n)]"
  have "vec_swap (dst + n) (src + n) ys = Some ?zs" using Suc.prems ys(2) assms(1) by (simp add: vec_swap_def)
  then have "swap_left dst src (Suc n) xs = Some ?zs"
    using ys(1) by (simp add: swap_left_def fold_opt_append)
  moreover have "?zs ! k = xs ! (k + (src - dst))" if "dst \<le> k" "k < dst + Suc n" for k
  proof (cases "k = dst + n")
    case True
    then have "k + (src - dst) = src + n" using assms(1) by simp
    then show ?thesis using True ys(2,4) Suc.prems assms(1) by (auto simp: nth_list_update add.commute)
  next
    case False
    then show ?thesis using ys(3) [OF that(1)] that assms(1) by simp
  qed
  moreover have "?zs ! k = xs ! k" if "k < dst \<or> src + Suc n \<le> k" for k
    using ys(4) [of k] that assms(1) by auto
  ultimately show ?case using ys(2) by (simp only: ends_in_simps length_list_update) blast
qed

lemma swap_right_length: "src \<le> dst \<Longrightarrow> dst + n \<le> length xs \<Longrightarrow>
    ends_in (swap_right src dst n xs) (\<lambda>ys. length ys = length xs)"
  by (rule ends_in_mono [OF swap_right_eq]) auto

lemma swap_left_length: "dst \<le> src \<Longrightarrow> src + n \<le> length xs \<Longrightarrow>
    ends_in (swap_left dst src n xs) (\<lambda>ys. length ys = length xs)"
  by (rule ends_in_mono [OF swap_left_eq]) auto

lemma edit_row_place:
  assumes "term_ok t"
    and "\<And>r. row_ok cell_reset r \<Longrightarrow> length (cells r) = columns (main t) \<Longrightarrow>
      ends_in (f r) (\<lambda>r'. row_ok cell_reset r' \<and> length (cells r') = columns (main t))"
  shows "ends_in (on_main (edit_row (cur_line t) f) t) (same_place t)"
  by (rule edit_row_wp [OF assms(1)]) (use assms same_place_main term_okD(5,6) [OF assms(1)] in auto)

section \<open>Input\<close>

lemma template_place: "term_ok t \<Longrightarrow> same_place t (upd_template f t)"
  by (simp add: same_place_def) (simp add: upd_template_def upd_cursor_def history_size_def)

lemma write_place:
  assumes "same_place t u"
  shows "ends_in (write_at_cursor e c u) (same_place t)"
  by (rule ends_in_mono [OF write_at_cursor_ends]) (use assms same_place_trans in \<open>auto simp: same_place_def\<close>)

lemma input_zero_width_ends:
  assumes "term_ok t"
  shows "ends_in (input_zero_width c t) term_ok"
proof -
  let ?k = "if wrap_next t then cur_col t else cur_col t - 1"
  have k: "?k < columns (main t)" using term_okD(7) [OF assms] by (auto simp: less_imp_diff_less)
  have "ends_in (edit_cell (cur_line t) j f t) term_ok" if "j \<le> ?k" for j f
    by (rule ends_in_mono [OF edit_cell_place [OF same_place_refl [OF assms]]])
      (use that k term_okD(5,6) [OF assms] in \<open>auto simp: same_place_def\<close>)
  then show ?thesis
    unfolding input_zero_width_def Let_def ends_in_simps
    by (intro ends_in_mono [OF main_cell_ends [OF assms k]]) simp
qed

lemma input_wide_ends:
  assumes "term_ok t"
  shows "ends_in (input_wide e c t) (\<lambda>(fits, t'). term_ok t' \<and> columns (main t') = columns (main t))"
proof -
  have glyph: "ends_in (do { t \<leftarrow> write_at_cursor e c (add_template_flags WIDE_CHAR u);
            let t = drop_template_flags WIDE_CHAR t;
            let t = set_cur_col (cur_col t + 1) t;
            t \<leftarrow> write_at_cursor e 32 (add_template_flags WIDE_CHAR_SPACER t);
            Some (True, drop_template_flags WIDE_CHAR_SPACER t) })
      (\<lambda>(fits, t'). term_ok t' \<and> columns (main t') = columns (main u))"
    if u: "term_ok u" "cur_col u + 1 < columns (main u)" for u
    unfolding ends_in_simps Let_def
  proof (rule ends_in_mono [OF write_place [OF template_place [OF u(1), of "\<lambda>c. c\<lparr>cflags := cflags c OR WIDE_CHAR\<rparr>",
        folded add_template_flags_def]]])
    fix v assume v: "same_place u v"
    let ?w = "set_cur_col (cur_col (drop_template_flags WIDE_CHAR v) + 1) (drop_template_flags WIDE_CHAR v)"
    have w: "term_ok ?w" "columns (main ?w) = columns (main u)"
      using v u(2) by (simp_all add: same_place_def drop_template_flags_def)
    have "ends_in (write_at_cursor e 32 (add_template_flags WIDE_CHAR_SPACER ?w)) (same_place ?w)"
      unfolding add_template_flags_def by (rule write_place [OF template_place [OF w(1)]])
    then show "ends_in (write_at_cursor e 32 (add_template_flags WIDE_CHAR_SPACER ?w))
        (\<lambda>x. case (True, drop_template_flags WIDE_CHAR_SPACER x) of
           (fits, t') \<Rightarrow> term_ok t' \<and> columns (main t') = columns (main u))"
      by (rule ends_in_mono) (use w(2) in \<open>simp add: same_place_def drop_template_flags_def\<close>)
  qed
  have wrap: "ends_in (do { t \<leftarrow> write_at_cursor e 32 (add_template_flags LEADING_WIDE_CHAR_SPACER t);
                    t \<leftarrow> wrapline (drop_template_flags LEADING_WIDE_CHAR_SPACER t);
                    Some (True, t) }) (\<lambda>(b, u). b \<and> term_ok u \<and> cur_col u = 0 \<and> columns (main u) = columns (main t))"
    if "has_mode LINE_WRAP t"
    unfolding ends_in_simps
  proof (rule ends_in_mono [OF write_place [OF template_place [OF assms, of "\<lambda>c. c\<lparr>cflags := cflags c OR LEADING_WIDE_CHAR_SPACER\<rparr>",
        folded add_template_flags_def]]])
    fix v assume v: "same_place t v"
    let ?w = "drop_template_flags LEADING_WIDE_CHAR_SPACER v"
    have "term_ok ?w" "has_mode LINE_WRAP ?w" "columns (main ?w) = columns (main t)"
      using v that by (simp_all add: same_place_def drop_template_flags_def)
        (simp add: has_mode_def upd_template_def upd_cursor_def)
    from wrapline_ends [OF this(1)] this(2,3)
    show "ends_in (wrapline ?w) (\<lambda>x. case (True, x) of
        (b, u) \<Rightarrow> b \<and> term_ok u \<and> cur_col u = 0 \<and> columns (main u) = columns (main t))"
      by (auto intro: ends_in_mono)
  qed
  let ?fits = "if cur_col t + 1 \<ge> columns (main t)
             then if has_mode LINE_WRAP t
                  then do {
                    t \<leftarrow> write_at_cursor e 32 (add_template_flags LEADING_WIDE_CHAR_SPACER t);
                    t \<leftarrow> wrapline (drop_template_flags LEADING_WIDE_CHAR_SPACER t);
                    Some (True, t) }
                  else Some (False, set_wrap True t)
             else Some (True, t)"
  have "ends_in ?fits (\<lambda>(b, u). term_ok u \<and> columns (main u) = columns (main t) \<and>
      (b \<longrightarrow> cur_col u + 1 < columns (main u)))"
  proof (cases "cur_col t + 1 \<ge> columns (main t) \<and> has_mode LINE_WRAP t")
    case True
    then have "ends_in ?fits (\<lambda>(b, u). b \<and> term_ok u \<and> cur_col u = 0 \<and> columns (main u) = columns (main t))"
      using wrap by (simp only: if_True simp_thms)
    then show ?thesis
      by (rule ends_in_mono) (use term_okD(3) [OF assms] in auto)
  next
    case False
    then show ?thesis using assms by auto
  qed
  then obtain b u where u: "?fits = Some (b, u)" "term_ok u" "columns (main u) = columns (main t)"
    "b \<Longrightarrow> cur_col u + 1 < columns (main u)"
    by (auto simp: ends_in_def)
  show ?thesis
    using glyph [OF u(2)] u(2-4)
    by (cases b) (simp_all only: input_wide_def u(1) Option.bind.bind_lunit prod.case simp_thms if_True if_False
        ends_in_simps(1))
qed

end
