(* ===== verification/TermSafe.thy ===== *)
theory TermSafe
  imports TermWf
begin

text \<open>
  The rest of the terminal's operations keep its invariant, and the terminal as a transition system
  over the events that its parser and its window send it.
\<close>

section \<open>Characters and tabs\<close>

lemma place_ok: "ends_in m (same_place t) \<Longrightarrow> ends_in m term_ok"
  by (erule ends_in_mono) (simp add: same_place_def)

lemma just_ok: "ends_in m (\<lambda>u. term_ok u \<and> P u) \<Longrightarrow> ends_in m term_ok"
  by (erule ends_in_mono) simp

lemma row_swap_ends:
  "src \<le> dst \<Longrightarrow> dst + k \<le> length (cells r) \<Longrightarrow> length (cells r) = n \<Longrightarrow>
    ends_in (row_edit_all (swap_right src dst k) r) (\<lambda>r'. row_ok cell_reset r' \<and> length (cells r') = n)"
  "dst \<le> src \<Longrightarrow> src + k \<le> length (cells r) \<Longrightarrow> length (cells r) = n \<Longrightarrow>
    ends_in (row_edit_all (swap_left dst src k) r) (\<lambda>r'. row_ok cell_reset r' \<and> length (cells r') = n)"
  using edit_all_ends [where f = "swap_right src dst k", OF swap_right_length]
    edit_all_ends [where f = "swap_left dst src k", OF swap_left_length] by blast+

lemma advance_ok: "term_ok t \<Longrightarrow> term_ok (advance t)"
  by (simp add: advance_def)

lemma input_ends:
  assumes "term_ok t"
  shows "ends_in (input e c t) term_ok"
proof (cases "char_width e c")
  case None
  then show ?thesis using assms by (simp add: input_def)
next
  case (Some w)
  have first: "ends_in (if wrap_next t then wrapline t else Some t) term_ok"
    using ends_in_mono [OF wrapline_ends [OF assms], of term_ok] assms by simp
  have shift: "ends_in (if has_mode INSERT u \<and> cur_col u + w < columns (main u)
        then on_main (edit_row (cur_line u)
               (row_edit_all (swap_right (cur_col u) (cur_col u + w) (columns (main u) - w - cur_col u)))) u
        else Some u) term_ok" if u: "term_ok u" for u
  proof -
    have "ends_in (on_main (edit_row (cur_line u)
        (row_edit_all (swap_right (cur_col u) (cur_col u + w) (columns (main u) - w - cur_col u)))) u) (same_place u)"
      if "cur_col u + w < columns (main u)"
      by (rule edit_row_place [OF u], rule row_swap_ends) (use that in auto)
    then have "ends_in (on_main (edit_row (cur_line u)
        (row_edit_all (swap_right (cur_col u) (cur_col u + w) (columns (main u) - w - cur_col u)))) u) term_ok"
      if "cur_col u + w < columns (main u)"
      using that by (intro place_ok)
    then show ?thesis using u by simp
  qed
  have glyph: "ends_in (if w = 1 then do { t \<leftarrow> write_at_cursor e c u; Some (True, t) } else input_wide e c u)
      (\<lambda>p. term_ok (if fst p then advance (snd p) else snd p))" if u: "term_ok u" for u
  proof -
    have "ends_in (input_wide e c u) (\<lambda>p. term_ok (if fst p then advance (snd p) else snd p))"
      by (rule ends_in_mono [OF input_wide_ends [OF u]]) (auto simp: advance_ok)
    moreover have "ends_in (write_at_cursor e c u) (\<lambda>t. term_ok (advance t))"
      by (rule ends_in_mono [OF write_at_cursor_ends [OF u]]) (simp add: same_place_def advance_ok)
    ultimately show ?thesis by simp
  qed
  show ?thesis
  proof (cases "w = 0")
    case True
    then show ?thesis using Some input_zero_width_ends [OF assms] by (simp add: input_def)
  next
    case False
    obtain u where u: "(if wrap_next t then wrapline t else Some t) = Some u" "term_ok u"
      using first unfolding ends_in_def by blast
    obtain v where v: "(if has_mode INSERT u \<and> cur_col u + w < columns (main u)
        then on_main (edit_row (cur_line u)
               (row_edit_all (swap_right (cur_col u) (cur_col u + w) (columns (main u) - w - cur_col u)))) u
        else Some u) = Some v" "term_ok v"
      using shift [OF u(2)] unfolding ends_in_def by blast
    obtain b x where x: "(if w = 1 then do { t \<leftarrow> write_at_cursor e c v; Some (True, t) } else input_wide e c v) = Some (b, x)"
      "term_ok (if b then advance x else x)"
      using glyph [OF v(2)] unfolding ends_in_def by (metis prod.collapse)
    have "input e c t = Some (if b then advance x else x)"
      by (simp only: input_def Some False option.case if_False u(1) Option.bind.bind_lunit Let_def v(1) x(1) prod.case)
    then show ?thesis using x(2) by simp
  qed
qed

lemma put_tab_loop_ends: "term_ok t \<Longrightarrow> ends_in (put_tab_loop e n t) term_ok"
proof (induction n arbitrary: t)
  case (Suc n)
  note ok = term_okD [OF Suc.prems]
  let ?f = "\<lambda>cs cl. if ch cl = 32 then cl\<lparr>ch := map_char e cs 9\<rparr> else cl"
  have "ends_in (edit_cell (cur_line t) (cur_col t) (?f cs) t)
      (\<lambda>u. ends_in (next_stop (tabs u) (columns (main u)) (cur_col u))
         (\<lambda>k. ends_in (put_tab_loop e n (set_cur_col k u)) term_ok))" for cs
  proof (rule ends_in_mono [OF edit_cell_place [OF same_place_refl [OF Suc.prems]]])
    fix u assume u: "same_place t u"
    show "ends_in (next_stop (tabs u) (columns (main u)) (cur_col u))
         (\<lambda>k. ends_in (put_tab_loop e n (set_cur_col k u)) term_ok)"
      by (rule ends_in_mono [OF next_stop_ends]) (use u ok Suc.IH in \<open>auto simp: same_place_def\<close>)
  qed (use ok in simp_all)
  then show ?case using Suc.prems ok(8,9) by simp
qed simp

lemma put_tab_ends: "term_ok t \<Longrightarrow> ends_in (put_tab e n t) term_ok"
  using ends_in_mono [OF wrapline_ends, of t term_ok] put_tab_loop_ends by (simp add: put_tab_def)

lemma decaln_ends:
  assumes "term_ok t"
  shows "ends_in (decaln t) term_ok"
proof -
  have "ends_in (fold_opt (\<lambda>l. fold_opt (\<lambda>k. edit_cell l k (\<lambda>_. cell_default\<lparr>ch := 69\<rparr>)) [0..<columns (main t)])
                  [0..int (screen_lines (main t)) - 1] t) (same_place t)"
    by (intro ends_in_fold edit_cell_place same_place_refl [OF assms]) auto
  then have "ends_in (fold_opt (\<lambda>l. fold_opt (\<lambda>k. edit_cell l k (\<lambda>_. cell_default\<lparr>ch := 69\<rparr>)) [0..<columns (main t)])
                  [0..int (screen_lines (main t)) - 1] t) term_ok"
    by (rule ends_in_mono) (simp add: same_place_def)
  then show ?thesis by (simp add: decaln_def)
qed

section \<open>Inserting and deleting\<close>

lemma damaged_row_ends:
  assumes "term_ok t"
    and "\<And>r. row_ok cell_reset r \<Longrightarrow> length (cells r) = columns (main t) \<Longrightarrow>
      ends_in (f r) (\<lambda>r'. row_ok cell_reset r' \<and> length (cells r') = columns (main t))"
  shows "ends_in (damage_line (cur_line t) a b t) (\<lambda>u. ends_in (on_main (edit_row (cur_line u) f) u) term_ok)"
proof (rule damage_line_wp)
  fix d assume "dam_ok (screen_lines (main t)) d"
  then have u: "term_ok (t\<lparr>damage := d\<rparr>)" using assms(1) by simp
  show "ends_in (on_main (edit_row (cur_line (t\<lparr>damage := d\<rparr>)) f) (t\<lparr>damage := d\<rparr>)) term_ok"
    by (rule ends_in_mono [OF edit_row_place [OF u]]) (use assms(2) in \<open>simp_all add: same_place_def\<close>)
qed (use assms term_okD(5,6) in auto)

lemma cur_line_damage_line: "damage_line l a b t = Some u \<Longrightarrow> cur_line u = cur_line t"
  by (auto simp: damage_line_def)

lemma insert_blank_ends:
  assumes "term_ok t"
  shows "ends_in (insert_blank n t) term_ok"
proof -
  note ok = term_okD [OF assms]
  let ?m = "min n (columns (main t) - cur_col t)"
  let ?f = "\<lambda>r. do { r \<leftarrow> row_edit_all (swap_right (cur_col t) (cur_col t + ?m) (columns (main t) - (cur_col t + ?m))) r;
                     row_fill (cur_col t) (cur_col t + ?m) (bg_cell (cur_bg t)) r }"
  have "ends_in (?f r) (\<lambda>r'. row_ok cell_reset r' \<and> length (cells r') = columns (main t))"
    if "row_ok cell_reset r" "length (cells r) = columns (main t)" for r
  proof -
    have "ends_in (row_edit_all (swap_right (cur_col t) (cur_col t + ?m) (columns (main t) - (cur_col t + ?m))) r)
        (\<lambda>r'. row_ok cell_reset r' \<and> length (cells r') = columns (main t))"
      by (rule row_swap_ends) (use that ok(7) in auto)
    then show ?thesis
      unfolding ends_in_simps by (rule ends_in_mono) (use ok(7) fill_ends in auto)
  qed
  from damaged_row_ends [OF assms this, where a = 0 and b = "columns (main t) - 1"]
  have "ends_in (damage_line (cur_line t) 0 (columns (main t) - 1) t)
      (\<lambda>u. ends_in (on_main (edit_row (cur_line u) ?f) u) term_ok)" .
  then show ?thesis using ok(7) by (simp add: insert_blank_def Let_def)
qed

lemma erase_chars_ends:
  assumes "term_ok t"
  shows "ends_in (erase_chars n t) term_ok"
  unfolding erase_chars_def Let_def ends_in_simps
  by (rule damaged_row_ends [OF assms]) (use fill_ends term_okD(7) [OF assms] in auto)

lemma delete_chars_ends:
  assumes "term_ok t"
  shows "ends_in (delete_chars n t) term_ok"
proof -
  note ok = term_okD [OF assms]
  let ?cols = "columns (main t)"
  let ?stop = "min (cur_col t + min n ?cols) (?cols - 1)"
  let ?f = "\<lambda>r. do { r \<leftarrow> row_edit_all (swap_left (cur_col t) ?stop (?cols - ?stop)) r;
                     row_fill_from (?cols - min n ?cols) (bg_cell (cur_bg t)) r }"
  have "ends_in (?f r) (\<lambda>r'. row_ok cell_reset r' \<and> length (cells r') = ?cols)"
    if "row_ok cell_reset r" "length (cells r) = ?cols" for r
  proof -
    have "ends_in (row_edit_all (swap_left (cur_col t) ?stop (?cols - ?stop)) r)
        (\<lambda>r'. row_ok cell_reset r' \<and> length (cells r') = ?cols)"
      by (rule row_swap_ends) (use that ok(7) in auto)
    then show ?thesis
      unfolding ends_in_simps by (rule ends_in_mono) (use fill_from_ends in auto)
  qed
  from damaged_row_ends [OF assms this] show ?thesis by (simp add: delete_chars_def Let_def)
qed

lemma insert_blank_lines_ends: "term_ok t \<Longrightarrow> ends_in (insert_blank_lines n t) term_ok"
  using just_ok [OF scroll_down_relative_ends]
  by (simp add: insert_blank_lines_def Let_def split_def)

lemma delete_lines_ends: "term_ok t \<Longrightarrow> ends_in (delete_lines n t) term_ok"
  using just_ok [OF scroll_up_relative_ends] term_okD(5,6) [of t]
  by (simp add: delete_lines_def Let_def split_def)

lemma filter_selection_ok [simp]: "term_ok (filter_selection P t) = term_ok t"
  by (simp add: filter_selection_def)

lemma clear_line_ends:
  assumes "term_ok t"
  shows "ends_in (clear_line m t) term_ok"
proof -
  have "ends_in (damage_line (cur_line t) a (b - 1) t)
      (\<lambda>u. ends_in (on_main (edit_row (cur_line t) (row_fill a b c)) u)
         (\<lambda>v. term_ok (filter_selection P v)))" if "a \<le> b" "b \<le> columns (main t)" for a b c P
    using damaged_row_ends [OF assms, of "row_fill a b c" a "b - 1"] fill_ends that cur_line_damage_line
    by (fastforce simp: ends_in_def)
  then show ?thesis using assms term_okD(7) [OF assms] by (simp add: clear_line_def Let_def)
qed

lemma on_main_scroll_ends:
  assumes "term_ok t" "ends_in (f (main t)) (scrolled (main t))"
  shows "ends_in (on_main f t) (\<lambda>u. term_ok u \<and> cur_line u = cur_line t \<and> cur_col u = cur_col t \<and>
    columns (main u) = columns (main t) \<and> screen_lines (main u) = screen_lines (main t))"
  by (rule scroll_wp [where f = f, OF assms]) (simp add: scrolled_def cur_line_def cur_col_def)

lemma region_reset_ends:
  assumes "term_ok t" "0 \<le> a" "a < int (screen_lines (main t))" "b \<le> int (screen_lines (main t))"
  shows "ends_in (on_main (reset_region a b) t) (\<lambda>u. term_ok u \<and> cur_line u = cur_line t \<and> cur_col u = cur_col t \<and>
    columns (main u) = columns (main t) \<and> screen_lines (main u) = screen_lines (main t))"
  by (rule on_main_scroll_ends [OF assms(1)], rule reset_region_ends) (use assms term_okD(1) in auto)

lemma on_main_row_ends:
  assumes "term_ok t" "0 \<le> l" "l < int (screen_lines (main t))"
    and "\<And>r. row_ok cell_reset r \<Longrightarrow> length (cells r) = columns (main t) \<Longrightarrow>
      ends_in (f r) (\<lambda>r'. row_ok cell_reset r' \<and> length (cells r') = columns (main t))"
  shows "ends_in (on_main (edit_row l f) t) (\<lambda>u. term_ok u \<and>
    columns (main u) = columns (main t) \<and> screen_lines (main u) = screen_lines (main t))"
  by (rule edit_row_wp [OF assms(1)]) (use assms in \<open>auto simp: same_view_def\<close>)

lemma resized_ok:
  assumes "term_ok t" "grid_wf g" "cursor g = cursor (main t)" "saved_cursor g = saved_cursor (main t)"
    "columns g = columns (main t)" "screen_lines g = screen_lines (main t)"
  shows "term_ok (t\<lparr>main := g\<rparr>)"
  using assms by (simp add: term_ok_def screen_ok_def cursor_ok_def)

lemma clear_screen_ends:
  assumes "term_ok t"
  shows "ends_in (clear_screen m t) term_ok"
proof (cases m)
  note ok = term_okD [OF assms]
  case Above
  have "ends_in (if cur_line t > 1 then on_main (reset_region 0 (cur_line t)) t else Some t)
      (\<lambda>u. term_ok u \<and> columns (main u) = columns (main t) \<and> screen_lines (main u) = screen_lines (main t))"
    using ends_in_mono [OF region_reset_ends [OF assms]] ok assms by simp
  then have "ends_in (if cur_line t > 1 then on_main (reset_region 0 (cur_line t)) t else Some t)
      (\<lambda>u. ends_in (on_main (edit_row (cur_line t) (row_fill 0 (min (cur_col t + 1) (columns (main u)))
        (bg_cell (cur_bg t)))) u) term_ok)"
    by (rule ends_in_mono) (rule just_ok [OF on_main_row_ends], use ok fill_ends in auto)
  then show ?thesis by (simp add: clear_screen_def Let_def Above)
next
  note ok = term_okD [OF assms]
  case Below
  have "ends_in (on_main (edit_row (cur_line t) (row_fill_from (cur_col t) (bg_cell (cur_bg t)))) t)
      (\<lambda>u. term_ok u \<and> columns (main u) = columns (main t) \<and> screen_lines (main u) = screen_lines (main t))"
    by (rule on_main_row_ends [OF assms]) (use ok fill_from_ends in auto)
  then have "ends_in (on_main (edit_row (cur_line t) (row_fill_from (cur_col t) (bg_cell (cur_bg t)))) t)
      (\<lambda>u. ends_in (if int (as_usize (cur_line t)) < int (screen_lines (main t)) - 1
        then on_main (reset_region (cur_line t + 1) (int (screen_lines (main t)))) u else Some u) term_ok)"
  proof (rule ends_in_mono)
    fix u assume u: "term_ok u \<and> columns (main u) = columns (main t) \<and> screen_lines (main u) = screen_lines (main t)"
    have "ends_in (on_main (reset_region (cur_line t + 1) (int (screen_lines (main t)))) u) term_ok"
      if "cur_line t < int (screen_lines (main t)) - 1"
      by (rule just_ok [OF region_reset_ends]) (use u ok that in auto)
    then show "ends_in (if int (as_usize (cur_line t)) < int (screen_lines (main t)) - 1
        then on_main (reset_region (cur_line t + 1) (int (screen_lines (main t)))) u else Some u) term_ok"
      using u ok(5) by simp
  qed
  then show ?thesis by (simp add: clear_screen_def Let_def Below)
next
  note ok = term_okD [OF assms]
  case ClearScreen
  have "ends_in (on_main (reset_region 0 (int (screen_lines (main t)))) t) term_ok"
    "ends_in (on_main clear_viewport t) term_ok"
    by (rule just_ok [OF region_reset_ends [OF assms]], use ok in simp_all)
      (rule just_ok [OF on_main_scroll_ends [where f = clear_viewport, OF assms clear_viewport_ends [OF ok(1)]]])
  then show ?thesis by (simp add: clear_screen_def Let_def ClearScreen)
next
  note ok = term_okD [OF assms]
  case Saved
  have "ends_in (clear_history (main t)) (\<lambda>g. term_ok (t\<lparr>main := g\<rparr>))"
    by (rule ends_in_mono [OF clear_history_ends [OF ok(1)]]) (simp add: resized_ok assms)
  then have "ends_in (on_main clear_history t) term_ok" by (simp add: on_main_def)
  then show ?thesis using assms by (simp add: clear_screen_def Let_def Saved)
qed

section \<open>Modes, screens and the state as a whole\<close>

lemma mode_simps [simp]:
  "term_ok (insert_mode m t) = term_ok t" "term_ok (drop_mode m t) = term_ok t" "term_ok (send e t) = term_ok t"
  "term_ok (apply_kb_mode m a t) = term_ok t" "term_ok (set_blinking b t) = term_ok t"
  by (simp_all add: insert_mode_def drop_mode_def send_def apply_kb_mode_def set_blinking_def Let_def)

lemma keyboard_ends:
  assumes "term_ok t"
  shows "length (kb_stack t) < MAX_STACK \<or> title_stack t \<noteq> [] \<Longrightarrow> ends_in (push_keyboard_mode k t) term_ok"
    "ends_in (pop_keyboard_modes n t) term_ok" "ends_in (set_keyboard_mode k a t) term_ok"
    "ends_in (report_keyboard_mode e t) term_ok"
  using assms by (auto simp: push_keyboard_mode_def pop_keyboard_modes_def set_keyboard_mode_def
      report_keyboard_mode_def Let_def)

lemma region_ok:
  "term_ok t \<Longrightarrow> 0 \<le> a \<Longrightarrow> a \<le> b \<Longrightarrow> b \<le> int (screen_lines (main t)) \<Longrightarrow> term_ok (t\<lparr>scroll_region := (a, b)\<rparr>)"
  by (simp add: term_ok_def)

lemma set_scrolling_region_ends:
  assumes "term_ok t" "1 \<le> first"
  shows "ends_in (set_scrolling_region first b t) term_ok"
proof -
  have "ends_in (goto 0 0 (t\<lparr>scroll_region := (min (int first - 1) (int (screen_lines (main t))),
      min (int c) (int (screen_lines (main t))))\<rparr>)) term_ok" if "first < c" for c
    by (rule goto_ends, rule region_ok) (use assms that in auto)
  then show ?thesis using assms(1) by (auto simp: set_scrolling_region_def Let_def)
qed

lemma full_reset_ends:
  assumes "term_ok t"
  shows "ends_in (on_main (reset_region 0 (int (screen_lines (main t)))) t) term_ok"
  by (rule just_ok [OF region_reset_ends [OF assms]]) (use term_okD [OF assms] in simp_all)

lemma deccolm_ends: "term_ok t \<Longrightarrow> ends_in (deccolm t) term_ok"
  unfolding deccolm_def ends_in_simps
  by (rule ends_in_mono [OF set_scrolling_region_ends]) (simp_all add: full_reset_ends)

lemma term_ok_swapped [simp]: "term_ok (t\<lparr>main := inactive t, inactive := main t\<rparr>) = term_ok t"
  by (auto simp: term_ok_def)

lemma swap_alt_ends:
  assumes "term_ok t"
  shows "ends_in (swap_alt t) term_ok"
proof -
  let ?g = "(inactive t)\<lparr>cursor := cursor (main t)\<rparr>"
  let ?t = "t\<lparr>inactive := ?g, main := (main t)\<lparr>saved_cursor := cursor (main t)\<rparr>\<rparr>"
  have t: "term_ok ?t" using assms by (simp add: term_ok_def screen_ok_def cursor_ok_def)
  have "ends_in (reset_region 0 (int (screen_lines ?g)) ?g) (\<lambda>g. term_ok (?t\<lparr>inactive := g\<rparr>))"
  proof (rule ends_in_mono [OF reset_region_ends])
    fix g assume "scrolled ?g g"
    then show "term_ok (?t\<lparr>inactive := g\<rparr>)"
      using t screen_ok_scrolled [of ?g g] by (simp add: term_ok_def scrolled_def)
  qed (use assms grid_dims [OF term_okD(2) [OF assms]] in \<open>simp_all add: term_ok_def screen_ok_def\<close>)
  then show ?thesis using assms by (simp add: swap_alt_def Let_def)
qed

lemma mode_ends:
  assumes "term_ok t"
  shows "ends_in (set_private_mode m t) term_ok" "ends_in (unset_private_mode m t) term_ok"
    "ends_in (set_mode a t) term_ok" "ends_in (unset_mode a t) term_ok"
proof -
  show "ends_in (set_private_mode m t) term_ok" "ends_in (unset_private_mode m t) term_ok"
    by (cases m; simp add: assms swap_alt_ends deccolm_ends goto_ends)+
  show "ends_in (set_mode a t) term_ok" "ends_in (unset_mode a t) term_ok"
    by (cases a; simp add: assms)+
qed

lemma charset_set_ends:
  assumes "term_ok t" "i < 4"
  shows "ends_in (configure_charset i cs t) term_ok" "ends_in (set_active_charset i t) term_ok"
  using assms term_okD(8) [OF assms(1)]
  by (auto simp: configure_charset_def set_active_charset_def intro!: term_ok_cursor)
    (auto simp: term_ok_def screen_ok_def cursor_ok_def)

lemma style_ends:
  assumes "term_ok t"
  shows "ends_in (set_cursor_style s t) term_ok" "ends_in (set_cursor_shape n t) term_ok"
    "ends_in (term_set_hyperlink h t) term_ok" "ends_in (terminal_attribute a t) term_ok"
    "ends_in (set_keypad_application_mode t) term_ok" "ends_in (unset_keypad_application_mode t) term_ok"
    "ends_in (bell t) term_ok" "ends_in (device_status n t) term_ok" "ends_in (text_area_size_chars t) term_ok"
  using assms by (simp_all add: set_cursor_style_def set_cursor_shape_def Let_def term_set_hyperlink_def
      terminal_attribute_def set_keypad_application_mode_def unset_keypad_application_mode_def bell_def
      device_status_def text_area_size_chars_def)

lemma title_ends:
  assumes "term_ok t"
  shows "ends_in (set_title s t) term_ok" "ends_in (push_title t) term_ok" "ends_in (pop_title t) term_ok"
  using assms by (simp_all add: set_title_def push_title_def pop_title_def Let_def)

lemma tabs_new_length [simp]: "length (tabs_new n) = n"
  by (simp add: tabs_new_def)

lemma cursor_default_ok: "grid_wf g \<Longrightarrow> cursor_ok g cursor_default"
  using grid_dims [of g] by (simp add: cursor_ok_def cursor_default_def)

lemma fresh_screens_ok:
  assumes "term_ok t" "grid_wf g" "cursor g = cursor_default" "saved_cursor g = cursor_default"
    "columns g = columns (main t)" "screen_lines g = screen_lines (main t)"
    "grid_wf h" "cursor h = cursor_default" "saved_cursor h = cursor_default"
    "columns h = columns (inactive t)" "screen_lines h = screen_lines (inactive t)"
    and "main u = g" "inactive u = h" "damage u = damage t" "length (tabs u) = columns g" "active_charset u = 0"
    "scroll_region u = (0, int (screen_lines g))"
  shows "term_ok u"
  using assms cursor_default_ok [of g] cursor_default_ok [of h] by (simp add: term_ok_def screen_ok_def)

lemma reset_state_ends:
  assumes "term_ok t"
  shows "ends_in (reset_state t) term_ok"
proof -
  obtain g where g: "grid_reset (main t) = Some g" "grid_wf g" "cursor g = cursor_default" "saved_cursor g = cursor_default"
    "columns g = columns (main t)" "screen_lines g = screen_lines (main t)"
    using grid_reset_ends [OF term_okD(1) [OF assms]] unfolding ends_in_def by blast
  obtain h where h: "grid_reset (inactive t) = Some h" "grid_wf h" "cursor h = cursor_default" "saved_cursor h = cursor_default"
    "columns h = columns (inactive t)" "screen_lines h = screen_lines (inactive t)"
    using grid_reset_ends [OF term_okD(2) [OF assms]] unfolding ends_in_def by blast
  have eq: "columns (inactive t) = columns (main t)" "screen_lines (inactive t) = screen_lines (main t)"
    using assms by (simp_all add: term_ok_def)
  have sw: "term_ok (t\<lparr>main := inactive t, inactive := main t\<rparr>)" using assms by simp
  show ?thesis
  proof (cases "has_mode ALT_SCREEN t")
    case True
    then show ?thesis
      using g(1) h(1) eq fresh_screens_ok [OF sw h(2-4) _ _ g(2-4)] h(5-6) g(5-6)
      by (simp add: reset_state_def Let_def)
  next
    case False
    then show ?thesis
      using g(1) h(1) fresh_screens_ok [OF assms g(2-4) _ _ h(2-4)] h(5-6) g(5-6)
      by (simp add: reset_state_def Let_def)
  qed
qed

lemma vi_simps [simp]:
  "term_ok (recompute_vi_selection t) = term_ok t" "main (recompute_vi_selection t) = main t"
  by (simp_all add: recompute_vi_selection_def split: option.splits)

lemma scroll_display_ok [simp]: "term_ok (t\<lparr>main := scroll_display s (main t)\<rparr>) = term_ok t"
  by (simp add: scroll_display_def term_ok_def screen_ok_def cursor_ok_def Let_def)

lemma term_scroll_display_ok [simp]: "term_ok (term_scroll_display s t) = term_ok t"
  by (simp add: term_scroll_display_def Let_def send_def)

lemma vi_ok [simp]:
  "term_ok (scroll_to_point p t) = term_ok t" "term_ok (vi_goto_point p t) = term_ok t"
  "term_ok (toggle_vi_mode t) = term_ok t"
  by (simp_all add: scroll_to_point_def vi_goto_point_def toggle_vi_mode_def Let_def)

lemma set_options_ends:
  assumes "term_ok t"
  shows "ends_in (set_options c t) term_ok"
proof -
  have "ends_in (update_history n (main u)) (\<lambda>g. term_ok (u\<lparr>main := g\<rparr>))" if "term_ok u" for u n
    by (rule ends_in_mono [OF update_history_ends [OF term_okD(1) [OF that]]]) (simp add: resized_ok that)
  moreover have "ends_in (update_history n (inactive u)) (\<lambda>g. term_ok (u\<lparr>inactive := g\<rparr>))" if "term_ok u" for u n
    by (rule ends_in_mono [OF update_history_ends [OF term_okD(2) [OF that]]])
      (use that in \<open>simp add: term_ok_def screen_ok_def cursor_ok_def\<close>)
  moreover define u where "u = send (case title t of None \<Rightarrow> ResetTitle | Some x \<Rightarrow> Title x) (t\<lparr>conf := c\<rparr>)"
  moreover have "term_ok u" using assms by (simp add: u_def)
  ultimately have step: "ends_in (if has_mode ALT_SCREEN t
        then map_option (\<lambda>g. u\<lparr>inactive := g\<rparr>) (update_history (scrolling_history c) (inactive u))
        else on_main (update_history (scrolling_history c)) u) term_ok"
    by (simp add: on_main_def)
  have "ends_in (do { t \<leftarrow> (if has_mode ALT_SCREEN t
        then map_option (\<lambda>g. u\<lparr>inactive := g\<rparr>) (update_history (scrolling_history c) (inactive u))
        else on_main (update_history (scrolling_history c)) u);
        Some (mark_fully_damaged (if b then drop_mode KITTY_KEYBOARD_PROTOCOL (t\<lparr>kb_stack := [], inactive_kb_stack := []\<rparr>)
          else t)) }) term_ok" for b
    using step unfolding ends_in_simps(1,3) by (rule ends_in_mono) simp
  moreover have "has_mode ALT_SCREEN u = has_mode ALT_SCREEN t" by (simp add: u_def send_def has_mode_def)
  ultimately show ?thesis
    by (simp only: set_options_def Let_def u_def [symmetric])
qed

lemma collect_damage_ends:
  assumes "term_ok t"
  shows "ends_in (collect_damage t) (\<lambda>p. term_ok (snd p))"
proof -
  define u where "u = (if has_mode INSERT t then mark_fully_damaged t else t)"
  define v where "v = u\<lparr>damage := (damage u)\<lparr>last_cursor := point (cursor (main u))\<rparr>\<rparr>"
  define prev where "prev = last_cursor (damage u)"
  have u: "term_ok u" using assms by (simp add: u_def)
  then have v: "term_ok v" by (simp add: v_def term_ok_def screen_ok_def cursor_ok_def dam_ok_def)
  have prev: "0 \<le> pt_line prev" "pt_line prev < int (screen_lines (main v))"
    using u by (simp_all add: prev_def v_def term_ok_def dam_ok_def)
  have "ends_in (if last_cursor (damage v) \<noteq> prev
      then damage_line (pt_line prev) (pt_column prev) (pt_column prev) v else Some v) term_ok"
    using damage_line_ends [OF v prev] v by simp
  then have "ends_in (if last_cursor (damage v) \<noteq> prev
      then damage_line (pt_line prev) (pt_column prev) (pt_column prev) v else Some v)
      (\<lambda>w. ends_in (damage_cursor w) term_ok)"
    by (rule ends_in_mono) (rule damage_cursor_wp, simp_all)
  then have "ends_in (if full (damage v) then Some (None, v)
      else do {
        t \<leftarrow> (if last_cursor (damage v) \<noteq> prev
              then damage_line (pt_line prev) (pt_column prev) (pt_column prev) v else Some v);
        t \<leftarrow> damage_cursor t;
        Some (Some (damage_iter (dlines (damage t)) (display_offset (main t))), t) }) (\<lambda>p. term_ok (snd p))"
    using v damage_cursor_wp [OF v, of term_ok] by (simp split: if_splits)
  then show ?thesis
    by (simp only: collect_damage_def Let_def u_def [symmetric] prev_def [symmetric] v_def [symmetric])
qed

lemma reset_damage_ok [simp]: "term_ok t \<Longrightarrow> term_ok (reset_damage t)"
  by (simp add: reset_damage_def term_ok_def dam_ok_def damage_reset_def undamaged_def comp_def)

section \<open>The terminal as a transition system\<close>

text \<open>
  Everything that the parser of the program's output, or the window, asks of the terminal, in the
  order of the handler. \<open>Swap_Alt\<close> and \<open>Deccolm\<close> are reached through the private modes.
\<close>

datatype cursor_event =
    Goto int nat | Goto_Line int | Goto_Col nat | Move_Up nat | Move_Down nat | Move_Forward nat
  | Move_Backward nat | Down_And_Cr nat | Up_And_Cr nat | Backspace | Carriage_Return | Linefeed
  | Newline | Reverse_Index | Backward_Tabs nat | Forward_Tabs nat | Save_Cursor | Restore_Cursor

fun cursor_do :: "env \<Rightarrow> cursor_event \<Rightarrow> term_state \<Rightarrow> term_state option" where
  "cursor_do e (Goto l c) t = goto l c t"
| "cursor_do e (Goto_Line l) t = goto_line l t"
| "cursor_do e (Goto_Col c) t = goto_col c t"
| "cursor_do e (Move_Up n) t = move_up n t"
| "cursor_do e (Move_Down n) t = move_down n t"
| "cursor_do e (Move_Forward n) t = move_forward n t"
| "cursor_do e (Move_Backward n) t = move_backward n t"
| "cursor_do e (Down_And_Cr n) t = move_down_and_cr n t"
| "cursor_do e (Up_And_Cr n) t = move_up_and_cr n t"
| "cursor_do e Backspace t = backspace t"
| "cursor_do e Carriage_Return t = carriage_return t"
| "cursor_do e Linefeed t = linefeed t"
| "cursor_do e Newline t = newline t"
| "cursor_do e Reverse_Index t = reverse_index t"
| "cursor_do e (Backward_Tabs n) t = move_backward_tabs n t"
| "cursor_do e (Forward_Tabs n) t = move_forward_tabs n t"
| "cursor_do e Save_Cursor t = save_cursor_position t"
| "cursor_do e Restore_Cursor t = restore_cursor_position t"

datatype edit_event =
    Input rchar | Decaln | Insert_Blank nat | Put_Tab nat | Term_Scroll_Up nat | Term_Scroll_Down nat
  | Insert_Blank_Lines nat | Delete_Lines nat | Erase_Chars nat | Delete_Chars nat
  | Clear_Line line_clear | Clear_Screen screen_clear

fun edit_do :: "env \<Rightarrow> edit_event \<Rightarrow> term_state \<Rightarrow> term_state option" where
  "edit_do e (Input c) t = input e c t"
| "edit_do e Decaln t = decaln t"
| "edit_do e (Insert_Blank n) t = insert_blank n t"
| "edit_do e (Put_Tab n) t = put_tab e n t"
| "edit_do e (Term_Scroll_Up n) t = term_scroll_up n t"
| "edit_do e (Term_Scroll_Down n) t = term_scroll_down n t"
| "edit_do e (Insert_Blank_Lines n) t = insert_blank_lines n t"
| "edit_do e (Delete_Lines n) t = delete_lines n t"
| "edit_do e (Erase_Chars n) t = erase_chars n t"
| "edit_do e (Delete_Chars n) t = delete_chars n t"
| "edit_do e (Clear_Line m) t = clear_line m t"
| "edit_do e (Clear_Screen m) t = clear_screen m t"

datatype mode_event =
    Set_Tabstop | Clear_Tabs tab_clear | Set_Hyperlink "hyperlink option" | Attribute attr
  | Set_Private_Mode private_mode | Unset_Private_Mode private_mode | Set_Mode ansi_mode
  | Unset_Mode ansi_mode | Set_Region nat "nat option" | Keypad_On | Keypad_Off
  | Configure_Charset nat charset | Set_Charset nat | Push_Keyboard kb_mode | Pop_Keyboard nat
  | Set_Keyboard kb_mode kb_apply

fun mode_do :: "env \<Rightarrow> mode_event \<Rightarrow> term_state \<Rightarrow> term_state option" where
  "mode_do e Set_Tabstop t = set_horizontal_tabstop t"
| "mode_do e (Clear_Tabs m) t = clear_tabs m t"
| "mode_do e (Set_Hyperlink h) t = term_set_hyperlink h t"
| "mode_do e (Attribute a) t = terminal_attribute a t"
| "mode_do e (Set_Private_Mode m) t = set_private_mode m t"
| "mode_do e (Unset_Private_Mode m) t = unset_private_mode m t"
| "mode_do e (Set_Mode m) t = set_mode m t"
| "mode_do e (Unset_Mode m) t = unset_mode m t"
| "mode_do e (Set_Region a b) t = set_scrolling_region a b t"
| "mode_do e Keypad_On t = set_keypad_application_mode t"
| "mode_do e Keypad_Off t = unset_keypad_application_mode t"
| "mode_do e (Configure_Charset i cs) t = configure_charset i cs t"
| "mode_do e (Set_Charset i) t = set_active_charset i t"
| "mode_do e (Push_Keyboard k) t = push_keyboard_mode k t"
| "mode_do e (Pop_Keyboard n) t = pop_keyboard_modes n t"
| "mode_do e (Set_Keyboard k a) t = set_keyboard_mode k a t"

datatype state_event =
    Reset_State | Set_Style "cursor_style option" | Set_Shape nat | Set_Title "rstring option"
  | Push_Title | Pop_Title | Ring_Bell | Device_Status nat | Report_Size | Report_Keyboard
  | Scroll_View scroll | Vi_Goto point | Toggle_Vi | Select "selection option" | Set_Options config | Collect_Damage | Reset_Damage

fun state_do :: "env \<Rightarrow> state_event \<Rightarrow> term_state \<Rightarrow> term_state option" where
  "state_do e Reset_State t = reset_state t"
| "state_do e (Set_Style s) t = set_cursor_style s t"
| "state_do e (Set_Shape n) t = set_cursor_shape n t"
| "state_do e (Set_Title s) t = set_title s t"
| "state_do e Push_Title t = push_title t"
| "state_do e Pop_Title t = pop_title t"
| "state_do e Ring_Bell t = bell t"
| "state_do e (Device_Status n) t = device_status n t"
| "state_do e Report_Size t = text_area_size_chars t"
| "state_do e Report_Keyboard t = report_keyboard_mode e t"
| "state_do e (Scroll_View s) t = Some (term_scroll_display s t)"
| "state_do e (Vi_Goto p) t = Some (vi_goto_point p t)"
| "state_do e Toggle_Vi t = Some (toggle_vi_mode t)"
| "state_do e (Select s) t = Some (t\<lparr>sel := s\<rparr>)"
| "state_do e (Set_Options c) t = set_options c t"
| "state_do e Collect_Damage t = map_option snd (collect_damage t)"
| "state_do e Reset_Damage t = Some (reset_damage t)"

datatype term_event = Cursor cursor_event | Edit edit_event | Mode mode_event | State state_event

fun term_do :: "env \<Rightarrow> term_event \<Rightarrow> term_state \<Rightarrow> term_state option" where
  "term_do e (Cursor ev) t = cursor_do e ev t"
| "term_do e (Edit ev) t = edit_do e ev t"
| "term_do e (Mode ev) t = mode_do e ev t"
| "term_do e (State ev) t = state_do e ev t"

text \<open>
  What the callers guarantee: the parser numbers the first line of a region from 1 and the charsets
  from 0 to 3. The last condition nobody guarantees: a full stack of keyboard modes.
\<close>

fun term_event_ok :: "term_event \<Rightarrow> term_state \<Rightarrow> bool" where
  "term_event_ok (Mode (Set_Region a b)) t = (1 \<le> a)"
| "term_event_ok (Mode (Configure_Charset i cs)) t = (i < 4)"
| "term_event_ok (Mode (Set_Charset i)) t = (i < 4)"
| "term_event_ok (Mode (Push_Keyboard k)) t = (length (kb_stack t) < MAX_STACK \<or> title_stack t \<noteq> [])"
| "term_event_ok _ t = True"

lemmas term_ends =
  input_ends decaln_ends goto_ends move_ends insert_blank_ends move_forward_ends move_backward_ends
  put_tab_ends backspace_ends carriage_return_ends just_ok [OF linefeed_ends] newline_ends set_tab_ends
  just_ok [OF term_scroll_ends(1)] just_ok [OF term_scroll_ends(2)] insert_blank_lines_ends delete_lines_ends
  erase_chars_ends delete_chars_ends tab_moves_ends save_restore_ends clear_line_ends clear_screen_ends
  reset_state_ends reverse_index_ends style_ends mode_ends set_scrolling_region_ends charset_set_ends
  title_ends keyboard_ends set_options_ends collect_damage_ends

lemma part_ends:
  assumes "term_ok t"
  shows "ends_in (cursor_do e c t) term_ok" "ends_in (edit_do e d t) term_ok" "ends_in (state_do e s t) term_ok"
    "term_event_ok (Mode m) t \<Longrightarrow> ends_in (mode_do e m t) term_ok"
  subgoal by (cases c; simp add: term_ends assms)
  subgoal by (cases d; simp add: term_ends assms)
  subgoal by (cases s; simp add: term_ends assms)
  subgoal by (cases m; simp add: term_ends assms)
  done

lemma term_do_ends:
  assumes "term_ok t" "term_event_ok ev t"
  shows "ends_in (term_do e ev t) term_ok"
  using assms part_ends by (cases ev) simp_all

definition term_step :: "env \<Rightarrow> term_state \<Rightarrow> term_event \<Rightarrow> term_state" where
  "term_step e t ev =
     (if term_event_ok ev t then (case term_do e ev t of Some u \<Rightarrow> u | None \<Rightarrow> t) else t)"

lemma term_step_ok: "term_ok t \<Longrightarrow> term_ok (term_step e t ev)"
  using term_do_ends [of t ev e] by (auto simp: term_step_def ends_in_def)

lemma term_new_ok:
  assumes "0 < lines" "2 \<le> cols"
  shows "\<exists>t. term_new c lines cols = Some t \<and> term_ok t \<and> screen_lines (main t) = lines \<and> columns (main t) = cols \<and>
    history_size (main t) = 0 \<and> display_offset (main t) = 0 \<and> cursor (main t) = cursor_default"
proof -
  obtain g where g: "grid_new lines cols (scrolling_history c) = Some g" "grid_wf g" "screen_lines g = lines"
    "columns g = cols" "history_size g = 0" "display_offset g = 0"
    using grid_new_wf [of lines cols "scrolling_history c"] assms by auto
  obtain h where h: "grid_new lines cols 0 = Some h" "grid_wf h" "screen_lines h = lines" "columns h = cols"
    using grid_new_wf [of lines cols 0] assms by auto
  have "cursor g = cursor_default" "saved_cursor g = cursor_default" "cursor h = cursor_default"
    "saved_cursor h = cursor_default"
    using g(1) h(1) by (auto simp: grid_new_def)
  then show ?thesis
    using g h assms cursor_default_ok [OF g(2)] cursor_default_ok [OF h(2)]
    by (simp add: term_new_def term_ok_def screen_ok_def dam_ok_def damage_new_def point_zero_def comp_def undamaged_def)
qed

definition term_init :: "term_state \<Rightarrow> bool" where
  "term_init t \<longleftrightarrow> (\<exists>c lines cols. 0 < lines \<and> 2 \<le> cols \<and> term_new c lines cols = Some t)"

lemma term_init_ok: "term_init t \<Longrightarrow> term_ok t"
  unfolding term_init_def by (metis term_new_ok option.inject)

interpretation terminal: transition_system term_init "term_step e" term_ok for e
  by unfold_locales (rule term_init_ok, assumption, rule term_step_ok)

end
