(* ===== verification/TermProps.thy ===== *)
theory TermProps
  imports TermSafe
begin

text \<open>
  What the terminal's operations do: how the cells of a line move when characters are inserted and
  deleted and that the damage covers the change, where the cursor ends up, and the properties of the
  terminal as a whole.
\<close>

section \<open>Editing the cursor's line\<close>

lemma damage_line_eq:
  assumes "term_ok t" "0 \<le> l" "l < int (screen_lines (main t))"
  shows "ends_in (damage_line l a b t) (\<lambda>u. \<exists>d. u = t\<lparr>damage := d\<rparr> \<and> term_ok u \<and>
    d_left (dlines d ! nat l) \<le> a \<and> b \<le> d_right (dlines d ! nat l))"
proof -
  have n: "length (dlines (damage t)) = screen_lines (main t)"
    using assms(1) by (simp add: term_ok_def dam_ok_def) (metis length_map length_upt diff_zero)
  obtain u where u: "damage_line l a b t = Some u" "term_ok u"
    using damage_line_ends [OF assms, of a b] by (auto simp: ends_in_def)
  then obtain d where "state_damage_line (as_usize l) a b (damage t) = Some d" "u = t\<lparr>damage := d\<rparr>"
    by (auto simp: damage_line_def)
  then show ?thesis
    using u n assms by (auto simp: state_damage_line_def damage_expand_def nat_less_iff)
qed

lemma edited_row:
  assumes "term_ok t"
    and "\<And>r. row_ok cell_reset r \<Longrightarrow> length (cells r) = columns (main t) \<Longrightarrow>
      ends_in (f r) (\<lambda>r'. row_ok cell_reset r' \<and> length (cells r') = columns (main t) \<and> P (cells r) (cells r'))"
  shows "ends_in (damage_line (cur_line t) a b t) (\<lambda>v. ends_in (on_main (edit_row (cur_line v) f) v)
    (\<lambda>u. \<exists>r r'. row_at (main t) (cur_line t) = Some r \<and> length (cells r) = columns (main t) \<and>
       row_at (main u) (cur_line t) = Some r' \<and> length (cells r') = columns (main t) \<and> P (cells r) (cells r') \<and>
       (\<forall>l. l \<noteq> cur_line t \<longrightarrow> row_at (main u) l = row_at (main t) l) \<and> cursor (main u) = cursor (main t) \<and>
       d_left (dlines (damage u) ! nat (cur_line t)) \<le> a \<and> b \<le> d_right (dlines (damage u) ! nat (cur_line t))))"
proof (rule ends_in_mono [OF damage_line_eq [OF assms(1)]])
  show "0 \<le> cur_line t" "cur_line t < int (screen_lines (main t))" by (rule term_okD(5,6) [OF assms(1)])+
  fix v assume "\<exists>d. v = t\<lparr>damage := d\<rparr> \<and> term_ok v \<and> d_left (dlines d ! nat (cur_line t)) \<le> a \<and>
      b \<le> d_right (dlines d ! nat (cur_line t))"
  then obtain d where d: "v = t\<lparr>damage := d\<rparr>" "d_left (dlines d ! nat (cur_line t)) \<le> a"
    "b \<le> d_right (dlines d ! nat (cur_line t))" by blast
  obtain r where r: "row_at (main t) (cur_line t) = Some r" "row_ok cell_reset r" "length (cells r) = columns (main t)"
    by (rule row_at_screen [of "main t" "cur_line t"]) (use term_okD(1,5,6) [OF assms(1)] in auto)
  obtain r' where r': "f r = Some r'" "row_ok cell_reset r'" "length (cells r') = columns (main t)" "P (cells r) (cells r')"
    using assms(2) [OF r(2,3)] by (auto simp: ends_in_def)
  have "ends_in (edit_row (cur_line t) f (main t)) (\<lambda>g. same_view (main t) g \<and>
      row_at g (cur_line t) = Some r' \<and> (\<forall>l. l \<noteq> cur_line t \<longrightarrow> row_at g l = row_at (main t) l))"
    by (rule ends_in_mono [OF edit_row_eq [where f = f, OF term_okD(1) [OF assms(1)] r(1) r'(1-3)]]) simp
  then show "ends_in (on_main (edit_row (cur_line v) f) v)
    (\<lambda>u. \<exists>r r'. row_at (main t) (cur_line t) = Some r \<and> length (cells r) = columns (main t) \<and>
       row_at (main u) (cur_line t) = Some r' \<and> length (cells r') = columns (main t) \<and> P (cells r) (cells r') \<and>
       (\<forall>l. l \<noteq> cur_line t \<longrightarrow> row_at (main u) l = row_at (main t) l) \<and> cursor (main u) = cursor (main t) \<and>
       d_left (dlines (damage u) ! nat (cur_line t)) \<le> a \<and> b \<le> d_right (dlines (damage u) ! nat (cur_line t)))"
    unfolding on_main_def ends_in_simps d(1)
    by (simp, elim ends_in_mono) (use r r' d in \<open>auto simp: same_view_def\<close>)
qed

text \<open>The same as one statement about the states before and after.\<close>

definition line_edit :: "nat \<Rightarrow> nat \<Rightarrow> (cell list \<Rightarrow> cell list \<Rightarrow> bool) \<Rightarrow> term_state \<Rightarrow> term_state \<Rightarrow> bool" where
  "line_edit a b P t u \<longleftrightarrow>
     (\<exists>r r'. row_at (main t) (cur_line t) = Some r \<and> length (cells r) = columns (main t) \<and>
       row_at (main u) (cur_line t) = Some r' \<and> length (cells r') = columns (main t) \<and> P (cells r) (cells r') \<and>
       (\<forall>l. l \<noteq> cur_line t \<longrightarrow> row_at (main u) l = row_at (main t) l) \<and> cursor (main u) = cursor (main t) \<and>
       d_left (dlines (damage u) ! nat (cur_line t)) \<le> a \<and> b \<le> d_right (dlines (damage u) ! nat (cur_line t)))"

lemmas edited_line = edited_row [folded line_edit_def]

lemma row_swap_right_cells:
  assumes "src \<le> dst" "length (cells r) = dst + k"
  shows "ends_in (row_edit_all (swap_right src dst k) r) (\<lambda>r'. length (cells r') = dst + k \<and>
    (\<forall>j < dst + k. dst \<le> j \<longrightarrow> cells r' ! j = cells r ! (j - (dst - src))) \<and>
    (\<forall>j < src. cells r' ! j = cells r ! j))"
  unfolding row_edit_all_def ends_in_simps
  by (rule ends_in_mono [OF swap_right_eq]) (use assms in auto)

lemma row_swap_left_cells:
  assumes "dst \<le> src" "length (cells r) = src + k"
  shows "ends_in (row_edit_all (swap_left dst src k) r) (\<lambda>r'. length (cells r') = src + k \<and>
    (\<forall>j < dst + k. dst \<le> j \<longrightarrow> cells r' ! j = cells r ! (j + (src - dst))) \<and>
    (\<forall>j < dst. cells r' ! j = cells r ! j))"
  unfolding row_edit_all_def ends_in_simps
  by (rule ends_in_mono [OF swap_left_eq]) (use assms in auto)

lemma row_fill_cells:
  assumes "i \<le> j" "j \<le> length (cells r)"
  shows "ends_in (row_fill i j c r) (\<lambda>r'. length (cells r') = length (cells r) \<and>
    (\<forall>k < length (cells r). cells r' ! k = (if i \<le> k \<and> k < j then c else cells r ! k)))"
  using assms by (auto simp: row_fill_def nth_append)

lemma row_fill_from_cells:
  assumes "i \<le> length (cells r)"
  shows "ends_in (row_fill_from i c r) (\<lambda>r'. \<forall>k < length (cells r). cells r' ! k = (if i \<le> k then c else cells r ! k))"
  using assms by (auto simp: row_fill_from_def nth_append)

text \<open>Inserting blanks shifts the rest of the cursor's line to the right, changes no other line,
  and the damage covers the line.\<close>

theorem insert_blank_shifts:
  assumes "term_ok t"
  shows "\<exists>u. insert_blank n t = Some u \<and> line_edit 0 (columns (main t) - 1) (\<lambda>old new.
    \<forall>j < columns (main t). new ! j =
      (if j < cur_col t then old ! j else if j < cur_col t + n then bg_cell (cur_bg t) else old ! (j - n))) t u"
proof -
  note ok = term_okD [OF assms]
  let ?m = "min n (columns (main t) - cur_col t)"
  let ?f = "\<lambda>r. do { r \<leftarrow> row_edit_all (swap_right (cur_col t) (cur_col t + ?m) (columns (main t) - (cur_col t + ?m))) r;
                     row_fill (cur_col t) (cur_col t + ?m) (bg_cell (cur_bg t)) r }"
  let ?P = "\<lambda>old new. \<forall>j < columns (main t). new ! j =
      (if j < cur_col t then old ! j else if j < cur_col t + n then bg_cell (cur_bg t) else old ! (j - n))"
  have "ends_in (?f r) (\<lambda>r'. row_ok cell_reset r' \<and> length (cells r') = columns (main t) \<and> ?P (cells r) (cells r'))"
    if r: "row_ok cell_reset r" "length (cells r) = columns (main t)" for r
  proof -
    have "ends_in (row_edit_all (swap_right (cur_col t) (cur_col t + ?m) (columns (main t) - (cur_col t + ?m))) r)
       (\<lambda>s. (row_ok cell_reset s \<and> length (cells s) = columns (main t)) \<and>
         (\<forall>j < columns (main t). cur_col t + ?m \<le> j \<longrightarrow> cells s ! j = cells r ! (j - ?m)) \<and>
         (\<forall>j < cur_col t. cells s ! j = cells r ! j))"
      by (rule ends_in_conj [OF row_swap_ends(1)], use r ok(7) in simp_all)
        (rule ends_in_mono [OF row_swap_right_cells], use r ok(7) in auto)
    then show ?thesis
      unfolding ends_in_simps
    proof (rule ends_in_mono)
      fix s assume s: "(row_ok cell_reset s \<and> length (cells s) = columns (main t)) \<and>
         (\<forall>j < columns (main t). cur_col t + ?m \<le> j \<longrightarrow> cells s ! j = cells r ! (j - ?m)) \<and>
         (\<forall>j < cur_col t. cells s ! j = cells r ! j)"
      have bound: "cur_col t \<le> cur_col t + ?m" "cur_col t + ?m \<le> length (cells s)" using s ok(7) by auto
      have "ends_in (row_fill (cur_col t) (cur_col t + ?m) (bg_cell (cur_bg t)) s)
        (\<lambda>r'. (row_ok cell_reset r' \<and> length (cells r') = columns (main t)) \<and> (length (cells r') = length (cells s) \<and>
           (\<forall>k < length (cells s). cells r' ! k =
             (if cur_col t \<le> k \<and> k < cur_col t + ?m then bg_cell (cur_bg t) else cells s ! k))))"
        by (rule ends_in_conj [OF fill_ends row_fill_cells [OF bound]]) (use s bound in auto)
      then show "ends_in (row_fill (cur_col t) (cur_col t + ?m) (bg_cell (cur_bg t)) s)
        (\<lambda>r'. row_ok cell_reset r' \<and> length (cells r') = columns (main t) \<and> ?P (cells r) (cells r'))"
        by (rule ends_in_mono) (use s in \<open>auto simp: min_def\<close>)
    qed
  qed
  from edited_line [where P = ?P, OF assms this, where a = 0 and b = "columns (main t) - 1"]
  have "ends_in (insert_blank n t) (line_edit 0 (columns (main t) - 1) ?P t)"
    using ok(7) by (simp add: insert_blank_def Let_def)
  then show ?thesis by (simp add: ends_in_def)
qed

text \<open>Deleting characters shifts the rest of the line to the left and blanks as many cells at its
  end as were asked for, also those before the cursor when more are asked for than remain.\<close>

theorem delete_chars_shifts:
  assumes "term_ok t"
  shows "\<exists>u. delete_chars n t = Some u \<and> line_edit 0 (columns (main t) - 1) (\<lambda>old new.
    \<forall>j < columns (main t). new ! j =
      (if columns (main t) - n \<le> j then bg_cell (cur_bg t) else if j < cur_col t then old ! j else old ! (j + n))) t u"
proof -
  note ok = term_okD [OF assms]
  let ?cols = "columns (main t)"
  let ?stop = "min (cur_col t + min n ?cols) (?cols - 1)"
  let ?f = "\<lambda>r. do { r \<leftarrow> row_edit_all (swap_left (cur_col t) ?stop (?cols - ?stop)) r;
                     row_fill_from (?cols - min n ?cols) (bg_cell (cur_bg t)) r }"
  let ?P = "\<lambda>old new. \<forall>j < ?cols. new ! j =
      (if ?cols - n \<le> j then bg_cell (cur_bg t) else if j < cur_col t then old ! j else old ! (j + n))"
  have "ends_in (?f r) (\<lambda>r'. row_ok cell_reset r' \<and> length (cells r') = ?cols \<and> ?P (cells r) (cells r'))"
    if r: "row_ok cell_reset r" "length (cells r) = ?cols" for r
  proof -
    have "ends_in (row_edit_all (swap_left (cur_col t) ?stop (?cols - ?stop)) r)
       (\<lambda>s. length (cells s) = ?cols \<and>
         (\<forall>j < cur_col t + (?cols - ?stop). cur_col t \<le> j \<longrightarrow> cells s ! j = cells r ! (j + (?stop - cur_col t))) \<and>
         (\<forall>j < cur_col t. cells s ! j = cells r ! j))"
      by (rule ends_in_mono [OF row_swap_left_cells]) (use r ok(7) in auto)
    then show ?thesis
      unfolding ends_in_simps
    proof (rule ends_in_mono)
      fix s :: "cell row" assume s: "length (cells s) = ?cols \<and>
         (\<forall>j < cur_col t + (?cols - ?stop). cur_col t \<le> j \<longrightarrow> cells s ! j = cells r ! (j + (?stop - cur_col t))) \<and>
         (\<forall>j < cur_col t. cells s ! j = cells r ! j)"
      have "cells s ! j = cells r ! (j + n)" if "cur_col t \<le> j" "j < ?cols - n" for j
      proof -
        have "?stop = cur_col t + n" using that by simp
        then show ?thesis using s that by auto
      qed
      then have step: "?P (cells r) (cells r')" if "\<forall>k < ?cols. cells r' ! k =
          (if ?cols - min n ?cols \<le> k then bg_cell (cur_bg t) else cells s ! k)" for r'
        using s that by auto
      have "ends_in (row_fill_from (?cols - min n ?cols) (bg_cell (cur_bg t)) s)
        (\<lambda>r'. (row_ok cell_reset r' \<and> length (cells r') = ?cols) \<and>
          (\<forall>k < length (cells s). cells r' ! k = (if ?cols - min n ?cols \<le> k then bg_cell (cur_bg t) else cells s ! k)))"
        by (rule ends_in_conj [OF fill_from_ends row_fill_from_cells]) (use s in auto)
      then show "ends_in (row_fill_from (?cols - min n ?cols) (bg_cell (cur_bg t)) s)
        (\<lambda>r'. row_ok cell_reset r' \<and> length (cells r') = ?cols \<and> ?P (cells r) (cells r'))"
        by (rule ends_in_mono) (use s step in simp)
    qed
  qed
  from edited_line [where P = ?P, OF assms this, where a = 0 and b = "?cols - 1"]
  have "ends_in (delete_chars n t) (line_edit 0 (?cols - 1) ?P t)" by (simp add: delete_chars_def Let_def)
  then show ?thesis by (simp add: ends_in_def)
qed

text \<open>Erasing blanks exactly the cells from the cursor on; the damage covers them, and one column
  more than the line has when they reach its end.\<close>

theorem erase_chars_blanks:
  assumes "term_ok t"
  shows "\<exists>u. erase_chars n t = Some u \<and>
    line_edit (cur_col t) (min (cur_col t + n) (columns (main t))) (\<lambda>old new.
    \<forall>j < columns (main t). new ! j = (if cur_col t \<le> j \<and> j < cur_col t + n then bg_cell (cur_bg t) else old ! j)) t u"
proof -
  note ok = term_okD [OF assms]
  let ?b = "min (cur_col t + n) (columns (main t))"
  let ?P = "\<lambda>old new. \<forall>j < columns (main t).
    new ! j = (if cur_col t \<le> j \<and> j < cur_col t + n then bg_cell (cur_bg t) else old ! j)"
  have "ends_in (row_fill (cur_col t) ?b (bg_cell (cur_bg t)) r)
      (\<lambda>r'. row_ok cell_reset r' \<and> length (cells r') = columns (main t) \<and> ?P (cells r) (cells r'))"
    if r: "row_ok cell_reset r" "length (cells r) = columns (main t)" for r
  proof -
    have b: "cur_col t \<le> ?b" "?b \<le> length (cells r)" using r ok(7) by auto
    show ?thesis
      by (rule ends_in_mono [OF ends_in_conj [OF fill_ends row_fill_cells [OF b]]]) (use r b in auto)
  qed
  from edited_line [where P = ?P, OF assms this, where a = "cur_col t" and b = ?b]
  have "ends_in (erase_chars n t) (line_edit (cur_col t) ?b ?P t)" by (simp add: erase_chars_def Let_def)
  then show ?thesis by (simp add: ends_in_def)
qed

section \<open>Cells of the screen\<close>

lemma edit_cell_eq:
  assumes "term_ok t" "- int (history_size (main t)) \<le> l" "l < int (screen_lines (main t))" "k < columns (main t)"
    "main_cell l k t = Some c"
  shows "ends_in (edit_cell l k f t) (\<lambda>u. \<exists>g. u = t\<lparr>main := g\<rparr> \<and> term_ok u \<and> same_view (main t) g \<and>
    (\<forall>l' k'. main_cell l' k' u = (if l' = l \<and> k' = k then Some (f c) else main_cell l' k' t)))"
proof -
  note wf = term_okD(1) [OF assms(1)]
  obtain r where r: "row_at (main t) l = Some r" "row_ok cell_reset r" "length (cells r) = columns (main t)"
    by (rule row_at_screen [OF wf assms(2,3)])
  have c: "cells r ! k = c" using assms(4,5) r by (simp add: main_cell_def cell_at_def)
  obtain r' where r': "row_update k f r = Some r'" "row_ok cell_reset r'" "length (cells r') = columns (main t)"
    "cells r' = (cells r)[k := f c]"
    using update_ends [OF r(2,3) assms(4), of f] c r(3) assms(4) by (auto simp: row_update_def)
  have "ends_in (edit_row l (row_update k f) (main t)) (\<lambda>g. grid_wf g \<and> same_view (main t) g \<and>
      (\<forall>l'. row_at g l' = (if l' = l then Some r' else row_at (main t) l')))"
    by (rule edit_row_eq [where f = "row_update k f", OF wf r(1) r'(1-3)])
  then have "ends_in (edit_row l (row_update k f) (main t)) (\<lambda>g. term_ok (t\<lparr>main := g\<rparr>) \<and> same_view (main t) g \<and>
      (\<forall>l' k'. main_cell l' k' (t\<lparr>main := g\<rparr>) = (if l' = l \<and> k' = k then Some (f c) else main_cell l' k' t)))"
  proof (rule ends_in_mono)
    fix g assume g: "grid_wf g \<and> same_view (main t) g \<and>
      (\<forall>l'. row_at g l' = (if l' = l then Some r' else row_at (main t) l'))"
    have "screen_ok g" using screen_ok_same [of "main t" g] assms(1) g by (simp add: term_ok_def)
    then have "term_ok (t\<lparr>main := g\<rparr>)" using g assms(1) by (intro term_ok_main) (simp_all add: same_view_def)
    moreover have "main_cell l' k' (t\<lparr>main := g\<rparr>) = (if l' = l \<and> k' = k then Some (f c) else main_cell l' k' t)" for l' k'
      using g r(1,3) r'(3,4) assms(4) by (auto simp: main_cell_def cell_at_def)
    ultimately show "term_ok (t\<lparr>main := g\<rparr>) \<and> same_view (main t) g \<and>
      (\<forall>l' k'. main_cell l' k' (t\<lparr>main := g\<rparr>) = (if l' = l \<and> k' = k then Some (f c) else main_cell l' k' t))"
      using g by blast
  qed
  then show ?thesis unfolding edit_cell_def on_main_def ends_in_simps by (rule ends_in_mono) blast
qed

text \<open>C12: On a terminal in its invariant, a character of width one, written outside insert mode, with no wrap pending and no half of a wide character
  under the cursor, overwrites exactly the cell under the cursor, mapped by the active charset and styled by the
  template; the cursor advances, or waits to wrap at the last column.\<close>

theorem input_writes_cell:
  assumes "term_ok t" "char_width e c = Some 1" "\<not> wrap_next t" "\<not> has_mode INSERT t"
    and "main_cell (cur_line t) (cur_col t) t = Some old" "\<not> any_flags (cflags old) (WIDE_CHAR OR WIDE_CHAR_SPACER)"
  shows "\<exists>u. input e c t = Some u \<and>
    (\<forall>l k. main_cell l k u = (if l = cur_line t \<and> k = cur_col t
       then Some (template (cursor (main t))\<lparr>ch := map_char e (charsets (cursor (main t)) ! active_charset t) c\<rparr>)
       else main_cell l k t)) \<and>
    cur_line u = cur_line t \<and>
    (if cur_col t + 1 < columns (main t) then cur_col u = cur_col t + 1 \<and> \<not> wrap_next u
     else cur_col u = cur_col t \<and> wrap_next u)"
proof -
  note ok = term_okD [OF assms(1)]
  let ?new = "template (cursor (main t))\<lparr>ch := map_char e (charsets (cursor (main t)) ! active_charset t) c\<rparr>"
  obtain g where g: "edit_cell (cur_line t) (cur_col t) (\<lambda>_. ?new) t = Some (t\<lparr>main := g\<rparr>)" "same_view (main t) g"
    "\<And>l k. main_cell l k (t\<lparr>main := g\<rparr>) = (if l = cur_line t \<and> k = cur_col t then Some ?new else main_cell l k t)"
    using edit_cell_eq [OF assms(1) _ ok(6,7) assms(5), of "\<lambda>_. ?new"] ok(5) by (auto simp: ends_in_def)
  have "write_at_cursor e c t = Some (t\<lparr>main := g\<rparr>)"
    using g(1) ok(8,9) assms(5,6) by (simp add: write_at_cursor_def Let_def)
  then have "input e c t = Some (advance (t\<lparr>main := g\<rparr>))" using assms by (simp add: input_def)
  moreover have "main_cell l k (advance u) = main_cell l k u" "cur_line (advance u) = cur_line u"
      "cur_col (advance u) = (if cur_col u + 1 < columns (main u) then cur_col u + 1 else cur_col u)"
      "wrap_next (advance u) = (\<not> cur_col u + 1 < columns (main u) \<or> wrap_next u)" for l k u
    by (simp_all add: advance_def main_cell_def cell_at_def row_at_def cursor_defs)
  moreover have "cur_line (t\<lparr>main := g\<rparr>) = cur_line t" "cur_col (t\<lparr>main := g\<rparr>) = cur_col t"
    "wrap_next (t\<lparr>main := g\<rparr>) = wrap_next t" "columns (main (t\<lparr>main := g\<rparr>)) = columns (main t)"
    using g(2) by (simp_all add: same_view_def cur_line_def cur_col_def wrap_next_def)
  ultimately show ?thesis using g(3) assms(3) by simp
qed

section \<open>The cursor\<close>

text \<open>Goto puts the cursor at the clamped position, inside the scrolling region in origin mode,
  and changes no cell.\<close>

theorem goto_clamps:
  assumes "term_ok t"
  shows "\<exists>u. goto line col t = Some u \<and> cur_col u = min col (columns (main t) - 1) \<and> \<not> wrap_next u \<and>
    cur_line u = (if has_mode ORIGIN t then max (min (line + fst (scroll_region t)) (snd (scroll_region t) - 1)) 0
                  else max (min line (int (screen_lines (main t)) - 1)) 0) \<and>
    (\<forall>l k. main_cell l k u = main_cell l k t) \<and> mode u = mode t"
proof -
  have eq: "ends_in (damage_cursor v) (\<lambda>w. \<exists>d. w = v\<lparr>damage := d\<rparr> \<and> term_ok w)" if "term_ok v" for v
    using damage_cursor_wp [OF that, of "\<lambda>w. \<exists>d. w = v\<lparr>damage := d\<rparr> \<and> term_ok w"] that by fastforce
  obtain d where d: "damage_cursor t = Some (t\<lparr>damage := d\<rparr>)" "term_ok (t\<lparr>damage := d\<rparr>)"
    using eq [OF assms] by (auto simp: ends_in_def)
  define y where "y = (if has_mode ORIGIN t then max (min (line + fst (scroll_region t)) (snd (scroll_region t) - 1)) 0
                  else max (min line (int (screen_lines (main t)) - 1)) 0)"
  have y: "0 \<le> y" "y < int (screen_lines (main t))"
    using term_okD(4,11-13) [OF assms] by (auto simp: y_def)
  define v where "v = set_cur_col (min col (columns (main t) - 1)) (set_cur_line y (t\<lparr>damage := d\<rparr>))"
  have "term_ok v" unfolding v_def using d(2) y term_okD(3) [OF assms] by simp
  then obtain d' where d': "damage_cursor v = Some (v\<lparr>damage := d'\<rparr>)" using eq by (auto simp: ends_in_def)
  have "goto line col t = Some (set_wrap False (v\<lparr>damage := d'\<rparr>))"
    using d(1) d' by (cases "has_mode ORIGIN t") (simp_all add: goto_def Let_def v_def y_def bottommost_line_def last_column_def)
  moreover have "main_cell l k (set_wrap False (v\<lparr>damage := d'\<rparr>)) = main_cell l k t" for l k
    by (simp add: v_def main_cell_def cell_at_def row_at_def cursor_defs)
  ultimately show ?thesis by (simp add: v_def y_def cursor_defs)
qed

text \<open>The stack of titles.\<close>

theorem title_push_pop:
  assumes "length (title_stack t) < MAX_STACK"
  shows "\<exists>u v. push_title t = Some u \<and> pop_title (u\<lparr>title := any\<rparr>) = Some v \<and>
    title v = title t \<and> title_stack v = title_stack t \<and>
    sent v = sent t @ [case title t of None \<Rightarrow> ResetTitle | Some x \<Rightarrow> Title x]"
  using assms by (simp add: push_title_def pop_title_def set_title_def send_def split: option.splits)

lemma keyboard_pushes_fit:
  "kitty_keyboard (conf t) \<Longrightarrow> length (kb_stack t) + n \<le> MAX_STACK \<Longrightarrow>
    ends_in (fold_opt push_keyboard_mode (replicate n k) t) (\<lambda>u. kb_stack u = kb_stack t @ replicate n k \<and>
      kitty_keyboard (conf u) \<and> title_stack u = title_stack t)"
proof (induction n arbitrary: t)
  case (Suc n)
  let ?u = "apply_kb_mode (kb_to_mode k) Replace (t\<lparr>kb_stack := kb_stack t @ [k]\<rparr>)"
  have "push_keyboard_mode k t = Some ?u" using Suc.prems by (simp add: push_keyboard_mode_def)
  moreover have "kb_stack ?u = kb_stack t @ [k]" "kitty_keyboard (conf ?u)" "title_stack ?u = title_stack t"
    using Suc.prems(1) by (simp_all add: apply_kb_mode_def Let_def)
  ultimately show ?case using Suc.IH [of ?u] Suc.prems(2) by simp
qed simp

text \<open>Pushing keyboard modes panics exactly when more than 4096 are pushed, because the full
  stack drops an entry of the (empty) title stack instead of its own.\<close>

theorem keyboard_pushes_panic:
  assumes "kitty_keyboard (conf t)" "kb_stack t = []" "title_stack t = []"
  shows "fold_opt push_keyboard_mode (replicate n k) t = None \<longleftrightarrow> MAX_STACK < n"
proof -
  obtain u where u: "fold_opt push_keyboard_mode (replicate (min n MAX_STACK) k) t = Some u"
    "kb_stack u = replicate (min n MAX_STACK) k" "kitty_keyboard (conf u)" "title_stack u = []"
    using keyboard_pushes_fit [OF assms(1), of "min n MAX_STACK" k] assms by (auto simp: ends_in_def)
  show ?thesis
  proof (cases "MAX_STACK < n")
    case True
    then have n: "replicate n k = replicate MAX_STACK k @ k # replicate (n - MAX_STACK - 1) k"
      by (metis add_diff_inverse_nat not_less_iff_gr_or_eq replicate_add replicate_Suc Suc_diff_Suc diff_Suc_eq_diff_pred diff_diff_left plus_1_eq_Suc add.commute)
    have "push_keyboard_mode k u = None" using u True by (simp add: push_keyboard_mode_def)
    then show ?thesis using u(1) True unfolding n fold_opt_append by simp
  next
    case False
    then show ?thesis using u(1) by (simp add: min_def)
  qed
qed

section \<open>Clearing the screen above the cursor\<close>

lemma region_cleared:
  assumes "term_ok t" "0 \<le> a" "a < int (screen_lines (main t))" "b \<le> int (screen_lines (main t))"
  shows "ends_in (on_main (reset_region a b) t) (\<lambda>u. \<exists>g. u = t\<lparr>main := g\<rparr> \<and> term_ok u \<and> scrolled (main t) g \<and>
    (\<forall>l. 0 \<le> l \<and> l < int (screen_lines (main t)) \<longrightarrow>
      row_at g l = (if a \<le> l \<and> l < b then Some (blank_row (main t)) else row_at (main t) l)))"
proof -
  note wf = term_okD(1) [OF assms(1)]
  obtain g where g: "reset_region a b (main t) = Some g" "grid_wf g" "blanked {a..b - 1} (main t) g"
    using reset_region_wf [OF wf assms(2-4)] by blast
  have sc: "scrolled (main t) g" by (rule scrolled_blanked [OF wf g(3)])
  have "row_at g l = (if a \<le> l \<and> l < b then Some (blank_row (main t)) else row_at (main t) l)"
    if "0 \<le> l" "l < int (screen_lines (main t))" for l
  proof -
    have "has_line (gl (main t)) l" "has_line (gl g) l"
      using that g(2) sc by (simp_all add: has_line_gl grid_wf_base [OF wf] grid_wf_base [OF g(2)] scrolled_def)
    then show ?thesis
      using g(3) row_at_eq [OF grid_wf_base [OF wf]] row_at_eq [OF grid_wf_base [OF g(2)]] by (auto simp: blanked_def)
  qed
  moreover have "screen_ok g" using screen_ok_scrolled [OF _ sc] assms(1) by (simp add: term_ok_def)
  then have "term_ok (t\<lparr>main := g\<rparr>)" using sc assms(1) by (intro term_ok_main) (simp_all add: scrolled_def)
  ultimately show ?thesis using g(1) sc by (auto simp: on_main_def)
qed

text \<open>C13: Erasing above the cursor blanks all lines above it and its own up to the cursor, except
  that the top line is left alone when the cursor is on the second.\<close>

theorem clear_above_spec:
  assumes "term_ok t"
  shows "\<exists>u old new. clear_screen Above t = Some u \<and>
    (\<forall>l. 0 \<le> l \<and> l < int (screen_lines (main t)) \<and> l \<noteq> cur_line t \<longrightarrow>
      row_at (main u) l = (if l < cur_line t \<and> 1 < cur_line t then Some (blank_row (main t)) else row_at (main t) l)) \<and>
    row_at (main t) (cur_line t) = Some old \<and> row_at (main u) (cur_line t) = Some new \<and>
    (\<forall>k < columns (main t). cells new ! k = (if k \<le> cur_col t then bg_cell (cur_bg t) else cells old ! k))"
proof -
  note ok = term_okD [OF assms]
  let ?n = "int (screen_lines (main t))"
  obtain g where g: "(if cur_line t > 1 then on_main (reset_region 0 (cur_line t)) t else Some t) = Some (t\<lparr>main := g\<rparr>)"
    "term_ok (t\<lparr>main := g\<rparr>)" "columns g = columns (main t)" "screen_lines g = screen_lines (main t)"
    "\<And>l. 0 \<le> l \<Longrightarrow> l < ?n \<Longrightarrow>
      row_at g l = (if l < cur_line t \<and> 1 < cur_line t then Some (blank_row (main t)) else row_at (main t) l)"
  proof (cases "1 < cur_line t")
    case True
    then show ?thesis
      using region_cleared [OF assms, of 0 "cur_line t"] ok(4,6) that by (auto simp: ends_in_def scrolled_def)
  next
    case False
    then show ?thesis using that [of "main t"] assms by simp
  qed
  obtain old where old: "row_at g (cur_line t) = Some old" "row_ok cell_reset old" "length (cells old) = columns g"
    by (rule row_at_screen [OF term_okD(1) [OF g(2)], of "cur_line t"]) (use ok(5,6) g(4) in auto)
  let ?e = "min (cur_col t + 1) (columns g)"
  have le: "0 \<le> ?e" "?e \<le> length (cells old)" using old(3) by auto
  obtain new where new: "row_fill 0 ?e (bg_cell (cur_bg t)) old = Some new" "row_ok cell_reset new"
    "length (cells new) = columns g"
    "\<forall>k < length (cells old). cells new ! k = (if 0 \<le> k \<and> k < ?e then bg_cell (cur_bg t) else cells old ! k)"
    using ends_in_conj [OF fill_ends [OF old(2,3) le(1)] row_fill_cells [OF le]] le old(3) by (auto simp: ends_in_def)
  obtain h where h: "edit_row (cur_line t) (row_fill 0 ?e (bg_cell (cur_bg t))) g = Some h"
    "\<And>l. row_at h l = (if l = cur_line t then Some new else row_at g l)"
    using edit_row_eq [where f = "row_fill 0 ?e (bg_cell (cur_bg t))", OF _ old(1) new(1-3)] term_okD(1) [OF g(2)]
    by (auto simp: ends_in_def)
  let ?u = "mark_fully_damaged (filter_selection (\<lambda>s. \<not> intersects_range 0 (cur_line t) s) (t\<lparr>main := h\<rparr>))"
  have "clear_screen Above t = Some ?u"
    using g(1) h(1) by (simp add: clear_screen_def Let_def on_main_def)
  moreover have "main ?u = h" by (simp add: mark_fully_damaged_def filter_selection_def)
  moreover have "row_at (main t) (cur_line t) = Some old" using g(5) [OF ok(5,6)] old(1) by simp
  ultimately show ?thesis using h(2) g(3,5) new(4) old(3) by auto
qed

section \<open>Screens\<close>

lemma contains_bit: "n < 32 \<Longrightarrow> contains_flags m (push_bit n 1) \<longleftrightarrow> bit m n"
  unfolding contains_flags_def bit_eq_iff by (auto simp: bit_simps)

lemma alt_bit: "has_mode ALT_SCREEN t \<longleftrightarrow> bit (mode t) 12"
  unfolding has_mode_def ALT_SCREEN_def by (rule contains_bit) simp

lemma kb_mode_alt: "\<not> bit (kb_to_mode k) 12" "\<not> bit KITTY_KEYBOARD_PROTOCOL 12"
  by (simp_all add: kb_to_mode_def KITTY_KEYBOARD_PROTOCOL_def DISAMBIGUATE_ESC_CODES_def REPORT_EVENT_TYPES_def
      REPORT_ALTERNATE_KEYS_def REPORT_ALL_KEYS_AS_ESC_def REPORT_ASSOCIATED_TEXT_def bit_simps)

lemma alt_toggled: "bit ((remove_mode m KITTY_KEYBOARD_PROTOCOL OR kb_to_mode k) XOR ALT_SCREEN) 12 = (\<not> bit m 12)"
  using kb_mode_alt by (simp add: remove_mode_def bit_simps ALT_SCREEN_def)

section \<open>Tab stops\<close>

text \<open>The loop over tab stops gives the first stop after the column, or the last column, and
  never panics.\<close>

theorem next_stop_spec:
  assumes "col < cols" "length ts = cols"
  shows "next_stop ts cols col = Some (case find (\<lambda>i. ts ! i) [col + 1..<cols] of Some i \<Rightarrow> i | None \<Rightarrow> cols - 1)"
  using assms
proof (induction ts cols col rule: next_stop.induct)
  case (1 ts cols col)
  show ?case
  proof (cases "col + 1 = cols")
    case True
    then show ?thesis using "1.prems" by (subst next_stop.simps) auto
  next
    case False
    then have split: "[col + 1..<cols] = (col + 1) # [col + 1 + 1..<cols]" and lt: "col + 1 < cols"
      using "1.prems" upt_conv_Cons [of "col + 1" cols] by auto
    have "next_stop ts cols (col + 1) =
        Some (case find (\<lambda>i. ts ! i) [col + 1 + 1..<cols] of Some i \<Rightarrow> i | None \<Rightarrow> cols - 1)" if "\<not> ts ! (col + 1)"
      using False "1.prems" that lt by (intro "1.IH") auto
    then show ?thesis
      unfolding split using False "1.prems" lt by (subst next_stop.simps) auto
  qed
qed

section \<open>The whole terminal\<close>

text \<open>C4: A terminal of at least one line and two columns, driven in any order by the modelled calls of the parser
  (writing, cursor motion, editing, scrolling, tab stops, modes and screens, keyboard modes, titles, reports, a full
  reset, with the arguments the parser gives: a region's top counted from 1, charsets 0 to 3) and of the user (scrolling the view, moving and toggling the vi cursor, setting or clearing the selection,
  options, damage), does not panic, and cursor, tab stops, scrolling region and both screens stay within its size.
  Excluded is only pushing onto a full stack of keyboard modes with no title pushed. Resizing, the motions of vi mode
  and copying are not among the calls; they are treated in \<open>TermResize\<close>, \<open>ViMode\<close> and
  \<open>TermText\<close>.\<close>

theorem terminal_never_panics:
  assumes "term_init t0" "t = foldl (term_step e) t0 evs" "term_event_ok ev t"
  shows "\<exists>u. term_do e ev t = Some u \<and> term_step e t ev = u \<and>
    0 \<le> cur_line u \<and> cur_line u < int (screen_lines (main u)) \<and> cur_col u < columns (main u) \<and>
    length (tabs u) = columns (main u) \<and> screen_lines (inactive u) = screen_lines (main u) \<and>
    columns (inactive u) = columns (main u) \<and> grid_wf (main u) \<and> grid_wf (inactive u) \<and>
    0 \<le> fst (scroll_region u) \<and> fst (scroll_region u) \<le> snd (scroll_region u) \<and>
    snd (scroll_region u) \<le> int (screen_lines (main u))"
proof -
  have "term_ok t" using terminal.run_inv [OF assms(1)] assms(2) by blast
  then obtain u where "term_do e ev t = Some u" "term_ok u"
    using term_do_ends [OF _ assms(3)] by (auto simp: ends_in_def)
  moreover from this have "screen_lines (inactive u) = screen_lines (main u)" "columns (inactive u) = columns (main u)"
    by (simp_all add: term_ok_def)
  ultimately show ?thesis using term_okD [of u] assms(3) by (simp add: term_step_def)
qed

section \<open>Witnesses\<close>

abbreviation style0 :: cursor_style where
  "style0 \<equiv> \<lparr>shape = 0, blinking = False\<rparr>"

lemma term_new_fields:
  "term_new c lines cols = Some t \<Longrightarrow> mode t = mode_default \<and> kb_stack t = [] \<and> title_stack t = [] \<and>
    title t = None \<and> conf t = c \<and> active_charset t = 0"
  by (auto simp: term_new_def bind_eq_Some_conv)

text \<open>A terminal of two lines and four columns.\<close>

lemma small_term:
  obtains t where "term_new (config_default style0) 2 4 = Some t" "term_ok t" "columns (main t) = 4"
    "screen_lines (main t) = 2" "cursor (main t) = cursor_default" "mode t = mode_default"
    "kb_stack t = []" "title_stack t = []" "conf t = config_default style0"
proof -
  obtain t where t: "term_new (config_default style0) 2 4 = Some t" "term_ok t" "columns (main t) = 4"
    "screen_lines (main t) = 2" "cursor (main t) = cursor_default"
    using term_new_ok [of 2 4 "config_default style0"] by auto
  with that show ?thesis using term_new_fields [OF t(1)] by blast
qed

theorem insert_blank_shifts_witness:
  "\<exists>t u. term_new (config_default style0) 2 4 = Some t \<and> insert_blank 2 t = Some u \<and>
     line_edit 0 3 (\<lambda>old new. \<forall>j < 4. new ! j = (if j < 2 then bg_cell (cur_bg t) else old ! (j - 2))) t u"
proof -
  obtain t where t: "term_new (config_default style0) 2 4 = Some t" "term_ok t" "columns (main t) = 4"
    "cursor (main t) = cursor_default" by (rule small_term) simp
  then have "cur_col t = 0" by (simp add: cur_col_def cursor_default_def)
  then have "\<exists>u. insert_blank 2 t = Some u \<and>
     line_edit 0 3 (\<lambda>old new. \<forall>j < 4. new ! j = (if j < 2 then bg_cell (cur_bg t) else old ! (j - 2))) t u"
    using insert_blank_shifts [OF t(2), of 2] t(3) by (simp add: numeral_2_eq_2 cong: if_cong)
  then show ?thesis using t(1) by blast
qed

theorem delete_chars_shifts_witness:
  "\<exists>t u. term_new (config_default style0) 2 4 = Some t \<and> delete_chars 3 (set_cur_col 2 t) = Some u \<and>
     line_edit 0 3 (\<lambda>old new. \<forall>j < 4. new ! j = (if 1 \<le> j then bg_cell (cur_bg t) else old ! j)) (set_cur_col 2 t) u"
proof -
  obtain t where t: "term_new (config_default style0) 2 4 = Some t" "term_ok t" "columns (main t) = 4"
    by (rule small_term) simp
  have ok: "term_ok (set_cur_col 2 t)" using t by simp
  have bg: "cur_bg (set_cur_col 2 t) = cur_bg t" by (simp add: cur_bg_def set_cur_col_def upd_cursor_def)
  obtain u where "delete_chars 3 (set_cur_col 2 t) = Some u" "line_edit 0 3 (\<lambda>old new.
    \<forall>j < 4. new ! j = (if 1 \<le> j then bg_cell (cur_bg t) else if j < 2 then old ! j else old ! (j + 3))) (set_cur_col 2 t) u"
    using delete_chars_shifts [OF ok, of 3] t(3) bg by (auto cong: if_cong)
  moreover have "(if 1 \<le> j then c else if j < 2 then x else y) = (if 1 \<le> j then c else x)" for j :: nat and c x y :: cell
    by simp
  ultimately show ?thesis using t(1) by (simp only:) blast
qed

theorem erase_chars_blanks_witness:
  "\<exists>t u. term_new (config_default style0) 2 4 = Some t \<and> erase_chars 9 t = Some u \<and>
     line_edit 0 4 (\<lambda>old new. \<forall>j < 4. new ! j = bg_cell (cur_bg t)) t u"
proof -
  obtain t where t: "term_new (config_default style0) 2 4 = Some t" "term_ok t" "columns (main t) = 4"
    "cursor (main t) = cursor_default" by (rule small_term) simp
  then have "cur_col t = 0" by (simp add: cur_col_def cursor_default_def)
  moreover have "(\<forall>j < 4. new ! j = (if 0 \<le> j \<and> j < 9 then c else old ! j)) = (\<forall>j < 4. new ! j = c)"
    for c :: cell and old new by auto
  ultimately show ?thesis using erase_chars_blanks [of t 9] t by auto
qed

theorem clear_above_spec_witness:
  "\<exists>t u old new. term_new (config_default style0) 2 4 = Some t \<and> clear_screen Above (set_cur_line 1 t) = Some u \<and>
     row_at (main u) 0 = row_at (main t) 0 \<and> row_at (main t) 1 = Some old \<and> row_at (main u) 1 = Some new \<and>
     cells new ! 0 = bg_cell (cur_bg t)"
proof -
  obtain t where t: "term_new (config_default style0) 2 4 = Some t" "term_ok t" "columns (main t) = 4"
    "screen_lines (main t) = 2" by (rule small_term) simp
  let ?t = "set_cur_line 1 t"
  have ok: "term_ok ?t" using t by simp
  have eq: "cur_bg ?t = cur_bg t" "row_at (main ?t) = row_at (main t)"
    by (simp_all add: cur_bg_def set_cur_line_def upd_cursor_def row_at_def fun_eq_iff)
  from clear_above_spec [OF ok] eq t(3,4)
  obtain u old new where u: "clear_screen Above ?t = Some u"
    "\<forall>l. 0 \<le> l \<and> l < 2 \<and> l \<noteq> 1 \<longrightarrow> row_at (main u) l = (if l < 1 \<and> (1::int) < 1 then Some (blank_row (main ?t)) else row_at (main t) l)"
    "row_at (main t) 1 = Some old" "row_at (main u) 1 = Some new"
    "\<forall>k < 4. cells new ! k = (if k \<le> cur_col ?t then bg_cell (cur_bg t) else cells old ! k)"
    by auto
  show ?thesis using t(1) u(1,3,4) u(2) [rule_format, of 0] u(5) [rule_format, of 0] by auto
qed

theorem input_writes_cell_witness:
  "\<exists>t u. term_new (config_default style0) 2 4 = Some t \<and>
     input \<lparr>char_width = (\<lambda>_. Some 1), map_char = (\<lambda>_ c. c), kb_bits = (\<lambda>_. 0)\<rparr> 65 t = Some u \<and>
     main_cell 0 0 u = Some (cell_default\<lparr>ch := 65\<rparr>) \<and> cur_line u = 0 \<and> cur_col u = 1"
proof -
  let ?e = "\<lparr>char_width = (\<lambda>_. Some 1), map_char = (\<lambda>_ c. c), kb_bits = (\<lambda>_. 0)\<rparr>"
  have "map_option (main_cell 0 0) (term_new (config_default style0) 2 4) = Some (Some cell_default)" by code_simp
  moreover obtain t where t: "term_new (config_default style0) 2 4 = Some t" "term_ok t" "columns (main t) = 4"
    "cursor (main t) = cursor_default" "mode t = mode_default" by (rule small_term) simp
  ultimately have "main_cell 0 0 t = Some cell_default" by simp
  moreover have "cur_line t = 0" "cur_col t = 0" "\<not> wrap_next t" "\<not> has_mode INSERT t"
    by (simp_all add: cur_line_def cur_col_def wrap_next_def t(4,5) cursor_default_def has_mode_def mode_default_def
        contains_flags_def INSERT_def SHOW_CURSOR_def LINE_WRAP_def ALTERNATE_SCROLL_def URGENCY_HINTS_def)
  moreover have "\<not> any_flags (cflags cell_default) (WIDE_CHAR OR WIDE_CHAR_SPACER)"
    by (simp add: any_flags_def cell_default_def)
  ultimately obtain u where "input ?e 65 t = Some u" "cur_line u = 0" "cur_col u = 1"
    "\<forall>l k. main_cell l k u = (if l = 0 \<and> k = 0 then Some (template (cursor (main t))\<lparr>ch := 65\<rparr>) else main_cell l k t)"
    using input_writes_cell [OF t(2), of ?e 65 cell_default] t(3) by auto
  then show ?thesis using t(1,4) by (auto simp: cursor_default_def)
qed

theorem goto_clamps_witness:
  "\<exists>t u. term_new (config_default style0) 2 4 = Some t \<and> goto 7 9 t = Some u \<and> cur_line u = 1 \<and> cur_col u = 3"
proof -
  obtain t where t: "term_new (config_default style0) 2 4 = Some t" "term_ok t" "columns (main t) = 4"
    "screen_lines (main t) = 2" "mode t = mode_default" by (rule small_term) simp
  have "\<not> has_mode ORIGIN t"
    by (simp add: has_mode_def t(5) mode_default_def contains_flags_def ORIGIN_def SHOW_CURSOR_def LINE_WRAP_def
        ALTERNATE_SCROLL_def URGENCY_HINTS_def)
  then show ?thesis using goto_clamps [OF t(2), of 7 9] t by auto
qed

theorem title_push_pop_witness:
  "\<exists>t u v. term_new (config_default style0) 2 4 = Some t \<and> push_title t = Some u \<and>
     pop_title (u\<lparr>title := Some (rs ''vim'')\<rparr>) = Some v \<and> title v = None \<and> title_stack v = []"
proof -
  obtain t where t: "term_new (config_default style0) 2 4 = Some t" "title_stack t = []" by (rule small_term) simp
  moreover from t(1) have "title t = None" using term_new_fields by blast
  ultimately show ?thesis using title_push_pop [of t "Some (rs ''vim'')"] by (auto simp: MAX_STACK_def)
qed

theorem keyboard_pushes_panic_witness:
  "\<exists>t. term_new ((config_default style0)\<lparr>kitty_keyboard := True\<rparr>) 2 4 = Some t \<and>
     fold_opt push_keyboard_mode (replicate 4097 kb_none) t = None \<and>
     fold_opt push_keyboard_mode (replicate 4096 kb_none) t \<noteq> None"
proof -
  obtain t where t: "term_new ((config_default style0)\<lparr>kitty_keyboard := True\<rparr>) 2 4 = Some t"
    using term_new_ok [of 2 4 "(config_default style0)\<lparr>kitty_keyboard := True\<rparr>"] by auto
  then have k: "kitty_keyboard (conf t)" "kb_stack t = []" "title_stack t = []" using term_new_fields [OF t] by simp_all
  have "fold_opt push_keyboard_mode (replicate n kb_none) t = None \<longleftrightarrow> 4096 < n" for n
    using keyboard_pushes_panic [OF k, of n kb_none] unfolding MAX_STACK_def .
  then have "fold_opt push_keyboard_mode (replicate 4097 kb_none) t = None"
    "fold_opt push_keyboard_mode (replicate 4096 kb_none) t \<noteq> None" by presburger+
  then show ?thesis using t by blast
qed

theorem next_stop_spec_witness: "next_stop (tabs_new 20) 20 3 = Some 8 \<and> next_stop (tabs_new 20) 20 17 = Some 19"
  using next_stop_spec [of 3 20 "tabs_new 20"] next_stop_spec [of 17 20 "tabs_new 20"]
  by (simp add: tabs_new_def upt_rec)

theorem terminal_never_panics_witness:
  "\<exists>t u. term_new (config_default style0) 2 4 = Some t \<and>
     term_do \<lparr>char_width = (\<lambda>_. Some 2), map_char = (\<lambda>_ c. c), kb_bits = (\<lambda>_. 0)\<rparr> (Edit (Input 65))
       (foldl (term_step \<lparr>char_width = (\<lambda>_. Some 2), map_char = (\<lambda>_ c. c), kb_bits = (\<lambda>_. 0)\<rparr>) t
          [Edit (Input 65), Cursor (Goto 1 3), Mode (Set_Region 2 None)]) = Some u"
proof -
  obtain t where t: "term_new (config_default style0) 2 4 = Some t" by (rule small_term) simp
  then have "term_init t" unfolding term_init_def by (intro exI [of _ "config_default style0"] exI [of _ 2] exI [of _ 4]) simp
  from terminal_never_panics [OF this refl, where ev = "Edit (Input 65)"
      and e = "\<lparr>char_width = (\<lambda>_. Some 2), map_char = (\<lambda>_ c. c), kb_bits = (\<lambda>_. 0)\<rparr>"
      and evs = "[Edit (Input 65), Cursor (Goto 1 3), Mode (Set_Region 2 None)]"]
  show ?thesis using t by (simp only: term_event_ok.simps) blast
qed

end
