(* ===== verification/ViMode.thy ===== *)
theory ViMode
  imports TermSearch TermProps
begin

text \<open>
  Vi mode (\<open>alacritty_terminal/src/vi_mode.rs\<close>): the motions of its cursor. Those that look at words
  take the characters that separate words as an argument. \<open>None\<close> is a panic, here and below.
\<close>

section \<open>Cells\<close>

definition is_space :: "grid \<Rightarrow> point \<Rightarrow> bool option" where
  "is_space g p = map_option (\<lambda>c. \<not> wide_spacer c \<and> (ch c = 32 \<or> ch c = 9)) (cell_at g p)"

definition is_wrap :: "grid \<Rightarrow> point \<Rightarrow> bool option" where
  "is_wrap g p = map_option wraps (cell_at g p)"

definition is_boundary :: "grid \<Rightarrow> point \<Rightarrow> direction \<Rightarrow> bool" where
  "is_boundary g p d \<longleftrightarrow>
     pt_line p \<le> topmost_line g \<and> pt_column p = 0 \<and> d = Leftward \<or>
     pt_line p = bottommost_line g \<and> pt_column p + 1 \<ge> columns g \<and> d = Rightward"

definition vi_advance :: "grid \<Rightarrow> point \<Rightarrow> direction \<Rightarrow> point" where
  "vi_advance g p d = (if d = Leftward then point_sub g Grid_Boundary 1 p else point_add g Grid_Boundary 1 p)"

text \<open>\<open>Term::expand_wide\<close>.\<close>

definition expand_wide :: "grid \<Rightarrow> point \<Rightarrow> direction \<Rightarrow> point option" where
  "expand_wide g p d =
     do { c \<leftarrow> cell_at g p;
          if d = Rightward \<and> has_flags (cflags c) LEADING_WIDE_CHAR_SPACER
          then Some \<lparr>pt_line = pt_line p + 1, pt_column = 1\<rparr>
          else if d = Rightward \<and> has_flags (cflags c) WIDE_CHAR
          then Some (p\<lparr>pt_column := min (pt_column p + 1) (last_column g)\<rparr>)
          else if d = Leftward \<and> any_flags (cflags c) (WIDE_CHAR OR WIDE_CHAR_SPACER)
          then do {
            k \<leftarrow> (if has_flags (cflags c) WIDE_CHAR_SPACER then checked_sub (pt_column p) 1 else Some (pt_column p));
            let p = p\<lparr>pt_column := k\<rparr>;
            let prev = point_sub g Grid_Boundary 1 p;
            c' \<leftarrow> cell_at g prev;
            Some (if has_flags (cflags c') LEADING_WIDE_CHAR_SPACER then prev else p) }
          else Some p }"

fun find_occupied :: "grid \<Rightarrow> point list \<Rightarrow> point option option" where
  "find_occupied g [] = Some None"
| "find_occupied g (q # qs) = do { s \<leftarrow> is_space g q; if s then find_occupied g qs else Some (Some q) }"

definition line_points :: "grid \<Rightarrow> int \<Rightarrow> point list" where
  "line_points g l = map (\<lambda>k. \<lparr>pt_line = l, pt_column = k\<rparr>) [0..<columns g]"

definition first_occupied_in_line :: "grid \<Rightarrow> int \<Rightarrow> point option option" where
  "first_occupied_in_line g l = find_occupied g (line_points g l)"

definition last_occupied_in_line :: "grid \<Rightarrow> int \<Rightarrow> point option option" where
  "last_occupied_in_line g l = find_occupied g (rev (line_points g l))"

definition or_origin :: "point option \<Rightarrow> point" where
  "or_origin r = (case r of None \<Rightarrow> \<lparr>pt_line = 0, pt_column = 0\<rparr> | Some q \<Rightarrow> q)"

section \<open>Lines\<close>

lemma cell_line: "cell_at g p = Some c \<Longrightarrow> pt_line p < int (visible_lines (raw g))"
  by (auto simp: cell_at_def row_at_def index_line_def compute_index_def split: bind_splits if_splits)

text \<open>The first line, from the point's on, whose cell in the point's column does not wrap.\<close>

function wrap_down :: "grid \<Rightarrow> point \<Rightarrow> point option" where
  "wrap_down g p =
     (case is_wrap g p of
        None \<Rightarrow> None
      | Some w \<Rightarrow> if w then wrap_down g (p\<lparr>pt_line := pt_line p + 1\<rparr>) else Some p)"
  by pat_completeness auto
termination
proof (relation "measure (\<lambda>(g, p). nat (int (visible_lines (raw g)) - pt_line p))")
  fix g p w
  assume "is_wrap g p = Some w"
  then show "((g, p\<lparr>pt_line := pt_line p + 1\<rparr>), g, p) \<in> measure (\<lambda>(g, p). nat (int (visible_lines (raw g)) - pt_line p))"
    using cell_line [of g p] by (auto simp: is_wrap_def)
qed simp

function occupied_below :: "grid \<Rightarrow> int \<Rightarrow> point option" where
  "occupied_below g l =
     (case first_occupied_in_line g l of
        None \<Rightarrow> None
      | Some (Some q) \<Rightarrow> Some q
      | Some None \<Rightarrow>
          (case is_wrap g \<lparr>pt_line = l, pt_column = last_column g\<rparr> of
             None \<Rightarrow> None
           | Some w \<Rightarrow> if w then occupied_below g (l + 1) else Some \<lparr>pt_line = l, pt_column = last_column g\<rparr>))"
  by pat_completeness auto
termination
proof (relation "measure (\<lambda>(g, l). nat (int (visible_lines (raw g)) - l))")
  fix g l x w
  assume "is_wrap g \<lparr>pt_line = l, pt_column = last_column g\<rparr> = Some w"
  then show "((g, l + 1), g, l) \<in> measure (\<lambda>(g, l). nat (int (visible_lines (raw g)) - l))"
    using cell_line [of g "\<lparr>pt_line = l, pt_column = last_column g\<rparr>"] by (auto simp: is_wrap_def)
qed simp

declare wrap_down.simps [simp del] occupied_below.simps [simp del]

definition vi_last :: "grid \<Rightarrow> point \<Rightarrow> point option" where
  "vi_last g p =
     do { p \<leftarrow> expand_wide g p Rightward;
          r \<leftarrow> last_occupied_in_line g (pt_line p);
          if pt_column p < pt_column (or_origin r) then Some (or_origin r)
          else do {
            w \<leftarrow> is_wrap g p;
            if w then do { q \<leftarrow> wrap_down g p;
                           r \<leftarrow> last_occupied_in_line g (pt_line q);
                           Some (case r of None \<Rightarrow> q | Some x \<Rightarrow> x) }
            else Some \<lparr>pt_line = pt_line p, pt_column = last_column g\<rparr> } }"

text \<open>Occupied cells of the wrapped lines above: the first one of the topmost line that has one.\<close>

fun occupied_above :: "grid \<Rightarrow> point option \<Rightarrow> int list \<Rightarrow> point option option" where
  "occupied_above g found [] = Some found"
| "occupied_above g found (l # ls) =
     do { w \<leftarrow> is_wrap g \<lparr>pt_line = l, pt_column = last_column g\<rparr>;
          if w then do { r \<leftarrow> first_occupied_in_line g l;
                         occupied_above g (case r of None \<Rightarrow> found | Some q \<Rightarrow> Some q) ls }
          else Some found }"

definition vi_first_occupied :: "grid \<Rightarrow> point \<Rightarrow> point option" where
  "vi_first_occupied g p =
     do { p \<leftarrow> expand_wide g p Leftward;
          r \<leftarrow> first_occupied_in_line g (pt_line p);
          let occupied = (case r of None \<Rightarrow> \<lparr>pt_line = pt_line p, pt_column = last_column g\<rparr> | Some q \<Rightarrow> q);
          if p = occupied
          then do { above \<leftarrow> occupied_above g None (rev [topmost_line g..pt_line p - 1]);
                    case above of Some q \<Rightarrow> Some q | None \<Rightarrow> occupied_below g (pt_line p) }
          else Some occupied }"

section \<open>Words\<close>

text \<open>
  The loops over cells. They move on until the edge of the grid, so that \<open>None\<close> is a panic only;
  \<open>skip_ahead\<close> looks at the next cell, \<open>skip_here\<close> at the current one.
\<close>

partial_function (option) skip_ahead :: "grid \<Rightarrow> direction \<Rightarrow> bool \<Rightarrow> point \<Rightarrow> point option" where
  "skip_ahead g d space p =
     (if is_boundary g p d then Some p
      else Option.bind (is_space g (vi_advance g p d))
             (\<lambda>s. if s = space then skip_ahead g d space (vi_advance g p d) else Some p))"

partial_function (option) skip_here :: "grid \<Rightarrow> direction \<Rightarrow> bool \<Rightarrow> point \<Rightarrow> point option" where
  "skip_here g d space p =
     (if is_boundary g p d then Some p
      else Option.bind (is_space g p)
             (\<lambda>s. if s = space then skip_here g d space (vi_advance g p d) else Some p))"

definition expand_semantic :: "grid \<Rightarrow> rstring \<Rightarrow> direction \<Rightarrow> point \<Rightarrow> point option" where
  "expand_semantic g escape_chars d p =
     do { c \<leftarrow> cell_at g p;
          if ch c \<in> set escape_chars \<and> \<not> wide_spacer c then Some p
          else if d = Leftward then semantic_search_left g escape_chars p
          else semantic_search_right g escape_chars p }"

definition vi_semantic :: "grid \<Rightarrow> rstring \<Rightarrow> direction \<Rightarrow> direction \<Rightarrow> point \<Rightarrow> point option" where
  "vi_semantic g escape_chars d side p =
     do { p \<leftarrow> (if d \<noteq> side \<and> \<not> is_boundary g p d then expand_semantic g escape_chars d p else Some p);
          p \<leftarrow> expand_wide g p d;
          p \<leftarrow> skip_ahead g d True p;
          p \<leftarrow> (if is_boundary g p d then Some p
                else let q = vi_advance g p d in if d = Leftward then expand_wide g q d else Some q);
          if d = side \<and> \<not> is_boundary g p d then expand_semantic g escape_chars d p else Some p }"

definition vi_word :: "grid \<Rightarrow> direction \<Rightarrow> direction \<Rightarrow> point \<Rightarrow> point option" where
  "vi_word g d side p =
     do { p \<leftarrow> expand_wide g p d;
          if d = side
          then do { p \<leftarrow> skip_ahead g d True p; skip_ahead g d False p }
          else do { p \<leftarrow> skip_here g d False p; skip_here g d True p } }"

section \<open>Paragraphs\<close>

definition line_clear :: "grid \<Rightarrow> int \<Rightarrow> bool option" where
  "line_clear g l = map_option (row_is_clear cell_is_empty) (row_at g l)"

fun skip_clear :: "grid \<Rightarrow> int list \<Rightarrow> int list option" where
  "skip_clear g [] = Some []"
| "skip_clear g (l # ls) = do { c \<leftarrow> line_clear g l; if c then skip_clear g ls else Some (l # ls) }"

fun find_clear :: "grid \<Rightarrow> int list \<Rightarrow> int option option" where
  "find_clear g [] = Some None"
| "find_clear g (l # ls) = do { c \<leftarrow> line_clear g l; if c then Some (Some l) else find_clear g ls }"

definition paragraph_target :: "grid \<Rightarrow> int list \<Rightarrow> int \<Rightarrow> point option" where
  "paragraph_target g ls fallback =
     do { ls \<leftarrow> skip_clear g ls;
          r \<leftarrow> find_clear g ls;
          Some \<lparr>pt_line = (case r of None \<Rightarrow> fallback | Some l \<Rightarrow> l), pt_column = 0\<rparr> }"

section \<open>Motions\<close>

datatype vi_motion =
    Up | Down | Left | Right | First | Last | FirstOccupied | High | Middle | Low
  | SemanticLeft | SemanticRight | SemanticLeftEnd | SemanticRightEnd
  | WordLeft | WordRight | WordLeftEnd | WordRightEnd | Bracket | ParagraphUp | ParagraphDown

definition line_target :: "grid \<Rightarrow> int \<Rightarrow> point option" where
  "line_target g l = map_option (\<lambda>r. \<lparr>pt_line = l, pt_column = pt_column (or_origin r)\<rparr>) (first_occupied_in_line g l)"

definition vi_left :: "grid \<Rightarrow> point \<Rightarrow> point option" where
  "vi_left g p =
     do { p \<leftarrow> expand_wide g p Leftward;
          let wrap_point = \<lparr>pt_line = pt_line p - 1, pt_column = last_column g\<rparr>;
          w \<leftarrow> (if pt_column p = 0 \<and> pt_line p > topmost_line g then is_wrap g wrap_point else Some False);
          Some (if w then wrap_point else p\<lparr>pt_column := pt_column p - 1\<rparr>) }"

definition vi_right :: "grid \<Rightarrow> point \<Rightarrow> point option" where
  "vi_right g p =
     do { p \<leftarrow> expand_wide g p Rightward;
          w \<leftarrow> is_wrap g p;
          Some (if w then \<lparr>pt_line = pt_line p + 1, pt_column = 0\<rparr>
                else p\<lparr>pt_column := min (pt_column p + 1) (last_column g)\<rparr>) }"

definition vi_first :: "grid \<Rightarrow> point \<Rightarrow> point option" where
  "vi_first g p =
     do { p \<leftarrow> expand_wide g p Leftward;
          l \<leftarrow> (if pt_column p = 0 then line_start g (pt_line p) else Some (pt_line p));
          Some \<lparr>pt_line = l, pt_column = 0\<rparr> }"

fun vi_target :: "grid \<Rightarrow> rstring \<Rightarrow> vi_motion \<Rightarrow> point \<Rightarrow> point option" where
  "vi_target g esc Up p = Some (if pt_line p > topmost_line g then p\<lparr>pt_line := pt_line p - 1\<rparr> else p)"
| "vi_target g esc Down p = Some (if pt_line p + 1 < int (screen_lines g) then p\<lparr>pt_line := pt_line p + 1\<rparr> else p)"
| "vi_target g esc Left p = vi_left g p"
| "vi_target g esc Right p = vi_right g p"
| "vi_target g esc First p = vi_first g p"
| "vi_target g esc Last p = vi_last g p"
| "vi_target g esc FirstOccupied p = vi_first_occupied g p"
| "vi_target g esc High p = line_target g (- int (display_offset g))"
| "vi_target g esc Middle p = line_target g (- int (display_offset g) + int (screen_lines g) div 2 - 1)"
| "vi_target g esc Low p = line_target g (- int (display_offset g) + int (screen_lines g) - 1)"
| "vi_target g esc SemanticLeft p = vi_semantic g esc Leftward Leftward p"
| "vi_target g esc SemanticRight p = vi_semantic g esc Rightward Leftward p"
| "vi_target g esc SemanticLeftEnd p = vi_semantic g esc Leftward Rightward p"
| "vi_target g esc SemanticRightEnd p = vi_semantic g esc Rightward Rightward p"
| "vi_target g esc WordLeft p = vi_word g Leftward Leftward p"
| "vi_target g esc WordRight p = vi_word g Rightward Leftward p"
| "vi_target g esc WordLeftEnd p = vi_word g Leftward Rightward p"
| "vi_target g esc WordRightEnd p = vi_word g Rightward Rightward p"
| "vi_target g esc Bracket p = map_option (\<lambda>r. case r of None \<Rightarrow> p | Some q \<Rightarrow> q) (bracket_search g p)"
| "vi_target g esc ParagraphUp p =
     paragraph_target g (rev [topmost_line g..pt_line p - 1]) (topmost_line g)"
| "vi_target g esc ParagraphDown p =
     paragraph_target g [pt_line p..bottommost_line g - 1] (bottommost_line g)"

text \<open>\<open>ViModeCursor::motion\<close>, \<open>ViModeCursor::scroll\<close> and \<open>Term::vi_motion\<close>.\<close>

definition vi_cursor_motion :: "vi_motion \<Rightarrow> point \<Rightarrow> term_state \<Rightarrow> (point \<times> term_state) option" where
  "vi_cursor_motion m p t =
     do { q \<leftarrow> vi_target (main t) (semantic_escape_chars (conf t)) m p;
          Some (q, scroll_to_point q t) }"

definition vi_cursor_scroll :: "grid \<Rightarrow> int \<Rightarrow> point \<Rightarrow> point option" where
  "vi_cursor_scroll g n p = line_target g (line_clamp g Grid_Boundary (pt_line p - n))"

definition term_vi_motion :: "vi_motion \<Rightarrow> term_state \<Rightarrow> term_state option" where
  "term_vi_motion m t =
     (if \<not> has_mode VI t then Some t
      else do { (q, t) \<leftarrow> vi_cursor_motion m (vi_cursor t) t;
                Some (recompute_vi_selection (t\<lparr>vi_cursor := q\<rparr>)) })"

section \<open>Motions in a tidy grid\<close>

text \<open>
  What the motions rely on: no spacer of a wide character in the first column, and in the bottommost
  line no cell that wraps and none that announces a wide character on the next line.
\<close>

definition tidy :: "grid \<Rightarrow> bool" where
  "tidy g \<longleftrightarrow> 2 \<le> columns g \<and>
     (\<forall>p c. in_grid g p \<longrightarrow> cell_at g p = Some c \<longrightarrow>
        (pt_column p = 0 \<longrightarrow> \<not> has_flags (cflags c) WIDE_CHAR_SPACER) \<and>
        (pt_line p = bottommost_line g \<longrightarrow> \<not> has_flags (cflags c) LEADING_WIDE_CHAR_SPACER \<and> \<not> wraps c))"

lemma tidyD:
  assumes "tidy g" "in_grid g p" "cell_at g p = Some c"
  shows "has_flags (cflags c) WIDE_CHAR_SPACER \<Longrightarrow> 0 < pt_column p"
    and "has_flags (cflags c) LEADING_WIDE_CHAR_SPACER \<Longrightarrow> pt_line p < bottommost_line g"
    and "wraps c \<Longrightarrow> pt_line p < bottommost_line g"
  using assms unfolding tidy_def in_grid_def by fastforce+

lemma tidy_columns: "tidy g \<Longrightarrow> 2 \<le> columns g"
  by (simp add: tidy_def)

lemma advance_in_grid [simp]: "grid_wf g \<Longrightarrow> in_grid g (vi_advance g p d)"
  unfolding vi_advance_def point_sub_def point_add_def Let_def by (simp add: point_clamp_in_grid)

lemma is_space_total: "grid_wf g \<Longrightarrow> in_grid g p \<Longrightarrow> \<exists>s. is_space g p = Some s"
  using cell_in_grid [of g p] by (auto simp: is_space_def)

lemma is_wrap_total: "grid_wf g \<Longrightarrow> in_grid g p \<Longrightarrow> \<exists>w. is_wrap g p = Some w"
  using cell_in_grid [of g p] by (auto simp: is_wrap_def)

lemma is_wrap_above: "tidy g \<Longrightarrow> in_grid g p \<Longrightarrow> is_wrap g p = Some True \<Longrightarrow> pt_line p < bottommost_line g"
  using tidyD(3) by (auto simp: is_wrap_def)

lemma expand_wide_ends:
  assumes "grid_wf g" "tidy g" "in_grid g p"
  shows "ends_in (expand_wide g p d) (in_grid g)"
proof -
  obtain c where c: "cell_at g p = Some c" using cell_in_grid [OF assms(1,3)] by blast
  note t = tidyD [OF assms(2,3) c]
  have cols: "2 \<le> columns g" by (rule tidy_columns [OF assms(2)])
  have p: "topmost_line g \<le> pt_line p" "pt_line p \<le> bottommost_line g" "pt_column p < columns g"
    using assms(3) by (simp_all add: in_grid_def)
  define k where "k = (if has_flags (cflags c) WIDE_CHAR_SPACER then pt_column p - 1 else pt_column p)"
  have k: "(if has_flags (cflags c) WIDE_CHAR_SPACER then checked_sub (pt_column p) 1 else Some (pt_column p)) = Some k"
    using t(1) by (auto simp: k_def checked_sub_def)
  have q: "in_grid g (p\<lparr>pt_column := k\<rparr>)" using p by (auto simp: in_grid_def k_def)
  define prev where "prev = point_sub g Grid_Boundary 1 (p\<lparr>pt_column := k\<rparr>)"
  have prev: "in_grid g prev" unfolding prev_def point_sub_def Let_def by (rule point_clamp_in_grid [OF assms(1)])
  obtain c' where c': "cell_at g prev = Some c'" using cell_in_grid [OF assms(1) prev] by blast
  have left: "expand_wide g p Leftward = Some (if any_flags (cflags c) (WIDE_CHAR OR WIDE_CHAR_SPACER)
      then (if has_flags (cflags c') LEADING_WIDE_CHAR_SPACER then prev else p\<lparr>pt_column := k\<rparr>) else p)"
    using c k c' by (simp add: expand_wide_def Let_def prev_def)
  have right: "expand_wide g p Rightward = Some (if has_flags (cflags c) LEADING_WIDE_CHAR_SPACER
      then \<lparr>pt_line = pt_line p + 1, pt_column = 1\<rparr>
      else if has_flags (cflags c) WIDE_CHAR then p\<lparr>pt_column := min (pt_column p + 1) (last_column g)\<rparr> else p)"
    using c by (simp add: expand_wide_def)
  show ?thesis
  proof (cases d)
    case Leftward
    then show ?thesis using left assms(3) q prev by simp
  next
    case Rightward
    then show ?thesis using right p cols t(2) by (auto simp: in_grid_def last_column_def min_def)
  qed
qed

lemma find_occupied_total:
  assumes "grid_wf g" "\<forall>q \<in> set qs. in_grid g q"
  shows "\<exists>r. find_occupied g qs = Some r \<and> (\<forall>q. r = Some q \<longrightarrow> q \<in> set qs)"
  using assms(2)
proof (induction qs)
  case (Cons q qs)
  then obtain r where "find_occupied g qs = Some r" "\<forall>q. r = Some q \<longrightarrow> q \<in> set qs" by auto
  moreover obtain s where "is_space g q = Some s" using is_space_total [OF assms(1)] Cons.prems by auto
  ultimately show ?case by auto
qed simp

lemma line_occupied_total:
  assumes "grid_wf g" "topmost_line g \<le> l" "l \<le> bottommost_line g"
  shows "\<exists>r. first_occupied_in_line g l = Some r \<and> (\<forall>q. r = Some q \<longrightarrow> in_grid g q \<and> pt_line q = l)"
    and "\<exists>r. last_occupied_in_line g l = Some r \<and> (\<forall>q. r = Some q \<longrightarrow> in_grid g q \<and> pt_line q = l)"
proof -
  have i: "\<forall>q \<in> set (line_points g l). in_grid g q \<and> pt_line q = l"
    using assms(2,3) by (auto simp: line_points_def in_grid_def)
  show "\<exists>r. first_occupied_in_line g l = Some r \<and> (\<forall>q. r = Some q \<longrightarrow> in_grid g q \<and> pt_line q = l)"
    using find_occupied_total [OF assms(1), of "line_points g l"] i unfolding first_occupied_in_line_def by blast
  show "\<exists>r. last_occupied_in_line g l = Some r \<and> (\<forall>q. r = Some q \<longrightarrow> in_grid g q \<and> pt_line q = l)"
    using find_occupied_total [OF assms(1), of "rev (line_points g l)"] i unfolding last_occupied_in_line_def set_rev by blast
qed

lemma line_target_ends:
  assumes "grid_wf g" "topmost_line g \<le> l" "l \<le> bottommost_line g"
  shows "ends_in (line_target g l) (in_grid g)"
proof -
  obtain r where r: "first_occupied_in_line g l = Some r" "\<forall>q. r = Some q \<longrightarrow> in_grid g q"
    using line_occupied_total(1) [OF assms] by blast
  have "0 < columns g" using grid_dims [OF assms(1)] by simp
  then show ?thesis using r assms(2,3) by (cases r) (auto simp: line_target_def or_origin_def in_grid_def)
qed

lemma wrap_down_ends:
  "grid_wf g \<Longrightarrow> tidy g \<Longrightarrow> in_grid g p \<Longrightarrow> ends_in (wrap_down g p) (in_grid g)"
proof (induction g p rule: wrap_down.induct)
  case (1 g p)
  obtain w where w: "is_wrap g p = Some w" using is_wrap_total [OF "1.prems"(1,3)] by blast
  show ?case
  proof (cases w)
    case True
    have "in_grid g (p\<lparr>pt_line := pt_line p + 1\<rparr>)"
      using is_wrap_above [OF "1.prems"(2,3)] "1.prems"(3) w True by (auto simp: in_grid_def)
    from "1.IH" [OF w True "1.prems"(1,2) this] show ?thesis
      using w True by (simp add: wrap_down.simps [of g p])
  next
    case False
    then show ?thesis using w "1.prems"(3) by (simp add: wrap_down.simps [of g p])
  qed
qed

lemma line_end_point: "grid_wf g \<Longrightarrow> topmost_line g \<le> l \<Longrightarrow> l \<le> bottommost_line g \<Longrightarrow>
  in_grid g \<lparr>pt_line = l, pt_column = last_column g\<rparr>"
  using grid_dims [of g] by (simp add: in_grid_def last_column_def)

lemma occupied_below_ends:
  "grid_wf g \<Longrightarrow> tidy g \<Longrightarrow> topmost_line g \<le> l \<Longrightarrow> l \<le> bottommost_line g \<Longrightarrow>
   ends_in (occupied_below g l) (in_grid g)"
proof (induction g l rule: occupied_below.induct)
  case (1 g l)
  note i = line_end_point [OF "1.prems"(1,3,4)]
  obtain r where r: "first_occupied_in_line g l = Some r" "\<forall>q. r = Some q \<longrightarrow> in_grid g q"
    using line_occupied_total(1) [OF "1.prems"(1,3,4)] by blast
  obtain w where w: "is_wrap g \<lparr>pt_line = l, pt_column = last_column g\<rparr> = Some w"
    using is_wrap_total [OF "1.prems"(1) i] by blast
  show ?case
  proof (cases r)
    case None
    show ?thesis
    proof (cases w)
      case True
      have "l + 1 \<le> bottommost_line g" using is_wrap_above [OF "1.prems"(2) i] w True by simp
      from "1.IH" [OF r(1) None w True "1.prems"(1,2) _ this] show ?thesis
        using r None w True "1.prems"(3) by (simp add: occupied_below.simps [of g l])
    next
      case False
      then show ?thesis using r None w i by (simp add: occupied_below.simps [of g l])
    qed
  next
    case (Some q)
    then show ?thesis using r by (simp add: occupied_below.simps [of g l])
  qed
qed

lemma vi_last_ends:
  assumes "grid_wf g" "tidy g" "in_grid g p"
  shows "ends_in (vi_last g p) (in_grid g)"
proof -
  have occ: "ends_in (last_occupied_in_line g (pt_line q)) (\<lambda>r. \<forall>x. r = Some x \<longrightarrow> in_grid g x)"
    if "in_grid g q" for q
    using line_occupied_total(2) [OF assms(1), of "pt_line q"] that by (auto simp: in_grid_def ends_in_def)
  have "ends_in (do { r \<leftarrow> last_occupied_in_line g (pt_line q);
          if pt_column q < pt_column (or_origin r) then Some (or_origin r)
          else do {
            w \<leftarrow> is_wrap g q;
            if w then do { q \<leftarrow> wrap_down g q;
                           r \<leftarrow> last_occupied_in_line g (pt_line q);
                           Some (case r of None \<Rightarrow> q | Some x \<Rightarrow> x) }
            else Some \<lparr>pt_line = pt_line q, pt_column = last_column g\<rparr> } }) (in_grid g)" (is "ends_in ?m _")
    if q: "in_grid g q" for q
  proof -
    obtain r where r: "last_occupied_in_line g (pt_line q) = Some r" "\<forall>x. r = Some x \<longrightarrow> in_grid g x"
      using occ [OF q] by (auto simp: ends_in_def)
    obtain w where w: "is_wrap g q = Some w" using is_wrap_total [OF assms(1) q] by blast
    have line: "in_grid g \<lparr>pt_line = pt_line q, pt_column = last_column g\<rparr>"
      using line_end_point [OF assms(1), of "pt_line q"] q by (simp add: in_grid_def)
    have down: "ends_in (do { q \<leftarrow> wrap_down g q; r \<leftarrow> last_occupied_in_line g (pt_line q);
        Some (case r of None \<Rightarrow> q | Some x \<Rightarrow> x) }) (in_grid g)"
      unfolding ends_in_simps
    proof (rule ends_in_mono [OF wrap_down_ends [OF assms(1,2) q]])
      fix v assume "in_grid g v"
      then show "ends_in (last_occupied_in_line g (pt_line v)) (\<lambda>r. in_grid g (case r of None \<Rightarrow> v | Some x \<Rightarrow> x))"
        by (intro ends_in_mono [OF occ]) (auto split: option.split)
    qed
    show ?thesis using r w line down by (cases r) (simp_all add: or_origin_def)
  qed
  from ends_in_mono [OF expand_wide_ends [OF assms, of Rightward] this] show ?thesis
    by (simp add: vi_last_def)
qed

lemma occupied_above_ends:
  assumes "grid_wf g"
  shows "\<forall>q. found = Some q \<longrightarrow> in_grid g q \<Longrightarrow>
    \<forall>l \<in> set ls. topmost_line g \<le> l \<and> l \<le> bottommost_line g \<Longrightarrow>
    ends_in (occupied_above g found ls) (\<lambda>r. \<forall>q. r = Some q \<longrightarrow> in_grid g q)"
proof (induction ls arbitrary: found)
  case (Cons l ls)
  then have l: "topmost_line g \<le> l" "l \<le> bottommost_line g" by simp_all
  obtain w where w: "is_wrap g \<lparr>pt_line = l, pt_column = last_column g\<rparr> = Some w"
    using is_wrap_total [OF assms line_end_point [OF assms l]] by blast
  obtain r where r: "first_occupied_in_line g l = Some r" "\<forall>q. r = Some q \<longrightarrow> in_grid g q"
    using line_occupied_total(1) [OF assms l] by blast
  have "ends_in (occupied_above g (case r of None \<Rightarrow> found | Some q \<Rightarrow> Some q) ls)
      (\<lambda>r. \<forall>q. r = Some q \<longrightarrow> in_grid g q)"
    using Cons.prems r by (intro Cons.IH) (auto split: option.splits)
  then show ?case using w r(1) Cons.prems(1) by simp
qed simp

lemma vi_first_occupied_ends:
  assumes "grid_wf g" "tidy g" "in_grid g p"
  shows "ends_in (vi_first_occupied g p) (in_grid g)"
proof -
  have "ends_in (do { r \<leftarrow> first_occupied_in_line g (pt_line q);
          let occupied = (case r of None \<Rightarrow> \<lparr>pt_line = pt_line q, pt_column = last_column g\<rparr> | Some q \<Rightarrow> q);
          if q = occupied
          then do { above \<leftarrow> occupied_above g None (rev [topmost_line g..pt_line q - 1]);
                    case above of Some q \<Rightarrow> Some q | None \<Rightarrow> occupied_below g (pt_line q) }
          else Some occupied }) (in_grid g)" if q: "in_grid g q" for q
  proof -
    have l: "topmost_line g \<le> pt_line q" "pt_line q \<le> bottommost_line g" using q by (simp_all add: in_grid_def)
    obtain r where r: "first_occupied_in_line g (pt_line q) = Some r" "\<forall>q. r = Some q \<longrightarrow> in_grid g q"
      using line_occupied_total(1) [OF assms(1) l] by blast
    have "ends_in (occupied_above g None (rev [topmost_line g..pt_line q - 1])) (\<lambda>r. \<forall>q. r = Some q \<longrightarrow> in_grid g q)"
      using l by (intro occupied_above_ends [OF assms(1)]) auto
    then have "ends_in (occupied_above g None (rev [topmost_line g..pt_line q - 1]))
        (\<lambda>above. ends_in (case above of Some q \<Rightarrow> Some q | None \<Rightarrow> occupied_below g (pt_line q)) (in_grid g))"
      by (rule ends_in_mono) (use occupied_below_ends [OF assms(1,2) l] in \<open>simp split: option.split\<close>)
    then show ?thesis
      using r line_end_point [OF assms(1) l] by (cases r) (auto simp: Let_def)
  qed
  from ends_in_mono [OF expand_wide_ends [OF assms, of Leftward] this] show ?thesis
    by (simp add: vi_first_occupied_def)
qed

section \<open>Moving over words\<close>

text \<open>How far the edge of the grid is in a direction.\<close>

definition room :: "grid \<Rightarrow> direction \<Rightarrow> point \<Rightarrow> nat" where
  "room g d p =
     nat (if d = Leftward then cell_number g p - first_number g else last_number g - cell_number g p)"

lemma is_boundary_room:
  assumes "in_grid g p"
  shows "is_boundary g p d \<longleftrightarrow> room g d p = 0"
proof -
  have c: "0 < columns g" "pt_column p < columns g" and
    r: "first_number g \<le> cell_number g p" "cell_number g p \<le> last_number g"
    and l: "topmost_line g \<le> pt_line p" "pt_line p \<le> bottommost_line g"
    using assms in_grid_number [of p g] by (auto simp: in_grid_def)
  show ?thesis
  proof (cases d)
    case Leftward
    let ?z = "\<lparr>pt_line = topmost_line g, pt_column = 0\<rparr>"
    have z: "in_grid g ?z" "cell_number g ?z = first_number g"
      using assms c(1) by (simp_all add: in_grid_def cell_number_def first_number_def)
    have "is_boundary g p d \<longleftrightarrow> p = ?z" using l Leftward by (cases p) (auto simp: is_boundary_def)
    also have "\<dots> \<longleftrightarrow> cell_number g p = first_number g" using number_inj [OF assms z(1)] z(2) by auto
    finally show ?thesis using r Leftward by (auto simp: room_def)
  next
    case Rightward
    have z: "in_grid g (grid_end g)" using assms c(1) by (simp add: in_grid_def grid_end_def last_column_def)
    have n: "cell_number g (grid_end g) = last_number g"
      using c(1) by (simp add: cell_number_def grid_end_def last_number_def last_column_def bottommost_line_def
        left_diff_distrib of_nat_diff Suc_leI)
    have "is_boundary g p d \<longleftrightarrow> p = grid_end g"
      using c l Rightward by (cases p) (auto simp: is_boundary_def grid_end_def last_column_def)
    also have "\<dots> \<longleftrightarrow> cell_number g p = last_number g" using number_inj [OF assms z] n by auto
    finally show ?thesis using r Rightward by (auto simp: room_def)
  qed
qed

lemma advance_room:
  assumes "in_grid g p" "\<not> is_boundary g p d"
  shows "room g d (vi_advance g p d) < room g d p"
proof -
  have c: "0 < columns g" "pt_column p < columns g" using assms(1) by (auto simp: in_grid_def)
  have n: "0 < room g d p" using assms is_boundary_room by simp
  define m where "m = (if d = Leftward then cell_number g p - 1 else cell_number g p + 1)"
  have m: "first_number g \<le> m" "m \<le> last_number g"
    using n assms(1) in_grid_number [OF c(2)] by (auto simp: m_def room_def split: if_splits)
  have q: "in_grid g (cell_point g m)" "cell_number g (cell_point g m) = m"
    using cell_point_in_grid [OF c(1) m] number_cell_point [OF c(1)] by simp_all
  have "vi_advance g p d = cell_point g m"
    using point_sub_number [OF c(2) q(1), of 1] point_add_number [OF c(2) q(1), of 1] q(2)
    by (cases d) (simp_all add: vi_advance_def m_def)
  then show ?thesis using n q(2) by (auto simp: room_def m_def)
qed

lemma skip_ahead_ends:
  assumes "grid_wf g"
  shows "in_grid g p \<Longrightarrow> ends_in (skip_ahead g d space p) (in_grid g)"
proof (induction "room g d p" arbitrary: p rule: less_induct)
  case less
  show ?case
  proof (cases "is_boundary g p d")
    case True
    then show ?thesis using less.prems by (simp add: skip_ahead.simps [of g d space p])
  next
    case False
    note adv = advance_in_grid [OF assms, of p d]
    obtain s where s: "is_space g (vi_advance g p d) = Some s" using is_space_total [OF assms adv] by blast
    have "ends_in (skip_ahead g d space (vi_advance g p d)) (in_grid g)"
      using less.hyps [OF advance_room [OF less.prems False] adv] .
    then show ?thesis using False s less.prems by (simp add: skip_ahead.simps [of g d space p])
  qed
qed

lemma skip_here_ends:
  assumes "grid_wf g"
  shows "in_grid g p \<Longrightarrow> ends_in (skip_here g d space p) (in_grid g)"
proof (induction "room g d p" arbitrary: p rule: less_induct)
  case less
  show ?case
  proof (cases "is_boundary g p d")
    case True
    then show ?thesis using less.prems by (simp add: skip_here.simps [of g d space p])
  next
    case False
    note adv = advance_in_grid [OF assms, of p d]
    obtain s where s: "is_space g p = Some s" using is_space_total [OF assms less.prems] by blast
    have "ends_in (skip_here g d space (vi_advance g p d)) (in_grid g)"
      using less.hyps [OF advance_room [OF less.prems False] adv] .
    then show ?thesis using False s less.prems by (simp add: skip_here.simps [of g d space p])
  qed
qed

lemma expand_semantic_ends:
  assumes "grid_wf g" "in_grid g p"
  shows "ends_in (expand_semantic g esc d p) (in_grid g)"
proof -
  obtain a b where "semantic_search_left g esc p = Some a" "in_grid g a"
    "semantic_search_right g esc p = Some b" "in_grid g b"
    using semantic_ends_in_grid [OF assms, of esc] by blast
  moreover obtain c where "cell_at g p = Some c" using cell_in_grid [OF assms] by blast
  ultimately show ?thesis using assms(2) by (simp add: expand_semantic_def)
qed

lemma vi_word_ends:
  assumes "grid_wf g" "tidy g" "in_grid g p"
  shows "ends_in (vi_word g d side p) (in_grid g)"
proof -
  note skips = skip_ahead_ends [OF assms(1)] skip_here_ends [OF assms(1)]
  have "ends_in (if d = side then do { p \<leftarrow> skip_ahead g d True q; skip_ahead g d False p }
      else do { p \<leftarrow> skip_here g d False q; skip_here g d True p }) (in_grid g)" if q: "in_grid g q" for q
    using ends_in_mono [OF skips(1) [OF q] skips(1)] ends_in_mono [OF skips(2) [OF q] skips(2)] by simp
  from ends_in_mono [OF expand_wide_ends [OF assms, of d] this] show ?thesis by (simp add: vi_word_def)
qed

lemma vi_semantic_ends:
  assumes "grid_wf g" "tidy g" "in_grid g p"
  shows "ends_in (vi_semantic g esc d side p) (in_grid g)"
proof -
  note ex = expand_semantic_ends [OF assms(1)] and wide = expand_wide_ends [OF assms(1,2)]
  have last: "ends_in (if d = side \<and> \<not> is_boundary g q d then expand_semantic g esc d q else Some q) (in_grid g)"
    if "in_grid g q" for q using ex that by simp
  have min: "ends_in (if is_boundary g q d then Some q
      else let r = vi_advance g q d in if d = Leftward then expand_wide g r d else Some r) (in_grid g)"
    if "in_grid g q" for q using wide that assms(1) by (simp add: Let_def)
  have first: "ends_in (if d \<noteq> side \<and> \<not> is_boundary g p d then expand_semantic g esc d p else Some p) (in_grid g)"
    using ex assms(3) by simp
  show ?thesis
    unfolding vi_semantic_def ends_in_simps
    by (rule ends_in_mono [OF first], rule ends_in_mono [OF wide], assumption,
        rule ends_in_mono [OF skip_ahead_ends [OF assms(1)]], assumption,
        rule ends_in_mono [OF min], assumption, erule last)
qed

section \<open>The other motions\<close>

lemma line_clear_total: "grid_wf g \<Longrightarrow> topmost_line g \<le> l \<Longrightarrow> l \<le> bottommost_line g \<Longrightarrow> \<exists>c. line_clear g l = Some c"
  using row_at_iff [of g l] by (auto simp: line_clear_def topmost_line_def bottommost_line_def)

lemma paragraph_ends:
  assumes "grid_wf g" "\<forall>l \<in> set ls. topmost_line g \<le> l \<and> l \<le> bottommost_line g"
    "topmost_line g \<le> fb" "fb \<le> bottommost_line g"
  shows "ends_in (paragraph_target g ls fb) (in_grid g)"
proof -
  have skip: "ends_in (skip_clear g ls) (\<lambda>ks. set ks \<subseteq> set ls)"
    using assms(2)
  proof (induction ls)
    case (Cons l ls)
    obtain c where "line_clear g l = Some c" using line_clear_total [OF assms(1)] Cons.prems by auto
    then show ?case using Cons by (auto intro: ends_in_mono)
  qed simp
  have find: "ends_in (find_clear g ks) (\<lambda>r. \<forall>l. r = Some l \<longrightarrow> l \<in> set ks)" if "set ks \<subseteq> set ls" for ks
    using that
  proof (induction ks)
    case (Cons l ks)
    obtain c where "line_clear g l = Some c" using line_clear_total [OF assms(1), of l] Cons.prems assms(2) by auto
    then show ?case using Cons by (auto intro: ends_in_mono)
  qed simp
  have c: "0 < columns g" using grid_dims [OF assms(1)] by simp
  show ?thesis
    unfolding paragraph_target_def ends_in_simps
  proof (rule ends_in_mono [OF skip])
    fix ks assume ks: "set ks \<subseteq> set ls"
    show "ends_in (find_clear g ks)
        (\<lambda>r. in_grid g \<lparr>pt_line = (case r of None \<Rightarrow> fb | Some l \<Rightarrow> l), pt_column = 0\<rparr>)"
      by (rule ends_in_mono [OF find [OF ks]]) (use assms ks c in \<open>auto simp: in_grid_def split: option.split\<close>)
  qed
qed

lemma vi_left_ends:
  assumes "grid_wf g" "tidy g" "in_grid g p"
  shows "ends_in (vi_left g p) (in_grid g)"
  unfolding vi_left_def ends_in_simps
proof (rule ends_in_mono [OF expand_wide_ends [OF assms]])
  fix q assume q: "in_grid g q"
  let ?w = "\<lparr>pt_line = pt_line q - 1, pt_column = last_column g\<rparr>"
  have w: "pt_line q > topmost_line g \<Longrightarrow> in_grid g ?w"
    using q line_end_point [OF assms(1), of "pt_line q - 1"] by (simp add: in_grid_def)
  have "in_grid g (q\<lparr>pt_column := pt_column q - 1\<rparr>)" using q by (auto simp: in_grid_def)
  then show "ends_in (let wrap_point = ?w
      in do { w \<leftarrow> (if pt_column q = 0 \<and> pt_line q > topmost_line g then is_wrap g wrap_point else Some False);
              Some (if w then wrap_point else q\<lparr>pt_column := pt_column q - 1\<rparr>) }) (in_grid g)"
    using w is_wrap_total [OF assms(1) w] by (auto simp: Let_def ends_in_def)
qed

lemma vi_right_ends:
  assumes "grid_wf g" "tidy g" "in_grid g p"
  shows "ends_in (vi_right g p) (in_grid g)"
  unfolding vi_right_def ends_in_simps
proof (rule ends_in_mono [OF expand_wide_ends [OF assms]])
  fix q assume q: "in_grid g q"
  obtain w where w: "is_wrap g q = Some w" using is_wrap_total [OF assms(1) q] by blast
  have "w \<Longrightarrow> pt_line q < bottommost_line g" using is_wrap_above [OF assms(2) q] w by simp
  then show "ends_in (is_wrap g q) (\<lambda>w. in_grid g (if w then \<lparr>pt_line = pt_line q + 1, pt_column = 0\<rparr>
      else q\<lparr>pt_column := min (pt_column q + 1) (last_column g)\<rparr>))"
    using w q by (auto simp: in_grid_def last_column_def)
qed

lemma vi_first_ends:
  assumes "grid_wf g" "tidy g" "in_grid g p"
  shows "ends_in (vi_first g p) (in_grid g)"
  unfolding vi_first_def ends_in_simps
proof (rule ends_in_mono [OF expand_wide_ends [OF assms]])
  fix q assume q: "in_grid g q"
  obtain a where "line_start g (pt_line q) = Some a" "topmost_line g \<le> a" "a \<le> pt_line q"
    using line_start_spec [OF assms(1), of "pt_line q"] q by (auto simp: in_grid_def)
  then show "ends_in (if pt_column q = 0 then line_start g (pt_line q) else Some (pt_line q))
      (\<lambda>l. in_grid g \<lparr>pt_line = l, pt_column = 0\<rparr>)"
    using q by (auto simp: in_grid_def)
qed

lemma vi_target_ends:
  assumes "grid_wf g" "tidy g" "in_grid g p" "display_offset g \<le> history_size g" "m = Middle \<longrightarrow> 2 \<le> screen_lines g"
  shows "ends_in (vi_target g esc m p) (in_grid g)"
proof -
  note basic = assms(1-3)
  have p: "topmost_line g \<le> pt_line p" "pt_line p \<le> bottommost_line g" "pt_column p < columns g"
    using assms(3) by (simp_all add: in_grid_def)
  have n: "0 < screen_lines g" using grid_dims [OF assms(1)] by simp
  have d: "- int (display_offset g) \<ge> topmost_line g" using assms(4) by (simp add: topmost_line_def)
  have target: "ends_in (line_target g (- int (display_offset g) + k)) (in_grid g)" if "0 \<le> k" "k < int (screen_lines g)" for k
    using that d by (intro line_target_ends [OF assms(1)]) (auto simp: bottommost_line_def)
  have "ends_in (bracket_search g p) (\<lambda>r. in_grid g (case r of None \<Rightarrow> p | Some q \<Rightarrow> q))"
    using bracket_spec [OF assms(1,3)] assms(3) by (auto simp: ends_in_def split: option.split)
  then show ?thesis
  proof (cases m)
    case High
    then show ?thesis using target [of 0] n by simp
  next
    case Middle
    then have "2 \<le> screen_lines g" using assms(5) by simp
    then show ?thesis using target [of "int (screen_lines g) div 2 - 1"] Middle by (simp add: algebra_simps)
  next
    case Low
    then show ?thesis using target [of "int (screen_lines g) - 1"] n by (simp add: algebra_simps)
  next
    case ParagraphUp
    have "ends_in (paragraph_target g (rev [topmost_line g..pt_line p - 1]) (topmost_line g)) (in_grid g)"
      using p by (intro paragraph_ends [OF assms(1)]) auto
    then show ?thesis using ParagraphUp by simp
  next
    case ParagraphDown
    have "ends_in (paragraph_target g [pt_line p..bottommost_line g - 1] (bottommost_line g)) (in_grid g)"
      using p by (intro paragraph_ends [OF assms(1)]) auto
    then show ?thesis using ParagraphDown by simp
  qed (use p in \<open>simp_all add: vi_left_ends [OF basic] vi_right_ends [OF basic] vi_first_ends [OF basic] vi_last_ends [OF basic]
    vi_first_occupied_ends [OF basic] vi_semantic_ends [OF basic] vi_word_ends [OF basic] in_grid_def bottommost_line_def\<close>)
qed

section \<open>Samples\<close>

lemma fresh_term_eval:
  "map_option (\<lambda>t. map (\<lambda>(l, k). map_option cflags (cell_at (main t) \<lparr>pt_line = l, pt_column = k\<rparr>))
       [(0, 0), (0, 1), (1, 0), (1, 1)]) (term_new (config_default style0) 2 2) =
   Some [Some 0, Some 0, Some 0, Some 0]"
  "contains_flags (mode_default XOR VI) VI"
  by code_simp+

lemma fresh_term_tidy:
  "\<exists>t. term_new (config_default style0) 2 2 = Some t \<and> term_ok t \<and> tidy (main t) \<and> history_size (main t) = 0 \<and>
     display_offset (main t) = 0 \<and> screen_lines (main t) = 2 \<and> columns (main t) = 2 \<and>
     vi_cursor (toggle_vi_mode t) = \<lparr>pt_line = 0, pt_column = 0\<rparr> \<and> has_mode VI (toggle_vi_mode t)"
proof -
  obtain t where t: "term_new (config_default style0) 2 2 = Some t" "term_ok t" "screen_lines (main t) = 2"
    "columns (main t) = 2" "history_size (main t) = 0" "display_offset (main t) = 0"
    using term_new_ok [of 2 2 "config_default style0"] by auto
  note e = fresh_term_eval(1) [unfolded t(1), simplified]
  have v: "has_mode VI (toggle_vi_mode t) \<and> vi_cursor (toggle_vi_mode t) = \<lparr>pt_line = 0, pt_column = 0\<rparr>"
    using t fresh_term_eval(2)
    by (auto simp: toggle_vi_mode_def send_def has_mode_def term_new_def Let_def bottommost_line_def cur_line_def
      grid_new_def cursor_default_def point_zero_def split: bind_splits)
  have "cflags c = 0" if p: "in_grid (main t) p" "cell_at (main t) p = Some c" for p c
  proof -
    obtain l k where pl: "p = \<lparr>pt_line = l, pt_column = k\<rparr>" by (cases p)
    have "l = 0 \<or> l = 1" "k = 0 \<or> k = 1"
      using p(1) t(3-5) by (auto simp: pl in_grid_def topmost_line_def bottommost_line_def)
    then show ?thesis using e p(2) by (auto simp: pl)
  qed
  then have "tidy (main t)" using t(4) by (auto simp: tidy_def has_flags_def wraps_def WIDE_CHAR_SPACER_def
    LEADING_WIDE_CHAR_SPACER_def WRAPLINE_def)
  then show ?thesis using t v by auto
qed

section \<open>Properties\<close>

lemma term_scroll_display_main: "main (term_scroll_display s t) = scroll_display s (main t)"
  by (simp add: term_scroll_display_def Let_def send_def mark_fully_damaged_def)

text \<open>The display after scrolling to a point of the grid.\<close>

lemma scroll_to_point_main:
  assumes "grid_wf (main t)" "in_grid (main t) q"
  shows "\<exists>d. main (scroll_to_point q t) = (main t)\<lparr>display_offset := d\<rparr> \<and>
    - int d \<le> pt_line q \<and> pt_line q < int (screen_lines (main t)) - int d"
proof -
  define d where "d = int (display_offset (main t))"
  define n where "n = int (screen_lines (main t))"
  have q: "- int (history_size (main t)) \<le> pt_line q" "pt_line q < n" "0 < n"
    using assms(2) grid_dims [OF assms(1)] by (auto simp: in_grid_def topmost_line_def bottommost_line_def n_def)
  consider "pt_line q < - d" | "\<not> pt_line q < - d" "pt_line q \<ge> n - d" | "\<not> pt_line q < - d" "\<not> pt_line q \<ge> n - d"
    by blast
  then show ?thesis
  proof cases
    case 1
    then have "main (scroll_to_point q t) = scroll_display (Delta (- (pt_line q + d))) (main t)"
      by (simp add: scroll_to_point_def Let_def d_def term_scroll_display_main)
    then have "main (scroll_to_point q t) = (main t)\<lparr>display_offset := nat (- pt_line q)\<rparr>"
      using 1 q by (simp add: scroll_display_def d_def min_def)
    then show ?thesis using 1 q(3) by (intro exI [of _ "nat (- pt_line q)"]) (auto simp: d_def n_def)
  next
    case 2
    then have "main (scroll_to_point q t) = scroll_display (Delta (- (pt_line q + d - n + 1))) (main t)"
      by (simp add: scroll_to_point_def Let_def d_def n_def term_scroll_display_main)
    then have m: "main (scroll_to_point q t) =
        (main t)\<lparr>display_offset := min (nat (max (n - 1 - pt_line q) 0)) (history_size (main t))\<rparr>"
      by (simp add: scroll_display_def d_def)
    let ?e = "min (nat (max (n - 1 - pt_line q) 0)) (history_size (main t))"
    have "- int ?e \<le> pt_line q \<and> pt_line q < n - int ?e" using q by linarith
    then show ?thesis using m unfolding n_def by blast
  next
    case 3
    then have "main (scroll_to_point q t) = main t" by (simp add: scroll_to_point_def Let_def d_def n_def)
    then show ?thesis using 3 by (intro exI [of _ "display_offset (main t)"]) (simp add: d_def n_def)
  qed
qed

text \<open>C22: On a terminal in its invariant with a tidy grid (at least two columns, no spacer in the first column, no mark of a wrapped line and no announced wide character in the
  bottommost line), with the display within the history and the vi cursor in the grid, no motion of vi mode panics,
  the motion to the middle of a screen of one line excepted; the cursor stays in the grid, in vi mode the display
  follows it, and the terminal stays well formed.\<close>

theorem vi_motion_safe:
  assumes "term_ok t" "tidy (main t)" "in_grid (main t) (vi_cursor t)"
    and "display_offset (main t) \<le> history_size (main t)" "m = Middle \<longrightarrow> 2 \<le> screen_lines (main t)"
  shows "\<exists>t'. term_vi_motion m t = Some t' \<and> term_ok t' \<and> in_grid (main t') (vi_cursor t') \<and>
    (has_mode VI t \<longrightarrow> - int (display_offset (main t')) \<le> pt_line (vi_cursor t') \<and>
       pt_line (vi_cursor t') < int (screen_lines (main t')) - int (display_offset (main t')))"
proof (cases "has_mode VI t")
  case True
  have wf: "grid_wf (main t)" using assms(1) by (simp add: term_ok_def screen_ok_def)
  obtain q where q: "vi_target (main t) (semantic_escape_chars (conf t)) m (vi_cursor t) = Some q" "in_grid (main t) q"
    using vi_target_ends [OF wf assms(2-5)] by (auto simp: ends_in_def)
  let ?u = "(scroll_to_point q t)\<lparr>vi_cursor := q\<rparr>"
  have m: "term_vi_motion m t = Some (recompute_vi_selection ?u)"
    using True q(1) by (simp add: term_vi_motion_def vi_cursor_motion_def)
  have v: "vi_cursor (recompute_vi_selection ?u) = q"
    by (simp add: recompute_vi_selection_def split: option.split)
  obtain d where d: "main (scroll_to_point q t) = (main t)\<lparr>display_offset := d\<rparr>"
    "- int d \<le> pt_line q" "pt_line q < int (screen_lines (main t)) - int d"
    using scroll_to_point_main [OF wf q(2)] by blast
  have "in_grid ((main t)\<lparr>display_offset := d\<rparr>) q"
    using q(2) by (simp add: in_grid_def topmost_line_def bottommost_line_def history_size_def)
  then show ?thesis using m v d assms(1) by simp
next
  case False
  then show ?thesis using assms(1,3) by (simp add: term_vi_motion_def)
qed

lemma vi_motion_safe_witness:
  "\<exists>t t'. term_new (config_default style0) 2 2 = Some t \<and> term_vi_motion SemanticRightEnd (toggle_vi_mode t) = Some t' \<and>
     in_grid (main t') (vi_cursor t')"
proof -
  obtain t where t: "term_new (config_default style0) 2 2 = Some t" "term_ok t" "tidy (main t)" "history_size (main t) = 0"
    "display_offset (main t) = 0" "screen_lines (main t) = 2" "columns (main t) = 2"
    "vi_cursor (toggle_vi_mode t) = \<lparr>pt_line = 0, pt_column = 0\<rparr>"
    using fresh_term_tidy by blast
  have m: "main (toggle_vi_mode t) = main t" by (simp add: toggle_vi_mode_def Let_def send_def)
  have "in_grid (main t) \<lparr>pt_line = 0, pt_column = 0\<rparr>"
    using t by (simp add: in_grid_def topmost_line_def bottommost_line_def)
  then show ?thesis
    using vi_motion_safe [of "toggle_vi_mode t" SemanticRightEnd] t m by auto
qed



text \<open>On a screen of one line, moving to the middle panics when no history is left above the display.\<close>

theorem vi_middle_panics:
  assumes "grid_wf g" "screen_lines g = 1" "display_offset g = history_size g"
  shows "vi_target g esc Middle p = None"
proof -
  let ?l = "- int (history_size g) - 1"
  have "row_at g ?l = None" using row_at_iff [OF assms(1), of ?l] by auto
  then have "is_space g \<lparr>pt_line = ?l, pt_column = k\<rparr> = None" for k by (simp add: is_space_def cell_at_def)
  moreover have "line_points g ?l = \<lparr>pt_line = ?l, pt_column = 0\<rparr> # tl (line_points g ?l)"
    using grid_dims(1) [OF assms(1)] by (simp add: line_points_def upt_conv_Cons)
  ultimately have "first_occupied_in_line g ?l = None"
    unfolding first_occupied_in_line_def by (metis Option.bind.simps(1) find_occupied.simps(2))
  then show ?thesis using assms(2,3) by (simp add: line_target_def)
qed

lemma vi_middle_panics_witness:
  "\<exists>g. grid_new 1 2 0 = Some g \<and> vi_target g [] Middle \<lparr>pt_line = 0, pt_column = 0\<rparr> = None"
proof -
  obtain g where g: "grid_new 1 2 0 = Some g" "grid_wf g" "screen_lines g = 1" "display_offset g = 0" "history_size g = 0"
    using grid_new_wf [of 1 2 0] by auto
  then show ?thesis using vi_middle_panics [OF g(2,3)] by simp
qed

end
