(* ===== verification/TermText.thy ===== *)
theory TermText
  imports TermSearch TermProps
begin

text \<open>
  The text of a range of cells (\<open>Term::selection_to_string\<close>, \<open>bounds_to_string\<close> and
  \<open>line_to_string\<close> of \<open>alacritty_terminal/src/term/mod.rs\<close>). \<open>None\<close> is a panic; the inner option of
  \<open>selection_to_string\<close> is the code's \<open>Option\<close>.
\<close>

section \<open>Definitions\<close>

definition shown_chars :: "cell \<Rightarrow> rstring" where
  "shown_chars c = (if wide_spacer c then [] else ch c # (case get_zerowidth c of None \<Rightarrow> [] | Some z \<Rightarrow> z))"

text \<open>
  The loop over columns; in \<open>tab_mode\<close> the blanks up to the next tab stop are left out.
\<close>

fun text_loop :: "bool list \<Rightarrow> cell list \<Rightarrow> bool \<Rightarrow> nat list \<Rightarrow> rstring option" where
  "text_loop tbs cs tab_mode [] = Some []"
| "text_loop tbs cs tab_mode (k # ks) =
     (if k \<ge> length cs \<or> tab_mode \<and> k \<ge> length tbs then None
      else let c = cs ! k
           in if tab_mode \<and> \<not> (tbs ! k \<or> ch c \<noteq> 32) then text_loop tbs cs True ks
              else map_option (\<lambda>rest. shown_chars c @ rest) (text_loop tbs cs (ch c = 9) ks))"

definition line_to_string :: "grid \<Rightarrow> bool list \<Rightarrow> int \<Rightarrow> nat \<Rightarrow> nat \<Rightarrow> bool \<Rightarrow> rstring option" where
  "line_to_string g tbs line from to include_wrapped_wide =
     do { r \<leftarrow> row_at g line;
          let n = min (line_length r) (to + 1);
          c \<leftarrow> (if from < length (cells r) then Some (cells r ! from) else None);
          from \<leftarrow> (if has_flags (cflags c) WIDE_CHAR_SPACER then checked_sub from 1 else Some from);
          text \<leftarrow> text_loop tbs (cells r) False [from..<n];
          let text = (if to \<ge> columns g - 1 \<and> (n = 0 \<or> \<not> wraps (cells r ! (n - 1))) then text @ [10] else text);
          if n = columns g \<and> n \<ge> 2 \<and> has_flags (cflags (cells r ! (n - 1))) LEADING_WIDE_CHAR_SPACER \<and>
             include_wrapped_wide
          then do { c \<leftarrow> cell_at g \<lparr>pt_line = line - 1, pt_column = 0\<rparr>; Some (text @ [ch c]) }
          else Some text }"

definition strip_newline :: "rstring \<Rightarrow> rstring" where
  "strip_newline s = (if s \<noteq> [] \<and> last s = 10 then butlast s else s)"

text \<open>One line after the other, appending what \<open>f\<close> makes of each.\<close>

definition append_lines :: "(int \<Rightarrow> rstring option) \<Rightarrow> int list \<Rightarrow> rstring option" where
  "append_lines f ls = fold_opt (\<lambda>l res. map_option (\<lambda>s. res @ s) (f l)) ls []"

definition bounds_to_string :: "grid \<Rightarrow> bool list \<Rightarrow> point \<Rightarrow> point \<Rightarrow> rstring option" where
  "bounds_to_string g tbs s e =
     map_option strip_newline
       (append_lines
          (\<lambda>l. line_to_string g tbs l (if l = pt_line s then pt_column s else 0)
                 (if l = pt_line e then pt_column e else last_column g) (l = pt_line e))
          [pt_line s..pt_line e])"

definition block_to_string :: "grid \<Rightarrow> bool list \<Rightarrow> point \<Rightarrow> point \<Rightarrow> rstring option" where
  "block_to_string g tbs s e =
     do { res \<leftarrow> append_lines
            (\<lambda>l. map_option (\<lambda>t. trim_end t @ [10])
                   (line_to_string g tbs l (pt_column s) (pt_column e) (pt_column s \<noteq> 0)))
            [pt_line s..pt_line e - 1];
          t \<leftarrow> line_to_string g tbs (pt_line e) (pt_column s) (pt_column e) True;
          Some (res @ trim_end t) }"

definition selection_to_string :: "term_state \<Rightarrow> rstring option option" where
  "selection_to_string t =
     (case sel t of
        None \<Rightarrow> Some None
      | Some sl \<Rightarrow>
          do { r \<leftarrow> to_range (main t) (semantic_escape_chars (conf t)) sl;
               case r of
                 None \<Rightarrow> Some None
               | Some r \<Rightarrow>
                   map_option Some
                     (case sel_ty sl of
                        Block \<Rightarrow> block_to_string (main t) (tabs t) (range_from r) (range_to r)
                      | Lines \<Rightarrow> map_option (\<lambda>s. s @ [10]) (bounds_to_string (main t) (tabs t) (range_from r) (range_to r))
                      | _ \<Rightarrow> bounds_to_string (main t) (tabs t) (range_from r) (range_to r)) })"

section \<open>Lines without tabs and wide characters\<close>

text \<open>No spacers, no tabs, and no mark of a wrapped line but in the last cell.\<close>

definition plain_row :: "cell row \<Rightarrow> bool" where
  "plain_row r \<longleftrightarrow>
     (\<forall>c \<in> set (butlast (cells r)). \<not> wraps c) \<and>
     (\<forall>c \<in> set (cells r). \<not> wide_spacer c \<and> \<not> has_flags (cflags c) WIDE_CHAR_SPACER \<and>
        \<not> has_flags (cflags c) LEADING_WIDE_CHAR_SPACER \<and> ch c \<noteq> 9)"

definition cell_chars :: "cell \<Rightarrow> rstring" where
  "cell_chars c = ch c # (case get_zerowidth c of None \<Rightarrow> [] | Some z \<Rightarrow> z)"

text \<open>
  What is to be copied of a line. Cells whose text is a single blank are left out at the end of the line, except
  when the line wraps, where they stand between the words of two lines. The selected ones of the cells that remain
  are copied; after a line that does not wrap comes a line break, when its last column is selected.
\<close>

definition blank_cell :: "cell \<Rightarrow> bool" where
  "blank_cell c \<longleftrightarrow> cell_chars c = [32]"

definition kept_cells :: "cell row \<Rightarrow> cell list" where
  "kept_cells r =
     (if wraps (last (cells r)) then cells r else rev (dropWhile blank_cell (rev (cells r))))"

definition plain_text :: "cell row \<Rightarrow> nat \<Rightarrow> nat \<Rightarrow> rstring" where
  "plain_text r a b =
     concat (map cell_chars (drop a (take (b + 1) (kept_cells r)))) @
     (if b + 1 \<ge> length (cells r) \<and> \<not> wraps (last (cells r)) then [10] else [])"

lemma line_length_le: "line_length r \<le> length (cells r)"
  using length_dropWhile_le [of "\<lambda>c. \<not> (ch c \<noteq> 32 \<or> map_option (\<lambda>e. zerowidth e = []) (extra c) = Some False)" "rev (cells r)"]
  by (simp add: line_length_def)

lemma blank_cell_iff:
  "blank_cell c \<longleftrightarrow> \<not> (ch c \<noteq> 32 \<or> map_option (\<lambda>e. zerowidth e = []) (extra c) = Some False)"
  by (cases "extra c") (auto simp: blank_cell_def cell_chars_def get_zerowidth_def)

lemma take_line_length: "take (line_length r) (cells r) = kept_cells r"
proof -
  define xs where "xs = dropWhile blank_cell (rev (cells r))"
  obtain ys where "rev (cells r) = ys @ xs" unfolding xs_def by (metis takeWhile_dropWhile_id)
  then have "cells r = rev xs @ rev ys" by (metis rev_append rev_rev_ident)
  then have "take (length xs) (cells r) = rev xs" by simp
  then show ?thesis
    by (simp add: line_length_def kept_cells_def wraps_def xs_def blank_cell_iff [abs_def])
qed

lemma line_break:
  assumes "plain_row r" "cells r \<noteq> []" "n = line_length r"
  shows "(n = 0 \<or> \<not> wraps (cells r ! (n - 1))) = (\<not> wraps (last (cells r)))"
proof (cases "wraps (last (cells r))")
  case True
  then have "n = length (cells r)" using assms(3) by (simp add: line_length_def wraps_def)
  then show ?thesis using True assms(2) by (simp add: last_conv_nth)
next
  case False
  have "\<not> wraps (cells r ! (n - 1))" if "n \<noteq> 0"
  proof (cases "n = length (cells r)")
    case True
    then show ?thesis using False assms(2) by (simp add: last_conv_nth)
  next
    case other: False
    then have "n - 1 < length (butlast (cells r))" using line_length_le [of r] assms(3) that by simp
    then have "cells r ! (n - 1) \<in> set (butlast (cells r))" by (metis nth_butlast nth_mem)
    then show ?thesis using assms(1) by (simp add: plain_row_def)
  qed
  then show ?thesis using False by blast
qed

lemma text_loop_plain:
  assumes "plain_row r" "\<forall>k \<in> set ks. k < length (cells r)"
  shows "text_loop tbs (cells r) False ks = Some (concat (map (\<lambda>k. cell_chars (cells r ! k)) ks))"
  using assms(2)
proof (induction ks)
  case (Cons k ks)
  then have "cells r ! k \<in> set (cells r)" by simp
  then have "\<not> wide_spacer (cells r ! k)" "ch (cells r ! k) \<noteq> 9" using assms(1) by (auto simp: plain_row_def)
  then show ?case using Cons by (simp add: shown_chars_def cell_chars_def Let_def)
qed simp

lemma line_to_string_plain:
  assumes "grid_wf g" "row_at g l = Some r" "length (cells r) = columns g" "plain_row r" "a < columns g" "b < columns g"
  shows "line_to_string g tbs l a b inc = Some (plain_text r a b)"
proof -
  define n where "n = min (line_length r) (b + 1)"
  have n: "n \<le> length (cells r)" using line_length_le [of r] by (simp add: n_def)
  have pl: "\<not> has_flags (cflags (cells r ! k)) WIDE_CHAR_SPACER" "\<not> has_flags (cflags (cells r ! k)) LEADING_WIDE_CHAR_SPACER"
    if "k < length (cells r)" for k
    using assms(4) nth_mem [OF that] by (auto simp: plain_row_def)
  have upt: "map (\<lambda>k. f (xs ! k)) [a..<m] = map f (drop a (take m xs))" if "m \<le> length xs" for f :: "cell \<Rightarrow> rstring" and xs m
    using that by (induction m) (auto simp: take_Suc_conv_app_nth)
  have loop: "text_loop tbs (cells r) False [a..<n] = Some (concat (map cell_chars (drop a (take n (cells r)))))"
  proof -
    have "\<forall>k \<in> set [a..<n]. k < length (cells r)" using n by auto
    from text_loop_plain [OF assms(4) this] show ?thesis by (simp only: upt [OF n])
  qed
  have lead: "\<not> (n = columns g \<and> n \<ge> 2 \<and> has_flags (cflags (cells r ! (n - 1))) LEADING_WIDE_CHAR_SPACER \<and> inc)"
    using pl(2) [of "n - 1"] n assms(3) by auto
  have last: "(b \<ge> columns g - 1) = (b + 1 \<ge> length (cells r))" using assms(3,5) by auto
  have brk: "(b + 1 \<ge> length (cells r) \<and> (n = 0 \<or> \<not> wraps (cells r ! (n - 1)))) =
      (b + 1 \<ge> length (cells r) \<and> \<not> wraps (last (cells r)))"
  proof (cases "b + 1 \<ge> length (cells r)")
    case True
    then have "n = line_length r" using line_length_le [of r] by (simp add: n_def)
    then show ?thesis using line_break [OF assms(4)] assms(3,5) by (cases "cells r") auto
  qed simp
  have kept: "take (b + 1) (kept_cells r) = take n (cells r)"
    by (simp add: n_def min.commute flip: take_line_length)
  show ?thesis
    unfolding line_to_string_def plain_text_def Let_def assms(2) Option.bind.simps last n_def [symmetric] if_not_P [OF lead]
      brk kept
    using pl(1) [of a] assms(3,5) loop by simp
qed

lemma append_lines_Cons:
  "append_lines f (l # ls) = do { a \<leftarrow> f l; b \<leftarrow> append_lines f ls; Some (a @ b) }"
proof -
  have "fold_opt (\<lambda>l res. map_option (\<lambda>s. res @ s) (f l)) ls acc = map_option (\<lambda>s. acc @ s) (append_lines f ls)" for acc
  proof (induction ls arbitrary: acc)
    case (Cons k ks)
    show ?case
    proof (cases "f k")
      case (Some a)
      then show ?thesis using Cons [of "acc @ a"] Cons [of a] by (simp add: append_lines_def option.map_comp comp_def)
    qed (simp add: append_lines_def)
  qed (simp add: append_lines_def)
  note fold = this
  show ?thesis
  proof (cases "f l")
    case (Some a)
    have "append_lines f (l # ls) = fold_opt (\<lambda>l res. map_option (\<lambda>s. res @ s) (f l)) ls a"
      using Some by (simp add: append_lines_def)
    then show ?thesis using Some fold [of a] by (cases "append_lines f ls") simp_all
  qed (simp add: append_lines_def)
qed

lemma append_lines_Nil [simp]: "append_lines f [] = Some []"
  by (simp add: append_lines_def)

lemma append_lines_Some: "\<forall>l \<in> set ls. f l = Some (h l) \<Longrightarrow> append_lines f ls = Some (concat (map h ls))"
  by (induction ls) (simp_all add: append_lines_Cons)

lemma append_lines_None: "l \<in> set ls \<Longrightarrow> f l = None \<Longrightarrow> append_lines f ls = None"
  by (induction ls) (auto simp: append_lines_Cons split: bind_split)

section \<open>Samples\<close>

lemma fresh_rows:
  "map_option (\<lambda>g. map (\<lambda>l. map_option cells (row_at g l)) [0, 1]) (grid_new 2 2 0) =
     Some [Some [cell_default, cell_default], Some [cell_default, cell_default]]"
  by code_simp

lemma cell_default_plain: "cells r = [cell_default, cell_default] \<Longrightarrow> plain_row r"
  by (simp add: plain_row_def cell_default_def wide_spacer_def any_flags_def has_flags_def WIDE_CHAR_SPACER_def
    LEADING_WIDE_CHAR_SPACER_def wraps_def WRAPLINE_def)

section \<open>Properties\<close>

text \<open>C21: Copying a range of a grid of rows without tabs, wide characters and wrap marks inside a line never panics.
  The text is that of the selected cells of each line: of a line that wraps all of them, its trailing blanks
  included, and no line break; of any other line those up to its last cell that is not blank, and a line break when
  the selection reaches its last column. A line break at the very end of the text is dropped.\<close>

theorem copied_text_plain:
  assumes "grid_wf g" "in_grid g s" "in_grid g e"
    and "\<forall>l r. row_at g l = Some r \<longrightarrow> plain_row r"
  defines "row \<equiv> \<lambda>l. the (row_at g l)"
  shows "bounds_to_string g tbs s e =
    Some (strip_newline (concat (map (\<lambda>l. plain_text (row l) (if l = pt_line s then pt_column s else 0)
            (if l = pt_line e then pt_column e else last_column g)) [pt_line s..pt_line e])))"
proof -
  have "line_to_string g tbs l (if l = pt_line s then pt_column s else 0)
        (if l = pt_line e then pt_column e else last_column g) (l = pt_line e) =
      Some (plain_text (row l) (if l = pt_line s then pt_column s else 0) (if l = pt_line e then pt_column e else last_column g))"
    if l: "l \<in> set [pt_line s..pt_line e]" for l
  proof -
    obtain r where r: "row_at g l = Some r"
      using row_at_iff [OF assms(1), of l] l assms(2,3) by (auto simp: in_grid_def topmost_line_def bottommost_line_def)
    have c: "0 < columns g" using grid_dims [OF assms(1)] by simp
    show ?thesis
      using line_to_string_plain [OF assms(1) r row_at_ok(2) [OF assms(1) r]] assms(2-4) r c
      by (simp add: row_def in_grid_def last_column_def)
  qed
  then show ?thesis
    unfolding bounds_to_string_def by (subst append_lines_Some) simp_all
qed

lemma copied_text_plain_witness:
  "\<exists>g s. grid_new 2 2 0 = Some g \<and>
     bounds_to_string g [] \<lparr>pt_line = 0, pt_column = 1\<rparr> \<lparr>pt_line = 1, pt_column = 0\<rparr> = Some (strip_newline s)"
proof -
  obtain g where g: "grid_new 2 2 0 = Some g" "grid_wf g" "screen_lines g = 2" "columns g = 2" "history_size g = 0"
    using grid_new_wf [of 2 2 0] by auto
  have "plain_row r" if "row_at g l = Some r" for l r
  proof -
    have "l = 0 \<or> l = 1" using row_at_iff [OF g(2), of l] that g(3,5) by auto
    then have "cells r = [cell_default, cell_default]" using fresh_rows g(1) that by auto
    then show ?thesis by (rule cell_default_plain)
  qed
  moreover have "in_grid g \<lparr>pt_line = 0, pt_column = 1\<rparr>" "in_grid g \<lparr>pt_line = 1, pt_column = 0\<rparr>"
    using g by (simp_all add: in_grid_def topmost_line_def bottommost_line_def)
  ultimately show ?thesis using copied_text_plain [OF g(2)] g(1) by blast
qed

text \<open>A line whose first cell is the second half of a wide character (as after deleting its first half)
  cannot be copied from its start: the code panics.\<close>

theorem half_wide_char_panics:
  assumes "row_at g l = Some r" "cells r \<noteq> []" "has_flags (cflags (cells r ! 0)) WIDE_CHAR_SPACER"
  shows "line_to_string g tbs l 0 k inc = None"
  using assms by (simp add: line_to_string_def checked_sub_def)

lemma half_wide_char_panics_witness:
  "line_to_string (the (Option.bind (grid_new 1 2 0)
     (set_cell \<lparr>pt_line = 0, pt_column = 0\<rparr> (cell_default\<lparr>cflags := WIDE_CHAR_SPACER\<rparr>)))) [True, False] 0 0 1 True = None"
proof -
  let ?g = "Option.bind (grid_new 1 2 0) (set_cell \<lparr>pt_line = 0, pt_column = 0\<rparr> (cell_default\<lparr>cflags := WIDE_CHAR_SPACER\<rparr>))"
  have e: "map_option (\<lambda>g. map_option (\<lambda>r. (cells r \<noteq> [], has_flags (cflags (cells r ! 0)) WIDE_CHAR_SPACER)) (row_at g 0)) ?g =
      Some (Some (True, True))"
    by code_simp
  obtain g where g: "?g = Some g" using e by (cases ?g) auto
  obtain r where r: "row_at g 0 = Some r" "cells r \<noteq> []" "has_flags (cflags (cells r ! 0)) WIDE_CHAR_SPACER"
    using e unfolding g by auto
  show ?thesis unfolding g option.sel by (rule half_wide_char_panics [OF r])
qed

text \<open>Copying the last column of a full topmost line that announces a wide character on the line below
  panics: the code looks for that character on the line above.\<close>

theorem leading_spacer_panics:
  assumes "grid_wf g" "2 \<le> columns g" "row_at g (topmost_line g) = Some r" "line_length r = columns g"
    and "has_flags (cflags (cells r ! (columns g - 1))) LEADING_WIDE_CHAR_SPACER"
  shows "line_to_string g tbs (topmost_line g) k (columns g - 1) True = None"
proof -
  have n: "min (line_length r) (columns g - 1 + 1) = columns g" using assms(2,4) by simp
  have "row_at g (topmost_line g - 1) = None"
    using row_at_iff [OF assms(1), of "topmost_line g - 1"] by (auto simp: topmost_line_def)
  then have "cell_at g \<lparr>pt_line = topmost_line g - 1, pt_column = 0\<rparr> = None" by (simp add: cell_at_def)
  then show ?thesis
    unfolding line_to_string_def assms(3) Option.bind.simps Let_def n
    using assms(2,5) by (auto split: bind_split)
qed

lemma leading_spacer_panics_witness:
  "\<exists>g h. grid_new 1 2 0 = Some g \<and>
     set_cell \<lparr>pt_line = 0, pt_column = 1\<rparr> (cell_default\<lparr>cflags := WRAPLINE OR LEADING_WIDE_CHAR_SPACER\<rparr>) g = Some h \<and>
     line_to_string h [True, False] 0 0 1 True = None"
proof -
  let ?p = "\<lparr>pt_line = 0, pt_column = 1\<rparr>" and ?c = "cell_default\<lparr>cflags := WRAPLINE OR LEADING_WIDE_CHAR_SPACER\<rparr>"
  obtain g where g: "grid_new 1 2 0 = Some g" "grid_wf g" "screen_lines g = 1" "columns g = 2"
    using grid_new_wf [of 1 2 0] by auto
  obtain h where h: "set_cell ?p ?c g = Some h" "grid_wf h" "cell_at h ?p = Some ?c"
    using set_cell_wf [OF g(2), of ?p ?c] has_line_gl [OF grid_wf_base [OF g(2)], of 0] g(3,4) by auto
  have e: "map_option (\<lambda>g. (columns g, history_size g, map_option (\<lambda>r. (line_length r,
      has_flags (cflags (cells r ! 1)) LEADING_WIDE_CHAR_SPACER)) (row_at g 0))) (Option.bind (grid_new 1 2 0) (set_cell ?p ?c)) =
      Some (2, 0, Some (2, True))"
    by code_simp
  then have d: "columns h = 2" "topmost_line h = 0" using g(1) h(1) by (simp_all add: topmost_line_def)
  obtain r where r: "row_at h 0 = Some r" "line_length r = 2" "has_flags (cflags (cells r ! 1)) LEADING_WIDE_CHAR_SPACER"
    using e g(1) h(1) by auto
  from leading_spacer_panics [OF h(2), of r "[True, False]" 0] show ?thesis using g(1) h(1) d r by auto
qed

text \<open>A block selection from the right half of a cell in the last column to the left half of a cell below
  it starts behind the last column, and copying it panics.\<close>

theorem block_in_last_column_panics:
  assumes "term_ok t" "sel t = Some sl" "sel_ty sl = Block"
    and "sel_start sl = \<lparr>a_point = \<lparr>pt_line = k, pt_column = last_column (main t)\<rparr>, a_side = Rightward\<rparr>"
    and "sel_end sl = \<lparr>a_point = \<lparr>pt_line = l, pt_column = last_column (main t)\<rparr>, a_side = Leftward\<rparr>"
    and "topmost_line (main t) \<le> k" "k < l" "l \<le> bottommost_line (main t)"
  shows "selection_to_string t = None"
proof -
  let ?g = "main t" and ?c = "last_column (main t)"
  have wf: "grid_wf ?g" using assms(1) by (simp add: term_ok_def screen_ok_def)
  have c: "0 < columns ?g" "columns ?g = ?c + 1" using grid_dims [OF wf] by (simp_all add: last_column_def)
  let ?s = "\<lparr>pt_line = k, pt_column = ?c\<rparr>" and ?e = "\<lparr>pt_line = l, pt_column = ?c\<rparr>"
  have i: "in_grid ?g ?s" "in_grid ?g ?e" using assms(6-8) c by (simp_all add: in_grid_def)
  have ord: "ordered sl = (sel_start sl, sel_end sl)"
    using assms(4,5,7) by (simp add: ordered_def swapped_def point_less_def)
  have ne: "\<not> selection_is_empty sl" using assms(3-5) by (simp add: selection_is_empty_def)
  have "to_range ?g esc sl = Some (range_block sl (sel_start sl) (sel_end sl))" for esc
    using assms(3-8) clamp_in_grid [OF i(1)] clamp_in_grid [OF i(2)] by (simp add: to_range_def ord Let_def)
  moreover obtain r where r: "range_block sl (sel_start sl) (sel_end sl) = Some r" "pt_line (range_from r) = k"
      "pt_column (range_from r) = columns ?g" "pt_line (range_to r) = l"
    using ne assms(4,5,7) c by (auto simp: range_block_def Let_def)
  moreover have "block_to_string ?g (tabs t) (range_from r) (range_to r) = None"
  proof -
    obtain x where "row_at ?g k = Some x" using row_at_iff [OF wf, of k] assms(6-8)
      by (auto simp: topmost_line_def bottommost_line_def)
    then have "line_to_string ?g (tabs t) k (columns ?g) b inc = None" for b inc
      using row_at_ok(2) [OF wf] by (simp add: line_to_string_def Let_def)
    moreover have "k \<in> set [k..l - 1]" using assms(7) by simp
    ultimately show ?thesis using r by (simp add: block_to_string_def append_lines_None [of k])
  qed
  ultimately show ?thesis using assms(2,3) by (simp add: selection_to_string_def)
qed

lemma block_in_last_column_panics_witness:
  "\<exists>t. term_new (config_default style0) 2 2 = Some t \<and>
     selection_to_string (t\<lparr>sel := Some \<lparr>sel_ty = Block,
       sel_start = \<lparr>a_point = \<lparr>pt_line = 0, pt_column = 1\<rparr>, a_side = Rightward\<rparr>,
       sel_end = \<lparr>a_point = \<lparr>pt_line = 1, pt_column = 1\<rparr>, a_side = Leftward\<rparr>\<rparr>\<rparr>) = None"
proof -
  obtain t where t: "term_new (config_default style0) 2 2 = Some t" "term_ok t" "screen_lines (main t) = 2"
    "columns (main t) = 2" "history_size (main t) = 0"
    using term_new_ok [of 2 2 "config_default style0"] by auto
  let ?s = "\<lparr>sel_ty = Block,
       sel_start = \<lparr>a_point = \<lparr>pt_line = 0, pt_column = 1\<rparr>, a_side = Rightward\<rparr>,
       sel_end = \<lparr>a_point = \<lparr>pt_line = 1, pt_column = 1\<rparr>, a_side = Leftward\<rparr>\<rparr>"
  have "selection_to_string (t\<lparr>sel := Some ?s\<rparr>) = None"
    by (rule block_in_last_column_panics [of _ ?s 0 1])
      (use t in \<open>simp_all add: last_column_def topmost_line_def bottommost_line_def\<close>)
  then show ?thesis using t(1) by blast
qed

end
