(* ===== verification/GridReflow.thy ===== *)
theory GridReflow
  imports TermIndex
begin

text \<open>
  Resizing the grid in columns (\<open>alacritty_terminal/src/grid/resize.rs\<close>): \<open>grow_columns\<close> pulls
  the cells of wrapped lines up into the lines before them, \<open>shrink_columns\<close> pushes the cells that no
  longer fit down. Both work on the vector of all rows, bottom line first, from its end; a vector that
  is only pushed to is kept newest row first. \<open>None\<close> is a panic, and for \<open>shrink_row\<close> also a loop that
  does not end.

  The reference for both is the text of the rows with the wrapped lines joined (\<open>logical\<close>).
\<close>

section \<open>Growing\<close>

definition map_flags :: "(flags \<Rightarrow> flags) \<Rightarrow> cell \<Rightarrow> cell" where
  "map_flags f c = c\<lparr>cflags := f (cflags c)\<rparr>"

definition add_wrap :: "cell \<Rightarrow> cell" where
  "add_wrap = map_flags (\<lambda>f. f OR WRAPLINE)"

definition drop_wrap :: "cell \<Rightarrow> cell" where
  "drop_wrap = map_flags (\<lambda>f. remove_flags f WRAPLINE)"

definition leading_spacer :: cell where
  "leading_spacer = map_flags (\<lambda>f. f OR LEADING_WIDE_CHAR_SPACER) cell_default"

definition wrap_flag :: "cell \<Rightarrow> bool" where
  "wrap_flag c \<longleftrightarrow> has_flags (cflags c) WRAPLINE"

definition row_wraps :: "cell row \<Rightarrow> bool" where
  "row_wraps r \<longleftrightarrow> cells r \<noteq> [] \<and> wrap_flag (last (cells r))"

text \<open>The cursor in the grid: its position as the code updates it.\<close>

definition cursor_line :: "grid \<Rightarrow> int" where
  "cursor_line g = pt_line (point (cursor g))"

definition cursor_column :: "grid \<Rightarrow> nat" where
  "cursor_column g = pt_column (point (cursor g))"

definition set_cursor_line :: "int \<Rightarrow> grid \<Rightarrow> grid" where
  "set_cursor_line l g = g\<lparr>cursor := cursor g\<lparr>point := point (cursor g)\<lparr>pt_line := l\<rparr>\<rparr>\<rparr>"

definition set_cursor_column :: "nat \<Rightarrow> grid \<Rightarrow> grid" where
  "set_cursor_column c g = g\<lparr>cursor := cursor g\<lparr>point := point (cursor g)\<lparr>pt_column := c\<rparr>\<rparr>\<rparr>"

definition set_needs_wrap :: "bool \<Rightarrow> grid \<Rightarrow> grid" where
  "set_needs_wrap b g = g\<lparr>cursor := cursor g\<lparr>input_needs_wrap := b\<rparr>\<rparr>"

text \<open>\<open>self.lines - self.cursor.point.line.0 as usize - 1\<close>: a negative line is cast to a huge one.\<close>

definition cursor_buffer_line :: "grid \<Rightarrow> nat option" where
  "cursor_buffer_line g =
     (if 0 \<le> cursor_line g then checked_sub (screen_lines g) (nat (cursor_line g) + 1) else None)"

definition leave_wrap_column :: "bool \<Rightarrow> grid \<Rightarrow> grid" where
  "leave_wrap_column reflow g =
     (if input_needs_wrap (cursor g) \<and> reflow
      then set_cursor_column (cursor_column g + 1) (set_needs_wrap False g) else g)"

definition should_reflow :: "bool \<Rightarrow> nat \<Rightarrow> cell row \<Rightarrow> bool" where
  "should_reflow reflow cols r \<longleftrightarrow>
     reflow \<and> 0 < length (cells r) \<and> length (cells r) < cols \<and> wrap_flag (last (cells r))"

text \<open>The row before: without its wrap flag and, in front of a wide character, without its last cell.\<close>

definition open_row :: "cell row \<Rightarrow> cell row" where
  "open_row r =
     (let r = row_map_last drop_wrap r;
          last_len = length (cells r)
      in if last_len \<ge> 1 \<and> has_flags (cflags (cells r ! (last_len - 1))) LEADING_WIDE_CHAR_SPACER
         then fst (row_shrink cell_is_empty (last_len - 1) r) else r)"

text \<open>What of a row fits into the \<open>num_wrapped\<close> columns left: the rest of the row, the cells to append, and the
  number of columns the cursor moves.\<close>

definition pull_cells :: "nat \<Rightarrow> cell row \<Rightarrow> (cell row \<times> cell list \<times> nat) option" where
  "pull_cells num_wrapped r =
     do { let n = min (length (cells r)) num_wrapped;
          k \<leftarrow> checked_sub n 1;
          if has_flags (cflags (cells r ! k)) WIDE_CHAR
          then do { num_wrapped \<leftarrow> checked_sub num_wrapped 1;
                    (r, cs) \<leftarrow> row_front_split_off k r;
                    Some (r, cs @ [leading_spacer], num_wrapped) }
          else do { (r, cs) \<leftarrow> row_front_split_off n r;
                    Some (r, cs, num_wrapped) } }"

text \<open>The cursor on a row whose first cells were pulled up: the grid and the number of lines it moves up.\<close>

definition pull_cursor :: "nat \<Rightarrow> bool \<Rightarrow> grid \<Rightarrow> grid \<times> int" where
  "pull_cursor num_wrapped clear g =
     (let target = point_sub g Cursor_Boundary num_wrapped (point (cursor g));
          stuck = (pt_column target = 0 \<and> clear);
          target = (if stuck then point_sub g Cursor_Boundary 1 target else target);
          g = set_cursor_column (pt_column target) (if stuck then set_needs_wrap True g else g)
      in (g, cursor_line g - pt_line target))"

text \<open>One row of the loop: the rows built so far, the grid and \<open>cursor_line_delta\<close>.\<close>

type_synonym growing = "cell row list \<times> grid \<times> nat"

definition grow_step :: "bool \<Rightarrow> nat \<Rightarrow> nat \<times> cell row \<Rightarrow> growing \<Rightarrow> growing option" where
  "grow_step reflow cols =
     (\<lambda>(i, row) (built, g, delta).
        if built = [] \<or> \<not> should_reflow reflow cols (hd built) then Some (row # built, g, delta)
        else do {
          let last_row = open_row (hd built);
          num_wrapped \<leftarrow> checked_sub cols (length (cells last_row));
          (row, cs, num_wrapped) \<leftarrow> pull_cells num_wrapped row;
          let last_row = row_append cs last_row;
          let wrapped_row = row_map_last add_wrap last_row;
          n \<leftarrow> cursor_buffer_line g;
          if i = n \<and> reflow then
            (let (g, line_delta) = pull_cursor num_wrapped (row_is_clear cell_is_empty row) g
             in if line_delta \<noteq> 0 \<and> row_is_clear cell_is_empty row then Some (last_row # tl built, g, delta)
                else Some (row # wrapped_row # tl built, g, delta + nat line_delta))
          else if row_is_clear cell_is_empty row then
            (let g = (if i < display_offset g then g\<lparr>display_offset := display_offset g - 1\<rparr> else g);
                 g = (if i < n then set_cursor_line (cursor_line g + 1) g else g)
             in Some (last_row # tl built, g, delta))
          else Some (row # wrapped_row # tl built, g, delta) })"

text \<open>After the loop: fill up the viewport, drop lines at the bottom for those the cursor has moved up, and fill
  up the rows.\<close>

definition finish_grow :: "nat \<Rightarrow> growing \<Rightarrow> grid option" where
  "finish_grow cols =
     (\<lambda>(built, g, delta).
        do { let missing = screen_lines g - length built;
             let g = (if 0 < missing then set_cursor_line (max (cursor_line g - int missing) 0) g else g);
             let built = replicate missing (row_new cell_default cols) @ built;
             (built, g) \<leftarrow>
               (if delta = 0 then Some (built, g)
                else do {
                  n \<leftarrow> cursor_buffer_line g;
                  let available = min n (length built - screen_lines g);
                  let overflow = delta - available;
                  keep \<leftarrow> checked_sub (length built + overflow) delta;
                  Some (drop (length built - keep) built,
                        set_cursor_line (max (cursor_line g - int overflow) 0) g) });
             r \<leftarrow> replace_inner (map (row_grow cell_default cols) built) (raw g);
             let g = g\<lparr>raw := r\<rparr>;
             Some (g\<lparr>display_offset := min (display_offset g) (history_size g)\<rparr>) })"

definition grow_columns :: "bool \<Rightarrow> nat \<Rightarrow> grid \<Rightarrow> grid option" where
  "grow_columns reflow cols g =
     do { let g = leave_wrap_column reflow (g\<lparr>columns := cols\<rparr>);
          let (rows, r) = take_all (raw g);
          st \<leftarrow> fold_opt (grow_step reflow cols) (rev (enumerate 0 rows)) ([], g\<lparr>raw := r\<rparr>, 0);
          finish_grow cols st }"

section \<open>Shrinking\<close>

text \<open>The cells cut off a row; \<open>None\<close> inside: the row fits.\<close>

definition cut_row :: "bool \<Rightarrow> nat \<Rightarrow> nat \<Rightarrow> grid \<Rightarrow> cell row \<Rightarrow> (cell row \<times> cell list option) option" where
  "cut_row reflow cols i g row =
     (let (row, cut) = row_shrink cell_is_empty cols row
      in if cut \<noteq> None \<and> reflow then Some (row, cut)
         else do { n \<leftarrow> cursor_buffer_line g;
                   Some (row, if reflow \<and> i = n \<and> cursor_column g > cols then Some [] else None) })"

text \<open>A wide character in the last column moves on, a spacer takes its place.\<close>

definition push_wide :: "nat \<Rightarrow> cell row \<Rightarrow> cell list \<Rightarrow> (cell row \<times> cell list) option" where
  "push_wide cols row wrapped =
     (if length (cells row) \<ge> cols
      then do { k \<leftarrow> checked_sub cols 1;
                if k < length (cells row) then
                  if has_flags (cflags (cells row ! k)) WIDE_CHAR
                  then do { row' \<leftarrow> row_set k leading_spacer row; Some (row', (cells row ! k) # wrapped) }
                  else Some (row, wrapped)
                else None }
      else Some (row, wrapped))"

definition shrink_cursor :: "nat \<Rightarrow> nat \<Rightarrow> grid \<Rightarrow> grid option" where
  "shrink_cursor cols i g =
     do { n \<leftarrow> cursor_buffer_line g;
          let g = (if (i = n \<and> cursor_column g < cols) \<or> i < n
                   then set_cursor_line (max (cursor_line g - 1) 0) g else g);
          Some (if i = n \<and> cursor_column g \<ge> cols then set_cursor_column (cursor_column g - cols) g else g) }"

text \<open>The body of the inner loop on one row: it breaks with the rows pushed, what is left for the next row and
  the grid, or goes on with the row, the rows pushed and the grid.\<close>

type_synonym shrinking = "cell row list \<times> cell list option \<times> grid"

definition shrink_once ::
  "bool \<Rightarrow> nat \<Rightarrow> nat \<Rightarrow> cell row \<Rightarrow> cell row list \<Rightarrow> grid \<Rightarrow> (shrinking + cell row \<times> cell row list \<times> grid) option" where
  "shrink_once reflow cols i row new_raw g =
     do { (row, cut) \<leftarrow> cut_row reflow cols i g row;
          case cut of
            None \<Rightarrow> Some (Inl (row # new_raw, None, g))
          | Some wrapped \<Rightarrow> do {
              (row, wrapped) \<leftarrow> push_wide cols row wrapped;
              let spacer = (wrapped \<noteq> [] \<and> has_flags (cflags (last wrapped)) LEADING_WIDE_CHAR_SPACER);
              if spacer \<and> length wrapped = 1
              then do { k \<leftarrow> checked_sub cols 1;
                        row \<leftarrow> row_update k add_wrap row;
                        Some (Inl (row # new_raw, None, g)) }
              else do {
                let wrapped = (if spacer then butlast (butlast wrapped) @ [add_wrap (last (butlast wrapped))] else wrapped);
                let new_raw = row_map_last add_wrap row # new_raw;
                if wrapped \<noteq> [] \<and> wrap_flag (last wrapped) \<and> i \<ge> 1 \<and> length wrapped < cols
                then Some (Inl (new_raw, Some (butlast wrapped @ [drop_wrap (last wrapped)]), g))
                else do {
                  g \<leftarrow> shrink_cursor cols i g;
                  let g = (if i < display_offset g then g\<lparr>display_offset := display_offset g + 1\<rparr> else g);
                  let row = row_from_vec (wrapped @ replicate (cols - length wrapped) cell_default) (length wrapped);
                  Some (Inr (row, new_raw, g)) } } } }"

partial_function (option) shrink_row ::
  "bool \<Rightarrow> nat \<Rightarrow> nat \<Rightarrow> cell row \<Rightarrow> cell row list \<Rightarrow> grid \<Rightarrow> shrinking option" where
  "shrink_row reflow cols i row new_raw g =
     do { x \<leftarrow> shrink_once reflow cols i row new_raw g;
          case x of
            Inl result \<Rightarrow> Some result
          | Inr (row, new_raw, g) \<Rightarrow> shrink_row reflow cols i row new_raw g }"

declare shrink_row.simps [code]

definition shrink_step :: "bool \<Rightarrow> nat \<Rightarrow> nat \<times> cell row \<Rightarrow> shrinking \<Rightarrow> shrinking option" where
  "shrink_step reflow cols =
     (\<lambda>(i, row) (new_raw, buffered, g).
        do { (row, g) \<leftarrow>
               (case buffered of
                  None \<Rightarrow> Some (row, g)
                | Some b \<Rightarrow> do {
                    n \<leftarrow> cursor_buffer_line g;
                    Some (row_append_front b row,
                          if i = n then set_cursor_column (cursor_column g + length b) g else g) });
             shrink_row reflow cols i row new_raw g })"

definition reclaim :: "bool \<Rightarrow> cell row list \<Rightarrow> grid \<Rightarrow> (cell row list \<times> grid) option" where
  "reclaim reflow rows g =
     (if reflow \<and> length rows > screen_lines g
      then do { n \<leftarrow> cursor_buffer_line g;
                let reclaimed = min n (length rows - screen_lines g);
                Some (if reclaimed \<noteq> 0
                      then (drop reclaimed rows,
                            move_cursors (\<lambda>l. l + int reclaimed)
                              (\<lambda>l. min (l + int reclaimed) (int (screen_lines g) - 1)) g)
                      else (rows, g)) }
      else Some (rows, g))"

definition clamp_cursor :: "bool \<Rightarrow> nat \<Rightarrow> grid \<Rightarrow> grid option" where
  "clamp_cursor reflow cols g =
     (if \<not> reflow then Some (set_cursor_column (min (cursor_column g) (cols - 1)) g)
      else do {
        unwrapped \<leftarrow> (if cursor_column g = cols
                      then do { c \<leftarrow> cell_at g \<lparr>pt_line = cursor_line g, pt_column = cols - 1\<rparr>;
                                Some (\<not> wrap_flag c) }
                      else Some False);
        Some (if unwrapped then set_cursor_column (cursor_column g - 1) (set_needs_wrap True g)
              else g\<lparr>cursor := cursor g\<lparr>point := point_clamp g Cursor_Boundary (point (cursor g))\<rparr>\<rparr>) })"

text \<open>After the loop of \<open>shrink_columns\<close>.\<close>

definition finish_shrink :: "bool \<Rightarrow> nat \<Rightarrow> shrinking \<Rightarrow> grid option" where
  "finish_shrink reflow cols =
     (\<lambda>(new_raw, _, g).
        do { (rows, g) \<leftarrow> reclaim reflow new_raw g;
             r \<leftarrow> replace_inner (take (max_scroll_limit g + screen_lines g) rows) (raw g);
             let g = g\<lparr>raw := r\<rparr>;
             let g = g\<lparr>display_offset := min (display_offset g) (history_size g)\<rparr>;
             g \<leftarrow> clamp_cursor reflow cols g;
             k \<leftarrow> checked_sub cols 1;
             Some (g\<lparr>saved_cursor := saved_cursor g\<lparr>point :=
                    point (saved_cursor g)\<lparr>pt_column := min (pt_column (point (saved_cursor g))) k\<rparr>\<rparr>\<rparr>) })"

definition shrink_columns :: "bool \<Rightarrow> nat \<Rightarrow> grid \<Rightarrow> grid option" where
  "shrink_columns reflow cols g =
     do { let g = leave_wrap_column reflow (g\<lparr>columns := cols\<rparr>);
          let (rows, r) = take_all (raw g);
          st \<leftarrow> fold_opt (shrink_step reflow cols) (rev (enumerate 0 rows)) ([], None, g\<lparr>raw := r\<rparr>);
          finish_shrink reflow cols st }"

section \<open>Resizing\<close>

definition set_template :: "cell \<Rightarrow> grid \<Rightarrow> grid" where
  "set_template c g = g\<lparr>cursor := cursor g\<lparr>template := c\<rparr>\<rparr>"

definition grid_resize :: "bool \<Rightarrow> nat \<Rightarrow> nat \<Rightarrow> grid \<Rightarrow> grid option" where
  "grid_resize reflow lines cols g =
     do { let tmpl = template (cursor g);
          let g = set_template cell_default g;
          g \<leftarrow> (if screen_lines g < lines then grow_lines lines g
                else if screen_lines g > lines then shrink_screen_lines lines g else Some g);
          g \<leftarrow> (if columns g < cols then grow_columns reflow cols g
                else if columns g > cols then shrink_columns reflow cols g else Some g);
          Some (set_template tmpl g) }"

section \<open>Lemmas\<close>

lemma ends_in_iff: "ends_in m P \<longleftrightarrow> (\<exists>x. m = Some x \<and> P x)"
  by (cases m) simp_all

lemma fold_rows:
  assumes "\<And>k st. k < length rows \<Longrightarrow> I (Suc k) st \<Longrightarrow> ends_in (f (k, rows ! k) st) (I k)" "I (length rows) st"
  shows "ends_in (fold_opt f (rev (enumerate 0 rows)) st) (I 0)"
proof -
  have "k \<le> length rows \<Longrightarrow> I k st \<Longrightarrow> ends_in (fold_opt f (rev (enumerate 0 (take k rows))) st) (I 0)" for k st
  proof (induction k arbitrary: st)
    case (Suc k)
    have "enumerate 0 (take (Suc k) rows) = enumerate 0 (take k rows) @ [(k, rows ! k)]"
      using Suc.prems(1) by (simp add: take_Suc_conv_app_nth enumerate_append_eq)
    moreover obtain st' where "f (k, rows ! k) st = Some st'" "I k st'"
      using assms(1) [of k st] Suc.prems by (auto simp: ends_in_iff)
    ultimately show ?case using Suc.IH [of st'] Suc.prems(1) by simp
  qed simp
  from this [of "length rows" st] assms(2) show ?thesis by simp
qed

text \<open>What the loops change of the grid: the cursor and the display offset.\<close>

definition moves :: "grid \<Rightarrow> grid \<Rightarrow> bool" where
  "moves g g' \<longleftrightarrow> g' = g\<lparr>cursor := cursor g', display_offset := display_offset g'\<rparr>"

lemma movesD:
  assumes "moves g g'"
  shows "columns g' = columns g" "screen_lines g' = screen_lines g" "raw g' = raw g"
    "max_scroll_limit g' = max_scroll_limit g" "history_size g' = history_size g" "saved_cursor g' = saved_cursor g"
    "stable_row_min g' = stable_row_min g" "stable_row_max g' = stable_row_max g"
  by (subst assms [unfolded moves_def], simp add: history_size_def)+

lemma moves_simps [simp]:
  "moves g g" "moves g (g'\<lparr>display_offset := n\<rparr>) = moves g g'" "moves g (set_cursor_line l g') = moves g g'"
  "moves g (set_cursor_column k g') = moves g g'" "moves g (set_needs_wrap b g') = moves g g'"
  "moves g (leave_wrap_column b g') = moves g g'" "moves g (g'\<lparr>cursor := c\<rparr>) = moves g g'"
proof -
  have c: "moves g (g'\<lparr>cursor := c\<rparr>) = moves g g'" for c
  proof -
    have "g'\<lparr>cursor := c\<rparr> = g\<lparr>cursor := c, display_offset := display_offset g'\<rparr> \<longleftrightarrow>
        g' = g\<lparr>cursor := cursor g', display_offset := display_offset g'\<rparr>"
      by (cases g, cases g') simp
    then show ?thesis by (simp add: moves_def)
  qed
  show "moves g (g'\<lparr>cursor := c\<rparr>) = moves g g'" by (rule c)
  show "moves g g" by (simp add: moves_def)
  show "moves g (g'\<lparr>display_offset := n\<rparr>) = moves g g'" by (cases g, cases g') (simp add: moves_def)
  show "moves g (set_cursor_line l g') = moves g g'" "moves g (set_cursor_column k g') = moves g g'"
    "moves g (set_needs_wrap b g') = moves g g'"
    by (simp_all only: set_cursor_line_def set_cursor_column_def set_needs_wrap_def c)
  then show "moves g (leave_wrap_column b g') = moves g g'"
    by (simp add: leave_wrap_column_def set_cursor_column_def set_needs_wrap_def c)
qed

lemma moved_cursor_simps [simp]:
  "cursor_line (set_cursor_line l g) = l" "cursor_column (set_cursor_line l g) = cursor_column g"
  "cursor_line (set_cursor_column c g) = cursor_line g" "cursor_column (set_cursor_column c g) = c"
  "cursor_line (set_needs_wrap b g) = cursor_line g" "cursor_column (set_needs_wrap b g) = cursor_column g"
  "cursor_line (g\<lparr>display_offset := n\<rparr>) = cursor_line g" "cursor_column (g\<lparr>display_offset := n\<rparr>) = cursor_column g"
  "cursor_line (g\<lparr>raw := r\<rparr>) = cursor_line g" "cursor_column (g\<lparr>raw := r\<rparr>) = cursor_column g"
  "cursor_line (g\<lparr>columns := n\<rparr>) = cursor_line g" "cursor_column (g\<lparr>columns := n\<rparr>) = cursor_column g"
  "cursor_line (leave_wrap_column b g) = cursor_line g"
  by (simp_all add: cursor_line_def cursor_column_def set_cursor_line_def set_cursor_column_def set_needs_wrap_def
      leave_wrap_column_def)

lemma grid_simps [simp]:
  "screen_lines (set_cursor_line l g) = screen_lines g" "screen_lines (set_cursor_column c g) = screen_lines g"
  "screen_lines (set_needs_wrap b g) = screen_lines g" "columns (set_cursor_line l g) = columns g"
  "columns (set_cursor_column c g) = columns g" "columns (set_needs_wrap b g) = columns g"
  "raw (set_cursor_line l g) = raw g" "raw (set_cursor_column c g) = raw g" "raw (set_needs_wrap b g) = raw g"
  "screen_lines (leave_wrap_column b g) = screen_lines g" "columns (leave_wrap_column b g) = columns g"
  "raw (leave_wrap_column b g) = raw g" "max_scroll_limit (set_cursor_line l g) = max_scroll_limit g"
  "max_scroll_limit (leave_wrap_column b g) = max_scroll_limit g"
  "max_scroll_limit (set_cursor_column c g) = max_scroll_limit g" "max_scroll_limit (set_needs_wrap b g) = max_scroll_limit g"
  "display_offset (set_cursor_line l g) = display_offset g" "display_offset (set_cursor_column c g) = display_offset g"
  "display_offset (set_needs_wrap b g) = display_offset g"
  by (simp_all add: set_cursor_line_def set_cursor_column_def set_needs_wrap_def leave_wrap_column_def)

definition line_in :: "grid \<Rightarrow> bool" where
  "line_in g \<longleftrightarrow> 0 \<le> cursor_line g \<and> cursor_line g < int (screen_lines g)"

lemma cursor_buffer_line_Some:
  "line_in g \<Longrightarrow> cursor_buffer_line g = Some (nat (int (screen_lines g) - 1 - cursor_line g))"
  by (auto simp: cursor_buffer_line_def line_in_def checked_sub_def nat_diff_distrib')

lemma point_sub_bounds:
  assumes "0 < columns g" "0 < screen_lines g"
  shows "pt_column (point_sub g Cursor_Boundary n p) < columns g" "0 \<le> pt_line (point_sub g Cursor_Boundary n p)"
  using assms by (auto simp: point_sub_def point_clamp_def Let_def last_column_def bottommost_line_def min_def)

lemma length_row_map_last [simp]: "length (cells (row_map_last f r)) = length (cells r)"
  by (simp add: row_map_last_def)

lemma cells_row_append [simp]: "cells (row_append cs r) = cells r @ cs"
  by (simp add: row_append_def)

lemma length_open_row: "length (cells (open_row r)) \<le> length (cells r)"
  by (simp add: open_row_def Let_def row_shrink_def)

lemma pull_cells_total:
  assumes "cells r \<noteq> []" "0 < n"
  shows "ends_in (pull_cells n r) (\<lambda>(r', cs, m). length (cells r') \<le> length (cells r) \<and> length cs \<le> n \<and> m \<le> n)"
proof -
  have "1 \<le> length (cells r)" using assms(1) by (simp add: Suc_le_eq)
  then show ?thesis using assms by (auto simp: pull_cells_def Let_def row_front_split_off_def min_def)
qed

lemma pull_cursor_moves:
  assumes "pull_cursor m clear g = (g', d)" "0 < columns g" "0 < screen_lines g"
  shows "moves g0 g' = moves g0 g" "cursor_line g' = cursor_line g" "cursor_column g' < columns g"
    "screen_lines g' = screen_lines g"
  using assms point_sub_bounds(1) [of g] by (auto simp: pull_cursor_def Let_def split: if_splits)

section \<open>Growing keeps the dimensions\<close>

definition grow_inv :: "grid \<Rightarrow> nat \<Rightarrow> nat \<Rightarrow> nat \<Rightarrow> growing \<Rightarrow> bool" where
  "grow_inv g0 cols n k =
     (\<lambda>(built, g, delta). moves g0 g \<and> line_in g \<and> cursor_column g < cols \<and>
        (\<forall>r \<in> set built. length (cells r) \<le> cols) \<and> length built + k \<le> n)"

lemma grow_step_inv:
  assumes "columns g0 = cols" "0 < cols" "cells row \<noteq> []" "length (cells row) \<le> cols" "grow_inv g0 cols n (Suc k) st"
  shows "ends_in (grow_step reflow cols (k, row) st) (grow_inv g0 cols n k)"
proof -
  obtain built g delta where st: "st = (built, g, delta)" by (cases st)
  have inv: "moves g0 g" "line_in g" "cursor_column g < cols" "\<forall>r \<in> set built. length (cells r) \<le> cols" "length built + Suc k \<le> n"
    using assms(5) by (simp_all add: grow_inv_def st)
  have dims: "columns g = cols" "0 < screen_lines g"
    using movesD(1) [OF inv(1)] assms(1) inv(2) by (auto simp: line_in_def)
  show ?thesis
  proof (cases "built = [] \<or> \<not> should_reflow reflow cols (hd built)")
    case True
    then show ?thesis using inv assms(4) by (simp add: grow_step_def grow_inv_def st)
  next
    case False
    then obtain lr rest where built: "built = lr # rest" "should_reflow reflow cols lr" by (cases built) auto
    define last_row where "last_row = open_row lr"
    have len: "length (cells last_row) < cols"
      using built(2) length_open_row [of lr] by (simp add: should_reflow_def last_row_def)
    obtain row' cs m where p: "pull_cells (cols - length (cells last_row)) row = Some (row', cs, m)"
      "length (cells row') \<le> length (cells row)" "length cs \<le> cols - length (cells last_row)"
      using pull_cells_total [OF assms(3), of "cols - length (cells last_row)"] len by (auto simp: ends_in_iff)
    let ?n = "nat (int (screen_lines g) - 1 - cursor_line g)"
    obtain g' d where c: "pull_cursor m (row_is_clear cell_is_empty row') g = (g', d)" by fastforce
    have g': "moves g0 g'" "cursor_line g' = cursor_line g" "cursor_column g' < cols" "screen_lines g' = screen_lines g"
      using pull_cursor_moves [OF c] dims assms(2) inv(1) by simp_all
    have rows: "\<forall>r \<in> set rest. length (cells r) \<le> cols" "length (cells last_row) + length cs \<le> cols" "length (cells row') \<le> cols"
      using inv(4) p(2,3) len assms(4) by (auto simp: built(1))
    have l: "0 \<le> cursor_line g" "cursor_line g < int (screen_lines g)" using inv(2) by (simp_all add: line_in_def)
    have ln: "k < ?n \<Longrightarrow> cursor_line g + 1 < int (screen_lines g)" by linarith
    note facts = False inv(1,3,5) rows l g' ln c
    note simps = last_row_def [symmetric] len less_imp_le p(1) cursor_buffer_line_Some [OF inv(2)] Let_def
      grow_inv_def line_in_def built(1)
    show ?thesis
    proof (cases "row_is_clear cell_is_empty row'")
      case True
      then show ?thesis using facts unfolding st grow_step_def built(1) list.sel list.simps by (simp add: simps)
    next
      case False
      then show ?thesis using facts unfolding st grow_step_def built(1) list.sel list.simps by (simp add: simps)
    qed
  qed
qed

lemma take_all_eq:
  assumes "storage_wf s"
  shows "take_all s = (map fst (take (len s) (ring s)),
    s\<lparr>inner := [], stable_row_ids := [], len := 0, zero := 0\<rparr>)"
proof -
  note t = truncate_eq [OF assms]
  have "map fst (ring (truncate_lines s)) = inner (truncate_lines s)" using t(2,5) by simp
  then have "inner (truncate_lines s) = map fst (take (len s) (ring s))" by (simp add: t(1))
  moreover have "(truncate_lines s)\<lparr>inner := [], stable_row_ids := [], len := 0\<rparr> =
      s\<lparr>inner := [], stable_row_ids := [], len := 0, zero := 0\<rparr>"
    using t(4,5) by (cases s, cases "truncate_lines s") (simp add: truncate_lines_def rezero_def Let_def split: if_splits)
  ultimately show ?thesis by (simp add: take_all_def Let_def)
qed

lemma replace_inner_eq:
  assumes "visible_lines s \<le> length rows" "0 < length rows" "zero s = 0"
  shows "ends_in (replace_inner rows s) (\<lambda>s'. storage_wf s' \<and> len s' = length rows \<and> visible_lines s' = visible_lines s \<and>
    ring s' = zip rows (map int (rev [0..<length rows])))"
proof -
  let ?s = "s\<lparr>len := length rows, inner := rows, stable_row_ids := replicate (length rows) 0\<rparr>"
  have "storage_wf ?s" "zero ?s = 0" "visible_lines ?s \<le> len ?s" "len ?s = length (inner ?s)"
    using assms by (simp_all add: storage_wf_def)
  from reset_ids_eq [OF this] show ?thesis
    by (auto simp: replace_inner_def storage_wf_def ring_def)
qed

text \<open>A grid with consistent dimensions, and its rows, bottom line first.\<close>

definition sized :: "grid \<Rightarrow> bool" where
  "sized g \<longleftrightarrow> storage_wf (raw g) \<and> 0 < columns g \<and> 0 < screen_lines g \<and> visible_lines (raw g) = screen_lines g \<and>
     screen_lines g \<le> len (raw g) \<and> history_size g \<le> max_scroll_limit g \<and>
     (\<forall>x \<in> set (ring (raw g)). length (cells (fst x)) = columns g)"

definition grid_rows :: "grid \<Rightarrow> cell row list" where
  "grid_rows g = map fst (take (len (raw g)) (ring (raw g)))"

lemma grid_wf_sized: "grid_wf g \<Longrightarrow> sized g"
  by (simp add: grid_wf_def base_ok_def sized_def rows_ok_def gl_def)

lemma grid_rows_sized:
  assumes "sized g"
  shows "length (grid_rows g) = len (raw g)" "\<forall>r \<in> set (grid_rows g). length (cells r) = columns g"
  using assms by (auto simp: sized_def grid_rows_def storage_wf_def dest!: in_set_takeD)

lemma length_row_grow [simp]: "length (cells r) \<le> cols \<Longrightarrow> length (cells (row_grow d cols r)) = cols"
  by (simp add: row_grow_def)

text \<open>Replacing the rows of a grid.\<close>

lemma replaced_rows:
  assumes "zero (raw g) = 0" "visible_lines (raw g) = screen_lines g" "0 < screen_lines g" "0 < columns g"
    and "screen_lines g \<le> length rows" "length rows \<le> max_scroll_limit g + screen_lines g"
    and "\<forall>r \<in> set rows. length (cells r) = columns g"
  shows "ends_in (replace_inner rows (raw g)) (\<lambda>r. sized (g\<lparr>raw := r\<rparr>) \<and> grid_rows (g\<lparr>raw := r\<rparr>) = rows \<and>
    zero r = 0 \<and> stable_row_ids r = map int (rev [0..<length rows]))"
proof -
  have "0 < length rows" using assms(3,5) by linarith
  then obtain r where r: "replace_inner rows (raw g) = Some r" "storage_wf r" "len r = length rows"
    "visible_lines r = visible_lines (raw g)" "ring r = zip rows (map int (rev [0..<length rows]))"
    using replace_inner_eq [of "raw g" rows] assms(1,2,5) by (auto simp: ends_in_iff)
  have "zero r = 0" using r(1) by (auto simp: replace_inner_def split: Option.bind_splits)
  moreover from this have "zip (inner r) (stable_row_ids r) = ring r" by (simp add: ring_def)
  then have "stable_row_ids r = map int (rev [0..<length rows])"
    using r(2,5) by (metis length_map length_rev length_upt map_snd_zip minus_nat.diff_0 storage_wf_def)
  moreover have "\<forall>x \<in> set (zip rows (map int (rev [0..<length rows]))). length (cells (fst x)) = columns g"
    using assms(7) by (auto dest: set_zip_leftD)
  ultimately show ?thesis
    using r assms by (simp add: ends_in_iff sized_def grid_rows_def history_size_def)
qed

definition kept_dims :: "grid \<Rightarrow> nat \<Rightarrow> grid \<Rightarrow> bool" where
  "kept_dims g cols g' \<longleftrightarrow> sized g' \<and> columns g' = cols \<and> screen_lines g' = screen_lines g \<and> line_in g' \<and>
     cursor_column g' < cols \<and> display_offset g' \<le> history_size g' \<and> max_scroll_limit g' = max_scroll_limit g \<and>
     stable_row_min g' = stable_row_min g \<and> stable_row_max g' = stable_row_max g \<and>
     stable_row_ids (raw g') = map int (rev [0..<length (grid_rows g')]) \<and> zero (raw g') = 0"

lemma finish_grow_ok:
  assumes "zero (raw g) = 0" "visible_lines (raw g) = screen_lines g" "columns g = cols" "0 < cols" "line_in g"
    and "cursor_column g < cols" "\<forall>r \<in> set built. length (cells r) \<le> cols"
    and "length built \<le> max_scroll_limit g + screen_lines g"
  shows "ends_in (finish_grow cols (built, g, delta)) (\<lambda>g'. kept_dims g cols g' \<and>
    (\<exists>k. grid_rows g' = map (row_grow cell_default cols)
       (drop k (replicate (screen_lines g - length built) (row_new cell_default cols) @ built)) \<and> k \<le> delta))"
proof -
  have l: "0 < screen_lines g" using assms(5) by (auto simp: line_in_def)
  let ?m = "screen_lines g - length built"
  define g1 where "g1 = (if 0 < ?m then set_cursor_line (max (cursor_line g - int ?m) 0) g else g)"
  define b1 where "b1 = replicate ?m (row_new cell_default cols) @ built"
  have g1: "moves g g1" "line_in g1" "cursor_column g1 < cols" "screen_lines g1 = screen_lines g"
    using assms(5,6) by (auto simp: g1_def line_in_def)
  have b1: "screen_lines g \<le> length b1" "length b1 \<le> max_scroll_limit g + screen_lines g"
    "\<forall>r \<in> set b1. length (cells r) \<le> cols"
    using assms(7,8) by (auto simp: b1_def row_new_def)
  obtain k g2 where k: "(if delta = 0 then Some (b1, g1)
      else do { n \<leftarrow> cursor_buffer_line g1;
                let available = min n (length b1 - screen_lines g1);
                let overflow = delta - available;
                keep \<leftarrow> checked_sub (length b1 + overflow) delta;
                Some (drop (length b1 - keep) b1, set_cursor_line (max (cursor_line g1 - int overflow) 0) g1) }) =
      Some (drop k b1, g2)" "k \<le> length b1 - screen_lines g" "k \<le> delta"
    "moves g g2" "line_in g2" "cursor_column g2 < cols" "screen_lines g2 = screen_lines g"
  proof (cases "delta = 0")
    case True
    then show thesis using that [of 0 g1] g1 by simp
  next
    case False
    let ?a = "min (nat (int (screen_lines g1) - 1 - cursor_line g1)) (length b1 - screen_lines g1)"
    define a where "a = ?a"
    have a: "a \<le> length b1 - screen_lines g" unfolding a_def g1(4) by (rule min.cobounded2)
    have keep: "checked_sub (length b1 + (delta - a)) delta = Some (length b1 - min delta a)"
      using a by (cases "delta \<le> a") (simp_all add: checked_sub_def)
    have "length b1 - (length b1 - min delta a) = min delta a" using a by simp
    then have "do { n \<leftarrow> cursor_buffer_line g1;
        let available = min n (length b1 - screen_lines g1);
        let overflow = delta - available;
        keep \<leftarrow> checked_sub (length b1 + overflow) delta;
        Some (drop (length b1 - keep) b1, set_cursor_line (max (cursor_line g1 - int overflow) 0) g1) } =
      Some (drop (min delta a) b1, set_cursor_line (max (cursor_line g1 - int (delta - a)) 0) g1)"
      unfolding cursor_buffer_line_Some [OF g1(2)] Option.bind.simps Let_def a_def [symmetric] keep by simp
    moreover have "line_in (set_cursor_line (max (cursor_line g1 - int (delta - a)) 0) g1)"
      using g1(2) by (auto simp: line_in_def)
    ultimately show thesis
      using that [of "min delta a" "set_cursor_line (max (cursor_line g1 - int (delta - a)) 0) g1"] g1 False a by simp
  qed
  have rows: "screen_lines g2 \<le> length (drop k b1)" "length (drop k b1) \<le> max_scroll_limit g2 + screen_lines g2"
    "\<forall>r \<in> set (map (row_grow cell_default cols) (drop k b1)). length (cells r) = cols"
    using k(2,7) b1 movesD(4) [OF k(4)] by (auto dest!: in_set_dropD)
  obtain r where r: "replace_inner (map (row_grow cell_default cols) (drop k b1)) (raw g2) = Some r" "sized (g2\<lparr>raw := r\<rparr>)"
    "grid_rows (g2\<lparr>raw := r\<rparr>) = map (row_grow cell_default cols) (drop k b1)" "zero r = 0"
    "stable_row_ids r = map int (rev [0..<length (drop k b1)])"
  proof -
    have "ends_in (replace_inner (map (row_grow cell_default cols) (drop k b1)) (raw g2)) (\<lambda>r. sized (g2\<lparr>raw := r\<rparr>) \<and>
        grid_rows (g2\<lparr>raw := r\<rparr>) = map (row_grow cell_default cols) (drop k b1) \<and> zero r = 0 \<and>
        stable_row_ids r = map int (rev [0..<length (map (row_grow cell_default cols) (drop k b1))]))"
      using rows assms(1-4) l k(7) movesD(1,3) [OF k(4)] by (intro replaced_rows) (simp_all del: map_map)
    then show thesis using that by (auto simp: ends_in_iff)
  qed
  let ?g = "g2\<lparr>raw := r\<rparr>"
  let ?r = "?g\<lparr>display_offset := min (display_offset ?g) (history_size ?g)\<rparr>"
  have "finish_grow cols (built, g, delta) = Some ?r"
    using k(1) r(1) unfolding finish_grow_def g1_def [symmetric] b1_def [symmetric] prod.case Let_def by simp
  moreover have "sized ?r" "grid_rows ?r = grid_rows ?g" "line_in ?r"
    using r(2) k(5) by (simp_all add: sized_def history_size_def grid_rows_def line_in_def)
  then have "kept_dims g cols ?r"
    using k(4-7) r(3-5) movesD [OF k(4)] assms(3)
    by (simp add: kept_dims_def history_size_def)
  ultimately show ?thesis
    using r(3) k(3) \<open>grid_rows ?r = grid_rows ?g\<close> by (auto simp: b1_def)
qed

text \<open>The grid in which both loops start.\<close>

definition loop_start :: "bool \<Rightarrow> nat \<Rightarrow> grid \<Rightarrow> grid" where
  "loop_start reflow cols g = (leave_wrap_column reflow (g\<lparr>columns := cols\<rparr>))\<lparr>raw := snd (take_all (raw g))\<rparr>"

lemma start_loop:
  assumes "sized g" "line_in g" "cursor_column g < columns g"
  shows "columns (loop_start reflow cols g) = cols" "screen_lines (loop_start reflow cols g) = screen_lines g"
    "max_scroll_limit (loop_start reflow cols g) = max_scroll_limit g"
    "stable_row_min (loop_start reflow cols g) = stable_row_min g"
    "stable_row_max (loop_start reflow cols g) = stable_row_max g" "zero (raw (loop_start reflow cols g)) = 0"
    "visible_lines (raw (loop_start reflow cols g)) = screen_lines g" "line_in (loop_start reflow cols g)"
    "cursor_column (loop_start reflow cols g) \<le> columns g" "cursor_line (loop_start reflow cols g) = cursor_line g"
    "display_offset (loop_start reflow cols g) = display_offset g"
proof -
  have wf: "storage_wf (raw g)" using assms(1) by (simp add: sized_def)
  show "columns (loop_start reflow cols g) = cols" "screen_lines (loop_start reflow cols g) = screen_lines g"
    "max_scroll_limit (loop_start reflow cols g) = max_scroll_limit g"
    "stable_row_min (loop_start reflow cols g) = stable_row_min g"
    "stable_row_max (loop_start reflow cols g) = stable_row_max g"
    "display_offset (loop_start reflow cols g) = display_offset g"
    by (simp_all add: loop_start_def leave_wrap_column_def set_cursor_column_def set_needs_wrap_def)
  show "zero (raw (loop_start reflow cols g)) = 0" "visible_lines (raw (loop_start reflow cols g)) = screen_lines g"
    using assms(1) take_all_eq [OF wf] by (simp_all add: loop_start_def sized_def)
  show "line_in (loop_start reflow cols g)" "cursor_column (loop_start reflow cols g) \<le> columns g"
    "cursor_line (loop_start reflow cols g) = cursor_line g"
    using assms(2,3) by (auto simp: loop_start_def line_in_def leave_wrap_column_def)
qed

lemma loop_rows:
  assumes "sized g"
  shows "fst (take_all (raw g)) = grid_rows g"
    "length (grid_rows g) \<le> max_scroll_limit g + screen_lines g" "screen_lines g \<le> length (grid_rows g)"
    "\<forall>r \<in> set (grid_rows g). length (cells r) = columns g" "0 < columns g"
  using grid_rows_sized [OF assms] assms take_all_eq [of "raw g"]
  by (auto simp: sized_def history_size_def grid_rows_def)

lemma columns_eq:
  "grow_columns reflow cols g =
     Option.bind (fold_opt (grow_step reflow cols) (rev (enumerate 0 (fst (take_all (raw g))))) ([], loop_start reflow cols g, 0))
       (finish_grow cols)"
  "shrink_columns reflow cols g =
     Option.bind (fold_opt (shrink_step reflow cols) (rev (enumerate 0 (fst (take_all (raw g))))) ([], None, loop_start reflow cols g))
       (finish_shrink reflow cols)"
  by (cases "take_all (raw g)", simp add: grow_columns_def shrink_columns_def loop_start_def)+

lemma grow_columns_ok:
  assumes "sized g" "line_in g" "cursor_column g < columns g" "columns g < cols"
  shows "ends_in (grow_columns reflow cols g) (kept_dims g cols)"
proof -
  let ?g0 = "loop_start reflow cols g"
  note start = start_loop [OF assms(1-3), where reflow = reflow and cols = cols]
  note rows = loop_rows [OF assms(1)]
  let ?n = "length (grid_rows g)"
  let ?I = "grow_inv ?g0 cols ?n"
  have row: "cells r \<noteq> [] \<and> length (cells r) \<le> cols" if "r \<in> set (grid_rows g)" for r
    using that rows(4,5) assms(4) by auto
  have "ends_in (fold_opt (grow_step reflow cols) (rev (enumerate 0 (grid_rows g))) ([], ?g0, 0)) (?I 0)"
  proof (rule fold_rows)
    fix k st assume "k < length (grid_rows g)" "?I (Suc k) st"
    then show "ends_in (grow_step reflow cols (k, grid_rows g ! k) st) (?I k)"
      using grow_step_inv [OF start(1)] row [OF nth_mem] assms(4) by fastforce
  qed (use start(8,9) assms(4) in \<open>simp add: grow_inv_def\<close>)
  then obtain built g1 delta where f: "fold_opt (grow_step reflow cols) (rev (enumerate 0 (grid_rows g))) ([], ?g0, 0) =
      Some (built, g1, delta)" "moves ?g0 g1" "line_in g1" "cursor_column g1 < cols"
    "\<forall>r \<in> set built. length (cells r) \<le> cols" "length built \<le> ?n"
    by (auto simp: ends_in_iff grow_inv_def)
  note m = movesD [OF f(2)]
  have "ends_in (finish_grow cols (built, g1, delta)) (kept_dims g1 cols)"
    by (rule ends_in_mono [OF finish_grow_ok]) (use f m start rows assms(4) in simp_all)
  then have "ends_in (grow_columns reflow cols g) (kept_dims g1 cols)"
    by (simp add: columns_eq rows(1) f(1))
  then show ?thesis
    by (rule ends_in_mono) (use m start in \<open>simp add: kept_dims_def\<close>)
qed

section \<open>Shrinking keeps the dimensions\<close>

definition strip :: "cell list \<Rightarrow> cell list" where
  "strip cs = rev (dropWhile cell_is_empty (rev cs))"

lemma length_strip: "length (strip cs) \<le> length cs"
  using length_dropWhile_le [of cell_is_empty "rev cs"] by (simp add: strip_def)

text \<open>What is cut off a row: its stripped rest when it is reflown; nothing when it fits or only blanks are cut,
  unless the cursor is behind the row.\<close>

lemma cut_row_cases:
  assumes "cols \<le> length (cells row)" "line_in g"
  shows "\<exists>row' cut. cut_row reflow cols i g row = Some (row', cut) \<and> cells row' = take cols (cells row) \<and>
    (cut = None \<and> (reflow \<longrightarrow> strip (drop cols (cells row)) = []) \<or>
     cut = Some [] \<and> strip (drop cols (cells row)) = [] \<and> cursor_column g > cols \<and> cursor_buffer_line g = Some i \<or>
     cut = Some (strip (drop cols (cells row))) \<and> cols < length (cells row) \<and> strip (drop cols (cells row)) \<noteq> [])"
proof -
  obtain r' c where rc: "row_shrink cell_is_empty cols row = (r', c)" by (cases "row_shrink cell_is_empty cols row")
  have r': "cells r' = take cols (cells row)"
    and c: "c = (if length (cells row) \<le> cols \<or> strip (drop cols (cells row)) = [] then None
                 else Some (strip (drop cols (cells row))))"
    using rc assms(1) by (auto simp: row_shrink_def Let_def strip_def split: if_splits)
  have e: "length (cells row) \<le> cols \<Longrightarrow> strip (drop cols (cells row)) = []" by (simp add: strip_def)
  show ?thesis
  proof (cases "c \<noteq> None \<and> reflow")
    case True
    then show ?thesis using rc r' c by (auto simp: cut_row_def split: if_splits)
  next
    case False
    then show ?thesis using rc r' c e
      by (auto simp: cut_row_def cursor_buffer_line_Some [OF assms(2)] split: if_splits)
  qed
qed

lemma push_wide_total:
  assumes "length (cells row) = cols" "2 \<le> cols"
  shows "ends_in (push_wide cols row w) (\<lambda>(row', w'). length (cells row') = cols \<and>
    (w' = w \<and> row' = row \<or> (\<exists>c. w' = c # w \<and> has_flags (cflags c) WIDE_CHAR)))"
  using assms by (auto simp: push_wide_def row_set_def)

lemma shrink_cursor_total:
  assumes "line_in g"
  shows "ends_in (shrink_cursor cols i g) (\<lambda>g'. moves g0 g' = moves g0 g \<and> line_in g' \<and>
    screen_lines g' = screen_lines g \<and> display_offset g' = display_offset g \<and>
    cursor_column g' = (if cursor_buffer_line g = Some i \<and> cols \<le> cursor_column g then cursor_column g - cols else cursor_column g) \<and>
    cursor_line g' = (if (cursor_buffer_line g = Some i \<and> cursor_column g < cols) \<or> i < the (cursor_buffer_line g)
                      then max (cursor_line g - 1) 0 else cursor_line g))"
proof -
  have l: "0 \<le> cursor_line g" "cursor_line g < int (screen_lines g)" using assms by (simp_all add: line_in_def)
  define n where "n = nat (int (screen_lines g) - 1 - cursor_line g)"
  have n: "cursor_buffer_line g = Some n" using cursor_buffer_line_Some [OF assms] by (simp add: n_def)
  show ?thesis
    using l by (auto simp: shrink_cursor_def n Let_def line_in_def)
qed

definition rows_of_width :: "nat \<Rightarrow> cell row list \<Rightarrow> bool" where
  "rows_of_width cols nr \<longleftrightarrow> (\<forall>r \<in> set nr. length (cells r) = cols)"

lemma rows_of_width_simps [simp]:
  "rows_of_width cols []" "rows_of_width cols (r # nr) \<longleftrightarrow> length (cells r) = cols \<and> rows_of_width cols nr"
  "rows_of_width cols nr \<Longrightarrow> rows_of_width cols (take n nr)" "rows_of_width cols nr \<Longrightarrow> rows_of_width cols (drop n nr)"
  by (auto simp: rows_of_width_def dest: in_set_takeD in_set_dropD)

definition shrunk :: "grid \<Rightarrow> nat \<Rightarrow> nat \<Rightarrow> shrinking \<Rightarrow> bool" where
  "shrunk g0 cols n = (\<lambda>(nr, b, g). moves g0 g \<and> line_in g \<and> rows_of_width cols nr \<and> n \<le> length nr)"

lemma shrink_once_total:
  assumes "2 \<le> cols" "cols \<le> length (cells row)" "line_in g" "rows_of_width cols new_raw" "moves g0 g"
  shows "ends_in (shrink_once reflow cols i row new_raw g) (\<lambda>x. case x of
     Inl st \<Rightarrow> shrunk g0 cols (Suc (length new_raw)) st
   | Inr (row', nr, g') \<Rightarrow> moves g0 g' \<and> line_in g' \<and> rows_of_width cols nr \<and> length new_raw \<le> length nr \<and>
       cols \<le> length (cells row') \<and>
       length (cells row') + cursor_column g' < length (cells row) + cursor_column g)"
proof -
  obtain row1 cut where c: "cut_row reflow cols i g row = Some (row1, cut)" "cells row1 = take cols (cells row)"
    "cut = None \<and> (reflow \<longrightarrow> strip (drop cols (cells row)) = []) \<or>
     cut = Some [] \<and> strip (drop cols (cells row)) = [] \<and> cursor_column g > cols \<and> cursor_buffer_line g = Some i \<or>
     cut = Some (strip (drop cols (cells row))) \<and> cols < length (cells row) \<and> strip (drop cols (cells row)) \<noteq> []"
    using cut_row_cases [OF assms(2,3), of reflow i] by blast
  have len1: "length (cells row1) = cols" using c(2) assms(2) by simp
  show ?thesis
  proof (cases cut)
    case None
    then show ?thesis using c(1) len1 assms(3-5) by (simp add: shrink_once_def shrunk_def)
  next
    case (Some w)
    have w: "w = [] \<and> cursor_column g > cols \<and> cursor_buffer_line g = Some i \<or> w \<noteq> [] \<and> cols + length w \<le> length (cells row)"
      using c(3) length_strip [of "drop cols (cells row)"] Some by auto
    obtain row2 w2 where p: "push_wide cols row1 w = Some (row2, w2)" "length (cells row2) = cols"
      "length w2 \<le> Suc (length w)"
      using push_wide_total [OF len1 assms(1), of w] by (auto simp: ends_in_iff)
    define w3 where "w3 = (if w2 \<noteq> [] \<and> has_flags (cflags (last w2)) LEADING_WIDE_CHAR_SPACER
        then butlast (butlast w2) @ [add_wrap (last (butlast w2))] else w2)"
    have w3: "length w2 = 1 \<and> w2 \<noteq> [] \<and> has_flags (cflags (last w2)) LEADING_WIDE_CHAR_SPACER \<or> length w3 \<le> Suc (length w)"
      using p(3) by (auto simp: w3_def)
    obtain g' where g': "shrink_cursor cols i g = Some g'" "moves g0 g'" "line_in g'"
      "cursor_column g' = (if cursor_buffer_line g = Some i \<and> cols \<le> cursor_column g then cursor_column g - cols else cursor_column g)"
      using shrink_cursor_total [OF assms(3), of cols i g0] assms(5) by (auto simp: ends_in_iff)
    have less: "length w3 \<le> Suc (length w) \<Longrightarrow>
        max (length w3) cols + cursor_column g' < length (cells row) + cursor_column g"
      using w
    proof
      assume "length w3 \<le> Suc (length w)" "w = [] \<and> cursor_column g > cols \<and> cursor_buffer_line g = Some i"
      moreover have "cells row \<noteq> []" using assms(1,2) by auto
      ultimately show ?thesis using g'(4) assms(1,2) by simp
    next
      assume "length w3 \<le> Suc (length w)" "w \<noteq> [] \<and> cols + length w \<le> length (cells row)"
      moreover from this have "0 < length w" by simp
      moreover have "cursor_column g' \<le> cursor_column g" using g'(4) by simp
      ultimately show ?thesis using assms(1) by linarith
    qed
    have upd: "row_update (cols - 1) add_wrap row2 \<noteq> None" "1 \<le> cols"
      "row_update (cols - 1) add_wrap row2 = Some r \<Longrightarrow> length (cells r) = cols" for r
      using p(2) assms(1) by (auto simp: row_update_def)
    show ?thesis
    proof (cases "(w2 \<noteq> [] \<and> has_flags (cflags (last w2)) LEADING_WIDE_CHAR_SPACER) \<and> length w2 = 1")
      case True
      obtain r where "row_update (cols - 1) add_wrap row2 = Some r" using upd(1) by auto
      then show ?thesis using True c(1) Some p(1) assms(3-5) upd(2,3)
        by (simp add: shrink_once_def shrunk_def Let_def)
    next
      case False
      then have l: "max (length w3) cols + cursor_column g' < length (cells row) + cursor_column g"
        using less w3 by blast
      have m: "length w3 + (cols - length w3) = max (length w3) cols" by simp
      show ?thesis
        unfolding shrink_once_def c(1) Some Option.bind.simps prod.case option.case p(1) Let_def w3_def [symmetric]
          if_not_P [OF False] g'(1)
        using g'(2,3) assms(3-5) l p(2) by (simp add: shrunk_def row_from_vec_def line_in_def m)
    qed
  qed
qed

text \<open>The inner loop ends: the row gets shorter, or the cursor moves left.\<close>

lemma shrink_row_total:
  assumes "2 \<le> cols" "cols \<le> length (cells row)" "line_in g" "rows_of_width cols new_raw" "moves g0 g"
  shows "ends_in (shrink_row reflow cols i row new_raw g) (shrunk g0 cols (Suc (length new_raw)))"
  using assms(2-5)
proof (induction "length (cells row) + cursor_column g" arbitrary: row new_raw g rule: less_induct)
  case less
  obtain x where x: "shrink_once reflow cols i row new_raw g = Some x"
    "case x of Inl st \<Rightarrow> shrunk g0 cols (Suc (length new_raw)) st
     | Inr (row', nr, g') \<Rightarrow> moves g0 g' \<and> line_in g' \<and> rows_of_width cols nr \<and> length new_raw \<le> length nr \<and>
         cols \<le> length (cells row') \<and>
         length (cells row') + cursor_column g' < length (cells row) + cursor_column g"
    using shrink_once_total [OF assms(1) less.prems, of reflow i] by (auto simp: ends_in_iff)
  show ?case
  proof (cases x)
    case (Inl st)
    then show ?thesis using x by (subst shrink_row.simps) simp
  next
    case (Inr y)
    then obtain row' nr g' where y: "x = Inr (row', nr, g')" by (cases y) auto
    then have "ends_in (shrink_row reflow cols i row' nr g') (shrunk g0 cols (Suc (length nr)))"
      using x(2) by (intro less.hyps) auto
    then show ?thesis
      using x y by (subst shrink_row.simps) (auto elim!: ends_in_mono simp: shrunk_def)
  qed
qed

lemma shrink_step_total:
  assumes "2 \<le> cols" "cols \<le> length (cells row)" "shrunk g0 cols n st"
  shows "ends_in (shrink_step reflow cols (i, row) st) (shrunk g0 cols (Suc n))"
proof -
  obtain nr b g where st: "st = (nr, b, g)" by (cases st)
  have inv: "moves g0 g" "line_in g" "rows_of_width cols nr" "n \<le> length nr" using assms(3) by (simp_all add: shrunk_def st)
  have step: "ends_in (shrink_row reflow cols i r nr g') (shrunk g0 cols (Suc n))"
    if "cols \<le> length (cells r)" "line_in g'" "moves g0 g'" for r g'
    using shrink_row_total [OF assms(1) that(1,2) inv(3) that(3), of reflow i] inv(4)
    by (auto elim!: ends_in_mono simp: shrunk_def)
  show ?thesis
  proof (cases b)
    case None
    then show ?thesis using step [OF assms(2) inv(2,1)] by (simp add: shrink_step_def st)
  next
    case (Some b')
    let ?n = "nat (int (screen_lines g) - 1 - cursor_line g)"
    let ?g = "if i = ?n then set_cursor_column (cursor_column g + length b') g else g"
    have "line_in ?g" "moves g0 ?g" using inv(1,2) by (simp_all add: line_in_def)
    moreover have "cols \<le> length (cells (row_append_front b' row))" using assms(2) by (simp add: row_append_front_def)
    ultimately show ?thesis
      using step Some by (simp add: shrink_step_def st cursor_buffer_line_Some [OF inv(2)])
  qed
qed

lemma reclaim_total:
  assumes "line_in g" "screen_lines g \<le> length rows" "rows_of_width cols rows"
  shows "ends_in (reclaim reflow rows g) (\<lambda>(rows', g'). line_in g' \<and> screen_lines g' = screen_lines g \<and>
    screen_lines g \<le> length rows' \<and> rows_of_width cols rows' \<and> raw g' = raw g \<and> columns g' = columns g \<and>
    max_scroll_limit g' = max_scroll_limit g \<and> display_offset g' = display_offset g \<and>
    stable_row_min g' = stable_row_min g \<and> stable_row_max g' = stable_row_max g \<and> cursor_column g' = cursor_column g \<and>
    (let k = (if reflow then min (the (cursor_buffer_line g)) (length rows - screen_lines g) else 0)
     in rows' = drop k rows \<and> cursor_line g' = cursor_line g + int k))"
proof -
  have l: "0 \<le> cursor_line g" "cursor_line g < int (screen_lines g)" using assms(1) by (simp_all add: line_in_def)
  let ?n = "nat (int (screen_lines g) - 1 - cursor_line g)"
  let ?r = "min ?n (length rows - screen_lines g)"
  have r: "cursor_line g + int ?r < int (screen_lines g)" "?r \<le> length rows - screen_lines g" using l by auto
  show ?thesis
  proof (cases "reflow \<and> length rows > screen_lines g")
    case True
    define k where "k = ?r"
    show ?thesis
      using True r l assms
      unfolding reclaim_def cursor_buffer_line_Some [OF assms(1)] Option.bind.simps Let_def option.sel k_def [symmetric]
      by (auto simp: move_cursors_def line_in_def cursor_line_def cursor_column_def)
  next
    case False
    then show ?thesis using assms by (auto simp: reclaim_def)
  qed
qed

lemma sized_row_at:
  assumes "sized g" "- int (history_size g) \<le> l" "l < int (screen_lines g)"
  shows "\<exists>r. row_at g l = Some r \<and> length (cells r) = columns g"
proof -
  have wf: "storage_wf (raw g)" using assms(1) by (simp add: sized_def)
  have ok: "line_ok (raw g) l" using assms by (simp add: sized_def line_ok_def history_size_def)
  have "pos_of (visible_lines (raw g)) l < length (ring (raw g))"
    using compute_index_eq(3) [OF wf ok] wf by simp
  then show ?thesis
    using ring_nth [OF wf ok] assms(1) nth_mem by (fastforce simp: row_at_def sized_def)
qed

lemma clamp_cursor_total:
  assumes "sized g" "line_in g" "columns g = cols"
  shows "ends_in (clamp_cursor reflow cols g) (\<lambda>g'. moves g0 g' = moves g0 g \<and> moves g g' \<and> line_in g' \<and>
    cursor_column g' < cols \<and> display_offset g' = display_offset g \<and> cursor_line g' = cursor_line g)"
proof -
  have c: "0 < cols" using assms(1,3) by (simp add: sized_def)
  have l: "0 \<le> cursor_line g" "cursor_line g < int (screen_lines g)" using assms(2) by (simp_all add: line_in_def)
  obtain r where r: "row_at g (cursor_line g) = Some r" "length (cells r) = cols"
    using sized_row_at [OF assms(1), of "cursor_line g"] l assms(3) by auto
  let ?p = "point_clamp g Cursor_Boundary (point (cursor g))"
  have p: "pt_line ?p = cursor_line g" "pt_column ?p = min (cursor_column g) (cols - 1)"
    using l assms(3) by (simp_all add: point_clamp_def cursor_line_def cursor_column_def last_column_def bottommost_line_def)
  have "line_in (g\<lparr>cursor := cursor g\<lparr>point := ?p\<rparr>\<rparr>)" "cursor_column (g\<lparr>cursor := cursor g\<lparr>point := ?p\<rparr>\<rparr>) < cols"
    "cursor_line (g\<lparr>cursor := cursor g\<lparr>point := ?p\<rparr>\<rparr>) = cursor_line g"
    using p l c by (simp_all add: line_in_def cursor_line_def cursor_column_def)
  then show ?thesis
    using r l c by (auto simp: clamp_cursor_def cell_at_def line_in_def)
qed

definition reclaimed :: "bool \<Rightarrow> grid \<Rightarrow> cell row list \<Rightarrow> nat" where
  "reclaimed reflow g rows = (if reflow then min (the (cursor_buffer_line g)) (length rows - screen_lines g) else 0)"

lemma finish_shrink_ok:
  assumes "zero (raw g) = 0" "visible_lines (raw g) = screen_lines g" "columns g = cols" "0 < cols" "line_in g"
    and "rows_of_width cols rows" "screen_lines g \<le> length rows"
  shows "ends_in (finish_shrink reflow cols (rows, b, g)) (\<lambda>g'. kept_dims g cols g' \<and>
    grid_rows g' = take (max_scroll_limit g + screen_lines g) (drop (reclaimed reflow g rows) rows) \<and>
    cursor_line g' = cursor_line g + int (reclaimed reflow g rows))"
proof -
  obtain rows1 g1 where g1: "reclaim reflow rows g = Some (rows1, g1)" "line_in g1" "screen_lines g1 = screen_lines g"
    "screen_lines g \<le> length rows1" "rows_of_width cols rows1" "raw g1 = raw g" "columns g1 = columns g"
    "max_scroll_limit g1 = max_scroll_limit g" "stable_row_min g1 = stable_row_min g"
    "stable_row_max g1 = stable_row_max g" "rows1 = drop (reclaimed reflow g rows) rows"
    "cursor_line g1 = cursor_line g + int (reclaimed reflow g rows)"
    using reclaim_total [OF assms(5,7,6), of reflow] unfolding ends_in_iff reclaimed_def Let_def by fast
  define rows2 where "rows2 = take (max_scroll_limit g1 + screen_lines g1) rows1"
  have l: "0 < screen_lines g" using assms(5) by (auto simp: line_in_def)
  have rows2: "screen_lines g1 \<le> length rows2" "length rows2 \<le> max_scroll_limit g1 + screen_lines g1"
    "\<forall>r \<in> set rows2. length (cells r) = columns g1"
    using g1(3,4,5,7) assms(3) by (auto simp: rows2_def rows_of_width_def dest: in_set_takeD)
  obtain r where r: "replace_inner rows2 (raw g1) = Some r" "sized (g1\<lparr>raw := r\<rparr>)" "grid_rows (g1\<lparr>raw := r\<rparr>) = rows2"
    "zero r = 0" "stable_row_ids r = map int (rev [0..<length rows2])"
    using replaced_rows [of g1 rows2] rows2 g1(3,6,7) assms(1-4) l by (auto simp: ends_in_iff)
  define g2 where "g2 = (g1\<lparr>raw := r\<rparr>)\<lparr>display_offset := min (display_offset (g1\<lparr>raw := r\<rparr>)) (history_size (g1\<lparr>raw := r\<rparr>))\<rparr>"
  have g2: "sized g2" "line_in g2" "columns g2 = cols" "grid_rows g2 = rows2" "display_offset g2 \<le> history_size g2"
    "screen_lines g2 = screen_lines g" "max_scroll_limit g2 = max_scroll_limit g" "raw g2 = r"
    "stable_row_min g2 = stable_row_min g" "stable_row_max g2 = stable_row_max g"
    using r(2,3) g1 assms(3) by (simp_all add: g2_def sized_def line_in_def grid_rows_def history_size_def)
  obtain g3 where g3: "clamp_cursor reflow cols g2 = Some g3" "moves g2 g3" "line_in g3" "cursor_column g3 < cols"
    "display_offset g3 = display_offset g2" "cursor_line g3 = cursor_line g2"
    using clamp_cursor_total [OF g2(1-3), where reflow = reflow] by (auto simp: ends_in_iff)
  note m = movesD [OF g3(2)]
  have k: "checked_sub cols 1 = Some (cols - 1)" using assms(4) by (simp add: checked_sub_def)
  define g4 where "g4 = g3\<lparr>saved_cursor := saved_cursor g3\<lparr>point :=
      point (saved_cursor g3)\<lparr>pt_column := min (pt_column (point (saved_cursor g3))) (cols - 1)\<rparr>\<rparr>\<rparr>"
  have "finish_shrink reflow cols (rows, b, g) = Some g4"
    unfolding finish_shrink_def prod.case g1(1) Option.bind.simps rows2_def [symmetric] r(1) Let_def
      g2_def [symmetric] g3(1) k g4_def ..
  moreover have "kept_dims g cols g4" "grid_rows g4 = rows2" "cursor_line g4 = cursor_line g1"
  proof -
    have e: "columns g4 = columns g2" "screen_lines g4 = screen_lines g2" "raw g4 = raw g2"
      "max_scroll_limit g4 = max_scroll_limit g2" "display_offset g4 = display_offset g2"
      "stable_row_min g4 = stable_row_min g2" "stable_row_max g4 = stable_row_max g2"
      "cursor_line g4 = cursor_line g3" "cursor_column g4 = cursor_column g3"
      using m g3(5) by (simp_all add: g4_def cursor_line_def cursor_column_def)
    have e': "history_size g4 = history_size g2" "grid_rows g4 = grid_rows g2" "sized g4 = sized g2"
      by (simp_all add: history_size_def grid_rows_def sized_def e)
    have "line_in g4" using g3(3) m(2) by (simp add: line_in_def e)
    then show "kept_dims g cols g4" "grid_rows g4 = rows2"
      using g2 g3(4) r(4,5) by (simp_all add: kept_dims_def e e')
    show "cursor_line g4 = cursor_line g1" using e(8) g3(6) by (simp add: g2_def)
  qed
  ultimately show ?thesis by (simp add: rows2_def g1(3,8,11,12))
qed

lemma shrink_columns_ok:
  assumes "sized g" "line_in g" "cursor_column g < columns g" "2 \<le> cols" "cols < columns g"
  shows "ends_in (shrink_columns reflow cols g) (kept_dims g cols)"
proof -
  let ?g0 = "loop_start reflow cols g"
  note start = start_loop [OF assms(1-3), where reflow = reflow and cols = cols]
  note rows = loop_rows [OF assms(1)]
  define n where "n = length (grid_rows g)"
  define I where "I = (\<lambda>k. shrunk ?g0 cols (n - k))"
  have "ends_in (fold_opt (shrink_step reflow cols) (rev (enumerate 0 (grid_rows g))) ([], None, ?g0)) (I 0)"
  proof (rule fold_rows)
    fix k st assume k: "k < length (grid_rows g)" "I (Suc k) st"
    then have "cols \<le> length (cells (grid_rows g ! k))" "Suc (n - Suc k) = n - k"
      using rows(4) assms(5) nth_mem [of k "grid_rows g"] by (auto simp: n_def)
    then show "ends_in (shrink_step reflow cols (k, grid_rows g ! k) st) (I k)"
      using shrink_step_total [OF assms(4), of "grid_rows g ! k" ?g0 "n - Suc k" st reflow k] k(2) by (simp add: I_def)
  qed (use start(8) in \<open>simp add: I_def n_def shrunk_def\<close>)
  then obtain new b g1 where f: "fold_opt (shrink_step reflow cols) (rev (enumerate 0 (grid_rows g))) ([], None, ?g0) =
      Some (new, b, g1)" "moves ?g0 g1" "line_in g1" "rows_of_width cols new" "n \<le> length new"
    by (auto simp: ends_in_iff I_def shrunk_def)
  note m = movesD [OF f(2)]
  have "ends_in (finish_shrink reflow cols (new, b, g1)) (kept_dims g1 cols)"
    by (rule ends_in_mono [OF finish_shrink_ok]) (use f m start rows assms(4) in \<open>simp_all add: n_def\<close>)
  then have "ends_in (shrink_columns reflow cols g) (kept_dims g1 cols)"
    by (simp add: columns_eq rows(1) f(1))
  then show ?thesis
    by (rule ends_in_mono) (use m start in \<open>simp add: kept_dims_def\<close>)
qed

section \<open>Resizing keeps the dimensions\<close>

lemma raw_do_frame: "raw_do op g = Some g' \<Longrightarrow> \<exists>r. g' = g\<lparr>raw := r\<rparr>"
  by (auto simp: raw_do_def)

lemma decrease_frame:
  assumes "decrease_scroll_limit n g = Some g'"
  shows "columns g' = columns g" "screen_lines g' = screen_lines g" "max_scroll_limit g' = max_scroll_limit g"
    "cursor g' = cursor g"
  using assms by (auto simp: decrease_scroll_limit_def Let_def dest!: raw_do_frame split: if_splits Option.bind_splits)

lemma move_cursors_cursor:
  "cursor_line (move_cursors f h g) = f (cursor_line g)" "cursor_column (move_cursors f h g) = cursor_column g"
  by (simp_all add: move_cursors_def cursor_line_def cursor_column_def)

lemma grow_lines_ok:
  assumes "grid_wf g" "line_in g" "screen_lines g \<le> n"
  shows "ends_in (grow_lines n g) (\<lambda>g'. grid_wf g' \<and> screen_lines g' = n \<and> columns g' = columns g \<and> line_in g' \<and>
    cursor_column g' = cursor_column g \<and> max_scroll_limit g' = max_scroll_limit g)"
proof -
  have b: "base_ok g" using assms(1) by (simp add: grid_wf_def)
  obtain g' where g': "grow_lines n g = Some g'" "grid_wf g'" using grow_lines_wf [OF assms(1,3)] by blast
  obtain g0 where g0: "raw_do (Grow_Visible n) g = Some g0" "keeps g g0" "base_ok (g0\<lparr>screen_lines := n\<rparr>)"
    "history_size (g0\<lparr>screen_lines := n\<rparr>) = history_size g"
    using grow_visible_ok [OF b assms(3)] by blast
  define k where "k = n - screen_lines g"
  define g1 where "g1 = g0\<lparr>screen_lines := n\<rparr>"
  define h where "h = min (history_size g1) k"
  note k0 = keepsD [OF g0(2)]
  have wf1: "grid_wf g1" and g1: "screen_lines g1 = n" "columns g1 = columns g" "cursor g1 = cursor g"
      "max_scroll_limit g1 = max_scroll_limit g"
    using g0(3,4) assms(1) k0 by (simp_all add: grid_wf_def g1_def)
  obtain g2 where g2: "(if h \<noteq> k then scroll_up (0, int n) (k - h) g1 else Some g1) = Some g2"
    "screen_lines g2 = n" "columns g2 = columns g" "cursor g2 = cursor g" "max_scroll_limit g2 = max_scroll_limit g"
  proof (cases "h = k")
    case True
    then show thesis using g1 that by simp
  next
    case False
    then have "region_ok (0, int n) (k - h) g1"
      using b g1(1) by (auto simp: region_ok_def base_ok_def h_def k_def)
    then obtain g2 where "scroll_up (0, int n) (k - h) g1 = Some g2" "keeps (g1\<lparr>display_offset := display_offset g2\<rparr>) g2"
      using scroll_up_eq [OF wf1] by blast
    then show thesis using False that [of g2] keepsD [of "g1\<lparr>display_offset := display_offset g2\<rparr>" g2] g1 by simp
  qed
  define g3 where "g3 = move_cursors (\<lambda>l. l + int h) (\<lambda>l. l + int h) g2"
  have e: "grow_lines n g = decrease_scroll_limit k (g3\<lparr>display_offset := display_offset g3 - k\<rparr>)"
    unfolding grow_lines_def Let_def checked_sub_Some [OF assms(3)] Option.bind.simps g0(1)
      g1_def [symmetric] k_def [symmetric] h_def [symmetric] g2(1) g3_def [symmetric] ..
  note d = decrease_frame [OF g'(1) [unfolded e]]
  have c: "cursor_line g' = cursor_line g + int h" "cursor_column g' = cursor_column g"
    using d(4) g2(4) move_cursors_cursor [of "\<lambda>l. l + int h" "\<lambda>l. l + int h" g2]
    by (simp_all add: cursor_line_def cursor_column_def g3_def)
  have "screen_lines g' = n" "columns g' = columns g" "max_scroll_limit g' = max_scroll_limit g"
    using d(1-3) g2 by (simp_all add: g3_def)
  moreover have "h \<le> n - screen_lines g" by (simp add: h_def k_def)
  then have "int h \<le> int n - int (screen_lines g)" using assms(3) by linarith
  with calculation have "line_in g'" using assms(2) c(1) by (simp add: line_in_def)
  ultimately show ?thesis using g' c(2) by (simp add: ends_in_iff)
qed

lemma shrink_screen_lines_ok:
  assumes "grid_wf g" "line_in g" "0 < n" "n \<le> screen_lines g"
  shows "ends_in (shrink_screen_lines n g) (\<lambda>g'. grid_wf g' \<and> screen_lines g' = n \<and> columns g' = columns g \<and> line_in g' \<and>
    cursor_column g' = cursor_column g \<and> max_scroll_limit g' = max_scroll_limit g)"
proof -
  have l: "0 \<le> cursor_line g" "cursor_line g < int (screen_lines g)" using assms(2) by (simp_all add: line_in_def)
  obtain g' where g': "shrink_screen_lines n g = Some g'" "grid_wf g'"
    using shrink_screen_lines_wf [OF assms(1,3,4)] l by (auto simp: cursor_line_def)
  define p where "p = nat (pt_line (point (cursor g))) + 1 - n"
  define f where "f = move_cursors (\<lambda>l. min l (int n - 1)) (\<lambda>l. l)"
  obtain g1 where g1: "(if p > 0 then map_option f (scroll_up (0, int (screen_lines g)) p g) else Some g) = Some g1"
    "screen_lines g1 = screen_lines g" "columns g1 = columns g" "max_scroll_limit g1 = max_scroll_limit g"
    "cursor_line g1 = min (cursor_line g) (int n - 1)" "cursor_column g1 = cursor_column g"
  proof (cases "p > 0")
    case True
    then have "region_ok (0, int (screen_lines g)) p g"
      using assms l by (auto simp: region_ok_def grid_wf_def base_ok_def p_def cursor_line_def)
    then obtain g2 where g2: "scroll_up (0, int (screen_lines g)) p g = Some g2"
      "keeps (g\<lparr>display_offset := display_offset g2\<rparr>) g2"
      using scroll_up_eq [OF assms(1)] by blast
    note k = keepsD [OF g2(2)]
    have "cursor_line g2 = cursor_line g" "cursor_column g2 = cursor_column g" using k(1) by (simp_all add: cursor_line_def cursor_column_def)
    then show thesis using True that [of "f g2"] g2(1) k by (simp add: f_def move_cursors_cursor)
  next
    case False
    then have "cursor_line g \<le> int n - 1" using l assms(3) by (simp add: p_def cursor_line_def)
    then show thesis using False that by simp
  qed
  define g2 where "g2 = move_cursors (\<lambda>l. l) (\<lambda>l. min l (int n - 1)) g1"
  have e: "shrink_screen_lines n g =
      Option.bind (raw_do (Rotate (int (screen_lines g - n))) g2) (\<lambda>g. Option.bind (raw_do (Shrink_Visible n) g)
        (\<lambda>g. Some (g\<lparr>screen_lines := n\<rparr>)))"
    unfolding shrink_screen_lines_def Let_def checked_sub_Some [OF assms(4)] Option.bind.simps
      p_def [symmetric] f_def [symmetric] g1(1) g2_def [symmetric] ..
  obtain r r' where "g' = g2\<lparr>raw := r, raw := r', screen_lines := n\<rparr>"
    using g'(1) [unfolded e] by (auto dest!: raw_do_frame split: Option.bind_splits)
  then have "screen_lines g' = n" "columns g' = columns g" "max_scroll_limit g' = max_scroll_limit g"
    "cursor_line g' = min (cursor_line g) (int n - 1)" "cursor_column g' = cursor_column g"
    using g1 by (simp_all add: g2_def) (simp_all add: cursor_line_def cursor_column_def move_cursors_def)
  then show ?thesis using g' l assms(3) by (simp add: ends_in_iff line_in_def)
qed

lemma set_template_simps [simp]:
  "grid_wf (set_template c g) = grid_wf g" "sized (set_template c g) = sized g" "line_in (set_template c g) = line_in g"
  "cursor_column (set_template c g) = cursor_column g" "cursor_line (set_template c g) = cursor_line g"
  "columns (set_template c g) = columns g"
  "screen_lines (set_template c g) = screen_lines g" "max_scroll_limit (set_template c g) = max_scroll_limit g"
  by (simp_all add: set_template_def sized_def line_in_def cursor_line_def cursor_column_def history_size_def)

lemma grid_resize_ok:
  assumes "grid_wf g" "line_in g" "cursor_column g < columns g" "0 < lines" "2 \<le> cols"
  shows "ends_in (grid_resize reflow lines cols g) (\<lambda>g'. sized g' \<and> columns g' = cols \<and> screen_lines g' = lines \<and>
    line_in g' \<and> cursor_column g' < cols \<and> max_scroll_limit g' = max_scroll_limit g)"
proof -
  let ?g = "set_template cell_default g"
  obtain g1 where g1: "(if screen_lines ?g < lines then grow_lines lines ?g
      else if screen_lines ?g > lines then shrink_screen_lines lines ?g else Some ?g) = Some g1"
    "grid_wf g1" "screen_lines g1 = lines" "columns g1 = columns g" "line_in g1" "cursor_column g1 = cursor_column g"
    "max_scroll_limit g1 = max_scroll_limit g"
    using grow_lines_ok [of ?g lines] shrink_screen_lines_ok [of ?g lines] assms
    by (cases "screen_lines g" lines rule: linorder_cases) (auto simp: ends_in_iff)
  obtain g2 where g2: "(if columns g1 < cols then grow_columns reflow cols g1
      else if columns g1 > cols then shrink_columns reflow cols g1 else Some g1) = Some g2"
    "sized g2" "screen_lines g2 = lines" "columns g2 = cols" "line_in g2" "cursor_column g2 < cols"
    "max_scroll_limit g2 = max_scroll_limit g"
    using grow_columns_ok [OF grid_wf_sized [OF g1(2)] g1(5), of cols reflow]
      shrink_columns_ok [OF grid_wf_sized [OF g1(2)] g1(5), of cols reflow] grid_wf_sized [OF g1(2)] g1 assms(3,5)
    by (cases "columns g1" cols rule: linorder_cases) (auto simp: ends_in_iff kept_dims_def)
  have "grid_resize reflow lines cols g = Some (set_template (template (cursor g)) g2)"
    unfolding grid_resize_def Let_def g1(1) Option.bind.simps g2(1) ..
  then show ?thesis using g2(2-7) by (simp add: ends_in_iff)
qed

end
