(* ===== verification/ReflowText.thy ===== *)
theory ReflowText
  imports GridReflow
begin

text \<open>
  What resizing in columns does to the text: the logical lines of the grid, wrapped lines joined and
  trailing blanks dropped, are the same before and after the loops of \<open>grow_columns\<close> and
  \<open>shrink_columns\<close>, for cells without wide characters; and which lines are dropped afterwards.
\<close>

section \<open>Logical lines\<close>

definition body :: "cell row \<Rightarrow> cell list" where
  "body r = map drop_wrap (cells r)"

text \<open>The logical lines of rows listed from the top, after the cells \<open>acc\<close> of a line already begun.\<close>

fun logical :: "cell list \<Rightarrow> cell row list \<Rightarrow> cell list list" where
  "logical acc [] = (if acc = [] then [] else [strip acc])"
| "logical acc (r # rows) =
     (if row_wraps r then logical (acc @ body r) rows else strip (acc @ body r) # logical [] rows)"

definition plain_cell :: "cell \<Rightarrow> bool" where
  "plain_cell c \<longleftrightarrow> \<not> has_flags (cflags c) WIDE_CHAR \<and> \<not> has_flags (cflags c) LEADING_WIDE_CHAR_SPACER"

text \<open>Rows without wide characters whose wrap flag is at the end if they have one.\<close>

definition neat_row :: "cell row \<Rightarrow> bool" where
  "neat_row r \<longleftrightarrow> (\<forall>c \<in> set (cells r). plain_cell c) \<and> (\<forall>c \<in> set (butlast (cells r)). \<not> wrap_flag c)"

section \<open>Lemmas\<close>

lemma bit_flag: "bit (push_bit k 1 :: flags) n \<longleftrightarrow> n = k \<and> k < 16"
  by (auto simp: bit_simps)

lemma flag_bits:
  fixes f :: flags
  assumes "k < 16"
  shows "has_flags f (push_bit k 1) \<longleftrightarrow> bit f k"
proof
  assume "has_flags f (push_bit k 1)"
  then have "bit (f AND push_bit k 1) k = bit (push_bit k 1 :: flags) k" by (simp add: has_flags_def)
  then show "bit f k" using assms by (simp only: bit_and_iff bit_flag) simp
next
  assume "bit f k"
  then have "f AND push_bit k 1 = push_bit k 1"
    by (intro bit_word_eqI) (auto simp only: bit_and_iff bit_flag)
  then show "has_flags f (push_bit k 1)" by (simp only: has_flags_def)
qed

lemma wrap_bits:
  fixes f :: flags
  shows "has_flags f WRAPLINE \<longleftrightarrow> bit f 4" "has_flags f WIDE_CHAR \<longleftrightarrow> bit f 5"
    "has_flags f LEADING_WIDE_CHAR_SPACER \<longleftrightarrow> bit f 10" "bit WRAPLINE n \<longleftrightarrow> n = 4"
  unfolding WRAPLINE_def WIDE_CHAR_def LEADING_WIDE_CHAR_SPACER_def by (simp_all only: flag_bits bit_flag) simp_all

lemma remove_bits: "bit (remove_flags f g) n \<longleftrightarrow> bit f n \<and> \<not> bit g n" for f :: flags
  by (cases "n < 16") (auto simp: remove_flags_def bit_and_iff bit_not_iff dest: bit_imp_le_length)

lemma wrap_flag_simps [simp]:
  "wrap_flag (add_wrap c)" "\<not> wrap_flag (drop_wrap c)" "\<not> wrap_flag cell_default"
  "drop_wrap (add_wrap c) = drop_wrap c" "drop_wrap (drop_wrap c) = drop_wrap c"
  "plain_cell (add_wrap c) = plain_cell c" "plain_cell (drop_wrap c) = plain_cell c" "plain_cell cell_default"
proof -
  have r: "remove_flags (f OR WRAPLINE) WRAPLINE = remove_flags f WRAPLINE"
    "remove_flags (remove_flags f WRAPLINE) WRAPLINE = remove_flags f WRAPLINE" for f
    by (rule bit_word_eqI, auto simp: remove_bits bit_or_iff)+
  note defs = add_wrap_def drop_wrap_def map_flags_def wrap_flag_def plain_cell_def
  show "wrap_flag (add_wrap c)" "\<not> wrap_flag (drop_wrap c)" "\<not> wrap_flag cell_default"
    "plain_cell (add_wrap c) = plain_cell c" "plain_cell (drop_wrap c) = plain_cell c" "plain_cell cell_default"
    by (simp_all add: defs wrap_bits remove_bits bit_or_iff cell_default_def)
  show "drop_wrap (add_wrap c) = drop_wrap c" "drop_wrap (drop_wrap c) = drop_wrap c"
    by (simp_all add: defs r)
qed

lemma empty_cell:
  assumes "cell_is_empty c"
  shows "\<not> wrap_flag c" "drop_wrap c = c"
proof -
  let ?m = "INVERSE OR ALL_UNDERLINES OR STRIKEOUT OR WRAPLINE OR WIDE_CHAR_SPACER OR LEADING_WIDE_CHAR_SPACER"
  have "cflags c AND ?m = 0" using assms by (simp add: cell_is_empty_def any_flags_def)
  then have "\<not> bit (cflags c AND ?m) 4" by simp
  then have b: "\<not> bit (cflags c) 4" by (simp only: bit_and_iff bit_or_iff wrap_bits) simp
  then show "\<not> wrap_flag c" by (simp add: wrap_flag_def wrap_bits)
  have "remove_flags (cflags c) WRAPLINE = cflags c"
    using b by (intro bit_word_eqI) (auto simp: remove_bits wrap_bits)
  then show "drop_wrap c = c" by (simp add: drop_wrap_def map_flags_def)
qed

lemma empty_default [simp]: "cell_is_empty cell_default"
  by (simp add: cell_is_empty_def cell_default_def any_flags_def)

lemma strip_empty: "\<forall>c \<in> set cs. cell_is_empty c \<Longrightarrow> strip (xs @ cs) = strip xs"
  by (simp add: strip_def dropWhile_append2 dropWhile_append)

lemma strip_split: "\<exists>blanks. cs = strip cs @ blanks \<and> (\<forall>c \<in> set blanks. cell_is_empty c)"
proof -
  have "rev cs = takeWhile cell_is_empty (rev cs) @ dropWhile cell_is_empty (rev cs)" by simp
  then have "cs = strip cs @ rev (takeWhile cell_is_empty (rev cs))"
    unfolding strip_def by (metis rev_append rev_rev_ident)
  then show ?thesis by (metis set_rev set_takeWhileD)
qed

lemma strip_last: "strip cs \<noteq> [] \<Longrightarrow> \<not> cell_is_empty (last (strip cs))"
  using hd_dropWhile [of cell_is_empty "rev cs"] by (simp add: strip_def last_rev)

lemma strip_full: "cs \<noteq> [] \<Longrightarrow> \<not> cell_is_empty (last cs) \<Longrightarrow> strip cs = cs"
  by (cases "rev cs") (auto simp: strip_def)

lemma logical_cong: "(\<And>acc. logical acc ys = logical acc zs) \<Longrightarrow> logical acc (xs @ ys) = logical acc (xs @ zs)"
  by (induction xs arbitrary: acc) auto

lemma body_simps [simp]:
  "body (row_append cs r) = body r @ map drop_wrap cs" "body (row_map_last add_wrap r) = body r"
  "body (row_map_last drop_wrap r) = body r" "body (row_append_front cs r) = map drop_wrap cs @ body r"
proof -
  have "map drop_wrap (butlast cs @ [f (last cs)]) = map drop_wrap cs"
    if "cs \<noteq> []" "\<And>c. drop_wrap (f c) = drop_wrap c" for cs f
  proof -
    have "map drop_wrap cs = map drop_wrap (butlast cs @ [last cs])" using that(1) by simp
    then show ?thesis using that(2) by simp
  qed
  then show "body (row_map_last add_wrap r) = body r" "body (row_map_last drop_wrap r) = body r"
    by (simp_all add: body_def row_map_last_def)
qed (simp_all add: body_def row_append_front_def)

lemma row_wraps_simps [simp]:
  "row_wraps (row_map_last add_wrap r) \<longleftrightarrow> cells r \<noteq> []" "\<not> row_wraps (row_map_last drop_wrap r)"
  "cells r \<noteq> [] \<Longrightarrow> row_wraps (row_append_front cs r) = row_wraps r"
  by (simp_all add: row_wraps_def row_map_last_def row_append_front_def)

lemma row_wraps_clear: "row_is_clear cell_is_empty r \<Longrightarrow> \<not> row_wraps r"
  using empty_cell(1) by (auto simp: row_is_clear_def row_wraps_def list_all_iff)

lemma body_clear: "row_is_clear cell_is_empty r \<Longrightarrow> \<forall>c \<in> set (body r). cell_is_empty c"
  using empty_cell(2) by (auto simp: row_is_clear_def body_def list_all_iff)

section \<open>Growing\<close>

lemma open_row_plain:
  assumes "\<forall>c \<in> set (cells r). plain_cell c"
  shows "open_row r = row_map_last drop_wrap r"
proof -
  let ?r = "row_map_last drop_wrap r"
  have "\<forall>c \<in> set (cells ?r). plain_cell c"
    using assms by (auto simp: row_map_last_def dest: in_set_butlastD)
  then have f: "\<not> (1 \<le> length (cells ?r) \<and> has_flags (cflags (cells ?r ! (length (cells ?r) - 1))) LEADING_WIDE_CHAR_SPACER)"
    using nth_mem [of "length (cells ?r) - 1" "cells ?r"] by (auto simp: plain_cell_def)
  show ?thesis unfolding open_row_def Let_def if_not_P [OF f] ..
qed

lemma pull_cells_plain:
  assumes "\<forall>c \<in> set (cells r). plain_cell c" "cells r \<noteq> []" "0 < n"
  shows "ends_in (pull_cells n r) (\<lambda>(r', cs, m). m = n \<and> cs = take n (cells r) \<and> cells r' = drop n (cells r))"
proof -
  have "1 \<le> length (cells r)" using assms(2) by (simp add: Suc_le_eq)
  moreover have "cells r ! (min (length (cells r)) n - 1) \<in> set (cells r)"
    using assms(2,3) by (intro nth_mem) (auto simp: min_def)
  then have "\<not> has_flags (cflags (cells r ! (min (length (cells r)) n - 1))) WIDE_CHAR"
    using assms(1) by (simp add: plain_cell_def)
  ultimately show ?thesis
    using assms(2,3) by (simp add: pull_cells_def Let_def row_front_split_off_def) (auto simp: min_def)
qed

text \<open>Two rows before and after cells moved up: nothing is left of the second, or something is.\<close>

lemma join_rows:
  assumes "row_wraps lr" "neat_row row" "cells row \<noteq> []" "0 < n" "cells row' = drop n (cells row)"
  defines "last_row \<equiv> row_append (take n (cells row)) (row_map_last drop_wrap lr)"
  shows "row_is_clear cell_is_empty row' \<Longrightarrow> logical acc (last_row # rows) = logical acc (lr # row # rows)"
    and "cells row' \<noteq> [] \<Longrightarrow> logical acc (row_map_last add_wrap last_row # row' # rows) = logical acc (lr # row # rows)"
proof -
  let ?t = "take n (cells row)"
  have t: "?t \<noteq> []" using assms(3,4) by simp
  have split: "body row = map drop_wrap ?t @ body row'"
    unfolding body_def assms(5) by (subst append_take_drop_id [of n, symmetric]) (simp del: append_take_drop_id)
  have b: "body last_row = body lr @ map drop_wrap ?t" by (simp add: last_row_def)
  have w: "row_wraps last_row = wrap_flag (last ?t)" using t by (simp add: last_row_def row_wraps_def)
  show "logical acc (last_row # rows) = logical acc (lr # row # rows)" if clear: "row_is_clear cell_is_empty row'"
  proof (cases "cells row' = []")
    case True
    then have "?t = cells row" using assms(5) by simp
    then have "row_wraps last_row = row_wraps row" using w assms(3) by (simp add: row_wraps_def)
    moreover have "body row' = []" using True by (simp add: body_def)
    ultimately show ?thesis using assms(1) b split by simp
  next
    case False
    then have n: "n < length (cells row)" using assms(5) by simp
    have "\<not> row_wraps row" using row_wraps_clear [OF clear] False assms(3,5) n by (simp add: row_wraps_def)
    moreover have "last ?t \<in> set (butlast (cells row))"
    proof -
      have "take n (butlast (cells row)) = ?t" using n by (simp add: take_butlast)
      then show ?thesis using t last_in_set [OF t] by (metis in_set_takeD)
    qed
    then have "\<not> row_wraps last_row" using w assms(2) by (auto simp: neat_row_def)
    moreover have "strip (acc @ body lr @ body row) = strip (acc @ body lr @ map drop_wrap ?t)"
      using strip_empty [OF body_clear [OF clear], of "acc @ body lr @ map drop_wrap ?t"] by (simp add: split)
    ultimately show ?thesis using assms(1) b by simp
  qed
  show "logical acc (row_map_last add_wrap last_row # row' # rows) = logical acc (lr # row # rows)" if ne: "cells row' \<noteq> []"
  proof -
    have "row_wraps row' = row_wraps row" using ne assms(3,5) by (simp add: row_wraps_def)
    moreover have "cells last_row \<noteq> []" using t by (simp add: last_row_def)
    ultimately show ?thesis using assms(1) b split by simp
  qed
qed

text \<open>When the whole row was pulled up, the cursor leaves it.\<close>

lemma point_sub_up:
  assumes "columns g = cols" "n < cols" "pt_column p < cols" "1 \<le> pt_line p" "pt_line p < int (screen_lines g)"
  shows "point_sub g Cursor_Boundary n p =
    (if n \<le> pt_column p then p\<lparr>pt_column := pt_column p - n\<rparr>
     else \<lparr>pt_line = pt_line p - 1, pt_column = cols + pt_column p - n\<rparr>)"
proof -
  have d: "(n + cols - 1 - pt_column p) div cols = (if n \<le> pt_column p then 0 else 1)"
  proof (cases "n \<le> pt_column p")
    case True
    then have "n + cols - 1 - pt_column p < cols" using assms(2) by linarith
    then show ?thesis using True by simp
  next
    case False
    define q where "q = n - 1 - pt_column p"
    have "n + cols - 1 - pt_column p = q + cols" "q < cols" using False assms(2) by (simp_all add: q_def)
    moreover have "(q + cols) div cols = 1" using \<open>q < cols\<close> by (subst div_add_self2) simp_all
    ultimately show ?thesis using False by simp
  qed
  have m: "(cols + pt_column p - n mod cols) mod cols = (if n \<le> pt_column p then pt_column p - n else cols + pt_column p - n)"
  proof (cases "n \<le> pt_column p")
    case True
    then have e: "cols + pt_column p - n = cols + (pt_column p - n)" by simp
    have "pt_column p - n < cols" using assms(3) by simp
    then show ?thesis using True assms(2) by (simp add: e del: add_diff_assoc add_diff_assoc2)
  next
    case False
    then show ?thesis using assms(2) by simp
  qed
  have c: "(if n \<le> pt_column p then pt_column p - n else cols + pt_column p - n) \<le> cols - 1"
    using assms(2,3) by auto
  have l: "0 \<le> pt_line p - int (if n \<le> pt_column p then 0 else 1)"
    "pt_line p - int (if n \<le> pt_column p then 0 else 1) \<le> int (screen_lines g) - 1" using assms(4,5) by auto
  have "point_sub g Cursor_Boundary n p =
      \<lparr>pt_line = pt_line p - int (if n \<le> pt_column p then 0 else 1),
       pt_column = (if n \<le> pt_column p then pt_column p - n else cols + pt_column p - n)\<rparr>"
    unfolding point_sub_def assms(1) Let_def d m point_clamp_def bottommost_line_def last_column_def
    using c l by (simp only: point.simps min.absorb1) simp
  then show ?thesis by simp
qed

lemma pull_cursor_up:
  assumes "columns g = cols" "cursor_column g \<le> n" "n < cols" "0 < n" "1 \<le> cursor_line g" "line_in g"
    and "pull_cursor n True g = (g', d)"
  shows "d \<noteq> 0"
proof -
  let ?p = "point (cursor g)"
  have l: "1 \<le> pt_line ?p" "pt_line ?p < int (screen_lines g)" and c: "pt_column ?p \<le> n" "pt_column ?p < cols"
    using assms(2,3,5,6) by (simp_all add: cursor_line_def cursor_column_def line_in_def)
  show ?thesis
  proof (cases "pt_column ?p = n")
    case True
    have t: "point_sub g Cursor_Boundary n ?p = \<lparr>pt_line = pt_line ?p, pt_column = 0\<rparr>"
      using point_sub_up [OF assms(1,3) c(2) l] True by simp
    have "1 < cols" using assms(3,4) by simp
    then have "point_sub g Cursor_Boundary 1 \<lparr>pt_line = pt_line ?p, pt_column = 0\<rparr> =
        \<lparr>pt_line = pt_line ?p - 1, pt_column = cols - 1\<rparr>"
      using point_sub_up [OF assms(1), of 1 "\<lparr>pt_line = pt_line ?p, pt_column = 0\<rparr>"] l by simp
    then show ?thesis
      using assms(7) by (auto simp: pull_cursor_def t Let_def cursor_line_def set_cursor_column_def set_needs_wrap_def)
  next
    case False
    then have "point_sub g Cursor_Boundary n ?p = \<lparr>pt_line = pt_line ?p - 1, pt_column = cols + pt_column ?p - n\<rparr>"
      using point_sub_up [OF assms(1,3) c(2) l] c by simp
    moreover have "cols + pt_column ?p - n \<noteq> 0" using assms(3) by simp
    ultimately show ?thesis
      using assms(7) by (auto simp: pull_cursor_def Let_def cursor_line_def set_cursor_column_def)
  qed
qed


lemma pull_cursor_le:
  assumes "columns g = cols" "cursor_column g < cols" "n < cols" "1 \<le> cursor_line g" "line_in g"
    and "pull_cursor n clear g = (g', d)" "1 < cols"
  shows "d \<le> 1"
proof -
  let ?p = "point (cursor g)" and ?q = "point_sub g Cursor_Boundary n (point (cursor g))"
  have l: "1 \<le> pt_line ?p" "pt_line ?p < int (screen_lines g)" and c: "pt_column ?p < cols"
    using assms(2,4,5) by (simp_all add: cursor_line_def cursor_column_def line_in_def)
  note q = point_sub_up [OF assms(1,3) c l]
  have "pt_line ?p \<le> pt_line (if pt_column ?q = 0 \<and> clear then point_sub g Cursor_Boundary 1 ?q else ?q) + 1"
  proof (cases "n \<le> pt_column ?p")
    case True
    then have q': "?q = ?p\<lparr>pt_column := pt_column ?p - n\<rparr>" using q by simp
    then show ?thesis
      using point_sub_up [OF assms(1), of 1 ?q] l c assms(7) by auto
  next
    case False
    then show ?thesis using q assms(3) by simp
  qed
  then show ?thesis
    using assms(6) by (auto simp: pull_cursor_def Let_def cursor_line_def set_cursor_column_def set_needs_wrap_def split: if_splits)
qed

text \<open>The loop of \<open>grow_columns\<close> with \<open>k\<close> rows to go: the text so far and to come is that of the rows.\<close>

definition grow_text :: "grid \<Rightarrow> nat \<Rightarrow> nat \<Rightarrow> bool \<Rightarrow> cell row list \<Rightarrow> nat \<Rightarrow> growing \<Rightarrow> bool" where
  "grow_text g0 cols old reflow rows k =
     (\<lambda>(built, g, delta). grow_inv g0 cols (length rows) k (built, g, delta) \<and>
        logical [] (rev built @ rev (take k rows)) = logical [] (rev rows) \<and>
        (\<forall>r \<in> set built. \<forall>c \<in> set (cells r). plain_cell c) \<and> 1 \<le> cursor_line g \<and>
        (nat (int (screen_lines g) - 1 - cursor_line g) < k \<longrightarrow> cursor_column g \<le> old) \<and>
        (reflow \<longrightarrow> (\<forall>r \<in> set (tl built). row_wraps r \<longrightarrow> cols \<le> length (cells r))) \<and>
        delta \<le> (if nat (int (screen_lines g) - 1 - cursor_line g) < k then 0 else 1))"

lemma plain_row_ops:
  "\<forall>c \<in> set (cells r). plain_cell c \<Longrightarrow> \<forall>c \<in> set (cells (row_map_last drop_wrap r)). plain_cell c"
  "\<forall>c \<in> set (cells r). plain_cell c \<Longrightarrow> \<forall>c \<in> set (cells (row_map_last add_wrap r)). plain_cell c"
  "\<forall>c \<in> set (cells r). plain_cell c \<Longrightarrow> \<forall>c \<in> set cs. plain_cell c \<Longrightarrow> \<forall>c \<in> set (cells (row_append cs r)). plain_cell c"
  by (auto simp: row_map_last_def dest: in_set_butlastD)

lemma grow_step_text:
  assumes "columns g0 = cols" "k < length rows" "neat_row (rows ! k)" "length (cells (rows ! k)) = old" "0 < old" "old < cols"
    and "grow_text g0 cols old reflow rows (Suc k) st"
  shows "ends_in (grow_step reflow cols (k, rows ! k) st) (grow_text g0 cols old reflow rows k)"
proof -
  obtain built g delta where st: "st = (built, g, delta)" by (cases st)
  let ?row = "rows ! k" and ?n = "nat (int (screen_lines g) - 1 - cursor_line g)"
  have inv: "grow_inv g0 cols (length rows) (Suc k) st" "moves g0 g" "line_in g"
      "logical [] (rev built @ ?row # rev (take k rows)) = logical [] (rev rows)"
      "\<forall>r \<in> set built. \<forall>c \<in> set (cells r). plain_cell c" "1 \<le> cursor_line g" "?n < Suc k \<longrightarrow> cursor_column g \<le> old"
      "reflow \<longrightarrow> (\<forall>r \<in> set (tl built). row_wraps r \<longrightarrow> cols \<le> length (cells r))"
      "delta \<le> (if ?n < Suc k then 0 else 1)" "cursor_column g < cols"
    using assms(2,7) by (simp_all add: grow_text_def st grow_inv_def take_Suc_conv_app_nth)
  have ne: "?row \<in> set rows" "cells ?row \<noteq> []" "\<forall>c \<in> set (cells ?row). plain_cell c"
    using assms(2-5) by (auto simp: neat_row_def)
  have safe: "ends_in (grow_step reflow cols (k, ?row) st) (grow_inv g0 cols (length rows) k)"
    using grow_step_inv [OF assms(1) _ ne(2) _ inv(1)] assms(4-6) by simp
  show ?thesis
  proof (cases "built = [] \<or> \<not> should_reflow reflow cols (hd built)")
    case True
    have "reflow \<longrightarrow> (\<forall>r \<in> set built. row_wraps r \<longrightarrow> cols \<le> length (cells r))"
      using True inv(8) by (cases built) (auto simp: should_reflow_def row_wraps_def)
    moreover have "delta \<le> (if ?n < k then 0 else 1)" using inv(9) by (auto split: if_splits)
    ultimately show ?thesis
      using True safe inv(2-7) ne(3) by (simp add: grow_step_def st grow_text_def)
  next
    case False
    then obtain lr rest where built: "built = lr # rest" "should_reflow reflow cols lr" by (cases built) auto
    have lr: "row_wraps lr" "length (cells lr) < cols" "0 < length (cells lr)" "\<forall>c \<in> set (cells lr). plain_cell c"
      using built inv(5) by (auto simp: should_reflow_def row_wraps_def)
    note open_eq = open_row_plain [OF lr(4)]
    let ?nw = "cols - length (cells lr)"
    obtain row' where p: "pull_cells ?nw ?row = Some (row', take ?nw (cells ?row), ?nw)" "cells row' = drop ?nw (cells ?row)"
      using pull_cells_plain [OF ne(3,2), of ?nw] lr(2) by (auto simp: ends_in_iff)
    define last_row where "last_row = row_append (take ?nw (cells ?row)) (row_map_last drop_wrap lr)"
    have pl: "\<forall>c \<in> set (cells last_row). plain_cell c" "\<forall>c \<in> set (cells (row_map_last add_wrap last_row)). plain_cell c"
      "\<forall>c \<in> set (cells row'). plain_cell c"
    proof -
      show last: "\<forall>c \<in> set (cells last_row). plain_cell c"
        unfolding last_row_def using ne(3) by (intro plain_row_ops(3) plain_row_ops(1) lr(4)) (auto dest: in_set_takeD)
      show "\<forall>c \<in> set (cells (row_map_last add_wrap last_row)). plain_cell c" by (rule plain_row_ops(2) [OF last])
      show "\<forall>c \<in> set (cells row'). plain_cell c" using ne(3) p(2) by (auto dest: in_set_dropD)
    qed
    have drop_case: "logical [] (rev rest @ last_row # rev (take k rows)) = logical [] (rev rows)"
      if "row_is_clear cell_is_empty row'"
    proof -
      have "logical [] (rev rest @ last_row # rev (take k rows)) = logical [] (rev rest @ lr # ?row # rev (take k rows))"
        using join_rows(1) [OF lr(1) assms(3) ne(2) _ p(2) that] lr(2) by (intro logical_cong) (simp add: last_row_def)
      then show ?thesis using inv(4) by (simp add: built(1))
    qed
    have push_case: "logical [] (rev rest @ row_map_last add_wrap last_row # row' # rev (take k rows)) = logical [] (rev rows)"
      if "cells row' \<noteq> []"
    proof -
      have "logical [] (rev rest @ row_map_last add_wrap last_row # row' # rev (take k rows)) =
          logical [] (rev rest @ lr # ?row # rev (take k rows))"
        using join_rows(2) [OF lr(1) assms(3) ne(2) _ p(2) that] lr(2) by (intro logical_cong) (simp add: last_row_def)
      then show ?thesis using inv(4) by (simp add: built(1))
    qed
    have dims: "columns g = cols" "0 < columns g" "0 < screen_lines g"
      using movesD(1) [OF inv(2)] assms(1,6) inv(3) by (auto simp: line_in_def)
    define clear where "clear = row_is_clear cell_is_empty row'"
    obtain g' d where c: "pull_cursor ?nw clear g = (g', d)" by fastforce
    have g': "cursor_line g' = cursor_line g" "screen_lines g' = screen_lines g"
      using pull_cursor_moves [OF c dims(2,3)] by auto
    have d: "d \<le> 1" by (rule pull_cursor_le [OF dims(1) inv(10) _ inv(6,3) c]) (use lr(2,3) assms(5,6) in linarith)+
    have rest: "reflow \<longrightarrow> (\<forall>r \<in> set rest. row_wraps r \<longrightarrow> cols \<le> length (cells r))" using inv(8) by (simp add: built(1))
    have wide: "cells row' \<noteq> [] \<Longrightarrow> length (cells last_row) = cols"
      using p(2) lr(2) by (simp add: last_row_def)
    have up: "d \<noteq> 0" if "k = ?n" "cells row' = []"
    proof -
      have "cursor_column g \<le> old" "old \<le> ?nw" using inv(7) that p(2) assms(4) by simp_all
      then have "cursor_column g \<le> ?nw" by simp
      moreover have "clear" using that(2) by (simp add: clear_def row_is_clear_def)
      ultimately show ?thesis
        using pull_cursor_up [OF dims(1), of ?nw g' d] lr(2,3) inv(3,6) c by simp
    qed
    have full: "\<not> clear \<Longrightarrow> cells row' \<noteq> []" by (auto simp: clear_def row_is_clear_def)
    let ?last = "last_row # rest" and ?both = "row' # row_map_last add_wrap last_row # rest"
    let ?g = "if k < display_offset g then g\<lparr>display_offset := display_offset g - 1\<rparr> else g"
    let ?g1 = "if k < ?n then set_cursor_line (cursor_line ?g + 1) ?g else ?g"
    have step: "grow_step reflow cols (k, ?row) st =
        (if k = ?n \<and> reflow then
           (if d \<noteq> 0 \<and> clear then Some (?last, g', delta) else Some (?both, g', delta + nat d))
         else if clear then Some (?last, ?g1, delta) else Some (?both, g, delta))"
      unfolding st grow_step_def prod.case built(1) list.sel list.simps if_not_P [OF False [unfolded built(1) list.sel list.simps]]
        Let_def open_eq length_row_map_last checked_sub_Some [OF less_imp_le [OF lr(2)]] Option.bind.simps p(1)
        last_row_def [symmetric] cursor_buffer_line_Some [OF inv(3)] clear_def [symmetric] c ..
    have lines: "cursor_line ?g1 = (if k < ?n then cursor_line g + 1 else cursor_line g)" "screen_lines ?g1 = screen_lines g"
      "cursor_column ?g1 = cursor_column g" by simp_all
    have col: "nat (int (screen_lines ?g1) - 1 - cursor_line ?g1) < k \<longrightarrow> cursor_column ?g1 \<le> old"
      using inv(7) unfolding lines by auto
    have del: "delta \<le> (if nat (int (screen_lines ?g1) - 1 - cursor_line ?g1) < k then 0 else 1)"
      using inv(9) unfolding lines by auto
    have del0: "delta \<le> (if ?n < k then 0 else 1)" using inv(9) by (auto split: if_splits)
    have col': "k \<noteq> ?n \<Longrightarrow> ?n < k \<longrightarrow> cursor_column g \<le> old" using inv(7) by simp
    show ?thesis
    proof (cases "k = ?n \<and> reflow")
      case True
      have s: "grow_step reflow cols (k, ?row) st =
          (if d \<noteq> 0 \<and> clear then Some (?last, g', delta) else Some (?both, g', delta + nat d))"
        unfolding step if_P [OF True] ..
      have delta0: "delta = 0" using inv(9) True by simp
      have n': "\<not> nat (int (screen_lines g') - 1 - cursor_line g') < k" using True g' by simp
      show ?thesis
      proof (cases "d \<noteq> 0 \<and> clear")
        case drop: True
        then show ?thesis
          using s safe drop_case inv(5,6) g'(1) pl rest delta0 unfolding grow_text_def
          by (simp add: built(1) clear_def n' [unfolded g'(1)] del: not_less)
      next
        case push: False
        then have "cells row' \<noteq> []" using up full True by blast
        then show ?thesis
          using s safe push push_case inv(5,6) g'(1) pl rest wide d delta0 unfolding grow_text_def
          by (simp add: built(1) n' [unfolded g'(1)] del: not_less)
      qed
    next
      case other: False
      have s: "grow_step reflow cols (k, ?row) st = (if clear then Some (?last, ?g1, delta) else Some (?both, g, delta))"
        unfolding step if_not_P [OF other] ..
      show ?thesis
      proof (cases clear)
        case drop: True
        have "1 \<le> cursor_line ?g1" using lines(1) inv(6) by simp
        then show ?thesis
          using s safe drop drop_case inv(5) col pl rest del unfolding grow_text_def by (simp add: built(1) clear_def)
      next
        case push: False
        have "k \<noteq> ?n" using other built(2) by (auto simp: should_reflow_def)
        then show ?thesis
          using s safe push push_case full inv(5,6) col' pl rest wide del0 by (simp add: grow_text_def built(1))
      qed
    qed
  qed
qed


lemma body_grow: "body (row_grow cell_default cols r) = body r @ replicate (cols - length (cells r)) cell_default"
  using empty_cell(2) [OF empty_default] by (simp add: row_grow_def body_def)

lemma strip_grow: "strip (acc @ body (row_grow cell_default cols r)) = strip (acc @ body r)"
  using strip_empty [of "replicate (cols - length (cells r)) cell_default" "acc @ body r"] by (simp add: body_grow)

lemma row_wraps_grow: "row_wraps r \<longrightarrow> cols \<le> length (cells r) \<Longrightarrow> row_wraps (row_grow cell_default cols r) = row_wraps r"
  by (auto simp: row_wraps_def row_grow_def)

text \<open>Filling up rows keeps the text when only the last of them may be wrapped and short.\<close>

lemma logical_grow:
  assumes "\<forall>r \<in> set (butlast rows). row_wraps r \<longrightarrow> cols \<le> length (cells r)"
  shows "logical acc (map (row_grow cell_default cols) rows) = logical acc rows"
  using assms
proof (induction rows arbitrary: acc)
  case (Cons r rows)
  show ?case
  proof (cases "rows = []")
    case True
    have "row_wraps r \<Longrightarrow> body r \<noteq> []" by (simp add: body_def row_wraps_def)
    moreover from this have "row_wraps r \<Longrightarrow> body (row_grow cell_default cols r) \<noteq> []" by (simp add: body_grow)
    moreover have "row_wraps r" if "row_wraps (row_grow cell_default cols r)"
    proof (rule ccontr)
      assume n: "\<not> row_wraps r"
      then have "\<not> row_wraps (row_grow cell_default cols r)" by (subst row_wraps_grow) simp_all
      then show False using that ..
    qed
    ultimately show ?thesis using True strip_grow [of acc cols r] by auto
  next
    case False
    then have r: "row_wraps r \<longrightarrow> cols \<le> length (cells r)" using Cons.prems by simp
    have "\<forall>r \<in> set (butlast rows). row_wraps r \<longrightarrow> cols \<le> length (cells r)" using Cons.prems False by simp
    then have "logical acc (map (row_grow cell_default cols) rows) = logical acc rows" for acc
      using Cons.IH by simp
    moreover have "row_wraps r \<Longrightarrow> body (row_grow cell_default cols r) = body r" using r by (simp add: body_grow)
    ultimately show ?thesis using row_wraps_grow [OF r] strip_grow [of acc cols r] by simp
  qed
qed simp

text \<open>The text of the grid after \<open>grow_columns\<close>: that of the grid before, blank lines below to fill the
  screen, at most one line less at the bottom.\<close>

lemma grow_keeps_text:
  assumes "sized g" "line_in g" "1 \<le> cursor_line g" "cursor_column g < columns g" "columns g < cols"
    and "\<forall>r \<in> set (grid_rows g). neat_row r"
  shows "\<exists>g' rows k. grow_columns True cols g = Some g' \<and> logical [] (rev rows) = logical [] (rev (grid_rows g)) \<and>
    grid_rows g' = drop k (replicate (screen_lines g - length rows) (row_new cell_default cols) @ rows) \<and> k \<le> 1"
proof -
  let ?g0 = "loop_start True cols g" and ?rows = "grid_rows g"
  note start = start_loop [OF assms(1,2,4), where reflow = True and cols = cols]
  note rows = loop_rows [OF assms(1)]
  let ?I = "grow_text ?g0 cols (columns g) True ?rows"
  have "ends_in (fold_opt (grow_step True cols) (rev (enumerate 0 ?rows)) ([], ?g0, 0)) (?I 0)"
  proof (rule fold_rows)
    fix k st assume "k < length ?rows" "?I (Suc k) st"
    then show "ends_in (grow_step True cols (k, ?rows ! k) st) (?I k)"
      using grow_step_text [OF start(1)] assms(5,6) rows(4,5) nth_mem by blast
  qed (use start(8-10) assms(3,5) in \<open>simp add: grow_inv_def grow_text_def\<close>)
  then obtain built g1 delta where f: "fold_opt (grow_step True cols) (rev (enumerate 0 ?rows)) ([], ?g0, 0) = Some (built, g1, delta)"
    "?I 0 (built, g1, delta)" by (auto simp: ends_in_iff)
  have b: "moves ?g0 g1" "line_in g1" "cursor_column g1 < cols" "\<forall>r \<in> set built. length (cells r) \<le> cols"
    "length built \<le> length ?rows" "logical [] (rev built) = logical [] (rev ?rows)"
    "\<forall>r \<in> set (tl built). row_wraps r \<longrightarrow> cols \<le> length (cells r)" "delta \<le> 1"
    using f(2) by (simp_all add: grow_text_def grow_inv_def)
  note m = movesD [OF b(1)]
  have "ends_in (finish_grow cols (built, g1, delta)) (\<lambda>g'. kept_dims g1 cols g' \<and>
    (\<exists>k. grid_rows g' = map (row_grow cell_default cols)
       (drop k (replicate (screen_lines g1 - length built) (row_new cell_default cols) @ built)) \<and> k \<le> delta))"
    by (rule finish_grow_ok) (use b m start rows assms(5) in simp_all)
  then obtain g' k where g': "finish_grow cols (built, g1, delta) = Some g'" "k \<le> delta"
    "grid_rows g' = map (row_grow cell_default cols) (drop k (replicate (screen_lines g1 - length built) (row_new cell_default cols) @ built))"
    by (auto simp: ends_in_iff)
  have "row_grow cell_default cols (row_new cell_default cols) = row_new cell_default cols"
    by (simp add: row_grow_def row_new_def)
  then have "grid_rows g' = drop k (replicate (screen_lines g - length (map (row_grow cell_default cols) built))
      (row_new cell_default cols) @ map (row_grow cell_default cols) built)"
    using g'(3) m(2) start(2) by (simp add: drop_map [symmetric])
  moreover have "logical [] (rev (map (row_grow cell_default cols) built)) = logical [] (rev built)"
    unfolding rev_map using b(7) by (intro logical_grow) (simp add: butlast_rev)
  moreover have "grow_columns True cols g = Some g'" by (simp add: columns_eq rows(1) f(1) g'(1))
  ultimately show ?thesis using b(6,8) g'(2) by (intro exI [of _ g'] exI [of _ "map (row_grow cell_default cols) built"] exI [of _ k]) simp
qed

section \<open>Shrinking\<close>

definition with_buffer :: "cell list option \<Rightarrow> cell row list \<Rightarrow> cell row list" where
  "with_buffer b rows = (case b of None \<Rightarrow> rows | Some b \<Rightarrow> row_append_front b (hd rows) # tl rows)"

lemma push_wide_plain:
  assumes "\<forall>c \<in> set (cells row). plain_cell c" "length (cells row) = cols" "0 < cols"
  shows "push_wide cols row w = Some (row, w)"
proof -
  have "cells row ! (cols - 1) \<in> set (cells row)" using assms(2,3) by (intro nth_mem) simp
  then have "\<not> has_flags (cflags (cells row ! (cols - 1))) WIDE_CHAR" using assms(1) by (simp add: plain_cell_def)
  then show ?thesis using assms(2,3) by (simp add: push_wide_def checked_sub_Some)
qed

text \<open>One round of the inner loop, for rows without wide characters.\<close>

lemma shrink_once_plain:
  assumes "\<forall>c \<in> set (cells row). plain_cell c" "cols \<le> length (cells row)" "0 < cols"
    and "cut_row True cols i g row = Some (row1, ct)" "cells row1 = take cols (cells row)"
    and "\<forall>w. ct = Some w \<longrightarrow> (\<forall>c \<in> set w. plain_cell c)"
  shows "shrink_once True cols i row new_raw g =
    (case ct of
       None \<Rightarrow> Some (Inl (row1 # new_raw, None, g))
     | Some w \<Rightarrow>
         if w \<noteq> [] \<and> wrap_flag (last w) \<and> i \<ge> 1 \<and> length w < cols
         then Some (Inl (row_map_last add_wrap row1 # new_raw, Some (butlast w @ [drop_wrap (last w)]), g))
         else map_option (\<lambda>g. Inr (row_from_vec (w @ replicate (cols - length w) cell_default) (length w),
             row_map_last add_wrap row1 # new_raw,
             if i < display_offset g then g\<lparr>display_offset := display_offset g + 1\<rparr> else g)) (shrink_cursor cols i g))"
proof (cases ct)
  case None
  then show ?thesis using assms(4) by (simp add: shrink_once_def)
next
  case (Some w)
  have p: "push_wide cols row1 w = Some (row1, w)"
    using assms(1-3,5) by (intro push_wide_plain) (auto dest: in_set_takeD)
  have n: "\<not> (w \<noteq> [] \<and> has_flags (cflags (last w)) LEADING_WIDE_CHAR_SPACER)"
    using assms(6) Some by (auto simp: plain_cell_def)
  then have n': "\<not> ((w \<noteq> [] \<and> has_flags (cflags (last w)) LEADING_WIDE_CHAR_SPACER) \<and> length w = 1)" by blast
  show ?thesis
    unfolding shrink_once_def assms(4) Some Option.bind.simps prod.case option.case p Let_def if_not_P [OF n] if_not_P [OF n']
    by (cases "shrink_cursor cols i g") simp_all
qed

text \<open>A row cut in two: what is left of the cells behind the width, and the blanks dropped after it.\<close>

lemma row_cut:
  assumes "neat_row row" "cols < length (cells row)" "0 < cols"
  defines "w \<equiv> strip (drop cols (cells row))"
  shows "\<forall>c \<in> set w. plain_cell c" "\<forall>c \<in> set (butlast w). \<not> wrap_flag c"
    "\<not> wrap_flag (last (take cols (cells row)))" "row_wraps row \<longleftrightarrow> w \<noteq> [] \<and> wrap_flag (last w)"
    "row_wraps row \<Longrightarrow> w = drop cols (cells row)"
    "\<exists>blanks. body row = map drop_wrap (take cols (cells row)) @ map drop_wrap w @ blanks \<and> (\<forall>c \<in> set blanks. cell_is_empty c)"
proof -
  let ?d = "drop cols (cells row)"
  obtain bs where bs: "?d = w @ bs" "\<forall>c \<in> set bs. cell_is_empty c" using strip_split [of ?d] by (auto simp: w_def)
  have all: "cells row = take cols (cells row) @ w @ bs" using bs(1) by (metis append_take_drop_id)
  have ne: "?d \<noteq> []" "cells row \<noteq> []" using assms(2) by auto
  have inner: "\<forall>c \<in> set (butlast (cells row)). \<not> wrap_flag c" "\<forall>c \<in> set (cells row). plain_cell c"
    using assms(1) by (simp_all add: neat_row_def)
  have "set w \<subseteq> set (cells row)" by (subst all) auto
  then show "\<forall>c \<in> set w. plain_cell c" using inner(2) by blast
  have bl: "butlast (cells row) = take cols (cells row) @ butlast ?d"
    using ne by (metis append_take_drop_id butlast_append)
  have "set (butlast w) \<subseteq> set (butlast ?d)" unfolding bs(1) by (auto simp: butlast_append dest: in_set_butlastD)
  then show "\<forall>c \<in> set (butlast w). \<not> wrap_flag c" using inner(1) bl by auto
  have "last (take cols (cells row)) \<in> set (take cols (cells row))" using ne assms(3) by (intro last_in_set) auto
  then show "\<not> wrap_flag (last (take cols (cells row)))" using inner(1) bl by auto
  have l: "last (cells row) = last ?d" using ne assms(2) by (simp add: last_drop)
  show eq: "row_wraps row \<longleftrightarrow> w \<noteq> [] \<and> wrap_flag (last w)"
  proof (cases "bs = []")
    case True
    then show ?thesis using ne l bs(1) by (simp add: row_wraps_def)
  next
    case False
    then have "last ?d = last bs" "cell_is_empty (last bs)" using bs by auto
    then have "\<not> row_wraps row" using l empty_cell(1) by (simp add: row_wraps_def)
    moreover have "\<not> wrap_flag (last w)" if "w \<noteq> []"
    proof -
      have "last w \<in> set (butlast ?d)" using False that unfolding bs(1) by (simp add: butlast_append)
      then show ?thesis using inner(1) bl by auto
    qed
    ultimately show ?thesis by blast
  qed
  show "w = ?d" if "row_wraps row"
  proof (rule ccontr)
    assume "w \<noteq> ?d"
    then have "bs \<noteq> []" using bs(1) by auto
    then have "last (cells row) = last bs" "last bs \<in> set bs" using l bs(1) by auto
    then show False using that bs(2) empty_cell(1) by (auto simp: row_wraps_def)
  qed
  have "map drop_wrap bs = bs" using bs(2) empty_cell(2) by (simp add: map_idI)
  then have "body row = map drop_wrap (take cols (cells row)) @ map drop_wrap w @ bs"
    unfolding body_def by (subst all) simp
  then show "\<exists>blanks. body row = map drop_wrap (take cols (cells row)) @ map drop_wrap w @ blanks \<and> (\<forall>c \<in> set blanks. cell_is_empty c)"
    using bs(2) by blast
qed

text \<open>A row that is cut down to its width, when nothing but blanks is cut.\<close>

lemma trimmed_row:
  assumes "cols < length (cells row) \<longrightarrow> neat_row row" "cols \<le> length (cells row)" "0 < cols"
    and "strip (drop cols (cells row)) = []" "cells row1 = take cols (cells row)"
  shows "row_wraps row1 = row_wraps row" "strip (acc @ body row1) = strip (acc @ body row)"
    "row_wraps row \<Longrightarrow> body row1 = body row" "row_wraps row \<Longrightarrow> length (cells row) = cols"
proof -
  have "row_wraps row1 = row_wraps row \<and> strip (acc @ body row1) = strip (acc @ body row) \<and>
    (row_wraps row \<longrightarrow> body row1 = body row \<and> length (cells row) = cols)"
  proof (cases "length (cells row) = cols")
    case True
    then show ?thesis using assms(5) by (simp add: row_wraps_def body_def)
  next
    case False
    then have n: "neat_row row" "cols < length (cells row)" using assms(1,2) by auto
    note c = row_cut [OF n assms(3), unfolded assms(4)]
    have "\<not> row_wraps row" using c(4) by simp
    moreover have "\<not> row_wraps row1" using c(3) assms(5) by (simp add: row_wraps_def)
    moreover have "strip (acc @ body row1) = strip (acc @ body row)"
    proof -
      obtain bs where "body row = map drop_wrap (take cols (cells row)) @ map drop_wrap [] @ bs" "\<forall>c \<in> set bs. cell_is_empty c"
        using c(6) by blast
      then have "acc @ body row = (acc @ body row1) @ bs" "\<forall>c \<in> set bs. cell_is_empty c" using assms(5) by (simp_all add: body_def)
      then show ?thesis using strip_empty [of bs "acc @ body row1"] by simp
    qed
    ultimately show ?thesis by simp
  qed
  then show "row_wraps row1 = row_wraps row" "strip (acc @ body row1) = strip (acc @ body row)"
    "row_wraps row \<Longrightarrow> body row1 = body row" "row_wraps row \<Longrightarrow> length (cells row) = cols" by auto
qed

lemma trimmed_logical:
  assumes "cols < length (cells row) \<longrightarrow> neat_row row" "cols \<le> length (cells row)" "0 < cols"
    and "strip (drop cols (cells row)) = []" "cells row1 = take cols (cells row)"
  shows "logical acc (row1 # rows) = logical acc (row # rows)"
  using trimmed_row(1) [OF assms] trimmed_row(2) [OF assms, of acc] trimmed_row(3) [OF assms] by auto

text \<open>A row cut in two, with the rest kept as the start of the next row or made a row of its own.\<close>

lemma split_logical:
  assumes "neat_row row" "cols < length (cells row)" "0 < cols" "cells row1 = take cols (cells row)"
  defines "w \<equiv> strip (drop cols (cells row))"
  shows "\<lbrakk>wrap_flag (last w); w \<noteq> []; rows \<noteq> []; cells (hd rows) \<noteq> []\<rbrakk> \<Longrightarrow>
      logical acc (row_map_last add_wrap row1 # row_append_front (butlast w @ [drop_wrap (last w)]) (hd rows) # tl rows) =
      logical acc (row # rows)"
    and "\<lbrakk>row_wraps row \<longrightarrow> rows = [] \<or> cols \<le> length w; cells row' = w @ replicate (cols - length w) cell_default\<rbrakk> \<Longrightarrow>
      logical acc (row_map_last add_wrap row1 # row' # rows) = logical acc (row # rows)"
proof -
  note c = row_cut [OF assms(1-3), folded w_def]
  have r1: "row_wraps (row_map_last add_wrap row1)" "body (row_map_last add_wrap row1) = map drop_wrap (take cols (cells row))"
  proof -
    show "row_wraps (row_map_last add_wrap row1)" using assms(2-4) by auto
    have "body (row_map_last add_wrap row1) = body row1" by simp
    then show "body (row_map_last add_wrap row1) = map drop_wrap (take cols (cells row))" by (simp add: body_def assms(4))
  qed
  obtain bs where bs: "body row = map drop_wrap (take cols (cells row)) @ map drop_wrap w @ bs" "\<forall>c \<in> set bs. cell_is_empty c"
    using c(6) by blast
  have full: "row_wraps row \<Longrightarrow> body row = map drop_wrap (take cols (cells row)) @ map drop_wrap w"
    using c(5) unfolding body_def by (metis append_take_drop_id map_append)
  show "logical acc (row_map_last add_wrap row1 # row_append_front (butlast w @ [drop_wrap (last w)]) (hd rows) # tl rows) =
      logical acc (row # rows)" if h: "wrap_flag (last w)" "w \<noteq> []" "rows \<noteq> []" "cells (hd rows) \<noteq> []"
  proof -
    have rw: "row_wraps row" using c(4) h(1,2) by simp
    have "map drop_wrap (butlast w @ [drop_wrap (last w)]) = map drop_wrap (butlast w @ [last w])" by simp
    also have "\<dots> = map drop_wrap w" using h(2) by simp
    finally have b: "map drop_wrap (butlast w @ [drop_wrap (last w)]) = map drop_wrap w" .
    obtain h t where rows: "rows = h # t" using h(3) by (cases rows) auto
    show ?thesis using rw full r1 h(4) b by (simp add: rows del: map_append)
  qed
  show "logical acc (row_map_last add_wrap row1 # row' # rows) = logical acc (row # rows)"
    if r: "row_wraps row \<longrightarrow> rows = [] \<or> cols \<le> length w" and row': "cells row' = w @ replicate (cols - length w) cell_default"
  proof -
    let ?p = "replicate (cols - length w) cell_default"
    have p: "\<forall>c \<in> set ?p. cell_is_empty c" by simp
    have b': "body row' = map drop_wrap w @ ?p" using row' empty_cell(2) [OF empty_default] by (simp add: body_def)
    have s: "strip ((acc @ map drop_wrap (take cols (cells row))) @ body row') = strip (acc @ body row)"
      using strip_empty [OF p, of "acc @ map drop_wrap (take cols (cells row)) @ map drop_wrap w"]
        strip_empty [OF bs(2), of "acc @ map drop_wrap (take cols (cells row)) @ map drop_wrap w"]
      by (simp add: b' bs(1))
    show ?thesis
    proof (cases "row_wraps row")
      case True
      then have w: "w \<noteq> []" "wrap_flag (last w)" using c(4) by simp_all
      show ?thesis
      proof (cases "cols \<le> length w")
        case True
        then have "row_wraps row'" "body row' = map drop_wrap w" using row' w b' by (simp_all add: row_wraps_def)
        then show ?thesis using \<open>row_wraps row\<close> full r1 by simp
      next
        case False
        then have "rows = []" "\<not> row_wraps row'" using r True row' by (auto simp: row_wraps_def)
        moreover have "body row \<noteq> []" using True by (auto simp: row_wraps_def body_def)
        ultimately show ?thesis using True r1 s by simp
      qed
    next
      case False
      have "\<not> row_wraps row'"
      proof (cases "cols \<le> length w")
        case True
        then show ?thesis using row' c(4) False by (auto simp: row_wraps_def)
      qed (use row' in \<open>simp add: row_wraps_def\<close>)
      then show ?thesis using False r1 s by simp
    qed
  qed
qed

text \<open>What one round keeps: the text, with the rows still to come.\<close>

definition row_inv :: "nat \<Rightarrow> nat \<Rightarrow> grid \<Rightarrow> cell row \<Rightarrow> bool" where
  "row_inv cols i g row \<longleftrightarrow> line_in g \<and> cols \<le> length (cells row) \<and> (\<forall>c \<in> set (cells row). plain_cell c) \<and>
     (cols < length (cells row) \<longrightarrow> neat_row row) \<and>
     (cursor_buffer_line g = Some i \<longrightarrow> row_wraps row \<longrightarrow> cursor_column g \<le> length (cells row))"

definition buffer_ok :: "cell list option \<Rightarrow> bool" where
  "buffer_ok b \<longleftrightarrow> (\<forall>cs. b = Some cs \<longrightarrow> (\<forall>c \<in> set cs. plain_cell c \<and> \<not> wrap_flag c))"

lemma shrink_once_text:
  assumes "2 \<le> cols" "row_inv cols i g row" "i = 0 \<longrightarrow> rows = []" "0 < i \<longrightarrow> rows \<noteq> [] \<and> cells (hd rows) \<noteq> []"
    and "shrink_once True cols i row new_raw g = Some x"
  shows "case x of
      Inl (nr, b, g') \<Rightarrow> \<exists>r. nr = r # new_raw \<and> g' = g \<and> (b \<noteq> None \<longrightarrow> 0 < i) \<and> buffer_ok b \<and>
        (\<forall>acc. logical acc (r # with_buffer b rows) = logical acc (row # rows))
    | Inr (row', nr, g') \<Rightarrow> \<exists>r. nr = r # new_raw \<and> row_inv cols i g' row' \<and>
        (\<forall>acc. logical acc (r # row' # rows) = logical acc (row # rows)) \<and>
        (\<exists>g1. shrink_cursor cols i g = Some g1 \<and> (\<exists>n. g' = g1\<lparr>display_offset := n\<rparr>))"
proof -
  have inv: "line_in g" "cols \<le> length (cells row)" "\<forall>c \<in> set (cells row). plain_cell c" "cols < length (cells row) \<longrightarrow> neat_row row"
    "cursor_buffer_line g = Some i \<longrightarrow> row_wraps row \<longrightarrow> cursor_column g \<le> length (cells row)"
    using assms(2) by (auto simp: row_inv_def)
  have c0: "0 < cols" using assms(1) by simp
  let ?w = "strip (drop cols (cells row))"
  obtain row1 ct where c: "cut_row True cols i g row = Some (row1, ct)" "cells row1 = take cols (cells row)"
    "ct = None \<and> ?w = [] \<or> ct = Some [] \<and> ?w = [] \<and> cursor_column g > cols \<and> cursor_buffer_line g = Some i \<or>
     ct = Some ?w \<and> cols < length (cells row) \<and> ?w \<noteq> []"
    using cut_row_cases [OF inv(2,1), of True i] by auto
  have pw: "\<forall>w. ct = Some w \<longrightarrow> (\<forall>c \<in> set w. plain_cell c)"
    using c(3) row_cut(1) [OF _ _ c0, of row] inv(4) by auto
  note once = shrink_once_plain [OF inv(3,2) c0 c(1,2) pw, of new_raw]
  obtain g1 where g1: "shrink_cursor cols i g = Some g1" "line_in g1" "screen_lines g1 = screen_lines g"
    "cursor_column g1 = (if cursor_buffer_line g = Some i \<and> cols \<le> cursor_column g then cursor_column g - cols else cursor_column g)"
    "cursor_line g1 = (if (cursor_buffer_line g = Some i \<and> cursor_column g < cols) \<or> i < the (cursor_buffer_line g)
                      then max (cursor_line g - 1) 0 else cursor_line g)"
    using shrink_cursor_total [OF inv(1), of cols i g] by (auto simp: ends_in_iff)
  let ?g2 = "if i < display_offset g1 then g1\<lparr>display_offset := display_offset g1 + 1\<rparr> else g1"
  have g2: "line_in ?g2" "cursor_column ?g2 = cursor_column g1" "cursor_buffer_line ?g2 = cursor_buffer_line g1"
    "\<exists>n. ?g2 = g1\<lparr>display_offset := n\<rparr>"
  proof -
    show "line_in ?g2" "cursor_column ?g2 = cursor_column g1" "cursor_buffer_line ?g2 = cursor_buffer_line g1"
      using g1(2) by (simp_all add: line_in_def cursor_buffer_line_def)
    show "\<exists>n. ?g2 = g1\<lparr>display_offset := n\<rparr>" by (cases "i < display_offset g1") (auto intro: exI [of _ "display_offset g1"])
  qed
  from c(3) show ?thesis
  proof (elim disjE)
    assume a: "ct = None \<and> ?w = []"
    then show ?thesis
      using assms(5) once trimmed_logical [OF inv(4,2) c0 _ c(2)] by (auto simp: with_buffer_def buffer_ok_def)
  next
    assume a: "ct = Some [] \<and> ?w = [] \<and> cursor_column g > cols \<and> cursor_buffer_line g = Some i"
    let ?row' = "row_from_vec (replicate cols cell_default) 0"
    have x: "x = Inr (?row', row_map_last add_wrap row1 # new_raw, ?g2)"
      using a assms(5) once g1(1) by simp
    have t: "row_wraps row \<Longrightarrow> length (cells row) = cols"
      using trimmed_row(4) [OF inv(4,2) c0 _ c(2)] a by blast
    then have nw: "\<not> row_wraps row" using inv(5) a by auto
    have row': "\<not> row_wraps ?row'" "\<forall>c \<in> set (body ?row'). cell_is_empty c"
      using c0 empty_cell(2) [OF empty_default] by (simp_all add: row_wraps_def row_from_vec_def body_def)
    have "strip (acc @ body row1 @ body ?row') = strip (acc @ body row)" for acc
      using strip_empty [OF row'(2), of "acc @ body row1"] trimmed_row(2) [OF inv(4,2) c0 _ c(2), of acc] a by simp
    moreover have "cells row1 \<noteq> []" using c(2) inv(2) c0 by auto
    ultimately have "logical acc (row_map_last add_wrap row1 # ?row' # rows) = logical acc (row # rows)" for acc
      using nw row'(1) by simp
    moreover have "row_inv cols i ?g2 ?row'"
      using g2(1) row'(1) by (simp add: row_inv_def) (simp add: row_from_vec_def)
    ultimately show ?thesis using x g1(1) g2(4) by simp
  next
    assume a: "ct = Some ?w \<and> cols < length (cells row) \<and> ?w \<noteq> []"
    then have n: "neat_row row" "cols < length (cells row)" "?w \<noteq> []" using inv(4) by auto
    note rc = row_cut [OF n(1,2) c0]
    note sl = split_logical [OF n(1,2) c0 c(2), where rows = rows]
    show ?thesis
    proof (cases "wrap_flag (last ?w) \<and> i \<ge> 1 \<and> length ?w < cols")
      case True
      then have x: "x = Inl (row_map_last add_wrap row1 # new_raw, Some (butlast ?w @ [drop_wrap (last ?w)]), g)"
        using a assms(5) once by simp
      have "plain_cell (last ?w)" using rc(1) n(3) last_in_set by blast
      then have "buffer_ok (Some (butlast ?w @ [drop_wrap (last ?w)]))"
        using rc(1,2) by (auto simp: buffer_ok_def dest: in_set_butlastD)
      then show ?thesis
        unfolding x using True sl(1) n(3) assms(4) by (simp add: with_buffer_def del: logical.simps)
    next
      case False
      define row' where "row' = row_from_vec (?w @ replicate (cols - length ?w) cell_default) (length ?w)"
      have x: "x = Inr (row', row_map_last add_wrap row1 # new_raw, ?g2)"
        using False a assms(5) once g1(1) by (auto simp: row'_def)
      have cells': "cells row' = ?w @ replicate (cols - length ?w) cell_default" by (simp add: row'_def row_from_vec_def)
      have "row_wraps row \<longrightarrow> rows = [] \<or> cols \<le> length ?w" using False rc(4) assms(3) by auto
      from sl(2) [OF this cells'] have l: "logical acc (row_map_last add_wrap row1 # row' # rows) = logical acc (row # rows)" for acc .
      have long: "cols < length (cells row') \<Longrightarrow> cells row' = ?w" using cells' by simp
      have "row_inv cols i ?g2 row'"
        unfolding row_inv_def g2(2,3)
      proof (intro conjI impI)
        show "line_in ?g2" by (rule g2(1))
        show "cols \<le> length (cells row')" by (simp add: cells')
        show "\<forall>c \<in> set (cells row'). plain_cell c" using rc(1) by (auto simp: cells')
        show "neat_row row'" if "cols < length (cells row')" using rc(1,2) long [OF that] by (simp add: neat_row_def)
        show "cursor_column g1 \<le> length (cells row')" if n': "cursor_buffer_line g1 = Some i" and wr: "row_wraps row'"
        proof -
          have wl: "cols \<le> length ?w"
          proof (rule ccontr)
            assume "\<not> cols \<le> length ?w"
            then have "last (cells row') = cell_default" by (simp add: cells')
            then show False using wr by (simp add: row_wraps_def)
          qed
          then have "wrap_flag (last ?w)" using wr n(3) by (simp add: row_wraps_def cells')
          then have "row_wraps row" using rc(4) n(3) by simp
          then have d: "length (cells row) = cols + length ?w" using rc(5) n(2) by simp
          have w': "length (cells row') = length ?w" using wl by (simp add: cells')
          show ?thesis
          proof (cases "cursor_buffer_line g = Some i")
            case True
            then have "cursor_column g \<le> length (cells row)" using inv(5) \<open>row_wraps row\<close> by blast
            then show ?thesis using g1(4) True d w' wl by auto
          next
            case False
            let ?n = "nat (int (screen_lines g) - 1 - cursor_line g)" and ?n1 = "nat (int (screen_lines g1) - 1 - cursor_line g1)"
            have "cursor_buffer_line g = Some ?n" "cursor_buffer_line g1 = Some ?n1"
              using cursor_buffer_line_Some [OF inv(1)] cursor_buffer_line_Some [OF g1(2)] by simp_all
            then have ni: "?n1 = i" "?n \<noteq> i" using n' False by simp_all
            have "cursor_line g1 \<le> cursor_line g" "i < ?n \<or> cursor_line g1 = cursor_line g"
              using g1(5) False \<open>cursor_buffer_line g = Some ?n\<close> inv(1) by (auto simp: line_in_def split: if_splits)
            moreover from this(1) have "?n \<le> ?n1" using g1(3) by simp
            ultimately show ?thesis using ni g1(3) by auto
          qed
        qed
      qed
      then show ?thesis unfolding x using l g1(1) g2(4) by (simp del: logical.simps)
    qed
  qed
qed

definition below :: "grid \<Rightarrow> nat" where
  "below g = nat (int (screen_lines g) - 1 - cursor_line g)"

lemma cursor_buffer_line_below: "line_in g \<Longrightarrow> cursor_buffer_line g = Some (below g)"
  by (simp add: below_def cursor_buffer_line_Some)

text \<open>While the loop is above the cursor's line it does not touch the cursor.\<close>

definition untouched :: "nat \<Rightarrow> grid \<Rightarrow> grid \<Rightarrow> bool" where
  "untouched i g g' \<longleftrightarrow> (below g' < i \<longrightarrow> below g = below g' \<and> cursor_column g' = cursor_column g)"

lemma untouched_refl [simp]: "untouched i g g"
  by (simp add: untouched_def)

lemma untouched_trans: "untouched i g g' \<Longrightarrow> untouched i g' g'' \<Longrightarrow> untouched i g g''"
  by (auto simp: untouched_def)

lemma shrink_cursor_untouched:
  assumes "line_in g" "shrink_cursor cols i g = Some g1"
  shows "untouched i g (g1\<lparr>display_offset := n\<rparr>)"
proof -
  have l: "0 \<le> cursor_line g" "cursor_line g < int (screen_lines g)" using assms(1) by (simp_all add: line_in_def)
  have g1: "screen_lines g1 = screen_lines g"
    "cursor_column g1 = (if below g = i \<and> cols \<le> cursor_column g then cursor_column g - cols else cursor_column g)"
    "cursor_line g1 = (if (below g = i \<and> cursor_column g < cols) \<or> i < below g then max (cursor_line g - 1) 0 else cursor_line g)"
    using shrink_cursor_total [OF assms(1), of cols i g] assms(2) cursor_buffer_line_below [OF assms(1)] by auto
  show ?thesis
  proof (cases "below g < i")
    case True
    then show ?thesis using g1 by (simp add: untouched_def below_def)
  next
    case False
    have "cursor_line g1 \<le> cursor_line g" using g1(3) l by auto
    then have "below g \<le> below g1" using g1(1) by (simp add: below_def)
    moreover have "below (g1\<lparr>display_offset := n\<rparr>) = below g1" by (simp add: below_def)
    ultimately show ?thesis using False by (simp add: untouched_def)
  qed
qed

lemma shrink_row_text:
  assumes "2 \<le> cols" "i = 0 \<longrightarrow> rows = []" "0 < i \<longrightarrow> rows \<noteq> [] \<and> cells (hd rows) \<noteq> []"
    and "row_inv cols i g row" "rows_of_width cols new_raw" "shrink_row True cols i row new_raw g = Some (nr, b, g')"
  shows "\<exists>added. nr = added @ new_raw \<and> (b \<noteq> None \<longrightarrow> 0 < i) \<and> buffer_ok b \<and> untouched i g g' \<and>
    (\<forall>acc. logical acc (rev added @ with_buffer b rows) = logical acc (row # rows))"
  using assms(4-6)
proof (induction "length (cells row) + cursor_column g" arbitrary: row new_raw g rule: less_induct)
  case less
  have inv: "cols \<le> length (cells row)" "line_in g" using less.prems(1) by (simp_all add: row_inv_def)
  obtain x where x: "shrink_once True cols i row new_raw g = Some x"
    "case x of Inl st \<Rightarrow> shrunk g cols (Suc (length new_raw)) st
     | Inr (row', nr, g') \<Rightarrow> moves g g' \<and> line_in g' \<and> rows_of_width cols nr \<and> length new_raw \<le> length nr \<and>
         cols \<le> length (cells row') \<and>
         length (cells row') + cursor_column g' < length (cells row) + cursor_column g"
    using shrink_once_total [OF assms(1) inv less.prems(2), of g True i] by (auto simp: ends_in_iff)
  note t = shrink_once_text [OF assms(1) less.prems(1) assms(2,3) x(1)]
  show ?case
  proof (cases x)
    case (Inl r)
    then have "r = (nr, b, g')" using less.prems(3) x(1) by (simp add: shrink_row.simps)
    then have "\<exists>r. nr = r # new_raw \<and> g' = g \<and> (b \<noteq> None \<longrightarrow> 0 < i) \<and> buffer_ok b \<and>
        (\<forall>acc. logical acc (r # with_buffer b rows) = logical acc (row # rows))"
      using t Inl by (simp del: logical.simps)
    then obtain r where "nr = [r] @ new_raw" "g' = g" "b \<noteq> None \<longrightarrow> 0 < i" "buffer_ok b"
      "\<forall>acc. logical acc (rev [r] @ with_buffer b rows) = logical acc (row # rows)" by (auto simp del: logical.simps)
    then show ?thesis by (intro exI [of _ "[r]"]) simp
  next
    case (Inr y)
    obtain row' nr1 g1 where y: "x = Inr (row', nr1, g1)" using Inr by (cases y) auto
    have rec: "shrink_row True cols i row' nr1 g1 = Some (nr, b, g')"
      using less.prems(3) x(1) y by (simp add: shrink_row.simps [of True cols i row])
    obtain r g0 n where a: "nr1 = r # new_raw" "row_inv cols i g1 row'"
      "\<And>acc. logical acc (r # row' # rows) = logical acc (row # rows)"
      "shrink_cursor cols i g = Some g0" "g1 = g0\<lparr>display_offset := n\<rparr>"
      using t y by (auto simp del: logical.simps)
    have u: "untouched i g g1" unfolding a(5) by (rule shrink_cursor_untouched [OF inv(2) a(4)])
    have "length (cells row') + cursor_column g1 < length (cells row) + cursor_column g" "rows_of_width cols nr1"
      using x(2) y by simp_all
    from less.hyps [OF this(1) a(2) this(2) rec] obtain added where b: "nr = added @ nr1" "b \<noteq> None \<longrightarrow> 0 < i" "buffer_ok b"
      "untouched i g1 g'" "\<And>acc. logical acc (rev added @ with_buffer b rows) = logical acc (row' # rows)" by blast
    have "logical acc (r # rev added @ with_buffer b rows) = logical acc (r # row' # rows)" for acc
      using logical_cong [of "rev added @ with_buffer b rows" "row' # rows" acc "[r]"] b(5) by (simp del: logical.simps)
    then have "logical acc (rev (added @ [r]) @ with_buffer b rows) = logical acc (row # rows)" for acc
      using a(3) by (simp del: logical.simps)
    then show ?thesis
      using a(1) b(1-3) untouched_trans [OF u b(4)] by (intro exI [of _ "added @ [r]"]) (simp del: logical.simps)
  qed
qed

text \<open>The loop of \<open>shrink_columns\<close> with \<open>k\<close> rows to go.\<close>

definition shrink_text :: "nat \<Rightarrow> nat \<Rightarrow> cell row list \<Rightarrow> nat \<Rightarrow> shrinking \<Rightarrow> bool" where
  "shrink_text cols old rows k =
     (\<lambda>(nr, b, g). line_in g \<and> rows_of_width cols nr \<and> (b \<noteq> None \<longrightarrow> 0 < k) \<and> buffer_ok b \<and>
        logical [] (rev nr @ with_buffer b (rev (take k rows))) = logical [] (rev rows) \<and>
        (below g < k \<longrightarrow> cursor_column g \<le> old))"

lemma neat_append_front:
  assumes "neat_row r" "cells r \<noteq> []" "buffer_ok (Some cs)"
  shows "neat_row (row_append_front cs r)"
  using assms by (auto simp: neat_row_def row_append_front_def buffer_ok_def butlast_append)

lemma shrink_step_text:
  assumes "2 \<le> cols" "k < length rows" "\<forall>r \<in> set rows. neat_row r \<and> length (cells r) = old" "cols < old"
    and "shrink_text cols old rows (Suc k) st" "shrink_step True cols (k, rows ! k) st = Some st'"
    and "shrunk g0 cols n st'"
  shows "shrink_text cols old rows k st'"
proof -
  obtain nr b g where st: "st = (nr, b, g)" by (cases st)
  obtain nr' b' g' where st': "st' = (nr', b', g')" by (cases st')
  let ?row = "rows ! k" and ?rest = "rev (take k rows)"
  have inv: "line_in g" "rows_of_width cols nr" "buffer_ok b"
    "logical [] (rev nr @ with_buffer b (?row # ?rest)) = logical [] (rev rows)" "below g < Suc k \<longrightarrow> cursor_column g \<le> old"
    using assms(2,5) by (simp_all add: shrink_text_def st take_Suc_conv_app_nth)
  have row: "neat_row ?row" "length (cells ?row) = old" using assms(2,3) nth_mem by blast+
  then have ne: "cells ?row \<noteq> []" using assms(4) by auto
  define r where "r = (case b of None \<Rightarrow> ?row | Some cs \<Rightarrow> row_append_front cs ?row)"
  define g1 where "g1 = (case b of None \<Rightarrow> g | Some cs \<Rightarrow> if k = below g then set_cursor_column (cursor_column g + length cs) g else g)"
  have wb: "with_buffer b (?row # ?rest) = r # ?rest" by (simp add: with_buffer_def r_def split: option.split)
  have s: "shrink_row True cols k r nr g1 = Some (nr', b', g')"
    using assms(6) cursor_buffer_line_below [OF inv(1)]
    by (cases b) (simp_all add: shrink_step_def st st' r_def g1_def)
  have g1: "line_in g1" "below g1 = below g"
    using inv(1) by (auto simp: g1_def line_in_def below_def split: option.split)
  have r': "neat_row r" "old \<le> length (cells r)" "below g = k \<Longrightarrow> cursor_column g1 \<le> length (cells r)"
    using row ne inv(3,5) by (auto simp: r_def g1_def neat_append_front split: option.split) (auto simp: row_append_front_def)
  have "row_inv cols k g1 r"
    using g1 r' assms(4) cursor_buffer_line_below [OF g1(1)] by (auto simp: row_inv_def neat_row_def)
  moreover have "0 < k \<longrightarrow> ?rest \<noteq> [] \<and> cells (hd ?rest) \<noteq> []"
  proof
    assume "0 < k"
    then have "?rest \<noteq> []" "hd ?rest \<in> set rows" using assms(2)
      by (auto simp: hd_rev intro: in_set_takeD [OF last_in_set])
    then show "?rest \<noteq> [] \<and> cells (hd ?rest) \<noteq> []" using assms(3,4) by auto
  qed
  ultimately obtain added where a: "nr' = added @ nr" "b' \<noteq> None \<longrightarrow> 0 < k" "buffer_ok b'" "untouched k g1 g'"
    "\<And>acc. logical acc (rev added @ with_buffer b' ?rest) = logical acc (r # ?rest)"
    using shrink_row_text [OF assms(1) _ _ _ inv(2) s, of ?rest] by auto
  have "logical [] (rev nr @ rev added @ with_buffer b' ?rest) = logical [] (rev nr @ r # ?rest)"
    by (rule logical_cong) (rule a(5))
  then have "logical [] (rev nr' @ with_buffer b' ?rest) = logical [] (rev rows)" using inv(4) wb by (simp add: a(1))
  moreover have "cursor_column g' \<le> old" if "below g' < k"
  proof -
    have "below g < k" "cursor_column g' = cursor_column g1" using a(4) that g1(2) by (simp_all add: untouched_def)
    then show ?thesis using inv(5) by (auto simp: g1_def split: option.splits)
  qed
  ultimately show ?thesis using a(2,3) assms(7) by (simp add: shrink_text_def st' shrunk_def)
qed

text \<open>The text of the grid after \<open>shrink_columns\<close>: that of the grid before, without the lines dropped below the
  cursor and above the history. Lines below the cursor are dropped until the cursor is on the bottommost line
  or there is no history left.\<close>

lemma shrink_keeps_text:
  assumes "sized g" "line_in g" "cursor_column g < columns g" "2 \<le> cols" "cols < columns g"
    and "\<forall>r \<in> set (grid_rows g). neat_row r"
  shows "\<exists>g' rows k. shrink_columns True cols g = Some g' \<and> logical [] (rev rows) = logical [] (rev (grid_rows g)) \<and>
    grid_rows g' = take (max_scroll_limit g + screen_lines g) (drop k rows) \<and> k \<le> length rows - screen_lines g \<and>
    (k = length rows - screen_lines g \<or> cursor_line g' = bottommost_line g')"
proof -
  let ?g0 = "loop_start True cols g" and ?rows = "grid_rows g"
  note start = start_loop [OF assms(1-3), where reflow = True and cols = cols]
  note rows = loop_rows [OF assms(1)]
  let ?n = "length ?rows"
  define I where "I = (\<lambda>k st. shrunk ?g0 cols (?n - k) st \<and> shrink_text cols (columns g) ?rows k st)"
  have "ends_in (fold_opt (shrink_step True cols) (rev (enumerate 0 ?rows)) ([], None, ?g0)) (I 0)"
  proof (rule fold_rows)
    fix k st assume k: "k < length ?rows" "I (Suc k) st"
    have len: "cols \<le> length (cells (?rows ! k))" "Suc (?n - Suc k) = ?n - k"
      using rows(4) assms(5) nth_mem [of k ?rows] k(1) by auto
    have i: "shrunk ?g0 cols (?n - Suc k) st" "shrink_text cols (columns g) ?rows (Suc k) st" using k(2) by (simp_all add: I_def)
    obtain st' where st': "shrink_step True cols (k, ?rows ! k) st = Some st'" "shrunk ?g0 cols (?n - k) st'"
      using shrink_step_total [OF assms(4) len(1) i(1), of True k] len(2) by (auto simp: ends_in_iff)
    have "shrink_text cols (columns g) ?rows k st'"
      by (rule shrink_step_text [OF assms(4) k(1) _ assms(5) i(2) st']) (use assms(6) rows(4) in auto)
    then show "ends_in (shrink_step True cols (k, ?rows ! k) st) (I k)" using st' by (simp add: I_def)
  qed (use start(8,9) in \<open>simp add: I_def shrunk_def shrink_text_def with_buffer_def buffer_ok_def\<close>)
  then obtain new b g1 where f: "fold_opt (shrink_step True cols) (rev (enumerate 0 ?rows)) ([], None, ?g0) = Some (new, b, g1)"
    "shrunk ?g0 cols ?n (new, b, g1)" "shrink_text cols (columns g) ?rows 0 (new, b, g1)"
    by (auto simp: ends_in_iff I_def)
  have b: "moves ?g0 g1" "line_in g1" "rows_of_width cols new" "?n \<le> length new" "b = None"
    "logical [] (rev new) = logical [] (rev ?rows)"
    using f(2,3) by (auto simp: shrunk_def shrink_text_def with_buffer_def)
  note m = movesD [OF b(1)]
  have "ends_in (finish_shrink True cols (new, b, g1)) (\<lambda>g'. kept_dims g1 cols g' \<and>
    grid_rows g' = take (max_scroll_limit g1 + screen_lines g1) (drop (reclaimed True g1 new) new) \<and>
    cursor_line g' = cursor_line g1 + int (reclaimed True g1 new))"
    by (rule finish_shrink_ok) (use b(2-4) m start rows assms(4) in simp_all)
  then obtain g' where g': "finish_shrink True cols (new, b, g1) = Some g'" "kept_dims g1 cols g'"
    "grid_rows g' = take (max_scroll_limit g1 + screen_lines g1) (drop (reclaimed True g1 new) new)"
    "cursor_line g' = cursor_line g1 + int (reclaimed True g1 new)"
    by (auto simp: ends_in_iff)
  have k: "reclaimed True g1 new = min (below g1) (length new - screen_lines g)"
    using m(2) start(2) by (simp add: reclaimed_def cursor_buffer_line_below [OF b(2)])
  have "reclaimed True g1 new = length new - screen_lines g \<or> cursor_line g' = bottommost_line g'"
  proof (cases "reclaimed True g1 new = length new - screen_lines g")
    case False
    then have "reclaimed True g1 new = below g1" using k by (simp add: min_def split: if_splits)
    then have "cursor_line g' = int (screen_lines g1) - 1" using g'(4) b(2) by (simp add: below_def line_in_def)
    then show ?thesis using g'(2) by (simp add: kept_dims_def bottommost_line_def)
  qed simp
  moreover have "shrink_columns True cols g = Some g'" by (simp add: columns_eq rows(1) f(1) g'(1))
  moreover have "grid_rows g' = take (max_scroll_limit g + screen_lines g) (drop (reclaimed True g1 new) new)"
    using g'(3) m start by simp
  moreover have "reclaimed True g1 new \<le> length new - screen_lines g" unfolding k by simp
  ultimately show ?thesis using b(6) by blast
qed


section \<open>Lines lost and renumbered\<close>

definition trim_row :: "nat \<Rightarrow> cell row \<Rightarrow> cell row" where
  "trim_row cols r = fst (row_shrink cell_is_empty cols r)"

lemma fitting_step:
  assumes "line_in g" "cursor_column g \<le> cols" "cols \<le> length (cells r)" "\<forall>c \<in> set (drop cols (cells r)). cell_is_empty c"
  shows "shrink_step True cols (k, r) (nr, None, g) = Some (trim_row cols r # nr, None, g)"
proof -
  obtain r' c where rc: "row_shrink cell_is_empty cols r = (r', c)" by (cases "row_shrink cell_is_empty cols r")
  have "c = None" using rc assms(4) by (auto simp: row_shrink_def Let_def split: if_splits)
  then have "cut_row True cols k g r = Some (r', None)"
    using rc assms(2) by (simp add: cut_row_def cursor_buffer_line_below [OF assms(1)])
  then show ?thesis
    by (simp add: shrink_step_def shrink_row.simps shrink_once_def trim_row_def rc)
qed

text \<open>Narrowing a screen whose lines all fit.\<close>

lemma narrowing_eq:
  assumes "sized g" "line_in g" "cursor_column g \<le> cols" "\<not> input_needs_wrap (cursor g)" "2 \<le> cols" "cols < columns g"
    and "\<forall>r \<in> set (grid_rows g). \<forall>c \<in> set (drop cols (cells r)). cell_is_empty c"
  shows "\<exists>g'. shrink_columns True cols g = Some g' \<and>
    grid_rows g' = drop (min (below g) (history_size g)) (map (trim_row cols) (grid_rows g))"
proof -
  let ?g0 = "loop_start True cols g" and ?rows = "grid_rows g"
  have col: "cursor_column g < columns g" using assms(3,6) by simp
  note start = start_loop [OF assms(1,2) col, where reflow = True and cols = cols]
  note rows = loop_rows [OF assms(1)]
  have c0: "cursor_column ?g0 = cursor_column g"
    using assms(4) by (simp add: loop_start_def leave_wrap_column_def cursor_column_def)
  let ?I = "\<lambda>k st. st = (drop k (map (trim_row cols) ?rows), None :: cell list option, ?g0)"
  have "ends_in (fold_opt (shrink_step True cols) (rev (enumerate 0 ?rows)) ([], None, ?g0)) (?I 0)"
  proof (rule fold_rows)
    fix k st assume k: "k < length ?rows" "?I (Suc k) st"
    have "cols \<le> length (cells (?rows ! k))" "\<forall>c \<in> set (drop cols (cells (?rows ! k))). cell_is_empty c"
      using assms(6,7) rows(4) nth_mem [OF k(1)] by auto
    then have "shrink_step True cols (k, ?rows ! k) st =
        Some (trim_row cols (?rows ! k) # drop (Suc k) (map (trim_row cols) ?rows), None, ?g0)"
      unfolding k(2) using start(8) c0 assms(3) by (intro fitting_step) simp_all
    then show "ends_in (shrink_step True cols (k, ?rows ! k) st) (?I k)"
      using k(1) by (simp add: Cons_nth_drop_Suc [symmetric])
  qed simp
  then have f: "fold_opt (shrink_step True cols) (rev (enumerate 0 ?rows)) ([], None, ?g0) =
      Some (map (trim_row cols) ?rows, None, ?g0)" by (auto simp: ends_in_iff)
  let ?new = "map (trim_row cols) ?rows"
  have w: "rows_of_width cols ?new"
    using rows(4) assms(6) by (auto simp: rows_of_width_def trim_row_def row_shrink_def Let_def)
  have "ends_in (finish_shrink True cols (?new, None, ?g0)) (\<lambda>g'. kept_dims ?g0 cols g' \<and>
    grid_rows g' = take (max_scroll_limit ?g0 + screen_lines ?g0) (drop (reclaimed True ?g0 ?new) ?new) \<and>
    cursor_line g' = cursor_line ?g0 + int (reclaimed True ?g0 ?new))"
    by (rule finish_shrink_ok) (use w start rows assms(5) in simp_all)
  then obtain g' where g': "finish_shrink True cols (?new, None, ?g0) = Some g'"
    "grid_rows g' = take (max_scroll_limit ?g0 + screen_lines ?g0) (drop (reclaimed True ?g0 ?new) ?new)"
    by (auto simp: ends_in_iff)
  have "below ?g0 = below g" by (simp add: below_def start(2,10))
  moreover have "length ?rows - screen_lines g = history_size g"
    using grid_rows_sized(1) [OF assms(1)] by (simp add: history_size_def)
  ultimately have "reclaimed True ?g0 ?new = min (below g) (history_size g)"
    by (simp add: reclaimed_def cursor_buffer_line_below [OF start(8)] start(2))
  then have "grid_rows g' = drop (min (below g) (history_size g)) ?new"
    using g'(2) rows(2) start(2,3) by simp
  then show ?thesis using g'(1) f rows(1) by (simp add: columns_eq)
qed

lemma renumbered:
  assumes "kept_dims g cols g'" "topmost_line g' \<le> l" "l \<le> bottommost_line g'"
  shows "stable_row_id_for_line g' l = Some (l + int (history_size g'))"
proof -
  have s: "sized g'" "stable_row_ids (raw g') = map int (rev [0..<length (grid_rows g')])" "zero (raw g') = 0"
    using assms(1) by (simp_all add: kept_dims_def)
  have n: "length (grid_rows g') = len (raw g')" using grid_rows_sized(1) [OF s(1)] .
  have wf: "storage_wf (raw g')" "visible_lines (raw g') = screen_lines g'" "screen_lines g' \<le> len (raw g')"
    using s(1) by (simp_all add: sized_def)
  have i: "length (inner (raw g')) = len (raw g')" using wf(1) s(2) n by (simp add: storage_wf_def)
  define p where "p = nat (int (screen_lines g') - 1 - l)"
  have p: "p < len (raw g')" "int p = int (screen_lines g') - 1 - l"
    using assms(2,3) wf(3) by (auto simp: p_def topmost_line_def bottommost_line_def history_size_def)
  have "nat (int (screen_lines g') - l - 1) = p" using p(2) by linarith
  then have "compute_index (raw g') l = Some p"
    using p(1) assms(3) s(3) wf(2) i by (simp add: compute_index_def bottommost_line_def Let_def)
  moreover have "stable_row_ids (raw g') ! p = int (len (raw g') - 1 - p)"
    using p(1) s(2) n by (simp add: rev_map [symmetric] rev_nth)
  moreover have "int (len (raw g') - 1 - p) = l + int (history_size g')"
    using p wf(3) by (simp add: history_size_def of_nat_diff)
  ultimately show ?thesis
    using p(1) s(2) n by (simp add: stable_row_id_for_line_def storage_id_for_line_def)
qed

section \<open>Samples\<close>

definition sample_row :: "rchar list \<Rightarrow> bool \<Rightarrow> cell row" where
  "sample_row cs w =
     (let xs = map (\<lambda>c. cell_default\<lparr>ch := c\<rparr>) cs
      in \<lparr>cells = (if w then butlast xs @ [add_wrap (last xs)] else xs), occ = length cs\<rparr>)"

text \<open>A grid with the given rows, from the top, the last two of them on the screen; its ids start at 50.\<close>

definition sample_grid :: "int \<Rightarrow> nat \<Rightarrow> cell row list \<Rightarrow> grid" where
  "sample_grid l c rows =
     \<lparr>cursor = cursor_default\<lparr>point := \<lparr>pt_line = l, pt_column = c\<rparr>\<rparr>, saved_cursor = cursor_default,
      raw = \<lparr>inner = rev rows, zero = 0, visible_lines = 2, len = length rows,
        stable_row_ids = map (\<lambda>i. int i + 50) (rev [0..<length rows])\<rparr>,
      columns = length (cells (hd rows)), screen_lines = 2, display_offset = 0, max_scroll_limit = 10,
      stable_row_min = 50, stable_row_max = int (length rows) + 49\<rparr>"

definition sample_wrapped :: grid where
  "sample_wrapped = sample_grid 1 1 [sample_row [97, 98, 99, 100] True, sample_row [101, 102, 32, 32] False,
     sample_row [103, 32, 32, 32] False]"

definition sample_fitting :: grid where
  "sample_fitting = sample_grid 0 1 [sample_row [97, 98, 32] False, sample_row [99, 100, 32] False,
     sample_row [101, 102, 32] False]"

lemma sample_facts:
  "sized sample_wrapped \<and> line_in sample_wrapped \<and> 1 \<le> cursor_line sample_wrapped \<and>
   cursor_column sample_wrapped < columns sample_wrapped \<and> columns sample_wrapped = 4 \<and> screen_lines sample_wrapped = 2"
  "\<forall>r \<in> set (grid_rows sample_wrapped). neat_row r"
  "map (map ch) (logical [] (rev (grid_rows sample_wrapped))) = [[97, 98, 99, 100, 101, 102], [103]]"
  "sized sample_fitting \<and> line_in sample_fitting \<and> cursor_column sample_fitting \<le> 2 \<and>
   \<not> input_needs_wrap (cursor sample_fitting) \<and> columns sample_fitting = 3 \<and> below sample_fitting = 1 \<and>
   history_size sample_fitting = 1 \<and> max_scroll_limit sample_fitting = 10 \<and> screen_lines sample_fitting = 2 \<and>
   stable_row_min sample_fitting = 50"
  "\<forall>r \<in> set (grid_rows sample_fitting). \<forall>c \<in> set (drop 2 (cells r)). cell_is_empty c"
  "map (\<lambda>r. map ch (cells r)) (drop 1 (map (trim_row 2) (grid_rows sample_fitting))) = [[99, 100], [97, 98]]"
  by code_simp+

section \<open>Properties\<close>





text \<open>After a change of the width the stable ids count from 0 at the top again while the bounds kept of them
  stay as they were; once lines have left the history, no line is found by its id.\<close>

theorem reflow_loses_ids:
  assumes "sized g" "line_in g" "cursor_column g < columns g" "2 \<le> cols" "columns g \<noteq> cols"
    and "int (max_scroll_limit g + screen_lines g) \<le> stable_row_min g"
  shows "\<exists>g'. (if columns g < cols then grow_columns True cols g else shrink_columns True cols g) = Some g' \<and>
    (\<forall>l. topmost_line g' \<le> l \<and> l \<le> bottommost_line g' \<longrightarrow>
       stable_row_id_for_line g' l = Some (l - topmost_line g') \<and>
       line_for_stable_row_id g' (l - topmost_line g') = Some None)"
proof -
  obtain g' where g': "(if columns g < cols then grow_columns True cols g else shrink_columns True cols g) = Some g'"
    "kept_dims g cols g'"
    using grow_columns_ok [OF assms(1-3), of cols True] shrink_columns_ok [OF assms(1-4), of True] assms(5)
    by (cases "columns g < cols") (auto simp: ends_in_iff)
  have k: "history_size g' \<le> max_scroll_limit g" "screen_lines g' = screen_lines g" "stable_row_min g' = stable_row_min g"
    "0 < len (raw g')"
    using g'(2) by (simp_all add: kept_dims_def sized_def)
  have "line_for_stable_row_id g' (l - topmost_line g') = Some None"
    if "topmost_line g' \<le> l" "l \<le> bottommost_line g'" for l
  proof -
    have "l - topmost_line g' < stable_row_min g'"
      using that assms(6) k by (simp add: topmost_line_def bottommost_line_def)
    then show ?thesis using k(4) by (simp add: line_for_stable_row_id_def)
  qed
  moreover have "stable_row_id_for_line g' l = Some (l - topmost_line g')"
    if "topmost_line g' \<le> l" "l \<le> bottommost_line g'" for l
    using renumbered [OF g'(2) that] by (simp add: topmost_line_def)
  ultimately show ?thesis using g'(1) by blast
qed

lemma reflow_loses_ids_witness:
  "\<exists>g'. shrink_columns True 2 sample_fitting = Some g' \<and>
     stable_row_id_for_line g' (topmost_line g') = Some 0 \<and> line_for_stable_row_id g' 0 = Some None"
proof -
  note f = sample_facts(4)
  obtain g' where g': "shrink_columns True 2 sample_fitting = Some g'"
    "\<forall>l. topmost_line g' \<le> l \<and> l \<le> bottommost_line g' \<longrightarrow>
       stable_row_id_for_line g' l = Some (l - topmost_line g') \<and>
       line_for_stable_row_id g' (l - topmost_line g') = Some None"
    using reflow_loses_ids [of sample_fitting 2] f by auto
  moreover have "0 < screen_lines g'" using shrink_columns_ok [of sample_fitting 2 True] f g'(1)
    by (auto simp: ends_in_iff kept_dims_def)
  then have "topmost_line g' \<le> bottommost_line g'" by (simp add: topmost_line_def bottommost_line_def)
  ultimately show ?thesis by fastforce
qed

text \<open>When the cursor is on the topmost line of the screen and that line is pulled up as a whole into the history,
  growing puts a blank row between it and the line it is wrapped into: one line of text becomes two.\<close>

lemma growing_breaks_line:
  "map_option (\<lambda>g. map (map ch) (logical [] (rev (grid_rows g))))
     (grow_columns True 4 (sample_grid 0 1 [sample_row [97, 98] True, sample_row [99, 100] True, sample_row [101, 102] False])) =
   Some [[97, 98, 99, 100], [101, 102]]"
  "map (map ch) (logical [] (rev (grid_rows
     (sample_grid 0 1 [sample_row [97, 98] True, sample_row [99, 100] True, sample_row [101, 102] False])))) =
   [[97, 98, 99, 100, 101, 102]]"
  by code_simp+

end
