(* ===== verification/TermResize.thy ===== *)
theory TermResize
  imports TermProps ReflowText
begin

text \<open>
  Resizing the terminal (\<open>Term::resize\<close> of \<open>alacritty_terminal/src/term/mod.rs\<close>): both screens, tab
  stops, selection, vi cursor, scrolling region and damage follow the new size. Cells keep their widths, but
  the marks of modified cells do not survive a change of columns (\<open>TermCell.grow_defeats_reset\<close>), so what
  is shown is that the dimensions of everything fit again.
\<close>

section \<open>Definitions\<close>

definition damage_resize :: "nat \<Rightarrow> nat \<Rightarrow> damage_state \<Rightarrow> damage_state" where
  "damage_resize cols lines d =
     d\<lparr>last_cursor := point_zero, full := True, dlines := map (\<lambda>l. undamaged l cols) [0..<lines]\<rparr>"

text \<open>After the screens: selection and tab stops, then vi cursor, scrolling region and damage.\<close>

definition resize_selection :: "nat \<Rightarrow> nat \<Rightarrow> nat \<Rightarrow> nat \<Rightarrow> int \<Rightarrow> term_state \<Rightarrow> term_state" where
  "resize_selection old_cols old_lines num_cols num_lines delta t =
     (if old_cols \<noteq> num_cols then t\<lparr>sel := None, tabs := tabs_resize num_cols (tabs t)\<rparr>
      else rotate_selection (0, int (max num_lines old_lines)) (- delta) t)"

definition resize_view :: "nat \<Rightarrow> nat \<Rightarrow> term_state \<Rightarrow> term_state" where
  "resize_view num_cols num_lines t =
     (let p = vi_cursor t;
          viewport_top = - int (display_offset (main t));
          viewport_bottom = viewport_top + bottommost_line (main t);
          t = t\<lparr>vi_cursor := \<lparr>pt_line = max (min (pt_line p) viewport_bottom) viewport_top,
                              pt_column = min (pt_column p) (last_column (main t))\<rparr>\<rparr>
      in t\<lparr>scroll_region := (0, int (screen_lines (main t))),
           damage := damage_resize num_cols num_lines (damage t)\<rparr>)"

definition term_resize :: "nat \<Rightarrow> nat \<Rightarrow> term_state \<Rightarrow> term_state option" where
  "term_resize num_cols num_lines t =
     (let old_cols = columns (main t); old_lines = screen_lines (main t)
      in if old_cols = num_cols \<and> old_lines = num_lines then Some t
         else do {
           let history = history_size (main t);
           let delta = int num_lines - int old_lines;
           let min_delta = min 0 (int num_lines - cursor_line (main t) - 1);
           let delta = min (max delta min_delta) (int history);
           let t = t\<lparr>vi_cursor := (vi_cursor t)\<lparr>pt_line := pt_line (vi_cursor t) + delta\<rparr>\<rparr>;
           let is_alt = has_mode ALT_SCREEN t;
           g \<leftarrow> grid_resize (\<not> is_alt) num_lines num_cols (main t);
           i \<leftarrow> grid_resize is_alt num_lines num_cols (inactive t);
           let t = t\<lparr>main := g, inactive := i\<rparr>;
           Some (resize_view num_cols num_lines (resize_selection old_cols old_lines num_cols num_lines delta t)) })"

section \<open>Lemmas\<close>

lemma length_tabs_resize: "length (tabs_resize cols ts) = cols"
  by (cases "length ts \<le> cols") (simp_all add: tabs_resize_def)

lemma dam_ok_resize: "0 < lines \<Longrightarrow> dam_ok lines (damage_resize cols lines d)"
  by (simp add: dam_ok_def damage_resize_def point_zero_def undamaged_def comp_def)

lemma screen_okD:
  assumes "screen_ok g"
  shows "grid_wf g" "line_in g" "cursor_column g < columns g" "2 \<le> columns g"
  using assms by (simp_all add: screen_ok_def cursor_ok_def line_in_def cursor_line_def cursor_column_def)

text \<open>Everything has the given size.\<close>

definition fits :: "nat \<Rightarrow> nat \<Rightarrow> term_state \<Rightarrow> bool" where
  "fits cols lines t \<longleftrightarrow>
     (\<forall>g \<in> {main t, inactive t}. sized g \<and> columns g = cols \<and> screen_lines g = lines \<and> line_in g \<and> cursor_column g < cols) \<and>
     length (tabs t) = cols \<and> dam_ok lines (damage t) \<and>
     0 \<le> fst (scroll_region t) \<and> fst (scroll_region t) \<le> snd (scroll_region t) \<and> snd (scroll_region t) \<le> int lines"

lemma term_ok_fits:
  assumes "term_ok t"
  shows "fits (columns (main t)) (screen_lines (main t)) t"
  using assms screen_okD [of "main t"] screen_okD [of "inactive t"]
  by (simp add: term_ok_def fits_def grid_wf_sized)

text \<open>Both screens resized, the rest of a resize only moves the view and the selection.\<close>

lemma term_resize_eq:
  assumes False: "\<not> (columns (main t) = cols \<and> screen_lines (main t) = lines)"
    and g: "grid_resize (\<not> has_mode ALT_SCREEN t) lines cols (main t) = Some g"
      "grid_resize (has_mode ALT_SCREEN t) lines cols (inactive t) = Some i"
  obtains t1 delta where "term_resize cols lines t =
      Some (resize_view cols lines (resize_selection (columns (main t)) (screen_lines (main t)) cols lines delta t1))"
    "main t1 = g" "inactive t1 = i" "tabs t1 = tabs t"
proof -
  have hm: "has_mode x (t\<lparr>vi_cursor := p\<rparr>) = has_mode x t" for x p by (simp add: has_mode_def)
  have fields: "main (t\<lparr>vi_cursor := p\<rparr>) = main t" "inactive (t\<lparr>vi_cursor := p\<rparr>) = inactive t" for p by simp_all
  have "term_resize cols lines t = do {
      g \<leftarrow> grid_resize (\<not> has_mode ALT_SCREEN t) lines cols (main t);
      i \<leftarrow> grid_resize (has_mode ALT_SCREEN t) lines cols (inactive t);
      Some (resize_view cols lines (resize_selection (columns (main t)) (screen_lines (main t)) cols lines
        (min (max (int lines - int (screen_lines (main t))) (min 0 (int lines - cursor_line (main t) - 1))) (int (history_size (main t))))
        (t\<lparr>vi_cursor := (vi_cursor t)\<lparr>pt_line := pt_line (vi_cursor t) +
          min (max (int lines - int (screen_lines (main t))) (min 0 (int lines - cursor_line (main t) - 1))) (int (history_size (main t)))\<rparr>,
           main := g, inactive := i\<rparr>))) }"
    unfolding term_resize_def Let_def if_not_P [OF False] hm fields ..
  then have "term_resize cols lines t =
      Some (resize_view cols lines (resize_selection (columns (main t)) (screen_lines (main t)) cols lines
        (min (max (int lines - int (screen_lines (main t))) (min 0 (int lines - cursor_line (main t) - 1))) (int (history_size (main t))))
        (t\<lparr>vi_cursor := (vi_cursor t)\<lparr>pt_line := pt_line (vi_cursor t) +
          min (max (int lines - int (screen_lines (main t))) (min 0 (int lines - cursor_line (main t) - 1))) (int (history_size (main t)))\<rparr>,
           main := g, inactive := i\<rparr>)))"
    by (simp only: g Option.bind.simps)
  then show thesis by (rule that) simp_all
qed

section \<open>Properties\<close>

text \<open>C16: Resizing a terminal in the invariant of the terminal's operations to at least one line and two columns
  never panics; both screens, the tab stops, the scrolling region and the damage have the new size, and the cursors
  are in their screens. Unless the size stays as it is, in which case nothing changes, the scrolling region becomes
  the whole screen and the vi cursor is on the displayed lines. (A change of columns does not give the whole
  invariant back, as rows may lose their marks of modified cells; so this covers the first one of a terminal.)\<close>

theorem resize_fits:
  assumes "term_ok t" "2 \<le> cols" "0 < lines"
  shows "\<exists>t'. term_resize cols lines t = Some t' \<and> fits cols lines t' \<and>
    (columns (main t) = cols \<and> screen_lines (main t) = lines \<and> t' = t \<or>
     scroll_region t' = (0, int lines) \<and> pt_column (vi_cursor t') < cols \<and>
     - int (display_offset (main t')) \<le> pt_line (vi_cursor t') \<and>
     pt_line (vi_cursor t') < int lines - int (display_offset (main t')))"
proof (cases "columns (main t) = cols \<and> screen_lines (main t) = lines")
  case True
  then show ?thesis using term_ok_fits [OF assms(1)] by (simp add: term_resize_def)
next
  case False
  have m: "screen_ok (main t)" "screen_ok (inactive t)" using assms(1) by (simp_all add: term_ok_def)
  have tb: "columns (main t) = cols \<Longrightarrow> length (tabs t) = cols" using assms(1) by (simp add: term_ok_def)
  obtain g where g0: "grid_resize (\<not> has_mode ALT_SCREEN t) lines cols (main t) = Some g" "sized g" "columns g = cols"
    "screen_lines g = lines" "line_in g" "cursor_column g < cols"
    using grid_resize_ok [OF screen_okD(1-3) [OF m(1)] assms(3,2)] by (auto simp: ends_in_iff)
  obtain i where i0: "grid_resize (has_mode ALT_SCREEN t) lines cols (inactive t) = Some i" "sized i" "columns i = cols"
    "screen_lines i = lines" "line_in i" "cursor_column i < cols"
    using grid_resize_ok [OF screen_okD(1-3) [OF m(2)] assms(3,2)] by (auto simp: ends_in_iff)
  note g = tb g0 i0
  obtain t1 delta where e: "term_resize cols lines t =
      Some (resize_view cols lines (resize_selection (columns (main t)) (screen_lines (main t)) cols lines delta t1))"
    "main t1 = g" "inactive t1 = i" "tabs t1 = tabs t"
    by (rule term_resize_eq [OF False g0(1) i0(1)])
  define t2 where "t2 = resize_selection (columns (main t)) (screen_lines (main t)) cols lines delta t1"
  define t' where "t' = resize_view cols lines t2"
  have t2: "main t2 = g" "inactive t2 = i" "length (tabs t2) = cols"
    using e(2-4) g(1) by (simp_all add: t2_def resize_selection_def rotate_selection_def length_tabs_resize)
  have t': "term_resize cols lines t = Some t'" "main t' = g" "inactive t' = i" "length (tabs t') = cols"
    "scroll_region t' = (0, int (screen_lines g))" "damage t' = damage_resize cols lines (damage t2)"
    "vi_cursor t' = \<lparr>pt_line = max (min (pt_line (vi_cursor t2)) (- int (display_offset g) + bottommost_line g)) (- int (display_offset g)),
       pt_column = min (pt_column (vi_cursor t2)) (last_column g)\<rparr>"
    using e(1) t2 by (simp_all add: t'_def t2_def [symmetric] resize_view_def Let_def)
  have "fits cols lines t'" using g(3-7,9-13) t' dam_ok_resize [OF assms(3)] by (simp add: fits_def)
  moreover have "scroll_region t' = (0, int lines)" using g(5) t'(5) by simp
  moreover have "pt_column (vi_cursor t') < cols" using assms(2) g(4) t'(7) by (simp add: last_column_def)
  moreover have "- int (display_offset (main t')) \<le> pt_line (vi_cursor t')"
    "pt_line (vi_cursor t') < int lines - int (display_offset (main t'))"
    using assms(3) g(5) t'(2,7) by (simp_all add: bottommost_line_def)
  ultimately show ?thesis using t'(1) by blast
qed

lemma resize_fits_witness:
  "\<exists>t t'. term_new (config_default style0) 2 4 = Some t \<and> term_resize 2 3 t = Some t' \<and> fits 2 3 t'"
proof -
  obtain t where t: "term_new (config_default style0) 2 4 = Some t" "term_ok t"
    using small_term by blast
  obtain t' where "term_resize 2 3 t = Some t'" "fits 2 3 t'"
    using resize_fits [OF t(2), of 2 3] by (simp del: ex_simps) blast
  then show ?thesis using t(1) by blast
qed

end
