(* ===== verification/AltScreen.thy ===== *)
theory AltScreen
  imports TermProps
begin

text \<open>
  The two screens (\<open>swap_alt\<close> of \<open>alacritty_terminal/src/term/mod.rs\<close>): what a program does on the
  alternate screen leaves the primary one, which is then the inactive grid, as it was. \<open>behind\<close> is
  the part of the terminal that only \<open>swap_alt\<close>, a full reset and a change of the options touch.
\<close>

definition behind :: "term_state \<Rightarrow> grid \<times> kb_mode list \<times> bool" where
  "behind t = (inactive t, inactive_kb_stack t, has_mode ALT_SCREEN t)"

named_theorems behind_simps \<open>updates that leave the inactive screen alone\<close>
named_theorems behind_dest \<open>operations that leave the inactive screen alone\<close>

lemma behind_fields [behind_simps]:
  "behind (t\<lparr>main := g\<rparr>) = behind t" "behind (t\<lparr>damage := d\<rparr>) = behind t"
  "behind (t\<lparr>sel := s\<rparr>) = behind t" "behind (t\<lparr>vi_cursor := p\<rparr>) = behind t"
  "behind (t\<lparr>tabs := ts\<rparr>) = behind t" "behind (t\<lparr>active_charset := i\<rparr>) = behind t"
  "behind (t\<lparr>scroll_region := r\<rparr>) = behind t" "behind (t\<lparr>cur_style := cs\<rparr>) = behind t"
  "behind (t\<lparr>title := ti\<rparr>) = behind t" "behind (t\<lparr>title_stack := tis\<rparr>) = behind t"
  "behind (t\<lparr>kb_stack := ks\<rparr>) = behind t" "behind (t\<lparr>sent := os\<rparr>) = behind t"
  by (simp_all add: behind_def has_mode_def)

lemma behind_mode: "bit m 12 = bit (mode t) 12 \<Longrightarrow> behind (t\<lparr>mode := m\<rparr>) = behind t"
  by (simp add: behind_def alt_bit)

lemma behind_insert: "\<not> bit m 12 \<Longrightarrow> behind (insert_mode m t) = behind t"
  unfolding insert_mode_def by (rule behind_mode) (simp add: bit_simps)

lemma behind_drop: "\<not> bit m 12 \<Longrightarrow> behind (drop_mode m t) = behind t"
  unfolding drop_mode_def remove_mode_def by (rule behind_mode) (simp add: bit_simps)

lemma behind_apply_kb [behind_simps]: "behind (apply_kb_mode (kb_to_mode k) a t) = behind t"
  unfolding apply_kb_mode_def Let_def
  by (rule behind_mode) (use kb_mode_alt in \<open>cases a; simp add: remove_mode_def bit_simps\<close>)

lemma behind_access [behind_simps]:
  "behind (upd_cursor f t) = behind t" "behind (set_cur_line l t) = behind t" "behind (set_cur_col k t) = behind t"
  "behind (set_wrap w t) = behind t" "behind (upd_template c t) = behind t"
  "behind (add_template_flags fl t) = behind t" "behind (drop_template_flags fl t) = behind t"
  "behind (mark_fully_damaged t) = behind t" "behind (send ev t) = behind t"
  "behind (rotate_selection r d t) = behind t" "behind (filter_selection P t) = behind t"
  "behind (advance t) = behind t" "behind (reset_damage t) = behind t"
  "behind (recompute_vi_selection t) = behind t"
  by (simp_all add: upd_cursor_def set_cur_line_def set_cur_col_def set_wrap_def upd_template_def
      add_template_flags_def drop_template_flags_def mark_fully_damaged_def send_def rotate_selection_def
      filter_selection_def advance_def reset_damage_def recompute_vi_selection_def behind_fields split: option.split)

lemma behind_on_main [behind_dest]: "on_main f t = Some u \<Longrightarrow> behind u = behind t"
  by (auto simp: on_main_def behind_simps)

lemma behind_cells [behind_dest]:
  "edit_cell l k f t = Some u \<Longrightarrow> behind u = behind t"
  "damage_line l a b t = Some u \<Longrightarrow> behind u = behind t"
  "damage_cursor t = Some u \<Longrightarrow> behind u = behind t"
  by (auto simp: edit_cell_def damage_cursor_def damage_line_def behind_simps dest: behind_on_main)

lemma behind_goto [behind_dest]: "goto l c t = Some u \<Longrightarrow> behind u = behind t"
  by (auto simp: goto_def Let_def bind_eq_Some_conv behind_simps split: if_splits dest!: behind_dest)

lemma behind_relative [behind_dest]:
  "scroll_down_relative o1 n t = Some u \<Longrightarrow> behind u = behind t"
  "scroll_up_relative o1 n t = Some u \<Longrightarrow> behind u = behind t"
  by (auto simp: scroll_down_relative_def scroll_up_relative_def Let_def bind_eq_Some_conv behind_simps
      split: if_splits prod.splits dest!: behind_dest)

lemma behind_moves [behind_dest]:
  "goto_line l t = Some u \<Longrightarrow> behind u = behind t" "goto_col c t = Some u \<Longrightarrow> behind u = behind t"
  "move_up n t = Some u \<Longrightarrow> behind u = behind t" "move_down n t = Some u \<Longrightarrow> behind u = behind t"
  "move_down_and_cr n t = Some u \<Longrightarrow> behind u = behind t" "move_up_and_cr n t = Some u \<Longrightarrow> behind u = behind t"
  "move_forward n t = Some u \<Longrightarrow> behind u = behind t" "move_backward n t = Some u \<Longrightarrow> behind u = behind t"
  "backspace t = Some u \<Longrightarrow> behind u = behind t" "carriage_return t = Some u \<Longrightarrow> behind u = behind t"
  "term_scroll_up n t = Some u \<Longrightarrow> behind u = behind t" "term_scroll_down n t = Some u \<Longrightarrow> behind u = behind t"
  by (auto simp: goto_line_def goto_col_def move_up_def move_down_def move_down_and_cr_def move_up_and_cr_def
      move_forward_def move_backward_def backspace_def carriage_return_def term_scroll_up_def term_scroll_down_def
      Let_def bind_eq_Some_conv behind_simps split: if_splits dest!: behind_dest)

lemma behind_linefeed [behind_dest]: "linefeed t = Some u \<Longrightarrow> behind u = behind t"
  by (auto simp: linefeed_def Let_def bind_eq_Some_conv behind_simps split: if_splits dest!: behind_dest)

lemma behind_lines [behind_dest]:
  "newline t = Some u \<Longrightarrow> behind u = behind t" "reverse_index t = Some u \<Longrightarrow> behind u = behind t"
  "save_cursor_position t = Some u \<Longrightarrow> behind u = behind t"
  "restore_cursor_position t = Some u \<Longrightarrow> behind u = behind t"
  "wrapline t = Some u \<Longrightarrow> behind u = behind t"
  by (auto simp: newline_def reverse_index_def save_cursor_position_def restore_cursor_position_def wrapline_def
      Let_def bind_eq_Some_conv behind_simps split: if_splits dest!: behind_dest)

lemma behind_loops [behind_dest]:
  "put_tab_loop e n t = Some u \<Longrightarrow> behind u = behind t"
  "backward_tabs_loop n t = Some u \<Longrightarrow> behind u = behind t"
  "forward_tabs_loop n t = Some u \<Longrightarrow> behind u = behind t"
  by (induction n arbitrary: t)
    (auto simp: Let_def bind_eq_Some_conv behind_simps split: if_splits dest!: behind_cells)

lemma behind_tabs [behind_dest]:
  "put_tab e n t = Some u \<Longrightarrow> behind u = behind t" "move_backward_tabs n t = Some u \<Longrightarrow> behind u = behind t"
  "move_forward_tabs n t = Some u \<Longrightarrow> behind u = behind t" "set_tab b k t = Some u \<Longrightarrow> behind u = behind t"
  "set_horizontal_tabstop t = Some u \<Longrightarrow> behind u = behind t" "clear_tabs m t = Some u \<Longrightarrow> behind u = behind t"
  by (cases m; auto simp: put_tab_def move_backward_tabs_def move_forward_tabs_def set_tab_def set_horizontal_tabstop_def
      Let_def bind_eq_Some_conv behind_simps split: if_splits dest!: behind_dest)+

lemma behind_write [behind_dest]: "write_at_cursor e c t = Some u \<Longrightarrow> behind u = behind t"
  by (auto simp: write_at_cursor_def Let_def bind_eq_Some_conv behind_simps split: if_splits dest!: behind_cells)

lemma behind_wide [behind_dest]:
  "input_zero_width c t = Some u \<Longrightarrow> behind u = behind t"
  "input_wide e c t = Some (b, u) \<Longrightarrow> behind u = behind t"
  by (auto simp: input_zero_width_def input_wide_def Let_def bind_eq_Some_conv behind_simps split: if_splits
      dest!: behind_cells behind_write behind_lines)

lemma behind_input [behind_dest]: "input e c t = Some u \<Longrightarrow> behind u = behind t"
  by (auto simp: input_def Let_def bind_eq_Some_conv behind_simps split: if_splits option.splits
      dest!: behind_cells behind_write behind_lines behind_wide behind_on_main)

lemma behind_fold:
  assumes "\<And>x t u. f x t = Some u \<Longrightarrow> behind u = behind t"
  shows "fold_opt f xs t = Some u \<Longrightarrow> behind u = behind t"
  by (induction xs arbitrary: t) (auto simp: bind_eq_Some_conv dest: assms)

lemma behind_decaln [behind_dest]: "decaln t = Some u \<Longrightarrow> behind u = behind t"
  by (auto simp: decaln_def bind_eq_Some_conv behind_simps
      dest!: behind_fold [rotated] intro: behind_fold behind_cells)

lemma behind_edits [behind_dest]:
  "insert_blank n t = Some u \<Longrightarrow> behind u = behind t" "insert_blank_lines n t = Some u \<Longrightarrow> behind u = behind t"
  "delete_lines n t = Some u \<Longrightarrow> behind u = behind t" "erase_chars n t = Some u \<Longrightarrow> behind u = behind t"
  "delete_chars n t = Some u \<Longrightarrow> behind u = behind t" "clear_line l t = Some u \<Longrightarrow> behind u = behind t"
  by (auto simp: insert_blank_def insert_blank_lines_def delete_lines_def erase_chars_def delete_chars_def
      clear_line_def Let_def bind_eq_Some_conv behind_simps split: if_splits prod.splits
      dest!: behind_on_main behind_cells behind_relative)

lemma behind_clear_screen [behind_dest]: "clear_screen m t = Some u \<Longrightarrow> behind u = behind t"
  by (cases m; auto simp: clear_screen_def Let_def bind_eq_Some_conv behind_simps split: if_splits
      dest!: behind_on_main)

lemma behind_keyboard [behind_dest]:
  "push_keyboard_mode k t = Some u \<Longrightarrow> behind u = behind t" "pop_keyboard_modes n t = Some u \<Longrightarrow> behind u = behind t"
  "set_keyboard_mode k a t = Some u \<Longrightarrow> behind u = behind t" "report_keyboard_mode e t = Some u \<Longrightarrow> behind u = behind t"
  by (auto simp: push_keyboard_mode_def pop_keyboard_modes_def set_keyboard_mode_def report_keyboard_mode_def
      Let_def bind_eq_Some_conv behind_simps split: if_splits)

lemma behind_region [behind_dest]:
  "set_scrolling_region a b t = Some u \<Longrightarrow> behind u = behind t" "deccolm t = Some u \<Longrightarrow> behind u = behind t"
proof -
  show region: "set_scrolling_region a b t = Some u \<Longrightarrow> behind u = behind t" for a b t u
    by (auto simp: set_scrolling_region_def Let_def behind_simps split: if_splits dest!: behind_goto)
  show "deccolm t = Some u \<Longrightarrow> behind u = behind t"
    by (auto simp: deccolm_def bind_eq_Some_conv behind_simps dest!: region behind_on_main)
qed

lemmas mode_bit_defs =
  URGENCY_HINTS_def SHOW_CURSOR_def FOCUS_IN_OUT_def BRACKETED_PASTE_def ALTERNATE_SCROLL_def LINE_WRAP_def
  ORIGIN_def INSERT_def LINE_FEED_NEW_LINE_def APP_KEYPAD_def VI_def

lemma mode_bits:
  "\<not> bit URGENCY_HINTS 12" "\<not> bit SHOW_CURSOR 12" "\<not> bit APP_CURSOR 12" "\<not> bit MOUSE_REPORT_CLICK 12"
  "\<not> bit MOUSE_DRAG 12" "\<not> bit MOUSE_MOTION 12" "\<not> bit MOUSE_MODE 12" "\<not> bit FOCUS_IN_OUT 12"
  "\<not> bit BRACKETED_PASTE 12" "\<not> bit SGR_MOUSE 12" "\<not> bit UTF8_MOUSE 12" "\<not> bit ALTERNATE_SCROLL 12"
  "\<not> bit LINE_WRAP 12" "\<not> bit ORIGIN 12" "\<not> bit INSERT 12" "\<not> bit LINE_FEED_NEW_LINE 12"
  "\<not> bit APP_KEYPAD 12" "\<not> bit VI 12"
  by (simp_all add: mode_defs mode_bit_defs bit_simps)

lemma behind_set_blinking [behind_simps]: "behind (set_blinking b t) = behind t"
  by (simp add: set_blinking_def Let_def behind_simps)

lemmas behind_mode_simps = behind_simps behind_insert behind_drop mode_bits

lemma behind_modes [behind_dest]:
  "m \<noteq> SwapScreenAndSetRestoreCursor \<or> has_mode ALT_SCREEN t \<Longrightarrow> set_private_mode m t = Some u \<Longrightarrow> behind u = behind t"
  "m \<noteq> SwapScreenAndSetRestoreCursor \<Longrightarrow> unset_private_mode m t = Some u \<Longrightarrow> behind u = behind t"
  "set_mode am t = Some u \<Longrightarrow> behind u = behind t" "unset_mode am t = Some u \<Longrightarrow> behind u = behind t"
  "set_keypad_application_mode t = Some u \<Longrightarrow> behind u = behind t"
  "unset_keypad_application_mode t = Some u \<Longrightarrow> behind u = behind t"
  subgoal by (cases m; auto simp: behind_mode_simps dest!: behind_goto behind_region)
  subgoal by (cases m; auto simp: behind_mode_simps dest!: behind_region)
  subgoal by (cases am; auto simp: behind_mode_simps)
  subgoal by (cases am; auto simp: behind_mode_simps)
  subgoal by (auto simp: set_keypad_application_mode_def behind_mode_simps)
  subgoal by (auto simp: unset_keypad_application_mode_def behind_mode_simps)
  done

lemma behind_styles [behind_dest]:
  "configure_charset i cs t = Some u \<Longrightarrow> behind u = behind t" "set_active_charset i t = Some u \<Longrightarrow> behind u = behind t"
  "set_cursor_style st t = Some u \<Longrightarrow> behind u = behind t" "set_cursor_shape sh t = Some u \<Longrightarrow> behind u = behind t"
  "term_set_hyperlink h t = Some u \<Longrightarrow> behind u = behind t" "terminal_attribute x t = Some u \<Longrightarrow> behind u = behind t"
  "set_title ti t = Some u \<Longrightarrow> behind u = behind t" "push_title t = Some u \<Longrightarrow> behind u = behind t"
  "pop_title t = Some u \<Longrightarrow> behind u = behind t" "bell t = Some u \<Longrightarrow> behind u = behind t"
  "device_status n t = Some u \<Longrightarrow> behind u = behind t" "text_area_size_chars t = Some u \<Longrightarrow> behind u = behind t"
  by (auto simp: configure_charset_def set_active_charset_def set_cursor_style_def set_cursor_shape_def
      term_set_hyperlink_def terminal_attribute_def set_title_def push_title_def pop_title_def bell_def
      device_status_def text_area_size_chars_def Let_def behind_simps split: if_splits)

lemma behind_scroll [behind_simps]:
  "behind (term_scroll_display s t) = behind t" "behind (scroll_to_point p t) = behind t"
  "behind (vi_goto_point p t) = behind t" "behind (toggle_vi_mode t) = behind t"
proof -
  show scroll: "behind (term_scroll_display s t) = behind t" for s t
    by (simp add: term_scroll_display_def Let_def behind_simps)
  show "behind (scroll_to_point p t) = behind t" for p t
    by (simp add: scroll_to_point_def Let_def scroll)
  then show "behind (vi_goto_point p t) = behind t" by (simp add: vi_goto_point_def behind_simps)
  have "behind (t\<lparr>mode := mode t XOR VI\<rparr>) = behind t" by (rule behind_mode) (simp add: bit_simps mode_bits)
  then show "behind (toggle_vi_mode t) = behind t" by (simp add: toggle_vi_mode_def Let_def behind_simps)
qed

lemma behind_damage [behind_dest]: "collect_damage t = Some (ds, u) \<Longrightarrow> behind u = behind t"
  by (auto simp: collect_damage_def Let_def bind_eq_Some_conv behind_simps split: if_splits dest!: behind_cells)

section \<open>Properties\<close>

text \<open>What a program may do on the alternate screen without leaving it.\<close>

fun stays_there :: "term_event \<Rightarrow> bool" where
  "stays_there (Mode (Unset_Private_Mode m)) = (m \<noteq> SwapScreenAndSetRestoreCursor)"
| "stays_there (State Reset_State) = False"
| "stays_there (State (Set_Options c)) = False"
| "stays_there ev = True"

lemma behind_parts:
  "cursor_do e c t = Some u \<Longrightarrow> behind u = behind t"
  "edit_do e d t = Some u \<Longrightarrow> behind u = behind t"
  "stays_there (Mode m) \<Longrightarrow> has_mode ALT_SCREEN t \<Longrightarrow> mode_do e m t = Some u \<Longrightarrow> behind u = behind t"
  "stays_there (State s) \<Longrightarrow> state_do e s t = Some u \<Longrightarrow> behind u = behind t"
  subgoal by (cases c; simp; elim behind_dest)
  subgoal by (cases d; simp; elim behind_dest)
  subgoal by (cases m) (auto dest: behind_dest behind_modes(1) [OF disjI2])
  subgoal by (cases s) (auto simp: behind_simps dest: behind_dest)
  done

lemma behind_step:
  assumes "stays_there ev" "has_mode ALT_SCREEN t"
  shows "behind (term_step e t ev) = behind t"
proof (cases "term_event_ok ev t")
  case True
  have "behind u = behind t" if "term_do e ev t = Some u" for u
    using assms that by (cases ev) (auto dest: behind_parts)
  then show ?thesis using True by (simp add: term_step_def split: option.split)
qed (simp add: term_step_def)

lemma behind_steps:
  assumes "\<forall>ev \<in> set evs. stays_there ev" "has_mode ALT_SCREEN t"
  shows "behind (foldl (term_step e) t evs) = behind t"
  using assms
proof (induction evs arbitrary: t)
  case (Cons ev evs)
  then have "behind (term_step e t ev) = behind t" by (simp add: behind_step)
  moreover from this have "has_mode ALT_SCREEN (term_step e t ev)" using Cons.prems(2) by (simp add: behind_def)
  ultimately show ?case using Cons by simp
qed simp

lemma kb_bits_only: "kb_to_mode k AND KITTY_KEYBOARD_PROTOCOL = kb_to_mode k"
  "KITTY_KEYBOARD_PROTOCOL AND ALT_SCREEN = 0"
  subgoal unfolding bit_eq_iff by (auto simp: kb_to_mode_def KITTY_KEYBOARD_PROTOCOL_def bit_or_iff bit_and_iff)
  subgoal by code_simp
  done

lemma active_kb_bits:
  "((remove_mode m KITTY_KEYBOARD_PROTOCOL OR kb_to_mode k) XOR ALT_SCREEN) AND KITTY_KEYBOARD_PROTOCOL = kb_to_mode k"
proof -
  have "bit (kb_to_mode k) n \<longrightarrow> bit KITTY_KEYBOARD_PROTOCOL n" "\<not> (bit KITTY_KEYBOARD_PROTOCOL n \<and> bit ALT_SCREEN n)" for n
    using arg_cong [OF kb_bits_only(1) [of k], of "\<lambda>x. bit x n"] arg_cong [OF kb_bits_only(2), of "\<lambda>x. bit x n"]
    by (auto simp: bit_simps)
  then show ?thesis by (auto simp: bit_eq_iff remove_mode_def bit_simps)
qed

text \<open>C14: Whatever the program and the user do on the alternate screen, short of leaving it, a full reset and a
  change of the options, leaving it gives back the primary screen with its history and cursor, and its keyboard
  modes: the stack is the one left behind and the active modes are those of its top. (Entering saves the
  cursor.)\<close>

theorem alt_screen_roundtrip:
  assumes "term_ok t" "\<not> has_mode ALT_SCREEN t" "\<forall>ev \<in> set evs. stays_there ev"
  shows "\<exists>u v. swap_alt t = Some u \<and> has_mode ALT_SCREEN u \<and>
    swap_alt (foldl (term_step e) u evs) = Some v \<and> \<not> has_mode ALT_SCREEN v \<and>
    main v = (main t)\<lparr>saved_cursor := cursor (main t)\<rparr> \<and> kb_stack v = kb_stack t \<and>
    mode v AND KITTY_KEYBOARD_PROTOCOL = kb_to_mode (top_kb_mode (kb_stack t))"
proof -
  let ?g = "(inactive t)\<lparr>cursor := cursor (main t)\<rparr>"
  obtain g where g: "reset_region 0 (int (screen_lines (inactive t))) ?g = Some g"
    using reset_region_ends [of ?g 0 "int (screen_lines (inactive t))"] term_okD(2) [OF assms(1)]
      grid_dims [OF term_okD(2) [OF assms(1)]] by (auto simp: ends_in_def)
  obtain u where u: "swap_alt t = Some u" "inactive u = (main t)\<lparr>saved_cursor := cursor (main t)\<rparr>"
    "inactive_kb_stack u = kb_stack t" "has_mode ALT_SCREEN u"
    using g assms(2) alt_toggled
    by (simp add: swap_alt_def Let_def apply_kb_mode_def mark_fully_damaged_def alt_bit)
  define w where "w = foldl (term_step e) u evs"
  have "behind w = behind u" unfolding w_def by (rule behind_steps [OF assms(3) u(4)])
  then have w: "inactive w = inactive u" "inactive_kb_stack w = inactive_kb_stack u" "has_mode ALT_SCREEN w"
    using u(4) by (simp_all add: behind_def)
  obtain v where "swap_alt w = Some v" "main v = inactive w" "kb_stack v = inactive_kb_stack w"
    "\<not> has_mode ALT_SCREEN v"
    "mode v AND KITTY_KEYBOARD_PROTOCOL = kb_to_mode (top_kb_mode (inactive_kb_stack w))"
    using w(3) alt_toggled active_kb_bits
    by (simp add: swap_alt_def Let_def apply_kb_mode_def mark_fully_damaged_def alt_bit)
  then show ?thesis using u w unfolding w_def by auto
qed

theorem alt_screen_roundtrip_witness:
  "\<exists>t u v. term_new (config_default style0) 2 4 = Some t \<and> swap_alt t = Some u \<and>
     swap_alt (foldl (term_step \<lparr>char_width = (\<lambda>_. Some 1), map_char = (\<lambda>_ c. c), kb_bits = (\<lambda>_. 0)\<rparr>) u
       [Edit (Input 65), Cursor (Goto 1 3), Edit (Clear_Screen Saved), Mode (Set_Keyboard kb_none Replace)]) = Some v \<and>
     main v = (main t)\<lparr>saved_cursor := cursor (main t)\<rparr>"
proof -
  obtain t where t: "term_new (config_default style0) 2 4 = Some t" "term_ok t" "mode t = mode_default"
    by (rule small_term) simp
  have "\<not> has_mode ALT_SCREEN t"
    by (simp add: has_mode_def t(3) mode_default_def contains_flags_def ALT_SCREEN_def SHOW_CURSOR_def LINE_WRAP_def
        ALTERNATE_SCROLL_def URGENCY_HINTS_def)
  from alt_screen_roundtrip [OF t(2) this, of
      "[Edit (Input 65), Cursor (Goto 1 3), Edit (Clear_Screen Saved), Mode (Set_Keyboard kb_none Replace)]"
      "\<lparr>char_width = (\<lambda>_. Some 1), map_char = (\<lambda>_ c. c), kb_bits = (\<lambda>_. 0)\<rparr>"]
  show ?thesis using t(1) by auto
qed

end
