(* ===== verification/Utf8.thy ===== *)
theory Utf8
  imports Prelude
begin

text \<open>
  UTF-8 as the standard library has it: \<open>char::encode_utf8\<close>, and \<open>String::from_utf8_lossy\<close>,
  which replaces every maximal prefix of a sequence that cannot be completed by one U+FFFD.
  A byte is a number below 256. The recorder of terminal sessions decodes what it reads
  with the second, and everything the screens print is encoded with the first.
\<close>

type_synonym byte = nat

definition scalar :: "rchar \<Rightarrow> bool" where
  "scalar c \<longleftrightarrow> c < 0xD800 \<or> 0xE000 \<le> c \<and> c < 0x110000"

definition encode_utf8 :: "rchar \<Rightarrow> byte list" where
  "encode_utf8 c =
     (if c < 0x80 then [c]
      else if c < 0x800 then [0xC0 + c div 64, 0x80 + c mod 64]
      else if c < 0x10000 then [0xE0 + c div 4096, 0x80 + c div 64 mod 64, 0x80 + c mod 64]
      else [0xF0 + c div 262144, 0x80 + c div 4096 mod 64, 0x80 + c div 64 mod 64, 0x80 + c mod 64])"

definition encode_str :: "rstring \<Rightarrow> byte list" where
  "encode_str s = concat (map encode_utf8 s)"

definition continuation :: "byte \<Rightarrow> bool" where
  "continuation b \<longleftrightarrow> 0x80 \<le> b \<and> b < 0xC0"

definition replacement :: rchar where
  "replacement = 0xFFFD"

text \<open>The continuation bytes that are left to read, at most \<open>n\<close>; \<open>None\<close> if one is missing.\<close>

fun read_rest :: "nat \<Rightarrow> nat \<Rightarrow> byte list \<Rightarrow> rchar option \<times> byte list" where
  "read_rest 0 v bs = (Some v, bs)"
| "read_rest (Suc n) v [] = (None, [])"
| "read_rest (Suc n) v (b # bs) =
     (if continuation b then read_rest n (v * 64 + b mod 64) bs else (None, b # bs))"

text \<open>Which second bytes are allowed: overlong forms, surrogates and more than U+10FFFF are not.\<close>

definition second_ok :: "byte \<Rightarrow> byte \<Rightarrow> bool" where
  "second_ok b c \<longleftrightarrow> continuation c \<and> (b = 0xE0 \<longrightarrow> 0xA0 \<le> c) \<and> (b = 0xED \<longrightarrow> c < 0xA0) \<and>
     (b = 0xF0 \<longrightarrow> 0x90 \<le> c) \<and> (b = 0xF4 \<longrightarrow> c < 0x90)"

definition starts_ok :: "byte \<Rightarrow> byte list \<Rightarrow> bool" where
  "starts_ok b bs \<longleftrightarrow> (case bs of [] \<Rightarrow> False | c # _ \<Rightarrow> second_ok b c)"

definition read_char :: "byte \<Rightarrow> byte list \<Rightarrow> rchar option \<times> byte list" where
  "read_char b bs =
     (if b < 0x80 then (Some b, bs)
      else if 0xC2 \<le> b \<and> b \<le> 0xDF then read_rest 1 (b mod 32) bs
      else if 0xE0 \<le> b \<and> b \<le> 0xEF \<and> starts_ok b bs then read_rest 2 (b mod 16) bs
      else if 0xF0 \<le> b \<and> b \<le> 0xF4 \<and> starts_ok b bs then read_rest 3 (b mod 8) bs
      else (None, bs))"

definition or_replacement :: "rchar option \<Rightarrow> rchar" where
  "or_replacement r = (case r of Some c \<Rightarrow> c | None \<Rightarrow> replacement)"

lemma read_rest_le: "length (snd (read_rest n v bs)) \<le> length bs"
  by (induction n v bs rule: read_rest.induct) auto

lemma read_char_le: "length (snd (read_char b bs)) \<le> length bs"
  using read_rest_le by (simp add: read_char_def)

function from_utf8_lossy :: "byte list \<Rightarrow> rstring" where
  "from_utf8_lossy [] = []"
| "from_utf8_lossy (b # bs) =
     or_replacement (fst (read_char b bs)) # from_utf8_lossy (snd (read_char b bs))"
  by pat_completeness auto

termination
  by (relation "measure length") (auto intro: le_imp_less_Suc [OF read_char_le])

lemma encode_str_simps [simp]:
  "encode_str [] = []" "encode_str (c # s) = encode_utf8 c @ encode_str s"
  "encode_str (s @ t) = encode_str s @ encode_str t"
  by (simp_all add: encode_str_def)

lemma length_encode_utf8: "length (encode_utf8 c) = len_utf8 c"
  by (simp add: encode_utf8_def len_utf8_def)

section \<open>Decoding what was encoded\<close>

lemma continuation_low [simp]: "continuation (0x80 + c mod 64)"
  by (simp add: continuation_def)

lemma low_bits [simp]: "((0x80::nat) + c mod 64) mod 64 = c mod 64"
proof -
  have "(0x80 + c mod 64) mod 64 = (64 * 2 + c mod 64) mod (64::nat)" by simp
  also have "\<dots> = c mod 64 mod 64" by (rule mod_mult_self4)
  finally show ?thesis by simp
qed

lemma two_digits: "(c::nat) div 64 * 64 + c mod 64 = c"
  by simp

lemma three_digits: "((c::nat) div 4096 * 64 + c div 64 mod 64) * 64 + c mod 64 = c"
proof -
  have "c div 4096 = c div 64 div 64" by (simp add: div_mult2_eq [symmetric])
  then have "c div 4096 * 64 + c div 64 mod 64 = c div 64" by simp
  then show ?thesis by simp
qed

lemma four_digits:
  "(((c::nat) div 262144 * 64 + c div 4096 mod 64) * 64 + c div 64 mod 64) * 64 + c mod 64 = c"
proof -
  have "c div 262144 = c div 64 div 4096" "c div 4096 = c div 64 div 64"
    by (simp_all add: div_mult2_eq [symmetric])
  then have "(c div 262144 * 64 + c div 4096 mod 64) * 64 + c div 64 mod 64 = c div 64"
    using three_digits [of "c div 64"] by simp
  then show ?thesis by simp
qed

lemma read_rest_cont [simp]:
  "read_rest (Suc n) v ((0x80 + c mod 64) # bs) = read_rest n (v * 64 + c mod 64) bs"
  by (simp del: add_Suc_right)

lemma encode_cases:
  obtains (one) "c < 0x80" "encode_utf8 c = [c]"
  | (two) a l where "c = a * 64 + l" "l < 64" "2 \<le> a" "a < 32" "encode_utf8 c = [0xC0 + a, 0x80 + l]"
  | (three) a m l where "c = (a * 64 + m) * 64 + l" "m < 64" "l < 64" "a < 16" "0x800 \<le> c"
      "encode_utf8 c = [0xE0 + a, 0x80 + m, 0x80 + l]"
  | (four) a k m l where "c = ((a * 64 + k) * 64 + m) * 64 + l" "k < 64" "m < 64" "l < 64" "0x10000 \<le> c"
      "encode_utf8 c = [0xF0 + a, 0x80 + k, 0x80 + m, 0x80 + l]"
proof -
  consider "c < 0x80" | "0x80 \<le> c" "c < 0x800" | "0x800 \<le> c" "c < 0x10000" | "0x10000 \<le> c" by linarith
  then show ?thesis
  proof cases
    case 1 then show ?thesis by (intro one) (simp_all add: encode_utf8_def)
  next
    case 2
    have "2 \<le> c div 64" "c div 64 < 32" using 2 by linarith+
    with 2 show ?thesis by (intro two [of "c div 64" "c mod 64"]) (simp_all add: encode_utf8_def)
  next
    case 3
    have "c div 4096 < 16" using 3 by linarith
    with 3 three_digits [of c] show ?thesis
      by (intro three [of "c div 4096" "c div 64 mod 64" "c mod 64"])
        (simp_all add: encode_utf8_def)
  next
    case 4
    with four_digits [of c] show ?thesis
      by (intro four [of "c div 262144" "c div 4096 mod 64" "c div 64 mod 64" "c mod 64"])
        (simp_all add: encode_utf8_def)
  qed
qed

lemma read_rest_low:
  assumes "l < 64"
  shows "read_rest (Suc n) v ((0x80 + l) # bs) = read_rest n (v * 64 + l) bs"
  using read_rest_cont [of n v l bs] assms by simp

lemma low_continuation: "l < 64 \<Longrightarrow> continuation (0x80 + l)"
  by (simp add: continuation_def)

lemma low_second:
  assumes "a < 16" "l < 64" "a = 0 \<longrightarrow> 32 \<le> l" "a = 0xD \<longrightarrow> l < 32"
  shows "second_ok (0xE0 + a) (0x80 + l)"
  using assms by (auto simp: second_ok_def low_continuation)

lemma low_second_four:
  assumes "l < 64" "a = 0 \<longrightarrow> 16 \<le> l" "a = 4 \<longrightarrow> l < 16"
  shows "second_ok (0xF0 + a) (0x80 + l)"
  using assms by (auto simp: second_ok_def low_continuation)

lemma lead_low: "(0xC0 + a) mod 32 = a" if "a < (32::nat)"
proof -
  have "(0xC0 + a) mod 32 = (32 * 6 + a) mod (32::nat)" by simp
  also have "\<dots> = a mod 32" by (rule mod_mult_self4)
  finally show ?thesis using that by simp
qed

lemma lead_low_three: "(0xE0 + a) mod 16 = a" if "a < (16::nat)"
proof -
  have "(0xE0 + a) mod 16 = (16 * 14 + a) mod (16::nat)" by simp
  also have "\<dots> = a mod 16" by (rule mod_mult_self4)
  finally show ?thesis using that by simp
qed

lemma lead_low_four: "(0xF0 + a) mod 8 = a" if "a < (8::nat)"
proof -
  have "(0xF0 + a) mod 8 = (8 * 30 + a) mod (8::nat)" by simp
  also have "\<dots> = a mod 8" by (rule mod_mult_self4)
  finally show ?thesis using that by simp
qed

text \<open>Reading goes by the first byte of a sequence; the second one has been checked.\<close>

lemma read_char_two:
  assumes "2 \<le> a" "a < 32"
  shows "read_char (0xC0 + a) bs = read_rest 1 a bs"
  using assms lead_low [of a] by (simp add: read_char_def)

lemma read_char_three:
  assumes "a < 16"
  shows "read_char (0xE0 + a) bs = (if starts_ok (0xE0 + a) bs then read_rest 2 a bs else (None, bs))"
  using assms lead_low_three [of a] by (simp add: read_char_def)

lemma read_char_four:
  assumes "a < 5"
  shows "read_char (0xF0 + a) bs = (if starts_ok (0xF0 + a) bs then read_rest 3 a bs else (None, bs))"
  using assms lead_low_four [of a] by (simp add: read_char_def)

text \<open>The encoding of a character, whole or cut off, is one sequence.\<close>

lemma lossy_char:
  assumes "scalar c"
  shows "from_utf8_lossy (encode_utf8 c @ bs) = c # from_utf8_lossy bs"
proof (cases c rule: encode_cases)
  case one then show ?thesis by (simp add: read_char_def or_replacement_def)
next
  case (two a l)
  have "read_char (0xC0 + a) ((0x80 + l) # bs) = (Some c, bs)"
    using two(1-4) read_rest_low [of l 0 a bs] by (simp add: read_char_two)
  then show ?thesis using two(5) by (simp add: or_replacement_def)
next
  case (three a m l)
  have "second_ok (0xE0 + a) (0x80 + m)"
    using three(1-5) assms by (intro low_second) (auto simp: scalar_def)
  then have "read_char (0xE0 + a) ((0x80 + m) # (0x80 + l) # bs) = (Some c, bs)"
    using three(1-4) read_rest_low [of m 1 a] read_rest_low [of l 0]
    by (simp add: read_char_three starts_ok_def numeral_2_eq_2)
  then show ?thesis using three(6) by (simp add: or_replacement_def)
next
  case (four a k m l)
  have a: "a < 5" using four(1,2) assms by (auto simp: scalar_def)
  have "second_ok (0xF0 + a) (0x80 + k)"
    using four(1-5) assms by (intro low_second_four) (auto simp: scalar_def)
  then have "read_char (0xF0 + a) ((0x80 + k) # (0x80 + m) # (0x80 + l) # bs) = (Some c, bs)"
    using four(1-4) a read_rest_low [of k 2 a] read_rest_low [of m 1] read_rest_low [of l 0]
    by (simp add: read_char_four starts_ok_def numeral_3_eq_3 numeral_2_eq_2)
  then show ?thesis using four(6) by (simp add: or_replacement_def)
qed

lemma lossy_encoded:
  assumes "\<forall>c \<in> set s. scalar c"
  shows "from_utf8_lossy (encode_str s @ bs) = s @ from_utf8_lossy bs"
  using assms by (induction s) (simp_all add: lossy_char)

lemma lossy_inverts: "\<forall>c \<in> set s. scalar c \<Longrightarrow> from_utf8_lossy (encode_str s) = s"
  using lossy_encoded [of s "[]"] by simp

text \<open>The tail of a cut encoding: each byte is one that starts no sequence.\<close>

lemma lossy_stray:
  assumes "continuation b"
  shows "from_utf8_lossy (b # bs) = replacement # from_utf8_lossy bs"
  using assms by (simp add: read_char_def continuation_def or_replacement_def)

lemma lossy_strays:
  assumes "\<forall>b \<in> set bs. continuation b"
  shows "from_utf8_lossy (bs @ cs) = replicate (length bs) replacement @ from_utf8_lossy cs"
  using assms by (induction bs) (simp_all add: lossy_stray del: from_utf8_lossy.simps(2))

lemma encode_tail: "\<forall>b \<in> set (tl (encode_utf8 c)). continuation b"
  by (cases c rule: encode_cases) (simp_all add: low_continuation)

lemma lossy_cut_char:
  assumes "scalar c" "0 < k" "k < len_utf8 c"
  shows "from_utf8_lossy (take k (encode_utf8 c)) = [replacement]"
proof (cases c rule: encode_cases)
  case one then show ?thesis using assms(2,3) by (simp add: len_utf8_def)
next
  case (two a l)
  have "k = 1" using assms(2,3) two(5) length_encode_utf8 [of c] by simp
  then show ?thesis using two by (simp add: read_char_two or_replacement_def)
next
  case (three a m l)
  have ok: "second_ok (0xE0 + a) (0x80 + m)"
    using three(1-5) assms(1) by (intro low_second) (auto simp: scalar_def)
  have "k = 1 \<or> k = 2" using assms(2,3) three(6) length_encode_utf8 [of c] by auto
  then show ?thesis
    using three ok read_rest_low [of m 1 a]
    by (auto simp: read_char_three starts_ok_def or_replacement_def numeral_2_eq_2)
next
  case (four a p m l)
  have a: "a < 5" using four(1,2) assms by (auto simp: scalar_def)
  have ok: "second_ok (0xF0 + a) (0x80 + p)"
    using four(1-5) assms(1) by (intro low_second_four) (auto simp: scalar_def)
  have "k = 1 \<or> k = 2 \<or> k = 3" using assms(2,3) four(6) length_encode_utf8 [of c] by auto
  then show ?thesis
    using four(2-4,6) a ok read_rest_low [of p 2 a] read_rest_low [of m 1]
    by (auto simp: read_char_four starts_ok_def or_replacement_def numeral_3_eq_3 numeral_2_eq_2)
qed

end
