(* ===== verification/Cast.thy ===== *)
theory Cast
  imports Utf8
begin

text \<open>
  Session recordings (gpui_term/src/cast.rs) and their playback (termua/src/cast_player.rs).
  A recording is a text file: a JSON header and one JSON array (time, kind, text) per line.
  The JSON library (serde_json), the arithmetic on times (\<open>f64\<close>) and the system clock are
  parameters; reading and writing the file itself does not fail in the model, and the
  player's switching off of the terminal's echo is left out.
\<close>

section \<open>Recording\<close>

record cast_header =
  h_width :: nat
  h_height :: nat
  h_timestamp :: nat
  h_env :: "(rstring \<times> rstring) list"

datatype 't cast_msg = MsgOutput 't "byte list" | MsgInput 't "byte list" | MsgResize 't nat nat | MsgStop

text \<open>What the library is asked to print: the header, and an event.\<close>

type_synonym 't event_json = "'t \<Rightarrow> rstring \<Rightarrow> rstring \<Rightarrow> rstring"
type_synonym header_json = "cast_header \<Rightarrow> rstring"

definition newline :: rchar where "newline = 10"

definition writer_new :: "header_json \<Rightarrow> cast_header \<Rightarrow> rstring" where
  "writer_new hj h = hj h @ [newline]"

definition write_event :: "'t event_json \<Rightarrow> 't \<Rightarrow> rstring \<Rightarrow> rstring \<Rightarrow> rstring" where
  "write_event ej t kind payload = ej t kind payload @ [newline]"

definition write_text_event :: "'t event_json \<Rightarrow> 't \<Rightarrow> rstring \<Rightarrow> byte list \<Rightarrow> rstring" where
  "write_text_event ej t kind bytes = write_event ej t kind (from_utf8_lossy bytes)"

definition write_output :: "'t event_json \<Rightarrow> 't \<Rightarrow> byte list \<Rightarrow> rstring" where
  "write_output ej t bytes = write_text_event ej t (rs ''o'') bytes"

definition write_input :: "'t event_json \<Rightarrow> 't \<Rightarrow> byte list \<Rightarrow> rstring" where
  "write_input ej t bytes = write_text_event ej t (rs ''i'') bytes"

text \<open>\<open>format!("{cols}x{rows}")\<close>.\<close>

function show_nat :: "nat \<Rightarrow> rstring" where
  "show_nat n = (if n < 10 then [48 + n] else show_nat (n div 10) @ [48 + n mod 10])"
  by pat_completeness auto
termination by (relation "measure id") auto
declare show_nat.simps [simp del]

definition write_resize :: "'t event_json \<Rightarrow> 't \<Rightarrow> nat \<Rightarrow> nat \<Rightarrow> rstring" where
  "write_resize ej t cols rows = write_event ej t (rs ''r'') (show_nat cols @ rs ''x'' @ show_nat rows)"

text \<open>The thread that owns the file: messages until Stop, or until every sender is gone.\<close>

fun record_loop :: "'t event_json \<Rightarrow> 't cast_msg list \<Rightarrow> rstring" where
  "record_loop ej [] = []"
| "record_loop ej (MsgOutput t bytes # ms) = write_output ej t bytes @ record_loop ej ms"
| "record_loop ej (MsgInput t bytes # ms) = write_input ej t bytes @ record_loop ej ms"
| "record_loop ej (MsgResize t cols rows # ms) = write_resize ej t cols rows @ record_loop ej ms"
| "record_loop ej (MsgStop # ms) = []"

definition start_cast_recorder :: "header_json \<Rightarrow> 't event_json \<Rightarrow> cast_header \<Rightarrow> 't cast_msg list \<Rightarrow> rstring" where
  "start_cast_recorder hj ej h ms = writer_new hj h @ record_loop ej ms"

text \<open>The sender's end of the channel: input is only sent on when it is to be recorded.\<close>

definition sender_output :: "'t \<Rightarrow> byte list \<Rightarrow> 't cast_msg list" where
  "sender_output t bytes = [MsgOutput t bytes]"

definition sender_input :: "bool \<Rightarrow> 't \<Rightarrow> byte list \<Rightarrow> 't cast_msg list" where
  "sender_input include_input t bytes = (if \<not> include_input then [] else [MsgInput t bytes])"

definition sender_resize :: "'t \<Rightarrow> nat \<Rightarrow> nat \<Rightarrow> 't cast_msg list" where
  "sender_resize t cols rows = [MsgResize t cols rows]"

section \<open>Fish's newline probes\<close>

text \<open>
  The player drops the sequence the fish shell paints to find out whether a command's
  output ended in a newline: a dim U+23CE, spaces, and the codes that erase it. Positions
  in the text are counted in characters here; those of the code are the byte positions of
  the same characters, because \<open>find\<close> gives boundaries only.
\<close>

definition probe_prefix :: rstring where
  "probe_prefix = [27, 91, 50, 109, 0x23CE, 27, 91, 109]"

definition probe_suffix :: rstring where
  "probe_suffix = [13, 0x23CE, 32, 13, 27, 91, 75]"

fun find_str :: "rstring \<Rightarrow> rstring \<Rightarrow> nat option" where
  "find_str p [] = (if p = [] then Some 0 else None)"
| "find_str p (c # s) = (if starts_with p (c # s) then Some 0 else map_option Suc (find_str p s))"

lemma find_str_bound: "find_str p s = Some i \<Longrightarrow> i + length p \<le> length s"
proof (induction s arbitrary: i)
  case Nil then show ?case by (simp split: if_splits)
next
  case (Cons c s)
  show ?case
  proof (cases "starts_with p (c # s)")
    case True
    then obtain r where "c # s = p @ r" by (auto simp: starts_with_iff)
    then have "length p \<le> length (c # s)" by (metis length_append le_add1)
    then show ?thesis using Cons.prems True by simp
  next
    case False
    then obtain j where "find_str p s = Some j" "i = Suc j" using Cons.prems by auto
    then show ?thesis using Cons.IH [of j] by simp
  qed
qed

definition all_spaces :: "rstring \<Rightarrow> bool" where
  "all_spaces s \<longleftrightarrow> s \<noteq> [] \<and> list_all (\<lambda>c. c = 32) s"

definition slice :: "rstring \<Rightarrow> nat \<Rightarrow> nat \<Rightarrow> rstring" where
  "slice s i j = take (j - i) (drop i s)"

lemma find_prefix_bound:
  assumes "find_str probe_prefix (drop n s) = Some i"
  shows "n + i + 8 \<le> length s"
  using find_str_bound [OF assms] by (simp add: probe_prefix_def)

lemma length_probe [simp]: "length probe_prefix = 8" "length probe_suffix = 7"
  by (simp_all add: probe_prefix_def probe_suffix_def)

text \<open>The state of the loop: \<open>search_from\<close>, \<open>last_kept\<close> and the output written so far, if any.\<close>

function strip_loop :: "rstring \<Rightarrow> nat \<Rightarrow> nat \<Rightarrow> rstring option \<Rightarrow> nat \<times> rstring option" where
  "strip_loop s search_from last_kept out =
     (case find_str probe_prefix (drop search_from s) of
        None \<Rightarrow> (last_kept, out)
      | Some relative_start \<Rightarrow>
          (let start = search_from + relative_start;
               padding_start = start + length probe_prefix
           in case find_str probe_suffix (drop padding_start s) of
                None \<Rightarrow> (last_kept, out)
              | Some relative_end \<Rightarrow>
                  (let stop = padding_start + relative_end
                   in if all_spaces (slice s padding_start stop)
                      then strip_loop s (stop + length probe_suffix) (stop + length probe_suffix)
                             (Some (case_option [] id out @ slice s last_kept start))
                      else strip_loop s padding_start last_kept out)))"
  by pat_completeness auto

termination
  by (relation "measure (\<lambda>(s, n, _). length s - n)") (auto dest!: find_prefix_bound)

declare strip_loop.simps [simp del]

definition strip_fish_newline_probes :: "rstring \<Rightarrow> rstring" where
  "strip_fish_newline_probes s =
     (case strip_loop s 0 0 None of
        (last_kept, Some out) \<Rightarrow> out @ drop last_kept s
      | (_, None) \<Rightarrow> s)"

section \<open>Playback\<close>

text \<open>What the JSON library reads; a number as \<open>as_f64\<close> and as \<open>as_u64\<close> see it.\<close>

datatype 't json = JNull | JBool bool | JNumber 't "nat option" | JString rstring
  | JArray "'t json list" | JObject "(rstring \<times> 't json) list"

fun as_array :: "'t json \<Rightarrow> 't json list option" where
  "as_array (JArray xs) = Some xs"
| "as_array _ = None"

fun as_f64 :: "'t json \<Rightarrow> 't option" where
  "as_f64 (JNumber t _) = Some t"
| "as_f64 _ = None"

fun as_u64 :: "'t json \<Rightarrow> nat option" where
  "as_u64 (JNumber _ n) = n"
| "as_u64 _ = None"

fun as_str :: "'t json \<Rightarrow> rstring option" where
  "as_str (JString s) = Some s"
| "as_str _ = None"

fun get_key :: "'t json \<Rightarrow> rstring \<Rightarrow> 't json option" where
  "get_key (JObject kvs) k = map_of kvs k"
| "get_key _ k = None"

datatype 't cast_event = EvOutput 't rstring | EvInput 't rstring | EvResize 't rstring

datatype play_error = BadSpeed | EmptyFile | BadHeader | BadVersion | BadEventJson | NotAnArray
  | WrongLength nat | TimeNotNumber | TypeNotString | DataNotString | UnsupportedType rstring

definition or_error :: "'e \<Rightarrow> 'a option \<Rightarrow> 'e + 'a" where
  "or_error e r = (case r of None \<Rightarrow> Inl e | Some x \<Rightarrow> Inr x)"

definition and_then :: "'e + 'a \<Rightarrow> ('a \<Rightarrow> 'e + 'b) \<Rightarrow> 'e + 'b" where
  "and_then r f = (case r of Inl e \<Rightarrow> Inl e | Inr x \<Rightarrow> f x)"

definition event_of :: "'t \<Rightarrow> rstring \<Rightarrow> rstring \<Rightarrow> play_error + 't cast_event" where
  "event_of t ty data =
     (if ty = rs ''o'' then Inr (EvOutput t data)
      else if ty = rs ''i'' then Inr (EvInput t data)
      else if ty = rs ''r'' then Inr (EvResize t data)
      else Inl (UnsupportedType ty))"

definition parse_event_line :: "(rstring \<Rightarrow> 't json option) \<Rightarrow> rstring \<Rightarrow> play_error + 't cast_event" where
  "parse_event_line from_str line =
     and_then (or_error BadEventJson (from_str line)) (\<lambda>v.
     and_then (or_error NotAnArray (as_array v)) (\<lambda>arr.
     if length arr \<noteq> 3 then Inl (WrongLength (length arr))
     else and_then (or_error TimeNotNumber (as_f64 (arr ! 0))) (\<lambda>t.
          and_then (or_error TypeNotString (as_str (arr ! 1))) (\<lambda>ty.
          and_then (or_error DataNotString (as_str (arr ! 2))) (\<lambda>data.
          event_of t ty data)))))"

text \<open>
  What the player does, in order: it waits for a time and it prints. It ends well, with an
  error, or in a panic (\<open>Duration::from_secs_f64\<close> panics when the number of seconds does
  not fit).
\<close>

datatype 'd action = WaitUntil 'd | Print rstring

datatype ending = Played | Failed play_error | Panicked

definition read_line :: "rstring \<Rightarrow> rstring \<times> rstring" where
  "read_line s =
     (case dropWhile (\<lambda>c. c \<noteq> newline) s of
        [] \<Rightarrow> (s, [])
      | c # r \<Rightarrow> (takeWhile (\<lambda>c. c \<noteq> newline) s @ [c], r))"

lemma read_line_shorter: "s \<noteq> [] \<Longrightarrow> length (snd (read_line s)) < length s"
  using length_dropWhile_le [of "\<lambda>c. c \<noteq> newline" s]
  by (auto simp: read_line_def split: list.split)

text \<open>
  \<open>delay\<close> gives for the time of an event nothing when it is not finite and positive, and
  otherwise the moment to wait for, or a panic.
\<close>

datatype 'd delay = NoDelay | Until 'd | TooLong

fun event_time :: "'t cast_event \<Rightarrow> 't" where
  "event_time (EvOutput t _) = t"
| "event_time (EvInput t _) = t"
| "event_time (EvResize t _) = t"

fun event_print :: "'t cast_event \<Rightarrow> 'd action list" where
  "event_print (EvOutput t s) = [Print (strip_fish_newline_probes s)]"
| "event_print (EvInput t s) = []"
| "event_print (EvResize t s) = []"

definition end_actions :: "'d action list" where
  "end_actions =
     [Print ([13, 10] @ rs ''[Recorder] Playback finished.''),
      Print (27 # rs ''[?12l'' @ 27 # rs ''[?25l'')]"

definition after :: "'d action list \<Rightarrow> 'd action list \<times> ending \<Rightarrow> 'd action list \<times> ending" where
  "after acts r = (acts @ fst r, snd r)"

function play_events ::
  "(rstring \<Rightarrow> 't json option) \<Rightarrow> bool \<Rightarrow> ('t \<Rightarrow> 'd delay) \<Rightarrow> rstring \<Rightarrow> 'd action list \<times> ending" where
  "play_events from_str sleep delay s =
     (if s = [] then (end_actions, Played)
      else (let line = trim_end (fst (read_line s)); rest = snd (read_line s)
            in if line = [] then play_events from_str sleep delay rest
               else case parse_event_line from_str line of
                      Inl e \<Rightarrow> ([], Failed e)
                    | Inr ev \<Rightarrow>
                        (case (if sleep then delay (event_time ev) else NoDelay) of
                           TooLong \<Rightarrow> ([], Panicked)
                         | NoDelay \<Rightarrow> after (event_print ev) (play_events from_str sleep delay rest)
                         | Until d \<Rightarrow>
                             after (WaitUntil d # event_print ev) (play_events from_str sleep delay rest))))"
  by pat_completeness auto
termination
  by (relation "measure (\<lambda>(_, _, _, s). length s)") (auto dest: read_line_shorter)
declare play_events.simps [simp del]

definition wrong_version :: "'t json \<Rightarrow> bool" where
  "wrong_version v \<longleftrightarrow>
     (case get_key v (rs ''version'') of
        None \<Rightarrow> False
      | Some w \<Rightarrow> (case as_u64 w of None \<Rightarrow> False | Some n \<Rightarrow> n \<noteq> 2))"

definition play_cast ::
  "(rstring \<Rightarrow> 't json option) \<Rightarrow> bool \<Rightarrow> bool \<Rightarrow> ('t \<Rightarrow> 'd delay) \<Rightarrow> rstring \<Rightarrow> 'd action list \<times> ending" where
  "play_cast from_str speed_ok sleep delay s =
     (if \<not> speed_ok then ([], Failed BadSpeed)
      else if fst (read_line s) = [] then ([], Failed EmptyFile)
      else (let header = trim (fst (read_line s)); rest = snd (read_line s)
            in if header = [] then play_events from_str sleep delay rest
               else case from_str header of
                      None \<Rightarrow> ([], Failed BadHeader)
                    | Some v \<Rightarrow>
                        if wrong_version v then ([], Failed BadVersion)
                        else play_events from_str sleep delay rest))"

section \<open>The probes, position by position\<close>

text \<open>
  The reference: reading the text once from the left, a probe is dropped where one stands,
  and every other character is kept.
\<close>

definition probe_at :: "rstring \<Rightarrow> rstring option" where
  "probe_at s =
     (case strip_prefix probe_prefix s of
        None \<Rightarrow> None
      | Some r \<Rightarrow>
          if takeWhile (\<lambda>c. c = 32) r = [] then None
          else strip_prefix probe_suffix (dropWhile (\<lambda>c. c = 32) r))"

lemma strip_prefix_append [simp]: "strip_prefix p (p @ r) = Some r"
  by simp

lemma probe_at_Some:
  "probe_at s = Some r \<longleftrightarrow>
     (\<exists>n > 0. s = probe_prefix @ replicate n 32 @ probe_suffix @ r)"
proof
  assume "probe_at s = Some r"
  then obtain q where q: "s = probe_prefix @ q" "takeWhile (\<lambda>c. c = 32) q \<noteq> []"
      "dropWhile (\<lambda>c. c = 32) q = probe_suffix @ r"
    by (auto simp: probe_at_def strip_prefix_Some split: option.splits if_splits)
  have "takeWhile (\<lambda>c. c = 32) q = replicate (length (takeWhile (\<lambda>c. c = 32) q)) 32"
    by (rule replicate_eqI) (auto dest: set_takeWhileD)
  then have "q = replicate (length (takeWhile (\<lambda>c. c = 32) q)) 32 @ probe_suffix @ r"
    using q(3) takeWhile_dropWhile_id by metis
  moreover have "0 < length (takeWhile (\<lambda>c. c = 32) q)" using q(2) by simp
  ultimately show "\<exists>n > 0. s = probe_prefix @ replicate n 32 @ probe_suffix @ r"
    using q(1) by blast
next
  assume "\<exists>n > 0. s = probe_prefix @ replicate n 32 @ probe_suffix @ r"
  then obtain n where n: "0 < n" "s = probe_prefix @ replicate n 32 @ probe_suffix @ r" by blast
  have "takeWhile (\<lambda>c. c = 32) (replicate n 32 @ probe_suffix @ r) = replicate n (32::nat)"
    "dropWhile (\<lambda>c. c = 32) (replicate n 32 @ probe_suffix @ r) = probe_suffix @ r"
    by (induction n) (simp_all add: probe_suffix_def)
  then show "probe_at s = Some r"
    using n by (simp add: probe_at_def)
qed

lemma probe_at_shorter: "probe_at s = Some r \<Longrightarrow> length r < length s"
  by (auto simp: probe_at_Some probe_prefix_def)

function drop_probes :: "rstring \<Rightarrow> rstring" where
  "drop_probes [] = []"
| "drop_probes (c # s) =
     (case probe_at (c # s) of
        Some r \<Rightarrow> drop_probes r
      | None \<Rightarrow> c # drop_probes s)"
  by pat_completeness auto
termination
  by (relation "measure length") (auto dest: probe_at_shorter)
declare drop_probes.simps(2) [simp del]

lemma find_str_Some:
  assumes "find_str p s = Some i"
  shows "s = take i s @ p @ drop (i + length p) s" "\<forall>j < i. \<not> starts_with p (drop j s)"
proof -
  have "s = take i s @ p @ drop (i + length p) s \<and> (\<forall>j < i. \<not> starts_with p (drop j s))"
    using assms
  proof (induction s arbitrary: i)
    case Nil then show ?case by (simp split: if_splits)
  next
    case (Cons c s)
    show ?case
    proof (cases "starts_with p (c # s)")
      case True
      then obtain r where "c # s = p @ r" by (auto simp: starts_with_iff)
      moreover have "i = 0" using Cons.prems True by simp
      ultimately show ?thesis by simp
    next
      case False
      then obtain j where j: "find_str p s = Some j" "i = Suc j" using Cons.prems by auto
      have "\<not> starts_with p (drop k (c # s))" if "k < i" for k
        using that conjunct2 [OF Cons.IH [OF j(1)]] False j(2) by (cases k) auto
      moreover have "c # s = c # take j s @ p @ drop (j + length p) s"
        using conjunct1 [OF Cons.IH [OF j(1)]] by (rule arg_cong)
      ultimately show ?thesis using j(2) by simp
    qed
  qed
  then show "s = take i s @ p @ drop (i + length p) s" "\<forall>j < i. \<not> starts_with p (drop j s)"
    by blast+
qed

lemma find_str_None:
  assumes "find_str p s = None"
  shows "\<not> starts_with p (drop j s)"
  using assms
proof (induction s arbitrary: j)
  case Nil then show ?case by (auto simp: starts_with_iff split: if_splits)
next
  case (Cons c s)
  then show ?case by (cases j) (auto split: if_splits)
qed

lemma probe_starts: "probe_at s = Some r \<Longrightarrow> starts_with probe_prefix s"
  by (auto simp: probe_at_Some starts_with_iff)

lemma drop_probes_before:
  assumes "\<forall>j < i. probe_at (drop j s) = None" "i \<le> length s"
  shows "drop_probes s = take i s @ drop_probes (drop i s)"
  using assms
proof (induction i arbitrary: s)
  case 0 then show ?case by simp
next
  case (Suc i)
  then obtain c t where s: "s = c # t" by (cases s) auto
  have "\<forall>j < i. probe_at (drop j t) = None"
  proof (intro allI impI)
    fix j assume "j < i"
    then show "probe_at (drop j t) = None" using Suc.prems(1) s by (metis Suc_less_eq drop_Suc_Cons)
  qed
  moreover have "probe_at (c # t) = None" using Suc.prems(1) s by (metis drop_0 zero_less_Suc)
  ultimately show ?case using Suc.IH [of t] Suc.prems(2) s by (simp add: drop_probes.simps(2))
qed

lemma drop_probes_none:
  assumes "\<And>j. probe_at (drop j s) = None"
  shows "drop_probes s = s"
  using drop_probes_before [of "length s" s] assms by simp

lemma drop_probes_found:
  assumes "find_str probe_prefix s = Some i"
  shows "drop_probes s = take i s @ drop_probes (probe_prefix @ drop (i + 8) s)"
proof -
  have "\<forall>j < i. probe_at (drop j s) = None"
    using find_str_Some(2) [OF assms] probe_starts by (metis not_None_eq)
  moreover have "i \<le> length s" using find_str_bound [OF assms] by simp
  moreover have "drop i s = probe_prefix @ drop (i + 8) s"
    using find_str_Some(1) [OF assms] \<open>i \<le> length s\<close>
    by (metis append_eq_conv_conj length_probe(1) length_take min.absorb2)
  ultimately show ?thesis using drop_probes_before by metis
qed

lemma drop_probes_other:
  assumes "probe_at (probe_prefix @ r) = None"
  shows "drop_probes (probe_prefix @ r) = probe_prefix @ drop_probes r"
proof -
  have "probe_at (drop j (probe_prefix @ r)) = None" if "j < 8" for j
  proof (cases "j = 0")
    case True then show ?thesis using assms by simp
  next
    case False
    then have "j \<in> {1, 2, 3, 4, 5, 6, 7}" using that by auto
    then show ?thesis by (auto simp: probe_at_def probe_prefix_def)
  qed
  then show ?thesis using drop_probes_before [of 8 "probe_prefix @ r"] by simp
qed

lemma find_suffix_spaces: "find_str probe_suffix (replicate n 32 @ probe_suffix @ r) = Some n"
proof (induction n)
  case 0 then show ?case by (simp add: probe_suffix_def starts_with_def)
next
  case (Suc n)
  then show ?case by (simp add: probe_suffix_def starts_with_def)
qed

lemma probe_at_padding:
  assumes "find_str probe_suffix r = Some i"
  shows "probe_at (probe_prefix @ r) = (if all_spaces (take i r) then Some (drop (i + 7) r) else None)"
proof (cases "all_spaces (take i r)")
  case True
  have "i \<le> length r" using find_str_bound [OF assms] by simp
  have "take i r = replicate (length (take i r)) 32"
    by (rule replicate_eqI) (use True in \<open>auto simp: all_spaces_def list_all_iff\<close>)
  then have "take i r = replicate i 32" using \<open>i \<le> length r\<close> by simp
  moreover have "r = take i r @ probe_suffix @ drop (i + 7) r"
    using find_str_Some(1) [OF assms] by simp
  ultimately have "r = replicate i 32 @ probe_suffix @ drop (i + 7) r" by metis
  moreover have "0 < i" using True by (cases i) (simp_all add: all_spaces_def)
  ultimately show ?thesis using True probe_at_Some [of "probe_prefix @ r"] by auto
next
  case False
  have "probe_at (probe_prefix @ r) = None"
  proof (rule ccontr)
    assume "probe_at (probe_prefix @ r) \<noteq> None"
    then obtain q n where "0 < n" "r = replicate n 32 @ probe_suffix @ q"
      using probe_at_Some by auto
    moreover then have "i = n" using assms find_suffix_spaces by simp
    ultimately show False using False by (simp add: all_spaces_def list_all_iff)
  qed
  then show ?thesis using False by simp
qed

lemma no_suffix_no_probe:
  assumes "find_str probe_suffix r = None"
  shows "probe_at (drop j (probe_prefix @ r)) = None"
proof (rule ccontr)
  assume "probe_at (drop j (probe_prefix @ r)) \<noteq> None"
  then obtain q n where n: "drop j (probe_prefix @ r) = probe_prefix @ replicate n 32 @ probe_suffix @ q"
    using probe_at_Some by auto
  have "drop (j + n) r = drop (j + n + 8) (probe_prefix @ r)" by simp
  also have "\<dots> = drop (n + 8) (drop j (probe_prefix @ r))" by (simp only: drop_drop ac_simps)
  also have "\<dots> = probe_suffix @ q" by (subst n) simp
  finally show False
    using find_str_None [OF assms, of "j + n"] by (simp add: starts_with_def)
qed

definition kept_so_far :: "rstring option \<Rightarrow> rstring" where
  "kept_so_far out = case_option [] id out"

lemma slice_append:
  assumes "i \<le> j" "j \<le> k"
  shows "slice s i j @ slice s j k = slice s i k"
proof -
  have "take (k - i) (drop i s) = take (j - i) (drop i s) @ take (k - j) (drop (j - i) (drop i s))"
    using take_add [of "j - i" "k - j" "drop i s"] assms by simp
  then show ?thesis using assms by (simp add: slice_def)
qed

lemma slice_rest: "i \<le> j \<Longrightarrow> slice s i j @ drop j s = drop i s"
  using append_take_drop_id [of "j - i" "drop i s"] by (simp add: slice_def)

lemma strip_loop_spec:
  assumes "strip_loop s n k out = (k', out')" "k \<le> n" "n \<le> length s"
  shows "kept_so_far out' @ drop k' s = kept_so_far out @ slice s k n @ drop_probes (drop n s)
    \<and> (out' = None \<longrightarrow> out = None \<and> k' = k)"
  using assms
proof (induction "length s - n" arbitrary: n k out k' out' rule: less_induct)
  case less

  note unroll = less.prems(1) [unfolded strip_loop.simps [of s n k out]]
  show ?case
  proof (cases "find_str probe_prefix (drop n s)")
    case None
    have "drop_probes (drop n s) = drop n s"
      by (rule drop_probes_none) (use find_str_None [OF None] probe_starts in \<open>metis not_None_eq\<close>)
    then show ?thesis using unroll None less.prems(2) slice_rest [of k n s] by simp
  next
    case (Some i)
    define start where "start = n + i"
    define r where "r = drop (start + 8) s"
    have le: "start + 8 \<le> length s" using find_prefix_bound [OF Some] by (simp add: start_def)
    have found: "drop_probes (drop n s) = slice s n start @ drop_probes (probe_prefix @ r)"
      using drop_probes_found [OF Some] by (simp add: slice_def start_def r_def ac_simps)
    have whole: "drop n s = slice s n start @ probe_prefix @ r"
      using find_str_Some(1) [OF Some] by (simp add: slice_def start_def r_def ac_simps)
    show ?thesis
    proof (cases "find_str probe_suffix r")
      case None
      have "drop_probes (probe_prefix @ r) = probe_prefix @ r"
        by (rule drop_probes_none) (rule no_suffix_no_probe [OF None])
      then have "drop_probes (drop n s) = drop n s" using found whole by simp
      then show ?thesis
        using unroll Some None less.prems(2) slice_rest [of k n s] by (simp add: start_def r_def Let_def)
    next
      case (Some m)
      note pad = probe_at_padding [OF Some]
      have m: "m + 7 \<le> length r" using find_str_bound [OF Some] by simp
      have slice: "slice s (start + 8) (start + 8 + m) = take m r" by (simp add: slice_def r_def)
      show ?thesis
      proof (cases "all_spaces (take m r)")
        case True
        define stop where "stop = start + 8 + m + 7"
        have step: "strip_loop s stop stop (Some (kept_so_far out @ slice s k start)) = (k', out')"
          using unroll \<open>find_str probe_prefix (drop n s) = Some i\<close> Some True slice
          by (simp add: start_def r_def Let_def stop_def kept_so_far_def)
        have "stop \<le> length s" using m le by (simp add: stop_def r_def)
        have "drop_probes (probe_prefix @ r) = drop_probes (drop stop s)"
          using pad True by (simp add: probe_prefix_def drop_probes.simps(2) stop_def r_def add.commute)
        moreover have "slice s k n @ slice s n start = slice s k start"
          using less.prems(2) by (intro slice_append) (simp_all add: start_def)
        moreover have "slice s stop stop = []" by (simp add: slice_def)
        moreover have "kept_so_far out' @ drop k' s = kept_so_far out @ slice s k start
            @ slice s stop stop @ drop_probes (drop stop s) \<and> out' \<noteq> None"
          using less.hyps [OF _ step] \<open>stop \<le> length s\<close> le
          by (simp add: stop_def start_def kept_so_far_def)
        ultimately show ?thesis using found by (metis append_assoc append_Nil)
      next
        case False
        have step: "strip_loop s (start + 8) k out = (k', out')"
          using unroll \<open>find_str probe_prefix (drop n s) = Some i\<close> Some False slice
          by (simp add: start_def r_def Let_def)
        have "drop_probes (probe_prefix @ r) = probe_prefix @ drop_probes r"
          by (rule drop_probes_other) (simp add: pad False)
        moreover have "slice s k n @ slice s n start @ probe_prefix = slice s k (start + 8)"
        proof -
          have "slice s start (start + 8) = probe_prefix"
            using whole slice_rest [of n start s] same_append_eq
            by (simp add: start_def) (simp add: slice_def)
          then show ?thesis
            using less.prems(2) slice_append [of k n start s] slice_append [of k start "start + 8" s]
            by (simp add: start_def flip: append_assoc)
        qed
        moreover have "kept_so_far out' @ drop k' s = kept_so_far out @ slice s k (start + 8)
            @ drop_probes (drop (start + 8) s) \<and> (out' = None \<longrightarrow> out = None \<and> k' = k)"
          using less.hyps [OF _ step] less.prems(2) le by (simp add: start_def)
        ultimately show ?thesis using found by (metis append_assoc r_def)
      qed
    qed
  qed
qed

text \<open>
  Dropping the probes with two searches gives what reading the text once, dropping the probe
  wherever one stands, gives.
\<close>

lemma strip_fish_eq: "strip_fish_newline_probes s = drop_probes s"
proof -
  obtain k out where loop: "strip_loop s 0 0 None = (k, out)" by fastforce
  then show ?thesis
    using strip_loop_spec [OF loop]
    by (cases out) (auto simp: strip_fish_newline_probes_def kept_so_far_def slice_def)
qed

lemma drop_probes_plain: "27 \<notin> set s \<Longrightarrow> drop_probes s = s"
proof (induction s)
  case Nil then show ?case by simp
next
  case (Cons c s)
  then show ?case by (simp add: drop_probes.simps(2) probe_at_def probe_prefix_def)
qed

section \<open>What was recorded is played\<close>

text \<open>
  What the JSON library promises for a header and an event: one line, not empty, with no
  blanks around it, that it reads back as the values it printed (the time up to rounding).
\<close>

definition line_ok :: "rstring \<Rightarrow> bool" where
  "line_ok s \<longleftrightarrow> s \<noteq> [] \<and> newline \<notin> set s \<and> \<not> is_whitespace (hd s) \<and> \<not> is_whitespace (last s)"

definition json_ok :: "header_json \<Rightarrow> 't event_json \<Rightarrow> (rstring \<Rightarrow> 't json option) \<Rightarrow> bool" where
  "json_ok hj ej from_str \<longleftrightarrow>
     (\<forall>h. line_ok (hj h) \<and>
        (\<exists>v t. from_str (hj h) = Some v \<and> get_key v (rs ''version'') = Some (JNumber t (Some 2)))) \<and>
     (\<forall>t k p. line_ok (ej t k p) \<and>
        (\<exists>t' n. from_str (ej t k p) = Some (JArray [JNumber t' n, JString k, JString p])))"

fun printed :: "'d action list \<Rightarrow> rstring" where
  "printed [] = []"
| "printed (WaitUntil d # acts) = printed acts"
| "printed (Print s # acts) = s @ printed acts"

definition end_text :: rstring where
  "end_text = printed (end_actions :: unit action list)"

fun shown_text :: "'t cast_msg \<Rightarrow> rstring" where
  "shown_text (MsgOutput t bytes) = strip_fish_newline_probes (from_utf8_lossy bytes)"
| "shown_text _ = []"

lemma printed_append [simp]: "printed (a @ b) = printed a @ printed b"
  by (induction a rule: printed.induct) simp_all

lemma printed_end: "printed end_actions = end_text"
  by (simp add: end_text_def end_actions_def)

lemma read_line_cut:
  assumes "newline \<notin> set l"
  shows "read_line (l @ newline # s) = (l @ [newline], s)"
proof -
  have "takeWhile (\<lambda>c. c \<noteq> newline) (l @ newline # s) = l"
    "dropWhile (\<lambda>c. c \<noteq> newline) (l @ newline # s) = newline # s"
    using assms by (induction l) auto
  then show ?thesis by (simp add: read_line_def)
qed

lemma whitespace_newline [simp]: "is_whitespace newline"
  by (simp add: is_whitespace_def newline_def)

lemma trim_end_line: "line_ok l \<Longrightarrow> trim_end (l @ [newline]) = l"
  by (cases l rule: rev_cases) (simp_all add: line_ok_def trim_end_def)

lemma trim_line: "line_ok l \<Longrightarrow> trim (l @ [newline]) = l"
  using trim_end_line [of l] by (cases l) (simp_all add: line_ok_def trim_def trim_start_def)

text \<open>One line of a recording, read back.\<close>

definition kind_of :: "'t cast_event \<Rightarrow> rstring" where
  "kind_of ev = rs (case ev of EvOutput _ _ \<Rightarrow> ''o'' | EvInput _ _ \<Rightarrow> ''i'' | EvResize _ _ \<Rightarrow> ''r'')"

fun data_of :: "'t cast_event \<Rightarrow> rstring" where
  "data_of (EvOutput t s) = s"
| "data_of (EvInput t s) = s"
| "data_of (EvResize t s) = s"

lemma event_of_kind:
  "event_of t (kind_of ev) (data_of ev) = Inr (map_cast_event (\<lambda>_. t) ev)"
  by (cases ev) (simp_all add: event_of_def kind_of_def rs_def)

lemma parse_event_written:
  assumes "json_ok hj ej from_str"
  shows "\<exists>t'. parse_event_line from_str (ej t (kind_of ev) (data_of ev)) = Inr (map_cast_event (\<lambda>_. t') ev)"
proof -
  obtain t' n where "from_str (ej t (kind_of ev) (data_of ev))
      = Some (JArray [JNumber t' n, JString (kind_of ev), JString (data_of ev)])"
    using assms unfolding json_ok_def by blast
  then have "parse_event_line from_str (ej t (kind_of ev) (data_of ev)) = event_of t' (kind_of ev) (data_of ev)"
    by (simp add: parse_event_line_def or_error_def and_then_def)
  then show ?thesis using event_of_kind [of t' ev] by metis
qed

lemma event_print_map: "event_print (map_cast_event f ev) = event_print ev"
  by (cases ev) simp_all

lemma play_written:
  assumes "json_ok hj ej from_str" "\<And>t. delay t \<noteq> TooLong"
  shows "\<exists>w. (play_events from_str sleep delay (write_event ej t (kind_of ev) (data_of ev) @ s)
      :: 'd action list \<times> ending)
    = after (w @ event_print ev) (play_events from_str sleep delay s) \<and> printed w = []"
proof -
  define l where "l = ej t (kind_of ev) (data_of ev)"
  have l: "line_ok l" using assms(1) by (simp add: l_def json_ok_def)
  then have cut: "read_line (l @ newline # s) = (l @ [newline], s)"
    by (simp add: line_ok_def read_line_cut)
  have "l \<noteq> []" using l by (simp add: line_ok_def)
  obtain t' where "parse_event_line from_str l = Inr (map_cast_event (\<lambda>_. t') ev)"
    using parse_event_written [OF assms(1)] l_def by metis
  then have played: "play_events from_str sleep delay (l @ newline # s) =
      (case (if sleep then delay (event_time (map_cast_event (\<lambda>_. t') ev)) else NoDelay) of
         TooLong \<Rightarrow> ([], Panicked)
       | NoDelay \<Rightarrow> after (event_print ev) (play_events from_str sleep delay s)
       | Until d \<Rightarrow> after (WaitUntil d # event_print ev) (play_events from_str sleep delay s))"
    using \<open>l \<noteq> []\<close>
    by (simp add: play_events.simps [of _ _ _ "l @ newline # s"] cut trim_end_line [OF l] event_print_map Let_def
        split: delay.split)
  show ?thesis
  proof (cases "if sleep then delay (event_time (map_cast_event (\<lambda>_. t') ev)) else NoDelay")
    case NoDelay
    then show ?thesis using played by (intro exI [of _ "[]"]) (simp add: write_event_def l_def)
  next
    case (Until d)
    then show ?thesis using played by (intro exI [of _ "[WaitUntil d]"]) (simp add: write_event_def l_def)
  next
    case TooLong
    then show ?thesis using assms(2) by (simp split: if_splits)
  qed
qed

lemma after_simps [simp]: "fst (after a r) = a @ fst r" "snd (after a r) = snd r"
  by (simp_all add: after_def)

fun event_of_msg :: "'t cast_msg \<Rightarrow> 't cast_event" where
  "event_of_msg (MsgOutput t bytes) = EvOutput t (from_utf8_lossy bytes)"
| "event_of_msg (MsgInput t bytes) = EvInput t (from_utf8_lossy bytes)"
| "event_of_msg (MsgResize t cols rows) = EvResize t (show_nat cols @ rs ''x'' @ show_nat rows)"
| "event_of_msg MsgStop = undefined"

lemma record_loop_Cons:
  "m \<noteq> MsgStop \<Longrightarrow> record_loop ej (m # ms) =
     write_event ej (event_time (event_of_msg m)) (kind_of (event_of_msg m)) (data_of (event_of_msg m))
       @ record_loop ej ms"
  by (cases m)
    (simp_all add: write_output_def write_input_def write_resize_def write_text_event_def kind_of_def)

lemma printed_msg: "m \<noteq> MsgStop \<Longrightarrow> printed (event_print (event_of_msg m)) = shown_text m"
  by (cases m) simp_all

lemma play_loop:
  assumes "json_ok hj ej from_str" "\<And>t. delay t \<noteq> TooLong" "MsgStop \<notin> set ms"
  shows "printed (fst (play_events from_str sleep delay (record_loop ej (ms @ MsgStop # rest)) :: 'd action list \<times> ending))
      = concat (map shown_text ms) @ end_text
    \<and> snd (play_events from_str sleep delay (record_loop ej (ms @ MsgStop # rest)) :: 'd action list \<times> ending) = Played"
  using assms(3)
proof (induction ms)
  case Nil
  then show ?case by (simp add: play_events.simps [of _ _ _ "[]"] printed_end)
next
  case (Cons m ms)
  let ?ev = "event_of_msg m"
  have m: "m \<noteq> MsgStop" "MsgStop \<notin> set ms" using Cons.prems by auto
  obtain w where w: "play_events from_str sleep delay (record_loop ej ((m # ms) @ MsgStop # rest))
      = after (w @ event_print ?ev) (play_events from_str sleep delay (record_loop ej (ms @ MsgStop # rest)))"
    "printed w = []"
    using play_written [where delay = delay, OF assms(1,2), where ev = ?ev and t = "event_time ?ev" and sleep = sleep
        and s = "record_loop ej (ms @ MsgStop # rest)"]
    unfolding append_Cons record_loop_Cons [OF m(1)] by blast
  show ?case using Cons.IH [OF m(2)] printed_msg [OF m(1)] by (simp only: w after_simps) (simp add: w(2))
qed

lemma play_recorded:
  assumes "json_ok hj ej from_str" "\<And>t. delay t \<noteq> TooLong" "MsgStop \<notin> set ms"
  shows "printed (fst (play_cast from_str True sleep delay (start_cast_recorder hj ej h (ms @ MsgStop # rest)) :: 'd action list \<times> ending))
      = concat (map shown_text ms) @ end_text
    \<and> snd (play_cast from_str True sleep delay (start_cast_recorder hj ej h (ms @ MsgStop # rest)) :: 'd action list \<times> ending) = Played"
proof -
  have l: "line_ok (hj h)" using assms(1) by (simp add: json_ok_def)
  then have cut: "read_line (hj h @ newline # s) = (hj h @ [newline], s)" for s
    by (simp add: line_ok_def read_line_cut)
  obtain v t where v: "from_str (hj h) = Some v" "get_key v (rs ''version'') = Some (JNumber t (Some 2))"
    using assms(1) unfolding json_ok_def by blast
  have "hj h \<noteq> []" using l by (simp add: line_ok_def)
  then have "play_cast from_str True sleep delay (start_cast_recorder hj ej h (ms @ MsgStop # rest))
      = play_events from_str sleep delay (record_loop ej (ms @ MsgStop # rest))"
    using v by (simp add: play_cast_def start_cast_recorder_def writer_new_def cut trim_line [OF l] wrong_version_def)
  then show ?thesis using play_loop [where delay = delay, OF assms] by simp
qed

text \<open>
  A session as the terminal sees it: the program's output in the pieces it was read in,
  the user's input, and changes of the size.
\<close>

datatype 't session_event = Shows 't rstring | Types 't rstring | Resizes 't nat nat

fun sent :: "bool \<Rightarrow> 't session_event \<Rightarrow> 't cast_msg list" where
  "sent inc (Shows t s) = sender_output t (encode_str s)"
| "sent inc (Types t s) = sender_input inc t (encode_str s)"
| "sent inc (Resizes t cols rows) = sender_resize t cols rows"

definition recorded ::
  "header_json \<Rightarrow> 't event_json \<Rightarrow> cast_header \<Rightarrow> bool \<Rightarrow> 't session_event list \<Rightarrow> rstring" where
  "recorded hj ej h inc evs = start_cast_recorder hj ej h (concat (map (sent inc) evs) @ [MsgStop])"

fun screen_text :: "'t session_event \<Rightarrow> rstring" where
  "screen_text (Shows t s) = drop_probes s"
| "screen_text (Types t s) = []"
| "screen_text (Resizes t cols rows) = []"

fun event_chars :: "'t session_event \<Rightarrow> rchar set" where
  "event_chars (Shows t s) = set s"
| "event_chars (Types t s) = set s"
| "event_chars (Resizes t cols rows) = {}"

lemma sent_shown:
  assumes "\<forall>c \<in> event_chars ev. scalar c"
  shows "concat (map shown_text (sent inc ev)) = screen_text ev" "MsgStop \<notin> set (sent inc ev)"
  using assms
  by (cases ev; simp add: sender_output_def sender_input_def sender_resize_def lossy_inverts strip_fish_eq)+

lemma all_sent_shown:
  assumes "\<forall>ev \<in> set evs. \<forall>c \<in> event_chars ev. scalar c"
  shows "concat (map shown_text (concat (map (sent inc) evs))) = concat (map screen_text evs)
    \<and> MsgStop \<notin> set (concat (map (sent inc) evs))"
  using assms by (induction evs) (simp_all add: sent_shown)

text \<open>A JSON library small enough to evaluate: one character stands for each value's length.\<close>

definition demo_ej :: "unit event_json" where
  "demo_ej t k p = map (\<lambda>c. c + 20000) (length k # k @ p)"

definition demo_hj :: header_json where
  "demo_hj h = [65]"

definition demo_from_str :: "rstring \<Rightarrow> unit json option" where
  "demo_from_str s =
     (if s = [65] then Some (JObject [(rs ''version'', JNumber () (Some 2))])
      else let u = map (\<lambda>c. c - 20000) s
           in Some (JArray [JNumber () None, JString (take (hd u) (tl u)), JString (drop (hd u) (tl u))]))"

lemma demo_json_ok: "json_ok demo_hj demo_ej demo_from_str"
proof -
  have "line_ok (demo_ej t k p)" for t k p
  proof -
    have "\<forall>c \<in> set (demo_ej t k p). 20000 \<le> c" by (auto simp: demo_ej_def)
    then have "\<forall>c \<in> set (demo_ej t k p). \<not> is_whitespace c" by (auto simp: is_whitespace_def)
    moreover have "demo_ej t k p \<noteq> []" by (simp add: demo_ej_def)
    ultimately show ?thesis unfolding line_ok_def using whitespace_newline by (metis hd_in_set last_in_set)
  qed
  moreover have "demo_from_str (demo_ej t k p) = Some (JArray [JNumber () None, JString k, JString p])" for t k p
    by (simp add: demo_from_str_def demo_ej_def comp_def Let_def)
  moreover have "line_ok (demo_hj h)" for h
    by (simp add: line_ok_def demo_hj_def newline_def is_whitespace_def)
  moreover have "demo_from_str (demo_hj h) = Some (JObject [(rs ''version'', JNumber () (Some 2))])" for h
    by (simp add: demo_from_str_def demo_hj_def)
  ultimately show ?thesis by (auto simp: json_ok_def)
qed

section \<open>Properties\<close>


text \<open>A character whose bytes are read in two pieces is lost: each piece is decoded alone, so
  the recording has one replacement character for its first bytes and one for each of the rest.\<close>

theorem cut_character_is_lost:
  assumes "json_ok hj ej from_str" "\<And>t. delay t \<noteq> TooLong"
    and "\<forall>c \<in> set s1 \<union> set s2. scalar c" "scalar c" "0 < k" "k < len_utf8 c"
  shows "printed (fst (play_cast from_str True sleep delay (start_cast_recorder hj ej h
        (sender_output t1 (encode_str s1 @ take k (encode_utf8 c))
          @ sender_output t2 (drop k (encode_utf8 c) @ encode_str s2) @ [MsgStop]))))
    = drop_probes (s1 @ [replacement]) @ drop_probes (replicate (len_utf8 c - k) replacement @ s2) @ end_text"
proof -
  have "from_utf8_lossy (encode_str s1 @ take k (encode_utf8 c)) = s1 @ [replacement]"
    using assms(3-6) by (simp add: lossy_encoded lossy_cut_char)
  moreover have "\<forall>b \<in> set (drop k (encode_utf8 c)). continuation b"
  proof -
    have "drop k (encode_utf8 c) = drop (k - 1) (tl (encode_utf8 c))"
      using assms(5) by (simp add: drop_Suc flip: drop_Suc)
    then show ?thesis using encode_tail set_drop_subset by (metis subsetD)
  qed
  then have "from_utf8_lossy (drop k (encode_utf8 c) @ encode_str s2)
      = replicate (len_utf8 c - k) replacement @ s2"
    using assms(3) by (simp add: lossy_strays lossy_inverts length_encode_utf8)
  ultimately show ?thesis
    using play_recorded [where delay = delay, OF assms(1,2), where sleep = sleep and h = h and rest = "[]" and ms =
          "sender_output t1 (encode_str s1 @ take k (encode_utf8 c)) @ sender_output t2 (drop k (encode_utf8 c) @ encode_str s2)"]
    by (simp add: sender_output_def strip_fish_eq)
qed


lemma cut_character_is_lost_witness:
  "printed (fst (play_cast demo_from_str True True (\<lambda>_. Until ()) (start_cast_recorder demo_hj demo_ej
        \<lparr>h_width = 80, h_height = 24, h_timestamp = 0, h_env = []\<rparr>
        (sender_output () (encode_str [97] @ take 1 (encode_utf8 0x4E2D))
          @ sender_output () (drop 1 (encode_utf8 0x4E2D) @ encode_str [98]) @ [MsgStop]))))
    = [97, replacement, replacement, replacement, 98] @ end_text"
proof -
  have "drop_probes ([97] @ [replacement]) = [97, replacement]"
    "drop_probes (replicate 2 replacement @ [98]) = [replacement, replacement, 98]"
    by (subst drop_probes_plain; simp add: replacement_def numeral_2_eq_2)+
  then show ?thesis
    using cut_character_is_lost [OF demo_json_ok, where delay = "\<lambda>_. Until ()" and sleep = True and c = "0x4E2D"
      and k = "1" and ?s1.0 = "[97]" and ?s2.0 = "[98]" and ?t1.0 = "()" and ?t2.0 = "()"
      and h = "\<lparr>h_width = 80, h_height = 24, h_timestamp = 0, h_env = []\<rparr>"]
    by (simp add: scalar_def len_utf8_def)
qed

end
