(* ===== verification/Spec2Isabelle.thy ===== *)
theory Spec2Isabelle
  imports SnippetView SuggestPopup TransferCenter PermitPool DockHistory SftpTable SshResolve KeyEscape MouseReport ViMode TermText TermResize AltScreen Cast
begin

text \<open>
  Verification development for termua, a terminal emulator with SSH sessions, an SFTP browser,
  snippets and command suggestions, written in Rust.

  PARTS. A window of the application holds terminals, SFTP browsers and a transfer center in a dock of
  panels and free tiles. A terminal is a grid of cells fed by the parser of control sequences (the crate
  \<open>alacritty_terminal\<close>, changed by this project to carry stable row ids); its view
  (\<open>crates/gpui_term\<close>) encodes keys and mouse events into input for the program, edits snippets and
  offers suggestions for the command being typed. The SFTP browser (\<open>crates/gpui_sftp\<close>) lists a
  remote tree, and its uploads take permits from a pool (\<open>crates/gpui_common\<close>) and report to the
  transfer center (\<open>crates/gpui_transfer\<close>). SSH sessions are configured by an \<open>ssh_config\<close> file
  (\<open>crates/wezterm-ssh\<close>).

  CONVENTIONS. A function that may panic returns an option, \<open>None\<close> being the panic; where the Rust
  function itself returns an option the panic is the outer one. Characters are numbers (Unicode scalar
  values), strings lists of them; byte offsets appear where the code uses them. \<open>usize\<close> counters are
  natural numbers with the subtractions checked (\<open>checked_sub\<close>) or saturating as in the code; \<open>i32\<close>
  line numbers are integers; fixed-width fields (flags, counters of transfers, deadlines) are words.
  Generic parameters and closures are arguments. Mutable objects are records passed through; callbacks
  to the window are events returned or left out, as said at each definition.

  THEORIES. Each theory names the file it models; definitions keep the names of the code.

  \<^item> \<open>Prelude\<close>: strings and the parts of the Rust standard library the code calls (trimming, splitting,
    stable sorting by a comparator, \<open>partition_point\<close>, association lists for hash maps), with lemmas;
    the locales \<open>total_cmp\<close> (a comparator by which lists can be sorted, given by the orders of entries,
    suggestions and placeholders) and \<open>transition_system\<close> (an invariant kept by all steps holds in every
    reachable state, given by the grid, the terminal, the popup, the file table and the transfer center).
  \<^item> \<open>Snippet\<close>, \<open>SnippetSession\<close> (\<open>gpui_term/src/snippet.rs\<close>) and \<open>SnippetView\<close>
    (\<open>view/mod.rs\<close>, \<open>view/suggestions.rs\<close>): the template parser, the editing session, and what the view
    sends to the line editor for each key. Shown: placeholder ranges, the session's invariant, isolation of
    placeholders, and that session and line editor stay in step except for the backspace in an empty
    placeholder. The line editor is an abstract one (insert, delete, move left) and a parameter of no
    theorem: its operations are what the bytes sent mean to a readline.
  \<^item> \<open>Suggest\<close>, \<open>SuggestLine\<close> (\<open>gpui_term/src/suggestions.rs\<close>, \<open>termua/src/static_suggestions.rs\<close>) and
    \<open>SuggestPopup\<close> (\<open>view/suggestions.rs\<close>): matching, completion, ranking, reading the typed line off
    the screen, and the popup's state machine. Shown: the fast path agrees with the general matcher and
    both with a specification, the ranking, the scan against a per-column reference, the popup's invariant,
    and what an accepting key types.
  \<^item> \<open>TransferCenter\<close> (\<open>gpui_transfer/src/lib.rs\<close>): tasks, groups, summaries; invariant of the four
    collections and refinement to an ordered list keyed by id.
  \<^item> \<open>PermitPool\<close> (\<open>gpui_common/src/limiter.rs\<close>): the pool as atomic steps under its mutex, with waiting
    futures that may be dropped at any time; the counter is the number of permits that are out, no future waits
    while one is free, and the leak of a permit
    granted to a future that is dropped before its next poll.
  \<^item> \<open>DockHistory\<close> (\<open>gpui_dock/src/history.rs\<close>, \<open>tiles.rs\<close>): versioned changes on two stacks; redo as
    the inverse of undo while the redo stack is free of the version undone, and the
    panic of undo after a tile was closed.
  \<^item> \<open>SftpTree\<close> (\<open>gpui_sftp/src/state.rs\<close>, \<open>view/path.rs\<close>) and \<open>SftpTable\<close>
    (\<open>view/table/navigation.rs\<close>, \<open>view/mod.rs\<close>): the tree, its flattening, the filter for hidden files;
    selection, navigation and listings in flight.
  \<^item> \<open>SshConfig\<close>, \<open>SshResolve\<close> (\<open>wezterm-ssh/src/config.rs\<close>): lines to stanzas with includes, pattern
    lists, merging, token and environment expansion, \<open>for_host\<close>. The regular expression engine, globbing,
    hashing and the host's environment are parameters.
  \<^item> \<open>Utf8\<close>, \<open>Cast\<close> (\<open>gpui_term/src/cast.rs\<close>, \<open>termua/src/cast_player.rs\<close>): recordings of sessions and their
    playback. Shown: the filter of the fish shell's probes against a reading from left to right, that a recording plays
    back, and that a character read in two pieces is lost. The JSON library and the times are parameters.
  \<^item> \<open>TermMode\<close>, \<open>KeyEscape\<close> (\<open>backends/alacritty/keys.rs\<close>), \<open>MouseReport\<close>
    (\<open>backends/alacritty/mouse.rs\<close>): keys and mouse events to bytes, with decoders as the specification.
  \<^item> \<open>TermCell\<close> (\<open>term/cell.rs\<close>, \<open>grid/row.rs\<close>) and \<open>GridStorage\<close> (\<open>grid/storage.rs\<close>): cells, rows and
    the ring buffer with its stable row ids, which is shown to implement a list of lines. The locale
    \<open>grid_cell\<close> is what a row asks of its cells.
  \<^item> \<open>Grid\<close>, \<open>GridScroll\<close>, \<open>GridOps\<close>, \<open>GridIds\<close>, \<open>GridProps\<close>, \<open>GridEdit\<close> (\<open>grid/mod.rs\<close>,
    \<open>grid/resize.rs\<close> for lines): the grid's operations; the loops analysed on the list of lines; invariant;
    stable ids and the binary search for them; the row of a line as the interface to the terminal.
  \<^item> \<open>GridReflow\<close>, \<open>ReflowText\<close> (\<open>grid/resize.rs\<close>, columns): both reflow loops, their end and the
    dimensions they leave; the text they keep (\<open>logical\<close>, the lines with wrapping undone), the lines they drop and
    the ids they renumber. Neither keeps the whole invariant of the grid (a row grown loses the mark of its modified
    cells): the theorems about the grid's operations hold up to and including the first change of columns.
    \<open>TermResize\<close>: \<open>Term::resize\<close> over both screens.
  \<^item> \<open>TermIndex\<close> (\<open>index.rs\<close>), \<open>Selection\<close> (\<open>selection.rs\<close>), \<open>TermSearch\<close> (\<open>term/search.rs\<close>): points
    and their numbering, anchors, and the searches for brackets, words and lines, with the ranges of
    selections that rest on them.
  \<^item> \<open>Term\<close>, \<open>TermOps\<close> (\<open>term/mod.rs\<close>): the terminal's state, damage and the operations of its handler
    (all but colours, the clipboard and the reports of modes and identity);
    \<open>TermWf\<close> and \<open>TermSafe\<close> carry the invariant through them by weakest preconditions (\<open>ends_in\<close>),
    \<open>TermProps\<close> states the terminal as a transition system that never panics (but for a full stack of
    keyboard modes) and what the single operations do to the cells.
    Resizing, vi motions and copying are no steps of that system; they have theories of their own, \<open>TermResize\<close>,
    \<open>ViMode\<close> and \<open>TermText\<close>. \<open>AltScreen\<close>: what stays of the primary screen while the alternate one is in use.
  \<^item> \<open>ViMode\<close> (\<open>vi_mode.rs\<close>): the motions of the vi cursor. \<open>TermText\<close>: the text of ranges and selections.

  BOUNDS AND FUEL. Includes of \<open>ssh_config\<close> files recurse with fuel, since a file may include itself: the
  theorems hold for every fuel. Expanding a token's value asks for one more level only and
  \<open>for_host_complete\<close> shows one level to be enough. The SFTP tree is walked with fuel one more than the
  number of its nodes, which \<open>visible_rows_complete\<close> shows to be enough because a directory occurs once.
  The walk of \<open>clear_viewport\<close> over empty lines has more
  fuel than the screen has cells, one step per cell. The loops of the vi cursor that skip over cells and the
  inner loop of \<open>shrink_columns\<close> are \<open>partial_function (option)\<close>; \<open>vi_motion_safe\<close> and \<open>resize_fits\<close> show that
  they return (with one column the latter need not: the view keeps a terminal at least two columns wide). All other loops are recursive functions proved to terminate.

  NOT MODELLED. Rendering, pixel geometry and animation (\<open>f32\<close> arithmetic of the gpui framework); the
  parser of escape sequences and the pseudo-terminals (the crates vte, polling and rustix); regular
  expression search (the automata of regex-automata);
  SSH and SFTP traffic (libssh, libssh2); SQLite statements of the session store, serde structures of the
  settings, network services of the assistant and of web sharing, PAM and the keychain.
\<close>

end
